(* ===== verification/Prelude.thy ===== *)
theory Prelude
  imports Main "HOL-Library.Word" "HOL-Library.AList" "HOL-Library.List_Lexorder"
begin

text \<open>
  Shared vocabulary of the development: the machine types of the Go sources, the errors of
  \<^verbatim>\<open>pkg/types/errors.go\<close> and \<^verbatim>\<open>pkg/storage/errors.go\<close>, results and panics, Go slices and maps,
  and the big-endian integer encodings of \<^verbatim>\<open>encoding/binary\<close>, with the generic lemmas that the
  component theories use.
\<close>

unbundle bit_operations_syntax

named_theorems go_defs "definitions of the Go runtime operations"

section \<open>Machine types\<close>

type_synonym byte = "8 word"
type_synonym bytes = "byte list"
type_synonym u16 = "16 word"
type_synonym u32 = "32 word"
type_synonym u64 = "64 word"

section \<open>Errors, panics and results\<close>

text \<open>
  One constructor per sentinel error, \<open>Errorf\<close> for a fresh error made from a format string,
  \<open>Wrapf\<close> for an error wrapped with \<^verbatim>\<open>%w\<close>, and \<open>Panic\<close> for a run-time panic, which no caller
  of the modelled code recovers.
\<close>

datatype error =
    ErrInvalidHashSize
  | ErrCorruptedNode | ErrInvalidNodeType | ErrHashMismatch | ErrInvalidProof
  | ErrKeyNotFound | ErrEmptyValue | ErrVersionNotFound | ErrNodeNotFound | ErrEmptyTree
  | ErrInvalidKey | ErrEmptyKey | ErrInvalidVersion | ErrValueTooLarge | ErrInvalidNibble
  | ErrInvalidNodeKey | ErrInvalidNibbleCount
  | ErrMaxDepthExceeded | ErrBatchTooLarge | ErrOutOfMemory
  | ErrInvalidVersionRange
  | ErrStorageFailure | ErrTransactionAborted | ErrDatabaseClosed
  | ErrTxConflict | ErrTxStateInvalid
  | ErrInvalidBackend | ErrPathRequired | ErrInvalidCacheSize | ErrInvalidWriteBufferSize
  | ErrInvalidCompression | ErrInvalidPruningPolicy
  | ErrStorageClosed | ErrTooManyIterators | ErrTooManySnapshots
  | Errorf string
  | Wrapf string error
  | Panic string

type_synonym 'a result = "error + 'a"

fun is_panic :: "error \<Rightarrow> bool" where
  "is_panic (Panic _) = True"
| "is_panic _ = False"

text \<open>\<^verbatim>\<open>fmt.Errorf("...: %w", err)\<close>: only an error that was returned can be wrapped, a panic goes on.\<close>

definition wrapE :: "string \<Rightarrow> error \<Rightarrow> error" where
  "wrapE msg e = (if is_panic e then e else Wrapf msg e)"

definition bindE :: "'a result \<Rightarrow> ('a \<Rightarrow> 'b result) \<Rightarrow> 'b result" where
  "bindE r f = (case r of Inl e \<Rightarrow> Inl e | Inr x \<Rightarrow> f x)"

definition is_ok :: "'a result \<Rightarrow> bool" where
  "is_ok r = (case r of Inl _ \<Rightarrow> False | Inr _ \<Rightarrow> True)"

section \<open>Slices\<close>

text \<open>A read or write out of range panics; \<open>go_copy\<close> is the builtin \<^verbatim>\<open>copy\<close>.\<close>

definition idx :: "'a list \<Rightarrow> nat \<Rightarrow> 'a result" where
  "idx xs i = (if i < length xs then Inr (xs ! i) else Inl (Panic ''index out of range''))"

definition setidx :: "'a list \<Rightarrow> nat \<Rightarrow> 'a \<Rightarrow> 'a list result" where
  "setidx xs i v = (if i < length xs then Inr (xs[i := v]) else Inl (Panic ''index out of range''))"

definition slice :: "'a list \<Rightarrow> nat \<Rightarrow> nat \<Rightarrow> 'a list" where
  "slice xs i j = take (j - i) (drop i xs)"

definition go_copy :: "'a list \<Rightarrow> 'a list \<Rightarrow> 'a list" where
  "go_copy dst src = take (length dst) src @ drop (length src) dst"

section \<open>Maps\<close>

text \<open>
  A Go map is an association list with distinct keys; the order of the list is one of the orders
  in which Go may iterate over the map.
\<close>

type_synonym ('k, 'v) gomap = "('k \<times> 'v) list"

abbreviation gm_get :: "('k, 'v) gomap \<Rightarrow> 'k \<Rightarrow> 'v option" where
  "gm_get m k \<equiv> map_of m k"

abbreviation gm_put :: "'k \<Rightarrow> 'v \<Rightarrow> ('k, 'v) gomap \<Rightarrow> ('k, 'v) gomap" where
  "gm_put k v m \<equiv> AList.update k v m"

abbreviation gm_del :: "'k \<Rightarrow> ('k, 'v) gomap \<Rightarrow> ('k, 'v) gomap" where
  "gm_del k m \<equiv> AList.delete k m"

abbreviation gm_wf :: "('k, 'v) gomap \<Rightarrow> bool" where
  "gm_wf m \<equiv> distinct (map fst m)"

section \<open>Big-endian integers\<close>

text \<open>\<open>be_put n w\<close> writes the low \<open>n\<close> bytes of \<open>w\<close>, \<open>be_get\<close> reads them back.\<close>

definition be_put :: "nat \<Rightarrow> 'a::len word \<Rightarrow> bytes" where
  "be_put n w = map (\<lambda>i. ucast (drop_bit (8 * (n - 1 - i)) w)) [0..<n]"

definition be_get :: "bytes \<Rightarrow> 'a::len word" where
  "be_get bs = foldl (\<lambda>acc b. push_bit 8 acc OR ucast b) 0 bs"

section \<open>Lemmas on results\<close>

lemma bindE_Inl [simp]: "bindE (Inl e) f = Inl e"
  by (simp add: bindE_def)

lemma bindE_Inr [simp]: "bindE (Inr x) f = f x"
  by (simp add: bindE_def)

lemma bindE_eq_Inr: "bindE r f = Inr y \<longleftrightarrow> (\<exists>x. r = Inr x \<and> f x = Inr y)"
  by (cases r) auto

lemma is_ok_simps [simp]: "is_ok (Inr x)" "\<not> is_ok (Inl e)"
  by (simp_all add: is_ok_def)

lemma is_ok_iff: "is_ok r \<longleftrightarrow> (\<exists>x. r = Inr x)"
  by (cases r) auto

lemma idx_in [simp]: "i < length xs \<Longrightarrow> idx xs i = Inr (xs ! i)"
  by (simp add: idx_def)

lemma setidx_in [simp]: "i < length xs \<Longrightarrow> setidx xs i v = Inr (xs[i := v])"
  by (simp add: setidx_def)

section \<open>Lemmas on slices\<close>

lemma go_copy_same [simp]: "length src = length dst \<Longrightarrow> go_copy dst src = src"
  by (simp add: go_copy_def)

lemma length_go_copy [simp]: "length (go_copy dst src) = length dst"
  by (simp add: go_copy_def)

lemma go_copy_replicate_Suc:
  "go_copy (replicate (Suc (length xs)) z) xs = xs @ [z]"
  by (simp add: go_copy_def flip: replicate_append_same)

lemma slice_full: "slice xs 0 (length xs) = xs"
  by (simp add: slice_def)

lemma slice_append [simp]:
  "length xs = i \<Longrightarrow> slice (xs @ ys) i (i + n) = take n ys"
  by (simp add: slice_def)

lemma length_slice [simp]: "j \<le> length xs \<Longrightarrow> length (slice xs i j) = j - i"
  by (simp add: slice_def)

text \<open>Reading at an offset that is the length of what was written before.\<close>

lemma slice_offset: "slice (pre @ rest) (length pre + a) (length pre + b) = slice rest a b"
  by (simp add: slice_def)

lemma nth_offset: "(pre @ rest) ! (length pre + k) = rest ! k"
  by (simp add: nth_append)

lemma slice_prefix: "slice (xs @ ys) 0 (length xs) = xs"
  by (simp add: slice_def)

section \<open>Lemmas on maps\<close>

lemma gm_get_put [simp]: "gm_get (gm_put k v m) k' = (if k' = k then Some v else gm_get m k')"
  by (simp add: AList.update_conv')

lemma gm_get_del [simp]: "gm_get (gm_del k m) k' = (if k' = k then None else gm_get m k')"
  by (simp add: AList.delete_conv')

lemma gm_wf_put [simp]: "gm_wf m \<Longrightarrow> gm_wf (gm_put k v m)"
  by (rule AList.distinct_update)

lemma gm_wf_del [simp]: "gm_wf m \<Longrightarrow> gm_wf (gm_del k m)"
  by (rule AList.distinct_delete)

lemma gm_put_not_Nil [simp]: "gm_put k v m \<noteq> []"
  by (cases m) (auto split: if_splits)

lemma gm_get_mem: "gm_wf m \<Longrightarrow> (k, v) \<in> set m \<longleftrightarrow> gm_get m k = Some v"
  by simp

lemma gm_Nil_iff: "m = [] \<longleftrightarrow> (\<forall>k. gm_get m k = None)"
  by (cases m) (auto simp: fun_upd_def split: if_splits)

lemma gm_length: "gm_wf m \<Longrightarrow> length m = card (dom (gm_get m))"
  by (metis distinct_card dom_map_of_conv_image_fst length_map list.set_map)

section \<open>Lemmas on big-endian integers\<close>

lemma length_be_put [simp]: "length (be_put n w) = n"
  by (simp add: be_put_def)

lemma push_drop_byte:
  fixes w :: "'a::len word"
  shows "push_bit 8 (drop_bit (8 + m) w) OR ucast (ucast (drop_bit m w) :: byte) = drop_bit m w"
proof (rule bit_word_eqI)
  fix n
  assume n: "n < LENGTH('a)"
  show "bit (push_bit 8 (drop_bit (8 + m) w) OR ucast (ucast (drop_bit m w) :: byte)) n
    \<longleftrightarrow> bit (drop_bit m w) n"
  proof (cases "n < 8")
    case True
    with n show ?thesis by (simp add: bit_simps)
  next
    case False
    then have "8 + m + (n - 8) = m + n" by simp
    with n False show ?thesis by (simp add: bit_simps)
  qed
qed

lemma be_get_prefix:
  fixes w :: "'a::len word"
  assumes "LENGTH('a) = 8 * n" and "k \<le> n"
  shows "foldl (\<lambda>acc b. push_bit 8 acc OR ucast b) 0
      (map (\<lambda>i. ucast (drop_bit (8 * (n - 1 - i)) w) :: byte) [0..<k]) = drop_bit (8 * (n - k)) w"
  using assms(2)
proof (induction k)
  case 0
  have "drop_bit (8 * n) w = 0"
    using assms(1) by (intro bit_word_eqI) (auto simp: bit_simps dest: bit_imp_le_length)
  then show ?case by simp
next
  case (Suc k)
  then have "8 * (n - k) = 8 + 8 * (n - Suc k)" by simp
  with Suc show ?case by (simp add: push_drop_byte)
qed

lemma be_get_put:
  fixes w :: "'a::len word"
  assumes "LENGTH('a) = 8 * n"
  shows "be_get (be_put n w) = w"
  using be_get_prefix [OF assms order_refl] by (simp add: be_get_def be_put_def)

lemma be_get_put_u16 [simp]: "be_get (be_put 2 w) = (w :: u16)"
  by (rule be_get_put) simp

lemma be_get_put_u32 [simp]: "be_get (be_put 4 w) = (w :: u32)"
  by (rule be_get_put) simp

lemma be_get_put_u64 [simp]: "be_get (be_put 8 w) = (w :: u64)"
  by (rule be_get_put) simp

lemma be_put_u64_inject [simp]: "be_put 8 v = be_put 8 w \<longleftrightarrow> v = (w :: u64)"
  by (metis be_get_put_u64)

lemma be_put_u16_inject [simp]: "be_put 2 v = be_put 2 w \<longleftrightarrow> v = (w :: u16)"
  by (metis be_get_put_u16)

end
