(* ===== verification/Keys.thy ===== *)
theory Keys
  imports Prelude
begin

text \<open>
  Keys, hashes and nibble paths: \<^verbatim>\<open>pkg/types/key.go\<close> and \<^verbatim>\<open>pkg/types/hash.go\<close>. A key or hash is
  a byte array of 32 entries; \<open>wf_key\<close> and \<open>wf_hash\<close> state the array length, which the Go type
  enforces. A \<open>NibblePath\<close> carries its length beside the slice, as the struct does; the loops
  read the slice up to that length and panic when the slice is shorter. \<open>wf_path\<close> says that the two
  agree, that every entry is a nibble and that the path is no longer than a key.
\<close>

section \<open>Types and constants\<close>

type_synonym key = bytes
type_synonym hash = bytes
type_synonym nibble = "8 word"

record NibblePath =
  Nibbles :: "nibble list"
  Length :: u16

definition KeySize :: nat where "KeySize = 32"
definition NibblePerByte :: int where "NibblePerByte = 2"
definition MaxNibbleValue :: nibble where "MaxNibbleValue = 15"
definition MaxTreeDepth :: nat where "MaxTreeDepth = 64"
definition MaxValueSize :: nat where "MaxValueSize = 2 ^ 20"
definition HashSize :: nat where "HashSize = 32"

definition wf_key :: "key \<Rightarrow> bool" where "wf_key k \<longleftrightarrow> length k = KeySize"
definition wf_hash :: "hash \<Rightarrow> bool" where "wf_hash h \<longleftrightarrow> length h = HashSize"

definition wf_path :: "NibblePath \<Rightarrow> bool" where
  "wf_path p \<longleftrightarrow> length (Nibbles p) = unat (Length p) \<and> length (Nibbles p) \<le> MaxTreeDepth
     \<and> (\<forall>n \<in> set (Nibbles p). n \<le> MaxNibbleValue)"

section \<open>Keys\<close>

definition KeyFromBytes :: "bytes \<Rightarrow> key result" where
  "KeyFromBytes b = (if length b \<noteq> KeySize then Inl (Wrapf ''key must be 32 bytes'' ErrInvalidKey) else Inr b)"

definition emptyKey :: key where "emptyKey = replicate KeySize 0"

definition Key_IsEmpty :: "key \<Rightarrow> bool" where
  "Key_IsEmpty k \<longleftrightarrow> k = emptyKey"

definition ValidateKey :: "key \<Rightarrow> unit result" where
  "ValidateKey k = (if Key_IsEmpty k then Inl ErrEmptyKey else Inr ())"

definition ExtractNibble :: "key \<Rightarrow> int \<Rightarrow> nibble result" where
  "ExtractNibble k depth =
     (if depth < 0 \<or> depth \<ge> int MaxTreeDepth then Inl (Wrapf ''depth out of range'' ErrInvalidNibble)
      else let byteIndex = nat (depth div NibblePerByte);
               nibbleIndex = depth mod NibblePerByte;
               b = k ! byteIndex
           in if nibbleIndex = 0 then Inr (drop_bit 4 b) else Inr (b AND 0x0F))"

fun ExtractNibbles :: "key \<Rightarrow> nat list \<Rightarrow> nibble list result" where
  "ExtractNibbles k [] = Inr []"
| "ExtractNibbles k (i # is) =
     (case ExtractNibble k (int i) of
        Inl err \<Rightarrow> Inl (Panic ''ExtractNibble failed for valid depth'')
      | Inr nibble \<Rightarrow> bindE (ExtractNibbles k is) (\<lambda>ns. Inr (nibble # ns)))"

definition ToNibblePath :: "key \<Rightarrow> NibblePath result" where
  "ToNibblePath k = bindE (ExtractNibbles k [0..<MaxTreeDepth])
     (\<lambda>nibbles. Inr \<lparr>Nibbles = nibbles, Length = of_nat MaxTreeDepth\<rparr>)"

definition ValidateNibble :: "nibble \<Rightarrow> unit result" where
  "ValidateNibble n =
     (if n > MaxNibbleValue then Inl (Wrapf ''nibble exceeds max value'' ErrInvalidNibble) else Inr ())"

section \<open>Nibble paths\<close>

text \<open>
  The loop shared by the comparisons: the first index below the bound at which the two slices
  differ, reading both slices at every index on the way.
\<close>

fun firstDiff :: "nibble list \<Rightarrow> nibble list \<Rightarrow> nat \<Rightarrow> nat \<Rightarrow> nat option result" where
  "firstDiff a b i 0 = Inr None"
| "firstDiff a b i (Suc left) =
     bindE (idx a i) (\<lambda>x. bindE (idx b i) (\<lambda>y.
       if x \<noteq> y then Inr (Some i) else firstDiff a b (Suc i) left))"

definition minLength :: "NibblePath \<Rightarrow> NibblePath \<Rightarrow> u16" where
  "minLength np other = (if Length other < Length np then Length other else Length np)"

definition NibblePath_Compare :: "NibblePath \<Rightarrow> NibblePath \<Rightarrow> int result" where
  "NibblePath_Compare np other =
     bindE (firstDiff (Nibbles np) (Nibbles other) 0 (unat (minLength np other)))
       (\<lambda>d. case d of
          Some i \<Rightarrow> if Nibbles np ! i < Nibbles other ! i then Inr (-1) else Inr 1
        | None \<Rightarrow> if Length np < Length other then Inr (-1)
                  else if Length np > Length other then Inr 1 else Inr 0)"

definition CommonPrefixLength :: "NibblePath \<Rightarrow> NibblePath \<Rightarrow> nat result" where
  "CommonPrefixLength np other =
     bindE (firstDiff (Nibbles np) (Nibbles other) 0 (unat (minLength np other)))
       (\<lambda>d. case d of Some i \<Rightarrow> Inr i | None \<Rightarrow> Inr (unat (minLength np other)))"

definition GetNibble :: "NibblePath \<Rightarrow> int \<Rightarrow> nibble result" where
  "GetNibble np index =
     (if index < 0 \<or> index \<ge> int (unat (Length np)) then Inl (Errorf ''nibble index out of bounds'')
      else idx (Nibbles np) (nat index))"

definition emptyPath :: NibblePath where
  "emptyPath = \<lparr>Nibbles = [], Length = 0\<rparr>"

definition NibblePath_Prefix :: "NibblePath \<Rightarrow> int \<Rightarrow> NibblePath result" where
  "NibblePath_Prefix np len =
     (if len \<le> 0 then Inr emptyPath
      else let l = (if len > int (unat (Length np)) then unat (Length np) else nat len)
           in if l > length (Nibbles np) then Inl (Panic ''slice bounds out of range'')
              else Inr \<lparr>Nibbles = go_copy (replicate l 0) (take l (Nibbles np)), Length = of_nat l\<rparr>)"

definition NibblePath_Equals :: "NibblePath \<Rightarrow> NibblePath \<Rightarrow> bool result" where
  "NibblePath_Equals np other =
     (if Length np \<noteq> Length other then Inr False
      else bindE (firstDiff (Nibbles np) (Nibbles other) 0 (unat (Length np)))
             (\<lambda>d. Inr (d = None)))"

definition NibblePath_Append :: "NibblePath \<Rightarrow> nibble \<Rightarrow> NibblePath result" where
  "NibblePath_Append np nibble =
     bindE (setidx (go_copy (replicate (unat (Length np + 1)) 0) (Nibbles np)) (unat (Length np)) nibble)
       (\<lambda>newNibbles. Inr \<lparr>Nibbles = newNibbles, Length = Length np + 1\<rparr>)"

definition IsPrefix :: "NibblePath \<Rightarrow> NibblePath \<Rightarrow> bool result" where
  "IsPrefix np other =
     (if Length np > Length other then Inr False
      else bindE (firstDiff (Nibbles np) (Nibbles other) 0 (unat (Length np)))
             (\<lambda>d. Inr (d = None)))"

definition NibblePath_Skip :: "NibblePath \<Rightarrow> int \<Rightarrow> NibblePath result" where
  "NibblePath_Skip np count =
     (if count \<ge> int (unat (Length np)) then Inr emptyPath
      else if count \<le> 0 then Inr np
      else let newLength = unat (Length np) - nat count
           in if nat count > length (Nibbles np) then Inl (Panic ''slice bounds out of range'')
              else Inr \<lparr>Nibbles = go_copy (replicate newLength 0) (drop (nat count) (Nibbles np)),
                        Length = of_nat newLength\<rparr>)"

definition NewNibblePath :: "bytes \<Rightarrow> NibblePath" where
  "NewNibblePath data =
     (let nibbles = concat (map (\<lambda>b. [drop_bit 4 b, b AND 0x0F]) data)
      in \<lparr>Nibbles = nibbles, Length = of_nat (length nibbles)\<rparr>)"

fun packNibbles :: "nibble list \<Rightarrow> nat \<Rightarrow> nat \<Rightarrow> bytes result" where
  "packNibbles ns i 0 = Inr []"
| "packNibbles ns i (Suc left) =
     bindE (idx ns (i * 2)) (\<lambda>high. bindE (idx ns (i * 2 + 1)) (\<lambda>low.
       bindE (packNibbles ns (Suc i) left) (\<lambda>rest. Inr ((push_bit 4 high OR low) # rest))))"

definition NibblePath_ToBytes :: "NibblePath \<Rightarrow> bytes result" where
  "NibblePath_ToBytes np =
     (if Length np mod 2 \<noteq> 0 then Inl (Errorf ''cannot convert odd-length nibble path to bytes'')
      else packNibbles (Nibbles np) 0 (unat (Length np div 2)))"

section \<open>Hashes\<close>

definition EmptyHash :: hash where "EmptyHash = replicate HashSize 0"

definition Hash_Equal :: "hash \<Rightarrow> hash \<Rightarrow> bool" where
  "Hash_Equal h other \<longleftrightarrow> h = other"

definition Hash_IsEmpty :: "hash \<Rightarrow> bool" where
  "Hash_IsEmpty h \<longleftrightarrow> h = EmptyHash"

definition HashFromBytes :: "bytes \<Rightarrow> hash result" where
  "HashFromBytes b = (if length b \<noteq> HashSize then Inl ErrInvalidHashSize else Inr b)"

text \<open>The nibble sequence of a key, the value of \<open>ToNibblePath\<close> as a list.\<close>

definition nibble_at :: "key \<Rightarrow> nat \<Rightarrow> nibble" where
  "nibble_at k i = (if even i then drop_bit 4 (k ! (i div 2)) else k ! (i div 2) AND 0x0F)"

definition nibbles_of :: "key \<Rightarrow> nibble list" where
  "nibbles_of k = map (nibble_at k) [0..<MaxTreeDepth]"

section \<open>Nibbles and bytes\<close>

lemmas size_defs = KeySize_def MaxTreeDepth_def HashSize_def MaxNibbleValue_def

lemma nibble_take_bit: "(n :: byte) \<le> MaxNibbleValue \<longleftrightarrow> take_bit 4 n = n"
proof -
  have "take_bit 4 n = n \<longleftrightarrow> unat (take_bit 4 n) = unat n"
    by (simp add: word_unat_eq_iff)
  also have "\<dots> \<longleftrightarrow> take_bit 4 (unat n) = unat n"
    by (simp add: unsigned_take_bit_eq)
  also have "\<dots> \<longleftrightarrow> unat n < 2 ^ 4"
    by (rule take_bit_nat_eq_self_iff)
  also have "\<dots> \<longleftrightarrow> n \<le> MaxNibbleValue"
    by (auto simp: MaxNibbleValue_def word_le_nat_alt)
  finally show ?thesis by simp
qed

lemma low_nibble_take_bit: "(b :: byte) AND 0x0F = take_bit 4 b"
  by (simp add: take_bit_eq_mask mask_eq_exp_minus_1)

lemma high_nibble_le [simp]: "drop_bit 4 (b :: byte) \<le> MaxNibbleValue"
  unfolding nibble_take_bit by (rule bit_word_eqI) (auto simp: bit_simps dest: bit_imp_le_length)

lemma low_nibble_le [simp]: "(b :: byte) AND 0x0F \<le> MaxNibbleValue"
  unfolding nibble_take_bit low_nibble_take_bit by simp

lemma nibble_bit: "(n :: byte) \<le> MaxNibbleValue \<Longrightarrow> bit n i \<Longrightarrow> i < 4"
  by (metis nibble_take_bit bit_take_bit_iff)

lemma unpack_high [simp]:
  "l \<le> MaxNibbleValue \<Longrightarrow> h \<le> MaxNibbleValue \<Longrightarrow> drop_bit 4 (push_bit 4 h OR l :: byte) = h"
  by (rule bit_word_eqI) (auto simp: bit_simps dest: nibble_bit)

lemma drop_nibble [simp]: "(l :: byte) \<le> MaxNibbleValue \<Longrightarrow> drop_bit 4 l = 0"
  by (rule bit_word_eqI) (auto simp: bit_simps dest: nibble_bit)

lemma drop_push_nibble [simp]: "(h :: byte) \<le> MaxNibbleValue \<Longrightarrow> drop_bit 4 (push_bit 4 h) = h"
  by (rule bit_word_eqI) (auto simp: bit_simps dest: nibble_bit)

lemma unpack_low [simp]:
  "l \<le> MaxNibbleValue \<Longrightarrow> (push_bit 4 h OR l :: byte) AND 0x0F = l"
  unfolding low_nibble_take_bit by (rule bit_word_eqI) (auto simp: bit_simps dest: nibble_bit)

lemma pack_unpack [simp]: "push_bit 4 (drop_bit 4 b) OR (b AND 0x0F) = (b :: byte)"
  unfolding low_nibble_take_bit by (rule bit_word_eqI) (auto simp: bit_simps)

section \<open>The nibble path of a key\<close>

lemma length_nibbles_of [simp]: "length (nibbles_of k) = MaxTreeDepth"
  by (simp add: nibbles_of_def)

lemma nibbles_of_nth [simp]: "i < MaxTreeDepth \<Longrightarrow> nibbles_of k ! i = nibble_at k i"
  by (simp add: nibbles_of_def)

lemma nibble_at_le [simp]: "nibble_at k i \<le> MaxNibbleValue"
  by (simp add: nibble_at_def)

lemma set_nibbles_of: "n \<in> set (nibbles_of k) \<Longrightarrow> n \<le> MaxNibbleValue"
  by (auto simp: nibbles_of_def)

lemma ExtractNibble_nat:
  assumes "i < MaxTreeDepth"
  shows "ExtractNibble k (int i) = Inr (nibble_at k i)"
proof -
  have "nat (int i div 2) = i div 2" by (simp add: nat_div_distrib)
  moreover have "int i mod 2 = 0 \<longleftrightarrow> even i" by presburger
  ultimately show ?thesis
    using assms by (simp add: ExtractNibble_def nibble_at_def NibblePerByte_def)
qed

lemma ExtractNibbles_nat:
  "set is \<subseteq> {..<MaxTreeDepth} \<Longrightarrow> ExtractNibbles k is = Inr (map (nibble_at k) is)"
  by (induction "is") (auto simp: ExtractNibble_nat)

lemma ToNibblePath_eq [simp]:
  "ToNibblePath k = Inr \<lparr>Nibbles = nibbles_of k, Length = of_nat MaxTreeDepth\<rparr>"
proof -
  have "ExtractNibbles k [0..<MaxTreeDepth] = Inr (map (nibble_at k) [0..<MaxTreeDepth])"
    by (rule ExtractNibbles_nat) auto
  then show ?thesis by (simp add: ToNibblePath_def nibbles_of_def)
qed

lemma wf_path_of_key [simp]: "wf_path \<lparr>Nibbles = nibbles_of k, Length = of_nat MaxTreeDepth\<rparr>"
  by (auto simp: wf_path_def MaxTreeDepth_def dest: set_nibbles_of)

lemma nibbles_of_inject:
  assumes "wf_key k" and "wf_key k'" and "nibbles_of k = nibbles_of k'"
  shows "k = k'"
proof (rule nth_equalityI)
  show "length k = length k'" using assms by (simp add: wf_key_def)
next
  fix i
  assume "i < length k"
  then have i: "2 * i < MaxTreeDepth" "2 * i + 1 < MaxTreeDepth"
    using assms(1) by (auto simp: wf_key_def size_defs)
  have "nibble_at k (2 * i) = nibble_at k' (2 * i)" "nibble_at k (2 * i + 1) = nibble_at k' (2 * i + 1)"
    using assms(3) i by (metis nibbles_of_nth)+
  then have "drop_bit 4 (k ! i) = drop_bit 4 (k' ! i)" "k ! i AND 0x0F = k' ! i AND 0x0F"
    by (simp_all add: nibble_at_def)
  then show "k ! i = k' ! i" by (metis pack_unpack)
qed

lemma nibbles_of_eq_iff: "wf_key k \<Longrightarrow> wf_key k' \<Longrightarrow> nibbles_of k = nibbles_of k' \<longleftrightarrow> k = k'"
  using nibbles_of_inject by blast

section \<open>Path operations on well-formed paths\<close>

text \<open>The list-level meaning of the comparison loop.\<close>

fun lcp :: "'a list \<Rightarrow> 'a list \<Rightarrow> nat" where
  "lcp (x # xs) (y # ys) = (if x = y then Suc (lcp xs ys) else 0)"
| "lcp _ _ = 0"

lemma lcp_le: "lcp xs ys \<le> length xs" "lcp xs ys \<le> length ys"
  by (induction xs ys rule: lcp.induct) auto

lemma lcp_take: "take (lcp xs ys) xs = take (lcp xs ys) ys"
  by (induction xs ys rule: lcp.induct) auto

lemma lcp_nth: "lcp xs ys < length xs \<Longrightarrow> lcp xs ys < length ys \<Longrightarrow> xs ! lcp xs ys \<noteq> ys ! lcp xs ys"
  by (induction xs ys rule: lcp.induct) auto

lemma lcp_full: "length xs \<le> length ys \<Longrightarrow> lcp xs ys = length xs \<longleftrightarrow> xs = take (length xs) ys"
  by (induction xs ys rule: lcp.induct) auto

lemma lcp_commute: "lcp xs ys = lcp ys xs"
  by (induction xs ys rule: lcp.induct) auto

lemma firstDiff_eq:
  assumes "i + n \<le> length a" and "i + n \<le> length b"
  shows "firstDiff a b i n = Inr (let j = lcp (take n (drop i a)) (take n (drop i b))
     in if j < n then Some (i + j) else None)"
  using assms
proof (induction n arbitrary: i)
  case 0
  then show ?case by simp
next
  case (Suc n)
  then have d: "drop i a = a ! i # drop (Suc i) a" "drop i b = b ! i # drop (Suc i) b"
    by (simp_all add: Cons_nth_drop_Suc)
  from Suc show ?case by (auto simp: d Let_def)
qed

lemma firstDiff_0:
  assumes "n = min (length a) (length b)"
  shows "firstDiff a b 0 n = Inr (if lcp a b < n then Some (lcp a b) else None)"
proof -
  have "lcp (take n a) (take n b) = lcp a b"
    using assms by (induction a b arbitrary: n rule: lcp.induct) (auto split: nat.splits)
  then show ?thesis using assms by (simp add: firstDiff_eq Let_def)
qed

text \<open>The path with a given list of nibbles; every well-formed path has this form.\<close>

definition mkpath :: "nibble list \<Rightarrow> NibblePath" where
  "mkpath ns = \<lparr>Nibbles = ns, Length = of_nat (length ns)\<rparr>"

definition wf_nibbles :: "nibble list \<Rightarrow> bool" where
  "wf_nibbles ns \<longleftrightarrow> length ns \<le> MaxTreeDepth \<and> (\<forall>n \<in> set ns. n \<le> MaxNibbleValue)"

lemma Nibbles_mkpath [simp]: "Nibbles (mkpath ns) = ns"
  by (simp add: mkpath_def)

lemma unat_Length_mkpath [simp]: "length ns \<le> MaxTreeDepth \<Longrightarrow> unat (Length (mkpath ns)) = length ns"
  by (simp add: mkpath_def MaxTreeDepth_def unsigned_of_nat take_bit_nat_eq_self)

lemma uint_Length_mkpath [simp]: "length ns \<le> MaxTreeDepth \<Longrightarrow> uint (Length (mkpath ns)) = int (length ns)"
  by (metis unat_Length_mkpath int_eq_iff uint_nat)

lemma wf_nibblesD [dest]: "wf_nibbles ns \<Longrightarrow> length ns \<le> MaxTreeDepth"
  by (simp add: wf_nibbles_def)

lemma wf_path_mkpath [simp]: "wf_path (mkpath ns) \<longleftrightarrow> wf_nibbles ns"
  by (auto simp: wf_path_def wf_nibbles_def)

lemma wf_path_mkpathE: "wf_path p \<Longrightarrow> p = mkpath (Nibbles p)"
  by (cases p) (auto simp: wf_path_def mkpath_def)

lemma wf_path_nibbles: "wf_path p \<Longrightarrow> wf_nibbles (Nibbles p)"
  by (auto simp: wf_path_def wf_nibbles_def)

lemma wf_nibbles_take [simp]: "wf_nibbles ns \<Longrightarrow> wf_nibbles (take n ns)"
  by (auto simp: wf_nibbles_def dest: in_set_takeD)

lemma wf_nibbles_drop [simp]: "wf_nibbles ns \<Longrightarrow> wf_nibbles (drop n ns)"
  by (auto simp: wf_nibbles_def dest: in_set_dropD)

lemma wf_nibbles_snoc:
  "wf_nibbles ns \<Longrightarrow> n \<le> MaxNibbleValue \<Longrightarrow> length ns < MaxTreeDepth \<Longrightarrow> wf_nibbles (ns @ [n])"
  by (auto simp: wf_nibbles_def)

lemma wf_nibbles_Nil [simp]: "wf_nibbles []"
  by (simp add: wf_nibbles_def)

lemma wf_nibbles_of [simp]: "wf_nibbles (nibbles_of k)"
  by (auto simp: wf_nibbles_def dest: set_nibbles_of)

lemma emptyPath_mkpath: "emptyPath = mkpath []"
  by (simp add: emptyPath_def mkpath_def)

lemma ToNibblePath_mkpath: "ToNibblePath k = Inr (mkpath (nibbles_of k))"
  by (simp add: mkpath_def)

lemma mkpath_inject [simp]: "mkpath ns = mkpath ms \<longleftrightarrow> ns = ms"
  by (auto simp: mkpath_def)

lemma mkpath_fold: "length ns = n \<Longrightarrow> \<lparr>Nibbles = ns, Length = of_nat n\<rparr> = mkpath ns"
  by (simp add: mkpath_def)

lemma Prefix_mkpath [simp]:
  assumes "length ns \<le> MaxTreeDepth"
  shows "NibblePath_Prefix (mkpath ns) (int n) = Inr (mkpath (take n ns))"
proof (cases "n \<le> length ns")
  case True
  with assms show ?thesis
    by (auto simp: NibblePath_Prefix_def Let_def emptyPath_mkpath mkpath_fold)
next
  case False
  with assms show ?thesis
    by (auto simp: NibblePath_Prefix_def Let_def emptyPath_mkpath mkpath_fold)
qed

lemma Append_mkpath [simp]:
  assumes "length ns < MaxTreeDepth"
  shows "NibblePath_Append (mkpath ns) n = Inr (mkpath (ns @ [n]))"
proof -
  have len: "unat (Length (mkpath ns) + 1) = Suc (length ns)"
  proof -
    have "unat (of_nat (Suc (length ns)) :: u16) = Suc (length ns)"
      using assms by (simp add: MaxTreeDepth_def unsigned_of_nat take_bit_nat_eq_self del: of_nat_Suc)
    then show ?thesis by (simp add: mkpath_def add.commute)
  qed
  have "go_copy (replicate (Suc (length ns)) 0) ns = ns @ [0]"
    by (rule go_copy_replicate_Suc)
  with len assms show ?thesis
    by (simp add: NibblePath_Append_def list_update_append del: replicate_Suc)
      (simp add: mkpath_def add.commute)
qed

lemma Equals_mkpath [simp]:
  assumes "length ns \<le> MaxTreeDepth" and "length ms \<le> MaxTreeDepth"
  shows "NibblePath_Equals (mkpath ns) (mkpath ms) = Inr (ns = ms)"
proof (cases "length ns = length ms")
  case True
  then have "lcp ns ms < length ns \<longleftrightarrow> ns \<noteq> ms"
    using lcp_full [of ns ms] lcp_le [of ns ms] by fastforce
  with True assms show ?thesis
    by (auto simp: NibblePath_Equals_def firstDiff_0)
next
  case False
  then have "Length (mkpath ns) \<noteq> Length (mkpath ms)"
    using assms by (metis unat_Length_mkpath)
  with False show ?thesis by (auto simp: NibblePath_Equals_def)
qed

lemma Length_less_mkpath [simp]:
  "length ns \<le> MaxTreeDepth \<Longrightarrow> length ms \<le> MaxTreeDepth \<Longrightarrow>
     Length (mkpath ns) < Length (mkpath ms) \<longleftrightarrow> length ns < length ms"
  by (simp add: word_less_nat_alt)

lemma unat_minLength_mkpath [simp]:
  "length ns \<le> MaxTreeDepth \<Longrightarrow> length ms \<le> MaxTreeDepth \<Longrightarrow>
     unat (minLength (mkpath ns) (mkpath ms)) = min (length ns) (length ms)"
  by (simp add: minLength_def)

lemma IsPrefix_mkpath [simp]:
  assumes "length ns \<le> MaxTreeDepth" and "length ms \<le> MaxTreeDepth"
  shows "IsPrefix (mkpath ns) (mkpath ms) = Inr (ns = take (length ns) ms)"
proof (cases "length ns \<le> length ms")
  case True
  then have "lcp ns ms < length ns \<longleftrightarrow> ns \<noteq> take (length ns) ms"
    using lcp_full [of ns ms] lcp_le [of ns ms] by fastforce
  with True assms show ?thesis
    by (auto simp: IsPrefix_def firstDiff_0)
next
  case False
  then have "ns \<noteq> take (length ns) ms" by (metis length_take min.absorb_iff1 min.commute nat_le_linear)
  with False assms show ?thesis by (simp add: IsPrefix_def)
qed

lemma CommonPrefixLength_mkpath [simp]:
  assumes "length ns \<le> MaxTreeDepth" and "length ms \<le> MaxTreeDepth"
  shows "CommonPrefixLength (mkpath ns) (mkpath ms) = Inr (lcp ns ms)"
  using assms lcp_le [of ns ms] by (auto simp: CommonPrefixLength_def firstDiff_0)

lemma lcp_less: "lcp xs ys < min (length xs) (length ys) \<Longrightarrow> xs ! lcp xs ys < ys ! lcp xs ys \<longleftrightarrow> xs < ys"
  for xs ys :: "'a::linorder list"
  by (induction xs ys rule: lcp.induct) auto

lemma lcp_less_length:
  "\<not> lcp xs ys < min (length xs) (length ys) \<Longrightarrow> xs < ys \<longleftrightarrow> length xs < length ys"
  for xs ys :: "'a::linorder list"
  by (induction xs ys rule: lcp.induct)
    (auto split: if_splits simp: neq_Nil_conv, metis list.exhaust order_less_irrefl)

lemma lcp_eq: "xs = ys \<longleftrightarrow> \<not> lcp xs ys < min (length xs) (length ys) \<and> length xs = length ys"
  by (induction xs ys rule: lcp.induct) auto

lemma Compare_mkpath:
  assumes "length ns \<le> MaxTreeDepth" and "length ms \<le> MaxTreeDepth"
  shows "NibblePath_Compare (mkpath ns) (mkpath ms) =
     Inr (if ns < ms then -1 else if ns = ms then 0 else 1)"
proof (cases "lcp ns ms < min (length ns) (length ms)")
  case True
  with assms lcp_less [OF True] lcp_eq [of ns ms] show ?thesis
    by (auto simp: NibblePath_Compare_def firstDiff_0)
next
  case False
  with assms lcp_less_length [OF False] lcp_eq [of ns ms] show ?thesis
    by (auto simp: NibblePath_Compare_def firstDiff_0)
qed

lemma Skip_mkpath:
  assumes "length ns \<le> MaxTreeDepth"
  shows "NibblePath_Skip (mkpath ns) (int n) = Inr (mkpath (drop n ns))"
proof (cases "n \<ge> length ns")
  case True
  with assms show ?thesis by (simp add: NibblePath_Skip_def emptyPath_mkpath)
next
  case False
  with assms show ?thesis
    by (auto simp: NibblePath_Skip_def Let_def mkpath_fold)
qed

section \<open>Bytes and paths\<close>

lemma length_concat_pairs [simp]: "length (concat (map (\<lambda>b. [f b, g b]) xs)) = 2 * length xs"
  by (induction xs) auto

lemma concat_pairs_nth:
  "i < length xs \<Longrightarrow> concat (map (\<lambda>b. [f b, g b]) xs) ! (i * 2) = f (xs ! i)"
  "i < length xs \<Longrightarrow> concat (map (\<lambda>b. [f b, g b]) xs) ! Suc (i * 2) = g (xs ! i)"
  by (induction xs arbitrary: i) (auto simp: nth_Cons' less_Suc_eq_0_disj)

lemma packNibbles_concat:
  "i + n \<le> length xs \<Longrightarrow>
     packNibbles (concat (map (\<lambda>b. [drop_bit 4 b, b AND 0x0F]) xs)) i n = Inr (take n (drop i xs))"
proof (induction n arbitrary: i)
  case 0
  then show ?case by simp
next
  case (Suc n)
  then have "take (Suc n) (drop i xs) = xs ! i # take n (drop (Suc i) xs)"
    by (simp add: Cons_nth_drop_Suc [symmetric])
  with Suc show ?case
    by (simp add: concat_pairs_nth)
qed

lemma nibbles_of_concat:
  assumes "wf_key k"
  shows "nibbles_of k = concat (map (\<lambda>b. [drop_bit 4 b, b AND 0x0F]) k)" (is "_ = ?c")
proof (rule nth_equalityI)
  show len: "length (nibbles_of k) = length ?c" using assms by (simp add: wf_key_def size_defs)
  fix i
  assume "i < length (nibbles_of k)"
  then have i: "i < MaxTreeDepth" by simp
  then have j: "i div 2 < length k" using assms by (simp add: wf_key_def size_defs)
  have "i = i div 2 * 2 \<or> i = Suc (i div 2 * 2)" by presburger
  then show "nibbles_of k ! i = ?c ! i"
  proof
    assume e: "i = i div 2 * 2"
    then have "nibble_at k i = drop_bit 4 (k ! (i div 2))"
      unfolding nibble_at_def by (metis dvd_triv_right)
    with i e concat_pairs_nth(1) [OF j, of "drop_bit 4" "\<lambda>b. b AND 0x0F"] show ?thesis by simp
  next
    assume o: "i = Suc (i div 2 * 2)"
    then have "nibble_at k i = k ! (i div 2) AND 0x0F"
      unfolding nibble_at_def by (metis dvd_triv_right even_Suc)
    with i o concat_pairs_nth(2) [OF j, of "drop_bit 4" "\<lambda>b. b AND 0x0F"] show ?thesis by simp
  qed
qed

section \<open>Properties\<close>

text \<open>
  On well-formed paths \<open>Compare\<close> is the three-way comparison of the lexicographic order on
  nibble sequences, so sorting by it is sorting lexicographically, and it is 0 exactly on equal paths.
\<close>

theorem path_compare_lexicographic:
  assumes "wf_path p" and "wf_path q"
  shows "NibblePath_Compare p q = Inr (if Nibbles p < Nibbles q then -1 else if p = q then 0 else 1)"
proof -
  obtain ns ms where p: "p = mkpath ns" and q: "q = mkpath ms"
    using wf_path_mkpathE [OF assms(1)] wf_path_mkpathE [OF assms(2)] by blast
  with assms show ?thesis by (simp add: wf_nibblesD Compare_mkpath)
qed

theorem path_compare_lexicographic_witness:
  "NibblePath_Compare (mkpath [3, 15]) (mkpath [3, 15, 0]) = Inr (-1)
   \<and> NibblePath_Compare (mkpath [4]) (mkpath [3, 15, 0]) = Inr 1"
proof -
  have "wf_path (mkpath [3, 15])" "wf_path (mkpath [3, 15, 0])" "wf_path (mkpath [4])"
    by (simp_all add: wf_nibbles_def size_defs)
  then show ?thesis
    using path_compare_lexicographic [of "mkpath [3, 15]" "mkpath [3, 15, 0]"]
      path_compare_lexicographic [of "mkpath [4]" "mkpath [3, 15, 0]"] by simp
qed

text \<open>
  The nibble path of a key has 64 nibbles below 16, packing it with \<open>ToBytes\<close> gives the key
  back, and unpacking the key with \<open>NewNibblePath\<close> gives the same path: two keys with the same
  path are equal.
\<close>

theorem key_path_roundtrip:
  assumes "wf_key k"
  shows "\<exists>p. ToNibblePath k = Inr p \<and> wf_path p \<and> unat (Length p) = MaxTreeDepth
    \<and> NibblePath_ToBytes p = Inr k \<and> NewNibblePath k = p"
proof -
  have "NewNibblePath k = mkpath (nibbles_of k)"
    by (simp add: NewNibblePath_def nibbles_of_concat [OF assms] mkpath_def)
  moreover have "NibblePath_ToBytes (mkpath (nibbles_of k)) = Inr k"
    using packNibbles_concat [of 0 32 k] assms
    by (simp add: NibblePath_ToBytes_def nibbles_of_concat [OF assms] wf_key_def size_defs mkpath_def)
  ultimately show ?thesis by (simp only: ToNibblePath_mkpath) simp
qed

theorem key_path_roundtrip_witness:
  "\<exists>p. ToNibblePath (replicate 32 0x5a) = Inr p \<and> NibblePath_ToBytes p = Inr (replicate 32 0x5a)"
  using key_path_roundtrip [of "replicate 32 0x5a"] by (auto simp: wf_key_def KeySize_def)

end
