(* ===== verification/NodeKeys.thy ===== *)
theory NodeKeys
  imports Keys
begin

text \<open>
  Node keys and versions: \<^verbatim>\<open>pkg/types/nodekey.go\<close>. A node key is a version and a nibble path; it is
  stored as \<^verbatim>\<open>version(8) || count(2) || packed nibbles\<close>. The locale \<open>node_key_codec\<close> states what the
  rest of the program relies on in an encoding of node keys: it does not fail on well-formed keys and
  can be read back, so distinct keys have distinct encodings.
\<close>

section \<open>Data\<close>

type_synonym version = u64

record NodeKey =
  nk_Version :: version
  nk_NibblePath :: NibblePath

definition MaxVersion :: version where "MaxVersion = NOT 0 - 1"
definition InitialVersion :: version where "InitialVersion = 0"
definition NodeKeyPrefix :: bytes where "NodeKeyPrefix = [0x6e]"
definition RootKeyPrefix :: bytes where "RootKeyPrefix = [0x72]"

text \<open>The zero value \<^verbatim>\<open>NodeKey{}\<close>, used for a node that does not exist.\<close>

definition zeroNodeKey :: NodeKey where
  "zeroNodeKey = \<lparr>nk_Version = 0, nk_NibblePath = \<lparr>Nibbles = [], Length = 0\<rparr>\<rparr>"

section \<open>Operations\<close>

definition RootNodeKey :: "version \<Rightarrow> NodeKey" where
  "RootNodeKey version = \<lparr>nk_Version = version, nk_NibblePath = \<lparr>Nibbles = [], Length = 0\<rparr>\<rparr>"

definition NodeKey_Child :: "NodeKey \<Rightarrow> nibble \<Rightarrow> version \<Rightarrow> NodeKey result" where
  "NodeKey_Child nk nibble childVersion =
     (let np = nk_NibblePath nk
      in bindE (setidx (go_copy (replicate (unat (Length np + 1)) 0) (Nibbles np)) (unat (Length np)) nibble)
           (\<lambda>newNibbles. Inr \<lparr>nk_Version = childVersion,
              nk_NibblePath = \<lparr>Nibbles = newNibbles, Length = Length np + 1\<rparr>\<rparr>))"

definition IsRoot :: "NodeKey \<Rightarrow> bool" where
  "IsRoot nk \<longleftrightarrow> Length (nk_NibblePath nk) = 0"

text \<open>
  The packing loop of \<open>EncodeNodeKey\<close>: \<open>i\<close> advances by two, \<open>room\<close> is what is left of the buffer,
  whose size is computed in 16-bit arithmetic.
\<close>

fun encodeNibbles :: "nibble list \<Rightarrow> nat \<Rightarrow> nat \<Rightarrow> nat \<Rightarrow> nat \<Rightarrow> bytes result" where
  "encodeNibbles ns len room i 0 = Inr []"
| "encodeNibbles ns len room i (Suc left) =
     bindE (idx ns i) (\<lambda>high.
     bindE (if i + 1 < len then idx ns (i + 1) else Inr 0) (\<lambda>low.
       if room = 0 then Inl (Panic ''index out of range'')
       else bindE (encodeNibbles ns len (room - 1) (i + 2) left)
              (\<lambda>rest. Inr ((push_bit 4 high OR low) # rest))))"

definition EncodeNodeKey :: "NodeKey \<Rightarrow> bytes result" where
  "EncodeNodeKey key =
     (let np = nk_NibblePath key;
          nibbleBytes = (Length np + 1) div 2
      in bindE (encodeNibbles (Nibbles np) (unat (Length np)) (unat nibbleBytes) 0 ((unat (Length np) + 1) div 2))
           (\<lambda>packed. Inr (be_put 8 (nk_Version key) @ be_put 2 (Length np) @ packed)))"

fun decodeNibbles :: "bytes \<Rightarrow> nat \<Rightarrow> nat \<Rightarrow> nibble list result" where
  "decodeNibbles buf offset 0 = Inr []"
| "decodeNibbles buf offset (Suc 0) = bindE (idx buf offset) (\<lambda>b. Inr [drop_bit 4 b])"
| "decodeNibbles buf offset (Suc (Suc n)) =
     bindE (idx buf offset) (\<lambda>b. bindE (decodeNibbles buf (offset + 1) n)
       (\<lambda>rest. Inr (drop_bit 4 b # (b AND 0x0F) # rest)))"

definition DecodeNodeKey :: "bytes \<Rightarrow> NodeKey result" where
  "DecodeNodeKey buf =
     (if length buf < 10 then Inl ErrInvalidNodeKey
      else let version = be_get (slice buf 0 8);
               nibbleCount = be_get (slice buf 8 10) :: u16
           in if nibbleCount > of_nat MaxTreeDepth
              then Inl (Wrapf ''count exceeds max'' ErrInvalidNibbleCount)
              else let expectedSize = 10 + (nibbleCount + 1) div 2
                   in if length buf < unat expectedSize
                      then Inl (Wrapf ''buffer too small'' ErrInvalidNodeKey)
                      else bindE (decodeNibbles buf 10 (unat nibbleCount))
                             (\<lambda>nibbles. Inr \<lparr>nk_Version = version,
                                nk_NibblePath = \<lparr>Nibbles = nibbles, Length = nibbleCount\<rparr>\<rparr>))"

definition StorageKey :: "NodeKey \<Rightarrow> bytes result" where
  "StorageKey nk = bindE (EncodeNodeKey nk) (\<lambda>encoded. Inr (NodeKeyPrefix @ encoded))"

definition NodeKey_Compare :: "NodeKey \<Rightarrow> NodeKey \<Rightarrow> int result" where
  "NodeKey_Compare nk other =
     (if nk_Version nk < nk_Version other then Inr (-1)
      else if nk_Version nk > nk_Version other then Inr 1
      else NibblePath_Compare (nk_NibblePath nk) (nk_NibblePath other))"

definition ValidateVersion :: "version \<Rightarrow> unit result" where
  "ValidateVersion v = (if v > MaxVersion then Inl ErrInvalidVersion else Inr ())"

definition EncodeVersion :: "version \<Rightarrow> bytes" where
  "EncodeVersion v = be_put 8 v"

definition DecodeVersion :: "bytes \<Rightarrow> version" where
  "DecodeVersion buf = be_get buf"

definition WithPath :: "NodeKey \<Rightarrow> NibblePath \<Rightarrow> NodeKey" where
  "WithPath nk path = \<lparr>nk_Version = nk_Version nk, nk_NibblePath = path\<rparr>"

definition ExtendPath :: "NodeKey \<Rightarrow> nibble \<Rightarrow> NodeKey result" where
  "ExtendPath nk nibble =
     bindE (NibblePath_Append (nk_NibblePath nk) nibble)
       (\<lambda>p. Inr \<lparr>nk_Version = nk_Version nk, nk_NibblePath = p\<rparr>)"

definition ParentKey :: "NodeKey \<Rightarrow> NodeKey result" where
  "ParentKey nk =
     (if Length (nk_NibblePath nk) = 0 then Inl (Errorf ''root node has no parent'')
      else bindE (NibblePath_Prefix (nk_NibblePath nk) (int (unat (Length (nk_NibblePath nk))) - 1))
             (\<lambda>p. Inr \<lparr>nk_Version = nk_Version nk, nk_NibblePath = p\<rparr>))"

definition Depth :: "NodeKey \<Rightarrow> nat" where
  "Depth nk = unat (Length (nk_NibblePath nk))"

section \<open>Well-formed node keys\<close>

definition wf_nodekey :: "NodeKey \<Rightarrow> bool" where
  "wf_nodekey nk \<longleftrightarrow> wf_path (nk_NibblePath nk)"

text \<open>The node key with a given version and nibbles; every well-formed node key has this form.\<close>

definition nkey :: "version \<Rightarrow> nibble list \<Rightarrow> NodeKey" where
  "nkey v ns = \<lparr>nk_Version = v, nk_NibblePath = mkpath ns\<rparr>"

fun pack :: "nibble list \<Rightarrow> bytes" where
  "pack [] = []"
| "pack [h] = [push_bit 4 h]"
| "pack (h # l # rest) = (push_bit 4 h OR l) # pack rest"

lemma nkey_simps [simp]:
  "nk_Version (nkey v ns) = v" "nk_NibblePath (nkey v ns) = mkpath ns"
  by (simp_all add: nkey_def)

lemma nkey_inject [simp]: "nkey v ns = nkey w ms \<longleftrightarrow> v = w \<and> ns = ms"
  by (auto simp: nkey_def)

lemma wf_nodekey_nkey [simp]: "wf_nodekey (nkey v ns) \<longleftrightarrow> wf_nibbles ns"
  by (simp add: wf_nodekey_def)

lemma wf_nodekeyE: "wf_nodekey nk \<Longrightarrow> nk = nkey (nk_Version nk) (Nibbles (nk_NibblePath nk))"
  by (cases nk) (simp add: wf_nodekey_def nkey_def flip: wf_path_mkpathE)

lemma RootNodeKey_nkey: "RootNodeKey v = nkey v []"
  by (simp add: RootNodeKey_def nkey_def mkpath_def)

lemma zeroNodeKey_nkey: "zeroNodeKey = nkey 0 []"
  by (simp add: zeroNodeKey_def nkey_def mkpath_def)

lemma NodeKey_Child_Append:
  "NodeKey_Child nk nibble v =
     bindE (NibblePath_Append (nk_NibblePath nk) nibble) (\<lambda>p. Inr \<lparr>nk_Version = v, nk_NibblePath = p\<rparr>)"
  by (simp add: NodeKey_Child_def NibblePath_Append_def Let_def bindE_def split: sum.split)

lemma NodeKey_Child_nkey [simp]:
  "length ns < MaxTreeDepth \<Longrightarrow> NodeKey_Child (nkey v ns) n w = Inr (nkey w (ns @ [n]))"
  by (simp add: NodeKey_Child_Append nkey_def)

section \<open>Encoding\<close>

lemma length_pack [simp]: "length (pack ns) = (length ns + 1) div 2"
  by (induction ns rule: pack.induct) auto

lemma encodeNibbles_eq:
  "length ms = i \<Longrightarrow> len = i + length ns \<Longrightarrow> room \<ge> (length ns + 1) div 2 \<Longrightarrow>
     encodeNibbles (ms @ ns) len room i ((length ns + 1) div 2) = Inr (pack ns)"
proof (induction ns arbitrary: ms i room rule: pack.induct)
  case 1
  then show ?case by simp
next
  case (2 h)
  then show ?case by (simp add: nth_append)
next
  case (3 h l rest)
  have "(length (h # l # rest) + 1) div 2 = Suc ((length rest + 1) div 2)" by simp
  moreover have "encodeNibbles (ms @ h # l # rest) len (room - 1) (i + 2) ((length rest + 1) div 2)
      = Inr (pack rest)"
    using "3.IH" [of "ms @ [h, l]" "i + 2" "room - 1"] "3.prems" by simp
  ultimately show ?case using "3.prems" by (simp add: nth_append)
qed

lemma decodeNibbles_pack:
  "wf_nibbles ns \<Longrightarrow> length pre = off \<Longrightarrow> decodeNibbles (pre @ pack ns @ post) off (length ns) = Inr ns"
proof (induction ns arbitrary: pre off rule: pack.induct)
  case 1
  then show ?case by simp
next
  case (2 h)
  then have "drop_bit 4 (push_bit 4 h OR 0 :: byte) = h"
    by (intro unpack_high) (auto simp: wf_nibbles_def MaxNibbleValue_def)
  with 2 show ?case by (simp add: nth_append)
next
  case (3 h l rest)
  then have "decodeNibbles ((pre @ [push_bit 4 h OR l]) @ pack rest @ post) (off + 1) (length rest) = Inr rest"
    by (intro "3.IH") (auto simp: wf_nibbles_def)
  moreover have "l \<le> MaxNibbleValue" "h \<le> MaxNibbleValue"
    using "3.prems" by (auto simp: wf_nibbles_def)
  ultimately show ?case using "3.prems" by (simp add: nth_append)
qed

lemma u16_half:
  assumes "n \<le> MaxTreeDepth"
  shows "unat ((of_nat n + 1 :: u16) div 2) = (n + 1) div 2"
proof -
  have "unat (of_nat (n + 1) :: u16) = n + 1"
    using assms by (simp add: MaxTreeDepth_def unsigned_of_nat take_bit_nat_eq_self del: of_nat_Suc of_nat_add)
  then show ?thesis by (simp add: unat_div add.commute) (simp add: numeral_2_eq_2)
qed

definition encoded :: "version \<Rightarrow> nibble list \<Rightarrow> bytes" where
  "encoded v ns = be_put 8 v @ be_put 2 (of_nat (length ns) :: u16) @ pack ns"

lemma EncodeNodeKey_nkey [simp]:
  assumes "length ns \<le> MaxTreeDepth"
  shows "EncodeNodeKey (nkey v ns) = Inr (encoded v ns)"
proof -
  have "encodeNibbles ([] @ ns) (length ns) (unat ((Length (mkpath ns) + 1) div 2)) 0 ((length ns + 1) div 2)
     = Inr (pack ns)"
    using assms by (intro encodeNibbles_eq) (simp_all add: mkpath_def u16_half)
  then show ?thesis
    using assms by (simp add: EncodeNodeKey_def Let_def encoded_def) (simp add: mkpath_def)
qed

lemma length_encoded: "length (encoded v ns) = 10 + (length ns + 1) div 2"
  by (simp add: encoded_def)

lemma slice_encoded:
  "slice (encoded v ns @ post) 0 8 = be_put 8 v"
  "slice (encoded v ns @ post) 8 10 = be_put 2 (of_nat (length ns) :: u16)"
  by (simp_all add: slice_def encoded_def)

lemma u16_expected:
  assumes "n \<le> MaxTreeDepth"
  shows "unat (10 + (of_nat n + 1 :: u16) div 2) = 10 + (n + 1) div 2"
proof -
  have "(n + 1) div 2 \<le> 32" using assms by (simp add: MaxTreeDepth_def)
  with assms u16_half [of n] have "unat (10 :: u16) + unat ((of_nat n + 1 :: u16) div 2) < 2 ^ 16"
    by simp
  then show ?thesis using u16_half [OF assms] by (subst unat_add_lem [THEN iffD1]) simp_all
qed

lemma DecodeNodeKey_encoded:
  assumes "wf_nibbles ns"
  shows "DecodeNodeKey (encoded v ns @ post) = Inr (nkey v ns)"
proof -
  have n: "length ns \<le> MaxTreeDepth" using assms by blast
  have cnt: "unat (of_nat (length ns) :: u16) = length ns"
    using n by (simp add: MaxTreeDepth_def unsigned_of_nat take_bit_nat_eq_self)
  then have le: "(of_nat (length ns) :: u16) \<le> of_nat MaxTreeDepth"
    using n by (simp add: word_le_nat_alt MaxTreeDepth_def)
  have "decodeNibbles ((be_put 8 v @ be_put 2 (of_nat (length ns) :: u16)) @ pack ns @ post) 10 (length ns)
      = Inr ns"
    using assms by (intro decodeNibbles_pack) simp_all
  then have "decodeNibbles (encoded v ns @ post) 10 (length ns) = Inr ns"
    by (simp add: encoded_def)
  with n cnt le show ?thesis
    by (simp add: DecodeNodeKey_def slice_encoded Let_def length_encoded u16_expected linorder_not_less)
      (simp add: nkey_def mkpath_def)
qed

lemma StorageKey_nkey [simp]:
  "length ns \<le> MaxTreeDepth \<Longrightarrow> StorageKey (nkey v ns) = Inr (NodeKeyPrefix @ encoded v ns)"
  by (simp add: StorageKey_def)

section \<open>The interface of a node key encoding\<close>

locale node_key_codec =
  fixes enc :: "NodeKey \<Rightarrow> bytes result"
    and dec :: "bytes \<Rightarrow> NodeKey result"
  assumes enc_total: "wf_nodekey nk \<Longrightarrow> \<exists>bs. enc nk = Inr bs"
    and dec_enc: "wf_nodekey nk \<Longrightarrow> enc nk = Inr bs \<Longrightarrow> dec bs = Inr nk"
begin

lemma enc_inject:
  assumes "wf_nodekey nk" and "wf_nodekey nk'"
  shows "enc nk = enc nk' \<longleftrightarrow> nk = nk'"
proof
  assume eq: "enc nk = enc nk'"
  obtain bs where "enc nk = Inr bs" using enc_total assms(1) by blast
  with eq assms show "nk = nk'" using dec_enc by (metis sum.inject(2))
qed simp

lemma enc_no_panic: "wf_nodekey nk \<Longrightarrow> enc nk \<noteq> Inl e"
  using enc_total by fastforce

end

interpretation types_codec: node_key_codec EncodeNodeKey DecodeNodeKey
proof unfold_locales
  fix nk
  assume "wf_nodekey nk"
  then show "\<exists>bs. EncodeNodeKey nk = Inr bs"
    by (metis EncodeNodeKey_nkey wf_nibblesD wf_nodekeyE wf_nodekey_nkey)
next
  fix nk bs
  assume wf: "wf_nodekey nk" and enc: "EncodeNodeKey nk = Inr bs"
  obtain v ns where nk: "nk = nkey v ns" using wf_nodekeyE [OF wf] by blast
  with wf enc have "bs = encoded v ns @ []" "wf_nibbles ns" by auto
  then show "DecodeNodeKey bs = Inr nk" unfolding nk by (simp only: DecodeNodeKey_encoded)
qed

end
