(* ===== verification/Crypto.thy ===== *)
theory Crypto
  imports Keys
begin

text \<open>
  Hashing: \<^verbatim>\<open>pkg/crypto/hasher.go\<close> and \<^verbatim>\<open>pkg/crypto/constants.go\<close>. \<open>Sum256\<close> is the SHA-256 function
  of Go's standard library (FIPS 180-4), which \<open>DefaultSHA256\<close> wraps and which \<open>KeyHash\<close> calls. The
  other components call the hash function through the \<open>Hasher\<close> interface, whose default instance is
  a package variable; their definitions take it as the parameter \<open>H\<close>. The locale \<open>hasher\<close> states
  the one law they rely on, the size of a digest; \<open>DefaultSHA256_Hash\<close> is an instance.
\<close>

section \<open>SHA-256\<close>

text \<open>The round constants and the initial state, in decimal.\<close>

definition sha256_K :: "u32 list" where
  "sha256_K =
    [1116352408, 1899447441, 3049323471, 3921009573, 961987163, 1508970993, 2453635748, 2870763221,
     3624381080, 310598401, 607225278, 1426881987, 1925078388, 2162078206, 2614888103, 3248222580,
     3835390401, 4022224774, 264347078, 604807628, 770255983, 1249150122, 1555081692, 1996064986,
     2554220882, 2821834349, 2952996808, 3210313671, 3336571891, 3584528711, 113926993, 338241895,
     666307205, 773529912, 1294757372, 1396182291, 1695183700, 1986661051, 2177026350, 2456956037,
     2730485921, 2820302411, 3259730800, 3345764771, 3516065817, 3600352804, 4094571909, 275423344,
     430227734, 506948616, 659060556, 883997877, 958139571, 1322822218, 1537002063, 1747873779,
     1955562222, 2024104815, 2227730452, 2361852424, 2428436474, 2756734187, 3204031479, 3329325298]"

definition sha256_init :: "u32 list" where
  "sha256_init = [1779033703, 3144134277, 1013904242, 2773480762, 1359893119, 2600822924, 528734635, 1541459225]"

definition sha256_pad :: "bytes \<Rightarrow> bytes" where
  "sha256_pad msg =
     msg @ [0x80] @ replicate (nat ((55 - int (length msg)) mod 64)) 0 @ be_put 8 (of_nat (8 * length msg) :: u64)"

fun sha256_words :: "bytes \<Rightarrow> u32 list" where
  "sha256_words (a # b # c # d # rest) = be_get [a, b, c, d] # sha256_words rest"
| "sha256_words _ = []"

definition rotr32 :: "nat \<Rightarrow> u32 \<Rightarrow> u32" where
  "rotr32 n w = drop_bit n w OR push_bit (32 - n) w"

text \<open>The message schedule, extended by one word per step; the list is kept in reverse order.\<close>

definition sha256_extend :: "u32 list \<Rightarrow> u32 list" where
  "sha256_extend ws =
     (let w2 = ws ! 1; w7 = ws ! 6; w15 = ws ! 14; w16 = ws ! 15;
          s0 = rotr32 7 w15 XOR rotr32 18 w15 XOR drop_bit 3 w15;
          s1 = rotr32 17 w2 XOR rotr32 19 w2 XOR drop_bit 10 w2
      in (w16 + s0 + w7 + s1) # ws)"

definition sha256_schedule :: "u32 list \<Rightarrow> u32 list" where
  "sha256_schedule block = rev ((sha256_extend ^^ 48) (rev block))"

fun sha256_round :: "u32 \<times> u32 \<times> u32 \<times> u32 \<times> u32 \<times> u32 \<times> u32 \<times> u32 \<Rightarrow> u32 \<times> u32
    \<Rightarrow> u32 \<times> u32 \<times> u32 \<times> u32 \<times> u32 \<times> u32 \<times> u32 \<times> u32" where
  "sha256_round (a, b, c, d, e, f, g, h) (k, w) =
     (let s1 = rotr32 6 e XOR rotr32 11 e XOR rotr32 25 e;
          ch = (e AND f) XOR (NOT e AND g);
          t1 = h + s1 + ch + k + w;
          s0 = rotr32 2 a XOR rotr32 13 a XOR rotr32 22 a;
          maj = (a AND b) XOR (a AND c) XOR (b AND c)
      in (t1 + (s0 + maj), a, b, c, d + t1, e, f, g))"

definition sha256_block :: "u32 list \<Rightarrow> u32 list \<Rightarrow> u32 list" where
  "sha256_block hs block =
     (case foldl sha256_round (hs ! 0, hs ! 1, hs ! 2, hs ! 3, hs ! 4, hs ! 5, hs ! 6, hs ! 7)
             (zip sha256_K (sha256_schedule block)) of
        (a, b, c, d, e, f, g, h) \<Rightarrow>
          [hs ! 0 + a, hs ! 1 + b, hs ! 2 + c, hs ! 3 + d, hs ! 4 + e, hs ! 5 + f, hs ! 6 + g, hs ! 7 + h])"

function sha256_blocks :: "u32 list \<Rightarrow> u32 list \<Rightarrow> u32 list" where
  "sha256_blocks hs ws =
     (if length ws < 16 then hs else sha256_blocks (sha256_block hs (take 16 ws)) (drop 16 ws))"
  by pat_completeness auto
termination
  by (relation "measure (\<lambda>(hs, ws). length ws)") auto

declare sha256_blocks.simps [simp del]

definition Sum256 :: "bytes \<Rightarrow> bytes" where
  "Sum256 data = concat (map (be_put 4) (sha256_blocks sha256_init (sha256_words (sha256_pad data))))"

section \<open>The hasher\<close>

definition DefaultSHA256_Hash :: "bytes \<Rightarrow> hash" where
  "DefaultSHA256_Hash data = Sum256 data"

definition HashConcat :: "(bytes \<Rightarrow> hash) \<Rightarrow> bytes list \<Rightarrow> hash" where
  "HashConcat H parts = H (concat parts)"

definition DefaultSHA256_EmptyHash :: hash where
  "DefaultSHA256_EmptyHash = Sum256 []"

definition DefaultDigest :: hash where
  "DefaultDigest = DefaultSHA256_EmptyHash"

definition EmptyTreeHash :: hash where
  "EmptyTreeHash =
    [0x5b, 0xa9, 0x3c, 0x9d, 0xb0, 0xcf, 0xf9, 0x3f, 0x52, 0xb5, 0x21, 0xd7, 0x81, 0x4c, 0x7f, 0xa0,
     0x8a, 0xbe, 0x86, 0x13, 0x5f, 0x74, 0x6b, 0x46, 0x68, 0xb0, 0x13, 0xbc, 0xd1, 0xc4, 0x8e, 0x9b]"

definition KeyHash :: "bytes \<Rightarrow> key" where
  "KeyHash data = Sum256 data"

section \<open>The interface of a hash function\<close>

locale hasher =
  fixes H :: "bytes \<Rightarrow> hash"
  assumes digest_size: "wf_hash (H data)"
begin

lemma length_digest [simp]: "length (H data) = 32"
  using digest_size by (simp add: wf_hash_def HashSize_def)

lemma HashConcat_size: "wf_hash (HashConcat H parts)"
  by (simp add: HashConcat_def digest_size)

end

lemma length_sha256_block: "length (sha256_block hs block) = 8"
  by (simp add: sha256_block_def split: prod.split)

lemma length_sha256_blocks: "length hs = 8 \<Longrightarrow> length (sha256_blocks hs ws) = 8"
proof (induction hs ws rule: sha256_blocks.induct)
  case (1 hs ws)
  then show ?case by (subst sha256_blocks.simps) (simp add: length_sha256_block)
qed

lemma length_concat_be_put: "length (concat (map (be_put n) ws)) = n * length ws"
  by (induction ws) auto

lemma length_Sum256 [simp]: "length (Sum256 data) = 32"
  by (simp add: Sum256_def length_concat_be_put length_sha256_blocks sha256_init_def)

interpretation sha256: hasher DefaultSHA256_Hash
  by unfold_locales (simp add: DefaultSHA256_Hash_def wf_hash_def HashSize_def)

lemma KeyHash_wf: "wf_key (KeyHash data)"
  by (simp add: KeyHash_def wf_key_def KeySize_def)

lemma length_EmptyTreeHash [simp]: "length EmptyTreeHash = 32"
  by (simp add: EmptyTreeHash_def)

lemma wf_EmptyHash [simp]: "wf_hash EmptyHash"
  by (simp add: EmptyHash_def wf_hash_def)

end
