(* ===== verification/Nodes.thy ===== *)
theory Nodes
  imports NodeKeys Crypto
begin

text \<open>
  Tree nodes: \<^verbatim>\<open>pkg/types/node.go\<close>, \<^verbatim>\<open>pkg/tree/leaf_node.go\<close>, \<^verbatim>\<open>pkg/tree/internal_node.go\<close>,
  \<^verbatim>\<open>pkg/tree/node_helpers.go\<close> and \<^verbatim>\<open>pkg/tree/codec_support.go\<close>. A node keeps a cached hash; \<open>Hash\<close>
  returns it or computes and stores it, so the methods return the node as well. The preimages of the
  hashes (\<open>leaf_preimage\<close>, \<open>internal_preimage\<close>) determine the hashed data, and leaves and internal
  nodes have different preimages.
\<close>

section \<open>Data\<close>

definition NodeTypeInternal :: byte where "NodeTypeInternal = 0x00"
definition NodeTypeLeaf :: byte where "NodeTypeLeaf = 0x01"

record Child =
  c_Hash :: hash
  c_Version :: version
  c_IsLeaf :: bool

definition Child_IsEmpty :: "Child \<Rightarrow> bool" where
  "Child_IsEmpty c \<longleftrightarrow> Hash_IsEmpty (c_Hash c)"

record LeafNode =
  l_key :: key
  l_valueHash :: hash
  l_value :: "bytes option"
  l_version :: version
  l_cachedHash :: "hash option"

record InternalNode =
  i_children :: "(nibble, Child) gomap"
  i_version :: version
  i_cachedHash :: "hash option"

datatype Node = Leaf LeafNode | Internal InternalNode

fun Node_Type :: "Node \<Rightarrow> byte" where
  "Node_Type (Leaf _) = NodeTypeLeaf"
| "Node_Type (Internal _) = NodeTypeInternal"

fun Node_Version :: "Node \<Rightarrow> version" where
  "Node_Version (Leaf n) = l_version n"
| "Node_Version (Internal n) = i_version n"

definition IsLeaf :: "Node \<Rightarrow> bool" where
  "IsLeaf n \<longleftrightarrow> Node_Type n = NodeTypeLeaf"

definition IsInternal :: "Node \<Rightarrow> bool" where
  "IsInternal n \<longleftrightarrow> Node_Type n = NodeTypeInternal"

section \<open>Leaf nodes\<close>

definition NewLeafNode :: "(bytes \<Rightarrow> hash) \<Rightarrow> key \<Rightarrow> bytes \<Rightarrow> version \<Rightarrow> LeafNode result" where
  "NewLeafNode H key value version =
     (case ValidateKey key of
        Inl err \<Rightarrow> Inl err
      | Inr _ \<Rightarrow>
          if length value > MaxValueSize then Inl ErrValueTooLarge
          else Inr \<lparr>l_key = key, l_valueHash = H value, l_value = Some value, l_version = version,
                     l_cachedHash = None\<rparr>)"

definition LeafNode_computeHash :: "(bytes \<Rightarrow> hash) \<Rightarrow> LeafNode \<Rightarrow> hash" where
  "LeafNode_computeHash H n = HashConcat H [[NodeTypeLeaf], l_key n, l_valueHash n]"

definition LeafNode_Hash :: "(bytes \<Rightarrow> hash) \<Rightarrow> LeafNode \<Rightarrow> hash \<times> LeafNode" where
  "LeafNode_Hash H n =
     (case l_cachedHash n of
        Some h \<Rightarrow> (h, n)
      | None \<Rightarrow> let hash = LeafNode_computeHash H n in (hash, n\<lparr>l_cachedHash := Some hash\<rparr>))"

definition LeafNode_IsCached :: "LeafNode \<Rightarrow> bool" where
  "LeafNode_IsCached n \<longleftrightarrow> l_cachedHash n \<noteq> None"

definition LeafNode_SetValue :: "(bytes \<Rightarrow> hash) \<Rightarrow> LeafNode \<Rightarrow> bytes \<Rightarrow> LeafNode result" where
  "LeafNode_SetValue H n value =
     (if H value \<noteq> l_valueHash n then Inl ErrHashMismatch else Inr (n\<lparr>l_value := Some value\<rparr>))"

definition LeafNode_Clone :: "LeafNode \<Rightarrow> version \<Rightarrow> LeafNode" where
  "LeafNode_Clone n newVersion =
     \<lparr>l_key = l_key n, l_valueHash = l_valueHash n, l_value = l_value n, l_version = newVersion,
      l_cachedHash = None\<rparr>"

definition NewLeafNodeFromCodec :: "key \<Rightarrow> hash \<Rightarrow> version \<Rightarrow> LeafNode" where
  "NewLeafNodeFromCodec key valueHash version =
     \<lparr>l_key = key, l_valueHash = valueHash, l_value = None, l_version = version, l_cachedHash = None\<rparr>"

section \<open>Internal nodes\<close>

definition nibble_range :: "nibble list" where
  "nibble_range = [0, 1, 2, 3, 4, 5, 6, 7, 8, 9, 10, 11, 12, 13, 14, 15]"

definition NewInternalNode :: "version \<Rightarrow> InternalNode" where
  "NewInternalNode version = \<lparr>i_children = [], i_version = version, i_cachedHash = None\<rparr>"

definition InternalNode_parts :: "InternalNode \<Rightarrow> bytes list" where
  "InternalNode_parts n =
     [NodeTypeInternal] # concat (map (\<lambda>nibble.
        case gm_get (i_children n) nibble of
          Some child \<Rightarrow> [[nibble], c_Hash child]
        | None \<Rightarrow> [EmptyTreeHash]) nibble_range)"

definition InternalNode_computeHash :: "(bytes \<Rightarrow> hash) \<Rightarrow> InternalNode \<Rightarrow> hash" where
  "InternalNode_computeHash H n = HashConcat H (InternalNode_parts n)"

definition InternalNode_Hash :: "(bytes \<Rightarrow> hash) \<Rightarrow> InternalNode \<Rightarrow> hash \<times> InternalNode" where
  "InternalNode_Hash H n =
     (case i_cachedHash n of
        Some h \<Rightarrow> (h, n)
      | None \<Rightarrow> let hash = InternalNode_computeHash H n in (hash, n\<lparr>i_cachedHash := Some hash\<rparr>))"

definition InternalNode_IsCached :: "InternalNode \<Rightarrow> bool" where
  "InternalNode_IsCached n \<longleftrightarrow> i_cachedHash n \<noteq> None"

definition InternalNode_Child :: "InternalNode \<Rightarrow> nibble \<Rightarrow> Child option" where
  "InternalNode_Child n nibble = gm_get (i_children n) nibble"

definition SetChild :: "InternalNode \<Rightarrow> nibble \<Rightarrow> Child \<Rightarrow> InternalNode result" where
  "SetChild n nibble child =
     (case ValidateNibble nibble of
        Inl err \<Rightarrow> Inl err
      | Inr _ \<Rightarrow> Inr (n\<lparr>i_children := gm_put nibble child (i_children n), i_cachedHash := None\<rparr>))"

definition RemoveChild :: "InternalNode \<Rightarrow> nibble \<Rightarrow> InternalNode result" where
  "RemoveChild n nibble = Inr (n\<lparr>i_children := gm_del nibble (i_children n), i_cachedHash := None\<rparr>)"

definition NumChildren :: "InternalNode \<Rightarrow> nat" where
  "NumChildren n = length (i_children n)"

definition Children :: "InternalNode \<Rightarrow> (nibble, Child) gomap" where
  "Children n = i_children n"

definition GetOnlyChild :: "InternalNode \<Rightarrow> (nibble \<times> Child) option" where
  "GetOnlyChild n =
     (if length (i_children n) \<noteq> 1 then None
      else case i_children n of (nibble, child) # _ \<Rightarrow> Some (nibble, child) | [] \<Rightarrow> None)"

definition InternalNode_Clone :: "InternalNode \<Rightarrow> version \<Rightarrow> InternalNode" where
  "InternalNode_Clone n newVersion =
     \<lparr>i_children = i_children n, i_version = newVersion, i_cachedHash = None\<rparr>"

definition NewInternalNodeFromCodec :: "(nibble, Child) gomap \<Rightarrow> version \<Rightarrow> InternalNode" where
  "NewInternalNodeFromCodec children version =
     \<lparr>i_children = children, i_version = version, i_cachedHash = None\<rparr>"

fun Node_Hash :: "(bytes \<Rightarrow> hash) \<Rightarrow> Node \<Rightarrow> hash" where
  "Node_Hash H (Leaf n) = fst (LeafNode_Hash H n)"
| "Node_Hash H (Internal n) = fst (InternalNode_Hash H n)"

fun AsLeaf :: "Node \<Rightarrow> LeafNode option" where
  "AsLeaf (Leaf n) = Some n"
| "AsLeaf (Internal _) = None"

fun AsInternal :: "Node \<Rightarrow> InternalNode option" where
  "AsInternal (Internal n) = Some n"
| "AsInternal (Leaf _) = None"

fun AsLeafErr :: "Node \<Rightarrow> LeafNode result" where
  "AsLeafErr (Leaf n) = Inr n"
| "AsLeafErr (Internal _) = Inl (Errorf ''expected leaf node'')"

fun AsInternalErr :: "Node \<Rightarrow> InternalNode result" where
  "AsInternalErr (Internal n) = Inr n"
| "AsInternalErr (Leaf _) = Inl (Errorf ''expected internal node'')"

section \<open>Preimages\<close>

definition leaf_preimage :: "key \<Rightarrow> hash \<Rightarrow> bytes" where
  "leaf_preimage k vh = NodeTypeLeaf # k @ vh"

definition slot :: "nibble \<Rightarrow> hash option \<Rightarrow> bytes" where
  "slot nibble h = (case h of Some x \<Rightarrow> nibble # x | None \<Rightarrow> EmptyTreeHash)"

definition internal_preimage :: "(nibble \<Rightarrow> hash option) \<Rightarrow> bytes" where
  "internal_preimage f = NodeTypeInternal # concat (map (\<lambda>n. slot n (f n)) nibble_range)"

definition child_hash :: "InternalNode \<Rightarrow> nibble \<Rightarrow> hash option" where
  "child_hash n nibble = map_option c_Hash (gm_get (i_children n) nibble)"

definition preimage :: "Node \<Rightarrow> bytes" where
  "preimage n = (case n of Leaf l \<Rightarrow> leaf_preimage (l_key l) (l_valueHash l)
     | Internal i \<Rightarrow> internal_preimage (child_hash i))"

text \<open>A node whose cached hash, if any, is the hash of its contents.\<close>

fun cache_ok :: "(bytes \<Rightarrow> hash) \<Rightarrow> Node \<Rightarrow> bool" where
  "cache_ok H (Leaf n) = (\<forall>h. l_cachedHash n = Some h \<longrightarrow> h = LeafNode_computeHash H n)"
| "cache_ok H (Internal n) = (\<forall>h. i_cachedHash n = Some h \<longrightarrow> h = InternalNode_computeHash H n)"

lemma concat_map_concat: "concat (concat (map f xs)) = concat (map (\<lambda>x. concat (f x)) xs)"
  by (induction xs) auto

lemma LeafNode_computeHash_eq: "LeafNode_computeHash H n = H (leaf_preimage (l_key n) (l_valueHash n))"
  by (simp add: LeafNode_computeHash_def HashConcat_def leaf_preimage_def)

lemma InternalNode_computeHash_eq: "InternalNode_computeHash H n = H (internal_preimage (child_hash n))"
proof -
  have "(\<lambda>nib. concat (case gm_get (i_children n) nib of Some child \<Rightarrow> [[nib], c_Hash child] | None \<Rightarrow> [EmptyTreeHash]))
     = (\<lambda>nib. slot nib (child_hash n nib))"
    by (auto simp: fun_eq_iff slot_def child_hash_def split: option.split)
  then show ?thesis
    by (simp add: InternalNode_computeHash_def HashConcat_def InternalNode_parts_def internal_preimage_def
        concat_map_concat)
qed

lemma Node_Hash_preimage: "cache_ok H n \<Longrightarrow> Node_Hash H n = H (preimage n)"
  by (cases n) (auto simp: LeafNode_Hash_def InternalNode_Hash_def preimage_def Let_def
      LeafNode_computeHash_eq InternalNode_computeHash_eq split: option.split)

lemma nibble_range_iff: "n \<in> set nibble_range \<longleftrightarrow> n \<le> MaxNibbleValue"
proof
  show "n \<in> set nibble_range \<Longrightarrow> n \<le> MaxNibbleValue"
    by (auto simp: nibble_range_def MaxNibbleValue_def)
next
  assume "n \<le> MaxNibbleValue"
  then have "unat n \<in> {0..<16}"
    by (simp add: MaxNibbleValue_def word_le_nat_alt)
  then have "(of_nat (unat n) :: nibble) \<in> of_nat ` {0..<16}" by (rule imageI)
  then have "n \<in> set (map of_nat [0..<16] :: nibble list)" by simp
  moreover have "map of_nat [0..<16] = nibble_range"
    by (simp add: nibble_range_def upt_conv_Cons)
  ultimately show "n \<in> set nibble_range" by simp
qed

lemma slot_append_inject:
  assumes "n \<le> MaxNibbleValue"
    and "\<And>h. a = Some h \<Longrightarrow> length h = 32" and "\<And>h. b = Some h \<Longrightarrow> length h = 32"
    and "slot n a @ xs = slot n b @ ys"
  shows "a = b \<and> xs = ys"
proof -
  have "n \<noteq> 0x5b" using assms(1) by (auto simp: MaxNibbleValue_def)
  with assms(2-4) show ?thesis
    by (cases a; cases b) (auto simp: slot_def EmptyTreeHash_def)
qed

lemma concat_slots_inject:
  assumes "\<forall>n \<in> set ns. n \<le> MaxNibbleValue"
    and "\<And>n h. f n = Some h \<Longrightarrow> length h = 32" and "\<And>n h. g n = Some h \<Longrightarrow> length h = 32"
    and "concat (map (\<lambda>n. slot n (f n)) ns) = concat (map (\<lambda>n. slot n (g n)) ns)"
  shows "\<forall>n \<in> set ns. f n = g n"
  using assms(1,4)
proof (induction ns)
  case Nil
  then show ?case by simp
next
  case (Cons n ns)
  then have "slot n (f n) @ concat (map (\<lambda>n. slot n (f n)) ns) = slot n (g n) @ concat (map (\<lambda>n. slot n (g n)) ns)"
    by simp
  moreover have "n \<le> MaxNibbleValue" using Cons.prems by simp
  ultimately have "f n = g n \<and> concat (map (\<lambda>n. slot n (f n)) ns) = concat (map (\<lambda>n. slot n (g n)) ns)"
    using assms(2,3) by (intro slot_append_inject) auto
  moreover have "\<forall>n \<in> set ns. n \<le> MaxNibbleValue" using Cons.prems by simp
  ultimately show ?case using Cons.IH by simp
qed

lemma internal_preimage_inject:
  assumes "internal_preimage f = internal_preimage g"
    and "\<And>n h. f n = Some h \<Longrightarrow> length h = 32" and "\<And>n h. g n = Some h \<Longrightarrow> length h = 32"
    and "n \<le> MaxNibbleValue"
  shows "f n = g n"
proof -
  have "\<forall>n \<in> set nibble_range. f n = g n"
    using assms(1-3) by (intro concat_slots_inject) (auto simp: nibble_range_iff internal_preimage_def)
  then show ?thesis using assms(4) by (simp add: nibble_range_iff)
qed

lemma leaf_preimage_inject:
  "wf_key k \<Longrightarrow> wf_key k' \<Longrightarrow> leaf_preimage k vh = leaf_preimage k' vh' \<longleftrightarrow> k = k' \<and> vh = vh'"
  by (auto simp: leaf_preimage_def wf_key_def)

lemma leaf_internal_preimage [simp]:
  "leaf_preimage k vh \<noteq> internal_preimage f" "internal_preimage f \<noteq> leaf_preimage k vh"
  by (simp_all add: leaf_preimage_def internal_preimage_def NodeTypeLeaf_def NodeTypeInternal_def)

lemma internal_preimage_cong:
  "(\<And>n. n \<le> MaxNibbleValue \<Longrightarrow> f n = g n) \<Longrightarrow> internal_preimage f = internal_preimage g"
  unfolding internal_preimage_def by (intro arg_cong2 [where f = "(#)"] refl arg_cong [where f = concat] map_cong)
    (auto simp: nibble_range_iff)

end
