(* ===== verification/ExchangeSort.thy ===== *)
theory ExchangeSort
  imports Prelude "HOL-Library.Multiset"
begin

text \<open>
  The exchange sort written out in \<^verbatim>\<open>pkg/codec/interface_encoders.go\<close> (on nibbles) and in
  \<^verbatim>\<open>VersionManager.GetAllVersions\<close> (on versions): for every \<open>i\<close>, every later entry that is smaller is
  swapped into place \<open>i\<close>. The loops differ in the bound of \<open>i\<close> only. It returns a sorted permutation
  of its argument, so on distinct keys it agrees with the library's sort.
\<close>

definition swapIf :: "('a \<Rightarrow> 'k::linorder) \<Rightarrow> nat \<Rightarrow> nat \<Rightarrow> 'a list \<Rightarrow> 'a list" where
  "swapIf key i j xs = (if key (xs ! i) > key (xs ! j) then xs[i := xs ! j, j := xs ! i] else xs)"

definition exchangePass :: "('a \<Rightarrow> 'k::linorder) \<Rightarrow> nat \<Rightarrow> 'a list \<Rightarrow> 'a list" where
  "exchangePass key i xs = fold (swapIf key i) [i + 1..<length xs] xs"

definition exchangeSort :: "('a \<Rightarrow> 'k::linorder) \<Rightarrow> nat \<Rightarrow> 'a list \<Rightarrow> 'a list" where
  "exchangeSort key bound xs = fold (exchangePass key) [0..<bound] xs"

lemma length_swapIf [simp]: "length (swapIf key i j xs) = length xs"
  by (simp add: swapIf_def)

lemma mset_swapIf: "i < length xs \<Longrightarrow> j < length xs \<Longrightarrow> mset (swapIf key i j xs) = mset xs"
  by (simp add: swapIf_def mset_swap)

lemma take_swapIf: "k \<le> i \<Longrightarrow> k \<le> j \<Longrightarrow> take k (swapIf key i j xs) = take k xs"
  by (simp add: swapIf_def)

lemma fold_swapIf:
  assumes "i < length xs" and "i < a" and "a \<le> b" and "b \<le> length xs"
  shows "length (fold (swapIf key i) [a..<b] xs) = length xs
    \<and> mset (fold (swapIf key i) [a..<b] xs) = mset xs
    \<and> take i (fold (swapIf key i) [a..<b] xs) = take i xs
    \<and> ((\<forall>j. i < j \<longrightarrow> j < a \<longrightarrow> key (xs ! i) \<le> key (xs ! j)) \<longrightarrow>
       (\<forall>j. i < j \<longrightarrow> j < b \<longrightarrow> key (fold (swapIf key i) [a..<b] xs ! i) \<le> key (fold (swapIf key i) [a..<b] xs ! j)))"
  using assms
proof (induction "b - a" arbitrary: a xs)
  case 0
  then show ?case by simp
next
  case (Suc n)
  let ?ys = "swapIf key i a xs"
  have up: "[a..<b] = a # [Suc a..<b]" using Suc.hyps(2) by (simp add: upt_conv_Cons)
  have IH: "length (fold (swapIf key i) [Suc a..<b] ?ys) = length ?ys
    \<and> mset (fold (swapIf key i) [Suc a..<b] ?ys) = mset ?ys
    \<and> take i (fold (swapIf key i) [Suc a..<b] ?ys) = take i ?ys
    \<and> ((\<forall>j. i < j \<longrightarrow> j < Suc a \<longrightarrow> key (?ys ! i) \<le> key (?ys ! j)) \<longrightarrow>
       (\<forall>j. i < j \<longrightarrow> j < b \<longrightarrow> key (fold (swapIf key i) [Suc a..<b] ?ys ! i) \<le> key (fold (swapIf key i) [Suc a..<b] ?ys ! j)))"
    using Suc.prems Suc.hyps(2) by (intro Suc.hyps(1)) auto
  have step: "\<forall>j. i < j \<longrightarrow> j < Suc a \<longrightarrow> key (?ys ! i) \<le> key (?ys ! j)"
    if "\<forall>j. i < j \<longrightarrow> j < a \<longrightarrow> key (xs ! i) \<le> key (xs ! j)"
    using that Suc.prems Suc.hyps(2) by (fastforce simp: swapIf_def nth_list_update less_Suc_eq)
  have m: "mset ?ys = mset xs" using Suc.prems Suc.hyps(2) by (intro mset_swapIf) auto
  have t: "take i ?ys = take i xs" using Suc.prems by (intro take_swapIf) auto
  show ?case using IH step m t by (simp add: up)
qed

lemma exchangePass_spec:
  assumes "i < length xs"
  shows "length (exchangePass key i xs) = length xs" "mset (exchangePass key i xs) = mset xs"
    "take i (exchangePass key i xs) = take i xs"
    "i < j \<Longrightarrow> j < length xs \<Longrightarrow> key (exchangePass key i xs ! i) \<le> key (exchangePass key i xs ! j)"
  using fold_swapIf [of i xs "i + 1" "length xs" key] assms by (auto simp: exchangePass_def)

lemma mset_drop_eq: "mset xs = mset ys \<Longrightarrow> take i xs = take i ys \<Longrightarrow> mset (drop i xs) = mset (drop i ys)"
proof -
  assume m: "mset xs = mset ys" and t: "take i xs = take i ys"
  from m have "mset (take i xs @ drop i xs) = mset (take i ys @ drop i ys)"
    by (simp only: append_take_drop_id)
  then show ?thesis unfolding mset_append t by simp
qed

lemma exchangeSort_spec:
  assumes "bound \<le> length xs"
  shows "length (exchangeSort key bound xs) = length xs \<and> mset (exchangeSort key bound xs) = mset xs
    \<and> (\<forall>i j. i < bound \<longrightarrow> i < j \<longrightarrow> j < length xs \<longrightarrow>
         key (exchangeSort key bound xs ! i) \<le> key (exchangeSort key bound xs ! j))"
  using assms
proof (induction bound)
  case 0
  then show ?case by (simp add: exchangeSort_def)
next
  case (Suc b)
  let ?ys = "exchangeSort key b xs"
  let ?zs = "exchangePass key b ?ys"
  have zs: "exchangeSort key (Suc b) xs = ?zs" by (simp add: exchangeSort_def)
  from Suc have IH: "length ?ys = length xs" "mset ?ys = mset xs"
    "\<And>i j. i < b \<Longrightarrow> i < j \<Longrightarrow> j < length xs \<Longrightarrow> key (?ys ! i) \<le> key (?ys ! j)" by auto
  have b: "b < length ?ys" using Suc.prems IH by simp
  note P = exchangePass_spec [OF b, where key = key]
  have "key (?zs ! i) \<le> key (?zs ! j)" if i: "i < Suc b" and j: "i < j" "j < length xs" for i j
  proof (cases "i = b")
    case True
    then show ?thesis using P(4) [of j] j IH(1) by simp
  next
    case False
    with i have ib: "i < b" by simp
    have same: "?zs ! i = ?ys ! i" using P(3) ib by (metis nth_take)
    show ?thesis
    proof (cases "j < b")
      case True
      then have "?zs ! j = ?ys ! j" using P(3) by (metis nth_take)
      then show ?thesis using same IH(3) ib j by simp
    next
      case False
      have "drop b ?zs ! (j - b) = ?zs ! j" "j - b < length (drop b ?zs)"
        using False j P(1) IH(1) by simp_all
      then have "?zs ! j \<in> set (drop b ?zs)" by (metis nth_mem)
      moreover have "mset (drop b ?zs) = mset (drop b ?ys)"
        using P(2,3) by (rule mset_drop_eq)
      ultimately have "?zs ! j \<in> set (drop b ?ys)" by (metis set_mset_mset)
      then obtain l where "l < length (drop b ?ys)" "drop b ?ys ! l = ?zs ! j"
        by (auto simp: in_set_conv_nth)
      then have "b + l < length xs" "?zs ! j = ?ys ! (b + l)" using IH(1) by simp_all
      then show ?thesis using same IH(3) [of i "b + l"] ib by simp
    qed
  qed
  then show ?case using P(1,2) IH by (auto simp: zs)
qed

lemma exchangeSort_sorted:
  assumes "length xs - 1 \<le> bound" and "bound \<le> length xs"
  shows "sorted (map key (exchangeSort key bound xs))" and "mset (exchangeSort key bound xs) = mset xs"
proof -
  note E = exchangeSort_spec [OF assms(2), of key]
  show "mset (exchangeSort key bound xs) = mset xs" using E by simp
  show "sorted (map key (exchangeSort key bound xs))"
    using E assms(1) by (auto simp: sorted_iff_nth_mono_less)
qed

lemma exchangeSort_eq_sort:
  assumes "length xs - 1 \<le> bound" and "bound \<le> length xs"
  shows "exchangeSort id bound xs = sort xs"
  using exchangeSort_sorted [OF assms, of id] by (simp add: properties_for_sort)

end
