(* ===== verification/Codec.thy ===== *)
theory Codec
  imports Nodes ExchangeSort
begin

text \<open>
  Node serialisation: \<^verbatim>\<open>pkg/codec\<close> and the node factory of \<^verbatim>\<open>pkg/tree/codec_factory.go\<close>, which
  \<open>DecodeNode\<close> calls through the registered factory. A leaf is \<^verbatim>\<open>key(32) || valueHash(32)\<close>, an
  internal node a count and 42 bytes per child in nibble order; both are prefixed by the type byte.
\<close>

section \<open>Leaf nodes\<close>

definition EncodeLeafNode :: "LeafNode option \<Rightarrow> bytes option" where
  "EncodeLeafNode leaf =
     (case leaf of None \<Rightarrow> None
      | Some l \<Rightarrow> Some (go_copy (replicate 32 0) (l_key l) @ go_copy (replicate 32 0) (l_valueHash l)))"

definition DecodeLeafNode :: "bytes \<Rightarrow> version \<Rightarrow> LeafNode result" where
  "DecodeLeafNode data version =
     (if length data \<noteq> 64 then Inl (Errorf ''invalid leaf data size'')
      else Inl (Errorf ''use codec.DecodeNode for node creation''))"

definition LeafNodeSize :: nat where "LeafNodeSize = 64"

definition EncodeLeafNodeInterface :: "LeafNode \<Rightarrow> bytes" where
  "EncodeLeafNodeInterface leaf =
     go_copy (replicate 32 0) (l_key leaf) @ go_copy (replicate 32 0) (l_valueHash leaf)"

section \<open>Internal nodes\<close>

definition boolByte :: "bool \<Rightarrow> byte" where
  "boolByte b = (if b then 1 else 0)"

definition encodeChild :: "nibble \<times> Child \<Rightarrow> bytes" where
  "encodeChild nc = (case nc of (nibble, child) \<Rightarrow>
     nibble # go_copy (replicate 32 0) (c_Hash child) @ be_put 8 (c_Version child) @ [boolByte (c_IsLeaf child)])"

definition lookupChild :: "InternalNode \<Rightarrow> nibble \<Rightarrow> nibble \<times> Child" where
  "lookupChild node nibble = (nibble, the (gm_get (Children node) nibble))"

definition EncodeInternalNode :: "InternalNode option \<Rightarrow> bytes option result" where
  "EncodeInternalNode node =
     (case node of None \<Rightarrow> Inr None
      | Some n \<Rightarrow>
          if NumChildren n > 16 then Inl (Errorf ''invalid internal node: too many children'')
          else let nibbles = sort (map fst (Children n))
               in Inr (Some (of_nat (NumChildren n) # concat (map (\<lambda>nib. encodeChild (lookupChild n nib)) nibbles))))"

text \<open>The version is written from the last byte to the first, shifting it right each time.\<close>

fun shiftBytes :: "nat \<Rightarrow> u64 \<Rightarrow> bytes \<Rightarrow> bytes" where
  "shiftBytes 0 v acc = acc"
| "shiftBytes (Suc n) v acc = shiftBytes n (drop_bit 8 v) (ucast v # acc)"

definition encodeChildInterface :: "nibble \<times> Child \<Rightarrow> bytes" where
  "encodeChildInterface nc = (case nc of (nibble, child) \<Rightarrow>
     nibble # go_copy (replicate 32 0) (c_Hash child) @ shiftBytes 8 (c_Version child) []
       @ [boolByte (c_IsLeaf child)])"

definition EncodeInternalNodeInterface :: "InternalNode \<Rightarrow> bytes result" where
  "EncodeInternalNodeInterface node =
     (if NumChildren node > 16 then Inl (Errorf ''invalid internal node: too many children'')
      else let children = Children node;
               nibbles = exchangeSort id (length children - 1) (map fst children)
           in Inr (of_nat (NumChildren node)
                # concat (map (\<lambda>nib. encodeChildInterface (lookupChild node nib)) nibbles)))"

definition InternalNodeInterfaceSize :: "InternalNode \<Rightarrow> nat" where
  "InternalNodeInterfaceSize node = 1 + NumChildren node * 42"

definition InternalNodeSize :: "InternalNode \<Rightarrow> nat" where
  "InternalNodeSize node = 1 + NumChildren node * 42"

text \<open>The loop over the encoded children, shared by the two decoders of the source.\<close>

fun decodeChildren :: "bytes \<Rightarrow> nat \<Rightarrow> nat \<Rightarrow> (nibble, Child) gomap \<Rightarrow> (nibble, Child) gomap result" where
  "decodeChildren data offset 0 children = Inr children"
| "decodeChildren data offset (Suc left) children =
     (let nibble = data ! offset
      in if nibble > 15 then Inl (Errorf ''invalid nibble'')
         else let hash = slice data (offset + 1) (offset + 33);
                  childVersion = be_get (slice data (offset + 33) (offset + 41));
                  isLeaf = data ! (offset + 41) = 1
              in decodeChildren data (offset + 42) left
                   (gm_put nibble \<lparr>c_Hash = hash, c_Version = childVersion, c_IsLeaf = isLeaf\<rparr> children))"

definition DecodeInternalNode :: "bytes \<Rightarrow> version \<Rightarrow> InternalNode result" where
  "DecodeInternalNode data version =
     (if length data < 1 then Inl (Errorf ''empty internal node data'')
      else let numChildren = unat (data ! 0)
           in if numChildren > 16 then Inl (Errorf ''too many children'')
              else if length data \<noteq> 1 + numChildren * 42 then Inl (Errorf ''invalid data size'')
              else bindE (decodeChildren data 1 numChildren [])
                     (\<lambda>_. Inl (Errorf ''use codec.DecodeNode for node creation'')))"

section \<open>The node factory\<close>

definition decodeLeafNode :: "bytes \<Rightarrow> version \<Rightarrow> LeafNode result" where
  "decodeLeafNode data version =
     (if length data \<noteq> 64 then Inl (Errorf ''invalid leaf data size'')
      else Inr (NewLeafNodeFromCodec (slice data 0 32) (slice data 32 64) version))"

definition decodeInternalNode :: "bytes \<Rightarrow> version \<Rightarrow> InternalNode result" where
  "decodeInternalNode data version =
     (if length data < 1 then Inl (Errorf ''empty internal node data'')
      else let numChildren = unat (data ! 0)
           in if numChildren > 16 then Inl (Errorf ''too many children'')
              else if length data \<noteq> 1 + numChildren * 42 then Inl (Errorf ''invalid data size'')
              else bindE (decodeChildren data 1 numChildren [])
                     (\<lambda>children. Inr (NewInternalNodeFromCodec children version)))"

definition nodeFactory :: "byte \<Rightarrow> bytes \<Rightarrow> version \<Rightarrow> Node result" where
  "nodeFactory nodeType data version =
     (if nodeType = NodeTypeLeaf then bindE (decodeLeafNode data version) (\<lambda>n. Inr (Leaf n))
      else if nodeType = NodeTypeInternal then bindE (decodeInternalNode data version) (\<lambda>n. Inr (Internal n))
      else Inl (Errorf ''unknown node type''))"

type_synonym NodeFactory = "byte \<Rightarrow> bytes \<Rightarrow> version \<Rightarrow> Node result"

definition DecodeNodeWith :: "NodeFactory option \<Rightarrow> bytes \<Rightarrow> version \<Rightarrow> Node result" where
  "DecodeNodeWith factory data version =
     (if length data < 1 then Inl (Errorf ''empty node data'')
      else case factory of
             None \<Rightarrow> Inl (Errorf ''no node factory registered'')
           | Some f \<Rightarrow> f (data ! 0) (drop 1 data) version)"

text \<open>The tree package registers its factory when it is loaded.\<close>

definition DecodeNode :: "bytes \<Rightarrow> version \<Rightarrow> Node result" where
  "DecodeNode data version = DecodeNodeWith (Some nodeFactory) data version"

section \<open>The node codec\<close>

definition EncodeNode :: "Node option \<Rightarrow> bytes result" where
  "EncodeNode node =
     (case node of
        None \<Rightarrow> Inl (Errorf ''cannot encode nil node'')
      | Some (Leaf leaf) \<Rightarrow> Inr (NodeTypeLeaf # EncodeLeafNodeInterface leaf)
      | Some (Internal internal) \<Rightarrow>
          bindE (EncodeInternalNodeInterface internal) (\<lambda>data. Inr (NodeTypeInternal # data)))"

definition NodeCodec_DecodeNode :: "bytes \<Rightarrow> version \<Rightarrow> Node result" where
  "NodeCodec_DecodeNode data version =
     (if length data < 1 then Inl (Errorf ''empty node data'')
      else if data ! 0 = NodeTypeLeaf then Inl (Errorf ''leaf node decoding requires tree package factory'')
      else if data ! 0 = NodeTypeInternal then Inl (Errorf ''internal node decoding requires tree package factory'')
      else Inl (Errorf ''unknown node type''))"

definition EstimateSize :: "Node option \<Rightarrow> nat" where
  "EstimateSize node =
     (case node of None \<Rightarrow> 0
      | Some (Leaf _) \<Rightarrow> 1 + LeafNodeSize
      | Some (Internal internal) \<Rightarrow> 1 + InternalNodeInterfaceSize internal)"

definition EncodeNodeWithKey :: "NodeKey \<Rightarrow> Node option \<Rightarrow> (bytes \<times> bytes) result" where
  "EncodeNodeWithKey key node =
     bindE (EncodeNodeKey key) (\<lambda>keyData. bindE (EncodeNode node) (\<lambda>nodeData. Inr (keyData, nodeData)))"

section \<open>Batches of nodes\<close>

text \<open>The encoder is its buffer; \<open>Add\<close> returns the buffer also when it fails half-way.\<close>

definition BatchEncoder_Add :: "bytes \<Rightarrow> NodeKey \<Rightarrow> Node option \<Rightarrow> unit result \<times> bytes" where
  "BatchEncoder_Add buffer key node =
     (case EncodeNodeKey key of
        Inl e \<Rightarrow> (Inl e, buffer)
      | Inr keyData \<Rightarrow>
          let buffer1 = buffer @ be_put 4 (of_nat (length keyData) :: u32) @ keyData
          in case EncodeNode node of
               Inl err \<Rightarrow> (Inl err, buffer1)
             | Inr nodeData \<Rightarrow> (Inr (), buffer1 @ be_put 4 (of_nat (length nodeData) :: u32) @ nodeData))"

record BatchDecoder =
  bd_data :: bytes
  bd_pos :: nat

definition NewBatchDecoder :: "bytes \<Rightarrow> BatchDecoder" where
  "NewBatchDecoder data = \<lparr>bd_data = data, bd_pos = 0\<rparr>"

text \<open>One length-prefixed field: the bytes and the new position, or the error of the source.\<close>

definition readField :: "bytes \<Rightarrow> nat \<Rightarrow> string \<Rightarrow> string \<Rightarrow> (bytes result \<times> nat)" where
  "readField data pos lenErr dataErr =
     (if pos + 4 > length data then (Inl (Errorf lenErr), pos)
      else let n = unat (be_get (slice data pos (pos + 4)) :: u32); pos1 = pos + 4
           in if pos1 + n > length data then (Inl (Errorf dataErr), pos1)
              else (Inr (slice data pos1 (pos1 + n)), pos1 + n))"

definition BatchDecoder_Next :: "BatchDecoder \<Rightarrow> (NodeKey \<times> Node) option result \<times> BatchDecoder" where
  "BatchDecoder_Next d =
     (if bd_pos d \<ge> length (bd_data d) then (Inr None, d)
      else case readField (bd_data d) (bd_pos d) ''truncated key length'' ''truncated key data'' of
        (Inl e, pos) \<Rightarrow> (Inl e, d\<lparr>bd_pos := pos\<rparr>)
      | (Inr keyData, pos) \<Rightarrow>
          (case DecodeNodeKey keyData of
             Inl err \<Rightarrow> (Inl err, d\<lparr>bd_pos := pos\<rparr>)
           | Inr key \<Rightarrow>
               (case readField (bd_data d) pos ''truncated node length'' ''truncated node data'' of
                  (Inl e, pos) \<Rightarrow> (Inl e, d\<lparr>bd_pos := pos\<rparr>)
                | (Inr nodeData, pos) \<Rightarrow>
                    (case DecodeNode nodeData (nk_Version key) of
                       Inl err \<Rightarrow> (Inl err, d\<lparr>bd_pos := pos\<rparr>)
                     | Inr node \<Rightarrow> (Inr (Some (key, node)), d\<lparr>bd_pos := pos\<rparr>)))))"

definition HasMore :: "BatchDecoder \<Rightarrow> bool" where
  "HasMore d \<longleftrightarrow> bd_pos d < length (bd_data d)"

section \<open>Well-formed nodes\<close>

fun wf_node :: "Node \<Rightarrow> bool" where
  "wf_node (Leaf n) = (wf_key (l_key n) \<and> wf_hash (l_valueHash n))"
| "wf_node (Internal n) =
     (gm_wf (i_children n)
      \<and> (\<forall>(nib, c) \<in> set (i_children n). nib \<le> MaxNibbleValue \<and> wf_hash (c_Hash c)))"

definition sorted_children :: "InternalNode \<Rightarrow> (nibble, Child) gomap" where
  "sorted_children n = map (lookupChild n) (sort (map fst (i_children n)))"

text \<open>What is left of a node when it is stored under a version and read back.\<close>

fun stored :: "version \<Rightarrow> Node \<Rightarrow> Node" where
  "stored v (Leaf n) = Leaf (NewLeafNodeFromCodec (l_key n) (l_valueHash n) v)"
| "stored v (Internal n) = Internal (NewInternalNodeFromCodec (sorted_children n) v)"

lemma shiftBytes_be_put: "shiftBytes 8 v [] = be_put 8 v"
  by (simp add: be_put_def eval_nat_numeral upt_rec)

lemma encodeChildInterface_eq: "encodeChildInterface = encodeChild"
  by (simp add: fun_eq_iff encodeChildInterface_def encodeChild_def shiftBytes_be_put)

lemma exchangeSort_nibbles: "exchangeSort id (length xs - 1) xs = sort xs"
  by (rule exchangeSort_eq_sort) simp_all

lemma Encode_variants_agree:
  "EncodeInternalNode (Some n) = bindE (EncodeInternalNodeInterface n) (\<lambda>bs. Inr (Some bs))"
  by (simp add: EncodeInternalNode_def EncodeInternalNodeInterface_def encodeChildInterface_eq Let_def
      exchangeSort_nibbles [where xs = "map fst (Children n)", simplified])

lemma card_nibbles: "card {n :: nibble. n \<le> MaxNibbleValue} = 16"
proof -
  have "{n :: nibble. n \<le> MaxNibbleValue} = set nibble_range"
    by (auto simp: nibble_range_iff)
  also have "card \<dots> = length nibble_range"
    by (rule distinct_card) (simp add: nibble_range_def)
  finally show ?thesis by (simp add: nibble_range_def)
qed

lemma wf_NumChildren: "wf_node (Internal n) \<Longrightarrow> NumChildren n \<le> 16"
proof -
  assume wf: "wf_node (Internal n)"
  then have "set (map fst (i_children n)) \<subseteq> {n. n \<le> MaxNibbleValue}" by auto
  then have "card (set (map fst (i_children n))) \<le> 16"
    by (metis card_mono card_nibbles finite)
  moreover have "card (set (map fst (i_children n))) = length (i_children n)"
    using wf by (metis distinct_card length_map wf_node.simps(2))
  ultimately show ?thesis by (simp add: NumChildren_def)
qed

lemma map_fst_sorted_children [simp]: "map fst (sorted_children n) = sort (map fst (i_children n))"
  by (simp add: sorted_children_def lookupChild_def comp_def)

lemma length_sorted_children [simp]: "length (sorted_children n) = length (i_children n)"
  by (simp add: sorted_children_def)

lemma map_of_lookupChild:
  "map_of (map (lookupChild n) xs) nib = (if nib \<in> set xs then Some (the (gm_get (i_children n) nib)) else None)"
  by (induction xs) (auto simp: lookupChild_def Children_def)

lemma map_of_sorted_children [simp]: "map_of (sorted_children n) = map_of (i_children n)"
proof
  fix nib
  show "map_of (sorted_children n) nib = map_of (i_children n) nib"
  proof (cases "map_of (i_children n) nib")
    case None
    then have "nib \<notin> set (map fst (i_children n))" by (simp add: map_of_eq_None_iff)
    with None show ?thesis by (simp add: sorted_children_def map_of_lookupChild)
  next
    case (Some c)
    then have "nib \<in> set (map fst (i_children n))" by (metis map_of_eq_None_iff list.set_map option.distinct(1))
    with Some show ?thesis by (simp add: sorted_children_def map_of_lookupChild)
  qed
qed

lemma gm_wf_sorted_children [simp]: "gm_wf (i_children n) \<Longrightarrow> gm_wf (sorted_children n)"
  by simp

lemma set_sorted_children: "gm_wf (i_children n) \<Longrightarrow> set (sorted_children n) = set (i_children n)"
proof (rule set_eqI)
  fix x
  assume wf: "gm_wf (i_children n)"
  show "x \<in> set (sorted_children n) \<longleftrightarrow> x \<in> set (i_children n)"
    using gm_get_mem [OF gm_wf_sorted_children [OF wf], of "fst x" "snd x"] gm_get_mem [OF wf, of "fst x" "snd x"]
    by simp
qed

lemma wf_stored [simp]: "wf_node n \<Longrightarrow> wf_node (stored v n)"
proof (cases n)
  case (Internal i)
  moreover assume "wf_node n"
  ultimately show ?thesis
    by (simp add: NewInternalNodeFromCodec_def set_sorted_children)
qed (simp add: NewLeafNodeFromCodec_def)

lemma child_hash_stored: "child_hash (NewInternalNodeFromCodec (sorted_children i) v) = child_hash i"
  by (simp add: child_hash_def NewInternalNodeFromCodec_def fun_eq_iff)

lemma preimage_stored [simp]: "preimage (stored v n) = preimage n"
  by (cases n) (simp_all add: preimage_def NewLeafNodeFromCodec_def child_hash_stored)

lemma cache_ok_stored [simp]: "cache_ok H (stored v n)"
  by (cases n) (simp_all add: NewLeafNodeFromCodec_def NewInternalNodeFromCodec_def)

lemma Node_Hash_stored: "cache_ok H n \<Longrightarrow> Node_Hash H (stored v n) = Node_Hash H n"
  by (simp add: Node_Hash_preimage)

lemma Node_Version_stored [simp]: "Node_Version (stored v n) = v"
  by (cases n) (simp_all add: NewLeafNodeFromCodec_def NewInternalNodeFromCodec_def)

section \<open>Round trips\<close>

lemma EncodeInternalNodeInterface_eq:
  assumes "wf_node (Internal n)"
  shows "EncodeInternalNodeInterface n =
    Inr (of_nat (length (i_children n)) # concat (map encodeChild (sorted_children n)))"
  using wf_NumChildren [OF assms] exchangeSort_nibbles [where xs = "map fst (i_children n)"]
  by (simp add: EncodeInternalNodeInterface_def NumChildren_def Children_def encodeChildInterface_eq
      sorted_children_def comp_def Let_def)

lemma boolByte_eq_1 [simp]: "boolByte b = 1 \<longleftrightarrow> b"
  by (simp add: boolByte_def)

lemma length_encodeChild: "wf_hash (c_Hash c) \<Longrightarrow> length (encodeChild (nib, c)) = 42"
  by (simp add: encodeChild_def wf_hash_def)

lemma length_concat_encodeChild:
  "\<forall>(nib, c) \<in> set cs. wf_hash (c_Hash c) \<Longrightarrow> length (concat (map encodeChild cs)) = length cs * 42"
  by (induction cs) (auto simp: length_encodeChild)

lemma decodeChildren_concat:
  assumes "\<forall>(nib, c) \<in> set cs. nib \<le> MaxNibbleValue \<and> wf_hash (c_Hash c)"
    and "distinct (map fst (acc @ cs))" and "length pre = off"
  shows "decodeChildren (pre @ concat (map encodeChild cs)) off (length cs) acc = Inr (acc @ cs)"
  using assms
proof (induction cs arbitrary: pre off acc)
  case Nil
  then show ?case by simp
next
  case (Cons nc cs)
  obtain nib c where nc: "nc = (nib, c)" by (cases nc)
  have wf: "nib \<le> 15" "length (c_Hash c) = 32"
    using Cons.prems(1) by (auto simp: nc MaxNibbleValue_def wf_hash_def HashSize_def)
  let ?rest = "nib # c_Hash c @ be_put 8 (c_Version c) @ [boolByte (c_IsLeaf c)] @ concat (map encodeChild cs)"
  define D where "D = pre @ ?rest"
  have d: "pre @ concat (map encodeChild (nc # cs)) = D" "(pre @ encodeChild nc) @ concat (map encodeChild cs) = D"
    using wf by (simp_all add: nc encodeChild_def D_def)
  have parts: "D ! off = nib" "slice D (off + 1) (off + 33) = c_Hash c"
    "slice D (off + 33) (off + 41) = be_put 8 (c_Version c)" "D ! (off + 41) = boolByte (c_IsLeaf c)"
    using wf nth_offset [of pre ?rest 0] unfolding D_def Cons.prems(3) [symmetric] slice_offset nth_offset
    by (simp_all add: slice_def nth_append)
  have eta: "\<lparr>c_Hash = c_Hash c, c_Version = c_Version c, c_IsLeaf = c_IsLeaf c\<rparr> = c"
    by (cases c) simp
  have "decodeChildren D off (Suc (length cs)) acc = decodeChildren D (off + 42) (length cs) (gm_put nib c acc)"
    using linorder_not_less [THEN iffD2, OF wf(1)] wf(2) parts by (simp add: Let_def eta)
  moreover have "gm_put nib c acc = acc @ [(nib, c)]"
    using Cons.prems(2) by (induction acc) (auto simp: nc)
  moreover have "decodeChildren ((pre @ encodeChild nc) @ concat (map encodeChild cs)) (off + 42) (length cs)
      (acc @ [(nib, c)]) = Inr ((acc @ [(nib, c)]) @ cs)"
    using Cons.prems wf by (intro Cons.IH) (auto simp: nc length_encodeChild wf_hash_def HashSize_def)
  ultimately show ?case unfolding d list.size by (simp add: nc)
qed

lemma decodeInternalNode_encode:
  assumes "wf_node (Internal n)"
  shows "decodeInternalNode (of_nat (length (i_children n)) # concat (map encodeChild (sorted_children n))) v
    = Inr (NewInternalNodeFromCodec (sorted_children n) v)"
proof -
  have wf: "\<forall>(nib, c) \<in> set (sorted_children n). nib \<le> MaxNibbleValue \<and> wf_hash (c_Hash c)"
    and dist: "distinct (map fst ([] @ sorted_children n))"
    using assms by (simp_all add: set_sorted_children)
  let ?b = "of_nat (length (i_children n)) :: byte"
  have num: "unat ?b = length (i_children n)"
    using wf_NumChildren [OF assms] by (simp add: NumChildren_def unsigned_of_nat take_bit_nat_eq_self)
  have len: "length (concat (map encodeChild (sorted_children n))) = length (i_children n) * 42"
    using wf by (subst length_concat_encodeChild) (auto simp: case_prod_unfold)
  have "decodeChildren ([?b] @ concat (map encodeChild (sorted_children n))) 1 (length (sorted_children n)) []
      = Inr ([] @ sorted_children n)"
    using wf dist by (intro decodeChildren_concat) simp_all
  then show ?thesis
    using num len wf_NumChildren [OF assms] by (simp add: decodeInternalNode_def NumChildren_def)
qed

lemma decodeLeafNode_encode:
  assumes "wf_node (Leaf n)"
  shows "decodeLeafNode (EncodeLeafNodeInterface n) v = Inr (NewLeafNodeFromCodec (l_key n) (l_valueHash n) v)"
  using assms by (simp add: decodeLeafNode_def EncodeLeafNodeInterface_def wf_key_def wf_hash_def size_defs slice_def)

lemma EncodeNode_total: "wf_node n \<Longrightarrow> \<exists>bs. EncodeNode (Some n) = Inr bs"
  by (cases n) (auto simp: EncodeNode_def EncodeInternalNodeInterface_eq)

lemma DecodeNode_EncodeNode:
  assumes "wf_node n" and "EncodeNode (Some n) = Inr bs"
  shows "DecodeNode bs v = Inr (stored v n)"
proof (cases n)
  case (Leaf l)
  with assms show ?thesis
    by (auto simp: EncodeNode_def DecodeNode_def DecodeNodeWith_def nodeFactory_def decodeLeafNode_encode)
next
  case (Internal i)
  with assms show ?thesis
    by (auto simp: EncodeNode_def DecodeNode_def DecodeNodeWith_def nodeFactory_def NodeTypeInternal_def
        NodeTypeLeaf_def EncodeInternalNodeInterface_eq decodeInternalNode_encode)
qed

lemma EncodeNode_size:
  assumes "wf_node n" and "EncodeNode (Some n) = Inr bs"
  shows "length bs = EstimateSize (Some n)"
proof (cases n)
  case (Leaf l)
  with assms show ?thesis by (auto simp: EncodeNode_def EstimateSize_def LeafNodeSize_def EncodeLeafNodeInterface_def)
next
  case (Internal i)
  with assms have "\<forall>(nib, c) \<in> set (sorted_children i). wf_hash (c_Hash c)"
    by (auto simp: set_sorted_children)
  with Internal assms show ?thesis
    by (auto simp: EncodeNode_def EstimateSize_def InternalNodeInterfaceSize_def EncodeInternalNodeInterface_eq
        length_concat_encodeChild NumChildren_def)
qed

section \<open>The interface of a node codec\<close>

text \<open>
  What the tree relies on when it writes a node and reads it back: encoding succeeds on well-formed
  nodes and decoding gives the node under the version of its key, with the same hash.
\<close>

locale node_codec =
  fixes enc :: "Node option \<Rightarrow> bytes result"
    and dec :: "bytes \<Rightarrow> version \<Rightarrow> Node result"
  assumes enc_total: "wf_node n \<Longrightarrow> \<exists>bs. enc (Some n) = Inr bs"
    and dec_enc: "wf_node n \<Longrightarrow> enc (Some n) = Inr bs \<Longrightarrow> dec bs v = Inr (stored v n)"
begin

lemma hash_preserved:
  assumes "wf_node n" and "cache_ok H n" and "enc (Some n) = Inr bs" and "dec bs v = Inr n'"
  shows "Node_Hash H n' = Node_Hash H n"
proof -
  have "n' = stored v n" using dec_enc [OF assms(1,3), of v] assms(4) by simp
  then show ?thesis using assms(2) by (simp add: Node_Hash_stored)
qed

lemma same_encoding_same_hash:
  assumes "wf_node n" and "wf_node m" and "cache_ok H n" and "cache_ok H m" and "enc (Some n) = enc (Some m)"
  shows "Node_Hash H n = Node_Hash H m"
proof -
  obtain bs where bs: "enc (Some n) = Inr bs" using enc_total assms(1) by blast
  have n: "dec bs 0 = Inr (stored 0 n)" using dec_enc [OF assms(1) bs] .
  moreover have "dec bs 0 = Inr (stored 0 m)" using dec_enc assms(2,5) bs by metis
  ultimately have "stored 0 n = stored 0 m" by simp
  then show ?thesis using assms(3,4) by (metis Node_Hash_stored)
qed

end

interpretation nodes: node_codec EncodeNode DecodeNode
  by unfold_locales (fact EncodeNode_total, fact DecodeNode_EncodeNode)

section \<open>Batches\<close>

fun addAll :: "bytes \<Rightarrow> (NodeKey \<times> Node) list \<Rightarrow> unit result \<times> bytes" where
  "addAll buf [] = (Inr (), buf)"
| "addAll buf ((k, n) # es) =
     (case BatchEncoder_Add buf k (Some n) of (Inl e, b) \<Rightarrow> (Inl e, b) | (Inr _, b) \<Rightarrow> addAll b es)"

fun nextAll :: "nat \<Rightarrow> BatchDecoder \<Rightarrow> (NodeKey \<times> Node) option result list \<times> BatchDecoder" where
  "nextAll 0 d = ([], d)"
| "nextAll (Suc n) d = (let (r, d') = BatchDecoder_Next d; (rs, d'') = nextAll n d' in (r # rs, d''))"

lemma readField_prefixed:
  assumes "length bs < 2 ^ 32"
  shows "readField (pre @ be_put 4 (of_nat (length bs) :: u32) @ bs @ post) (length pre) e1 e2
    = (Inr bs, length pre + 4 + length bs)"
proof -
  let ?D = "pre @ be_put 4 (of_nat (length bs) :: u32) @ bs @ post"
  have n: "unat (of_nat (length bs) :: u32) = length bs"
    using assms by (simp add: unsigned_of_nat take_bit_nat_eq_self)
  have "slice ?D (length pre) (length pre + 4) = be_put 4 (of_nat (length bs) :: u32)"
    by (simp add: slice_def)
  moreover have "slice ?D (length pre + 4) (length pre + 4 + length bs) = bs"
    by (simp add: slice_def)
  ultimately show ?thesis using n by (simp add: readField_def)
qed

lemma EncodeNode_length:
  assumes "wf_node n" and "EncodeNode (Some n) = Inr bs"
  shows "length bs < 2 ^ 32"
proof -
  have "length bs \<le> 1 + (1 + 16 * 42)"
    using EncodeNode_size [OF assms] wf_NumChildren assms(1)
    by (cases n) (fastforce simp: EstimateSize_def LeafNodeSize_def InternalNodeInterfaceSize_def)+
  then show ?thesis by simp
qed

lemma Next_Add:
  assumes "wf_nodekey k" and "wf_node n"
  shows "\<exists>part. BatchEncoder_Add buf k (Some n) = (Inr (), buf @ part) \<and> part \<noteq> []
    \<and> (\<forall>post. BatchDecoder_Next \<lparr>bd_data = buf @ part @ post, bd_pos = length buf\<rparr>
        = (Inr (Some (k, stored (nk_Version k) n)), \<lparr>bd_data = buf @ part @ post, bd_pos = length (buf @ part)\<rparr>))"
proof -
  obtain v ns where k: "k = nkey v ns" using wf_nodekeyE [OF assms(1)] by blast
  have ns: "wf_nibbles ns" using assms(1) by (simp add: k)
  obtain nd where nd: "EncodeNode (Some n) = Inr nd" using EncodeNode_total [OF assms(2)] by blast
  let ?kd = "encoded v ns"
  let ?p1 = "be_put 4 (of_nat (length ?kd) :: u32) @ ?kd" and ?p2 = "be_put 4 (of_nat (length nd) :: u32) @ nd"
  have kd: "EncodeNodeKey k = Inr ?kd" "DecodeNodeKey ?kd = Inr k"
    using ns DecodeNodeKey_encoded [OF ns, of v "[]"] by (auto simp: k)
  have lk: "length ?kd < 2 ^ 32" using ns by (auto simp: length_encoded wf_nibbles_def size_defs)
  have "readField (buf @ (?p1 @ ?p2) @ post) (length buf) a b = (Inr ?kd, length buf + 4 + length ?kd)" for post a b
    using readField_prefixed [OF lk, of buf "?p2 @ post"] by simp
  moreover have "readField (buf @ (?p1 @ ?p2) @ post) (length buf + 4 + length ?kd) a b
      = (Inr nd, length (buf @ ?p1 @ ?p2))" for post a b
    using readField_prefixed [OF EncodeNode_length [OF assms(2) nd], of "buf @ ?p1" post] by (simp add: add.assoc)
  ultimately show ?thesis
    using kd nd DecodeNode_EncodeNode [OF assms(2) nd, of v]
    by (intro exI [where x = "?p1 @ ?p2"]) (simp add: BatchEncoder_Add_def BatchDecoder_Next_def k be_put_def upt_rec)
qed

lemma nextAll_addAll:
  assumes "\<forall>(k, n) \<in> set es. wf_nodekey k \<and> wf_node n"
  shows "\<exists>part. addAll buf es = (Inr (), buf @ part)
    \<and> (\<forall>post. nextAll (length es) \<lparr>bd_data = buf @ part @ post, bd_pos = length buf\<rparr>
        = (map (\<lambda>(k, n). Inr (Some (k, stored (nk_Version k) n))) es,
           \<lparr>bd_data = buf @ part @ post, bd_pos = length (buf @ part)\<rparr>))"
  using assms
proof (induction es arbitrary: buf)
  case Nil
  then show ?case by simp
next
  case (Cons e es)
  obtain k n where e: "e = (k, n)" by (cases e)
  obtain p where p: "BatchEncoder_Add buf k (Some n) = (Inr (), buf @ p)"
    "\<And>post. BatchDecoder_Next \<lparr>bd_data = buf @ p @ post, bd_pos = length buf\<rparr>
        = (Inr (Some (k, stored (nk_Version k) n)), \<lparr>bd_data = buf @ p @ post, bd_pos = length (buf @ p)\<rparr>)"
    using Next_Add [of k n buf] Cons.prems e by auto
  obtain q where q: "addAll (buf @ p) es = (Inr (), (buf @ p) @ q)"
    "\<And>post. nextAll (length es) \<lparr>bd_data = (buf @ p) @ q @ post, bd_pos = length (buf @ p)\<rparr>
        = (map (\<lambda>(k, n). Inr (Some (k, stored (nk_Version k) n))) es,
           \<lparr>bd_data = (buf @ p) @ q @ post, bd_pos = length ((buf @ p) @ q)\<rparr>)"
    using Cons.IH [of "buf @ p"] Cons.prems by auto
  show ?case
    using p(1) q(1) p(2) [of "q @ _"] q(2) by (intro exI [where x = "p @ q"]) (simp add: e)
qed

lemma child_hash_length: "wf_node (Internal n) \<Longrightarrow> child_hash n nib = Some h \<Longrightarrow> length h = 32"
  by (auto simp: child_hash_def wf_hash_def HashSize_def dest!: map_of_SomeD)

lemma child_hash_high: "wf_node (Internal n) \<Longrightarrow> \<not> nib \<le> MaxNibbleValue \<Longrightarrow> child_hash n nib = None"
  by (auto simp: child_hash_def map_of_eq_None_iff)

section \<open>Properties\<close>

text \<open>
  C38: encoding a well-formed node succeeds, takes exactly the estimated number of bytes, and decoding
  those bytes under any version gives a node of the same kind with the same contents (the value
  payload is dropped, the version is the one given) and the same hash.
\<close>

theorem node_codec_roundtrip:
  assumes "wf_node n" and "cache_ok H n"
  shows "\<exists>bs. EncodeNode (Some n) = Inr bs \<and> length bs = EstimateSize (Some n)
    \<and> DecodeNode bs v = Inr (stored v n)
    \<and> preimage (stored v n) = preimage n \<and> Node_Version (stored v n) = v
    \<and> Node_Hash H (stored v n) = Node_Hash H n"
  using EncodeNode_total [OF assms(1)] EncodeNode_size [OF assms(1)] nodes.dec_enc [OF assms(1)]
    nodes.hash_preserved [OF assms] by fastforce

theorem node_codec_roundtrip_witness:
  "\<exists>bs. EncodeNode (Some (Leaf (NewLeafNodeFromCodec (replicate 32 1) (replicate 32 2) 0))) = Inr bs
    \<and> length bs = 65 \<and> is_ok (DecodeNode bs 9)"
proof -
  let ?n = "Leaf (NewLeafNodeFromCodec (replicate 32 1) (replicate 32 2) 0)"
  have "wf_node ?n" "cache_ok (\<lambda>_. EmptyHash) ?n"
    by (simp_all add: NewLeafNodeFromCodec_def wf_key_def wf_hash_def size_defs)
  from node_codec_roundtrip [OF this, of 9] show ?thesis
    by (auto simp: EstimateSize_def LeafNodeSize_def)
qed

text \<open>
  Writing a sequence of well-formed (key, node) pairs with \<open>BatchEncoder.Add\<close> succeeds, and reading the
  buffer with \<open>BatchDecoder.Next\<close> returns the same pairs in the same order, each node as stored under
  the version of its key, and leaves nothing to read.
\<close>

theorem batch_codec_roundtrip:
  assumes "\<forall>(k, n) \<in> set es. wf_nodekey k \<and> wf_node n"
  shows "\<exists>buf d. addAll [] es = (Inr (), buf)
    \<and> nextAll (length es) (NewBatchDecoder buf) = (map (\<lambda>(k, n). Inr (Some (k, stored (nk_Version k) n))) es, d)
    \<and> \<not> HasMore d"
  using nextAll_addAll [OF assms, of "[]"] by (force simp: NewBatchDecoder_def HasMore_def dest: spec [of _ "[]"])

theorem batch_codec_roundtrip_witness:
  "\<exists>buf. addAll [] [(nkey 3 [1], Leaf (NewLeafNodeFromCodec (replicate 32 1) (replicate 32 2) 0))] = (Inr (), buf)"
proof -
  have "\<forall>(k, n) \<in> set [(nkey 3 [1], Leaf (NewLeafNodeFromCodec (replicate 32 1) (replicate 32 2) 0))].
      wf_nodekey k \<and> wf_node n"
    by (simp add: NewLeafNodeFromCodec_def wf_key_def wf_hash_def wf_nibbles_def size_defs)
  from batch_codec_roundtrip [OF this] show ?thesis by blast
qed

text \<open>
  C39: equal node hashes mean equal contents or a collision of the hash function: two well-formed nodes
  with the same hash are two leaves with the same key and value hash, or two internal nodes with the
  same child hashes under every nibble, or their preimages are two different inputs with the same digest.
\<close>

theorem node_hash_binding:
  assumes "wf_node n" and "wf_node m" and "cache_ok H n" and "cache_ok H m" and "Node_Hash H n = Node_Hash H m"
  shows "(\<exists>a b. n = Leaf a \<and> m = Leaf b \<and> l_key a = l_key b \<and> l_valueHash a = l_valueHash b)
    \<or> (\<exists>a b. n = Internal a \<and> m = Internal b \<and> (\<forall>nib. child_hash a nib = child_hash b nib))
    \<or> preimage n \<noteq> preimage m \<and> H (preimage n) = H (preimage m)"
proof (cases "preimage n = preimage m")
  case True
  show ?thesis
  proof (cases n)
    case n: (Leaf a)
    then obtain b where m: "m = Leaf b" using True by (cases m) (auto simp: preimage_def)
    with n True assms(1,2) show ?thesis by (simp add: preimage_def leaf_preimage_inject)
  next
    case n: (Internal a)
    then obtain b where m: "m = Internal b" using True by (cases m) (auto simp: preimage_def)
    have eq: "internal_preimage (child_hash a) = internal_preimage (child_hash b)"
      using True by (simp add: n m preimage_def)
    have "child_hash a nib = child_hash b nib" if "nib \<le> MaxNibbleValue" for nib
      using internal_preimage_inject [OF eq _ _ that] child_hash_length assms(1,2) n m by blast
    moreover have "child_hash a nib = child_hash b nib" if "\<not> nib \<le> MaxNibbleValue" for nib
      using child_hash_high that assms(1,2) n m by metis
    ultimately show ?thesis using n m by blast
  qed
next
  case False
  then show ?thesis using assms(3-5) by (simp add: Node_Hash_preimage)
qed

theorem node_hash_binding_witness:
  "\<exists>n m. wf_node n \<and> wf_node m \<and> Node_Hash (\<lambda>_. EmptyHash) n = Node_Hash (\<lambda>_. EmptyHash) m
     \<and> preimage n \<noteq> preimage m"
proof -
  let ?n = "Leaf (NewLeafNodeFromCodec (replicate 32 1) (replicate 32 2) 0)"
  let ?m = "Leaf (NewLeafNodeFromCodec (replicate 32 3) (replicate 32 2) 0)"
  let ?H = "\<lambda>_. EmptyHash"
  have wf: "wf_node ?n" "wf_node ?m" "cache_ok ?H ?n" "cache_ok ?H ?m" "Node_Hash ?H ?n = Node_Hash ?H ?m"
    by (simp_all add: NewLeafNodeFromCodec_def wf_key_def wf_hash_def size_defs LeafNode_Hash_def
        LeafNode_computeHash_eq)
  from node_hash_binding [OF this] have "preimage ?n \<noteq> preimage ?m"
    by (auto simp: NewLeafNodeFromCodec_def)
  with wf show ?thesis by blast
qed

end
