(* ===== verification/StorageKeys.thy ===== *)
theory StorageKeys
  imports NodeKeys
begin

text \<open>
  Storage keys: \<^verbatim>\<open>pkg/storage/keys.go\<close> (the \<open>DefaultKeyEncoder\<close>) and \<^verbatim>\<open>pkg/tree/storage_keys.go\<close>
  (the tree package's own copy, which the node cache uses). The key space is divided by the first
  byte: \<^verbatim>\<open>n\<close> for nodes, \<^verbatim>\<open>v\<close> for values, \<^verbatim>\<open>k\<close> for values by key and \<^verbatim>\<open>r\<close> for roots.
\<close>

section \<open>The default key encoder\<close>

text \<open>
  The packing loop writes one nibble at a time into the byte \<open>11 + i/2\<close> of the buffer, the even
  ones by assignment, the odd ones with \<^verbatim>\<open>|=\<close>.
\<close>

fun packLoop :: "nibble list \<Rightarrow> bytes \<Rightarrow> nat \<Rightarrow> nat \<Rightarrow> bytes result" where
  "packLoop ns buf i 0 = Inr buf"
| "packLoop ns buf i (Suc left) =
     (let byteIdx = 11 + i div 2
      in bindE (idx ns i) (\<lambda>n. bindE (idx buf byteIdx) (\<lambda>b.
           bindE (setidx buf byteIdx (if i mod 2 = 0 then push_bit 4 n else b OR n))
             (\<lambda>buf'. packLoop ns buf' (Suc i) left))))"

definition DefaultKeyEncoder_NodeKey :: "NodeKey \<Rightarrow> bytes result" where
  "DefaultKeyEncoder_NodeKey k =
     (let nibbleCount = Length (nk_NibblePath k);
          nibbleBytes = (nibbleCount + 1) div 2;
          buf = [0x6e] @ be_put 8 (nk_Version k) @ be_put 2 nibbleCount @ replicate (unat nibbleBytes) 0
      in packLoop (Nibbles (nk_NibblePath k)) buf 0 (unat nibbleCount))"

fun unpackLoop :: "bytes \<Rightarrow> nat \<Rightarrow> nat \<Rightarrow> nibble list result" where
  "unpackLoop buf i 0 = Inr []"
| "unpackLoop buf i (Suc left) =
     bindE (idx buf (11 + i div 2)) (\<lambda>b.
       bindE (unpackLoop buf (Suc i) left)
         (\<lambda>rest. Inr ((if i mod 2 = 0 then drop_bit 4 b else b AND 0x0F) # rest)))"

definition DefaultKeyEncoder_ParseNodeKey :: "bytes \<Rightarrow> NodeKey result" where
  "DefaultKeyEncoder_ParseNodeKey key =
     (if length key < 11 \<or> key ! 0 \<noteq> 0x6e then Inl (Errorf ''invalid node key format'')
      else let version = be_get (slice key 1 9);
               nibbleCount = be_get (slice key 9 11) :: u16
           in if nibbleCount > of_nat MaxTreeDepth then Inl (Errorf ''nibble count exceeds maximum'')
              else let expectedLen = 11 + (nibbleCount + 1) div 2
                   in if length key \<noteq> unat expectedLen then Inl (Errorf ''invalid node key length'')
                      else bindE (unpackLoop key 0 (unat nibbleCount))
                             (\<lambda>nibbles. Inr \<lparr>nk_Version = version,
                                nk_NibblePath = \<lparr>Nibbles = nibbles, Length = nibbleCount\<rparr>\<rparr>))"

definition DefaultKeyEncoder_ValueKey :: "hash \<Rightarrow> bytes" where
  "DefaultKeyEncoder_ValueKey hash = 0x76 # go_copy (replicate 32 0) hash"

definition DefaultKeyEncoder_ValueKeyByKey :: "key \<Rightarrow> bytes" where
  "DefaultKeyEncoder_ValueKeyByKey key = 0x6b # go_copy (replicate 32 0) key"

definition DefaultKeyEncoder_RootKey :: "version \<Rightarrow> bytes" where
  "DefaultKeyEncoder_RootKey version = RootKeyPrefix @ be_put 8 version"

definition hasPrefix :: "bytes \<Rightarrow> bytes \<Rightarrow> bool" where
  "hasPrefix s prefix \<longleftrightarrow> length s \<ge> length prefix \<and> take (length prefix) s = prefix"

definition DefaultKeyEncoder_ParseRootKey :: "bytes \<Rightarrow> version result" where
  "DefaultKeyEncoder_ParseRootKey key =
     (if \<not> hasPrefix key RootKeyPrefix then Inl (Errorf ''invalid root key prefix'')
      else let versionBytes = drop (length RootKeyPrefix) key
           in if length versionBytes \<noteq> 8 then Inl (Errorf ''invalid root key length'')
              else Inr (be_get versionBytes))"

definition DefaultKeyEncoder_RootKeyPrefix :: bytes where
  "DefaultKeyEncoder_RootKeyPrefix = RootKeyPrefix"

section \<open>The tree package's copy\<close>

definition makeRootKey :: "version \<Rightarrow> bytes" where
  "makeRootKey version = RootKeyPrefix @ be_put 8 version"

definition parseRootKey :: "bytes \<Rightarrow> version result" where
  "parseRootKey key =
     (if \<not> hasPrefix key RootKeyPrefix then Inl (Errorf ''invalid root key prefix'')
      else let versionBytes = drop (length RootKeyPrefix) key
           in if length versionBytes \<noteq> 8 then Inl (Errorf ''invalid root key length'')
              else Inr (be_get versionBytes))"

definition makeValueKey :: "hash \<Rightarrow> bytes" where
  "makeValueKey hash = 0x76 # go_copy (replicate 32 0) hash"

definition makeValueKeyByKey :: "key \<Rightarrow> bytes" where
  "makeValueKeyByKey key = 0x6b # go_copy (replicate 32 0) key"

definition makeNodeKey :: "NodeKey \<Rightarrow> bytes result" where
  "makeNodeKey k =
     (let nibbleCount = Length (nk_NibblePath k);
          nibbleBytes = (nibbleCount + 1) div 2;
          buf = [0x6e] @ be_put 8 (nk_Version k) @ be_put 2 nibbleCount @ replicate (unat nibbleBytes) 0
      in packLoop (Nibbles (nk_NibblePath k)) buf 0 (unat nibbleCount))"

definition parseNodeKey :: "bytes \<Rightarrow> NodeKey result" where
  "parseNodeKey key =
     (if length key < 11 \<or> key ! 0 \<noteq> 0x6e then Inl (Errorf ''invalid node key format'')
      else let version = be_get (slice key 1 9);
               nibbleCount = be_get (slice key 9 11) :: u16
           in if nibbleCount > of_nat MaxTreeDepth then Inl (Errorf ''nibble count exceeds maximum'')
              else let expectedLen = 11 + (nibbleCount + 1) div 2
                   in if length key \<noteq> unat expectedLen then Inl (Errorf ''invalid node key length'')
                      else bindE (unpackLoop key 0 (unat nibbleCount))
                             (\<lambda>nibbles. Inr \<lparr>nk_Version = version,
                                nk_NibblePath = \<lparr>Nibbles = nibbles, Length = nibbleCount\<rparr>\<rparr>))"

section \<open>The packing loops agree with the codec of the types package\<close>

lemma packLoop_eq:
  "even (length ms) \<Longrightarrow> length pre = 11 + length ms div 2 \<Longrightarrow>
     packLoop (ms @ ns) (pre @ replicate ((length ns + 1) div 2) 0) (length ms) (length ns)
       = Inr (pre @ pack ns)"
proof (induction ns arbitrary: ms pre rule: pack.induct)
  case 1
  then show ?case by simp
next
  case (2 h)
  then show ?case by (simp add: nth_append list_update_append even_iff_mod_2_eq_zero)
next
  case (3 h l rest)
  have "packLoop ((ms @ [h, l]) @ rest)
      ((pre @ [push_bit 4 h OR l]) @ replicate ((length rest + 1) div 2) 0) (length (ms @ [h, l])) (length rest)
     = Inr ((pre @ [push_bit 4 h OR l]) @ pack rest)"
    using "3.prems" by (intro "3.IH") auto
  moreover have "Suc (length ms) div 2 = length ms div 2" "length ms mod 2 = 0" "Suc (length ms) mod 2 = 1"
    using "3.prems"(1) by presburger+
  ultimately show ?case
    using "3.prems" by (simp add: nth_append list_update_append)
qed

lemma DefaultKeyEncoder_NodeKey_nkey [simp]:
  assumes "length ns \<le> MaxTreeDepth"
  shows "DefaultKeyEncoder_NodeKey (nkey v ns) = Inr (NodeKeyPrefix @ encoded v ns)"
proof -
  have "packLoop ([] @ ns) (([0x6e] @ be_put 8 v @ be_put 2 (of_nat (length ns) :: u16))
      @ replicate ((length ns + 1) div 2) 0) (length ([] :: nibble list)) (length ns)
     = Inr (([0x6e] @ be_put 8 v @ be_put 2 (of_nat (length ns) :: u16)) @ pack ns)"
    by (intro packLoop_eq) simp_all
  then show ?thesis
    using assms u16_half [OF assms]
    by (simp add: DefaultKeyEncoder_NodeKey_def Let_def encoded_def NodeKeyPrefix_def)
      (simp add: mkpath_def)
qed

lemma unpackLoop_pack:
  "wf_nibbles ns \<Longrightarrow> even j \<Longrightarrow> length pre = 11 + j div 2 \<Longrightarrow>
     unpackLoop (pre @ pack ns) j (length ns) = Inr ns"
proof (induction ns arbitrary: pre j rule: pack.induct)
  case 1
  then show ?case by simp
next
  case (2 h)
  then show ?case by (simp add: nth_append wf_nibbles_def even_iff_mod_2_eq_zero)
next
  case (3 h l rest)
  then have "unpackLoop ((pre @ [push_bit 4 h OR l]) @ pack rest) (j + 2) (length rest) = Inr rest"
    by (intro "3.IH") (auto simp: wf_nibbles_def)
  moreover have "Suc j div 2 = j div 2" "j mod 2 = 0" "Suc j mod 2 = 1"
    using "3.prems"(2) by presburger+
  moreover have "l \<le> MaxNibbleValue" "h \<le> MaxNibbleValue"
    using "3.prems" by (auto simp: wf_nibbles_def)
  ultimately show ?case using "3.prems" by (simp add: nth_append)
qed

lemma u16_expected_len:
  assumes "n \<le> MaxTreeDepth"
  shows "unat (11 + (of_nat n + 1 :: u16) div 2) = 11 + (n + 1) div 2"
proof -
  have "(n + 1) div 2 \<le> 32" using assms by (simp add: MaxTreeDepth_def)
  with assms u16_half [of n] have "unat (11 :: u16) + unat ((of_nat n + 1 :: u16) div 2) < 2 ^ 16"
    by simp
  then show ?thesis using u16_half [OF assms] by (subst unat_add_lem [THEN iffD1]) simp_all
qed

lemma ParseNodeKey_encoded:
  assumes "wf_nibbles ns"
  shows "DefaultKeyEncoder_ParseNodeKey (NodeKeyPrefix @ encoded v ns) = Inr (nkey v ns)"
proof -
  let ?key = "NodeKeyPrefix @ encoded v ns"
  have n: "length ns \<le> MaxTreeDepth" using assms by blast
  have cnt: "unat (of_nat (length ns) :: u16) = length ns"
    using n by (simp add: MaxTreeDepth_def unsigned_of_nat take_bit_nat_eq_self)
  then have le: "(of_nat (length ns) :: u16) \<le> of_nat MaxTreeDepth"
    using n by (simp add: word_le_nat_alt MaxTreeDepth_def)
  have sl: "slice ?key (Suc 0) 9 = be_put 8 v" "slice ?key 9 11 = be_put 2 (of_nat (length ns) :: u16)"
    by (simp_all add: slice_def encoded_def NodeKeyPrefix_def)
  have "unpackLoop (([0x6e] @ be_put 8 v @ be_put 2 (of_nat (length ns) :: u16)) @ pack ns) 0 (length ns)
      = Inr ns"
    using assms by (intro unpackLoop_pack) simp_all
  then have "unpackLoop ?key 0 (length ns) = Inr ns"
    by (simp add: encoded_def NodeKeyPrefix_def)
  moreover have "length ?key = 11 + (length ns + 1) div 2" "?key ! 0 = 0x6e"
    by (simp_all add: length_encoded NodeKeyPrefix_def)
  ultimately show ?thesis
    using cnt le u16_expected_len [OF n]
    by (simp add: DefaultKeyEncoder_ParseNodeKey_def sl Let_def linorder_not_less)
      (simp add: nkey_def mkpath_def)
qed

lemma tree_copy_eq:
  "makeNodeKey = DefaultKeyEncoder_NodeKey" "parseNodeKey = DefaultKeyEncoder_ParseNodeKey"
  "makeRootKey = DefaultKeyEncoder_RootKey" "parseRootKey = DefaultKeyEncoder_ParseRootKey"
  "makeValueKey = DefaultKeyEncoder_ValueKey" "makeValueKeyByKey = DefaultKeyEncoder_ValueKeyByKey"
  by (rule ext, simp add: makeNodeKey_def DefaultKeyEncoder_NodeKey_def parseNodeKey_def
      DefaultKeyEncoder_ParseNodeKey_def makeRootKey_def DefaultKeyEncoder_RootKey_def parseRootKey_def
      DefaultKeyEncoder_ParseRootKey_def makeValueKey_def DefaultKeyEncoder_ValueKey_def
      makeValueKeyByKey_def DefaultKeyEncoder_ValueKeyByKey_def)+

interpretation default_encoder: node_key_codec DefaultKeyEncoder_NodeKey DefaultKeyEncoder_ParseNodeKey
proof unfold_locales
  fix nk
  assume "wf_nodekey nk"
  then show "\<exists>bs. DefaultKeyEncoder_NodeKey nk = Inr bs"
    by (metis DefaultKeyEncoder_NodeKey_nkey wf_nibblesD wf_nodekeyE wf_nodekey_nkey)
next
  fix nk bs
  assume wf: "wf_nodekey nk" and enc: "DefaultKeyEncoder_NodeKey nk = Inr bs"
  obtain v ns where nk: "nk = nkey v ns" using wf_nodekeyE [OF wf] by blast
  with wf enc have "bs = NodeKeyPrefix @ encoded v ns" "wf_nibbles ns" by auto
  then show "DefaultKeyEncoder_ParseNodeKey bs = Inr nk" unfolding nk by (simp only: ParseNodeKey_encoded)
qed

interpretation tree_encoder: node_key_codec makeNodeKey parseNodeKey
  unfolding tree_copy_eq by (rule default_encoder.node_key_codec_axioms)

section \<open>Root keys and the division of the key space\<close>

lemma ParseRootKey_RootKey [simp]: "DefaultKeyEncoder_ParseRootKey (DefaultKeyEncoder_RootKey v) = Inr v"
  by (simp add: DefaultKeyEncoder_ParseRootKey_def DefaultKeyEncoder_RootKey_def hasPrefix_def)

lemma RootKey_inject [simp]: "DefaultKeyEncoder_RootKey v = DefaultKeyEncoder_RootKey w \<longleftrightarrow> v = w"
  by (simp add: DefaultKeyEncoder_RootKey_def)

lemma ValueKey_inject [simp]:
  "wf_hash h \<Longrightarrow> wf_hash h' \<Longrightarrow> DefaultKeyEncoder_ValueKey h = DefaultKeyEncoder_ValueKey h' \<longleftrightarrow> h = h'"
  by (simp add: DefaultKeyEncoder_ValueKey_def wf_hash_def HashSize_def)

lemma encoded_inject:
  assumes "wf_nibbles ns" and "wf_nibbles ms"
  shows "encoded v ns = encoded w ms \<longleftrightarrow> v = w \<and> ns = ms"
proof
  assume "encoded v ns = encoded w ms"
  with assms have "Inr (nkey v ns) = (Inr (nkey w ms) :: NodeKey result)"
    by (metis DecodeNodeKey_encoded append.right_neutral)
  then show "v = w \<and> ns = ms" by simp
qed simp

lemma key_space_disjoint:
  "NodeKeyPrefix @ encoded v ns \<noteq> DefaultKeyEncoder_ValueKey h"
  "NodeKeyPrefix @ encoded v ns \<noteq> DefaultKeyEncoder_RootKey w"
  "DefaultKeyEncoder_ValueKey h \<noteq> DefaultKeyEncoder_RootKey w"
  by (simp_all add: NodeKeyPrefix_def DefaultKeyEncoder_ValueKey_def DefaultKeyEncoder_RootKey_def
      RootKeyPrefix_def)

lemmas key_space_disjoint_sym [simp] = key_space_disjoint key_space_disjoint [symmetric]

section \<open>Properties\<close>

text \<open>
  On every well-formed node key the three encoders (\<^verbatim>\<open>types.EncodeNodeKey\<close> behind the prefix of
  \<open>StorageKey\<close>, the \<open>DefaultKeyEncoder\<close> and the tree package's copy) succeed and write the same bytes,
  and each of the three parsers reads the node key back from them.
\<close>

theorem node_key_encoders_agree:
  assumes "wf_nodekey nk"
  shows "\<exists>bs. EncodeNodeKey nk = Inr bs \<and> DecodeNodeKey bs = Inr nk
    \<and> StorageKey nk = Inr (NodeKeyPrefix @ bs)
    \<and> DefaultKeyEncoder_NodeKey nk = Inr (NodeKeyPrefix @ bs)
    \<and> DefaultKeyEncoder_ParseNodeKey (NodeKeyPrefix @ bs) = Inr nk
    \<and> makeNodeKey nk = Inr (NodeKeyPrefix @ bs) \<and> parseNodeKey (NodeKeyPrefix @ bs) = Inr nk"
proof -
  obtain v ns where nk: "nk = nkey v ns" using wf_nodekeyE [OF assms] by blast
  with assms have "wf_nibbles ns" by simp
  then show ?thesis
    using DecodeNodeKey_encoded [of ns v "[]"] wf_nibblesD [of ns]
    by (intro exI [where x = "encoded v ns"]) (simp add: nk tree_copy_eq ParseNodeKey_encoded)
qed

theorem node_key_encoders_agree_witness:
  "\<exists>bs. EncodeNodeKey (nkey 7 [1, 15, 3]) = Inr bs \<and> parseNodeKey (NodeKeyPrefix @ bs) = Inr (nkey 7 [1, 15, 3])"
proof -
  have "wf_nodekey (nkey 7 [1, 15, 3])" by (simp add: wf_nibbles_def size_defs)
  from node_key_encoders_agree [OF this] show ?thesis by blast
qed

text \<open>
  C40: storage keys of different things never meet: node keys are distinct for distinct (version,
  path) pairs, value keys for distinct hashes, root keys for distinct versions, and a node key, a
  value key, a value-by-key key and a root key are pairwise different.
\<close>

theorem storage_key_space:
  assumes "wf_nodekey nk" and "wf_nodekey nk'" and "wf_hash h" and "wf_hash h'"
  shows "(makeNodeKey nk = makeNodeKey nk' \<longleftrightarrow> nk = nk')
    \<and> (makeValueKey h = makeValueKey h' \<longleftrightarrow> h = h')
    \<and> (makeRootKey v = makeRootKey w \<longleftrightarrow> v = w)
    \<and> makeNodeKey nk \<notin> {Inr (makeValueKey h), Inr (makeValueKeyByKey k), Inr (makeRootKey v)}
    \<and> distinct [makeValueKey h, makeValueKeyByKey k, makeRootKey v]"
proof -
  obtain u ns where nk: "nk = nkey u ns" using wf_nodekeyE [OF assms(1)] by blast
  have "makeNodeKey nk = Inr (NodeKeyPrefix @ encoded u ns)"
    using assms(1) unfolding nk tree_copy_eq by (simp add: wf_nibblesD)
  moreover have "distinct [makeValueKey h, makeValueKeyByKey k, makeRootKey v, NodeKeyPrefix @ encoded u ns]"
    by (simp add: makeValueKey_def makeValueKeyByKey_def makeRootKey_def RootKeyPrefix_def NodeKeyPrefix_def)
  moreover have "makeNodeKey nk = makeNodeKey nk' \<longleftrightarrow> nk = nk'"
    using tree_encoder.enc_inject assms(1,2) by blast
  moreover have "makeValueKey h = makeValueKey h' \<longleftrightarrow> h = h'" "makeRootKey v = makeRootKey w \<longleftrightarrow> v = w"
    using assms(3,4) by (simp_all add: tree_copy_eq)
  ultimately show ?thesis by (simp del: append.simps) metis
qed

theorem storage_key_space_witness:
  "makeNodeKey (nkey 1 [2]) \<noteq> makeNodeKey (nkey 1 [2, 0])
   \<and> distinct [makeValueKey EmptyHash, makeValueKeyByKey EmptyHash, makeRootKey 5]"
proof -
  have "wf_nodekey (nkey 1 [2])" "wf_nodekey (nkey 1 [2, 0])" "wf_hash EmptyHash"
    by (simp_all add: wf_nibbles_def wf_hash_def EmptyHash_def size_defs)
  from storage_key_space [OF this(1,2,3,3), of 5 5 EmptyHash] show ?thesis by simp
qed

end
