(* ===== verification/Updater.thy ===== *)
theory Updater
  imports Codec
begin

text \<open>
  Copy-on-write updates: \<^verbatim>\<open>pkg/tree/tree_updater.go\<close> and \<^verbatim>\<open>pkg/tree/path_cloner.go\<close>. An updater
  collects the nodes of a new version in \<open>nodeWrites\<close>, keyed by storage key. Every operation returns its
  result and the updater, changed also when the operation fails half-way. The parameter \<open>load\<close> is
  \<^verbatim>\<open>tree.loadNodeFromStorage\<close>, the read of a committed node, and \<open>H\<close> the hash function. A nil pointer
  dereference (the entry of a missing write) is a panic.
\<close>

section \<open>The path cloner\<close>

record PathCloner =
  pc_sourceVersion :: version
  pc_targetVersion :: version
  pc_clonedNodes :: "(bytes, NodeKey) gomap"

definition NewPathCloner :: "version \<Rightarrow> version \<Rightarrow> PathCloner" where
  "NewPathCloner src tgt = \<lparr>pc_sourceVersion = src, pc_targetVersion = tgt, pc_clonedNodes = []\<rparr>"

definition RegisterClone :: "PathCloner \<Rightarrow> NodeKey \<Rightarrow> NodeKey \<Rightarrow> PathCloner result" where
  "RegisterClone pc oldKey newKey =
     bindE (StorageKey oldKey) (\<lambda>s. Inr (pc\<lparr>pc_clonedNodes := gm_put s newKey (pc_clonedNodes pc)\<rparr>))"

definition IsCloned :: "PathCloner \<Rightarrow> NodeKey \<Rightarrow> NodeKey option result" where
  "IsCloned pc oldKey = bindE (StorageKey oldKey) (\<lambda>s. Inr (gm_get (pc_clonedNodes pc) s))"

text \<open>The loop over the children of a cloned internal node; the error of \<open>SetChild\<close> is ignored.\<close>

fun updateRefs :: "PathCloner \<Rightarrow> NodeKey \<Rightarrow> (nibble \<times> Child) list \<Rightarrow> InternalNode \<Rightarrow> InternalNode result" where
  "updateRefs pc oldKey [] internal = Inr internal"
| "updateRefs pc oldKey ((nibble, child) # rest) internal =
     bindE (NodeKey_Child oldKey nibble (c_Version child)) (\<lambda>childKey.
     bindE (IsCloned pc childKey) (\<lambda>r.
       case r of
         None \<Rightarrow> updateRefs pc oldKey rest internal
       | Some newChildKey \<Rightarrow>
           let updated = \<lparr>c_Hash = c_Hash child, c_Version = nk_Version newChildKey, c_IsLeaf = c_IsLeaf child\<rparr>
           in updateRefs pc oldKey rest
                (case SetChild internal nibble updated of Inl _ \<Rightarrow> internal | Inr i \<Rightarrow> i)))"

definition Node_Clone :: "Node \<Rightarrow> version \<Rightarrow> Node" where
  "Node_Clone n v = (case n of Leaf l \<Rightarrow> Leaf (LeafNode_Clone l v) | Internal i \<Rightarrow> Internal (InternalNode_Clone i v))"

text \<open>From the last element of the path to the first: the list is the reversed path.\<close>

fun cloneLoop :: "(NodeKey \<Rightarrow> Node result) \<Rightarrow> PathCloner \<Rightarrow> NodeKey list \<Rightarrow> unit result \<times> PathCloner" where
  "cloneLoop load pc [] = (Inr (), pc)"
| "cloneLoop load pc (oldKey # rest) =
     (case IsCloned pc oldKey of
        Inl e \<Rightarrow> (Inl e, pc)
      | Inr (Some _) \<Rightarrow> cloneLoop load pc rest
      | Inr None \<Rightarrow>
          (case load oldKey of
             Inl err \<Rightarrow> (Inl err, pc)
           | Inr node \<Rightarrow>
               let newKey = \<lparr>nk_Version = pc_targetVersion pc, nk_NibblePath = nk_NibblePath oldKey\<rparr>
               in case RegisterClone pc oldKey newKey of
                    Inl e \<Rightarrow> (Inl e, pc)
                  | Inr pc1 \<Rightarrow>
                      (case Node_Clone node (pc_targetVersion pc) of
                         Leaf _ \<Rightarrow> cloneLoop load pc1 rest
                       | Internal internal \<Rightarrow>
                           (case updateRefs pc1 oldKey (Children internal) internal of
                              Inl e \<Rightarrow> (Inl e, pc1)
                            | Inr _ \<Rightarrow> cloneLoop load pc1 rest))))"

definition ClonePath :: "(NodeKey \<Rightarrow> Node result) \<Rightarrow> PathCloner \<Rightarrow> NodeKey list \<Rightarrow> unit result \<times> PathCloner" where
  "ClonePath load pc path = cloneLoop load pc (rev path)"

section \<open>The updater\<close>

record NodeWrite =
  nw_Key :: NodeKey
  nw_Node :: Node

record UpdateBatch =
  NewRootHash :: hash
  NewNodes :: "(bytes, NodeWrite) gomap"
  StaleNodes :: "NodeKey list"

record TreeUpdater =
  oldVersion :: version
  newVersion :: version
  nodeWrites :: "(bytes, NodeWrite) gomap"
  staleNodes :: "NodeKey list"
  pathCloner :: PathCloner
  currentRoot :: NodeKey

definition nodeKeyToString :: "NodeKey \<Rightarrow> bytes result" where
  "nodeKeyToString key = StorageKey key"

definition NewTreeUpdater :: "version \<Rightarrow> version \<Rightarrow> TreeUpdater" where
  "NewTreeUpdater old new =
     \<lparr>oldVersion = old, newVersion = new, nodeWrites = [], staleNodes = [],
      pathCloner = NewPathCloner old new, currentRoot = RootNodeKey old\<rparr>"

definition getNode :: "(NodeKey \<Rightarrow> Node result) \<Rightarrow> NodeKey \<Rightarrow> TreeUpdater \<Rightarrow> Node result" where
  "getNode load key tu =
     bindE (nodeKeyToString key) (\<lambda>s.
       case gm_get (nodeWrites tu) s of
         Some w \<Rightarrow> Inr (nw_Node w)
       | None \<Rightarrow> if nk_Version key = 0 then Inl (Errorf ''node not found'') else load key)"

text \<open>\<^verbatim>\<open>tu.nodeWrites[nodeKeyToString(newKey)] = NodeWrite{Key: newKey, Node: node}; return newKey\<close>.\<close>

definition writeNode :: "NodeKey \<Rightarrow> Node \<Rightarrow> TreeUpdater \<Rightarrow> NodeKey result \<times> TreeUpdater" where
  "writeNode newKey node tu =
     (case nodeKeyToString newKey of
        Inl e \<Rightarrow> (Inl e, tu)
      | Inr s \<Rightarrow> (Inr newKey, tu\<lparr>nodeWrites := gm_put s \<lparr>nw_Key = newKey, nw_Node = node\<rparr> (nodeWrites tu)\<rparr>))"

definition markStale :: "NodeKey \<Rightarrow> TreeUpdater \<Rightarrow> TreeUpdater" where
  "markStale key tu = tu\<lparr>staleNodes := staleNodes tu @ [key]\<rparr>"

text \<open>The child record for a node just written.\<close>

definition childInfo :: "(bytes \<Rightarrow> hash) \<Rightarrow> NodeKey \<Rightarrow> TreeUpdater \<Rightarrow> Child result" where
  "childInfo H key tu =
     bindE (nodeKeyToString key) (\<lambda>s.
       case gm_get (nodeWrites tu) s of
         None \<Rightarrow> Inl (Panic ''nil pointer dereference'')
       | Some w \<Rightarrow> Inr \<lparr>c_Hash = Node_Hash H (nw_Node w), c_Version = nk_Version key,
                        c_IsLeaf = (Node_Type (nw_Node w) = NodeTypeLeaf)\<rparr>)"

definition cloneInternalNode :: "NodeKey \<Rightarrow> InternalNode \<Rightarrow> TreeUpdater \<Rightarrow> (InternalNode \<times> NodeKey) result \<times> TreeUpdater" where
  "cloneInternalNode oldKey node tu =
     (let cloned = InternalNode_Clone node (newVersion tu);
          newKey = \<lparr>nk_Version = newVersion tu, nk_NibblePath = nk_NibblePath oldKey\<rparr>;
          tu1 = markStale oldKey tu
      in case RegisterClone (pathCloner tu1) oldKey newKey of
           Inl e \<Rightarrow> (Inl e, tu1)
         | Inr pc \<Rightarrow> (Inr (cloned, newKey), tu1\<lparr>pathCloner := pc\<rparr>))"

text \<open>The key \<^verbatim>\<open>NodeKey{Version: tu.newVersion, NibblePath: path.Prefix(n)}\<close>.\<close>

definition prefixKey :: "NibblePath \<Rightarrow> nat \<Rightarrow> TreeUpdater \<Rightarrow> NodeKey result" where
  "prefixKey path n tu = bindE (NibblePath_Prefix path (int n))
     (\<lambda>p. Inr \<lparr>nk_Version = newVersion tu, nk_NibblePath = p\<rparr>)"

definition writePrefix :: "NibblePath \<Rightarrow> nat \<Rightarrow> Node \<Rightarrow> TreeUpdater \<Rightarrow> NodeKey result \<times> TreeUpdater" where
  "writePrefix path n node tu =
     (case prefixKey path n tu of Inl e \<Rightarrow> (Inl e, tu) | Inr newKey \<Rightarrow> writeNode newKey node tu)"

section \<open>Splitting two leaves\<close>

function commonFrom :: "nibble list \<Rightarrow> nibble list \<Rightarrow> nat \<Rightarrow> nat" where
  "commonFrom a b d =
     (if d < MaxTreeDepth \<and> d < length a \<and> d < length b \<and> a ! d = b ! d then commonFrom a b (d + 1) else d)"
  by pat_completeness auto
termination
  by (relation "measure (\<lambda>(a, b, d). MaxTreeDepth - d)") auto

declare commonFrom.simps [simp del]

definition leafChild :: "(bytes \<Rightarrow> hash) \<Rightarrow> LeafNode \<Rightarrow> NodeKey \<Rightarrow> Child" where
  "leafChild H leaf key = \<lparr>c_Hash = Node_Hash H (Leaf leaf), c_Version = nk_Version key, c_IsLeaf = True\<rparr>"

definition splitLeafNodes :: "(bytes \<Rightarrow> hash) \<Rightarrow> LeafNode \<Rightarrow> LeafNode \<Rightarrow> nat \<Rightarrow> TreeUpdater \<Rightarrow> NodeKey result \<times> TreeUpdater" where
  "splitLeafNodes H oldLeaf newLeaf depth tu =
     (case ToNibblePath (l_key oldLeaf) of Inl e \<Rightarrow> (Inl e, tu) | Inr oldPath \<Rightarrow>
      case ToNibblePath (l_key newLeaf) of Inl e \<Rightarrow> (Inl e, tu) | Inr newPath \<Rightarrow>
      let commonDepth = commonFrom (Nibbles oldPath) (Nibbles newPath) depth
      in if commonDepth = MaxTreeDepth then (Inl (Errorf ''identical keys in split''), tu)
         else case idx (Nibbles oldPath) commonDepth of Inl e \<Rightarrow> (Inl e, tu) | Inr oldNibble \<Rightarrow>
         case writePrefix oldPath (commonDepth + 1) (Leaf oldLeaf) tu of (Inl e, tu1) \<Rightarrow> (Inl e, tu1) | (Inr oldLeafKey, tu1) \<Rightarrow>
         case SetChild (NewInternalNode (newVersion tu)) oldNibble (leafChild H oldLeaf oldLeafKey) of
           Inl e \<Rightarrow> (Inl e, tu1) | Inr internal1 \<Rightarrow>
         case idx (Nibbles newPath) commonDepth of Inl e \<Rightarrow> (Inl e, tu1) | Inr newNibble \<Rightarrow>
         case writePrefix newPath (commonDepth + 1) (Leaf newLeaf) tu1 of (Inl e, tu2) \<Rightarrow> (Inl e, tu2) | (Inr newLeafKey, tu2) \<Rightarrow>
         case SetChild internal1 newNibble (leafChild H newLeaf newLeafKey) of
           Inl e \<Rightarrow> (Inl e, tu2) | Inr internal2 \<Rightarrow>
         writePrefix oldPath commonDepth (Internal internal2) tu2)"

section \<open>Insertion\<close>

function insertAt :: "(bytes \<Rightarrow> hash) \<Rightarrow> (NodeKey \<Rightarrow> Node result) \<Rightarrow> NodeKey \<Rightarrow> NibblePath \<Rightarrow> nat \<Rightarrow> LeafNode
    \<Rightarrow> TreeUpdater \<Rightarrow> NodeKey result \<times> TreeUpdater" where
  "insertAt H load nodeKey targetPath depth newLeaf tu =
     (if depth > MaxTreeDepth then (Inl ErrMaxDepthExceeded, tu)
      else case getNode load nodeKey tu of
        Inl err \<Rightarrow>
          if is_panic err then (Inl err, tu)
          else if depth = MaxTreeDepth then writePrefix targetPath depth (Leaf newLeaf) tu
          else (case idx (Nibbles targetPath) depth of Inl e \<Rightarrow> (Inl e, tu) | Inr nibble \<Rightarrow>
                case insertAt H load zeroNodeKey targetPath (depth + 1) newLeaf tu of
                  (Inl e, tu1) \<Rightarrow> (Inl e, tu1)
                | (Inr childKey, tu1) \<Rightarrow>
                    (case childInfo H childKey tu1 of Inl e \<Rightarrow> (Inl e, tu1) | Inr info \<Rightarrow>
                     case SetChild (NewInternalNode (newVersion tu)) nibble info of Inl e \<Rightarrow> (Inl e, tu1) | Inr internal \<Rightarrow>
                     writePrefix targetPath depth (Internal internal) tu1))
      | Inr (Leaf n) \<Rightarrow>
          if l_key n = l_key newLeaf
          then (case writeNode \<lparr>nk_Version = newVersion tu, nk_NibblePath = nk_NibblePath nodeKey\<rparr> (Leaf newLeaf) tu of
                  (Inl e, tu1) \<Rightarrow> (Inl e, tu1)
                | (Inr newKey, tu1) \<Rightarrow> (Inr newKey, markStale nodeKey tu1))
          else splitLeafNodes H n newLeaf depth tu
      | Inr (Internal n) \<Rightarrow>
          (case cloneInternalNode nodeKey n tu of
             (Inl e, tu1) \<Rightarrow> (Inl e, tu1)
           | (Inr (cloned, newKey), tu1) \<Rightarrow>
               (case idx (Nibbles targetPath) depth of Inl e \<Rightarrow> (Inl e, tu1) | Inr targetNibble \<Rightarrow>
                case (case InternalNode_Child n targetNibble of
                        Some child \<Rightarrow> NodeKey_Child nodeKey targetNibble (c_Version child)
                      | None \<Rightarrow> Inr zeroNodeKey) of Inl e \<Rightarrow> (Inl e, tu1) | Inr childKey \<Rightarrow>
                case insertAt H load childKey targetPath (depth + 1) newLeaf tu1 of
                  (Inl e, tu2) \<Rightarrow> (Inl e, tu2)
                | (Inr newChildKey, tu2) \<Rightarrow>
                    (case childInfo H newChildKey tu2 of Inl e \<Rightarrow> (Inl e, tu2) | Inr info \<Rightarrow>
                     case SetChild cloned targetNibble info of Inl e \<Rightarrow> (Inl e, tu2) | Inr cloned1 \<Rightarrow>
                     writeNode newKey (Internal cloned1) tu2))))"
  by pat_completeness auto
termination
  by (relation "measure (\<lambda>(H, load, nodeKey, targetPath, depth, newLeaf, tu). MaxTreeDepth + 1 - depth)") auto

declare insertAt.simps [simp del]

section \<open>Deletion\<close>

text \<open>The last part of the internal case: a node with no child is dropped, one with a single leaf child becomes that leaf.\<close>

definition collapse :: "(NodeKey \<Rightarrow> Node result) \<Rightarrow> NodeKey \<Rightarrow> NodeKey \<Rightarrow> InternalNode \<Rightarrow> TreeUpdater
    \<Rightarrow> (NodeKey \<times> bool) result \<times> TreeUpdater" where
  "collapse load nodeKey newKey cloned tu =
     (let save = (case writeNode newKey (Internal cloned) tu of
                    (Inl e, tu1) \<Rightarrow> (Inl e, tu1)
                  | (Inr k, tu1) \<Rightarrow> (Inr (newKey, True), markStale nodeKey tu1))
      in if NumChildren cloned = 0 then (Inr (zeroNodeKey, True), markStale nodeKey tu)
         else if NumChildren cloned = 1 then
           (case GetOnlyChild cloned of
              None \<Rightarrow> save
            | Some (nibble, onlyChild) \<Rightarrow>
                if \<not> c_IsLeaf onlyChild then save
                else (case NodeKey_Child newKey nibble (c_Version onlyChild) of Inl e \<Rightarrow> (Inl e, tu) | Inr leafKey \<Rightarrow>
                      case getNode load leafKey tu of
                        Inl err \<Rightarrow> (Inl err, tu)
                      | Inr (Leaf leaf) \<Rightarrow>
                          (case writeNode newKey (Leaf leaf) tu of
                             (Inl e, tu1) \<Rightarrow> (Inl e, tu1)
                           | (Inr k, tu1) \<Rightarrow> (Inr (newKey, True), markStale nodeKey tu1))
                      | Inr (Internal _) \<Rightarrow> save))
         else save)"

function deleteAt :: "(bytes \<Rightarrow> hash) \<Rightarrow> (NodeKey \<Rightarrow> Node result) \<Rightarrow> NodeKey \<Rightarrow> NibblePath \<Rightarrow> nat
    \<Rightarrow> TreeUpdater \<Rightarrow> (NodeKey \<times> bool) result \<times> TreeUpdater" where
  "deleteAt H load nodeKey targetPath depth tu =
     (if depth > MaxTreeDepth then (Inl ErrMaxDepthExceeded, tu)
      else case getNode load nodeKey tu of
        Inl err \<Rightarrow> if is_panic err then (Inl err, tu) else (Inr (zeroNodeKey, False), tu)
      | Inr (Leaf n) \<Rightarrow>
          (case ToNibblePath (l_key n) of Inl e \<Rightarrow> (Inl e, tu) | Inr leafPath \<Rightarrow>
           case NibblePath_Equals leafPath targetPath of Inl e \<Rightarrow> (Inl e, tu) | Inr same \<Rightarrow>
           if same then (Inr (zeroNodeKey, True), markStale nodeKey tu) else (Inr (nodeKey, False), tu))
      | Inr (Internal n) \<Rightarrow>
          (case idx (Nibbles targetPath) depth of Inl e \<Rightarrow> (Inl e, tu) | Inr targetNibble \<Rightarrow>
           case InternalNode_Child n targetNibble of
             None \<Rightarrow> (Inr (nodeKey, False), tu)
           | Some child \<Rightarrow>
               (case NodeKey_Child nodeKey targetNibble (c_Version child) of Inl e \<Rightarrow> (Inl e, tu) | Inr childKey \<Rightarrow>
                case deleteAt H load childKey targetPath (depth + 1) tu of
                  (Inl e, tu1) \<Rightarrow> (Inl e, tu1)
                | (Inr (newChildKey, deleted), tu1) \<Rightarrow>
                    if \<not> deleted then (Inr (nodeKey, False), tu1)
                    else (case cloneInternalNode nodeKey n tu1 of
                            (Inl e, tu2) \<Rightarrow> (Inl e, tu2)
                          | (Inr (cloned, newKey), tu2) \<Rightarrow>
                              (case (if nk_Version newChildKey = 0 then RemoveChild cloned targetNibble
                                     else bindE (childInfo H newChildKey tu2) (\<lambda>info. SetChild cloned targetNibble info)) of
                                 Inl e \<Rightarrow> (Inl e, tu2)
                               | Inr cloned1 \<Rightarrow> collapse load nodeKey newKey cloned1 tu2)))))"
  by pat_completeness auto
termination
  by (relation "measure (\<lambda>(H, load, nodeKey, targetPath, depth, tu). MaxTreeDepth + 1 - depth)") auto

declare deleteAt.simps [simp del]

section \<open>Put, Delete and the batch of a version\<close>

definition TreeUpdater_Put :: "(bytes \<Rightarrow> hash) \<Rightarrow> (NodeKey \<Rightarrow> Node result) \<Rightarrow> key \<Rightarrow> bytes \<Rightarrow> TreeUpdater
    \<Rightarrow> hash result \<times> TreeUpdater" where
  "TreeUpdater_Put H load key val tu =
     (case ValidateKey key of Inl err \<Rightarrow> (Inl err, tu) | Inr _ \<Rightarrow>
      if length val = 0 then (Inl ErrEmptyValue, tu)
      else case NewLeafNode H key val (newVersion tu) of Inl err \<Rightarrow> (Inl err, tu) | Inr leafNode \<Rightarrow>
      case ToNibblePath key of Inl e \<Rightarrow> (Inl e, tu) | Inr nibblePath \<Rightarrow>
      case insertAt H load (currentRoot tu) nibblePath 0 leafNode tu of
        (Inl err, tu1) \<Rightarrow> (Inl err, tu1)
      | (Inr newRootKey, tu1) \<Rightarrow> (Inr (l_valueHash leafNode), tu1\<lparr>currentRoot := newRootKey\<rparr>))"

definition TreeUpdater_Delete :: "(bytes \<Rightarrow> hash) \<Rightarrow> (NodeKey \<Rightarrow> Node result) \<Rightarrow> key \<Rightarrow> TreeUpdater
    \<Rightarrow> unit result \<times> TreeUpdater" where
  "TreeUpdater_Delete H load key tu =
     (case ValidateKey key of Inl err \<Rightarrow> (Inl err, tu) | Inr _ \<Rightarrow>
      case ToNibblePath key of Inl e \<Rightarrow> (Inl e, tu) | Inr nibblePath \<Rightarrow>
      case deleteAt H load (currentRoot tu) nibblePath 0 tu of
        (Inl err, tu1) \<Rightarrow> (Inl err, tu1)
      | (Inr (newRootKey, deleted), tu1) \<Rightarrow>
          if \<not> deleted then (Inl ErrKeyNotFound, tu1) else (Inr (), tu1\<lparr>currentRoot := newRootKey\<rparr>))"

text \<open>\<open>visited\<close> is the set of hashes seen; the checks of \<open>validateNode\<close> in the order of the source.\<close>

fun validateChildren :: "version \<Rightarrow> (nibble \<times> Child) list \<Rightarrow> unit result" where
  "validateChildren nv [] = Inr ()"
| "validateChildren nv ((nibble, child) # rest) =
     (if Child_IsEmpty child then validateChildren nv rest
      else if c_Version child > nv then Inl (Errorf ''child has future version'')
      else validateChildren nv rest)"

definition validateNode :: "(bytes \<Rightarrow> hash) \<Rightarrow> version \<Rightarrow> Node \<Rightarrow> hash list \<Rightarrow> unit result \<times> hash list" where
  "validateNode H nv node visited =
     (let h = Node_Hash H node
      in if h \<in> set visited then (Inl (Errorf ''circular reference detected''), visited)
         else (case node of
                 Internal n \<Rightarrow> (validateChildren nv (Children n), h # visited)
               | Leaf n \<Rightarrow> (case ValidateKey (l_key n) of
                              Inl err \<Rightarrow> (Inl (Wrapf ''invalid leaf key'' err), h # visited)
                            | Inr _ \<Rightarrow> (Inr (), h # visited))))"

fun validateNodes :: "(bytes \<Rightarrow> hash) \<Rightarrow> version \<Rightarrow> (bytes \<times> NodeWrite) list \<Rightarrow> hash list \<Rightarrow> unit result" where
  "validateNodes H nv [] visited = Inr ()"
| "validateNodes H nv ((k, w) # rest) visited =
     (case validateNode H nv (nw_Node w) visited of
        (Inl err, _) \<Rightarrow> Inl (Wrapf ''node validation failed'' err)
      | (Inr _, visited1) \<Rightarrow> validateNodes H nv rest visited1)"

definition ValidateBatch :: "(bytes \<Rightarrow> hash) \<Rightarrow> TreeUpdater \<Rightarrow> UpdateBatch \<Rightarrow> unit result" where
  "ValidateBatch H tu batch =
     (case validateNodes H (newVersion tu) (NewNodes batch) [] of
        Inl err \<Rightarrow> Inl err
      | Inr _ \<Rightarrow>
          if \<exists>(k, w) \<in> set (NewNodes batch). Node_Version (nw_Node w) \<noteq> newVersion tu
          then Inl (Errorf ''node has incorrect version'')
          else if \<exists>k \<in> set (StaleNodes batch). nk_Version k > newVersion tu
          then Inl (Errorf ''stale node has future version'')
          else Inr ())"

definition BuildUpdateBatch :: "(bytes \<Rightarrow> hash) \<Rightarrow> (NodeKey \<Rightarrow> Node result) \<Rightarrow> TreeUpdater \<Rightarrow> UpdateBatch result" where
  "BuildUpdateBatch H load tu =
     (if nk_Version (currentRoot tu) = 0 \<and> Length (nk_NibblePath (currentRoot tu)) = 0
      then Inr \<lparr>NewRootHash = EmptyHash, NewNodes = [], StaleNodes = staleNodes tu\<rparr>
      else bindE (nodeKeyToString (currentRoot tu)) (\<lambda>rootKeyStr.
        bindE (case gm_get (nodeWrites tu) rootKeyStr of
                 Some w \<Rightarrow> Inr (Some (nw_Node w))
               | None \<Rightarrow>
                   if nk_Version (currentRoot tu) \<noteq> 0
                   then (case load (currentRoot tu) of
                           Inl err \<Rightarrow> Inl (wrapE ''failed to load root'' err)
                         | Inr n \<Rightarrow> Inr (Some n))
                   else Inr None)
          (\<lambda>rootNode.
             let rootHash = (case rootNode of Some n \<Rightarrow> Node_Hash H n | None \<Rightarrow> EmptyHash);
                 batch = \<lparr>NewRootHash = rootHash, NewNodes = nodeWrites tu, StaleNodes = staleNodes tu\<rparr>
             in case ValidateBatch H tu batch of
                  Inl err \<Rightarrow> Inl (Wrapf ''batch validation failed'' err)
                | Inr _ \<Rightarrow> Inr batch)))"

text \<open>
  \<open>BuildUpdateBatchParallel\<close>: for at least 100 writes the workers first force the hash of every node, in
  some order; \<open>forceHashes\<close> stores the computed hash in each node, as \<open>Hash\<close> does.
\<close>

fun forceHash :: "(bytes \<Rightarrow> hash) \<Rightarrow> Node \<Rightarrow> Node" where
  "forceHash H (Leaf n) = Leaf (snd (LeafNode_Hash H n))"
| "forceHash H (Internal n) = Internal (snd (InternalNode_Hash H n))"

definition forceHashes :: "(bytes \<Rightarrow> hash) \<Rightarrow> (bytes, NodeWrite) gomap \<Rightarrow> (bytes, NodeWrite) gomap" where
  "forceHashes H ws = map (\<lambda>(k, w). (k, w\<lparr>nw_Node := forceHash H (nw_Node w)\<rparr>)) ws"

definition BuildUpdateBatchParallel :: "(bytes \<Rightarrow> hash) \<Rightarrow> (NodeKey \<Rightarrow> Node result) \<Rightarrow> TreeUpdater \<Rightarrow> UpdateBatch result" where
  "BuildUpdateBatchParallel H load tu =
     (if length (nodeWrites tu) < 100 then BuildUpdateBatch H load tu
      else if nk_Version (currentRoot tu) = 0 \<and> Length (nk_NibblePath (currentRoot tu)) = 0
      then Inr \<lparr>NewRootHash = EmptyHash, NewNodes = [], StaleNodes = staleNodes tu\<rparr>
      else let tu1 = tu\<lparr>nodeWrites := forceHashes H (nodeWrites tu)\<rparr>
      in bindE (nodeKeyToString (currentRoot tu1)) (\<lambda>rootKeyStr.
        bindE (case gm_get (nodeWrites tu1) rootKeyStr of
                 Some w \<Rightarrow> Inr (Some (nw_Node w))
               | None \<Rightarrow>
                   if nk_Version (currentRoot tu1) \<noteq> 0
                   then (case load (currentRoot tu1) of
                           Inl err \<Rightarrow> Inl (wrapE ''failed to load root'' err)
                         | Inr n \<Rightarrow> Inr (Some n))
                   else Inr None)
          (\<lambda>rootNode.
             let rootHash = (case rootNode of Some n \<Rightarrow> Node_Hash H n | None \<Rightarrow> EmptyHash);
                 batch = \<lparr>NewRootHash = rootHash, NewNodes = nodeWrites tu1, StaleNodes = staleNodes tu1\<rparr>
             in case ValidateBatch H tu1 batch of
                  Inl err \<Rightarrow> Inl (Wrapf ''batch validation failed'' err)
                | Inr _ \<Rightarrow> Inr batch)))"

end
