(* ===== verification/VersionManager.thy ===== *)
theory VersionManager
  imports Updater
begin

text \<open>
  Versions and their life cycle: \<^verbatim>\<open>pkg/tree/version_manager.go\<close>. A version is pending from \<open>Begin\<close> until
  \<open>Commit\<close> or \<open>Abort\<close>. Times are integers (nanoseconds); the operations that read the clock take the
  time as the argument \<open>now\<close>.
\<close>

section \<open>Data\<close>

datatype VersionStatus = VersionStatusPending | VersionStatusCommitted | VersionStatusAborted

record VersionInfo =
  vi_Version :: version
  vi_RootHash :: hash
  vi_ParentVersion :: version
  vi_CreatedAt :: int
  vi_NodeCount :: int
  vi_Status :: VersionStatus

record PendingVersion =
  pv_version :: version
  pv_parent :: version
  pv_updater :: "TreeUpdater option"
  pv_startTime :: int
  pv_operations :: int

datatype VersionRetentionPolicy = RetentionPolicyCount | RetentionPolicyTime | RetentionPolicyNone

record VersionManager =
  versions :: "(version, VersionInfo) gomap"
  latestVersion :: version
  committedVersion :: version
  pendingWrites :: "(version, PendingVersion) gomap"
  retentionPolicy :: VersionRetentionPolicy
  minVersionsToKeep :: int
  maxAge :: int

section \<open>Operations\<close>

definition initialInfo :: "int \<Rightarrow> VersionInfo" where
  "initialInfo now = \<lparr>vi_Version = InitialVersion, vi_RootHash = EmptyHash, vi_ParentVersion = InitialVersion,
     vi_CreatedAt = now, vi_NodeCount = 0, vi_Status = VersionStatusCommitted\<rparr>"

definition NewVersionManagerWithRetention :: "int \<Rightarrow> VersionRetentionPolicy \<Rightarrow> int \<Rightarrow> int \<Rightarrow> VersionManager" where
  "NewVersionManagerWithRetention now policy minVersions age =
     \<lparr>versions = [(InitialVersion, initialInfo now)], latestVersion = 0, committedVersion = InitialVersion,
      pendingWrites = [], retentionPolicy = policy, minVersionsToKeep = minVersions, maxAge = age\<rparr>"

definition NewVersionManager :: "int \<Rightarrow> VersionManager" where
  "NewVersionManager now = NewVersionManagerWithRetention now RetentionPolicyCount 100 0"

definition Begin :: "int \<Rightarrow> version \<Rightarrow> VersionManager \<Rightarrow> version result \<times> VersionManager" where
  "Begin now parentVersion vm =
     (case gm_get (versions vm) parentVersion of
        None \<Rightarrow> (Inl (Errorf ''parent version not found''), vm)
      | Some parent \<Rightarrow>
          if vi_Status parent \<noteq> VersionStatusCommitted then (Inl (Errorf ''parent version not committed''), vm)
          else if latestVersion vm = MaxVersion then (Inl (Errorf ''version overflow''), vm)
          else let newVer = latestVersion vm + 1;
                   pending = \<lparr>pv_version = newVer, pv_parent = parentVersion, pv_updater = None,
                              pv_startTime = now, pv_operations = 0\<rparr>
               in (Inr newVer, vm\<lparr>pendingWrites := gm_put newVer pending (pendingWrites vm), latestVersion := newVer\<rparr>))"

definition VersionManager_Commit :: "int \<Rightarrow> version \<Rightarrow> hash \<Rightarrow> int \<Rightarrow> VersionManager \<Rightarrow> unit result \<times> VersionManager" where
  "VersionManager_Commit now version rootHash nodeCount vm =
     (case gm_get (pendingWrites vm) version of
        None \<Rightarrow> (Inl (Errorf ''no pending version''), vm)
      | Some pending \<Rightarrow>
          let info = \<lparr>vi_Version = version, vi_RootHash = rootHash, vi_ParentVersion = pv_parent pending,
                      vi_CreatedAt = now, vi_NodeCount = nodeCount, vi_Status = VersionStatusCommitted\<rparr>
          in (Inr (), vm\<lparr>versions := gm_put version info (versions vm),
                         pendingWrites := gm_del version (pendingWrites vm),
                         committedVersion := (if version > committedVersion vm then version else committedVersion vm)\<rparr>))"

definition Abort :: "version \<Rightarrow> VersionManager \<Rightarrow> unit result \<times> VersionManager" where
  "Abort version vm =
     (case gm_get (pendingWrites vm) version of
        None \<Rightarrow> (Inl (Errorf ''no pending version''), vm)
      | Some pending \<Rightarrow>
          (Inr (), vm\<lparr>pendingWrites := gm_del version (pendingWrites vm),
             versions := gm_put version
               \<lparr>vi_Version = version, vi_RootHash = EmptyHash, vi_ParentVersion = pv_parent pending,
                vi_CreatedAt = pv_startTime pending, vi_NodeCount = 0, vi_Status = VersionStatusAborted\<rparr>
               (versions vm)\<rparr>))"

definition GetVersion :: "version \<Rightarrow> VersionManager \<Rightarrow> VersionInfo result" where
  "GetVersion version vm =
     (case gm_get (versions vm) version of None \<Rightarrow> Inl (Errorf ''version not found'') | Some info \<Rightarrow> Inr info)"

definition GetLatestCommitted :: "VersionManager \<Rightarrow> version" where
  "GetLatestCommitted vm = committedVersion vm"

definition GetPending :: "version \<Rightarrow> VersionManager \<Rightarrow> PendingVersion option" where
  "GetPending version vm = gm_get (pendingWrites vm) version"

definition SetPendingUpdater :: "version \<Rightarrow> TreeUpdater \<Rightarrow> VersionManager \<Rightarrow> unit result \<times> VersionManager" where
  "SetPendingUpdater version updater vm =
     (case gm_get (pendingWrites vm) version of
        None \<Rightarrow> (Inl (Errorf ''no pending version''), vm)
      | Some pending \<Rightarrow>
          (Inr (), vm\<lparr>pendingWrites := gm_put version (pending\<lparr>pv_updater := Some updater\<rparr>) (pendingWrites vm)\<rparr>))"

definition IncrementOperations :: "version \<Rightarrow> VersionManager \<Rightarrow> unit result \<times> VersionManager" where
  "IncrementOperations version vm =
     (case gm_get (pendingWrites vm) version of
        None \<Rightarrow> (Inl (Errorf ''no pending version''), vm)
      | Some pending \<Rightarrow>
          (Inr (), vm\<lparr>pendingWrites :=
             gm_put version (pending\<lparr>pv_operations := pv_operations pending + 1\<rparr>) (pendingWrites vm)\<rparr>))"

definition GetAllVersions :: "VersionManager \<Rightarrow> VersionInfo list" where
  "GetAllVersions vm =
     (let result = map snd (versions vm) in exchangeSort vi_Version (length result) result)"

definition SetRetentionPolicy :: "VersionRetentionPolicy \<Rightarrow> int \<Rightarrow> int \<Rightarrow> VersionManager \<Rightarrow> VersionManager" where
  "SetRetentionPolicy policy minVersions age vm =
     vm\<lparr>retentionPolicy := policy, minVersionsToKeep := minVersions, maxAge := age\<rparr>"

definition RemoveVersion :: "version \<Rightarrow> VersionManager \<Rightarrow> unit result \<times> VersionManager" where
  "RemoveVersion version vm =
     (if gm_get (versions vm) version = None then (Inl (Errorf ''version not found''), vm)
      else if version = committedVersion vm then (Inl (Errorf ''cannot remove committed version''), vm)
      else if \<exists>(k, v) \<in> set (versions vm). vi_ParentVersion v = version \<and> vi_Version v \<noteq> version
      then (Inl (Errorf ''version is parent of another version''), vm)
      else (Inr (), vm\<lparr>versions := gm_del version (versions vm)\<rparr>))"

section \<open>Garbage collection\<close>

text \<open>
  The reslicing \<^verbatim>\<open>xs[:n]\<close> of a slice grown by \<^verbatim>\<open>append\<close>: it panics for a negative \<open>n\<close> and beyond the
  capacity, which is at least the length; \<open>cap\<close> is the capacity the runtime chose for a length.
\<close>

definition sliceTo :: "(nat \<Rightarrow> nat) \<Rightarrow> version list \<Rightarrow> int \<Rightarrow> version list result" where
  "sliceTo cap xs n =
     (if n < 0 \<or> n > int (max (length xs) (cap (length xs))) then Inl (Panic ''slice bounds out of range'')
      else Inr (take (nat n) (xs @ replicate (nat n - length xs) 0)))"

definition committedVersions :: "VersionManager \<Rightarrow> version list" where
  "committedVersions vm =
     sort (map fst (filter (\<lambda>(v, info). vi_Status info = VersionStatusCommitted \<and> v \<noteq> InitialVersion) (versions vm)))"

definition garbage :: "(nat \<Rightarrow> nat) \<Rightarrow> int \<Rightarrow> VersionManager \<Rightarrow> version list result" where
  "garbage cap now vm =
     (let vs = committedVersions vm; n = int (length vs) - minVersionsToKeep vm
      in case retentionPolicy vm of
           RetentionPolicyCount \<Rightarrow>
             if int (length vs) > minVersionsToKeep vm then sliceTo cap vs n else Inr []
         | RetentionPolicyTime \<Rightarrow>
             let old = filter (\<lambda>v. now - vi_CreatedAt (the (gm_get (versions vm) v)) > maxAge vm) vs
             in if int (length vs) - int (length old) < minVersionsToKeep vm then sliceTo cap old n else Inr old
         | RetentionPolicyNone \<Rightarrow> Inr [])"

definition CollectGarbage :: "(nat \<Rightarrow> nat) \<Rightarrow> int \<Rightarrow> VersionManager \<Rightarrow> version list result \<times> VersionManager" where
  "CollectGarbage cap now vm =
     (if retentionPolicy vm = RetentionPolicyNone then (Inr [], vm)
      else case garbage cap now vm of
        Inl e \<Rightarrow> (Inl e, vm)
      | Inr vs \<Rightarrow>
          let toRemove = filter (\<lambda>v. v \<noteq> committedVersion vm) vs
          in (Inr toRemove, vm\<lparr>versions := foldl (\<lambda>m v. gm_del v m) (versions vm) toRemove\<rparr>))"

section \<open>The life cycle as a transition system\<close>

inductive vm_step :: "VersionManager \<Rightarrow> VersionManager \<Rightarrow> bool" where
  start: "Begin now p vm = (Inr v, vm') \<Longrightarrow> vm_step vm vm'"
| commit: "VersionManager_Commit now v h n vm = (Inr (), vm') \<Longrightarrow> vm_step vm vm'"
| abort: "Abort v vm = (Inr (), vm') \<Longrightarrow> vm_step vm vm'"
| setUpdater: "SetPendingUpdater v u vm = (Inr (), vm') \<Longrightarrow> vm_step vm vm'"
| increment: "IncrementOperations v vm = (Inr (), vm') \<Longrightarrow> vm_step vm vm'"
| setPolicy: "vm_step vm (SetRetentionPolicy policy k age vm)"
| remove: "RemoveVersion v vm = (Inr (), vm') \<Longrightarrow> vm_step vm vm'"
| collect: "CollectGarbage cap now vm = (Inr vs, vm') \<Longrightarrow> vm_step vm vm'"

text \<open>
  The versions known are at most the latest one and their entries carry their own number; pending versions
  are above 0 and not yet known; the latest committed version is known, committed, and above every other
  committed version.
\<close>

definition vm_inv :: "VersionManager \<Rightarrow> bool" where
  "vm_inv vm \<longleftrightarrow> gm_wf (versions vm) \<and> gm_wf (pendingWrites vm)
     \<and> (\<forall>v i. gm_get (versions vm) v = Some i \<longrightarrow> v \<le> latestVersion vm \<and> vi_Version i = v
          \<and> vi_Status i \<noteq> VersionStatusPending \<and> gm_get (pendingWrites vm) v = None
          \<and> (vi_Status i = VersionStatusCommitted \<longrightarrow> v \<le> committedVersion vm))
     \<and> (\<forall>v p. gm_get (pendingWrites vm) v = Some p \<longrightarrow> 0 < v \<and> v \<le> latestVersion vm \<and> pv_version p = v)
     \<and> (\<exists>i. gm_get (versions vm) (committedVersion vm) = Some i \<and> vi_Status i = VersionStatusCommitted)
     \<and> latestVersion vm \<le> MaxVersion"

lemma vm_inv_New: "vm_inv (NewVersionManagerWithRetention now policy k age)"
  by (auto simp: vm_inv_def NewVersionManagerWithRetention_def initialInfo_def InitialVersion_def split: if_splits)

lemma next_version:
  assumes "latest \<le> MaxVersion" and "latest \<noteq> MaxVersion"
  shows "latest < latest + 1" "latest + 1 \<le> MaxVersion" "0 < latest + 1"
proof -
  have m: "unat MaxVersion = 2 ^ 64 - 2" by (simp add: MaxVersion_def)
  have "unat latest < unat MaxVersion" using assms by (simp add: word_le_nat_alt word_unat_eq_iff)
  moreover from this m have "unat (latest + 1) = unat latest + 1"
    using unat_add_lem [of latest 1] by simp
  ultimately show "latest < latest + 1" "latest + 1 \<le> MaxVersion" "0 < latest + 1"
    by (simp_all add: word_less_nat_alt word_le_nat_alt)
qed

lemma Begin_Inr:
  assumes "Begin now p vm = (Inr v, vm')"
  shows "v = latestVersion vm + 1" "latestVersion vm \<noteq> MaxVersion" "latestVersion vm' = v" "versions vm' = versions vm"
    "committedVersion vm' = committedVersion vm"
    "pendingWrites vm' = gm_put v \<lparr>pv_version = v, pv_parent = p, pv_updater = None, pv_startTime = now, pv_operations = 0\<rparr> (pendingWrites vm)"
  using assms by (auto simp: Begin_def Let_def split: option.splits if_splits)

lemma vm_inv_Begin: "vm_inv vm \<Longrightarrow> Begin now p vm = (Inr v, vm') \<Longrightarrow> vm_inv vm'"
proof -
  assume inv: "vm_inv vm" and b: "Begin now p vm = (Inr v, vm')"
  note B = Begin_Inr [OF b]
  have le: "latestVersion vm \<le> MaxVersion" using inv by (simp add: vm_inv_def)
  note nx = next_version [OF le B(2), folded B(1)]
  have up: "u \<le> v" if "u \<le> latestVersion vm" for u using that nx(1) by (meson le_less_trans less_imp_le)
  have new: "gm_get (versions vm) v = None"
  proof (rule ccontr)
    assume "gm_get (versions vm) v \<noteq> None"
    then obtain i where "gm_get (versions vm) v = Some i" by blast
    with inv have "v \<le> latestVersion vm" by (auto simp: vm_inv_def simp del: map_of_eq_Some_iff)
    with nx(1) show False by (simp add: leD)
  qed
  show "vm_inv vm'"
    using inv nx up new unfolding vm_inv_def B by (auto simp del: map_of_eq_Some_iff)
qed

lemma vm_inv_foldl_del:
  "gm_wf m \<Longrightarrow> gm_wf (foldl (\<lambda>m v. gm_del v m) m vs)"
  "gm_get (foldl (\<lambda>m v. gm_del v m) m vs) k = (if k \<in> set vs then None else gm_get m k)"
  by (induction vs arbitrary: m) auto

lemma vm_invD:
  assumes "vm_inv vm"
  shows "gm_wf (versions vm)" and "gm_wf (pendingWrites vm)" and "latestVersion vm \<le> MaxVersion"
    and "\<And>v i. gm_get (versions vm) v = Some i \<Longrightarrow> v \<le> latestVersion vm \<and> vi_Version i = v
          \<and> vi_Status i \<noteq> VersionStatusPending \<and> gm_get (pendingWrites vm) v = None
          \<and> (vi_Status i = VersionStatusCommitted \<longrightarrow> v \<le> committedVersion vm)"
    and "\<And>v p. gm_get (pendingWrites vm) v = Some p \<Longrightarrow> 0 < v \<and> v \<le> latestVersion vm \<and> pv_version p = v"
    and "\<exists>i. gm_get (versions vm) (committedVersion vm) = Some i \<and> vi_Status i = VersionStatusCommitted"
  using assms unfolding vm_inv_def by blast+

text \<open>A pending version becomes a known one.\<close>

lemma vm_inv_finish:
  assumes inv: "vm_inv vm" and p: "gm_get (pendingWrites vm) v = Some p" and i: "vi_Version i = v" "vi_Status i \<noteq> VersionStatusPending"
    and c: "committedVersion vm \<le> c" "vi_Status i = VersionStatusCommitted \<Longrightarrow> v \<le> c"
      "c = committedVersion vm \<or> c = v \<and> vi_Status i = VersionStatusCommitted"
  shows "vm_inv (vm\<lparr>versions := gm_put v i (versions vm), pendingWrites := gm_del v (pendingWrites vm), committedVersion := c\<rparr>)"
    (is "vm_inv ?vm")
proof -
  note D = vm_invD [OF inv]
  have new: "gm_get (versions vm) v = None"
  proof (rule ccontr)
    assume "gm_get (versions vm) v \<noteq> None"
    then obtain j where "gm_get (versions vm) v = Some j" by blast
    from D(4) [OF this] p show False by simp
  qed
  have "u \<le> latestVersion ?vm \<and> vi_Version j = u \<and> vi_Status j \<noteq> VersionStatusPending \<and> gm_get (pendingWrites ?vm) u = None
      \<and> (vi_Status j = VersionStatusCommitted \<longrightarrow> u \<le> committedVersion ?vm)" if j: "gm_get (versions ?vm) u = Some j" for u j
  proof (cases "u = v")
    case True
    with j i c(2) D(5) [OF p] show ?thesis by simp
  next
    case False
    with j have "gm_get (versions vm) u = Some j" by simp
    from D(4) [OF this] c(1) show ?thesis by (auto dest: order.trans)
  qed
  moreover have "0 < u \<and> u \<le> latestVersion ?vm \<and> pv_version q = u" if "gm_get (pendingWrites ?vm) u = Some q" for u q
    using that D(5) by (simp split: if_splits)
  moreover have "\<exists>j. gm_get (versions ?vm) (committedVersion ?vm) = Some j \<and> vi_Status j = VersionStatusCommitted"
    using c(3) D(6) new by (cases "c = v") auto
  moreover have "gm_wf (versions ?vm)" "gm_wf (pendingWrites ?vm)" "latestVersion ?vm \<le> MaxVersion" using D(1-3) by simp_all
  ultimately show ?thesis unfolding vm_inv_def by blast
qed

lemma vm_inv_Commit:
  assumes "vm_inv vm" and "VersionManager_Commit now v h n vm = (Inr (), vm')"
  shows "vm_inv vm'"
proof -
  obtain p where p: "gm_get (pendingWrites vm) v = Some p"
    using assms(2) by (cases "gm_get (pendingWrites vm) v") (auto simp: VersionManager_Commit_def)
  let ?i = "\<lparr>vi_Version = v, vi_RootHash = h, vi_ParentVersion = pv_parent p, vi_CreatedAt = now,
    vi_NodeCount = n, vi_Status = VersionStatusCommitted\<rparr>"
  have "vm' = vm\<lparr>versions := gm_put v ?i (versions vm), pendingWrites := gm_del v (pendingWrites vm),
      committedVersion := (if committedVersion vm < v then v else committedVersion vm)\<rparr>"
    using assms(2) p by (auto simp: VersionManager_Commit_def Let_def)
  moreover have "vm_inv (vm\<lparr>versions := gm_put v ?i (versions vm), pendingWrites := gm_del v (pendingWrites vm),
      committedVersion := (if committedVersion vm < v then v else committedVersion vm)\<rparr>)"
    by (rule vm_inv_finish [OF assms(1) p]) auto
  ultimately show ?thesis by blast
qed

lemma vm_inv_Abort:
  assumes "vm_inv vm" and "Abort v vm = (Inr (), vm')"
  shows "vm_inv vm'"
proof -
  obtain p where p: "gm_get (pendingWrites vm) v = Some p"
    using assms(2) by (cases "gm_get (pendingWrites vm) v") (auto simp: Abort_def)
  let ?i = "\<lparr>vi_Version = v, vi_RootHash = EmptyHash, vi_ParentVersion = pv_parent p, vi_CreatedAt = pv_startTime p,
    vi_NodeCount = 0, vi_Status = VersionStatusAborted\<rparr>"
  have "vm' = vm\<lparr>versions := gm_put v ?i (versions vm), pendingWrites := gm_del v (pendingWrites vm), committedVersion := committedVersion vm\<rparr>"
    using assms(2) p by (auto simp: Abort_def)
  then show ?thesis using vm_inv_finish [OF assms(1) p, of ?i "committedVersion vm"] by simp
qed

text \<open>Changing the record of a pending version, but not its number, keeps the invariant.\<close>

lemma vm_inv_pending:
  assumes "vm_inv vm" and "gm_get (pendingWrites vm) v = Some p" and "pv_version p' = pv_version p"
  shows "vm_inv (vm\<lparr>pendingWrites := gm_put v p' (pendingWrites vm)\<rparr>)"
proof -
  note D = vm_invD [OF assms(1)]
  have "gm_get (pendingWrites (vm\<lparr>pendingWrites := gm_put v p' (pendingWrites vm)\<rparr>)) u = None" if "gm_get (versions vm) u = Some i" for u i
    using D(4) [OF that] assms(2) by auto
  with D D(5) [OF assms(2)] assms(3) show ?thesis
    unfolding vm_inv_def by (simp del: map_of_eq_Some_iff)
qed

lemma vm_inv_versions_del:
  assumes "vm_inv vm" and "committedVersion vm \<notin> set vs"
  shows "vm_inv (vm\<lparr>versions := foldl (\<lambda>m v. gm_del v m) (versions vm) vs\<rparr>)"
  using assms unfolding vm_inv_def by (simp add: vm_inv_foldl_del del: map_of_eq_Some_iff)

lemma vm_inv_step: "vm_step vm vm' \<Longrightarrow> vm_inv vm \<Longrightarrow> vm_inv vm'"
proof (induction rule: vm_step.induct)
  case (start now p vm v vm')
  then show ?case using vm_inv_Begin by blast
next
  case (commit now v h n vm vm')
  then show ?case using vm_inv_Commit by blast
next
  case (abort v vm vm')
  then show ?case using vm_inv_Abort by blast
next
  case (setUpdater v u vm vm')
  then show ?case by (auto simp: SetPendingUpdater_def simp del: map_of_eq_Some_iff split: option.splits intro!: vm_inv_pending)
next
  case (increment v vm vm')
  then show ?case by (auto simp: IncrementOperations_def simp del: map_of_eq_Some_iff split: option.splits intro!: vm_inv_pending)
next
  case (setPolicy vm policy k age)
  then show ?case by (simp add: SetRetentionPolicy_def vm_inv_def del: map_of_eq_Some_iff)
next
  case (remove v vm vm')
  then show ?case using vm_inv_versions_del [of vm "[v]"] by (auto simp: RemoveVersion_def split: if_splits)
next
  case (collect cap now vm vs vm')
  then show ?case
    by (auto simp: CollectGarbage_def Let_def split: if_splits sum.splits intro!: vm_inv_versions_del)
qed

lemma vm_inv_reachable: "vm_step\<^sup>*\<^sup>* (NewVersionManagerWithRetention now policy k age) vm \<Longrightarrow> vm_inv vm"
  by (induction rule: rtranclp_induct) (use vm_inv_New vm_inv_step in blast)+

section \<open>What garbage collection keeps\<close>

lemma distinct_committedVersions: "gm_wf (versions vm) \<Longrightarrow> distinct (committedVersions vm)"
proof -
  assume "gm_wf (versions vm)"
  then have "distinct (map fst (filter P (versions vm)))" for P by (induction "versions vm") (auto simp: distinct_map_filter)
  then show ?thesis by (simp add: committedVersions_def)
qed

lemma sorted_committedVersions [simp]: "sorted (committedVersions vm)"
  by (simp add: committedVersions_def)

lemma set_committedVersions:
  "gm_wf (versions vm) \<Longrightarrow> v \<in> set (committedVersions vm) \<longleftrightarrow>
     (\<exists>i. gm_get (versions vm) v = Some i \<and> vi_Status i = VersionStatusCommitted \<and> v \<noteq> 0)"
  by (force simp: committedVersions_def InitialVersion_def)

lemma committedVersions_after:
  assumes "gm_wf (versions vm)" and "set rm \<subseteq> set (committedVersions vm)"
  shows "committedVersions (vm\<lparr>versions := foldl (\<lambda>m v. gm_del v m) (versions vm) rm\<rparr>)
    = filter (\<lambda>v. v \<notin> set rm) (committedVersions vm)" (is "committedVersions ?vm = _")
proof (rule sorted_distinct_set_unique)
  have wf: "gm_wf (versions ?vm)" using vm_inv_foldl_del(1) [OF assms(1)] by simp
  show "distinct (committedVersions ?vm)" using distinct_committedVersions [OF wf] .
  show "set (committedVersions ?vm) = set (filter (\<lambda>v. v \<notin> set rm) (committedVersions vm))"
    using set_committedVersions [OF wf] set_committedVersions [OF assms(1)]
    by (auto simp: vm_inv_foldl_del(2) simp del: map_of_eq_Some_iff split: if_splits)
qed (use assms distinct_committedVersions in \<open>auto simp: sorted_wrt_filter\<close>)

lemma committed_is_last:
  assumes "vm_inv vm" and "v \<in> set (committedVersions vm)"
  shows "v \<le> committedVersion vm"
  using assms by (auto simp: vm_inv_def set_committedVersions simp del: map_of_eq_Some_iff)

lemma filter_not_take:
  assumes "distinct xs"
  shows "filter (\<lambda>v. v \<notin> set (take n xs)) xs = drop n xs"
proof -
  have "set (take n xs) \<inter> set (drop n xs) = {}"
    using assms by (simp add: set_take_disj_set_drop_if_distinct)
  then have "filter (\<lambda>v. v \<notin> set (take n xs)) (drop n xs) = drop n xs" by (intro filter_True) blast
  moreover have "filter (\<lambda>v. v \<notin> set (take n xs)) (take n xs) = []" by (intro filter_False) blast
  ultimately have "filter (\<lambda>v. v \<notin> set (take n xs)) (take n xs @ drop n xs) = drop n xs"
    by (simp only: filter_append append_Nil)
  then show ?thesis by simp
qed

text \<open>The first elements of a strictly increasing list are those with few elements below them.\<close>

lemma set_take_sorted:
  fixes xs :: "'a :: linorder list"
  assumes "sorted_wrt (<) xs"
  shows "set (take n xs) = {x \<in> set xs. card {y \<in> set xs. y < x} < n}"
  using assms
proof (induction xs arbitrary: n)
  case (Cons a xs)
  have less: "{y \<in> set (a # xs). y < x} = insert a {y \<in> set xs. y < x}" if "x \<in> set xs" for x using Cons.prems that by auto
  have new: "a \<notin> {y \<in> set xs. y < x}" for x using Cons.prems by auto
  have "{y \<in> set (a # xs). y < a} = {}" using Cons.prems by auto
  then have none: "card {y \<in> set (a # xs). y < a} = 0" by (simp only: card.empty)
  show ?case
  proof (cases n)
    case (Suc k)
    have "card {y \<in> set (a # xs). y < x} < n \<longleftrightarrow> card {y \<in> set xs. y < x} < k" if "x \<in> set xs" for x
      using new [of x] unfolding less [OF that] Suc by (simp add: card_insert_disjoint)
    moreover have first: "card {y \<in> set (a # xs). y < a} < n" unfolding none Suc by simp
    ultimately have "{x \<in> set (a # xs). card {y \<in> set (a # xs). y < x} < n} = insert a {x \<in> set xs. card {y \<in> set xs. y < x} < k}"
      by fastforce
    with Cons Suc show ?thesis by simp
  qed simp
qed simp

text \<open>What the time policy marks: the first expired versions, as many as are above the minimum.\<close>

lemma garbage_time:
  assumes "retentionPolicy vm = RetentionPolicyTime" and "0 \<le> minVersionsToKeep vm" and vs: "vs = committedVersions vm"
    and enough: "\<not> int (length vs) < minVersionsToKeep vm"
    and old: "old = filter (\<lambda>v. now - vi_CreatedAt (the (gm_get (versions vm) v)) > maxAge vm) vs"
  shows "garbage cap now vm = Inr (take (length vs - nat (minVersionsToKeep vm)) old)"
proof (cases "int (length vs) - int (length old) < minVersionsToKeep vm")
  case True
  have n: "nat (int (length vs) - minVersionsToKeep vm) = length vs - nat (minVersionsToKeep vm)" using assms(2) enough by linarith
  have "garbage cap now vm = sliceTo cap old (int (length vs) - minVersionsToKeep vm)"
    using True assms(1) by (simp add: garbage_def Let_def flip: vs old)
  also have "\<dots> = Inr (take (length vs - nat (minVersionsToKeep vm)) old)" using True enough n by (simp add: sliceTo_def)
  finally show ?thesis .
next
  case False
  then have "length old \<le> length vs - nat (minVersionsToKeep vm)" using assms(2) by linarith
  then show ?thesis using assms(1) False by (simp add: garbage_def Let_def flip: vs old)
qed

lemma length_minus_set: "distinct xs \<Longrightarrow> A \<subseteq> set xs \<Longrightarrow> length (filter (\<lambda>x. x \<notin> A) xs) = length xs - card A"
proof -
  assume d: "distinct xs" and A: "A \<subseteq> set xs"
  have "length (filter (\<lambda>x. x \<notin> A) xs) = card (set xs - A)" using d by (simp add: set_diff_eq flip: distinct_card)
  also have "\<dots> = length xs - card A" using A d finite_subset [OF A] by (simp add: card_Diff_subset distinct_card)
  finally show ?thesis .
qed

section \<open>Properties\<close>

text \<open>
  C27: in every state the version manager can reach, versions never exceed the latest allocated one, a version
  is pending or known but not both, and the latest committed version is known, committed and maximal. From
  such a state \<open>Begin\<close> on the latest committed version succeeds unless the version counter is exhausted, and
  allocates a number above every version seen before.
\<close>

theorem version_lifecycle:
  assumes "vm_step\<^sup>*\<^sup>* (NewVersionManagerWithRetention now policy k age) vm" and "latestVersion vm \<noteq> MaxVersion"
  shows "vm_inv vm \<and> (\<exists>vm'. Begin t (GetLatestCommitted vm) vm = (Inr (latestVersion vm + 1), vm')
      \<and> vm_inv vm' \<and> GetLatestCommitted vm' = GetLatestCommitted vm)
    \<and> (\<forall>v. gm_get (versions vm) v \<noteq> None \<or> gm_get (pendingWrites vm) v \<noteq> None \<longrightarrow> v < latestVersion vm + 1)"
proof -
  have inv: "vm_inv vm" using vm_inv_reachable [OF assms(1)] .
  obtain i where "gm_get (versions vm) (committedVersion vm) = Some i" "vi_Status i = VersionStatusCommitted"
    using inv by (auto simp: vm_inv_def simp del: map_of_eq_Some_iff)
  then obtain vm' where b: "Begin t (GetLatestCommitted vm) vm = (Inr (latestVersion vm + 1), vm')"
    using assms(2) by (simp add: Begin_def GetLatestCommitted_def Let_def)
  moreover have "v < latestVersion vm + 1" if "gm_get (versions vm) v \<noteq> None \<or> gm_get (pendingWrites vm) v \<noteq> None" for v
  proof -
    have "v \<le> latestVersion vm" using that inv by (auto simp: vm_inv_def simp del: map_of_eq_Some_iff)
    moreover have "latestVersion vm < latestVersion vm + 1"
      using inv next_version(1) [of "latestVersion vm"] assms(2) by (simp add: vm_inv_def)
    ultimately show ?thesis by (rule le_less_trans)
  qed
  ultimately show ?thesis
    using inv vm_inv_Begin [OF inv b] Begin_Inr(5) [OF b] by (auto simp: GetLatestCommitted_def)
qed

theorem version_lifecycle_witness:
  "\<exists>vm'. Begin 5 0 (NewVersionManager 1) = (Inr 1, vm')"
proof -
  let ?vm = "NewVersionManagerWithRetention 1 RetentionPolicyCount 100 0"
  have "vm_step\<^sup>*\<^sup>* (NewVersionManagerWithRetention 1 RetentionPolicyCount 100 0) ?vm" by simp
  moreover have l: "latestVersion ?vm = 0" "GetLatestCommitted ?vm = 0"
    by (simp_all add: NewVersionManagerWithRetention_def GetLatestCommitted_def InitialVersion_def)
  then have "latestVersion ?vm \<noteq> MaxVersion" by (simp add: MaxVersion_def)
  ultimately obtain vm' where "Begin 5 (GetLatestCommitted ?vm) ?vm = (Inr (latestVersion ?vm + 1), vm')"
    using version_lifecycle [of 1 RetentionPolicyCount 100 0 ?vm 5] by blast
  then show ?thesis unfolding l NewVersionManager_def by simp
qed

text \<open>
  C32: with the count policy and a positive minimum, garbage collection removes exactly the oldest committed
  versions beyond the minimum: the committed versions left are the last \<open>minVersionsToKeep\<close> ones (all, if
  there are fewer), and the latest committed version stays.
\<close>

theorem gc_count_policy:
  assumes "vm_inv vm" and "retentionPolicy vm = RetentionPolicyCount" and "1 \<le> minVersionsToKeep vm"
  shows "\<exists>vm'. CollectGarbage cap now vm =
        (Inr (take (length (committedVersions vm) - nat (minVersionsToKeep vm)) (committedVersions vm)), vm')
    \<and> committedVersions vm' = drop (length (committedVersions vm) - nat (minVersionsToKeep vm)) (committedVersions vm)
    \<and> gm_get (versions vm') (committedVersion vm) = gm_get (versions vm) (committedVersion vm)"
proof -
  let ?vs = "committedVersions vm" and ?n = "length (committedVersions vm) - nat (minVersionsToKeep vm)"
  have wf: "gm_wf (versions vm)" using assms(1) by (simp add: vm_inv_def)
  have dist: "distinct ?vs" using distinct_committedVersions [OF wf] .
  have g: "garbage cap now vm = Inr (take ?n ?vs)"
  proof (cases "int (length ?vs) > minVersionsToKeep vm")
    case True
    then have "nat (int (length ?vs) - minVersionsToKeep vm) = ?n" using assms(3) by linarith
    with True assms(2,3) show ?thesis by (simp add: garbage_def sliceTo_def Let_def)
  next
    case False
    then have "?n = 0" using assms(3) by linarith
    with False assms(2) show ?thesis by (simp add: garbage_def Let_def)
  qed
  have notin: "committedVersion vm \<notin> set (take ?n ?vs)"
  proof
    assume c: "committedVersion vm \<in> set (take ?n ?vs)"
    then have n: "?n < length ?vs" using assms(3) by (cases ?vs) auto
    then have last: "last ?vs \<in> set (drop ?n ?vs)" by (metis last_drop last_in_set drop_eq_Nil linorder_not_le)
    have "last ?vs \<le> committedVersion vm"
      using n by (intro committed_is_last [OF assms(1)] last_in_set) auto
    moreover have "committedVersion vm \<le> last ?vs"
      using c last sorted_append [of "take ?n ?vs" "drop ?n ?vs"] by simp
    ultimately have "committedVersion vm \<in> set (drop ?n ?vs)" using last by simp
    with c dist show False by (metis append_take_drop_id disjoint_iff distinct_append)
  qed
  then have "filter (\<lambda>v. v \<noteq> committedVersion vm) (take ?n ?vs) = take ?n ?vs"
    by (metis (mono_tags, lifting) filter_True)
  then have "CollectGarbage cap now vm = (Inr (take ?n ?vs), vm\<lparr>versions := foldl (\<lambda>m v. gm_del v m) (versions vm) (take ?n ?vs)\<rparr>)"
    using g assms(2) by (simp add: CollectGarbage_def Let_def)
  moreover have "committedVersions (vm\<lparr>versions := foldl (\<lambda>m v. gm_del v m) (versions vm) (take ?n ?vs)\<rparr>) = drop ?n ?vs"
    using committedVersions_after [OF wf, of "take ?n ?vs"] by (simp only: set_take_subset filter_not_take [OF dist])
  moreover have "gm_get (versions (vm\<lparr>versions := foldl (\<lambda>m v. gm_del v m) (versions vm) (take ?n ?vs)\<rparr>)) (committedVersion vm)
      = gm_get (versions vm) (committedVersion vm)"
    using notin by (simp add: vm_inv_foldl_del(2))
  ultimately show ?thesis by blast
qed

theorem gc_count_policy_witness:
  "\<exists>vm'. CollectGarbage id 9 (NewVersionManager 1) = (Inr [], vm') \<and> committedVersions vm' = []"
proof -
  have "retentionPolicy (NewVersionManager 1) = RetentionPolicyCount" "1 \<le> minVersionsToKeep (NewVersionManager 1)"
    "committedVersions (NewVersionManager 1) = []"
    by (simp_all add: NewVersionManager_def NewVersionManagerWithRetention_def committedVersions_def initialInfo_def InitialVersion_def)
  with gc_count_policy [OF vm_inv_New [of 1 RetentionPolicyCount 100 0, folded NewVersionManager_def], of id 9]
  show ?thesis by auto
qed

text \<open>
  C33: with the time policy and a non-negative minimum, garbage collection panics exactly when fewer versions
  are committed than the minimum to keep. Otherwise it removes exactly the expired versions, those older than the maximal age,
  oldest first and as long as the minimum remains, but never the latest committed version; every other committed version stays.
\<close>

theorem gc_time_policy:
  assumes "vm_inv vm" and "retentionPolicy vm = RetentionPolicyTime" and "0 \<le> minVersionsToKeep vm"
    and vs: "vs = committedVersions vm" and expired: "\<And>v. expired v \<longleftrightarrow> now - vi_CreatedAt (the (gm_get (versions vm) v)) > maxAge vm"
  shows "(if int (length vs) < minVersionsToKeep vm
          then CollectGarbage cap now vm = (Inl (Panic ''slice bounds out of range''), vm)
          else \<exists>rm vm'. CollectGarbage cap now vm = (Inr rm, vm')
            \<and> set rm = {v \<in> set vs. expired v \<and> v \<noteq> committedVersion vm
                \<and> card {w \<in> set vs. expired w \<and> w < v} < length vs - nat (minVersionsToKeep vm)}
            \<and> committedVersions vm' = filter (\<lambda>v. v \<notin> set rm) vs
            \<and> int (length (committedVersions vm')) \<ge> minVersionsToKeep vm)"
proof -
  let ?k = "minVersionsToKeep vm" and ?n = "length vs - nat (minVersionsToKeep vm)"
  let ?old = "filter expired vs"
  have wf: "gm_wf (versions vm)" using assms(1) by (simp add: vm_inv_def)
  have dist: "distinct vs" using distinct_committedVersions [OF wf] by (simp add: vs)
  have old: "filter (\<lambda>v. now - vi_CreatedAt (the (gm_get (versions vm) v)) > maxAge vm) vs = ?old"
    by (rule filter_cong) (simp_all add: expired)
  show ?thesis
  proof (cases "int (length vs) < ?k")
    case True
    then show ?thesis using assms(2) by (simp add: CollectGarbage_def garbage_def sliceTo_def Let_def flip: vs)
  next
    case False
    note g = garbage_time [OF assms(2,3) vs False old [symmetric], of cap]
    let ?rm = "filter (\<lambda>v. v \<noteq> committedVersion vm) (take ?n ?old)"
    let ?vm = "vm\<lparr>versions := foldl (\<lambda>m v. gm_del v m) (versions vm) ?rm\<rparr>"
    have run: "CollectGarbage cap now vm = (Inr ?rm, ?vm)" using g assms(2) by (simp add: CollectGarbage_def Let_def)
    have "sorted_wrt (<) ?old" using dist by (simp add: vs sorted_wrt_filter strict_sorted_iff)
    then have rm: "set ?rm = {v \<in> set vs. expired v \<and> v \<noteq> committedVersion vm \<and> card {w \<in> set vs. expired w \<and> w < v} < ?n}"
      unfolding set_filter set_take_sorted [OF \<open>sorted_wrt (<) ?old\<close>] by (simp add: conj_ac)
    have sub: "set ?rm \<subseteq> set vs" unfolding rm by blast
    have after: "committedVersions ?vm = filter (\<lambda>v. v \<notin> set ?rm) vs" using committedVersions_after [OF wf] sub by (simp add: vs)
    have "card (set ?rm) \<le> length (take ?n ?old)" by (rule le_trans [OF card_length length_filter_le])
    then have "card (set ?rm) \<le> ?n" by simp
    then have "int (length (filter (\<lambda>v. v \<notin> set ?rm) vs)) \<ge> ?k" using length_minus_set [OF dist sub] False assms(3) by linarith
    then have min: "int (length (committedVersions ?vm)) \<ge> ?k" unfolding after .
    show ?thesis unfolding if_not_P [OF False]
      by (rule exI [where x = ?rm], rule exI [where x = ?vm], intro conjI) (rule run, rule rm, rule after, rule min)
  qed
qed

text \<open>Two committed versions, both older than the maximal age, of which one must remain.\<close>

definition agedVM :: VersionManager where
  "agedVM = (NewVersionManagerWithRetention 1 RetentionPolicyTime 1 5)\<lparr>versions :=
     [(1, (initialInfo 1)\<lparr>vi_Version := 1\<rparr>), (2, (initialInfo 2)\<lparr>vi_Version := 2\<rparr>)], latestVersion := 2, committedVersion := 2\<rparr>"

lemma agedVM_inv: "vm_inv agedVM"
  by (auto simp: vm_inv_def agedVM_def NewVersionManagerWithRetention_def initialInfo_def InitialVersion_def MaxVersion_def word_le_nat_alt split: if_splits)

lemma agedVM_simps: "retentionPolicy agedVM = RetentionPolicyTime" "minVersionsToKeep agedVM = 1" "maxAge agedVM = 5" "committedVersion agedVM = 2"
  "committedVersions agedVM = [1, 2]" "\<And>v. v \<in> {1, 2} \<Longrightarrow> 9 - vi_CreatedAt (the (gm_get (versions agedVM) v)) > 5"
  by (auto simp: agedVM_def NewVersionManagerWithRetention_def initialInfo_def InitialVersion_def committedVersions_def word_le_nat_alt)

theorem gc_time_policy_witness:
  "\<exists>rm vm'. CollectGarbage id 9 agedVM = (Inr rm, vm') \<and> set rm = {1} \<and> committedVersions vm' = [2]"
proof -
  have few: "\<not> int (length [1 :: version, 2]) < minVersionsToKeep agedVM" and pos: "0 \<le> minVersionsToKeep agedVM" by (simp_all add: agedVM_simps)
  note removed = gc_time_policy [where cap = id and now = 9, OF agedVM_inv agedVM_simps(1) pos agedVM_simps(5) [symmetric] refl]
  obtain rm vm' where gc: "CollectGarbage id 9 agedVM = (Inr rm, vm')"
    "set rm = {v \<in> set [1, 2]. 9 - vi_CreatedAt (the (gm_get (versions agedVM) v)) > maxAge agedVM \<and> v \<noteq> committedVersion agedVM
       \<and> card {w \<in> set [1, 2]. 9 - vi_CreatedAt (the (gm_get (versions agedVM) w)) > maxAge agedVM \<and> w < v}
         < length [1 :: version, 2] - nat (minVersionsToKeep agedVM)}"
    "committedVersions vm' = filter (\<lambda>v. v \<notin> set rm) [1, 2]"
    using removed [unfolded if_not_P [OF few]] by (elim exE conjE) (rule that)
  have none: "{w \<in> set [1, 2]. 9 - vi_CreatedAt (the (gm_get (versions agedVM) w)) > maxAge agedVM \<and> w < 1} = {}"
    by (auto simp: word_less_nat_alt)
  have "set rm = {1}" unfolding gc(2) using agedVM_simps(6) none by (auto simp: agedVM_simps(2-4))
  with gc(1,3) show ?thesis by simp
qed

end
