(* ===== verification/BatchOptimizer.thy ===== *)
theory BatchOptimizer
  imports Updater
begin

text \<open>
  The optimisation of an update batch before it is written: \<^verbatim>\<open>pkg/tree/batch_optimizer.go\<close>. Deduplication
  keeps the first entry of every key; the keys of a Go map are distinct, so it leaves the new nodes as they
  are and only drops repeated stale keys. The placeholder encoding with its compression is the subject of \<open>BatchCodec\<close>.
\<close>

record BatchOptimizerConfig =
  EnableCompression :: bool
  CompressionLevel :: int
  EnableDeduplication :: bool
  EnableCoalescing :: bool

record BatchOptimizer =
  enableCompression :: bool
  compressionLevel :: int
  enableDeduplication :: bool
  enableCoalescing :: bool

definition DefaultBatchOptimizerConfig :: BatchOptimizerConfig where
  "DefaultBatchOptimizerConfig =
     \<lparr>EnableCompression = True, CompressionLevel = -1, EnableDeduplication = True, EnableCoalescing = True\<rparr>"

definition NewBatchOptimizer :: "BatchOptimizerConfig \<Rightarrow> BatchOptimizer" where
  "NewBatchOptimizer config =
     \<lparr>enableCompression = EnableCompression config, compressionLevel = CompressionLevel config,
      enableDeduplication = EnableDeduplication config, enableCoalescing = EnableCoalescing config\<rparr>"

fun dedupNodes :: "bytes list \<Rightarrow> (bytes \<times> NodeWrite) list \<Rightarrow> (bytes, NodeWrite) gomap \<Rightarrow> (bytes, NodeWrite) gomap" where
  "dedupNodes seen [] acc = acc"
| "dedupNodes seen ((key, w) # rest) acc =
     (if key \<in> set seen then dedupNodes seen rest acc
      else dedupNodes (key # seen) rest (gm_put key w acc))"

fun dedupStale :: "bytes list \<Rightarrow> NodeKey list \<Rightarrow> NodeKey list result" where
  "dedupStale seen [] = Inr []"
| "dedupStale seen (nodeKey # rest) =
     bindE (StorageKey nodeKey) (\<lambda>key.
       if key \<in> set seen then dedupStale seen rest
       else bindE (dedupStale (key # seen) rest) (\<lambda>r. Inr (nodeKey # r)))"

definition deduplicateStaleNodes :: "NodeKey list \<Rightarrow> NodeKey list result" where
  "deduplicateStaleNodes stale = (if length stale \<le> 1 then Inr stale else dedupStale [] stale)"

definition deduplicateBatch :: "UpdateBatch \<Rightarrow> UpdateBatch result" where
  "deduplicateBatch batch =
     (if length (NewNodes batch) \<le> 1 then Inr batch
      else bindE (deduplicateStaleNodes (StaleNodes batch)) (\<lambda>stale.
        Inr \<lparr>NewRootHash = NewRootHash batch, NewNodes = dedupNodes [] (NewNodes batch) [], StaleNodes = stale\<rparr>))"

definition coalesceBatch :: "UpdateBatch \<Rightarrow> UpdateBatch" where
  "coalesceBatch batch = batch"

definition OptimizeBatch :: "BatchOptimizer \<Rightarrow> UpdateBatch \<Rightarrow> UpdateBatch result" where
  "OptimizeBatch bo batch =
     bindE (if enableDeduplication bo then deduplicateBatch batch else Inr batch)
       (\<lambda>b. Inr (if enableCoalescing bo then coalesceBatch b else b))"

section \<open>Optimisation keeps the batch\<close>

lemma dedupNodes_distinct:
  "gm_wf (acc @ ws) \<Longrightarrow> set seen = fst ` set acc \<Longrightarrow> dedupNodes seen ws acc = acc @ ws"
proof (induction ws arbitrary: seen acc)
  case (Cons kw ws)
  obtain k w where kw: "kw = (k, w)" by (cases kw)
  have new: "k \<notin> fst ` set acc" using Cons.prems(1) by (auto simp: kw)
  then have "gm_put k w acc = acc @ [(k, w)]" by (induction acc) auto
  with Cons new show ?case by (auto simp: kw)
qed simp

lemma dedupStale_set:
  assumes "\<forall>k \<in> set ks. wf_nodekey k"
  shows "\<exists>r. dedupStale seen ks = Inr r \<and> set r \<subseteq> set ks
    \<and> (\<forall>k \<in> set ks. k \<in> set r \<or> (\<exists>s \<in> set seen. StorageKey k = Inr s))"
  using assms
proof (induction ks arbitrary: seen)
  case (Cons k ks)
  obtain bs where bs: "EncodeNodeKey k = Inr bs" using Cons.prems types_codec.enc_total by auto
  then have sk: "StorageKey k = Inr (NodeKeyPrefix @ bs)" by (simp add: StorageKey_def)
  show ?case
  proof (cases "NodeKeyPrefix @ bs \<in> set seen")
    case True
    then show ?thesis using Cons.IH [of seen] Cons.prems sk by fastforce
  next
    case False
    obtain r where r: "dedupStale ((NodeKeyPrefix @ bs) # seen) ks = Inr r" "set r \<subseteq> set ks"
      "\<forall>k \<in> set ks. k \<in> set r \<or> (\<exists>s \<in> set ((NodeKeyPrefix @ bs) # seen). StorageKey k = Inr s)"
      using Cons.IH [of "(NodeKeyPrefix @ bs) # seen"] Cons.prems by auto
    have "k' = k" if "k' \<in> set ks" "StorageKey k' = Inr (NodeKeyPrefix @ bs)" for k'
    proof -
      have wf: "wf_nodekey k'" using that(1) Cons.prems by simp
      obtain bs' where "EncodeNodeKey k' = Inr bs'" using types_codec.enc_total [OF wf] by blast
      with that(2) bs have "EncodeNodeKey k' = EncodeNodeKey k" by (simp add: StorageKey_def)
      with types_codec.enc_inject [of k' k] that(1) Cons.prems show ?thesis by simp
    qed
    with False r sk show ?thesis by auto
  qed
qed simp

lemma OptimizeBatch_same:
  assumes "gm_wf (NewNodes b)" and "\<forall>k \<in> set (StaleNodes b). wf_nodekey k"
  shows "\<exists>b'. OptimizeBatch bo b = Inr b' \<and> NewRootHash b' = NewRootHash b \<and> NewNodes b' = NewNodes b
    \<and> set (StaleNodes b') = set (StaleNodes b)"
proof -
  have "\<exists>r. deduplicateStaleNodes (StaleNodes b) = Inr r \<and> set r = set (StaleNodes b)"
    using dedupStale_set [OF assms(2), of "[]"] by (auto simp: deduplicateStaleNodes_def)
  moreover have "dedupNodes [] (NewNodes b) [] = NewNodes b" using dedupNodes_distinct [of "[]" "NewNodes b" "[]"] assms(1) by simp
  ultimately show ?thesis by (auto simp: OptimizeBatch_def deduplicateBatch_def coalesceBatch_def)
qed

end
