(* ===== verification/MemoryStorage.thy ===== *)
theory MemoryStorage
  imports StorageKeys
begin

text \<open>
  The in-memory storage backend: \<^verbatim>\<open>pkg/storage/memory/memory.go\<close>. The record \<open>Storage\<close> has the
  fields of the Go struct that are not locks; the atomic counters are integers. Batches, iterators
  and snapshots are records of their own; a constructor that fails returns the \<open>Error\<close> variant, as the
  error types of the source do. \<open>Close\<close> returns \<open>None\<close> while it still waits for the open resources.
  The locale \<open>kv_store\<close> states what the tree relies on: reads see the last write, a committed batch is
  its operations applied in order.
\<close>

section \<open>Data\<close>

record Storage =
  ms_data :: "(bytes, bytes) gomap"
  ms_refCount :: int
  ms_closing :: bool
  ms_openIterators :: int
  ms_openSnapshots :: int
  ms_maxIterators :: int
  ms_maxSnapshots :: int

record Options =
  MaxIterators :: int
  MaxSnapshots :: int

definition DefaultOptions :: Options where
  "DefaultOptions = \<lparr>MaxIterators = 1000, MaxSnapshots = 100\<rparr>"

definition NewStorageWithOptions :: "Options option \<Rightarrow> Storage" where
  "NewStorageWithOptions opts =
     (let o' = (case opts of None \<Rightarrow> DefaultOptions | Some p \<Rightarrow> p)
      in \<lparr>ms_data = [], ms_refCount = 0, ms_closing = False, ms_openIterators = 0, ms_openSnapshots = 0,
          ms_maxIterators = MaxIterators o', ms_maxSnapshots = MaxSnapshots o'\<rparr>)"

definition NewStorage :: Storage where
  "NewStorage = NewStorageWithOptions (Some DefaultOptions)"

section \<open>Reads and writes\<close>

definition addRef :: "Storage \<Rightarrow> bool \<times> Storage" where
  "addRef s = (if ms_closing s then (False, s) else (True, s\<lparr>ms_refCount := ms_refCount s + 1\<rparr>))"

definition releaseRef :: "Storage \<Rightarrow> Storage" where
  "releaseRef s = s\<lparr>ms_refCount := ms_refCount s - 1\<rparr>"

definition Storage_Get :: "Storage \<Rightarrow> bytes \<Rightarrow> bytes option result" where
  "Storage_Get s key = (if ms_closing s then Inl ErrStorageClosed else Inr (gm_get (ms_data s) key))"

definition Storage_Put :: "Storage \<Rightarrow> bytes \<Rightarrow> bytes \<Rightarrow> unit result \<times> Storage" where
  "Storage_Put s key val =
     (if ms_closing s then (Inl ErrStorageClosed, s)
      else (Inr (), s\<lparr>ms_data := gm_put key val (ms_data s)\<rparr>))"

definition Storage_Delete :: "Storage \<Rightarrow> bytes \<Rightarrow> unit result \<times> Storage" where
  "Storage_Delete s key =
     (if ms_closing s then (Inl ErrStorageClosed, s)
      else (Inr (), s\<lparr>ms_data := gm_del key (ms_data s)\<rparr>))"

section \<open>Batches\<close>

datatype batchOp = opPut bytes bytes | opDelete bytes

record memBatch =
  b_ops :: "batchOp list"
  b_closed :: bool

datatype Batch = MemBatch memBatch | ErrorBatch error

definition NewBatch :: "Storage \<Rightarrow> Batch \<times> Storage" where
  "NewBatch s =
     (case addRef s of
        (False, s1) \<Rightarrow> (ErrorBatch ErrStorageClosed, s1)
      | (True, s1) \<Rightarrow> (MemBatch \<lparr>b_ops = [], b_closed = False\<rparr>, s1))"

fun Batch_Put :: "Batch \<Rightarrow> bytes \<Rightarrow> bytes \<Rightarrow> unit result \<times> Batch" where
  "Batch_Put (MemBatch b) key val = (Inr (), MemBatch (b\<lparr>b_ops := b_ops b @ [opPut key val]\<rparr>))"
| "Batch_Put (ErrorBatch err) key val = (Inl err, ErrorBatch err)"

fun Batch_Delete :: "Batch \<Rightarrow> bytes \<Rightarrow> unit result \<times> Batch" where
  "Batch_Delete (MemBatch b) key = (Inr (), MemBatch (b\<lparr>b_ops := b_ops b @ [opDelete key]\<rparr>))"
| "Batch_Delete (ErrorBatch err) key = (Inl err, ErrorBatch err)"

fun applyOp :: "(bytes, bytes) gomap \<Rightarrow> batchOp \<Rightarrow> (bytes, bytes) gomap" where
  "applyOp data (opPut key val) = gm_put key val data"
| "applyOp data (opDelete key) = gm_del key data"

definition batch_close :: "memBatch \<Rightarrow> Storage \<Rightarrow> memBatch \<times> Storage" where
  "batch_close b s = (if b_closed b then (b, s) else (b\<lparr>b_closed := True\<rparr>, releaseRef s))"

fun Batch_Commit :: "Batch \<Rightarrow> Storage \<Rightarrow> unit result \<times> Batch \<times> Storage" where
  "Batch_Commit (MemBatch b) s =
     (if b_closed b then (Inl ErrStorageClosed, MemBatch b, s)
      else if ms_closing s then (Inl ErrStorageClosed, MemBatch b, s)
      else let (b1, s1) = batch_close b (s\<lparr>ms_data := foldl applyOp (ms_data s) (b_ops b)\<rparr>)
           in (Inr (), MemBatch b1, s1))"
| "Batch_Commit (ErrorBatch err) s = (Inl err, ErrorBatch err, s)"

fun Batch_Close :: "Batch \<Rightarrow> Storage \<Rightarrow> Batch \<times> Storage" where
  "Batch_Close (MemBatch b) s = (let (b1, s1) = batch_close b s in (MemBatch (b1\<lparr>b_ops := []\<rparr>), s1))"
| "Batch_Close (ErrorBatch err) s = (ErrorBatch err, s)"

section \<open>Iterators\<close>

record IteratorOptions =
  LowerBound :: "bytes option"
  UpperBound :: "bytes option"
  Prefix :: "bytes option"

text \<open>\<^verbatim>\<open>sort.SearchStrings\<close>: the first position of a sorted list whose element is not below the target.\<close>

definition SearchStrings :: "bytes list \<Rightarrow> bytes \<Rightarrow> nat" where
  "SearchStrings keys target = length (takeWhile (\<lambda>k. k < target) keys)"

definition applyBounds :: "IteratorOptions option \<Rightarrow> bytes list \<Rightarrow> bytes list" where
  "applyBounds opts keys =
     (case opts of None \<Rightarrow> keys
      | Some p \<Rightarrow>
          (case Prefix p of
             Some prefix \<Rightarrow> filter (\<lambda>k. hasPrefix k prefix) keys
           | None \<Rightarrow>
               let keys1 = (case LowerBound p of Some lower \<Rightarrow> drop (SearchStrings keys lower) keys | None \<Rightarrow> keys)
               in (case UpperBound p of Some upper \<Rightarrow> take (SearchStrings keys1 upper) keys1 | None \<Rightarrow> keys1)))"

record nav =
  it_keys :: "bytes list"
  it_index :: int

record iterator = nav +
  it_data :: "(bytes, bytes) gomap"
  it_closed :: bool

datatype Iterator = MemIterator iterator | ErrorIterator error

definition NewIterator :: "Storage \<Rightarrow> IteratorOptions option \<Rightarrow> Iterator \<times> Storage" where
  "NewIterator s opts =
     (case addRef s of
        (False, s1) \<Rightarrow> (ErrorIterator ErrStorageClosed, s1)
      | (True, s1) \<Rightarrow>
          if ms_maxIterators s1 > 0 \<and> ms_openIterators s1 + 1 > ms_maxIterators s1
          then (ErrorIterator ErrTooManyIterators, releaseRef s1)
          else (MemIterator \<lparr>it_keys = applyBounds opts (sort (map fst (ms_data s1))), it_index = -1,
                   it_data = ms_data s1, it_closed = False\<rparr>,
                s1\<lparr>ms_openIterators := ms_openIterators s1 + 1\<rparr>))"

definition SeekGE :: "'a nav_scheme \<Rightarrow> bytes \<Rightarrow> bool \<times> 'a nav_scheme" where
  "SeekGE i key =
     (let idx = SearchStrings (it_keys i) key
      in if idx < length (it_keys i) then (True, i\<lparr>it_index := int idx\<rparr>)
         else (False, i\<lparr>it_index := int (length (it_keys i))\<rparr>))"

definition SeekLT :: "'a nav_scheme \<Rightarrow> bytes \<Rightarrow> bool \<times> 'a nav_scheme" where
  "SeekLT i key =
     (let idx = SearchStrings (it_keys i) key
      in if idx > 0 then (True, i\<lparr>it_index := int idx - 1\<rparr>) else (False, i\<lparr>it_index := -1\<rparr>))"

definition First :: "'a nav_scheme \<Rightarrow> bool \<times> 'a nav_scheme" where
  "First i = (if length (it_keys i) > 0 then (True, i\<lparr>it_index := 0\<rparr>) else (False, i))"

definition Last :: "'a nav_scheme \<Rightarrow> bool \<times> 'a nav_scheme" where
  "Last i = (if length (it_keys i) > 0 then (True, i\<lparr>it_index := int (length (it_keys i)) - 1\<rparr>) else (False, i))"

definition Next :: "'a nav_scheme \<Rightarrow> bool \<times> 'a nav_scheme" where
  "Next i =
     (if it_index i \<ge> 0 \<and> it_index i < int (length (it_keys i)) - 1 then (True, i\<lparr>it_index := it_index i + 1\<rparr>)
      else (False, i\<lparr>it_index := int (length (it_keys i))\<rparr>))"

definition Prev :: "'a nav_scheme \<Rightarrow> bool \<times> 'a nav_scheme" where
  "Prev i =
     (if it_index i > 0 \<and> it_index i \<le> int (length (it_keys i)) then (True, i\<lparr>it_index := it_index i - 1\<rparr>)
      else (False, i\<lparr>it_index := -1\<rparr>))"

definition Valid :: "'a nav_scheme \<Rightarrow> bool" where
  "Valid i \<longleftrightarrow> it_index i \<ge> 0 \<and> it_index i < int (length (it_keys i))"

definition Iterator_Key :: "'a nav_scheme \<Rightarrow> bytes option" where
  "Iterator_Key i = (if Valid i then Some (it_keys i ! nat (it_index i)) else None)"

definition Iterator_Value :: "iterator \<Rightarrow> bytes option" where
  "Iterator_Value i =
     (if it_closed i then None
      else if Valid i then gm_get (it_data i) (it_keys i ! nat (it_index i))
      else None)"

definition Iterator_Close :: "iterator \<Rightarrow> Storage \<Rightarrow> iterator \<times> Storage" where
  "Iterator_Close i s =
     (if it_closed i then (i, s)
      else (i\<lparr>it_closed := True, it_keys := [], it_data := [], it_index := -1\<rparr>,
            releaseRef (s\<lparr>ms_openIterators := ms_openIterators s - 1\<rparr>)))"

section \<open>Snapshots\<close>

record memSnapshot =
  sn_data :: "(bytes, bytes) gomap"
  sn_closed :: bool

datatype Snapshot = MemSnapshot memSnapshot | ErrorSnapshot error

definition NewSnapshot :: "Storage \<Rightarrow> Snapshot \<times> Storage" where
  "NewSnapshot s =
     (case addRef s of
        (False, s1) \<Rightarrow> (ErrorSnapshot ErrStorageClosed, s1)
      | (True, s1) \<Rightarrow>
          if ms_maxSnapshots s1 > 0 \<and> ms_openSnapshots s1 + 1 > ms_maxSnapshots s1
          then (ErrorSnapshot ErrTooManySnapshots, releaseRef s1)
          else (MemSnapshot \<lparr>sn_data = ms_data s1, sn_closed = False\<rparr>,
                s1\<lparr>ms_openSnapshots := ms_openSnapshots s1 + 1\<rparr>))"

fun Snapshot_Get :: "Snapshot \<Rightarrow> bytes \<Rightarrow> bytes option result" where
  "Snapshot_Get (MemSnapshot sn) key = Inr (gm_get (sn_data sn) key)"
| "Snapshot_Get (ErrorSnapshot err) key = Inl err"

fun Snapshot_Close :: "Snapshot \<Rightarrow> Storage \<Rightarrow> Snapshot \<times> Storage" where
  "Snapshot_Close (MemSnapshot sn) s =
     (if sn_closed sn then (MemSnapshot sn, s)
      else (MemSnapshot \<lparr>sn_data = [], sn_closed = True\<rparr>,
            releaseRef (s\<lparr>ms_openSnapshots := ms_openSnapshots s - 1\<rparr>)))"
| "Snapshot_Close (ErrorSnapshot err) s = (ErrorSnapshot err, s)"

record snapshotIterator = nav +
  si_closed :: bool

datatype SnapshotIterator = MemSnapshotIterator snapshotIterator | ErrorSnapshotIterator error

fun Snapshot_NewIterator :: "Snapshot \<Rightarrow> IteratorOptions option \<Rightarrow> Storage \<Rightarrow> SnapshotIterator \<times> Storage" where
  "Snapshot_NewIterator (MemSnapshot sn) opts s =
     (if ms_maxIterators s > 0 \<and> ms_openIterators s + 1 > ms_maxIterators s
      then (ErrorSnapshotIterator ErrTooManyIterators, s)
      else (MemSnapshotIterator \<lparr>it_keys = applyBounds opts (sort (map fst (sn_data sn))), it_index = -1,
               si_closed = False\<rparr>,
            s\<lparr>ms_openIterators := ms_openIterators s + 1\<rparr>))"
| "Snapshot_NewIterator (ErrorSnapshot err) opts s = (ErrorSnapshotIterator err, s)"

text \<open>The snapshot iterator reads the data of its snapshot, which is gone once the snapshot is closed.\<close>

definition snapshotIterator_Value :: "snapshotIterator \<Rightarrow> memSnapshot \<Rightarrow> bytes option" where
  "snapshotIterator_Value i sn =
     (if Valid i then gm_get (sn_data sn) (it_keys i ! nat (it_index i)) else None)"

definition snapshotIterator_Close :: "snapshotIterator \<Rightarrow> Storage \<Rightarrow> snapshotIterator \<times> Storage" where
  "snapshotIterator_Close i s =
     (if si_closed i then (i, s)
      else (i\<lparr>si_closed := True, it_keys := []\<rparr>, s\<lparr>ms_openIterators := ms_openIterators s - 1\<rparr>))"

definition snapshotIterator_SeekGE :: "snapshotIterator \<Rightarrow> bytes \<Rightarrow> bool \<times> snapshotIterator" where
  "snapshotIterator_SeekGE = SeekGE"
definition snapshotIterator_SeekLT :: "snapshotIterator \<Rightarrow> bytes \<Rightarrow> bool \<times> snapshotIterator" where
  "snapshotIterator_SeekLT = SeekLT"
definition snapshotIterator_First :: "snapshotIterator \<Rightarrow> bool \<times> snapshotIterator" where
  "snapshotIterator_First = First"
definition snapshotIterator_Last :: "snapshotIterator \<Rightarrow> bool \<times> snapshotIterator" where
  "snapshotIterator_Last = Last"
definition snapshotIterator_Next :: "snapshotIterator \<Rightarrow> bool \<times> snapshotIterator" where
  "snapshotIterator_Next = Next"
definition snapshotIterator_Prev :: "snapshotIterator \<Rightarrow> bool \<times> snapshotIterator" where
  "snapshotIterator_Prev = Prev"
definition snapshotIterator_Valid :: "snapshotIterator \<Rightarrow> bool" where
  "snapshotIterator_Valid = Valid"
definition snapshotIterator_Key :: "snapshotIterator \<Rightarrow> bytes option" where
  "snapshotIterator_Key = Iterator_Key"

section \<open>Closing the storage\<close>

definition Storage_Close :: "Storage \<Rightarrow> unit result option \<times> Storage" where
  "Storage_Close s =
     (if ms_closing s then (Some (Inr ()), s)
      else if ms_refCount s = 0 then (Some (Inr ()), s\<lparr>ms_closing := True, ms_data := []\<rparr>)
      else (None, s\<lparr>ms_closing := True\<rparr>))"

section \<open>The scan loop\<close>

text \<open>
  \<^verbatim>\<open>for iter.First(); iter.Valid(); iter.Next()\<close>, collecting keys and values; the callers' loop bodies
  are folds over this list.
\<close>

function scanFrom :: "iterator \<Rightarrow> (bytes \<times> bytes option) list" where
  "scanFrom i =
     (if Valid i then (it_keys i ! nat (it_index i), Iterator_Value i) # scanFrom (snd (Next i)) else [])"
  by pat_completeness auto
termination
  by (relation "measure (\<lambda>i. nat (int (length (it_keys i)) - it_index i))")
    (auto simp: Next_def Valid_def split: if_splits)

declare scanFrom.simps [simp del]

fun scan :: "Iterator \<Rightarrow> (bytes \<times> bytes option) list" where
  "scan (MemIterator i) = scanFrom (snd (First i))"
| "scan (ErrorIterator err) = []"

section \<open>Scanning visits every selected key once, in order\<close>

lemma scanFrom_eq:
  assumes "0 \<le> it_index i" and "\<not> it_closed i"
  shows "scanFrom i = map (\<lambda>k. (k, gm_get (it_data i) k)) (drop (nat (it_index i)) (it_keys i))"
  using assms
proof (induction i rule: scanFrom.induct)
  case (1 i)
  show ?case
  proof (cases "Valid i")
    case True
    then have lt: "nat (it_index i) < length (it_keys i)" using "1.prems" by (simp add: Valid_def)
    let ?j = "snd (Next i)"
    have j: "it_keys ?j = it_keys i" "it_data ?j = it_data i" "it_closed ?j = it_closed i" "it_index ?j = it_index i + 1"
      using True "1.prems" by (auto simp: Next_def Valid_def)
    have "scanFrom ?j = map (\<lambda>k. (k, gm_get (it_data i) k)) (drop (Suc (nat (it_index i))) (it_keys i))"
      using "1.IH" [OF True] j "1.prems" by (simp add: nat_add_distrib)
    with True lt "1.prems" show ?thesis
      by (simp add: scanFrom.simps [of i] Iterator_Value_def flip: Cons_nth_drop_Suc)
  next
    case False
    then have "length (it_keys i) \<le> nat (it_index i)" using "1.prems" by (simp add: Valid_def)
    with False show ?thesis by (simp add: scanFrom.simps [of i])
  qed
qed

lemma scan_eq:
  assumes "\<not> it_closed i" and "it_index i = -1"
  shows "scan (MemIterator i) = map (\<lambda>k. (k, gm_get (it_data i) k)) (it_keys i)"
proof (cases "it_keys i = []")
  case True
  with assms show ?thesis by (simp add: First_def scanFrom.simps [of i] Valid_def)
next
  case False
  then have "scan (MemIterator i) = scanFrom (i\<lparr>it_index := 0\<rparr>)" by (simp add: First_def)
  also have "\<dots> = map (\<lambda>k. (k, gm_get (it_data i) k)) (it_keys i)"
    using scanFrom_eq [of "i\<lparr>it_index := 0\<rparr>"] assms by simp
  finally show ?thesis .
qed

text \<open>The keys an iterator over sorted keys selects.\<close>

definition inBounds :: "IteratorOptions option \<Rightarrow> bytes \<Rightarrow> bool" where
  "inBounds opts k =
     (case opts of None \<Rightarrow> True
      | Some p \<Rightarrow>
          (case Prefix p of
             Some prefix \<Rightarrow> hasPrefix k prefix
           | None \<Rightarrow> (case LowerBound p of Some lower \<Rightarrow> lower \<le> k | None \<Rightarrow> True)
               \<and> (case UpperBound p of Some upper \<Rightarrow> k < upper | None \<Rightarrow> True)))"

lemma drop_SearchStrings: "sorted keys \<Longrightarrow> drop (SearchStrings keys x) keys = filter (\<lambda>k. x \<le> k) keys"
proof -
  assume s: "sorted keys"
  have "drop (SearchStrings keys x) keys = dropWhile (\<lambda>k. k < x) keys"
    by (simp add: SearchStrings_def flip: dropWhile_eq_drop)
  also have "\<dots> = filter (\<lambda>k. x \<le> k) keys"
    using s by (induction keys) (auto simp: not_less not_le intro!: filter_True [symmetric] intro: order.trans)
  finally show ?thesis .
qed

lemma take_SearchStrings: "sorted keys \<Longrightarrow> take (SearchStrings keys x) keys = filter (\<lambda>k. k < x) keys"
proof -
  assume s: "sorted keys"
  have "take (SearchStrings keys x) keys = takeWhile (\<lambda>k. k < x) keys"
    by (simp add: SearchStrings_def flip: takeWhile_eq_take)
  also have "\<dots> = filter (\<lambda>k. k < x) keys"
    using s
  proof (induction keys)
    case (Cons a keys)
    then have "\<forall>y \<in> set keys. \<not> y < x" if "\<not> a < x" using that by (auto dest: order.strict_trans1)
    with Cons show ?case by (auto simp: filter_False)
  qed simp
  finally show ?thesis .
qed

lemma applyBounds_eq: "sorted keys \<Longrightarrow> applyBounds opts keys = filter (inBounds opts) keys"
  by (cases opts)
    (auto simp: applyBounds_def inBounds_def drop_SearchStrings take_SearchStrings sorted_wrt_filter Let_def
      split: option.split intro: filter_cong)

lemma NewIterator_scan:
  assumes "\<not> ms_closing s" and "ms_maxIterators s \<le> 0 \<or> ms_openIterators s < ms_maxIterators s"
  shows "scan (fst (NewIterator s opts)) =
    map (\<lambda>k. (k, gm_get (ms_data s) k)) (filter (inBounds opts) (sort (map fst (ms_data s))))"
  using assms by (auto simp: NewIterator_def addRef_def scan_eq applyBounds_eq simp del: scan.simps)

section \<open>The interface of a key-value store\<close>

fun opEffect :: "bytes \<Rightarrow> bytes option \<Rightarrow> batchOp \<Rightarrow> bytes option" where
  "opEffect k r (opPut k' v) = (if k' = k then Some v else r)"
| "opEffect k r (opDelete k') = (if k' = k then None else r)"

locale kv_store =
  fixes usable :: "'s \<Rightarrow> bool"
    and get :: "'s \<Rightarrow> bytes \<Rightarrow> bytes option result"
    and put :: "'s \<Rightarrow> bytes \<Rightarrow> bytes \<Rightarrow> unit result \<times> 's"
    and del :: "'s \<Rightarrow> bytes \<Rightarrow> unit result \<times> 's"
    and commit :: "batchOp list \<Rightarrow> 's \<Rightarrow> unit result \<times> 's"
  assumes get_total: "usable s \<Longrightarrow> \<exists>r. get s k = Inr r"
    and put_law: "usable s \<Longrightarrow> \<exists>s'. put s k v = (Inr (), s') \<and> usable s'
      \<and> (\<forall>k'. get s' k' = (if k' = k then Inr (Some v) else get s k'))"
    and del_law: "usable s \<Longrightarrow> \<exists>s'. del s k = (Inr (), s') \<and> usable s'
      \<and> (\<forall>k'. get s' k' = (if k' = k then Inr None else get s k'))"
    and commit_law: "usable s \<Longrightarrow> \<exists>s'. commit ops s = (Inr (), s') \<and> usable s'
      \<and> (\<forall>k r. get s k = Inr r \<longrightarrow> get s' k = Inr (foldl (opEffect k) r ops))"
begin

text \<open>A batch of puts: the last put of a key wins, the other keys keep their value.\<close>

lemma foldl_puts:
  "foldl (opEffect k) r (map (\<lambda>(a, b). opPut a b) kvs)
     = (case map_of (rev kvs) k of Some v \<Rightarrow> Some v | None \<Rightarrow> r)"
  by (induction kvs rule: rev_induct) auto

lemma commit_puts:
  assumes "usable s" and "get s k = Inr r"
  shows "\<exists>s'. commit (map (\<lambda>(a, b). opPut a b) kvs) s = (Inr (), s') \<and> usable s'
    \<and> get s' k = Inr (case map_of (rev kvs) k of Some v \<Rightarrow> Some v | None \<Rightarrow> r)"
  using commit_law [OF assms(1), of "map (\<lambda>(a, b). opPut a b) kvs"] assms(2) by (metis foldl_puts)

lemma put_then_get: "usable s \<Longrightarrow> get (snd (put s k v)) k = Inr (Some v)"
  using put_law [of s k v] by auto

end

definition mem_usable :: "Storage \<Rightarrow> bool" where
  "mem_usable s \<longleftrightarrow> \<not> ms_closing s"

definition mem_commit :: "batchOp list \<Rightarrow> Storage \<Rightarrow> unit result \<times> Storage" where
  "mem_commit ops s =
     (let (r, _, s') = Batch_Commit (MemBatch \<lparr>b_ops = ops, b_closed = False\<rparr>) s in (r, s'))"

lemma applyOp_get: "gm_get (foldl applyOp data ops) k = foldl (opEffect k) (gm_get data k) ops"
proof (induction ops arbitrary: data)
  case (Cons op ops)
  have "gm_get (applyOp data op) k = opEffect k (gm_get data k) op" by (cases op) auto
  with Cons show ?case by simp
qed simp

lemma Batch_Commit_open:
  "\<not> ms_closing s \<Longrightarrow> \<not> b_closed b \<Longrightarrow>
     Batch_Commit (MemBatch b) s = (Inr (), MemBatch (b\<lparr>b_closed := True\<rparr>),
       s\<lparr>ms_data := foldl applyOp (ms_data s) (b_ops b), ms_refCount := ms_refCount s - 1\<rparr>)"
  by (simp add: batch_close_def releaseRef_def)

interpretation mem: kv_store mem_usable Storage_Get Storage_Put Storage_Delete mem_commit
  by unfold_locales (auto simp: mem_usable_def Storage_Get_def Storage_Put_def Storage_Delete_def mem_commit_def
      Batch_Commit_open applyOp_get simp del: Batch_Commit.simps)

section \<open>Resource accounting\<close>

text \<open>
  The storage together with every batch, iterator, snapshot and snapshot iterator handed out, as a
  transition system: each step is one call of the source.
\<close>

record World =
  w_store :: Storage
  w_batches :: "memBatch list"
  w_iters :: "iterator list"
  w_snaps :: "memSnapshot list"
  w_snapIters :: "snapshotIterator list"

inductive mem_step :: "World \<Rightarrow> World \<Rightarrow> bool" where
  put: "mem_step w (w\<lparr>w_store := snd (Storage_Put (w_store w) k v)\<rparr>)"
| delete: "mem_step w (w\<lparr>w_store := snd (Storage_Delete (w_store w) k)\<rparr>)"
| newBatch: "NewBatch (w_store w) = (MemBatch b, s) \<Longrightarrow>
    mem_step w (w\<lparr>w_store := s, w_batches := w_batches w @ [b]\<rparr>)"
| batchPut: "i < length (w_batches w) \<Longrightarrow> Batch_Put (MemBatch (w_batches w ! i)) k v = (r, MemBatch b) \<Longrightarrow>
    mem_step w (w\<lparr>w_batches := (w_batches w)[i := b]\<rparr>)"
| batchCommit: "i < length (w_batches w) \<Longrightarrow>
    Batch_Commit (MemBatch (w_batches w ! i)) (w_store w) = (r, MemBatch b, s) \<Longrightarrow>
    mem_step w (w\<lparr>w_store := s, w_batches := (w_batches w)[i := b]\<rparr>)"
| batchClose: "i < length (w_batches w) \<Longrightarrow>
    Batch_Close (MemBatch (w_batches w ! i)) (w_store w) = (MemBatch b, s) \<Longrightarrow>
    mem_step w (w\<lparr>w_store := s, w_batches := (w_batches w)[i := b]\<rparr>)"
| newIter: "NewIterator (w_store w) opts = (MemIterator it, s) \<Longrightarrow>
    mem_step w (w\<lparr>w_store := s, w_iters := w_iters w @ [it]\<rparr>)"
| newIterErr: "NewIterator (w_store w) opts = (ErrorIterator e, s) \<Longrightarrow> mem_step w (w\<lparr>w_store := s\<rparr>)"
| iterClose: "i < length (w_iters w) \<Longrightarrow> Iterator_Close (w_iters w ! i) (w_store w) = (it, s) \<Longrightarrow>
    mem_step w (w\<lparr>w_store := s, w_iters := (w_iters w)[i := it]\<rparr>)"
| newSnap: "NewSnapshot (w_store w) = (MemSnapshot sn, s) \<Longrightarrow>
    mem_step w (w\<lparr>w_store := s, w_snaps := w_snaps w @ [sn]\<rparr>)"
| newSnapErr: "NewSnapshot (w_store w) = (ErrorSnapshot e, s) \<Longrightarrow> mem_step w (w\<lparr>w_store := s\<rparr>)"
| snapClose: "i < length (w_snaps w) \<Longrightarrow> Snapshot_Close (MemSnapshot (w_snaps w ! i)) (w_store w) = (MemSnapshot sn, s) \<Longrightarrow>
    mem_step w (w\<lparr>w_store := s, w_snaps := (w_snaps w)[i := sn]\<rparr>)"
| newSnapIter: "i < length (w_snaps w) \<Longrightarrow>
    Snapshot_NewIterator (MemSnapshot (w_snaps w ! i)) opts (w_store w) = (MemSnapshotIterator it, s) \<Longrightarrow>
    mem_step w (w\<lparr>w_store := s, w_snapIters := w_snapIters w @ [it]\<rparr>)"
| snapIterClose: "i < length (w_snapIters w) \<Longrightarrow> snapshotIterator_Close (w_snapIters w ! i) (w_store w) = (it, s) \<Longrightarrow>
    mem_step w (w\<lparr>w_store := s, w_snapIters := (w_snapIters w)[i := it]\<rparr>)"
| close: "mem_step w (w\<lparr>w_store := snd (Storage_Close (w_store w))\<rparr>)"

definition initWorld :: "Options option \<Rightarrow> World" where
  "initWorld opts = \<lparr>w_store = NewStorageWithOptions opts, w_batches = [], w_iters = [], w_snaps = [], w_snapIters = []\<rparr>"

definition openCount :: "('a \<Rightarrow> bool) \<Rightarrow> 'a list \<Rightarrow> int" where
  "openCount closed xs = int (length (filter (\<lambda>x. \<not> closed x) xs))"

lemma openCount_Nil [simp]: "openCount c [] = 0"
  by (simp add: openCount_def)

lemma openCount_snoc [simp]: "openCount c (xs @ [x]) = openCount c xs + (if c x then 0 else 1)"
  by (simp add: openCount_def)

lemma openCount_Cons: "openCount c (x # xs) = (if c x then 0 else 1) + openCount c xs"
  by (simp add: openCount_def)

lemma openCount_update [simp]:
  "i < length xs \<Longrightarrow>
     openCount c (xs[i := y]) = openCount c xs - (if c (xs ! i) then 0 else 1) + (if c y then 0 else 1)"
  by (induction xs arbitrary: i) (auto simp: openCount_Cons split: nat.split)

lemma openCount_nonneg: "0 \<le> openCount c xs"
  by (simp add: openCount_def)

definition accounted :: "World \<Rightarrow> bool" where
  "accounted w \<longleftrightarrow>
     ms_refCount (w_store w) =
       openCount b_closed (w_batches w) + openCount it_closed (w_iters w) + openCount sn_closed (w_snaps w)
     \<and> ms_openIterators (w_store w) = openCount it_closed (w_iters w) + openCount si_closed (w_snapIters w)
     \<and> ms_openSnapshots (w_store w) = openCount sn_closed (w_snaps w)
     \<and> (ms_maxIterators (w_store w) > 0 \<longrightarrow> ms_openIterators (w_store w) \<le> ms_maxIterators (w_store w))
     \<and> (ms_maxSnapshots (w_store w) > 0 \<longrightarrow> ms_openSnapshots (w_store w) \<le> ms_maxSnapshots (w_store w))"

lemmas mem_ops_defs = Storage_Put_def Storage_Delete_def NewBatch_def addRef_def batch_close_def
  releaseRef_def NewIterator_def Iterator_Close_def NewSnapshot_def snapshotIterator_Close_def
  Storage_Close_def

lemma accounted_step: "mem_step w w' \<Longrightarrow> accounted w \<Longrightarrow> accounted w'"
  by (induction rule: mem_step.induct)
    (auto simp: accounted_def mem_ops_defs Let_def split: if_splits prod.splits)

lemma accounted_reachable: "mem_step\<^sup>*\<^sup>* (initWorld opts) w \<Longrightarrow> accounted w"
proof (induction rule: rtranclp_induct)
  case base
  then show ?case by (auto simp: accounted_def initWorld_def NewStorageWithOptions_def Let_def)
next
  case (step y z)
  then show ?case using accounted_step by blast
qed

lemma openCount_0: "openCount c xs = 0 \<longleftrightarrow> (\<forall>x \<in> set xs. c x)"
  by (auto simp: openCount_def filter_empty_conv)

section \<open>Properties\<close>

text \<open>
  C31: in every state reachable from a new storage, whatever batches, iterators and snapshots were opened
  and closed, the reference count is the number of open batches, iterators and snapshots, the limits on
  iterators and snapshots are respected, and \<open>Close\<close> keeps waiting exactly while something is open.
\<close>

theorem memory_resources_accounted:
  assumes "mem_step\<^sup>*\<^sup>* (initWorld opts) w"
  shows "accounted w
    \<and> (\<not> ms_closing (w_store w) \<longrightarrow>
        (fst (Storage_Close (w_store w)) = None \<longleftrightarrow>
           (\<exists>b \<in> set (w_batches w). \<not> b_closed b) \<or> (\<exists>i \<in> set (w_iters w). \<not> it_closed i)
           \<or> (\<exists>s \<in> set (w_snaps w). \<not> sn_closed s)))"
proof -
  have acc: "accounted w" using accounted_reachable [OF assms] .
  have "fst (Storage_Close (w_store w)) = None \<longleftrightarrow> ms_refCount (w_store w) \<noteq> 0" if "\<not> ms_closing (w_store w)"
    using that by (simp add: Storage_Close_def)
  moreover have "ms_refCount (w_store w) = 0 \<longleftrightarrow> openCount b_closed (w_batches w) = 0
      \<and> openCount it_closed (w_iters w) = 0 \<and> openCount sn_closed (w_snaps w) = 0"
    using acc openCount_nonneg [of b_closed "w_batches w"] openCount_nonneg [of it_closed "w_iters w"]
      openCount_nonneg [of sn_closed "w_snaps w"] unfolding accounted_def by linarith
  ultimately show ?thesis using acc by (auto simp: openCount_0)
qed

theorem memory_resources_accounted_witness:
  "fst (Storage_Close (snd (NewSnapshot NewStorage))) = None"
proof -
  let ?w = "initWorld (Some DefaultOptions)"
  let ?w' = "?w\<lparr>w_store := snd (NewSnapshot NewStorage), w_snaps := [\<lparr>sn_data = [], sn_closed = False\<rparr>]\<rparr>"
  have eq: "NewSnapshot (w_store ?w) = (MemSnapshot \<lparr>sn_data = [], sn_closed = False\<rparr>, snd (NewSnapshot NewStorage))"
    by (simp add: initWorld_def NewStorage_def NewStorageWithOptions_def NewSnapshot_def addRef_def DefaultOptions_def)
  have "mem_step ?w ?w'" using mem_step.newSnap [OF eq] by (simp add: initWorld_def)
  then have "mem_step\<^sup>*\<^sup>* (initWorld (Some DefaultOptions)) ?w'" by blast
  from memory_resources_accounted [OF this] show ?thesis
    by (simp add: initWorld_def NewStorage_def NewStorageWithOptions_def NewSnapshot_def addRef_def DefaultOptions_def)
qed

text \<open>
  On an open storage, a committed batch is its puts and deletes applied in order (for every key the
  last operation on it decides), the batch releases its reference, and committing it again is refused
  and changes nothing.
\<close>

theorem memory_batch_commit:
  assumes "\<not> ms_closing s" and "\<not> b_closed b"
  shows "\<exists>b' s'. Batch_Commit (MemBatch b) s = (Inr (), MemBatch b', s')
    \<and> (\<forall>k. Storage_Get s' k = Inr (foldl (opEffect k) (gm_get (ms_data s) k) (b_ops b)))
    \<and> ms_refCount s' = ms_refCount s - 1
    \<and> Batch_Commit (MemBatch b') s' = (Inl ErrStorageClosed, MemBatch b', s')"
  using Batch_Commit_open [OF assms] assms(1) by (simp add: Storage_Get_def applyOp_get)

theorem memory_batch_commit_witness:
  "\<exists>b' s'. Batch_Commit (MemBatch \<lparr>b_ops = [opPut [1] [2], opDelete [1], opPut [3] [4]], b_closed = False\<rparr>)
      (snd (NewBatch NewStorage)) = (Inr (), MemBatch b', s')
    \<and> Storage_Get s' [1] = Inr None \<and> Storage_Get s' [3] = Inr (Some [4])"
proof -
  have "\<not> ms_closing (snd (NewBatch NewStorage))"
    by (simp add: NewBatch_def NewStorage_def NewStorageWithOptions_def addRef_def)
  from memory_batch_commit [OF this, of "\<lparr>b_ops = [opPut [1] [2], opDelete [1], opPut [3] [4]], b_closed = False\<rparr>"]
  show ?thesis by auto
qed

text \<open>
  Iterating over an open storage within the iterator limit with \<open>First\<close>/\<open>Valid\<close>/\<open>Next\<close> yields exactly
  the stored pairs whose keys lie within the prefix or bounds of the options, in strictly increasing key order.
\<close>

theorem memory_iteration:
  assumes "\<not> ms_closing s" and "ms_maxIterators s \<le> 0 \<or> ms_openIterators s < ms_maxIterators s"
    and "gm_wf (ms_data s)"
  shows "sorted_wrt (<) (map fst (scan (fst (NewIterator s opts))))
    \<and> set (scan (fst (NewIterator s opts))) = {(k, r). r \<noteq> None \<and> gm_get (ms_data s) k = r \<and> inBounds opts k}"
proof -
  let ?kvs = "scan (fst (NewIterator s opts))"
  have kvs: "?kvs = map (\<lambda>k. (k, gm_get (ms_data s) k)) (filter (inBounds opts) (sort (map fst (ms_data s))))"
    by (rule NewIterator_scan [OF assms(1,2)])
  have "sorted_wrt (<) (sort (map fst (ms_data s)))"
    using assms(3) by (simp add: strict_sorted_iff)
  then have sorted: "sorted_wrt (<) (map fst ?kvs)"
    by (simp add: kvs comp_def sorted_wrt_filter)
  have "(k, r) \<in> set ?kvs \<longleftrightarrow> r \<noteq> None \<and> gm_get (ms_data s) k = r \<and> inBounds opts k" for k r
    using map_of_eq_None_iff [of "ms_data s" k] by (auto simp: kvs)
  then have "set ?kvs = {(k, r). r \<noteq> None \<and> gm_get (ms_data s) k = r \<and> inBounds opts k}" by auto
  with sorted show ?thesis by simp
qed

theorem memory_iteration_witness:
  "map fst (scan (fst (NewIterator (snd (Storage_Put (snd (Storage_Put NewStorage [2] [9])) [1] [8])) None))) = [[1], [2]]"
proof -
  let ?s = "snd (Storage_Put (snd (Storage_Put NewStorage [2] [9])) [1] [8])"
  have h: "\<not> ms_closing ?s" "ms_maxIterators ?s \<le> 0 \<or> ms_openIterators ?s < ms_maxIterators ?s" "gm_wf (ms_data ?s)"
    by (simp_all add: Storage_Put_def NewStorage_def NewStorageWithOptions_def DefaultOptions_def)
  let ?ks = "map fst (scan (fst (NewIterator ?s None)))"
  have data: "gm_get (ms_data ?s) = [[2] \<mapsto> [9], [1] \<mapsto> [8]]"
    by (auto simp: Storage_Put_def NewStorage_def NewStorageWithOptions_def fun_eq_iff)
  from memory_iteration [OF h, of None] have sorted: "sorted_wrt (<) ?ks"
    and scan: "set (scan (fst (NewIterator ?s None))) = {(k, r). r \<noteq> None \<and> gm_get (ms_data ?s) k = r}"
    by (simp_all add: inBounds_def)
  have "k \<in> set ?ks \<longleftrightarrow> k = [1] \<or> k = [2]" for k
    unfolding set_map scan data by (auto simp: image_iff)
  then have "set ?ks = set [[1], [2]]" unfolding set_eq_iff by simp
  moreover have "sorted_wrt (<) [[1], [2 :: byte]]" by simp
  ultimately show ?thesis using sorted strict_sorted_equal by blast
qed

end
