(* ===== verification/Tree.thy ===== *)
theory Tree
  imports VersionManager BatchOptimizer MemoryStorage
begin

text \<open>
  The tree: \<^verbatim>\<open>pkg/tree/tree.go\<close>, \<^verbatim>\<open>put.go\<close>, \<^verbatim>\<open>delete.go\<close>, \<^verbatim>\<open>reader.go\<close> and \<^verbatim>\<open>stats.go\<close>, over the in-memory
  storage and the default key encoder. \<open>H\<close> is the hash function (SHA-256: the default hasher and the check of
  \<open>loadValue\<close>), \<open>now\<close> the time. Locks and metrics are left out: the calls of one goroutine at a time. The
  node cache is left out of the state as well: it returns what the storage would return (theory
  \<open>NodeCache\<close>).
\<close>

section \<open>Data\<close>

record TreeStats =
  st_height :: int
  st_nodeCount :: int
  st_version :: int

definition NewTreeStats :: TreeStats where
  "NewTreeStats = \<lparr>st_height = 0, st_nodeCount = 0, st_version = 0\<rparr>"

definition UpdateNodeCount :: "int \<Rightarrow> TreeStats \<Rightarrow> TreeStats" where
  "UpdateNodeCount c s = s\<lparr>st_nodeCount := c\<rparr>"

definition UpdateVersion :: "int \<Rightarrow> TreeStats \<Rightarrow> TreeStats" where
  "UpdateVersion v s = s\<lparr>st_version := v\<rparr>"

record TreeConfig =
  cf_CacheSize :: int
  cf_MaxBatchSize :: int
  cf_BatchOptimizer :: "BatchOptimizer option"
  cf_UseParallelBatching :: bool

definition DefaultTreeConfig :: TreeConfig where
  "DefaultTreeConfig = \<lparr>cf_CacheSize = 10000, cf_MaxBatchSize = 1000,
     cf_BatchOptimizer = Some (NewBatchOptimizer DefaultBatchOptimizerConfig), cf_UseParallelBatching = True\<rparr>"

record Tree =
  t_db :: Storage
  t_latestVer :: version
  t_rootHashes :: "(version, hash) gomap"
  t_config :: TreeConfig
  t_versionManager :: VersionManager
  t_stats :: TreeStats

section \<open>Loading nodes\<close>

definition loadNodeFromStorage :: "Storage \<Rightarrow> NodeKey \<Rightarrow> Node result" where
  "loadNodeFromStorage db key =
     bindE (DefaultKeyEncoder_NodeKey key) (\<lambda>storageKey.
       case Storage_Get db storageKey of
         Inl err \<Rightarrow> Inl (wrapE ''failed to load node'' err)
       | Inr None \<Rightarrow> Inl (Errorf ''node not found'')
       | Inr (Some data) \<Rightarrow>
           (case DecodeNode data (nk_Version key) of
              Inl err \<Rightarrow> Inl (wrapE ''failed to decode node'' err)
            | Inr node \<Rightarrow> Inr node))"

section \<open>Opening a tree\<close>

text \<open>The body of the loop over the root keys, on the pairs that the iterator yields.\<close>

fun loadRoots :: "int \<Rightarrow> (bytes \<times> bytes option) list \<Rightarrow> Tree \<Rightarrow> unit result \<times> Tree" where
  "loadRoots now [] t = (Inr (), t)"
| "loadRoots now ((k, v) # rest) t =
     (case DefaultKeyEncoder_ParseRootKey k of
        Inl err \<Rightarrow> (Inl err, t)
      | Inr version \<Rightarrow>
          let val = (case v of Some b \<Rightarrow> b | None \<Rightarrow> [])
          in if length val \<noteq> 32 then (Inl (Errorf ''invalid root hash size''), t)
             else let t1 = t\<lparr>t_rootHashes := gm_put version val (t_rootHashes t),
                             t_latestVer := (if version > t_latestVer t then version else t_latestVer t)\<rparr>;
                      vm = t_versionManager t1;
                      info = \<lparr>vi_Version = version, vi_RootHash = val, vi_ParentVersion = (if version = 1 then 0 else version - 1),
                              vi_CreatedAt = now, vi_NodeCount = 0, vi_Status = VersionStatusCommitted\<rparr>;
                      t2 = (if version \<noteq> 0
                            then t1\<lparr>t_versionManager := vm\<lparr>versions := gm_put version info (versions vm)\<rparr>\<rparr> else t1)
                  in loadRoots now rest t2)"

definition rootOptions :: "IteratorOptions option" where
  "rootOptions = Some \<lparr>LowerBound = None, UpperBound = None, Prefix = Some DefaultKeyEncoder_RootKeyPrefix\<rparr>"

fun closeIterator :: "Iterator \<Rightarrow> Storage \<Rightarrow> Storage" where
  "closeIterator (MemIterator i) s = snd (Iterator_Close i s)"
| "closeIterator (ErrorIterator e) s = s"

fun Iterator_Error :: "Iterator \<Rightarrow> unit result" where
  "Iterator_Error (MemIterator i) = Inr ()"
| "Iterator_Error (ErrorIterator e) = Inl e"

definition loadRootHashes :: "int \<Rightarrow> Tree \<Rightarrow> unit result \<times> Tree" where
  "loadRootHashes now t =
     (let (iter, db1) = NewIterator (t_db t) rootOptions
      in case loadRoots now (scan iter) (t\<lparr>t_db := closeIterator iter db1\<rparr>) of
           (Inl e, t1) \<Rightarrow> (Inl e, t1)
         | (Inr _, t1) \<Rightarrow>
             (Iterator_Error iter,
              t1\<lparr>t_versionManager := (t_versionManager t1)\<lparr>latestVersion := t_latestVer t1, committedVersion := t_latestVer t1\<rparr>\<rparr>))"

definition NewTree :: "int \<Rightarrow> Storage \<Rightarrow> TreeConfig \<Rightarrow> Tree result" where
  "NewTree now db config =
     (let tree = \<lparr>t_db = db, t_latestVer = 0, t_rootHashes = [], t_config = config,
                  t_versionManager = NewVersionManager now, t_stats = NewTreeStats\<rparr>
      in if cf_CacheSize config \<le> 0 then Inl (wrapE ''failed to create cache'' (Errorf ''cache size must be positive''))
         else case loadRootHashes now tree of
           (Inl err, _) \<Rightarrow> Inl (wrapE ''failed to load root hashes'' err)
         | (Inr _, t1) \<Rightarrow>
             if t_latestVer t1 = 0 \<and> length (t_rootHashes t1) = 0
             then Inr (t1\<lparr>t_rootHashes := gm_put 0 EmptyHash (t_rootHashes t1),
                          t_versionManager := (t_versionManager t1)
                            \<lparr>versions := gm_put 0 (initialInfo now) (versions (t_versionManager t1)),
                             latestVersion := 0, committedVersion := 0\<rparr>\<rparr>)
             else Inr t1)"

section \<open>Queries\<close>

definition GetLatestVersion :: "Tree \<Rightarrow> version" where
  "GetLatestVersion t = t_latestVer t"

definition HasVersion :: "Tree \<Rightarrow> version \<Rightarrow> bool" where
  "HasVersion t version \<longleftrightarrow> gm_get (t_rootHashes t) version \<noteq> None"

definition GetRootHash :: "Tree \<Rightarrow> version \<Rightarrow> hash result" where
  "GetRootHash t version =
     (case gm_get (t_rootHashes t) version of None \<Rightarrow> Inl ErrVersionNotFound | Some h \<Rightarrow> Inr h)"

definition Tree_IsEmpty :: "Tree \<Rightarrow> version \<Rightarrow> bool result" where
  "Tree_IsEmpty t version = bindE (GetRootHash t version) (\<lambda>h. Inr (h = EmptyHash))"

definition validateVersion :: "version \<Rightarrow> unit result" where
  "validateVersion version = (if version > MaxVersion then Inl ErrInvalidVersionRange else Inr ())"

definition validateKey :: "key \<Rightarrow> unit result" where
  "validateKey key = (if key = emptyKey then Inl ErrEmptyKey else Inr ())"

definition validateValue :: "bytes \<Rightarrow> unit result" where
  "validateValue val =
     (if length val = 0 then Inl ErrEmptyValue
      else if length val > MaxValueSize then Inl ErrValueTooLarge else Inr ())"

section \<open>Reading\<close>

record TreeReader =
  rd_snapshot :: Snapshot
  rd_version :: version
  rd_rootHash :: hash

definition Reader_loadNode :: "TreeReader \<Rightarrow> NodeKey \<Rightarrow> Node option result" where
  "Reader_loadNode r key =
     bindE (DefaultKeyEncoder_NodeKey key) (\<lambda>storageKey.
       case Snapshot_Get (rd_snapshot r) storageKey of
         Inl err \<Rightarrow> Inl (wrapE ''failed to load node'' err)
       | Inr None \<Rightarrow> Inr None
       | Inr (Some data) \<Rightarrow>
           (case DecodeNode data (nk_Version key) of
              Inl err \<Rightarrow> Inl (wrapE ''failed to decode node'' err)
            | Inr node \<Rightarrow> Inr (Some node)))"

definition loadValue :: "(bytes \<Rightarrow> hash) \<Rightarrow> TreeReader \<Rightarrow> hash \<Rightarrow> bytes result" where
  "loadValue H r hash =
     (case Snapshot_Get (rd_snapshot r) (DefaultKeyEncoder_ValueKey hash) of
        Inl err \<Rightarrow> Inl (wrapE ''failed to load value'' err)
      | Inr data \<Rightarrow>
          let result = (case data of Some b \<Rightarrow> b | None \<Rightarrow> [])
          in if H result \<noteq> hash then Inl (Errorf ''value hash mismatch'') else Inr result)"

text \<open>A leaf on the way: the value of the key, or nothing for another key.\<close>

definition readLeaf :: "(bytes \<Rightarrow> hash) \<Rightarrow> TreeReader \<Rightarrow> key \<Rightarrow> LeafNode \<Rightarrow> bytes option result" where
  "readLeaf H r key node =
     (if l_key node = key then bindE (loadValue H r (l_valueHash node)) (\<lambda>b. Inr (Some b)) else Inr None)"

text \<open>The traversal from \<open>depth\<close>, with \<open>left\<close> iterations to go.\<close>

fun readLoop :: "(bytes \<Rightarrow> hash) \<Rightarrow> TreeReader \<Rightarrow> key \<Rightarrow> NibblePath \<Rightarrow> nat \<Rightarrow> nat \<Rightarrow> Node \<Rightarrow> bytes option result" where
  "readLoop H r key path depth 0 current =
     (case current of Leaf node \<Rightarrow> readLeaf H r key node | Internal _ \<Rightarrow> Inl ErrMaxDepthExceeded)"
| "readLoop H r key path depth (Suc left) current =
     (case current of
        Leaf node \<Rightarrow> readLeaf H r key node
      | Internal node \<Rightarrow>
          bindE (idx (Nibbles path) depth) (\<lambda>nibble.
            case InternalNode_Child node nibble of
              None \<Rightarrow> Inr None
            | Some child \<Rightarrow>
                if c_Version child > rd_version r then Inr None
                else bindE (Reader_loadNode r \<lparr>nk_Version = c_Version child,
                        nk_NibblePath = \<lparr>Nibbles = take (depth + 1) (Nibbles path), Length = of_nat (depth + 1)\<rparr>\<rparr>)
                  (\<lambda>next. case next of None \<Rightarrow> Inr None | Some n \<Rightarrow> readLoop H r key path (depth + 1) left n)))"

definition Reader_Get :: "(bytes \<Rightarrow> hash) \<Rightarrow> TreeReader \<Rightarrow> key \<Rightarrow> bytes option result" where
  "Reader_Get H r key =
     bindE (Reader_loadNode r (RootNodeKey (rd_version r))) (\<lambda>root.
       case root of None \<Rightarrow> Inr None
       | Some n \<Rightarrow> bindE (ToNibblePath key) (\<lambda>path. readLoop H r key path 0 MaxTreeDepth n))"

definition Tree_Get :: "(bytes \<Rightarrow> hash) \<Rightarrow> Tree \<Rightarrow> version \<Rightarrow> key \<Rightarrow> bytes option result \<times> Tree" where
  "Tree_Get H t version key =
     (case validateVersion version of Inl err \<Rightarrow> (Inl err, t) | Inr _ \<Rightarrow>
      case validateKey key of Inl err \<Rightarrow> (Inl err, t) | Inr _ \<Rightarrow>
      case gm_get (t_rootHashes t) version of
        None \<Rightarrow> (Inl ErrVersionNotFound, t)
      | Some rootHash \<Rightarrow>
          if rootHash = EmptyHash then (Inr None, t)
          else let (snap, db1) = NewSnapshot (t_db t);
                   reader = \<lparr>rd_snapshot = snap, rd_version = version, rd_rootHash = rootHash\<rparr>
               in (Reader_Get H reader key, t\<lparr>t_db := snd (Snapshot_Close snap db1)\<rparr>))"

definition Tree_Reader :: "Tree \<Rightarrow> version \<Rightarrow> TreeReader result \<times> Tree" where
  "Tree_Reader t version =
     (case gm_get (t_rootHashes t) version of
        None \<Rightarrow> (Inl ErrVersionNotFound, t)
      | Some rootHash \<Rightarrow>
          let (snap, db1) = NewSnapshot (t_db t)
          in (Inr \<lparr>rd_snapshot = snap, rd_version = version, rd_rootHash = rootHash\<rparr>, t\<lparr>t_db := db1\<rparr>))"

definition Reader_Close :: "TreeReader \<Rightarrow> Tree \<Rightarrow> TreeReader \<times> Tree" where
  "Reader_Close r t =
     (let (snap, db1) = Snapshot_Close (rd_snapshot r) (t_db t) in (r\<lparr>rd_snapshot := snap\<rparr>, t\<lparr>t_db := db1\<rparr>))"

definition GetAtVersion :: "(bytes \<Rightarrow> hash) \<Rightarrow> Tree \<Rightarrow> version \<Rightarrow> key \<Rightarrow> bytes option result \<times> Tree" where
  "GetAtVersion H t version key =
     (case GetVersion version (t_versionManager t) of
        Inl err \<Rightarrow> (Inl err, t)
      | Inr info \<Rightarrow>
          if vi_Status info \<noteq> VersionStatusCommitted then (Inl (Errorf ''version not committed''), t)
          else Tree_Get H t version key)"

section \<open>Versions and updates\<close>

definition withVM :: "('a \<times> VersionManager) \<Rightarrow> Tree \<Rightarrow> 'a \<times> Tree" where
  "withVM r t = (fst r, t\<lparr>t_versionManager := snd r\<rparr>)"

definition BeginVersion :: "int \<Rightarrow> Tree \<Rightarrow> version result \<times> Tree" where
  "BeginVersion now t =
     (let current = GetLatestCommitted (t_versionManager t)
      in withVM (Begin now current (t_versionManager t)) t)"

definition AbortVersion :: "version \<Rightarrow> Tree \<Rightarrow> unit result \<times> Tree" where
  "AbortVersion version t = withVM (Abort version (t_versionManager t)) t"

text \<open>
  The part that \<open>PutVersioned\<close> and \<open>DeleteVersioned\<close> share: find the pending version, give it an updater
  if it has none, run the operation on it and count it. The updater is a pointer in the source, so it is
  stored back also when the operation fails.
\<close>

definition updateVersioned :: "string \<Rightarrow> version \<Rightarrow> (TreeUpdater \<Rightarrow> 'a result \<times> TreeUpdater) \<Rightarrow> Tree \<Rightarrow> unit result \<times> Tree" where
  "updateVersioned msg version f t =
     (case GetPending version (t_versionManager t) of
        None \<Rightarrow> (Inl (Errorf ''version not pending''), t)
      | Some pending \<Rightarrow>
          let tu = (case pv_updater pending of None \<Rightarrow> NewTreeUpdater (pv_parent pending) version | Some u \<Rightarrow> u);
              (res, tu1) = f tu;
              vm1 = snd (SetPendingUpdater version tu1 (t_versionManager t))
          in case res of
               Inl err \<Rightarrow> (Inl (wrapE msg err), t\<lparr>t_versionManager := vm1\<rparr>)
             | Inr _ \<Rightarrow> (Inr (), t\<lparr>t_versionManager := snd (IncrementOperations version vm1)\<rparr>))"

definition PutVersioned :: "(bytes \<Rightarrow> hash) \<Rightarrow> version \<Rightarrow> key \<Rightarrow> bytes \<Rightarrow> Tree \<Rightarrow> unit result \<times> Tree" where
  "PutVersioned H version key val t =
     (case validateVersion version of Inl err \<Rightarrow> (Inl (wrapE ''invalid version'' err), t) | Inr _ \<Rightarrow>
      case validateKey key of Inl err \<Rightarrow> (Inl (wrapE ''invalid key'' err), t) | Inr _ \<Rightarrow>
      case validateValue val of Inl err \<Rightarrow> (Inl (wrapE ''invalid value'' err), t) | Inr _ \<Rightarrow>
      updateVersioned ''put failed'' version (TreeUpdater_Put H (loadNodeFromStorage (t_db t)) key val) t)"

definition DeleteVersioned :: "(bytes \<Rightarrow> hash) \<Rightarrow> version \<Rightarrow> key \<Rightarrow> Tree \<Rightarrow> unit result \<times> Tree" where
  "DeleteVersioned H version key t =
     (case validateVersion version of Inl err \<Rightarrow> (Inl (wrapE ''invalid version'' err), t) | Inr _ \<Rightarrow>
      case validateKey key of Inl err \<Rightarrow> (Inl (wrapE ''invalid key'' err), t) | Inr _ \<Rightarrow>
      updateVersioned ''delete failed'' version (TreeUpdater_Delete H (loadNodeFromStorage (t_db t)) key) t)"

section \<open>Committing\<close>

text \<open>The loop that writes the new nodes and the values of the leaves into the batch.\<close>

fun writeNodes :: "(bytes \<times> NodeWrite) list \<Rightarrow> Batch \<Rightarrow> unit result \<times> Batch" where
  "writeNodes [] b = (Inr (), b)"
| "writeNodes ((s, w) # rest) b =
     (case EncodeNode (Some (nw_Node w)) of
        Inl err \<Rightarrow> (Inl (wrapE ''failed to encode node'' err), b)
      | Inr data \<Rightarrow>
          (case DefaultKeyEncoder_NodeKey (nw_Key w) of
             Inl e \<Rightarrow> (Inl e, b)
           | Inr storageKey \<Rightarrow>
               (case Batch_Put b storageKey data of
                  (Inl err, b1) \<Rightarrow> (Inl (wrapE ''failed to write node'' err), b1)
                | (Inr _, b1) \<Rightarrow>
                    (case nw_Node w of
                       Leaf leaf \<Rightarrow>
                         (case l_value leaf of
                            Some val \<Rightarrow>
                              (case Batch_Put b1 (DefaultKeyEncoder_ValueKey (l_valueHash leaf)) val of
                                 (Inl err, b2) \<Rightarrow> (Inl (wrapE ''failed to write value'' err), b2)
                               | (Inr _, b2) \<Rightarrow> writeNodes rest b2)
                          | None \<Rightarrow> writeNodes rest b1)
                     | Internal _ \<Rightarrow> writeNodes rest b1))))"

text \<open>
  From the batch of the version to the storage: the writes, the root hash, the commit of the storage batch,
  and then the state in memory. The deferred \<open>Close\<close> of the storage batch runs on every path.
\<close>

definition commitBatch :: "int \<Rightarrow> version \<Rightarrow> UpdateBatch \<Rightarrow> Tree \<Rightarrow> unit result \<times> Tree" where
  "commitBatch now version batch t =
     (let (wb, db1) = NewBatch (t_db t);
          fail = (\<lambda>err b. (Inl err, t\<lparr>t_db := snd (Batch_Close b db1)\<rparr>))
      in case writeNodes (NewNodes batch) wb of
           (Inl err, b1) \<Rightarrow> fail err b1
         | (Inr _, b1) \<Rightarrow>
             (case Batch_Put b1 (DefaultKeyEncoder_RootKey version) (NewRootHash batch) of
                (Inl err, b2) \<Rightarrow> fail (wrapE ''failed to write root'' err) b2
              | (Inr _, b2) \<Rightarrow>
                  (case Batch_Commit b2 db1 of
                     (Inl err, b3, db2) \<Rightarrow> (Inl (wrapE ''storage commit failed'' err), t\<lparr>t_db := snd (Batch_Close b3 db2)\<rparr>)
                   | (Inr _, b3, db2) \<Rightarrow>
                       let t1 = t\<lparr>t_db := snd (Batch_Close b3 db2),
                                  t_rootHashes := gm_put version (NewRootHash batch) (t_rootHashes t),
                                  t_latestVer := (if version > t_latestVer t then version else t_latestVer t)\<rparr>;
                           nodeCount = int (length (NewNodes batch))
                       in case VersionManager_Commit now version (NewRootHash batch) nodeCount (t_versionManager t1) of
                            (Inl err, vm) \<Rightarrow> (Inl (Panic ''version manager commit failed after storage commit''), t1\<lparr>t_versionManager := vm\<rparr>)
                          | (Inr _, vm) \<Rightarrow>
                              (Inr (), t1\<lparr>t_versionManager := vm,
                                 t_stats := UpdateVersion (sint version) (UpdateNodeCount nodeCount (t_stats t1))\<rparr>))))"

definition CommitVersion :: "(bytes \<Rightarrow> hash) \<Rightarrow> int \<Rightarrow> version \<Rightarrow> Tree \<Rightarrow> unit result \<times> Tree" where
  "CommitVersion H now version t =
     (case GetPending version (t_versionManager t) of
        None \<Rightarrow> (Inl (Errorf ''version not pending''), t)
      | Some pending \<Rightarrow>
          (case pv_updater pending of
             None \<Rightarrow>
               let rootHash = (if pv_parent pending > 0
                               then (case GetRootHash t (pv_parent pending) of Inr h \<Rightarrow> h | Inl _ \<Rightarrow> EmptyHash)
                               else EmptyHash);
                   t1 = t\<lparr>t_rootHashes := gm_put version rootHash (t_rootHashes t),
                          t_latestVer := (if version > t_latestVer t then version else t_latestVer t)\<rparr>
               in withVM (VersionManager_Commit now version rootHash 0 (t_versionManager t1)) t1
           | Some tu \<Rightarrow>
               let load = loadNodeFromStorage (t_db t)
               in case (if cf_UseParallelBatching (t_config t) then BuildUpdateBatchParallel H load tu
                        else BuildUpdateBatch H load tu) of
                    Inl err \<Rightarrow> (Inl (wrapE ''failed to build batch'' err), t)
                  | Inr batch \<Rightarrow>
                      (case (case cf_BatchOptimizer (t_config t) of None \<Rightarrow> Inr batch | Some bo \<Rightarrow> OptimizeBatch bo batch) of
                         Inl err \<Rightarrow> (Inl (wrapE ''failed to optimize batch'' err), t)
                       | Inr batch1 \<Rightarrow> commitBatch now version batch1 t)))"

section \<open>Put and Delete\<close>

text \<open>On an error the version is aborted; a panic is not caught.\<close>

definition abortWith :: "string \<Rightarrow> version \<Rightarrow> error \<Rightarrow> Tree \<Rightarrow> 'a result \<times> Tree" where
  "abortWith msg version err t =
     (if is_panic err then (Inl err, t) else (Inl (Wrapf msg err), snd (AbortVersion version t)))"

definition Tree_Put :: "(bytes \<Rightarrow> hash) \<Rightarrow> int \<Rightarrow> key \<Rightarrow> bytes \<Rightarrow> Tree \<Rightarrow> version result \<times> Tree" where
  "Tree_Put H now key val t =
     (case validateKey key of Inl err \<Rightarrow> (Inl (wrapE ''invalid key'' err), t) | Inr _ \<Rightarrow>
      case validateValue val of Inl err \<Rightarrow> (Inl (wrapE ''invalid value'' err), t) | Inr _ \<Rightarrow>
      case BeginVersion now t of
        (Inl err, t1) \<Rightarrow> (Inl (wrapE ''failed to begin version'' err), t1)
      | (Inr version, t1) \<Rightarrow>
          (case PutVersioned H version key val t1 of
             (Inl err, t2) \<Rightarrow> abortWith ''failed to put'' version err t2
           | (Inr _, t2) \<Rightarrow>
               (case CommitVersion H now version t2 of
                  (Inl err, t3) \<Rightarrow> abortWith ''failed to commit'' version err t3
                | (Inr _, t3) \<Rightarrow> (Inr version, t3))))"

definition Tree_Delete :: "(bytes \<Rightarrow> hash) \<Rightarrow> int \<Rightarrow> key \<Rightarrow> Tree \<Rightarrow> version result \<times> Tree" where
  "Tree_Delete H now key t =
     (case BeginVersion now t of
        (Inl err, t1) \<Rightarrow> (Inl (wrapE ''failed to begin version'' err), t1)
      | (Inr version, t1) \<Rightarrow>
          (case DeleteVersioned H version key t1 of
             (Inl err, t2) \<Rightarrow> abortWith ''failed to delete'' version err t2
           | (Inr _, t2) \<Rightarrow>
               (case CommitVersion H now version t2 of
                  (Inl err, t3) \<Rightarrow> abortWith ''failed to commit'' version err t3
                | (Inr _, t3) \<Rightarrow> (Inr version, t3))))"

definition CollectVersionGarbage :: "(nat \<Rightarrow> nat) \<Rightarrow> int \<Rightarrow> Tree \<Rightarrow> version list result \<times> Tree" where
  "CollectVersionGarbage cap now t =
     (case CollectGarbage cap now (t_versionManager t) of
        (Inl err, vm) \<Rightarrow> (Inl (wrapE ''version GC failed'' err), t\<lparr>t_versionManager := vm\<rparr>)
      | (Inr removed, vm) \<Rightarrow>
          (Inr removed, t\<lparr>t_versionManager := vm, t_rootHashes := foldl (\<lambda>m v. gm_del v m) (t_rootHashes t) removed\<rparr>))"

definition SetVersionRetentionPolicy :: "VersionRetentionPolicy \<Rightarrow> int \<Rightarrow> int \<Rightarrow> Tree \<Rightarrow> Tree" where
  "SetVersionRetentionPolicy policy minVersions age t =
     t\<lparr>t_versionManager := SetRetentionPolicy policy minVersions age (t_versionManager t)\<rparr>"

definition GetStats :: "Tree \<Rightarrow> int \<times> int \<times> int" where
  "GetStats t = (st_height (t_stats t), st_nodeCount (t_stats t), st_version (t_stats t))"

end
