(* ===== verification/MerkleSpec.thy ===== *)
theory MerkleSpec
  imports Codec
begin

text \<open>
  The abstract specification of a tree version. The contents of a version are a map from keys to value
  hashes; \<open>merkle\<close> is the root hash the contents determine, computed over the full trie of depth 64, and
  \<open>rep\<close> says that the nodes a loader returns under a version and a path represent the contents below that
  path. Both depend only on the keys below the path, and \<open>rep\<close> only on the nodes below it with versions
  up to the given one, which is what makes copy-on-write sound.
\<close>

type_synonym contents = "key \<rightharpoonup> hash"

section \<open>Paths and keys\<close>

definition ext :: "nibble list \<Rightarrow> nibble list \<Rightarrow> bool" where
  "ext p q \<longleftrightarrow> take (length p) q = p"

definition below :: "nibble list \<Rightarrow> key \<Rightarrow> bool" where
  "below p k \<longleftrightarrow> ext p (nibbles_of k)"

lemma ext_refl [simp]: "ext p p" by (simp add: ext_def)

lemma ext_Nil [simp]: "ext [] q" by (simp add: ext_def)

lemma ext_length: "ext p q \<Longrightarrow> length p \<le> length q"
  by (metis ext_def length_take min.absorb_iff2 min.commute)

lemma ext_take: "d \<le> length q \<Longrightarrow> ext (take d q) q"
  by (simp add: ext_def)

lemma ext_snoc: "ext (p @ [n]) q \<longleftrightarrow> ext p q \<and> length p < length q \<and> q ! length p = n"
proof
  assume e: "ext (p @ [n]) q"
  then have l: "length p < length q" using ext_length by fastforce
  with e show "ext p q \<and> length p < length q \<and> q ! length p = n"
    by (simp add: ext_def take_Suc_conv_app_nth)
qed (auto simp: ext_def take_Suc_conv_app_nth)

lemma ext_take_iff: "ext p q \<Longrightarrow> length p \<le> d \<Longrightarrow> ext p (take d q)"
  by (simp add: ext_def min_absorb1 take_take)

lemma below_snoc: "length p < MaxTreeDepth \<Longrightarrow> below (p @ [n]) k \<longleftrightarrow> below p k \<and> nibble_at k (length p) = n"
  by (auto simp: below_def ext_snoc)

lemma below_Nil [simp]: "below [] k" by (simp add: below_def)

lemma below_take [simp]: "d \<le> MaxTreeDepth \<Longrightarrow> below (take d (nibbles_of k)) k"
  by (simp add: below_def ext_take)

lemma pack_concat: "even (length ns) \<Longrightarrow> wf_nibbles ns \<Longrightarrow>
   concat (map (\<lambda>b. [drop_bit 4 b, b AND 0x0F]) (pack ns)) = ns"
  by (induction ns rule: pack.induct) (auto simp: wf_nibbles_def)

lemma pack_pairs: "pack (concat (map (\<lambda>b. [drop_bit 4 b, b AND 0x0F]) k)) = k"
  by (induction k) auto

lemma pack_nibbles_of: "wf_key k \<Longrightarrow> pack (nibbles_of k) = k"
  by (simp add: nibbles_of_concat pack_pairs)

lemma wf_key_pack: "length ns = MaxTreeDepth \<Longrightarrow> wf_key (pack ns)"
  by (simp add: wf_key_def size_defs)

lemma nibbles_of_pack: "length ns = MaxTreeDepth \<Longrightarrow> wf_nibbles ns \<Longrightarrow> nibbles_of (pack ns) = ns"
  using pack_concat [of ns] by (simp add: nibbles_of_concat wf_key_pack) (simp add: MaxTreeDepth_def)

lemma below_full: "wf_key k \<Longrightarrow> wf_nibbles p \<Longrightarrow> length p = MaxTreeDepth \<Longrightarrow> below p k \<longleftrightarrow> k = pack p"
  by (auto simp: below_def ext_def pack_nibbles_of nibbles_of_pack)

section \<open>The root hash of the contents\<close>

fun merkle :: "(bytes \<Rightarrow> hash) \<Rightarrow> contents \<Rightarrow> nibble list \<Rightarrow> nat \<Rightarrow> hash option" where
  "merkle H m p 0 = map_option (\<lambda>vh. H (leaf_preimage (pack p) vh)) (m (pack p))"
| "merkle H m p (Suc r) =
     (if \<forall>n \<in> set nibble_range. merkle H m (p @ [n]) r = None then None
      else Some (H (internal_preimage (\<lambda>n. merkle H m (p @ [n]) r))))"

definition merkle_root :: "(bytes \<Rightarrow> hash) \<Rightarrow> contents \<Rightarrow> hash" where
  "merkle_root H m = (case merkle H m [] MaxTreeDepth of None \<Rightarrow> EmptyHash | Some h \<Rightarrow> h)"

text \<open>The inputs of the hash function in that computation.\<close>

fun merkle_inputs :: "(bytes \<Rightarrow> hash) \<Rightarrow> contents \<Rightarrow> nibble list \<Rightarrow> nat \<Rightarrow> bytes set" where
  "merkle_inputs H m p 0 = (case m (pack p) of None \<Rightarrow> {} | Some vh \<Rightarrow> {leaf_preimage (pack p) vh})"
| "merkle_inputs H m p (Suc r) =
     (if merkle H m p (Suc r) = None then {}
      else insert (internal_preimage (\<lambda>n. merkle H m (p @ [n]) r))
             (\<Union>n \<in> set nibble_range. merkle_inputs H m (p @ [n]) r))"

lemma merkle_cong:
  assumes "\<And>k. wf_key k \<Longrightarrow> below p k \<Longrightarrow> m' k = m k" and "wf_nibbles p" and "length p + r = MaxTreeDepth"
  shows "merkle H m' p r = merkle H m p r"
  using assms
proof (induction r arbitrary: p)
  case 0
  then have "below p (pack p)" by (simp add: below_def nibbles_of_pack)
  with 0 have "m' (pack p) = m (pack p)" by (simp add: wf_key_pack)
  then show ?case by simp
next
  case (Suc r)
  have "merkle H m' (p @ [n]) r = merkle H m (p @ [n]) r" if "n \<in> set nibble_range" for n
    using Suc.prems that by (intro Suc.IH) (auto simp: below_snoc nibble_range_iff intro!: wf_nibbles_snoc)
  then show ?case by (simp cong: ball_cong) (auto simp: nibble_range_iff intro!: arg_cong [where f = H] internal_preimage_cong)
qed

lemma merkle_None_iff:
  assumes "wf_nibbles p" and "length p + r = MaxTreeDepth"
  shows "merkle H m p r = None \<longleftrightarrow> (\<forall>k. wf_key k \<longrightarrow> below p k \<longrightarrow> m k = None)"
  using assms
proof (induction r arbitrary: p)
  case 0
  then show ?case by (auto simp: below_full wf_key_pack)
next
  case (Suc r)
  have "merkle H m (p @ [n]) r = None \<longleftrightarrow> (\<forall>k. wf_key k \<longrightarrow> below p k \<longrightarrow> nibble_at k (length p) = n \<longrightarrow> m k = None)"
    if "n \<in> set nibble_range" for n
    using Suc.prems that by (subst Suc.IH) (auto simp: below_snoc nibble_range_iff intro!: wf_nibbles_snoc)
  then have "merkle H m p (Suc r) = None \<longleftrightarrow>
     (\<forall>n \<in> set nibble_range. \<forall>k. wf_key k \<longrightarrow> below p k \<longrightarrow> nibble_at k (length p) = n \<longrightarrow> m k = None)"
    by simp
  then show ?case by (auto simp: nibble_range_iff)
qed

lemma merkle_empty [simp]: "merkle H Map.empty p r = None"
  by (induction r arbitrary: p) auto

section \<open>Nodes that represent contents\<close>

definition leaf_ok :: "LeafNode \<Rightarrow> bool" where
  "leaf_ok l \<longleftrightarrow> wf_node (Leaf l) \<and> l_cachedHash l = None \<and> ValidateKey (l_key l) = Inr ()"

fun rep :: "(NodeKey \<Rightarrow> Node result) \<Rightarrow> (bytes \<Rightarrow> hash) \<Rightarrow> contents \<Rightarrow> version \<Rightarrow> nibble list \<Rightarrow> nat \<Rightarrow> bool" where
  "rep g H m v p 0 =
     (\<exists>l. g (nkey v p) = Inr (Leaf l) \<and> leaf_ok l \<and> l_key l = pack p \<and> m (pack p) = Some (l_valueHash l))"
| "rep g H m v p (Suc r) =
     (\<exists>i. g (nkey v p) = Inr (Internal i) \<and> wf_node (Internal i) \<and> i_cachedHash i = None \<and> i_children i \<noteq> []
       \<and> (\<forall>n \<le> MaxNibbleValue. case gm_get (i_children i) n of
            None \<Rightarrow> merkle H m (p @ [n]) r = None
          | Some c \<Rightarrow> merkle H m (p @ [n]) r = Some (c_Hash c) \<and> c_IsLeaf c = (r = 0)
              \<and> 0 < c_Version c \<and> c_Version c \<le> v \<and> rep g H m (c_Version c) (p @ [n]) r))"

definition child_ok :: "(NodeKey \<Rightarrow> Node result) \<Rightarrow> (bytes \<Rightarrow> hash) \<Rightarrow> contents \<Rightarrow> version \<Rightarrow> nibble list \<Rightarrow> nat
    \<Rightarrow> InternalNode \<Rightarrow> nibble \<Rightarrow> bool" where
  "child_ok g H m v p r i n =
     (case gm_get (i_children i) n of
        None \<Rightarrow> merkle H m (p @ [n]) r = None
      | Some c \<Rightarrow> merkle H m (p @ [n]) r = Some (c_Hash c) \<and> c_IsLeaf c = (r = 0)
          \<and> 0 < c_Version c \<and> c_Version c \<le> v \<and> rep g H m (c_Version c) (p @ [n]) r)"

lemma rep_Suc:
  "rep g H m v p (Suc r) \<longleftrightarrow>
     (\<exists>i. g (nkey v p) = Inr (Internal i) \<and> wf_node (Internal i) \<and> i_cachedHash i = None \<and> i_children i \<noteq> []
       \<and> (\<forall>n \<le> MaxNibbleValue. child_ok g H m v p r i n))"
  unfolding child_ok_def rep.simps ..

declare rep.simps(2) [simp del]

lemma gm_get_children_nibble:
  "wf_node (Internal i) \<Longrightarrow> gm_get (i_children i) n = Some c \<Longrightarrow> n \<le> MaxNibbleValue"
  by (auto dest!: map_of_SomeD)

lemma merkle_internal:
  assumes "wf_node (Internal i)" and "i_children i \<noteq> []"
    and "\<forall>n \<le> MaxNibbleValue. merkle H m (p @ [n]) r = child_hash i n"
  shows "merkle H m p (Suc r) = Some (H (preimage (Internal i)))"
proof -
  obtain n c where nc: "gm_get (i_children i) n = Some c"
    using assms(2) by (metis gm_Nil_iff not_None_eq)
  then have "n \<in> set nibble_range" "merkle H m (p @ [n]) r \<noteq> None"
    using gm_get_children_nibble [OF assms(1) nc] assms(3) by (auto simp: nibble_range_iff child_hash_def)
  moreover have "internal_preimage (\<lambda>n. merkle H m (p @ [n]) r) = internal_preimage (child_hash i)"
    using assms(3) by (intro internal_preimage_cong) simp
  ultimately show ?thesis by (auto simp: preimage_def)
qed

lemma rep_hash:
  assumes "rep g H m v p r"
  shows "\<exists>n. g (nkey v p) = Inr n \<and> wf_node n \<and> cache_ok H n \<and> merkle H m p r = Some (Node_Hash H n)
    \<and> (Node_Type n = NodeTypeLeaf) = (r = 0)"
proof (cases r)
  case 0
  with assms show ?thesis
    by (auto simp: leaf_ok_def LeafNode_Hash_def LeafNode_computeHash_eq Let_def)
next
  case (Suc r')
  obtain i where i: "g (nkey v p) = Inr (Internal i)" "wf_node (Internal i)" "i_cachedHash i = None"
    "i_children i \<noteq> []" and ch: "\<And>n. n \<le> MaxNibbleValue \<Longrightarrow> (case gm_get (i_children i) n of
            None \<Rightarrow> merkle H m (p @ [n]) r' = None
          | Some c \<Rightarrow> merkle H m (p @ [n]) r' = Some (c_Hash c) \<and> c_IsLeaf c = (r' = 0)
              \<and> 0 < c_Version c \<and> c_Version c \<le> v \<and> rep g H m (c_Version c) (p @ [n]) r')"
    using assms unfolding Suc rep.simps(2) by blast
  have eq: "\<forall>n \<le> MaxNibbleValue. merkle H m (p @ [n]) r' = child_hash i n"
  proof (intro allI impI)
    fix n :: nibble
    assume "n \<le> MaxNibbleValue"
    from ch [OF this] show "merkle H m (p @ [n]) r' = child_hash i n"
      by (simp add: child_hash_def split: option.splits)
  qed
  have "cache_ok H (Internal i)" using i(3) by simp
  with i show ?thesis
    unfolding Suc merkle_internal [OF i(2,4) eq]
    by (intro exI [where x = "Internal i"]) (simp add: Node_Hash_preimage NodeTypeLeaf_def NodeTypeInternal_def del: Node_Hash.simps)
qed

lemma rep_nonempty: "rep g H m v p r \<Longrightarrow> merkle H m p r \<noteq> None"
  using rep_hash by fastforce

lemma rep_frame:
  assumes "rep g H m v p r" and "wf_nibbles p" and "length p + r = MaxTreeDepth"
    and "\<And>w q. w \<le> v \<Longrightarrow> wf_nibbles q \<Longrightarrow> ext p q \<Longrightarrow> g' (nkey w q) = g (nkey w q)"
    and "\<And>k. wf_key k \<Longrightarrow> below p k \<Longrightarrow> m' k = m k"
  shows "rep g' H m' v p r"
  using assms
proof (induction r arbitrary: v p)
  case 0
  then have "m' (pack p) = m (pack p)" by (simp add: wf_key_pack below_def nibbles_of_pack)
  with 0 show ?case by auto
next
  case (Suc r)
  from Suc.prems(1) obtain i where i: "g (nkey v p) = Inr (Internal i)" "wf_node (Internal i)" "i_cachedHash i = None"
    "i_children i \<noteq> []"
    and ch: "\<And>n. n \<le> MaxNibbleValue \<Longrightarrow> (case gm_get (i_children i) n of
            None \<Rightarrow> merkle H m (p @ [n]) r = None
          | Some c \<Rightarrow> merkle H m (p @ [n]) r = Some (c_Hash c) \<and> c_IsLeaf c = (r = 0)
              \<and> 0 < c_Version c \<and> c_Version c \<le> v \<and> rep g H m (c_Version c) (p @ [n]) r)"
    unfolding rep.simps(2) by blast
  have len: "length p < MaxTreeDepth" using Suc.prems(3) by simp
  have "case gm_get (i_children i) n of
            None \<Rightarrow> merkle H m' (p @ [n]) r = None
          | Some c \<Rightarrow> merkle H m' (p @ [n]) r = Some (c_Hash c) \<and> c_IsLeaf c = (r = 0)
              \<and> 0 < c_Version c \<and> c_Version c \<le> v \<and> rep g' H m' (c_Version c) (p @ [n]) r"
    if n: "n \<le> MaxNibbleValue" for n
  proof -
    have wf: "wf_nibbles (p @ [n])" using Suc.prems(2) n len by (simp add: wf_nibbles_snoc)
    have m: "merkle H m' (p @ [n]) r = merkle H m (p @ [n]) r"
      using wf Suc.prems(3,5) len by (intro merkle_cong) (auto simp: below_snoc)
    have "rep g' H m' w (p @ [n]) r" if "rep g H m w (p @ [n]) r" "w \<le> v" for w
      using that wf Suc.prems(3,4,5) len by (intro Suc.IH [of w "p @ [n]"]) (auto simp: below_snoc ext_snoc)
    with m ch [OF n] show ?thesis by (auto split: option.splits)
  qed
  moreover have "g' (nkey v p) = g (nkey v p)" using Suc.prems(2,4) by simp
  ultimately show ?case using i unfolding rep.simps(2) by auto
qed

text \<open>The contents are determined by the nodes: the key lookup along the path.\<close>

lemma rep_merkle_root: "rep g H m v [] MaxTreeDepth \<Longrightarrow> g (nkey v []) = Inr n \<Longrightarrow> merkle_root H m = Node_Hash H n"
  using rep_hash [of g H m v "[]" MaxTreeDepth] by (auto simp: merkle_root_def)


lemma child_ok_frame:
  assumes "child_ok g H m v p r i n" and "wf_nibbles (p @ [n])" and "length p + Suc r = MaxTreeDepth"
    and "\<And>w q. w \<le> v \<Longrightarrow> wf_nibbles q \<Longrightarrow> ext (p @ [n]) q \<Longrightarrow> g' (nkey w q) = g (nkey w q)"
    and "\<And>k. wf_key k \<Longrightarrow> below (p @ [n]) k \<Longrightarrow> m' k = m k"
    and "gm_get (i_children i') n = gm_get (i_children i) n" and "v \<le> v'"
  shows "child_ok g' H m' v' p r i' n"
proof -
  have m: "merkle H m' (p @ [n]) r = merkle H m (p @ [n]) r"
    using assms(2,3,5) by (intro merkle_cong) auto
  have "rep g' H m' w (p @ [n]) r" if "rep g H m w (p @ [n]) r" "w \<le> v" for w
    using that assms(2-5) by (intro rep_frame [OF that(1)]) auto
  with assms(1,6,7) m show ?thesis by (auto simp: child_ok_def split: option.splits)
qed

section \<open>Equal hashes at different paths are collisions\<close>

definition collides :: "(bytes \<Rightarrow> hash) \<Rightarrow> bytes set \<Rightarrow> bool" where
  "collides H S \<longleftrightarrow> (\<exists>x \<in> S. \<exists>y \<in> S. x \<noteq> y \<and> H x = H y)"

lemma collides_mono: "collides H S \<Longrightarrow> S \<subseteq> S' \<Longrightarrow> collides H S'"
  unfolding collides_def by blast

lemma pack_inject:
  "length p = MaxTreeDepth \<Longrightarrow> wf_nibbles p \<Longrightarrow> length q = MaxTreeDepth \<Longrightarrow> wf_nibbles q \<Longrightarrow> pack p = pack q \<longleftrightarrow> p = q"
  by (metis nibbles_of_pack)

lemma merkle_SomeD:
  assumes "merkle H m p (Suc r) = Some h"
  obtains n where "n \<le> MaxNibbleValue" "merkle H m (p @ [n]) r \<noteq> None"
    "h = H (internal_preimage (\<lambda>n. merkle H m (p @ [n]) r))"
  using assms by (auto simp: nibble_range_iff split: if_splits)

lemma merkle_length: "(\<And>x. wf_hash (H x)) \<Longrightarrow> merkle H m p r = Some h \<Longrightarrow> length h = 32"
  by (cases r) (auto simp: wf_hash_def HashSize_def split: if_splits)

lemma wf_merkle_root: "(\<And>x. wf_hash (H x)) \<Longrightarrow> wf_hash (merkle_root H c)"
  using merkle_length [of H c "[]" MaxTreeDepth] by (simp add: merkle_root_def wf_hash_def HashSize_def EmptyHash_def split: option.split)

lemma merkle_input: "merkle H m p r = Some h \<Longrightarrow> \<exists>x \<in> merkle_inputs H m p r. H x = h"
  by (cases r) (auto split: if_splits)

lemma merkle_inputs_None: "merkle H m p r = None \<Longrightarrow> merkle_inputs H m p r = {}"
  by (cases r) auto

lemma merkle_distinct:
  assumes H: "\<And>x. wf_hash (H x)"
    and "wf_nibbles p" and "length p + r = MaxTreeDepth" and "wf_nibbles q" and "length q + s = MaxTreeDepth"
    and "p \<noteq> q" and "merkle H m p r = Some h" and "merkle H m' q s = Some h"
  shows "collides H (merkle_inputs H m p r \<union> merkle_inputs H m' q s)"
  using assms(2-)
proof (induction r arbitrary: p q s h)
  case 0
  then show ?case
    by (cases s) (auto simp: collides_def pack_inject leaf_preimage_inject wf_key_pack split: if_splits)
next
  case (Suc r)
  show ?case
  proof (cases s)
    case 0
    with Suc.prems show ?thesis by (auto simp: collides_def split: if_splits)
  next
    case s: (Suc s')
    let ?f = "\<lambda>n. merkle H m (p @ [n]) r" and ?g = "\<lambda>n. merkle H m' (q @ [n]) s'"
    obtain n where n: "n \<le> MaxNibbleValue" "?f n \<noteq> None" and h: "h = H (internal_preimage ?f)"
      using Suc.prems(6) by (rule merkle_SomeD)
    have h': "h = H (internal_preimage ?g)" using Suc.prems(7) unfolding s by (rule merkle_SomeD)
    have in1: "internal_preimage ?f \<in> merkle_inputs H m p (Suc r)" and in2: "internal_preimage ?g \<in> merkle_inputs H m' q s"
      using Suc.prems(6,7) s by (auto split: if_splits)
    show ?thesis
    proof (cases "internal_preimage ?f = internal_preimage ?g")
      case False
      with in1 in2 h h' show ?thesis by (auto simp: collides_def)
    next
      case True
      then have eq: "?f n = ?g n"
        using n(1) merkle_length [OF H] by (intro internal_preimage_inject) auto
      then obtain h1 where h1: "?f n = Some h1" "?g n = Some h1" using n(2) by auto
      have wf: "wf_nibbles (p @ [n])" "wf_nibbles (q @ [n])"
        using Suc.prems(1-4) s n(1) by (auto intro!: wf_nibbles_snoc)
      have "collides H (merkle_inputs H m (p @ [n]) r \<union> merkle_inputs H m' (q @ [n]) s')"
        using Suc.prems(2,4,5) s wf h1 by (intro Suc.IH [where h = h1]) auto
      moreover have "merkle_inputs H m (p @ [n]) r \<subseteq> merkle_inputs H m p (Suc r)"
        "merkle_inputs H m' (q @ [n]) s' \<subseteq> merkle_inputs H m' q s"
        using Suc.prems(6,7) n(1) unfolding s by (auto simp: nibble_range_iff)
      ultimately show ?thesis by (meson collides_mono Un_mono)
    qed
  qed
qed

lemma merkle_inputs_below:
  assumes "wf_nibbles (p @ q)" and "r = length q + s"
  shows "merkle_inputs H m (p @ q) s \<subseteq> merkle_inputs H m p r"
  using assms
proof (induction q arbitrary: p r)
  case (Cons n q)
  then obtain r' where r: "r = Suc r'" "r' = length q + s" by simp
  have n: "n \<le> MaxNibbleValue" using Cons.prems(1) by (auto simp: wf_nibbles_def)
  have "merkle_inputs H m ((p @ [n]) @ q) s \<subseteq> merkle_inputs H m (p @ [n]) r'"
    using Cons.prems r by (intro Cons.IH) auto
  moreover have "merkle_inputs H m (p @ [n]) r' \<subseteq> merkle_inputs H m p r"
  proof (cases "merkle H m (p @ [n]) r' = None")
    case True
    then show ?thesis by (simp add: merkle_inputs_None)
  next
    case False
    then have "merkle H m p (Suc r') \<noteq> None" using n by (auto simp: nibble_range_iff)
    with n show ?thesis unfolding r by (auto simp: nibble_range_iff)
  qed
  ultimately show ?case by simp
qed simp

declare merkle.simps(2) [simp del]

text \<open>Equal hashes at the same path mean equal contents below it, or a collision.\<close>

lemma merkle_inject:
  assumes H: "\<And>x. wf_hash (H x)" and "wf_nibbles p" and "length p + r = MaxTreeDepth" and "merkle H m p r = merkle H m' p r"
  shows "collides H (merkle_inputs H m p r \<union> merkle_inputs H m' p r) \<or> (\<forall>k. wf_key k \<longrightarrow> below p k \<longrightarrow> m k = m' k)"
  using assms(2-)
proof (induction r arbitrary: p)
  case 0
  then have p: "wf_key k \<Longrightarrow> below p k \<longleftrightarrow> k = pack p" for k by (intro below_full) auto
  show ?case
  proof (cases "m (pack p) = m' (pack p)")
    case True
    with p show ?thesis by auto
  next
    case False
    with "0.prems"(3) obtain h h' where "m (pack p) = Some h" "m' (pack p) = Some h'" "h \<noteq> h'"
      "H (leaf_preimage (pack p) h) = H (leaf_preimage (pack p) h')"
      by (cases "m (pack p)"; cases "m' (pack p)") auto
    then have "collides H (merkle_inputs H m p 0 \<union> merkle_inputs H m' p 0)" by (auto simp: collides_def leaf_preimage_def)
    then show ?thesis ..
  qed
next
  case (Suc r)
  let ?f = "\<lambda>n. merkle H m (p @ [n]) r" and ?g = "\<lambda>n. merkle H m' (p @ [n]) r"
  show ?case
  proof (cases "merkle H m p (Suc r)")
    case None
    then show ?thesis
      using Suc.prems merkle_None_iff [of p "Suc r" H m] merkle_None_iff [of p "Suc r" H m'] by auto
  next
    case (Some h)
    have h: "h = H (internal_preimage ?f)" using Some by (rule merkle_SomeD)
    have h': "h = H (internal_preimage ?g)" using Some unfolding Suc.prems(3) by (rule merkle_SomeD)
    have ins: "internal_preimage ?f \<in> merkle_inputs H m p (Suc r)" "internal_preimage ?g \<in> merkle_inputs H m' p (Suc r)"
      using Some Suc.prems(3) by auto
    show ?thesis
    proof (cases "internal_preimage ?f = internal_preimage ?g")
      case False
      with ins h h' show ?thesis by (auto simp: collides_def)
    next
      case True
      have step: "collides H (merkle_inputs H m p (Suc r) \<union> merkle_inputs H m' p (Suc r))
          \<or> (\<forall>k. wf_key k \<longrightarrow> below (p @ [n]) k \<longrightarrow> m k = m' k)" if n: "n \<le> MaxNibbleValue" for n
      proof -
        have "?f n = ?g n" using True n merkle_length [OF H] by (intro internal_preimage_inject) auto
        moreover have "wf_nibbles (p @ [n])" using Suc.prems(1,2) n by (intro wf_nibbles_snoc) auto
        ultimately have "collides H (merkle_inputs H m (p @ [n]) r \<union> merkle_inputs H m' (p @ [n]) r)
            \<or> (\<forall>k. wf_key k \<longrightarrow> below (p @ [n]) k \<longrightarrow> m k = m' k)"
          using Suc.prems(2) by (intro Suc.IH) auto
        moreover have "merkle_inputs H m (p @ [n]) r \<subseteq> merkle_inputs H m p (Suc r)" "merkle_inputs H m' (p @ [n]) r \<subseteq> merkle_inputs H m' p (Suc r)"
          using Some Suc.prems(3) n by (auto simp: nibble_range_iff)
        ultimately show ?thesis by (meson collides_mono Un_mono)
      qed
      have "\<exists>n \<le> MaxNibbleValue. below (p @ [n]) k" if "below p k" "wf_key k" for k
        using that Suc.prems(2) by (auto simp: below_snoc)
      with step show ?thesis by meson
    qed
  qed
qed

end
