(* ===== verification/UpdaterCorrect.thy ===== *)
theory UpdaterCorrect
  imports Updater MerkleSpec StorageKeys
begin

text \<open>
  Correctness of the copy-on-write updates: an updater whose current root represents contents \<open>m\<close> represents
  \<open>m(k \<mapsto> H value)\<close> after \<open>Put\<close> and \<open>m(k := None)\<close> after \<open>Delete\<close>, and writes only nodes of the new
  version on the path of the key.
\<close>

section \<open>Writes and reads of node keys\<close>

definition skey :: "version \<Rightarrow> nibble list \<Rightarrow> bytes" where
  "skey v q = NodeKeyPrefix @ encoded v q"

lemma nodeKeyToString_nkey [simp]: "wf_nibbles q \<Longrightarrow> nodeKeyToString (nkey v q) = Inr (skey v q)"
  by (simp add: nodeKeyToString_def skey_def wf_nibblesD)

lemma skey_inject [simp]: "wf_nibbles q \<Longrightarrow> wf_nibbles q' \<Longrightarrow> skey v q = skey w q' \<longleftrightarrow> v = w \<and> q = q'"
  by (simp add: skey_def encoded_inject)

lemma getNode_nkey:
  "wf_nibbles q \<Longrightarrow> getNode load (nkey v q) tu =
     (case gm_get (nodeWrites tu) (skey v q) of
        Some w \<Rightarrow> Inr (nw_Node w)
      | None \<Rightarrow> if v = 0 then Inl (Errorf ''node not found'') else load (nkey v q))"
  by (simp add: getNode_def)

abbreviation src :: "(NodeKey \<Rightarrow> Node result) \<Rightarrow> TreeUpdater \<Rightarrow> NodeKey \<Rightarrow> Node result" where
  "src load tu \<equiv> (\<lambda>k. getNode load k tu)"

definition putWrite :: "version \<Rightarrow> nibble list \<Rightarrow> Node \<Rightarrow> TreeUpdater \<Rightarrow> TreeUpdater" where
  "putWrite v q n tu = tu\<lparr>nodeWrites := gm_put (skey v q) \<lparr>nw_Key = nkey v q, nw_Node = n\<rparr> (nodeWrites tu)\<rparr>"

lemma putWrite_simps [simp]:
  "newVersion (putWrite v q n tu) = newVersion tu" "oldVersion (putWrite v q n tu) = oldVersion tu"
  "currentRoot (putWrite v q n tu) = currentRoot tu" "staleNodes (putWrite v q n tu) = staleNodes tu"
  "nodeWrites (putWrite v q n tu) = gm_put (skey v q) \<lparr>nw_Key = nkey v q, nw_Node = n\<rparr> (nodeWrites tu)"
  by (simp_all add: putWrite_def)

lemma markStale_simps [simp]:
  "newVersion (markStale key tu) = newVersion tu" "oldVersion (markStale key tu) = oldVersion tu"
  "currentRoot (markStale key tu) = currentRoot tu" "staleNodes (markStale key tu) = staleNodes tu @ [key]"
  "nodeWrites (markStale key tu) = nodeWrites tu"
  by (simp_all add: markStale_def)

lemma writeNode_nkey [simp]:
  "wf_nibbles q \<Longrightarrow> writeNode (nkey v q) n tu = (Inr (nkey v q), putWrite v q n tu)"
  by (simp add: writeNode_def putWrite_def)

lemma nkey_fold: "\<lparr>nk_Version = v, nk_NibblePath = mkpath q\<rparr> = nkey v q"
  by (simp add: nkey_def)

lemma writePrefix_mkpath [simp]:
  "wf_nibbles T \<Longrightarrow> writePrefix (mkpath T) d n tu = (Inr (nkey (newVersion tu) (take d T)), putWrite (newVersion tu) (take d T) n tu)"
  by (simp add: writePrefix_def prefixKey_def wf_nibblesD nkey_fold)

lemma getNode_putWrite:
  "wf_nibbles q \<Longrightarrow> wf_nibbles q' \<Longrightarrow> getNode load (nkey w q') (putWrite v q n tu) =
     (if w = v \<and> q' = q then Inr n else getNode load (nkey w q') tu)"
  by (auto simp: getNode_nkey)

lemma getNode_cong: "nodeWrites tu' = nodeWrites tu \<Longrightarrow> getNode load k tu' = getNode load k tu"
  by (simp add: getNode_def)

definition cloned :: "NodeKey \<Rightarrow> NodeKey \<Rightarrow> TreeUpdater \<Rightarrow> TreeUpdater" where
  "cloned oldKey newKey tu = (markStale oldKey tu)\<lparr>pathCloner :=
     (pathCloner tu)\<lparr>pc_clonedNodes := gm_put (skey (nk_Version oldKey) (Nibbles (nk_NibblePath oldKey))) newKey
        (pc_clonedNodes (pathCloner tu))\<rparr>\<rparr>"

lemma cloned_simps [simp]:
  "newVersion (cloned a b tu) = newVersion tu" "oldVersion (cloned a b tu) = oldVersion tu"
  "currentRoot (cloned a b tu) = currentRoot tu" "staleNodes (cloned a b tu) = staleNodes tu @ [a]"
  "nodeWrites (cloned a b tu) = nodeWrites tu"
  by (simp_all add: cloned_def)

lemma cloneInternalNode_nkey:
  "wf_nibbles q \<Longrightarrow> cloneInternalNode (nkey v q) i tu =
     (Inr (InternalNode_Clone i (newVersion tu), nkey (newVersion tu) q), cloned (nkey v q) (nkey (newVersion tu) q) tu)"
  by (simp add: cloneInternalNode_def RegisterClone_def nkey_fold cloned_def wf_nibblesD markStale_def skey_def Let_def)

section \<open>Well-formed updaters\<close>

fun node_ok :: "(bytes \<Rightarrow> hash) \<Rightarrow> version \<Rightarrow> Node \<Rightarrow> bool" where
  "node_ok H nv (Leaf l) \<longleftrightarrow> leaf_ok l \<and> l_version l = nv \<and> (\<exists>b. l_value l = Some b \<and> H b = l_valueHash l)"
| "node_ok H nv (Internal i) \<longleftrightarrow> wf_node (Internal i) \<and> i_cachedHash i = None \<and> i_version i = nv
     \<and> (\<forall>(n, c) \<in> set (i_children i). c_Version c \<le> nv)"

definition write_ok :: "(bytes \<Rightarrow> hash) \<Rightarrow> version \<Rightarrow> bytes \<Rightarrow> NodeWrite \<Rightarrow> bool" where
  "write_ok H nv s w \<longleftrightarrow> (\<exists>q. s = skey nv q \<and> nw_Key w = nkey nv q \<and> wf_nibbles q \<and> node_ok H nv (nw_Node w))"

definition tu_ok :: "(bytes \<Rightarrow> hash) \<Rightarrow> TreeUpdater \<Rightarrow> bool" where
  "tu_ok H tu \<longleftrightarrow> 0 < newVersion tu \<and> gm_wf (nodeWrites tu)
     \<and> (\<forall>s w. gm_get (nodeWrites tu) s = Some w \<longrightarrow> write_ok H (newVersion tu) s w)
     \<and> (\<forall>k \<in> set (staleNodes tu). wf_nodekey k \<and> nk_Version k \<le> newVersion tu)"

lemma tu_ok_New: "0 < new \<Longrightarrow> tu_ok H (NewTreeUpdater old new)"
  by (simp add: tu_ok_def NewTreeUpdater_def)

lemma tu_ok_write:
  "tu_ok H tu \<Longrightarrow> wf_nibbles q \<Longrightarrow> node_ok H (newVersion tu) n \<Longrightarrow> tu_ok H (putWrite (newVersion tu) q n tu)"
  by (auto simp: tu_ok_def write_ok_def)

lemma tu_ok_stale: "tu_ok H tu \<Longrightarrow> wf_nodekey k \<Longrightarrow> nk_Version k \<le> newVersion tu \<Longrightarrow> tu_ok H (markStale k tu)"
  by (auto simp: tu_ok_def)

lemma tu_ok_cloned: "tu_ok H tu \<Longrightarrow> wf_nodekey a \<Longrightarrow> nk_Version a \<le> newVersion tu \<Longrightarrow> tu_ok H (cloned a b tu)"
  by (auto simp: tu_ok_def)

lemma no_old_write:
  assumes "tu_ok H tu" and "wf_nibbles q" and "v \<noteq> newVersion tu"
  shows "gm_get (nodeWrites tu) (skey v q) = None"
proof (rule ccontr)
  assume "gm_get (nodeWrites tu) (skey v q) \<noteq> None"
  then obtain w where "gm_get (nodeWrites tu) (skey v q) = Some w" by blast
  with assms(1) have "write_ok H (newVersion tu) (skey v q) w" by (simp add: tu_ok_def)
  with assms(2,3) show False by (auto simp: write_ok_def)
qed

lemma getNode_zero: "tu_ok H tu \<Longrightarrow> getNode load zeroNodeKey tu = Inl (Errorf ''node not found'')"
  using no_old_write [of H tu "[]" 0] by (auto simp: zeroNodeKey_nkey getNode_nkey tu_ok_def)

section \<open>What an operation may change\<close>

text \<open>
  From \<open>tu\<close> to \<open>tu'\<close> only nodes of the new version on the path \<open>T\<close>, from depth \<open>d\<close> on, were written; the
  hash of each is the one the contents \<open>M\<close> determine for its path, and the only leaves are those in \<open>L\<close>.
\<close>

definition updated :: "(bytes \<Rightarrow> hash) \<Rightarrow> LeafNode set \<Rightarrow> contents \<Rightarrow> nibble list \<Rightarrow> nat \<Rightarrow> TreeUpdater \<Rightarrow> TreeUpdater \<Rightarrow> bool" where
  "updated H L M T d tu tu' \<longleftrightarrow> newVersion tu' = newVersion tu \<and> oldVersion tu' = oldVersion tu
     \<and> currentRoot tu' = currentRoot tu \<and> tu_ok H tu'
     \<and> (\<forall>q w. wf_nibbles q \<longrightarrow> gm_get (nodeWrites tu') (skey (newVersion tu) q) = Some w \<longrightarrow>
          gm_get (nodeWrites tu) (skey (newVersion tu) q) = Some w
          \<or> merkle H M q (MaxTreeDepth - length q) = Some (Node_Hash H (nw_Node w)) \<and> (\<forall>l. nw_Node w = Leaf l \<longrightarrow> l \<in> L))
     \<and> (\<forall>w q. wf_nibbles q \<longrightarrow> \<not> (w = newVersion tu \<and> d \<le> length q \<and> ext q T) \<longrightarrow>
          gm_get (nodeWrites tu') (skey w q) = gm_get (nodeWrites tu) (skey w q))"

lemma updated_ok: "updated H L M T d tu tu' \<Longrightarrow> tu_ok H tu'" "updated H L M T d tu tu' \<Longrightarrow> newVersion tu' = newVersion tu"
  by (simp_all add: updated_def)

lemma updated_refl: "tu_ok H tu \<Longrightarrow> updated H L M T d tu tu"
  by (simp add: updated_def)

lemma updated_trans:
  assumes "updated H L M T d tu tu1" and "updated H L M T d' tu1 tu2" and "d \<le> d'"
  shows "updated H L M T d tu tu2"
  unfolding updated_def
proof (intro conjI allI impI)
  fix q w
  assume "wf_nibbles q" "gm_get (nodeWrites tu2) (skey (newVersion tu) q) = Some w"
  then show "gm_get (nodeWrites tu) (skey (newVersion tu) q) = Some w
      \<or> merkle H M q (MaxTreeDepth - length q) = Some (Node_Hash H (nw_Node w)) \<and> (\<forall>l. nw_Node w = Leaf l \<longrightarrow> l \<in> L)"
    using assms(1,2) unfolding updated_def by metis
qed (use assms in \<open>auto simp: updated_def\<close>)

lemma updated_mono: "updated H L M T d' tu tu' \<Longrightarrow> d \<le> d' \<Longrightarrow> updated H L M T d tu tu'"
  unfolding updated_def by auto

lemma updated_write:
  assumes "tu_ok H tu" and "node_ok H (newVersion tu) n" and "wf_nibbles T" and "d \<le> length T" and "{l. n = Leaf l} \<subseteq> L"
    and "merkle H M (take d T) (MaxTreeDepth - d) = Some (Node_Hash H n)"
  shows "updated H L M T d tu (putWrite (newVersion tu) (take d T) n tu)"
  using tu_ok_write [OF assms(1) _ assms(2), of "take d T"] assms(3-6)
  by (auto simp: updated_def ext_def split: if_splits)

lemma updated_stale: "tu_ok H tu \<Longrightarrow> wf_nodekey k \<Longrightarrow> nk_Version k \<le> newVersion tu \<Longrightarrow> updated H L M T d tu (markStale k tu)"
  by (simp add: updated_def tu_ok_stale)

lemma updated_cloned: "tu_ok H tu \<Longrightarrow> wf_nodekey a \<Longrightarrow> nk_Version a \<le> newVersion tu \<Longrightarrow> updated H L M T d tu (cloned a b tu)"
  by (simp add: updated_def tu_ok_cloned)

lemma updated_getNode:
  assumes "updated H L M T d tu tu'" and "wf_nibbles q" and "\<not> (w = newVersion tu \<and> d \<le> length q \<and> ext q T)"
  shows "getNode load (nkey w q) tu' = getNode load (nkey w q) tu"
  using assms by (simp add: getNode_nkey updated_def)

section \<open>Installing a child\<close>

lemma rep_putWrite:
  assumes "wf_node (Internal i)" and "i_cachedHash i = None" and "i_children i \<noteq> []"
    and "wf_nibbles p" and "length p + Suc r = MaxTreeDepth"
    and "\<forall>n \<le> MaxNibbleValue. child_ok (src load tu) H m nv p r i n"
  shows "rep (src load (putWrite nv p (Internal i) tu)) H m nv p (Suc r)"
proof -
  have "child_ok (src load (putWrite nv p (Internal i) tu)) H m nv p r i n" if n: "n \<le> MaxNibbleValue" for n
  proof (rule child_ok_frame [where v = nv and m = m and g = "src load tu" and i = i])
    show "child_ok (src load tu) H m nv p r i n" using assms(6) n by blast
    show "wf_nibbles (p @ [n])" using assms(4,5) n by (simp add: wf_nibbles_snoc)
    fix w q
    assume "wf_nibbles q" "ext (p @ [n]) q"
    then show "getNode load (nkey w q) (putWrite nv p (Internal i) tu) = getNode load (nkey w q) tu"
      using assms(4) by (auto simp: getNode_putWrite ext_snoc)
  qed (use assms in auto)
  with assms(1-4) show ?thesis unfolding rep_Suc by (intro exI [where x = i]) (simp add: getNode_putWrite)
qed

lemma childInfo_rep:
  assumes "rep (src load tu) H m nv q r" and "wf_nibbles q" and "gm_get (nodeWrites tu) (skey nv q) \<noteq> None"
  shows "\<exists>c. childInfo H (nkey nv q) tu = Inr c \<and> merkle H m q r = Some (c_Hash c) \<and> c_IsLeaf c = (r = 0)
    \<and> c_Version c = nv"
proof -
  obtain w where w: "gm_get (nodeWrites tu) (skey nv q) = Some w" using assms(3) by blast
  obtain n where "getNode load (nkey nv q) tu = Inr n" "merkle H m q r = Some (Node_Hash H n)"
    "(Node_Type n = NodeTypeLeaf) = (r = 0)"
    using rep_hash [OF assms(1)] by blast
  with w assms(2) show ?thesis by (simp add: childInfo_def getNode_nkey)
qed

lemma SetChild_ok: "n \<le> MaxNibbleValue \<Longrightarrow>
   SetChild i n c = Inr (i\<lparr>i_children := gm_put n c (i_children i), i_cachedHash := None\<rparr>)"
  by (simp add: SetChild_def ValidateNibble_def linorder_not_less [THEN iffD2])

lemma set_gm_put: "x \<in> set (gm_put k v m) \<Longrightarrow> x = (k, v) \<or> x \<in> set m"
  by (induction m) (auto split: if_splits)

lemma node_ok_put:
  "node_ok H nv (Internal i) \<Longrightarrow> n \<le> MaxNibbleValue \<Longrightarrow> wf_hash (c_Hash c) \<Longrightarrow> c_Version c \<le> nv \<Longrightarrow>
     node_ok H nv (Internal (i\<lparr>i_children := gm_put n c (i_children i), i_cachedHash := None\<rparr>))"
  by (auto dest!: set_gm_put)

lemma merkle_wf:
  assumes "\<And>x. wf_hash (H x)" and "merkle H m p r = Some h"
  shows "wf_hash h"
  using assms by (cases r) (auto simp: merkle.simps(2) split: if_splits)

text \<open>After the recursive call wrote the child, its parent is completed and written.\<close>

lemma install_child:
  assumes ok: "tu_ok H tu" and H: "\<And>x. wf_hash (H x)"
    and p: "wf_nibbles p" "length p + Suc r = MaxTreeDepth" and n: "n \<le> MaxNibbleValue"
    and child: "rep (src load tu) H m (newVersion tu) (p @ [n]) r"
      "gm_get (nodeWrites tu) (skey (newVersion tu) (p @ [n])) \<noteq> None"
    and i: "node_ok H (newVersion tu) (Internal i)"
    and others: "\<forall>n' \<le> MaxNibbleValue. n' \<noteq> n \<longrightarrow> child_ok (src load tu) H m (newVersion tu) p r i n'"
  shows "\<exists>c i'. childInfo H (nkey (newVersion tu) (p @ [n])) tu = Inr c \<and> SetChild i n c = Inr i'
    \<and> node_ok H (newVersion tu) (Internal i')
    \<and> rep (src load (putWrite (newVersion tu) p (Internal i') tu)) H m (newVersion tu) p (Suc r)
    \<and> i_children i' = gm_put n c (i_children i) \<and> c_IsLeaf c = (r = 0)"
proof -
  let ?nv = "newVersion tu"
  have wf: "wf_nibbles (p @ [n])" using p n by (simp add: wf_nibbles_snoc)
  obtain c where c: "childInfo H (nkey ?nv (p @ [n])) tu = Inr c" "merkle H m (p @ [n]) r = Some (c_Hash c)"
    "c_IsLeaf c = (r = 0)" "c_Version c = ?nv"
    using childInfo_rep [OF child(1) wf child(2)] by blast
  let ?i = "i\<lparr>i_children := gm_put n c (i_children i), i_cachedHash := None\<rparr>"
  have ok': "node_ok H ?nv (Internal ?i)"
    using i n c(4) merkle_wf [OF H c(2)] by (intro node_ok_put) auto
  have "child_ok (src load tu) H m ?nv p r ?i n'" if "n' \<le> MaxNibbleValue" for n'
    using others that c child(1) ok by (cases "n' = n") (auto simp: child_ok_def tu_ok_def)
  then have "rep (src load (putWrite ?nv p (Internal ?i) tu)) H m ?nv p (Suc r)"
    using ok' p by (intro rep_putWrite) auto
  with c ok' show ?thesis using SetChild_ok [OF n] by auto
qed

section \<open>Insertion\<close>

text \<open>A position of an updater: a stored subtree, or a missing one where the contents have no key.\<close>

definition present :: "(NodeKey \<Rightarrow> Node result) \<Rightarrow> (bytes \<Rightarrow> hash) \<Rightarrow> contents \<Rightarrow> nibble list \<Rightarrow> nat \<Rightarrow> NodeKey
    \<Rightarrow> TreeUpdater \<Rightarrow> bool" where
  "present load H m p r nodeKey tu \<longleftrightarrow>
     (\<exists>v. nodeKey = nkey v p \<and> 0 < v \<and> v \<le> newVersion tu \<and> rep (src load tu) H m v p r)"

definition absent :: "(NodeKey \<Rightarrow> Node result) \<Rightarrow> (bytes \<Rightarrow> hash) \<Rightarrow> contents \<Rightarrow> nibble list \<Rightarrow> nat \<Rightarrow> NodeKey
    \<Rightarrow> TreeUpdater \<Rightarrow> bool" where
  "absent load H m p r nodeKey tu \<longleftrightarrow>
     merkle H m p r = None \<and> (\<exists>e. getNode load nodeKey tu = Inl e \<and> \<not> is_panic e)"

definition insert_post :: "(NodeKey \<Rightarrow> Node result) \<Rightarrow> (bytes \<Rightarrow> hash) \<Rightarrow> LeafNode set \<Rightarrow> contents \<Rightarrow> nibble list \<Rightarrow> nat \<Rightarrow> nat
    \<Rightarrow> TreeUpdater \<Rightarrow> TreeUpdater \<Rightarrow> bool" where
  "insert_post load H L m T d r tu tu' \<longleftrightarrow> updated H L m T d tu tu'
     \<and> rep (src load tu') H m (newVersion tu) (take d T) r
     \<and> gm_get (nodeWrites tu') (skey (newVersion tu) (take d T)) \<noteq> None"

definition new_leaf :: "(bytes \<Rightarrow> hash) \<Rightarrow> key \<Rightarrow> version \<Rightarrow> LeafNode \<Rightarrow> bool" where
  "new_leaf H k nv l \<longleftrightarrow> wf_key k \<and> l_key l = k \<and> node_ok H nv (Leaf l)"

lemma rep_leaf_write:
  assumes "new_leaf H k (newVersion tu) l" and "tu_ok H tu" and "l \<in> L"
  shows "insert_post load H L (m(k \<mapsto> l_valueHash l)) (nibbles_of k) MaxTreeDepth 0 tu
    (putWrite (newVersion tu) (nibbles_of k) (Leaf l) tu)"
  using assms updated_write [OF assms(2), of "Leaf l" "nibbles_of k" MaxTreeDepth L "m(k \<mapsto> l_valueHash l)"]
  by (auto simp: insert_post_def new_leaf_def getNode_putWrite pack_nibbles_of LeafNode_Hash_def leaf_ok_def
      LeafNode_computeHash_eq Let_def)

lemma insert_post_stale:
  assumes "insert_post load H L m T d r tu tu'" and "wf_nodekey k" and "nk_Version k \<le> newVersion tu"
  shows "insert_post load H L m T d r tu (markStale k tu')"
proof -
  have "updated H L m T d tu (markStale k tu')"
    using assms by (auto simp: insert_post_def updated_def tu_ok_stale)
  moreover have "src load (markStale k tu') = src load tu'" by (rule ext) (simp add: getNode_def)
  ultimately show ?thesis using assms(1) by (simp add: insert_post_def)
qed

text \<open>
  The siblings of the path are untouched: a child of the old node at another nibble is still a good
  child after the recursive call.
\<close>

lemma sibling_ok:
  assumes up: "updated H L M (nibbles_of k) (Suc d) tu tu1" and d: "d < MaxTreeDepth" "d + Suc r = MaxTreeDepth"
    and child: "child_ok (src load tu) H m v (take d (nibbles_of k)) r i n'" and n': "n' \<le> MaxNibbleValue" "n' \<noteq> nibble_at k d"
    and v: "v \<le> v'" and same: "gm_get (i_children i') n' = gm_get (i_children i) n'"
    and m': "\<And>k'. k' \<noteq> k \<Longrightarrow> m' k' = m k'"
  shows "child_ok (src load tu1) H m' v' (take d (nibbles_of k)) r i' n'"
proof (rule child_ok_frame [OF child _ _ _ _ same v])
  let ?T = "nibbles_of k"
  have len: "length (take d ?T) = d" using d by simp
  show "wf_nibbles (take d ?T @ [n'])" using n' d by (intro wf_nibbles_snoc) auto
  show "length (take d ?T) + Suc r = MaxTreeDepth" using d by simp
  fix w q
  assume q: "wf_nibbles q" "ext (take d ?T @ [n']) q"
  then have q': "d < length q" "q ! d = n'" using len by (auto simp: ext_snoc)
  have "\<not> ext q ?T"
  proof
    assume "ext q ?T"
    then have "q ! d = ?T ! d" using q'(1) by (metis ext_def nth_take)
    with q'(2) n'(2) d show False by simp
  qed
  with q(1) up show "getNode load (nkey w q) tu1 = getNode load (nkey w q) tu"
    by (intro updated_getNode) auto
next
  fix k'
  assume "wf_key k'" "below (take d (nibbles_of k) @ [n']) k'"
  then have "nibble_at k' d = n'" using d by (simp add: below_snoc)
  with n'(2) show "m' k' = m k'" by (intro m') auto
qed

lemma path_step: "d < MaxTreeDepth \<Longrightarrow> take d (nibbles_of k) @ [nibble_at k d] = take (Suc d) (nibbles_of k)"
  by (simp add: take_Suc_conv_app_nth)

lemma node_ok_New: "node_ok H nv (Internal (NewInternalNode nv))"
  by (simp add: NewInternalNode_def)

lemma InternalNode_Clone_simps [simp]:
  "i_children (InternalNode_Clone i v) = i_children i" "i_cachedHash (InternalNode_Clone i v) = None"
  "i_version (InternalNode_Clone i v) = v"
  by (simp_all add: InternalNode_Clone_def)

text \<open>
  One level of the insertion: with the child in place below the path, the parent built from \<open>i\<close> is
  written and represents the contents.
\<close>

lemma insert_level:
  assumes ok: "tu_ok H tu" and H: "\<And>x. wf_hash (H x)" and d: "d + Suc r = MaxTreeDepth"
    and post: "insert_post load H L m' (nibbles_of k) (Suc d) r tu tu1"
    and i: "node_ok H (newVersion tu) (Internal i)"
    and others: "\<forall>n' \<le> MaxNibbleValue. n' \<noteq> nibble_at k d \<longrightarrow>
       child_ok (src load tu1) H m' (newVersion tu) (take d (nibbles_of k)) r i n'"
  shows "\<exists>c i'. childInfo H (nkey (newVersion tu) (take (Suc d) (nibbles_of k))) tu1 = Inr c
    \<and> SetChild i (nibble_at k d) c = Inr i'
    \<and> insert_post load H L m' (nibbles_of k) d (Suc r) tu (putWrite (newVersion tu) (take d (nibbles_of k)) (Internal i') tu1)"
proof -
  let ?T = "nibbles_of k"
  have dd: "d < MaxTreeDepth" using d by simp
  have up: "updated H L m' ?T (Suc d) tu tu1" and nv: "newVersion tu1 = newVersion tu" and ok1: "tu_ok H tu1"
    using post by (auto simp: insert_post_def updated_def)
  obtain c i' where ci: "childInfo H (nkey (newVersion tu) (take (Suc d) ?T)) tu1 = Inr c"
    "SetChild i (nibble_at k d) c = Inr i'" "node_ok H (newVersion tu) (Internal i')"
    "rep (src load (putWrite (newVersion tu) (take d ?T) (Internal i') tu1)) H m' (newVersion tu) (take d ?T) (Suc r)"
    using install_child [OF ok1 H, where p = "take d ?T" and n = "nibble_at k d" and r = r and load = load and m = m' and i = i]
      post i others d by (auto simp: insert_post_def nv path_step [OF dd])
  have hash: "merkle H m' (take d ?T) (MaxTreeDepth - d) = Some (Node_Hash H (Internal i'))"
    using rep_hash [OF ci(4)] d by (auto simp: getNode_putWrite simp flip: d)
  have "updated H L m' ?T d tu1 (putWrite (newVersion tu) (take d ?T) (Internal i') tu1)"
    using updated_write [OF ok1, of "Internal i'" ?T d L m'] ci(3) dd nv hash by simp
  then have "updated H L m' ?T d tu (putWrite (newVersion tu) (take d ?T) (Internal i') tu1)"
    using updated_trans [OF updated_mono [OF up]] by (metis le_SucI order_refl)
  with ci show ?thesis by (auto simp: insert_post_def)
qed

declare fun_upd_apply [simp del]

lemma insert_missing:
  assumes ok: "tu_ok H tu" and H: "\<And>x. wf_hash (H x)" and l: "new_leaf H k (newVersion tu) l" "l \<in> L"
    and "d + r = MaxTreeDepth" and "absent load H m (take d (nibbles_of k)) r nodeKey tu"
  shows "\<exists>tu'. insertAt H load nodeKey (mkpath (nibbles_of k)) d l tu = (Inr (nkey (newVersion tu) (take d (nibbles_of k))), tu')
    \<and> insert_post load H L (m(k \<mapsto> l_valueHash l)) (nibbles_of k) d r tu tu'"
  using assms(5,6)
proof (induction r arbitrary: d nodeKey)
  case 0
  then obtain e where "getNode load nodeKey tu = Inl e" "\<not> is_panic e" "d = MaxTreeDepth"
    by (auto simp: absent_def)
  then show ?case
    using rep_leaf_write [OF l(1) ok l(2), of load m] by (simp add: insertAt.simps [of H load nodeKey] del: fun_upd_apply)
next
  case (Suc r)
  let ?T = "nibbles_of k" and ?m = "m(k \<mapsto> l_valueHash l)"
  have dd: "d < MaxTreeDepth" using Suc.prems by simp
  obtain e where e: "getNode load nodeKey tu = Inl e" "\<not> is_panic e" and none: "merkle H m (take d ?T) (Suc r) = None"
    using Suc.prems(2) by (auto simp: absent_def)
  have none': "merkle H m (take d ?T @ [n]) r = None" if "n \<le> MaxNibbleValue" for n
    using none that by (auto simp: merkle.simps(2) nibble_range_iff split: if_splits)
  have "absent load H m (take (Suc d) ?T) r zeroNodeKey tu"
    using none' [of "nibble_at k d"] getNode_zero [OF ok] path_step [OF dd, of k] by (simp add: absent_def)
  then obtain tu1 where ins: "insertAt H load zeroNodeKey (mkpath ?T) (Suc d) l tu = (Inr (nkey (newVersion tu) (take (Suc d) ?T)), tu1)"
    and post: "insert_post load H L ?m ?T (Suc d) r tu tu1"
    using Suc.IH [of "Suc d" zeroNodeKey] Suc.prems(1) by (auto simp del: fun_upd_apply)
  have up: "updated H L ?m ?T (Suc d) tu tu1" using post by (simp add: insert_post_def)
  have "child_ok (src load tu1) H ?m (newVersion tu) (take d ?T) r (NewInternalNode (newVersion tu)) n'"
    if "n' \<le> MaxNibbleValue" "n' \<noteq> nibble_at k d" for n'
    using none' [OF that(1)] Suc.prems(1) that
    by (intro sibling_ok [OF up dd Suc.prems(1), where m = m and v = "newVersion tu" and i = "NewInternalNode (newVersion tu)"])
      (auto simp: child_ok_def NewInternalNode_def fun_upd_other)
  then obtain c i' where "childInfo H (nkey (newVersion tu) (take (Suc d) ?T)) tu1 = Inr c"
    "SetChild (NewInternalNode (newVersion tu)) (nibble_at k d) c = Inr i'"
    "insert_post load H L ?m ?T d (Suc r) tu (putWrite (newVersion tu) (take d ?T) (Internal i') tu1)"
    using insert_level [OF ok H Suc.prems(1) post node_ok_New] by blast
  moreover have "newVersion tu1 = newVersion tu" using up by (simp add: updated_def)
  ultimately show ?case
    using e ins dd by (simp add: insertAt.simps [of H load nodeKey])
qed

lemma InternalNode_Child_eq: "InternalNode_Child n nib = gm_get (i_children n) nib"
  by (simp add: InternalNode_Child_def)

lemma node_ok_Clone:
  assumes "wf_node (Internal i)" and "\<forall>n \<le> MaxNibbleValue. child_ok g H m v p r i n" and "v \<le> nv"
  shows "node_ok H nv (Internal (InternalNode_Clone i nv))"
proof -
  have "c_Version c \<le> nv" if "(n, c) \<in> set (i_children i)" for n c
  proof -
    have "gm_get (i_children i) n = Some c" "n \<le> MaxNibbleValue" using that assms(1) by auto
    with assms(2,3) show ?thesis by (fastforce simp: child_ok_def)
  qed
  with assms(1) show ?thesis by auto
qed

lemma insert_present:
  assumes ok: "tu_ok H tu" and H: "\<And>x. wf_hash (H x)" and l: "new_leaf H k (newVersion tu) l" "l \<in> L"
    and "d + r = MaxTreeDepth" and "present load H m (take d (nibbles_of k)) r nodeKey tu"
  shows "\<exists>tu'. insertAt H load nodeKey (mkpath (nibbles_of k)) d l tu = (Inr (nkey (newVersion tu) (take d (nibbles_of k))), tu')
    \<and> insert_post load H L (m(k \<mapsto> l_valueHash l)) (nibbles_of k) d r tu tu'"
  using assms
proof (induction r arbitrary: d nodeKey tu)
  case 0
  then obtain v where v: "nodeKey = nkey v (nibbles_of k)" "v \<le> newVersion tu" and d: "d = MaxTreeDepth"
    and rep: "rep (src load tu) H m v (nibbles_of k) 0"
    by (auto simp: present_def)
  then obtain l0 where "getNode load nodeKey tu = Inr (Leaf l0)" "l_key l0 = k"
    using "0.prems"(3) by (auto simp: pack_nibbles_of new_leaf_def)
  moreover have "l_key l = k" using "0.prems"(3) by (simp add: new_leaf_def)
  moreover have "insert_post load H L (m(k \<mapsto> l_valueHash l)) (nibbles_of k) MaxTreeDepth 0 tu
      (markStale nodeKey (putWrite (newVersion tu) (nibbles_of k) (Leaf l) tu))"
    using v(2) by (intro insert_post_stale rep_leaf_write "0.prems") (simp_all add: v(1))
  ultimately show ?case
    using d unfolding insertAt.simps [of H load nodeKey] by (simp add: v(1) nkey_fold del: fun_upd_apply)
next
  case (Suc r)
  let ?T = "nibbles_of k" and ?m = "m(k \<mapsto> l_valueHash l)" and ?n = "nibble_at k d" and ?nv = "newVersion tu"
  have dd: "d < MaxTreeDepth" using Suc.prems by simp
  obtain v i where nk: "nodeKey = nkey v (take d ?T)" and v: "0 < v" "v \<le> ?nv"
    and i: "getNode load nodeKey tu = Inr (Internal i)" "wf_node (Internal i)"
    and ch: "\<forall>n \<le> MaxNibbleValue. child_ok (src load tu) H m v (take d ?T) r i n"
    using Suc.prems(6) by (auto simp: present_def rep_Suc)
  define tuc where "tuc = cloned nodeKey (nkey ?nv (take d ?T)) tu"
  have tuc: "tu_ok H tuc" "newVersion tuc = ?nv" "src load tuc = src load tu" "updated H L ?m ?T d tu tuc"
    using Suc.prems(1) v(2) unfolding tuc_def
    by (auto simp: nk tu_ok_cloned updated_cloned fun_eq_iff getNode_def)
  define childKey where "childKey = (case gm_get (i_children i) ?n of Some c \<Rightarrow> nkey (c_Version c) (take (Suc d) ?T) | None \<Rightarrow> zeroNodeKey)"
  have chn: "child_ok (src load tu) H m v (take d ?T) r i ?n" using ch by simp
  have "\<exists>tu1. insertAt H load childKey (mkpath ?T) (Suc d) l tuc = (Inr (nkey ?nv (take (Suc d) ?T)), tu1)
      \<and> insert_post load H L ?m ?T (Suc d) r tuc tu1"
  proof (cases "gm_get (i_children i) ?n")
    case None
    then have "absent load H m (take (Suc d) ?T) r childKey tuc"
      using chn getNode_zero [OF tuc(1)] path_step [OF dd, of k] by (simp add: absent_def child_ok_def childKey_def)
    then show ?thesis
      using insert_missing [OF tuc(1) Suc.prems(2), of k l L "Suc d" r] Suc.prems(3-5) tuc(2) by simp
  next
    case (Some c)
    then have "present load H m (take (Suc d) ?T) r childKey tuc"
      using chn path_step [OF dd, of k] tuc(2,3) v(2) by (auto simp: present_def child_ok_def childKey_def)
    then show ?thesis
      using Suc.IH [of tuc "Suc d" childKey] Suc.prems(2-5) tuc(1,2) by simp
  qed
  then obtain tu1 where ins: "insertAt H load childKey (mkpath ?T) (Suc d) l tuc = (Inr (nkey ?nv (take (Suc d) ?T)), tu1)"
    and post: "insert_post load H L ?m ?T (Suc d) r tuc tu1" by blast
  have up: "updated H L ?m ?T (Suc d) tuc tu1" using post by (simp add: insert_post_def)
  have sib: "child_ok (src load tu1) H ?m (newVersion tuc) (take d ?T) r (InternalNode_Clone i ?nv) n'"
    if "n' \<le> MaxNibbleValue" "n' \<noteq> ?n" for n'
    using ch that v(2) tuc(2) unfolding tuc(3) [symmetric]
    by (intro sibling_ok [OF up dd Suc.prems(5), where m = m and v = v and i = i]) (auto simp: fun_upd_other)
  have iok: "node_ok H (newVersion tuc) (Internal (InternalNode_Clone i ?nv))"
    using node_ok_Clone [OF i(2) ch v(2)] tuc(2) by simp
  obtain c i' where ci: "childInfo H (nkey ?nv (take (Suc d) ?T)) tu1 = Inr c"
    "SetChild (InternalNode_Clone i ?nv) ?n c = Inr i'"
    "insert_post load H L ?m ?T d (Suc r) tuc (putWrite ?nv (take d ?T) (Internal i') tu1)"
    using insert_level [OF tuc(1) Suc.prems(2) Suc.prems(5) post iok] sib tuc(2) by auto
  then have "insert_post load H L ?m ?T d (Suc r) tu (putWrite ?nv (take d ?T) (Internal i') tu1)"
    using tuc(2,4) unfolding insert_post_def by (auto intro: updated_trans)
  moreover have "(case gm_get (i_children i) ?n of Some c \<Rightarrow> NodeKey_Child nodeKey ?n (c_Version c) | None \<Rightarrow> Inr zeroNodeKey) = Inr childKey"
    using dd path_step [OF dd, of k] by (simp add: nk childKey_def split: option.split)
  moreover have "cloneInternalNode nodeKey i tu = (Inr (InternalNode_Clone i ?nv, nkey ?nv (take d ?T)), tuc)"
    by (simp add: nk tuc_def cloneInternalNode_nkey)
  ultimately show ?case
    using i(1) ins ci(1,2) dd unfolding insertAt.simps [of H load nodeKey] by (simp add: InternalNode_Child_eq)
qed

lemma insertAt_correct:
  assumes "tu_ok H tu" and "\<And>x. wf_hash (H x)" and "new_leaf H k (newVersion tu) l" and "l \<in> L" and "d + r = MaxTreeDepth"
    and "present load H m (take d (nibbles_of k)) r nodeKey tu \<or> absent load H m (take d (nibbles_of k)) r nodeKey tu"
  shows "\<exists>tu'. insertAt H load nodeKey (mkpath (nibbles_of k)) d l tu = (Inr (nkey (newVersion tu) (take d (nibbles_of k))), tu')
    \<and> insert_post load H L (m(k \<mapsto> l_valueHash l)) (nibbles_of k) d r tu tu'"
  using assms insert_present insert_missing by metis

section \<open>Deletion\<close>

text \<open>If \<open>k\<close> is in the contents, then no other key there shares its first 63 nibbles.\<close>

definition no_twin :: "contents \<Rightarrow> key \<Rightarrow> bool" where
  "no_twin m k \<longleftrightarrow>
     (m k \<noteq> None \<longrightarrow> (\<forall>k'. wf_key k' \<longrightarrow> k' \<noteq> k \<longrightarrow> take 63 (nibbles_of k') = take 63 (nibbles_of k) \<longrightarrow> m k' = None))"

lemma insert_post_same_writes:
  assumes "insert_post load H L m T d r tu tu1" and "updated H L m T d tu1 tu2" and "nodeWrites tu2 = nodeWrites tu1"
  shows "insert_post load H L m T d r tu tu2"
proof -
  have "src load tu2 = src load tu1" using assms(3) by (auto simp: fun_eq_iff getNode_def)
  then show ?thesis using assms updated_trans [of H L m T d tu tu1 d tu2] by (auto simp: insert_post_def)
qed

lemma collapse_save:
  assumes "wf_nibbles p" and "i_children i \<noteq> []" and "\<And>n c. i_children i = [(n, c)] \<Longrightarrow> \<not> c_IsLeaf c"
  shows "collapse load nodeKey (nkey nv p) i tu = (Inr (nkey nv p, True), markStale nodeKey (putWrite nv p (Internal i) tu))"
proof (cases "length (i_children i) = 1")
  case True
  then obtain n c where "i_children i = [(n, c)]" by (metis One_nat_def length_0_conv length_Suc_conv surj_pair)
  then show ?thesis using assms(1,3) by (simp add: collapse_def NumChildren_def GetOnlyChild_def Let_def)
next
  case False
  then show ?thesis using assms(1,2) by (simp add: collapse_def NumChildren_def Let_def)
qed

lemma collapse_drop: "i_children i = [] \<Longrightarrow> collapse load nodeKey newKey i tu = (Inr (zeroNodeKey, True), markStale nodeKey tu)"
  by (simp add: collapse_def NumChildren_def Let_def)

lemma set_gm_del: "set (gm_del k m) \<subseteq> set m"
  by (auto simp: AList.delete_eq)

lemma RemoveChild_wf:
  "wf_node (Internal i) \<Longrightarrow> wf_node (Internal (i\<lparr>i_children := gm_del n (i_children i), i_cachedHash := x\<rparr>))"
  using set_gm_del [of n "i_children i"] by auto

lemma deleteAt_missing:
  assumes "absent load H m p r nodeKey tu" and "d \<le> MaxTreeDepth"
  shows "deleteAt H load nodeKey T d tu = (Inr (zeroNodeKey, False), tu)"
  using assms by (auto simp: absent_def deleteAt.simps [of H load nodeKey])

lemma deleteAt_not_found:
  assumes "wf_key k" and "m k = None" and "d + r = MaxTreeDepth" and "present load H m (take d (nibbles_of k)) r nodeKey tu"
  shows "\<exists>nk. deleteAt H load nodeKey (mkpath (nibbles_of k)) d tu = (Inr (nk, False), tu)"
  using assms
proof (induction r arbitrary: d nodeKey)
  case 0
  then show ?case by (auto simp: present_def pack_nibbles_of)
next
  case (Suc r)
  let ?T = "nibbles_of k" and ?n = "nibble_at k d"
  have dd: "d < MaxTreeDepth" using Suc.prems by simp
  obtain v i where nk: "nodeKey = nkey v (take d ?T)" and v: "v \<le> newVersion tu"
    and i: "getNode load nodeKey tu = Inr (Internal i)"
    and ch: "child_ok (src load tu) H m v (take d ?T) r i ?n"
    using Suc.prems(4) by (auto simp: present_def rep_Suc)
  show ?case
  proof (cases "gm_get (i_children i) ?n")
    case None
    then show ?thesis using i dd by (simp add: deleteAt.simps [of H load nodeKey] InternalNode_Child_eq)
  next
    case (Some c)
    let ?ck = "nkey (c_Version c) (take (Suc d) ?T)"
    have "present load H m (take (Suc d) ?T) r ?ck tu"
      using Some ch v path_step [OF dd, of k] by (auto simp: present_def child_ok_def)
    then obtain nk' where "deleteAt H load ?ck (mkpath ?T) (Suc d) tu = (Inr (nk', False), tu)"
      using Suc.IH [of "Suc d" ?ck] Suc.prems by auto
    then show ?thesis
      using i dd Some path_step [OF dd, of k] unfolding deleteAt.simps [of H load nodeKey]
      by (simp add: InternalNode_Child_eq nk)
  qed
qed

definition delete_post :: "(NodeKey \<Rightarrow> Node result) \<Rightarrow> (bytes \<Rightarrow> hash) \<Rightarrow> LeafNode set \<Rightarrow> contents \<Rightarrow> nibble list \<Rightarrow> nat \<Rightarrow> nat
    \<Rightarrow> TreeUpdater \<Rightarrow> NodeKey \<times> bool \<Rightarrow> TreeUpdater \<Rightarrow> bool" where
  "delete_post load H L m T d r tu res tu' \<longleftrightarrow>
     merkle H m (take d T) r = None \<and> res = (zeroNodeKey, True) \<and> updated H L m T d tu tu'
     \<or> res = (nkey (newVersion tu) (take d T), True) \<and> insert_post load H L m T d r tu tu'"

text \<open>A leaf sibling at depth 63 would be a twin.\<close>

lemma no_twin_sibling:
  assumes "no_twin m k" and "wf_key k" and "d + 1 = MaxTreeDepth" and "n' \<le> MaxNibbleValue" and "n' \<noteq> nibble_at k d" and "m k \<noteq> None"
  shows "merkle H m (take d (nibbles_of k) @ [n']) 0 = None"
proof -
  let ?p = "take d (nibbles_of k) @ [n']"
  have p: "wf_nibbles ?p" "length ?p = MaxTreeDepth" using assms(3,4) by (auto intro!: wf_nibbles_snoc)
  have nib: "nibbles_of (pack ?p) = ?p" using nibbles_of_pack [OF p(2,1)] .
  have d63: "d = 63" using assms(3) by (simp add: MaxTreeDepth_def)
  have "take 63 (nibbles_of (pack ?p)) = take 63 (nibbles_of k)"
    unfolding nib using assms(3) d63 by simp
  moreover have "pack ?p \<noteq> k"
  proof
    assume "pack ?p = k"
    then have "nibbles_of k ! d = ?p ! d" using nib by simp
    with assms(3,5) show False by (simp add: nth_append)
  qed
  ultimately have "m (pack ?p) = None" using assms(1,6) wf_key_pack [OF p(2)] by (simp add: no_twin_def)
  then show ?thesis by simp
qed

lemma merkle_Suc_None:
  assumes "\<forall>n \<le> MaxNibbleValue. merkle H m (p @ [n]) r = None"
  shows "merkle H m p (Suc r) = None"
  using assms by (simp add: merkle.simps(2) nibble_range_iff)

text \<open>
  One level of the deletion when the child is gone: the parent loses the child, and is dropped when it was
  the last one.
\<close>

lemma delete_level_removed:
  fixes k d tu tu1
  defines "T \<equiv> nibbles_of k" and "nv \<equiv> newVersion tu"
  defines "n \<equiv> nibble_at k d" and "p \<equiv> take d (nibbles_of k)"
  assumes d: "d + Suc r = MaxTreeDepth" and k: "wf_key k" "no_twin m k" "m k \<noteq> None"
    and i: "wf_node (Internal i)" and ch: "\<forall>n' \<le> MaxNibbleValue. child_ok (src load tu) H m v p r i n'" and v: "v \<le> nv"
    and up: "updated H L (m(k := None)) T (Suc d) tu tu1" and gone: "merkle H (m(k := None)) (p @ [n]) r = None"
  shows "\<exists>res tu'. collapse load (nkey v p) (nkey nv p)
      ((InternalNode_Clone i nv)\<lparr>i_children := gm_del n (i_children i), i_cachedHash := None\<rparr>)
      (cloned (nkey v p) (nkey nv p) tu1) = (Inr res, tu')
    \<and> delete_post load H L (m(k := None)) T d (Suc r) tu res tu'"
proof -
  let ?i = "(InternalNode_Clone i nv)\<lparr>i_children := gm_del n (i_children i), i_cachedHash := None\<rparr>"
  let ?m = "m(k := None)" and ?tu2 = "cloned (nkey v p) (nkey nv p) tu1"
  have dd: "d < MaxTreeDepth" using d by simp
  have n: "n \<le> MaxNibbleValue" by (simp add: n_def)
  have p: "wf_nibbles p" "length p + Suc r = MaxTreeDepth" using d by (simp_all add: p_def)
  have nv1: "newVersion tu1 = nv" and ok1: "tu_ok H tu1" using up by (auto simp: updated_def nv_def)
  have up2: "updated H L ?m T d tu ?tu2"
    using v nv1 p(1) updated_trans [OF updated_mono [OF up]] updated_cloned [OF ok1, of "nkey v p" L ?m T d "nkey nv p"]
    by auto
  have wf: "wf_node (Internal ?i)" using RemoveChild_wf [where i = "InternalNode_Clone i nv" and n = n] i by simp
  have sib: "child_ok (src load tu1) H ?m nv p r ?i n'" if "n' \<le> MaxNibbleValue" "n' \<noteq> n" for n'
    using ch that v unfolding p_def n_def
    by (intro sibling_ok [OF up [unfolded T_def] dd d, where m = m and v = v and i = i]) (auto simp: fun_upd_other)
  have cok: "\<forall>n' \<le> MaxNibbleValue. child_ok (src load tu1) H ?m nv p r ?i n'"
  proof (intro allI impI)
    fix n' :: nibble
    assume "n' \<le> MaxNibbleValue"
    then show "child_ok (src load tu1) H ?m nv p r ?i n'"
      using sib gone by (cases "n' = n") (auto simp: child_ok_def)
  qed
  have src2: "src load ?tu2 = src load tu1" by (auto simp: fun_eq_iff getNode_def)
  show ?thesis
  proof (cases "i_children ?i = []")
    case True
    then have "merkle H ?m p (Suc r) = None" using cok by (intro merkle_Suc_None) (auto simp: child_ok_def)
    moreover have "updated H L ?m T d tu (markStale (nkey v p) ?tu2)"
      using up2 v p(1) by (auto simp: updated_def tu_ok_stale nv_def)
    ultimately show ?thesis
      using collapse_drop [OF True] by (auto simp: delete_post_def p_def T_def)
  next
    case False
    have "\<not> c_IsLeaf c" if only: "i_children ?i = [(n', c)]" for n' c
    proof
      assume leaf: "c_IsLeaf c"
      have get: "gm_get (gm_del n (i_children i)) n' = Some c" using only by (simp add: fun_upd_same)
      then have n': "n' \<noteq> n" "gm_get (i_children i) n' = Some c" by (auto split: if_splits)
      then have le: "n' \<le> MaxNibbleValue" using gm_get_children_nibble [OF i] by blast
      with ch n'(2) have "merkle H m (p @ [n']) r = Some (c_Hash c)" "c_IsLeaf c = (r = 0)"
        by (auto simp: child_ok_def)
      with leaf n'(1) le d k show False
        using no_twin_sibling [OF k(2,1) _ _ _ k(3), of d n' H] by (simp add: p_def n_def)
    qed
    then have save: "collapse load (nkey v p) (nkey nv p) ?i ?tu2 =
        (Inr (nkey nv p, True), markStale (nkey v p) (putWrite nv p (Internal ?i) ?tu2))"
      using p False by (intro collapse_save) auto
    have rep: "rep (src load (putWrite nv p (Internal ?i) ?tu2)) H ?m nv p (Suc r)"
      using wf False p cok src2 by (intro rep_putWrite) auto
    have nok: "node_ok H nv (Internal ?i)"
    proof -
      have "c_Version c \<le> nv" if "(n', c) \<in> set (gm_del n (i_children i))" for n' c
        using node_ok_Clone [OF i ch v] that set_gm_del [of n "i_children i"] by auto
      then show ?thesis using wf by auto
    qed
    moreover have hash: "merkle H ?m (take d T) (MaxTreeDepth - d) = Some (Node_Hash H (Internal ?i))"
      using rep_hash [OF rep] d p(1) by (auto simp: getNode_putWrite T_def p_def simp flip: d)
    ultimately have "updated H L ?m T d ?tu2 (putWrite nv p (Internal ?i) ?tu2)"
      using updated_write [OF updated_ok(1) [OF up2], of "Internal ?i" T d L ?m] nv1 dd hash by (simp add: T_def p_def)
    then have "updated H L ?m T d tu (putWrite nv p (Internal ?i) ?tu2)"
      using updated_trans [OF up2] by blast
    with rep have "insert_post load H L ?m T d (Suc r) tu (markStale (nkey v p) (putWrite nv p (Internal ?i) ?tu2))"
      using v by (intro insert_post_stale) (auto simp: insert_post_def p_def T_def nv_def)
    with save show ?thesis unfolding delete_post_def nv_def p_def T_def by blast
  qed
qed

lemma delete_level_kept:
  fixes k d tu tu1
  defines "T \<equiv> nibbles_of k" and "nv \<equiv> newVersion tu"
  defines "n \<equiv> nibble_at k d" and "p \<equiv> take d (nibbles_of k)"
  assumes ok: "tu_ok H tu" and H: "\<And>x. wf_hash (H x)" and d: "d + Suc r = MaxTreeDepth" and k: "wf_key k"
    and i: "wf_node (Internal i)" and ch: "\<forall>n' \<le> MaxNibbleValue. child_ok (src load tu) H m v p r i n'" and v: "v \<le> nv"
    and post: "insert_post load H L (m(k := None)) T (Suc d) r tu tu1"
  shows "\<exists>c i' tu'. childInfo H (nkey nv (take (Suc d) T)) (cloned (nkey v p) (nkey nv p) tu1) = Inr c
    \<and> SetChild (InternalNode_Clone i nv) n c = Inr i'
    \<and> collapse load (nkey v p) (nkey nv p) i' (cloned (nkey v p) (nkey nv p) tu1) = (Inr (nkey nv p, True), tu')
    \<and> insert_post load H L (m(k := None)) T d (Suc r) tu tu'"
proof -
  let ?m = "m(k := None)" and ?tu2 = "cloned (nkey v p) (nkey nv p) tu1"
  have dd: "d < MaxTreeDepth" using d by simp
  have p: "wf_nibbles p" "length p + Suc r = MaxTreeDepth" using d by (simp_all add: p_def)
  have up: "updated H L ?m T (Suc d) tu tu1" using post by (simp add: insert_post_def)
  then have nv1: "newVersion tu1 = nv" and ok1: "tu_ok H tu1" by (auto simp: updated_def nv_def)
  have post2: "insert_post load H L ?m T (Suc d) r tu ?tu2"
    using post v nv1 p(1) by (intro insert_post_same_writes [OF post] updated_cloned [OF ok1]) auto
  have up2: "updated H L ?m T (Suc d) tu ?tu2" using post2 by (simp add: insert_post_def)
  have sib: "child_ok (src load ?tu2) H ?m nv p r (InternalNode_Clone i nv) n'" if "n' \<le> MaxNibbleValue" "n' \<noteq> n" for n'
    using ch that v unfolding p_def n_def
    by (intro sibling_ok [OF up2 [unfolded T_def p_def] dd d, where m = m and v = v and i = i]) (auto simp: fun_upd_other)
  have iok: "node_ok H nv (Internal (InternalNode_Clone i nv))" using node_ok_Clone [OF i ch v] .
  obtain c i' where ci: "childInfo H (nkey nv (take (Suc d) T)) ?tu2 = Inr c" "SetChild (InternalNode_Clone i nv) n c = Inr i'"
    "insert_post load H L ?m T d (Suc r) tu (putWrite nv p (Internal i') ?tu2)"
    using insert_level [OF ok H d post2 [unfolded T_def], of "InternalNode_Clone i nv"] sib iok
    unfolding T_def nv_def n_def p_def by blast
  have "r \<noteq> 0"
  proof
    assume r: "r = 0"
    then have "take (Suc d) (nibbles_of k) = nibbles_of k" using d by simp
    with post r k show False by (auto simp: insert_post_def T_def pack_nibbles_of fun_upd_same)
  qed
  moreover have "c_IsLeaf c = (r = 0)"
    using childInfo_rep [of load ?tu2 H ?m nv "take (Suc d) T" r] post2 ci(1)
    by (auto simp: insert_post_def T_def nv_def)
  moreover have ch': "i_children i' = gm_put n c (i_children i)"
    using ci(2) SetChild_ok [of n "InternalNode_Clone i nv" c] by (simp add: n_def)
  ultimately have "\<not> c_IsLeaf c'" if "i_children i' = [(n', c')]" for n' c'
  proof -
    have "gm_get [(n', c')] n = Some c" using that ch' by (metis gm_get_put)
    then have "c' = c" by (simp add: fun_upd_apply split: if_splits)
    then show ?thesis using \<open>r \<noteq> 0\<close> \<open>c_IsLeaf c = (r = 0)\<close> by simp
  qed
  then have "collapse load (nkey v p) (nkey nv p) i' ?tu2
      = (Inr (nkey nv p, True), markStale (nkey v p) (putWrite nv p (Internal i') ?tu2))"
    by (intro collapse_save p(1)) (simp add: ch', blast)
  moreover have "insert_post load H L ?m T d (Suc r) tu (markStale (nkey v p) (putWrite nv p (Internal i') ?tu2))"
    using ci(3) v p(1) by (intro insert_post_stale) (auto simp: nv_def)
  ultimately show ?thesis using ci(1,2) by blast
qed

lemma deleteAt_found:
  assumes "tu_ok H tu" and H: "\<And>x. wf_hash (H x)" and k: "wf_key k" "no_twin m k" and "m k \<noteq> None"
    and "d + r = MaxTreeDepth" and "present load H m (take d (nibbles_of k)) r nodeKey tu"
  shows "\<exists>res tu'. deleteAt H load nodeKey (mkpath (nibbles_of k)) d tu = (Inr res, tu')
    \<and> delete_post load H L (m(k := None)) (nibbles_of k) d r tu res tu'"
  using assms(1,5-7)
proof (induction r arbitrary: d nodeKey tu)
  case 0
  then obtain v l where nk: "nodeKey = nkey v (nibbles_of k)" "v \<le> newVersion tu" and d: "d = MaxTreeDepth"
    and l: "getNode load nodeKey tu = Inr (Leaf l)" "l_key l = k"
    by (auto simp: present_def pack_nibbles_of [OF k(1)])
  have "deleteAt H load nodeKey (mkpath (nibbles_of k)) d tu = (Inr (zeroNodeKey, True), markStale nodeKey tu)"
    using l d by (simp add: deleteAt.simps [of H load nodeKey] ToNibblePath_mkpath del: ToNibblePath_eq)
  moreover have "merkle H (m(k := None)) (take d (nibbles_of k)) 0 = None"
    using d by (simp add: pack_nibbles_of [OF k(1)] fun_upd_same)
  moreover have "updated H L (m(k := None)) (nibbles_of k) d tu (markStale nodeKey tu)"
    using "0.prems"(1) nk by (intro updated_stale) auto
  ultimately show ?case by (auto simp: delete_post_def)
next
  case (Suc r)
  let ?T = "nibbles_of k" and ?m = "m(k := None)" and ?n = "nibble_at k d" and ?nv = "newVersion tu" and ?p = "take d (nibbles_of k)"
  have dd: "d < MaxTreeDepth" using Suc.prems by simp
  obtain v i where nk: "nodeKey = nkey v ?p" and v: "v \<le> ?nv"
    and i: "getNode load nodeKey tu = Inr (Internal i)" "wf_node (Internal i)"
    and ch: "\<forall>n \<le> MaxNibbleValue. child_ok (src load tu) H m v ?p r i n"
    using Suc.prems(4) by (auto simp: present_def rep_Suc)
  have chn: "child_ok (src load tu) H m v ?p r i ?n" using ch by simp
  have "merkle H m (?p @ [?n]) r \<noteq> None"
    using merkle_None_iff [of "?p @ [?n]" r H m] Suc.prems(2,3) k(1) path_step [OF dd, of k] by auto
  with chn obtain c where c: "gm_get (i_children i) ?n = Some c"
    by (auto simp: child_ok_def split: option.splits)
  let ?ck = "nkey (c_Version c) (take (Suc d) ?T)"
  have "present load H m (take (Suc d) ?T) r ?ck tu"
    using c chn v path_step [OF dd, of k] by (auto simp: present_def child_ok_def)
  then obtain res tu1 where del: "deleteAt H load ?ck (mkpath ?T) (Suc d) tu = (Inr res, tu1)"
    and post: "delete_post load H L ?m ?T (Suc d) r tu res tu1"
    using Suc.IH [of tu "Suc d" ?ck] Suc.prems by auto
  have up: "updated H L ?m ?T (Suc d) tu tu1" using post by (auto simp: delete_post_def insert_post_def)
  have clone: "cloneInternalNode nodeKey i tu1 = (Inr (InternalNode_Clone i ?nv, nkey ?nv ?p), cloned (nkey v ?p) (nkey ?nv ?p) tu1)"
    using updated_ok(2) [OF up] by (simp add: nk cloneInternalNode_nkey)
  have step: "deleteAt H load nodeKey (mkpath ?T) d tu =
     (case (if nk_Version (fst res) = 0 then RemoveChild (InternalNode_Clone i ?nv) ?n
            else bindE (childInfo H (fst res) (cloned (nkey v ?p) (nkey ?nv ?p) tu1)) (\<lambda>info. SetChild (InternalNode_Clone i ?nv) ?n info)) of
        Inl e \<Rightarrow> (Inl e, cloned (nkey v ?p) (nkey ?nv ?p) tu1)
      | Inr cloned1 \<Rightarrow> collapse load nodeKey (nkey ?nv ?p) cloned1 (cloned (nkey v ?p) (nkey ?nv ?p) tu1))"
  proof -
    obtain ck' where "res = (ck', True)" using post by (auto simp: delete_post_def)
    then show ?thesis
      using i(1) del clone c dd path_step [OF dd, of k] unfolding deleteAt.simps [of H load nodeKey]
      by (simp add: InternalNode_Child_eq nk)
  qed
  from post consider (gone) "merkle H ?m (take (Suc d) ?T) r = None" "res = (zeroNodeKey, True)"
    | (kept) "res = (nkey ?nv (take (Suc d) ?T), True)" "insert_post load H L ?m ?T (Suc d) r tu tu1"
    unfolding delete_post_def by (elim disjE conjE) simp_all
  then show ?case
  proof cases
    case gone
    note none = gone(1) and res = gone(2)
    have "\<exists>res tu'. collapse load (nkey v ?p) (nkey ?nv ?p)
      ((InternalNode_Clone i ?nv)\<lparr>i_children := gm_del ?n (i_children i), i_cachedHash := None\<rparr>)
      (cloned (nkey v ?p) (nkey ?nv ?p) tu1) = (Inr res, tu') \<and> delete_post load H L ?m ?T d (Suc r) tu res tu'"
      using none path_step [OF dd, of k] by (intro delete_level_removed [OF Suc.prems(3) k assms(5) i(2) ch v up]) simp
    moreover have "deleteAt H load nodeKey (mkpath ?T) d tu = collapse load (nkey v ?p) (nkey ?nv ?p)
      ((InternalNode_Clone i ?nv)\<lparr>i_children := gm_del ?n (i_children i), i_cachedHash := None\<rparr>)
      (cloned (nkey v ?p) (nkey ?nv ?p) tu1)"
      unfolding step by (simp add: res zeroNodeKey_nkey RemoveChild_def nk)
    ultimately show ?thesis by metis
  next
    case kept
    obtain c' i' tu' where c': "childInfo H (nkey ?nv (take (Suc d) ?T)) (cloned (nkey v ?p) (nkey ?nv ?p) tu1) = Inr c'"
      "SetChild (InternalNode_Clone i ?nv) ?n c' = Inr i'"
      "collapse load (nkey v ?p) (nkey ?nv ?p) i' (cloned (nkey v ?p) (nkey ?nv ?p) tu1) = (Inr (nkey ?nv ?p, True), tu')"
      "insert_post load H L ?m ?T d (Suc r) tu tu'"
      using delete_level_kept [OF Suc.prems(1) H Suc.prems(3) k(1) i(2) ch v kept(2)] by blast
    moreover have "?nv \<noteq> 0" using Suc.prems(1) by (auto simp: tu_ok_def)
    ultimately have "deleteAt H load nodeKey (mkpath ?T) d tu = (Inr (nkey ?nv ?p, True), tu')"
      unfolding step by (simp add: kept(1) nk)
    with c'(4) show ?thesis unfolding delete_post_def by blast
  qed
qed

declare fun_upd_apply [simp]

end
