(* ===== verification/UpdaterOps.thy ===== *)
theory UpdaterOps
  imports UpdaterCorrect
begin

text \<open>
  \<open>Put\<close>, \<open>Delete\<close> and \<open>BuildUpdateBatch\<close> of an updater against the specification: the contents change as a
  map, and the batch of a version carries the root hash that the contents determine.
\<close>

section \<open>Updaters that represent contents\<close>

definition tu_rep :: "(NodeKey \<Rightarrow> Node result) \<Rightarrow> (bytes \<Rightarrow> hash) \<Rightarrow> contents \<Rightarrow> TreeUpdater \<Rightarrow> bool" where
  "tu_rep load H m tu \<longleftrightarrow> tu_ok H tu
     \<and> (present load H m [] MaxTreeDepth (currentRoot tu) tu \<or> absent load H m [] MaxTreeDepth (currentRoot tu) tu)"

text \<open>After a successful operation the root is a node of the new version, or there is none left.\<close>

definition tu_done :: "(NodeKey \<Rightarrow> Node result) \<Rightarrow> (bytes \<Rightarrow> hash) \<Rightarrow> contents \<Rightarrow> TreeUpdater \<Rightarrow> bool" where
  "tu_done load H m tu \<longleftrightarrow> tu_ok H tu
     \<and> (currentRoot tu = nkey (newVersion tu) [] \<and> rep (src load tu) H m (newVersion tu) [] MaxTreeDepth
          \<and> gm_get (nodeWrites tu) (skey (newVersion tu) []) \<noteq> None
        \<or> currentRoot tu = zeroNodeKey \<and> merkle H m [] MaxTreeDepth = None)"

lemma tu_done_rep: "tu_done load H m tu \<Longrightarrow> tu_rep load H m tu"
  unfolding tu_done_def tu_rep_def present_def absent_def by (auto simp: getNode_zero tu_ok_def)

text \<open>Every write has the hash that some earlier contents determine for its path, computed from inputs in \<open>S\<close>.\<close>

definition genuine :: "(bytes \<Rightarrow> hash) \<Rightarrow> bytes set \<Rightarrow> TreeUpdater \<Rightarrow> bool" where
  "genuine H S tu \<longleftrightarrow> (\<forall>q w. wf_nibbles q \<longrightarrow> gm_get (nodeWrites tu) (skey (newVersion tu) q) = Some w \<longrightarrow>
     (\<exists>m. merkle H m q (MaxTreeDepth - length q) = Some (Node_Hash H (nw_Node w))
        \<and> merkle_inputs H m q (MaxTreeDepth - length q) \<subseteq> S))"

lemma genuine_updated:
  assumes "genuine H S tu" and "updated H L m T d tu tu'"
  shows "genuine H (S \<union> merkle_inputs H m [] MaxTreeDepth) tu'"
  unfolding genuine_def
proof (intro allI impI)
  fix q w
  assume q: "wf_nibbles q" and w: "gm_get (nodeWrites tu') (skey (newVersion tu') q) = Some w"
  have "gm_get (nodeWrites tu) (skey (newVersion tu) q) = Some w
      \<or> merkle H m q (MaxTreeDepth - length q) = Some (Node_Hash H (nw_Node w))"
    using assms(2) q w unfolding updated_def by metis
  moreover have "merkle_inputs H m q (MaxTreeDepth - length q) \<subseteq> merkle_inputs H m [] MaxTreeDepth"
    using merkle_inputs_below [of "[]" q MaxTreeDepth "MaxTreeDepth - length q" H m] q wf_nibblesD [OF q] by simp
  ultimately show "\<exists>m'. merkle H m' q (MaxTreeDepth - length q) = Some (Node_Hash H (nw_Node w))
      \<and> merkle_inputs H m' q (MaxTreeDepth - length q) \<subseteq> S \<union> merkle_inputs H m [] MaxTreeDepth"
    using assms(1) q unfolding genuine_def by (meson Un_upper1 Un_upper2 order.trans)
qed

text \<open>The leaves among the pending writes.\<close>

definition leaves :: "TreeUpdater \<Rightarrow> LeafNode set" where
  "leaves tu = {l. \<exists>s w. gm_get (nodeWrites tu) s = Some w \<and> nw_Node w = Leaf l}"

lemma leaves_updated:
  assumes "updated H L m T d tu tu'"
  shows "leaves tu' \<subseteq> leaves tu \<union> L"
proof
  fix l
  assume "l \<in> leaves tu'"
  then obtain s w where w: "gm_get (nodeWrites tu') s = Some w" "nw_Node w = Leaf l" by (auto simp: leaves_def)
  moreover have "tu_ok H tu'" "newVersion tu' = newVersion tu" using assms by (auto simp: updated_def)
  ultimately obtain q where "s = skey (newVersion tu) q" "wf_nibbles q" by (metis tu_ok_def write_ok_def)
  with assms w show "l \<in> leaves tu \<union> L" unfolding updated_def leaves_def by blast
qed

section \<open>Put\<close>

definition newLeaf :: "(bytes \<Rightarrow> hash) \<Rightarrow> key \<Rightarrow> bytes \<Rightarrow> version \<Rightarrow> LeafNode" where
  "newLeaf H k val v = \<lparr>l_key = k, l_valueHash = H val, l_value = Some val, l_version = v, l_cachedHash = None\<rparr>"

lemma newLeaf_simps [simp]:
  "l_key (newLeaf H k val v) = k" "l_valueHash (newLeaf H k val v) = H val" "l_value (newLeaf H k val v) = Some val"
  "l_version (newLeaf H k val v) = v" "l_cachedHash (newLeaf H k val v) = None"
  by (simp_all add: newLeaf_def)

definition valid_put :: "key \<Rightarrow> bytes \<Rightarrow> bool" where
  "valid_put k val \<longleftrightarrow> wf_key k \<and> ValidateKey k = Inr () \<and> val \<noteq> [] \<and> length val \<le> MaxValueSize"

lemma new_leaf_newLeaf: "valid_put k val \<Longrightarrow> wf_hash (H val) \<Longrightarrow> new_leaf H k v (newLeaf H k val v)"
  by (simp add: new_leaf_def leaf_ok_def valid_put_def)

lemma currentRoot_irrelevant [simp]:
  "getNode load key (tu\<lparr>currentRoot := r\<rparr>) = getNode load key tu" "tu_ok H (tu\<lparr>currentRoot := r\<rparr>) = tu_ok H tu"
  "genuine H S (tu\<lparr>currentRoot := r\<rparr>) = genuine H S tu" "leaves (tu\<lparr>currentRoot := r\<rparr>) = leaves tu"
  by (simp_all add: getNode_def tu_ok_def genuine_def leaves_def)

lemma Put_correct:
  assumes tu: "tu_rep load H m tu" and H: "\<And>x. wf_hash (H x)" and put: "valid_put k val"
  shows "\<exists>tu'. TreeUpdater_Put H load k val tu = (Inr (H val), tu') \<and> tu_done load H (m(k \<mapsto> H val)) tu'
    \<and> newVersion tu' = newVersion tu \<and> leaves tu' \<subseteq> insert (newLeaf H k val (newVersion tu)) (leaves tu)
    \<and> (\<forall>S. genuine H S tu \<longrightarrow> genuine H (S \<union> merkle_inputs H (m(k \<mapsto> H val)) [] MaxTreeDepth) tu')"
proof -
  let ?l = "newLeaf H k val (newVersion tu)"
  obtain tu' where ins: "insertAt H load (currentRoot tu) (mkpath (nibbles_of k)) 0 ?l tu = (Inr (nkey (newVersion tu) []), tu')"
    and post: "insert_post load H {?l} (m(k \<mapsto> H val)) (nibbles_of k) 0 MaxTreeDepth tu tu'"
    using insertAt_correct [of H tu k ?l "{?l}" 0 MaxTreeDepth load m "currentRoot tu"] tu H
      new_leaf_newLeaf [OF put, of H "newVersion tu", OF H]
    by (auto simp: tu_rep_def simp del: fun_upd_apply)
  have nl: "NewLeafNode H k val (newVersion tu) = Inr ?l"
    using put by (simp add: NewLeafNode_def valid_put_def newLeaf_def)
  let ?tu = "tu'\<lparr>currentRoot := nkey (newVersion tu) []\<rparr>"
  have up: "updated H {?l} (m(k \<mapsto> H val)) (nibbles_of k) 0 tu tu'" using post by (simp add: insert_post_def)
  have "TreeUpdater_Put H load k val tu = (Inr (H val), ?tu)"
    using put ins nl by (simp add: TreeUpdater_Put_def valid_put_def ToNibblePath_mkpath del: ToNibblePath_eq)
  moreover have "tu_done load H (m(k \<mapsto> H val)) ?tu"
    using post by (simp add: tu_done_def insert_post_def updated_def)
  moreover have "leaves tu' \<subseteq> insert ?l (leaves tu)" using leaves_updated [OF up] by blast
  ultimately show ?thesis
    using genuine_updated [OF _ up] up by (auto simp: updated_def simp del: fun_upd_apply)
qed

section \<open>Delete\<close>

lemma Delete_correct:
  assumes tu: "tu_rep load H m tu" and H: "\<And>x. wf_hash (H x)" and k: "wf_key k" "ValidateKey k = Inr ()" "no_twin m k"
    and found: "m k \<noteq> None"
  shows "\<exists>tu'. TreeUpdater_Delete H load k tu = (Inr (), tu') \<and> tu_done load H (m(k := None)) tu'
    \<and> newVersion tu' = newVersion tu \<and> leaves tu' \<subseteq> leaves tu
    \<and> (\<forall>S. genuine H S tu \<longrightarrow> genuine H (S \<union> merkle_inputs H (m(k := None)) [] MaxTreeDepth) tu')"
proof -
  let ?m = "m(k := None)"
  have "merkle H m [] MaxTreeDepth \<noteq> None" using found k(1) merkle_None_iff [of "[]" MaxTreeDepth H m] by auto
  then have pres: "present load H m [] MaxTreeDepth (currentRoot tu) tu" using tu by (auto simp: tu_rep_def absent_def)
  obtain res tu' where del: "deleteAt H load (currentRoot tu) (mkpath (nibbles_of k)) 0 tu = (Inr res, tu')"
    and post: "delete_post load H {} ?m (nibbles_of k) 0 MaxTreeDepth tu res tu'"
    using deleteAt_found [of H tu k m 0 MaxTreeDepth load "currentRoot tu" "{}"] tu H k pres found
    by (auto simp: tu_rep_def simp del: fun_upd_apply)
  have up: "updated H {} ?m (nibbles_of k) 0 tu tu'" using post by (auto simp: delete_post_def insert_post_def)
  let ?tu = "tu'\<lparr>currentRoot := fst res\<rparr>"
  have "TreeUpdater_Delete H load k tu = (Inr (), ?tu)"
    using k del post by (auto simp: TreeUpdater_Delete_def ToNibblePath_mkpath delete_post_def simp del: ToNibblePath_eq)
  moreover have "tu_done load H ?m ?tu"
    using post by (auto simp: tu_done_def insert_post_def updated_def delete_post_def simp del: fun_upd_apply)
  ultimately show ?thesis
    using genuine_updated [OF _ up] leaves_updated [OF up] up by (auto simp: updated_def simp del: fun_upd_apply)
qed

lemma Delete_not_found:
  assumes tu: "tu_rep load H m tu" and k: "wf_key k" "ValidateKey k = Inr ()" and "m k = None"
  shows "TreeUpdater_Delete H load k tu = (Inl ErrKeyNotFound, tu)"
proof -
  obtain nk where "deleteAt H load (currentRoot tu) (mkpath (nibbles_of k)) 0 tu = (Inr (nk, False), tu)"
    using tu deleteAt_not_found [of k m 0 MaxTreeDepth load H "currentRoot tu" tu] deleteAt_missing [of load H m "[]" MaxTreeDepth] k(1) assms(4)
    by (auto simp: tu_rep_def)
  then show ?thesis using k by (simp add: TreeUpdater_Delete_def ToNibblePath_mkpath del: ToNibblePath_eq)
qed

section \<open>The batch of a version\<close>

lemma validateChildren_ok: "\<forall>(n, c) \<in> set cs. c_Version c \<le> nv \<Longrightarrow> validateChildren nv cs = Inr ()"
  by (induction nv cs rule: validateChildren.induct) (auto simp: linorder_not_less [THEN iffD2])

lemma validateNode_ok:
  assumes "node_ok H nv n"
  shows "validateNode H nv n vis = (if Node_Hash H n \<in> set vis then (Inl (Errorf ''circular reference detected''), vis)
    else (Inr (), Node_Hash H n # vis))"
  using assms by (cases n) (auto simp: validateNode_def Let_def validateChildren_ok Children_def leaf_ok_def)

lemma validateNodes_ok:
  assumes "\<forall>x \<in> set ws. node_ok H nv (nw_Node (snd x))"
  shows "is_ok (validateNodes H nv ws vis) \<longleftrightarrow>
    distinct (map (\<lambda>x. Node_Hash H (nw_Node (snd x))) ws) \<and> (\<forall>x \<in> set ws. Node_Hash H (nw_Node (snd x)) \<notin> set vis)"
  using assms
proof (induction ws arbitrary: vis)
  case (Cons sw ws)
  obtain s w where "sw = (s, w)" by (cases sw)
  with Cons show ?case by (auto simp: validateNode_ok image_iff)
qed simp

lemma writes_distinct:
  assumes ok: "tu_ok H tu" and H: "\<And>x. wf_hash (H x)" and gen: "genuine H S tu" and "\<not> collides H S"
  shows "distinct (map (\<lambda>x. Node_Hash H (nw_Node (snd x))) (nodeWrites tu))"
proof -
  have "Node_Hash H (nw_Node w) \<noteq> Node_Hash H (nw_Node w')"
    if sw: "(s, w) \<in> set (nodeWrites tu)" "(s', w') \<in> set (nodeWrites tu)" "s \<noteq> s'" for s w s' w'
  proof
    assume eq: "Node_Hash H (nw_Node w) = Node_Hash H (nw_Node w')"
    have get: "gm_get (nodeWrites tu) s = Some w" "gm_get (nodeWrites tu) s' = Some w'"
      using sw(1,2) ok by (simp_all add: tu_ok_def)
    then obtain q q' where q: "s = skey (newVersion tu) q" "wf_nibbles q" "s' = skey (newVersion tu) q'" "wf_nibbles q'"
      using ok by (metis tu_ok_def write_ok_def)
    obtain m where m: "merkle H m q (MaxTreeDepth - length q) = Some (Node_Hash H (nw_Node w))"
      "merkle_inputs H m q (MaxTreeDepth - length q) \<subseteq> S"
      using gen get(1) q(1,2) unfolding genuine_def by blast
    obtain m' where m': "merkle H m' q' (MaxTreeDepth - length q') = Some (Node_Hash H (nw_Node w))"
      "merkle_inputs H m' q' (MaxTreeDepth - length q') \<subseteq> S"
      using gen get(2) q(3,4) eq unfolding genuine_def by metis
    have "q \<noteq> q'" using sw(3) q by auto
    then have "collides H (merkle_inputs H m q (MaxTreeDepth - length q) \<union> merkle_inputs H m' q' (MaxTreeDepth - length q'))"
      using q(2,4) m(1) m'(1) by (intro merkle_distinct [OF H, where h = "Node_Hash H (nw_Node w)"]) auto
    then have "collides H S" by (rule collides_mono) (use m(2) m'(2) in blast)
    with assms(4) show False by blast
  qed
  moreover have "distinct (map fst (nodeWrites tu))" using ok by (simp add: tu_ok_def)
  ultimately show ?thesis by (fastforce simp: distinct_map inj_on_def)
qed

definition batch_of :: "(bytes \<Rightarrow> hash) \<Rightarrow> contents \<Rightarrow> TreeUpdater \<Rightarrow> UpdateBatch" where
  "batch_of H m tu = \<lparr>NewRootHash = merkle_root H m,
     NewNodes = (if currentRoot tu = zeroNodeKey then [] else nodeWrites tu), StaleNodes = staleNodes tu\<rparr>"

lemma ValidateBatch_ok:
  assumes "tu_ok H tu" and "NewNodes b = nodeWrites tu" and "StaleNodes b = staleNodes tu"
  shows "is_ok (ValidateBatch H tu b) \<longleftrightarrow> distinct (map (\<lambda>x. Node_Hash H (nw_Node (snd x))) (nodeWrites tu))"
proof -
  have ok: "node_ok H (newVersion tu) (nw_Node w)" if "(s, w) \<in> set (nodeWrites tu)" for s w
    using assms(1) that unfolding tu_ok_def write_ok_def by (metis gm_get_mem)
  have "Node_Version n = newVersion tu" if "node_ok H (newVersion tu) n" for n
    using that by (cases n) auto
  with ok have "\<not> (\<exists>(k, w) \<in> set (nodeWrites tu). Node_Version (nw_Node w) \<noteq> newVersion tu)" by blast
  moreover have "\<not> (\<exists>k \<in> set (staleNodes tu). nk_Version k > newVersion tu)"
    using assms(1) by (auto simp: tu_ok_def)
  moreover have "is_ok (validateNodes H (newVersion tu) (nodeWrites tu) []) \<longleftrightarrow>
      distinct (map (\<lambda>x. Node_Hash H (nw_Node (snd x))) (nodeWrites tu))"
  proof -
    have "\<forall>x \<in> set (nodeWrites tu). node_ok H (newVersion tu) (nw_Node (snd x))" using ok by (metis prod.collapse)
    then show ?thesis using validateNodes_ok [of "nodeWrites tu" H "newVersion tu" "[]"] by simp
  qed
  ultimately show ?thesis using assms(2,3)
    by (cases "validateNodes H (newVersion tu) (nodeWrites tu) []") (auto simp: ValidateBatch_def)
qed

lemma BuildUpdateBatch_correct:
  assumes d: "tu_done load H m tu" and H: "\<And>x. wf_hash (H x)" and "genuine H S tu" and "\<not> collides H S"
  shows "BuildUpdateBatch H load tu = Inr (batch_of H m tu)"
proof (cases "currentRoot tu = zeroNodeKey")
  case True
  have "newVersion tu \<noteq> 0" using d by (auto simp: tu_done_def tu_ok_def)
  with True d have "merkle H m [] MaxTreeDepth = None" by (auto simp: tu_done_def zeroNodeKey_nkey)
  with True show ?thesis by (simp add: BuildUpdateBatch_def zeroNodeKey_def batch_of_def merkle_root_def)
next
  case False
  then have root: "currentRoot tu = nkey (newVersion tu) []" and rep: "rep (src load tu) H m (newVersion tu) [] MaxTreeDepth"
    and "gm_get (nodeWrites tu) (skey (newVersion tu) []) \<noteq> None" and ok: "tu_ok H tu"
    using d by (auto simp: tu_done_def)
  then obtain w where w: "gm_get (nodeWrites tu) (skey (newVersion tu) []) = Some w" by blast
  have hash: "Node_Hash H (nw_Node w) = merkle_root H m"
    using rep_merkle_root [OF rep, of "nw_Node w"] w by (simp add: getNode_nkey)
  let ?b = "\<lparr>NewRootHash = merkle_root H m, NewNodes = nodeWrites tu, StaleNodes = staleNodes tu\<rparr>"
  have "is_ok (ValidateBatch H tu ?b)"
    using ValidateBatch_ok [OF ok, of ?b] writes_distinct [OF ok H assms(3,4)] by simp
  then have "ValidateBatch H tu ?b = Inr ()" by (cases "ValidateBatch H tu ?b") auto
  moreover have "newVersion tu \<noteq> 0" using ok by (auto simp: tu_ok_def)
  ultimately show ?thesis
    using root w hash False by (simp add: BuildUpdateBatch_def batch_of_def)
qed

section \<open>The parallel variant\<close>

text \<open>Forcing the hashes first changes nothing but the stored hashes.\<close>

lemma Node_Hash_forceHash: "Node_Hash H (forceHash H n) = Node_Hash H n"
  by (cases n) (auto simp: LeafNode_Hash_def InternalNode_Hash_def Let_def split: option.split)

lemma forceHash_simps [simp]: "Node_Version (forceHash H n) = Node_Version n" "EncodeNode (Some (forceHash H n)) = EncodeNode (Some n)"
  by (cases n; simp add: LeafNode_Hash_def InternalNode_Hash_def EncodeNode_def EncodeLeafNodeInterface_def
      EncodeInternalNodeInterface_def NumChildren_def Children_def lookupChild_def Let_def split: option.split)+

lemma validateNode_forceHash: "validateNode H nv (forceHash H n) vis = validateNode H nv n vis"
  using Node_Hash_forceHash [of H n]
  by (cases n) (auto simp: validateNode_def Let_def Children_def LeafNode_Hash_def InternalNode_Hash_def
      simp del: Node_Hash.simps split: option.split)

lemma validateNodes_forceHashes: "validateNodes H nv (forceHashes H ws) vis = validateNodes H nv ws vis"
proof (induction ws arbitrary: vis)
  case (Cons sw ws)
  then show ?case by (cases sw) (auto simp: forceHashes_def validateNode_forceHash split: prod.split sum.split)
qed (simp add: forceHashes_def)

lemma forceHashes_Nil [simp]: "forceHashes H [] = []"
  by (simp add: forceHashes_def)

lemma gm_get_forceHashes:
  "gm_get (forceHashes H ws) s = map_option (\<lambda>w. w\<lparr>nw_Node := forceHash H (nw_Node w)\<rparr>) (gm_get ws s)"
  by (induction ws) (auto simp: forceHashes_def)

lemma set_forceHashes: "set (forceHashes H ws) = (\<lambda>(k, w). (k, w\<lparr>nw_Node := forceHash H (nw_Node w)\<rparr>)) ` set ws"
  by (auto simp: forceHashes_def)

lemma ValidateBatch_forceHashes:
  "ValidateBatch H (tu\<lparr>nodeWrites := x\<rparr>) (b\<lparr>NewNodes := forceHashes H (NewNodes b)\<rparr>) = ValidateBatch H tu b"
  by (auto simp: ValidateBatch_def validateNodes_forceHashes set_forceHashes case_prod_unfold split: sum.split)

lemma BuildUpdateBatchParallel_eq:
  "BuildUpdateBatchParallel H load tu =
     bindE (BuildUpdateBatch H load tu)
       (\<lambda>b. Inr (if length (nodeWrites tu) < 100 then b else b\<lparr>NewNodes := forceHashes H (NewNodes b)\<rparr>))"
proof (cases "length (nodeWrites tu) < 100")
  case True
  then show ?thesis by (simp add: BuildUpdateBatchParallel_def bindE_def split: sum.split)
next
  case False
  let ?b = "\<lambda>h. \<lparr>NewRootHash = h, NewNodes = nodeWrites tu, StaleNodes = staleNodes tu\<rparr>"
  have val: "ValidateBatch H (tu\<lparr>nodeWrites := forceHashes H (nodeWrites tu)\<rparr>)
      \<lparr>NewRootHash = h, NewNodes = forceHashes H (nodeWrites tu), StaleNodes = staleNodes tu\<rparr> = ValidateBatch H tu (?b h)" for h
    using ValidateBatch_forceHashes [where b = "?b h"] by simp
  note defs = BuildUpdateBatchParallel_def BuildUpdateBatch_def Let_def gm_get_forceHashes Node_Hash_forceHash val
  show ?thesis
  proof (cases "nk_Version (currentRoot tu) = 0 \<and> Length (nk_NibblePath (currentRoot tu)) = 0")
    case True
    with False show ?thesis by (simp add: defs forceHashes_def)
  next
    case root: False
    show ?thesis
    proof (cases "nodeKeyToString (currentRoot tu)")
      case (Inl e)
      with False root show ?thesis by (simp add: defs forceHashes_def)
    next
      case (Inr s)
      show ?thesis
      proof (cases "gm_get (nodeWrites tu) s")
        case None
        with False root Inr show ?thesis
          by (cases "load (currentRoot tu)"; cases "ValidateBatch H tu (?b EmptyHash)";
              simp add: defs; cases "ValidateBatch H tu (?b (Node_Hash H (projr (load (currentRoot tu)))))"; simp)
      next
        case (Some w)
        with False root Inr show ?thesis
          by (cases "ValidateBatch H tu (?b (Node_Hash H (nw_Node w)))") (auto simp: defs)
      qed
    qed
  qed
qed

end
