(* ===== verification/TreeCommit.thy ===== *)
theory TreeCommit
  imports Tree UpdaterOps
begin

text \<open>
  The storage side of the tree against the specification of \<open>MerkleSpec\<close>: a reader that walks nodes
  representing some contents returns the value of the key, and the commit of an update batch makes the
  storage represent the new contents while every older version keeps its nodes.
\<close>

section \<open>Loading\<close>

lemma load_nkey:
  "wf_nibbles q \<Longrightarrow> loadNodeFromStorage db (nkey v q) =
     (if ms_closing db then Inl (Wrapf ''failed to load node'' ErrStorageClosed)
      else case gm_get (ms_data db) (skey v q) of
             None \<Rightarrow> Inl (Errorf ''node not found'')
           | Some data \<Rightarrow> (case DecodeNode data v of Inl err \<Rightarrow> Inl (wrapE ''failed to decode node'' err) | Inr node \<Rightarrow> Inr node))"
  by (simp add: loadNodeFromStorage_def wf_nibblesD Storage_Get_def skey_def wrapE_def split: option.split)

lemma load_cong:
  "wf_nibbles q \<Longrightarrow> ms_closing db' = ms_closing db \<Longrightarrow> gm_get (ms_data db') (skey v q) = gm_get (ms_data db) (skey v q) \<Longrightarrow>
     loadNodeFromStorage db' (nkey v q) = loadNodeFromStorage db (nkey v q)"
  by (simp add: load_nkey)

text \<open>A loader that returns at least the same nodes, possibly as read back from storage, represents the same contents.\<close>

lemma rep_mono:
  assumes "rep g H m v p r" and "0 < v" and "wf_nibbles p" and "length p + r = MaxTreeDepth"
    and "\<And>w q n. 0 < w \<Longrightarrow> wf_nibbles q \<Longrightarrow> g (nkey w q) = Inr n \<Longrightarrow>
      g' (nkey w q) = Inr n \<or> g' (nkey w q) = Inr (stored w n)"
  shows "rep g' H m v p r"
  using assms(1-4)
proof (induction r arbitrary: v p)
  case 0
  then obtain l where l: "g (nkey v p) = Inr (Leaf l)" "leaf_ok l" "l_key l = pack p" "m (pack p) = Some (l_valueHash l)"
    by auto
  from assms(5) [OF 0(2,3) l(1)] show ?case
    using l(2-) by (auto simp: leaf_ok_def NewLeafNodeFromCodec_def)
next
  case (Suc r)
  obtain i where i: "g (nkey v p) = Inr (Internal i)" "wf_node (Internal i)" "i_cachedHash i = None" "i_children i \<noteq> []"
    and ch: "\<And>n. n \<le> MaxNibbleValue \<Longrightarrow> child_ok g H m v p r i n"
    using Suc.prems(1) unfolding rep_Suc by blast
  have step: "child_ok g' H m v p r j n" if n: "n \<le> MaxNibbleValue" and j: "gm_get (i_children j) n = gm_get (i_children i) n" for j n
  proof -
    have "wf_nibbles (p @ [n])" using Suc.prems n by (intro wf_nibbles_snoc) auto
    then have "rep g' H m w (p @ [n]) r" if "rep g H m w (p @ [n]) r" "0 < w" for w
      using that Suc.prems(4) by (intro Suc.IH) auto
    with ch [OF n] j show ?thesis by (auto simp: child_ok_def split: option.splits)
  qed
  from assms(5) [OF Suc.prems(2,3) i(1)] show ?case
  proof
    assume "g' (nkey v p) = Inr (Internal i)"
    with i step show ?thesis unfolding rep_Suc by blast
  next
    let ?j = "NewInternalNodeFromCodec (sorted_children i) v"
    assume "g' (nkey v p) = Inr (stored v (Internal i))"
    moreover have "wf_node (Internal ?j)" using wf_stored [OF i(2), of v] by simp
    moreover have "i_children ?j = sorted_children i" "i_cachedHash ?j = None" by (simp_all add: NewInternalNodeFromCodec_def)
    moreover have "sorted_children i \<noteq> []" using i(4) length_sorted_children [of i] by (metis length_0_conv)
    ultimately show ?thesis using step [of _ ?j] unfolding rep_Suc by (intro exI [where x = ?j]) simp
  qed
qed

lemma rep_leaf:
  assumes "rep g H m v p r" and "wf_nibbles p" and "length p + r = MaxTreeDepth" and "below p k" and "wf_key k" and "m k = Some h"
  shows "\<exists>w l. g (nkey w (nibbles_of k)) = Inr (Leaf l) \<and> l_valueHash l = h"
  using assms
proof (induction r arbitrary: v p)
  case 0
  then have "p = nibbles_of k" by (simp add: below_def ext_def)
  with 0 show ?case by (auto simp: pack_nibbles_of)
next
  case (Suc r)
  let ?n = "nibble_at k (length p)"
  have wf: "wf_nibbles (p @ [?n])" using Suc.prems by (intro wf_nibbles_snoc) auto
  have below: "below (p @ [?n]) k" using Suc.prems by (simp add: below_snoc)
  have "merkle H m (p @ [?n]) r \<noteq> None"
    using merkle_None_iff [OF wf, of r H m] Suc.prems below by auto
  moreover have "?n \<le> MaxNibbleValue" using Suc.prems(3) by simp
  then have "\<exists>i. child_ok g H m v p r i ?n" using Suc.prems(1) unfolding rep_Suc by blast
  ultimately obtain w where "rep g H m w (p @ [?n]) r" by (auto simp: child_ok_def split: option.splits)
  with Suc.IH [of w "p @ [?n]"] wf below Suc.prems show ?case by simp
qed

section \<open>Reading\<close>

text \<open>A reader whose snapshot is a copy of the data of \<open>db\<close>.\<close>

definition reads :: "TreeReader \<Rightarrow> Storage \<Rightarrow> bool" where
  "reads rd db \<longleftrightarrow> (\<exists>sn. rd_snapshot rd = MemSnapshot sn \<and> sn_data sn = ms_data db)"

lemma Reader_loadNode_reads:
  "reads rd db \<Longrightarrow> wf_nibbles q \<Longrightarrow> loadNodeFromStorage db (nkey v q) = Inr n \<Longrightarrow> Reader_loadNode rd (nkey v q) = Inr (Some n)"
  by (auto simp: reads_def Reader_loadNode_def load_nkey wf_nibblesD skey_def split: if_splits option.splits sum.splits)

lemma readLoop_correct:
  assumes "rep (loadNodeFromStorage db) H m v (take d (nibbles_of k)) r" and "d + r = MaxTreeDepth" and "reads rd db" and "wf_key k"
    and "v \<le> rd_version rd" and "loadNodeFromStorage db (nkey v (take d (nibbles_of k))) = Inr n"
  shows "readLoop H rd k (mkpath (nibbles_of k)) d r n =
    (case m k of None \<Rightarrow> Inr None | Some h \<Rightarrow> bindE (loadValue H rd h) (\<lambda>b. Inr (Some b)))"
  using assms
proof (induction r arbitrary: d v n)
  case 0
  then show ?case by (auto simp: pack_nibbles_of readLeaf_def)
next
  case (Suc r)
  let ?p = "take d (nibbles_of k)" and ?n = "nibble_at k d"
  have d: "d < MaxTreeDepth" using Suc.prems(2) by simp
  obtain i where i: "n = Internal i" and ch: "\<And>n. n \<le> MaxNibbleValue \<Longrightarrow> child_ok (loadNodeFromStorage db) H m v ?p r i n"
    using Suc.prems(1,6) unfolding rep_Suc by auto
  have wf: "wf_nibbles (?p @ [?n])" and p: "?p @ [?n] = take (Suc d) (nibbles_of k)"
    using d by (simp_all add: path_step)
  show ?case
  proof (cases "gm_get (i_children i) ?n")
    case None
    then have "merkle H m (?p @ [?n]) r = None" using ch [of ?n] by (simp add: child_ok_def)
    then have "m k = None" using merkle_None_iff [OF wf, of r H m] Suc.prems(2,4) d by (simp add: p)
    with None i d show ?thesis by (simp add: InternalNode_Child_eq)
  next
    case (Some c)
    then have c: "rep (loadNodeFromStorage db) H m (c_Version c) (take (Suc d) (nibbles_of k)) r" "c_Version c \<le> v"
      using ch [of ?n] by (simp_all add: child_ok_def p)
    obtain n' where n': "loadNodeFromStorage db (nkey (c_Version c) (take (Suc d) (nibbles_of k))) = Inr n'"
      using rep_hash [OF c(1)] by blast
    have le: "c_Version c \<le> rd_version rd" using c(2) Suc.prems(5) by (rule order.trans)
    have key: "\<lparr>nk_Version = c_Version c, nk_NibblePath = \<lparr>Nibbles = take (Suc d) (nibbles_of k), Length = 1 + of_nat d\<rparr>\<rparr>
        = nkey (c_Version c) (take (Suc d) (nibbles_of k))"
      using d by (simp add: nkey_def mkpath_def)
    have "Reader_loadNode rd (nkey (c_Version c) (take (Suc d) (nibbles_of k))) = Inr (Some n')"
      using Reader_loadNode_reads [OF Suc.prems(3) _ n'] by simp
    moreover have "readLoop H rd k (mkpath (nibbles_of k)) (Suc d) r n' =
        (case m k of None \<Rightarrow> Inr None | Some h \<Rightarrow> bindE (loadValue H rd h) (\<lambda>b. Inr (Some b)))"
      using Suc.IH [OF c(1) _ Suc.prems(3,4) le n'] Suc.prems(2) by simp
    ultimately show ?thesis
      using i Some d le by (simp add: InternalNode_Child_eq key linorder_not_less [THEN iffD2])
  qed
qed

lemma Reader_Get_correct:
  assumes "rep (loadNodeFromStorage db) H m v [] MaxTreeDepth" and "reads rd db" and "wf_key k" and "rd_version rd = v"
  shows "Reader_Get H rd k = (case m k of None \<Rightarrow> Inr None | Some h \<Rightarrow> bindE (loadValue H rd h) (\<lambda>b. Inr (Some b)))"
proof -
  obtain n where n: "loadNodeFromStorage db (nkey v []) = Inr n" using rep_hash [OF assms(1)] by blast
  then have "Reader_loadNode rd (nkey v []) = Inr (Some n)" using Reader_loadNode_reads [OF assms(2)] by simp
  moreover have "readLoop H rd k (mkpath (nibbles_of k)) 0 MaxTreeDepth n =
      (case m k of None \<Rightarrow> Inr None | Some h \<Rightarrow> bindE (loadValue H rd h) (\<lambda>b. Inr (Some b)))"
    using readLoop_correct [of db H m v 0 k MaxTreeDepth rd n] assms n by simp
  ultimately show ?thesis
    using assms(3,4) by (simp add: Reader_Get_def RootNodeKey_nkey ToNibblePath_mkpath del: ToNibblePath_eq)
qed

section \<open>The writes of a batch\<close>

fun leafKVs :: "Node \<Rightarrow> (bytes \<times> bytes) list" where
  "leafKVs (Leaf l) = (case l_value l of None \<Rightarrow> [] | Some b \<Rightarrow> [(DefaultKeyEncoder_ValueKey (l_valueHash l), b)])"
| "leafKVs (Internal i) = []"

definition nodeData :: "Node \<Rightarrow> bytes" where
  "nodeData n = projr (EncodeNode (Some n))"

text \<open>The pairs written for the nodes, in the order of the loop, under a version \<open>nv\<close>.\<close>

fun batchKVs :: "(bytes \<times> NodeWrite) list \<Rightarrow> (bytes \<times> bytes) list" where
  "batchKVs [] = []"
| "batchKVs ((s, w) # ws) = (s, nodeData (nw_Node w)) # leafKVs (nw_Node w) @ batchKVs ws"

definition storable :: "(bytes \<Rightarrow> hash) \<Rightarrow> version \<Rightarrow> bytes \<times> NodeWrite \<Rightarrow> bool" where
  "storable H nv x \<longleftrightarrow> (\<exists>q. fst x = skey nv q \<and> nw_Key (snd x) = nkey nv q \<and> wf_nibbles q) \<and> wf_node (nw_Node (snd x))
     \<and> (\<forall>l. nw_Node (snd x) = Leaf l \<longrightarrow> (\<exists>b. l_value l = Some b \<and> H b = l_valueHash l))"

lemma EncodeNode_nodeData: "wf_node n \<Longrightarrow> EncodeNode (Some n) = Inr (nodeData n)"
  using EncodeNode_total [of n] by (auto simp: nodeData_def)

lemma DecodeNode_nodeData: "wf_node n \<Longrightarrow> DecodeNode (nodeData n) v = Inr (stored v n)"
  using DecodeNode_EncodeNode EncodeNode_nodeData by blast

abbreviation puts :: "(bytes \<times> bytes) list \<Rightarrow> batchOp list" where
  "puts \<equiv> map (\<lambda>(a, b). opPut a b)"

lemma writeNodes_ok:
  assumes "\<forall>x \<in> set ws. storable H nv x"
  shows "writeNodes ws (MemBatch b) = (Inr (), MemBatch (b\<lparr>b_ops := b_ops b @ puts (batchKVs ws)\<rparr>))"
  using assms
proof (induction ws arbitrary: b)
  case (Cons sw ws)
  obtain s w where sw: "sw = (s, w)" by (cases sw)
  have st: "storable H nv (s, w)" using Cons.prems by (simp add: sw)
  then obtain q where q: "s = skey nv q" "nw_Key w = nkey nv q" "wf_nibbles q" by (auto simp: storable_def)
  have wf: "wf_node (nw_Node w)" and leaf: "\<And>l. nw_Node w = Leaf l \<Longrightarrow> \<exists>b. l_value l = Some b"
    using st by (auto simp: storable_def)
  have key: "DefaultKeyEncoder_NodeKey (nw_Key w) = Inr s" using q by (simp add: skey_def wf_nibblesD)
  show ?case
  proof (cases "nw_Node w")
    case (Leaf l)
    with leaf obtain v where "l_value l = Some v" by blast
    with Leaf Cons wf key show ?thesis by (simp add: sw EncodeNode_nodeData del: wf_node.simps)
  next
    case (Internal i)
    with Cons wf key show ?thesis by (simp add: sw EncodeNode_nodeData del: wf_node.simps)
  qed
qed simp

text \<open>What the pairs hold for node keys, value keys and root keys.\<close>

lemma leafKVs_keys: "(a, b) \<in> set (leafKVs n) \<Longrightarrow>
    \<exists>l. n = Leaf l \<and> a = DefaultKeyEncoder_ValueKey (l_valueHash l) \<and> l_value l = Some b"
  by (cases n) (auto split: option.splits)

lemma batchKVs_mem:
  "(a, b) \<in> set (batchKVs ws) \<Longrightarrow> (\<exists>s w. (s, w) \<in> set ws \<and> a = s \<and> b = nodeData (nw_Node w))
     \<or> (\<exists>s w l. (s, w) \<in> set ws \<and> nw_Node w = Leaf l \<and> a = DefaultKeyEncoder_ValueKey (l_valueHash l) \<and> l_value l = Some b)"
  by (induction ws rule: batchKVs.induct) (auto dest!: leafKVs_keys)

lemma batchKVs_node: "(s, w) \<in> set ws \<Longrightarrow> (s, nodeData (nw_Node w)) \<in> set (batchKVs ws)"
  by (induction ws rule: batchKVs.induct) auto

lemma batchKVs_value: "(s, w) \<in> set ws \<Longrightarrow> nw_Node w = Leaf l \<Longrightarrow> l_value l = Some b \<Longrightarrow>
    (DefaultKeyEncoder_ValueKey (l_valueHash l), b) \<in> set (batchKVs ws)"
  by (induction ws rule: batchKVs.induct) auto

lemma skey_disjoint [simp]:
  "skey v q \<noteq> DefaultKeyEncoder_ValueKey h" "skey v q \<noteq> DefaultKeyEncoder_RootKey w"
  "DefaultKeyEncoder_ValueKey h \<noteq> skey v q" "DefaultKeyEncoder_RootKey w \<noteq> skey v q"
  by (simp_all add: skey_def)

section \<open>The data after a commit\<close>

definition commitKVs :: "version \<Rightarrow> UpdateBatch \<Rightarrow> (bytes \<times> bytes) list" where
  "commitKVs v batch = batchKVs (NewNodes batch) @ [(DefaultKeyEncoder_RootKey v, NewRootHash batch)]"

definition commit_db :: "version \<Rightarrow> UpdateBatch \<Rightarrow> Storage \<Rightarrow> Storage" where
  "commit_db v batch db = db\<lparr>ms_data := foldl applyOp (ms_data db) (puts (commitKVs v batch))\<rparr>"

lemma commit_db_get:
  "gm_get (ms_data (commit_db v batch db)) k =
     (case map_of (rev (commitKVs v batch)) k of Some b \<Rightarrow> Some b | None \<Rightarrow> gm_get (ms_data db) k)"
  by (simp add: commit_db_def applyOp_get mem.foldl_puts)

lemma commit_db_simps [simp]:
  "ms_closing (commit_db v batch db) = ms_closing db" "ms_maxSnapshots (commit_db v batch db) = ms_maxSnapshots db"
  "ms_openSnapshots (commit_db v batch db) = ms_openSnapshots db"
  by (simp_all add: commit_db_def)

definition batch_ok :: "(bytes \<Rightarrow> hash) \<Rightarrow> version \<Rightarrow> UpdateBatch \<Rightarrow> bool" where
  "batch_ok H nv batch \<longleftrightarrow> gm_wf (NewNodes batch) \<and> (\<forall>x \<in> set (NewNodes batch). storable H nv x)"

lemma map_of_rev_SomeD: "map_of (rev xs) k = Some v \<Longrightarrow> (k, v) \<in> set xs"
  by (drule map_of_SomeD) simp

lemma map_of_rev_None: "map_of (rev xs) k = None \<Longrightarrow> (k, v) \<notin> set xs"
  by (auto simp: map_of_eq_None_iff rev_image_eqI)

lemma commit_db_node:
  assumes "batch_ok H nv batch" and "wf_nibbles q"
  shows "gm_get (ms_data (commit_db nv batch db)) (skey w q) =
    (case gm_get (NewNodes batch) (skey w q) of Some x \<Rightarrow> Some (nodeData (nw_Node x)) | None \<Rightarrow> gm_get (ms_data db) (skey w q))"
proof (cases "map_of (rev (commitKVs nv batch)) (skey w q)")
  case None
  then have "gm_get (NewNodes batch) (skey w q) = None"
    using map_of_rev_None [OF None] batchKVs_node by (metis commitKVs_def UnI1 map_of_SomeD not_None_eq set_append)
  with None show ?thesis by (simp add: commit_db_get)
next
  case (Some b)
  then have "(skey w q, b) \<in> set (batchKVs (NewNodes batch))" by (auto simp: commitKVs_def dest!: map_of_rev_SomeD)
  then obtain x where "(skey w q, x) \<in> set (NewNodes batch)" "b = nodeData (nw_Node x)" by (auto dest!: batchKVs_mem)
  with assms(1) Some show ?thesis by (simp add: commit_db_get batch_ok_def)
qed

lemma load_commit_db:
  assumes "batch_ok H nv batch" and "wf_nibbles q" and "\<not> ms_closing db"
  shows "loadNodeFromStorage (commit_db nv batch db) (nkey w q) =
    (case gm_get (NewNodes batch) (skey w q) of Some x \<Rightarrow> Inr (stored w (nw_Node x)) | None \<Rightarrow> loadNodeFromStorage db (nkey w q))"
proof (cases "gm_get (NewNodes batch) (skey w q)")
  case None
  then show ?thesis using load_cong [OF assms(2), of "commit_db nv batch db" db w] commit_db_node [OF assms(1,2)] by simp
next
  case (Some x)
  then have "wf_node (nw_Node x)" using assms(1) by (auto simp: batch_ok_def storable_def dest!: map_of_SomeD)
  with Some show ?thesis
    using assms(2,3) commit_db_node [OF assms(1,2), of db w] by (simp add: load_nkey DecodeNode_nodeData del: wf_node.simps)
qed

lemma no_other_version:
  assumes "batch_ok H nv batch" and "wf_nibbles q" and "w \<noteq> nv"
  shows "gm_get (NewNodes batch) (skey w q) = None"
proof (rule ccontr)
  assume "gm_get (NewNodes batch) (skey w q) \<noteq> None"
  then obtain x where "(skey w q, x) \<in> set (NewNodes batch)" by (metis map_of_SomeD not_None_eq)
  with assms show False by (auto simp: batch_ok_def storable_def)
qed

section \<open>Values\<close>

text \<open>
  Every value in the storage hashes to the key it is under and was hashed before (is in \<open>S\<close>), and the value
  of every leaf in the storage is there.
\<close>

definition values_ok :: "(bytes \<Rightarrow> hash) \<Rightarrow> bytes set \<Rightarrow> Storage \<Rightarrow> bool" where
  "values_ok H S db \<longleftrightarrow>
     (\<forall>h b. wf_hash h \<longrightarrow> gm_get (ms_data db) (DefaultKeyEncoder_ValueKey h) = Some b \<longrightarrow> H b = h \<and> b \<in> S)
     \<and> (\<forall>v q l. wf_nibbles q \<longrightarrow> loadNodeFromStorage db (nkey v q) = Inr (Leaf l) \<longrightarrow>
          gm_get (ms_data db) (DefaultKeyEncoder_ValueKey (l_valueHash l)) \<noteq> None)"

definition write_values :: "(bytes \<times> NodeWrite) list \<Rightarrow> bytes set" where
  "write_values ws = {b. \<exists>s w l. (s, w) \<in> set ws \<and> nw_Node w = Leaf l \<and> l_value l = Some b}"

lemma values_commit:
  assumes val: "values_ok H S db" and b: "batch_ok H nv batch" and S: "write_values (NewNodes batch) \<subseteq> S'" "S \<subseteq> S'"
    and "\<not> ms_closing db"
  shows "values_ok H S' (commit_db nv batch db)"
  unfolding values_ok_def
proof (intro conjI allI impI)
  fix h v
  assume h: "wf_hash h" and get: "gm_get (ms_data (commit_db nv batch db)) (DefaultKeyEncoder_ValueKey h) = Some v"
  show "H v = h" "v \<in> S'"
  proof -
    have "H v = h \<and> v \<in> S'"
    proof (cases "map_of (rev (commitKVs nv batch)) (DefaultKeyEncoder_ValueKey h)")
      case None
      with get val h S(2) show ?thesis by (auto simp: commit_db_get values_ok_def)
    next
      case (Some b')
      then have "(DefaultKeyEncoder_ValueKey h, v) \<in> set (batchKVs (NewNodes batch))"
        using get by (auto simp: commit_db_get commitKVs_def dest!: map_of_rev_SomeD split: if_splits)
      moreover have "DefaultKeyEncoder_ValueKey h \<noteq> s" if "(s, w) \<in> set (NewNodes batch)" for s w
        using b that by (auto simp: batch_ok_def storable_def)
      ultimately obtain s w l where w: "(s, w) \<in> set (NewNodes batch)" "nw_Node w = Leaf l"
          "DefaultKeyEncoder_ValueKey h = DefaultKeyEncoder_ValueKey (l_valueHash l)" "l_value l = Some v"
        using batchKVs_mem by blast
      then have "storable H nv (s, w)" using b by (simp add: batch_ok_def)
      with w h have "l_valueHash l = h" "H v = l_valueHash l" by (auto simp: storable_def)
      with w S(1) show ?thesis by (auto simp: write_values_def)
    qed
    then show "H v = h" "v \<in> S'" by simp_all
  qed
next
  fix v q l
  assume q: "wf_nibbles q" and load: "loadNodeFromStorage (commit_db nv batch db) (nkey v q) = Inr (Leaf l)"
  let ?vk = "DefaultKeyEncoder_ValueKey (l_valueHash l)"
  show "gm_get (ms_data (commit_db nv batch db)) ?vk \<noteq> None"
  proof (cases "gm_get (NewNodes batch) (skey v q)")
    case None
    then have "loadNodeFromStorage db (nkey v q) = Inr (Leaf l)" using load load_commit_db [OF b q assms(5), of v] by simp
    with val q have "gm_get (ms_data db) ?vk \<noteq> None" unfolding values_ok_def by blast
    then show ?thesis by (simp add: commit_db_get split: option.split)
  next
    case (Some x)
    then have "stored v (nw_Node x) = Leaf l" using load load_commit_db [OF b q assms(5), of v] by simp
    then obtain l' where l': "nw_Node x = Leaf l'" "l_valueHash l' = l_valueHash l"
      by (cases "nw_Node x") (auto simp: NewLeafNodeFromCodec_def)
    have mem: "(skey v q, x) \<in> set (NewNodes batch)" using Some by (rule map_of_SomeD)
    then obtain b' where "l_value l' = Some b'" using b l'(1) by (fastforce simp: batch_ok_def storable_def)
    with mem l' have "(?vk, b') \<in> set (commitKVs nv batch)" using batchKVs_value [OF mem l'(1)] by (simp add: commitKVs_def)
    then have "map_of (rev (commitKVs nv batch)) ?vk \<noteq> None" using map_of_rev_None by metis
    then show ?thesis by (auto simp: commit_db_get)
  qed
qed

section \<open>Committing a batch\<close>

lemma commitBatch_ok:
  assumes "\<not> ms_closing (t_db t)" and "batch_ok H v batch" and "gm_get (pendingWrites (t_versionManager t)) v = Some p"
  shows "commitBatch now v batch t = (Inr (), t\<lparr>t_db := commit_db v batch (t_db t),
    t_rootHashes := gm_put v (NewRootHash batch) (t_rootHashes t),
    t_latestVer := (if v > t_latestVer t then v else t_latestVer t),
    t_versionManager := snd (VersionManager_Commit now v (NewRootHash batch) (int (length (NewNodes batch))) (t_versionManager t)),
    t_stats := UpdateVersion (sint v) (UpdateNodeCount (int (length (NewNodes batch))) (t_stats t))\<rparr>)"
proof -
  have wr: "writeNodes (NewNodes batch) (MemBatch \<lparr>b_ops = [], b_closed = False\<rparr>)
      = (Inr (), MemBatch \<lparr>b_ops = puts (batchKVs (NewNodes batch)), b_closed = False\<rparr>)"
    using writeNodes_ok [of "NewNodes batch" H v] assms(2) by (simp add: batch_ok_def)
  show ?thesis
    using assms(1,3)
    by (simp add: commitBatch_def NewBatch_def addRef_def wr Batch_Commit_open batch_close_def VersionManager_Commit_def
        commit_db_def commitKVs_def Let_def del: Batch_Commit.simps)
qed

lemma lookupChild_cachedHash [simp]: "lookupChild (i\<lparr>i_cachedHash := x\<rparr>) = lookupChild i"
  by (auto simp: lookupChild_def Children_def fun_eq_iff)

lemma stored_forceHash [simp]: "stored v (forceHash H n) = stored v n"
  by (cases n) (auto simp: LeafNode_Hash_def InternalNode_Hash_def NewLeafNodeFromCodec_def
      sorted_children_def Let_def split: option.split)

lemma storable_forceHash: "storable H nv (s, w) \<Longrightarrow> storable H nv (s, w\<lparr>nw_Node := forceHash H (nw_Node w)\<rparr>)"
  by (cases "nw_Node w") (auto simp: storable_def LeafNode_Hash_def InternalNode_Hash_def Let_def split: option.split)

lemma write_ok_storable: "write_ok H nv s w \<Longrightarrow> storable H nv (s, w)"
  by (cases "nw_Node w") (auto simp: write_ok_def storable_def leaf_ok_def)

lemma map_fst_forceHashes [simp]: "map fst (forceHashes H ws) = map fst ws"
  by (induction ws) (auto simp: forceHashes_def)

lemma write_values_forceHashes: "write_values (forceHashes H ws) \<subseteq> write_values ws"
proof
  fix b
  assume "b \<in> write_values (forceHashes H ws)"
  then obtain s w l where w: "(s, w) \<in> set ws" "forceHash H (nw_Node w) = Leaf l" "l_value l = Some b"
    by (auto simp: write_values_def set_forceHashes)
  then obtain l' where "nw_Node w = Leaf l'" "l_value l' = Some b"
    by (cases "nw_Node w") (auto simp: LeafNode_Hash_def InternalNode_Hash_def Let_def split: option.splits)
  with w(1) show "b \<in> write_values ws" by (auto simp: write_values_def)
qed

text \<open>Building and optimising the batch of a finished updater.\<close>

definition same_nodes :: "(bytes, NodeWrite) gomap \<Rightarrow> (bytes, NodeWrite) gomap \<Rightarrow> bool" where
  "same_nodes ws ws' \<longleftrightarrow> (\<forall>s v. map_option (\<lambda>w. stored v (nw_Node w)) (gm_get ws s) = map_option (\<lambda>w. stored v (nw_Node w)) (gm_get ws' s))"

lemma same_nodes_forceHashes: "same_nodes (forceHashes H ws) ws"
  by (auto simp: same_nodes_def gm_get_forceHashes option.map_comp comp_def)

lemma batch_ok_of:
  assumes "tu_ok H tu" and "NewNodes b \<in> {[], nodeWrites tu, forceHashes H (nodeWrites tu)}"
  shows "batch_ok H (newVersion tu) b" and "write_values (NewNodes b) \<subseteq> write_values (nodeWrites tu)"
proof -
  have "storable H (newVersion tu) (s, w)" if "(s, w) \<in> set (nodeWrites tu)" for s w
    using assms(1) that by (intro write_ok_storable) (simp add: tu_ok_def)
  then show "batch_ok H (newVersion tu) b"
    using assms by (auto simp: batch_ok_def tu_ok_def set_forceHashes intro!: storable_forceHash)
  show "write_values (NewNodes b) \<subseteq> write_values (nodeWrites tu)"
    using assms(2) write_values_forceHashes [of H "nodeWrites tu"] by (auto simp: write_values_def [of "[]"])
qed

lemma build_ok:
  assumes d: "tu_done load H m tu" and H: "\<And>x. wf_hash (H x)" and S: "genuine H S tu" "\<not> collides H S"
  shows "\<exists>b0 batch. (if par then BuildUpdateBatchParallel H load tu else BuildUpdateBatch H load tu) = Inr b0
    \<and> (case opt of None \<Rightarrow> Inr b0 | Some bo \<Rightarrow> OptimizeBatch bo b0) = Inr batch
    \<and> NewRootHash batch = merkle_root H m
    \<and> NewNodes batch \<in> (if currentRoot tu = zeroNodeKey then {[]} else {nodeWrites tu, forceHashes H (nodeWrites tu)})"
proof -
  have ok: "tu_ok H tu" using d by (simp add: tu_done_def)
  let ?b = "batch_of H m tu"
  have b: "BuildUpdateBatch H load tu = Inr ?b" using BuildUpdateBatch_correct [OF d H S] .
  define b0 where "b0 = (if par \<and> \<not> length (nodeWrites tu) < 100 then ?b\<lparr>NewNodes := forceHashes H (NewNodes ?b)\<rparr> else ?b)"
  have b0: "(if par then BuildUpdateBatchParallel H load tu else BuildUpdateBatch H load tu) = Inr b0"
    by (simp add: BuildUpdateBatchParallel_eq b b0_def)
  have nodes: "NewNodes b0 \<in> (if currentRoot tu = zeroNodeKey then {[]} else {nodeWrites tu, forceHashes H (nodeWrites tu)})"
    and root: "NewRootHash b0 = merkle_root H m" and stale: "StaleNodes b0 = staleNodes tu"
    by (auto simp: b0_def batch_of_def)
  have "NewNodes b0 \<in> {[], nodeWrites tu, forceHashes H (nodeWrites tu)}" using nodes by (auto split: if_splits)
  then have "gm_wf (NewNodes b0)" using batch_ok_of(1) [OF ok] by (simp add: batch_ok_def)
  moreover have "\<forall>k \<in> set (StaleNodes b0). wf_nodekey k" using ok stale by (simp add: tu_ok_def)
  ultimately have "\<exists>batch. (case opt of None \<Rightarrow> Inr b0 | Some bo \<Rightarrow> OptimizeBatch bo b0) = Inr batch
      \<and> NewRootHash batch = NewRootHash b0 \<and> NewNodes batch = NewNodes b0"
    using OptimizeBatch_same [of b0] by (cases opt) (simp, metis option.simps(5))
  with b0 root nodes show ?thesis by metis
qed

text \<open>The storage after the commit represents the new contents, under the new version.\<close>

lemma rep_commit:
  assumes d: "tu_done (loadNodeFromStorage db) H m tu" and root: "currentRoot tu \<noteq> zeroNodeKey"
    and nodes: "NewNodes batch \<in> {nodeWrites tu, forceHashes H (nodeWrites tu)}" and "\<not> ms_closing db"
  shows "rep (loadNodeFromStorage (commit_db (newVersion tu) batch db)) H m (newVersion tu) [] MaxTreeDepth"
proof -
  have ok: "tu_ok H tu" and rep: "rep (src (loadNodeFromStorage db) tu) H m (newVersion tu) [] MaxTreeDepth"
    using d root by (auto simp: tu_done_def)
  have b: "batch_ok H (newVersion tu) batch" using batch_ok_of(1) [OF ok] nodes by blast
  have same: "same_nodes (NewNodes batch) (nodeWrites tu)"
    using nodes same_nodes_forceHashes [of H "nodeWrites tu"] by (elim insertE) (simp_all add: same_nodes_def)
  let ?g = "loadNodeFromStorage (commit_db (newVersion tu) batch db)"
  have grow: "?g (nkey w q) = Inr n \<or> ?g (nkey w q) = Inr (stored w n)"
    if "0 < w" "wf_nibbles q" "getNode (loadNodeFromStorage db) (nkey w q) tu = Inr n" for w q n
  proof -
    have eq: "map_option (\<lambda>x. stored w (nw_Node x)) (gm_get (NewNodes batch) (skey w q))
        = map_option (\<lambda>x. stored w (nw_Node x)) (gm_get (nodeWrites tu) (skey w q))"
      using same by (simp add: same_nodes_def)
    show ?thesis
    proof (cases "gm_get (nodeWrites tu) (skey w q)")
      case None
      then have "gm_get (NewNodes batch) (skey w q) = None" using eq by simp
      with None that show ?thesis using load_commit_db [OF b that(2) assms(4), of w] by (simp add: getNode_nkey split: if_splits)
    next
      case (Some x)
      then obtain y where "gm_get (NewNodes batch) (skey w q) = Some y" "stored w (nw_Node y) = stored w (nw_Node x)"
        using eq by (auto simp: map_option_eq_Some)
      with Some that show ?thesis using load_commit_db [OF b that(2) assms(4), of w] by (simp add: getNode_nkey)
    qed
  qed
  have pos: "0 < newVersion tu" using ok by (simp add: tu_ok_def)
  show ?thesis
    by (rule rep_mono [where g' = ?g and g = "src (loadNodeFromStorage db) tu", OF rep pos _ _ grow]) simp_all
qed

text \<open>A loader that has more nodes, none of them replaced.\<close>

lemma rep_grow:
  assumes "rep g H m v [] MaxTreeDepth" and "0 < v" and "\<And>w q n. wf_nibbles q \<Longrightarrow> g (nkey w q) = Inr n \<Longrightarrow> g' (nkey w q) = Inr n"
  shows "rep g' H m v [] MaxTreeDepth"
  by (rule rep_mono [where g = g and g' = g', OF assms(1,2)]) (simp_all add: assms(3))

end
