(* ===== verification/TreeSpec.thy ===== *)
theory TreeSpec
  imports TreeCommit
begin

text \<open>
  The abstract specification of the tree and the refinement. A tree is a versioned map: every committed
  version is a map from keys to values that never changes again, a pending version is a map under
  construction. \<open>tree_rel\<close> relates such a specification state to a tree over its storage; one lemma per
  operation shows that the code does what the specification does, unless the hash function collides on
  inputs that were hashed (or hashes one of them to the empty hash, which the code reserves for the empty
  tree).
\<close>

section \<open>Versioned maps\<close>

type_synonym vmap = "key \<rightharpoonup> bytes"

record spec =
  sp_committed :: "version \<rightharpoonup> vmap"
  sp_pending :: "version \<rightharpoonup> vmap \<times> bool"
  sp_latest :: version
  sp_current :: version
  sp_hist :: "vmap list"

text \<open>
  A pending version carries whether an operation on it succeeded. \<open>sp_hist\<close> collects the maps that occurred,
  the only purpose of which is to say what was hashed.
\<close>

definition spec_init :: spec where
  "spec_init = \<lparr>sp_committed = [0 \<mapsto> Map.empty], sp_pending = Map.empty, sp_latest = 0, sp_current = 0, sp_hist = [Map.empty]\<rparr>"

definition spec_begin :: "spec \<Rightarrow> version result \<times> spec" where
  "spec_begin sp =
     (if sp_latest sp = MaxVersion then (Inl (Errorf ''version overflow''), sp)
      else let v = sp_latest sp + 1
           in (Inr v, sp\<lparr>sp_latest := v, sp_pending := (sp_pending sp)(v \<mapsto> (the (sp_committed sp (sp_current sp)), False))\<rparr>))"

definition checkPut :: "version \<Rightarrow> key \<Rightarrow> bytes \<Rightarrow> unit result" where
  "checkPut v k val =
     (if v > MaxVersion then Inl (Wrapf ''invalid version'' ErrInvalidVersionRange)
      else if k = emptyKey then Inl (Wrapf ''invalid key'' ErrEmptyKey)
      else if val = [] then Inl (Wrapf ''invalid value'' ErrEmptyValue)
      else if length val > MaxValueSize then Inl (Wrapf ''invalid value'' ErrValueTooLarge)
      else Inr ())"

definition checkDelete :: "version \<Rightarrow> key \<Rightarrow> unit result" where
  "checkDelete v k =
     (if v > MaxVersion then Inl (Wrapf ''invalid version'' ErrInvalidVersionRange)
      else if k = emptyKey then Inl (Wrapf ''invalid key'' ErrEmptyKey)
      else Inr ())"

definition spec_set :: "version \<Rightarrow> vmap \<Rightarrow> spec \<Rightarrow> spec" where
  "spec_set v m sp = sp\<lparr>sp_pending := (sp_pending sp)(v \<mapsto> (m, True)), sp_hist := m # sp_hist sp\<rparr>"

definition spec_put :: "version \<Rightarrow> key \<Rightarrow> bytes \<Rightarrow> spec \<Rightarrow> unit result \<times> spec" where
  "spec_put v k val sp =
     (case checkPut v k val of Inl e \<Rightarrow> (Inl e, sp)
      | Inr _ \<Rightarrow> (case sp_pending sp v of
           None \<Rightarrow> (Inl (Errorf ''version not pending''), sp)
         | Some (m, _) \<Rightarrow> (Inr (), spec_set v (m(k \<mapsto> val)) sp)))"

definition spec_delete :: "version \<Rightarrow> key \<Rightarrow> spec \<Rightarrow> unit result \<times> spec" where
  "spec_delete v k sp =
     (case checkDelete v k of Inl e \<Rightarrow> (Inl e, sp)
      | Inr _ \<Rightarrow> (case sp_pending sp v of
           None \<Rightarrow> (Inl (Errorf ''version not pending''), sp)
         | Some (m, _) \<Rightarrow>
             if m k = None then (Inl (Wrapf ''delete failed'' ErrKeyNotFound), sp)
             else (Inr (), spec_set v (m(k := None)) sp)))"

definition spec_commit :: "version \<Rightarrow> spec \<Rightarrow> unit result \<times> spec" where
  "spec_commit v sp =
     (case sp_pending sp v of
        None \<Rightarrow> (Inl (Errorf ''version not pending''), sp)
      | Some (m, _) \<Rightarrow>
          (Inr (), sp\<lparr>sp_committed := (sp_committed sp)(v \<mapsto> m), sp_pending := (sp_pending sp)(v := None),
                     sp_current := (if v > sp_current sp then v else sp_current sp)\<rparr>))"

definition spec_abort :: "version \<Rightarrow> spec \<Rightarrow> unit result \<times> spec" where
  "spec_abort v sp =
     (case sp_pending sp v of
        None \<Rightarrow> (Inl (Errorf ''no pending version''), sp)
      | Some _ \<Rightarrow> (Inr (), sp\<lparr>sp_pending := (sp_pending sp)(v := None)\<rparr>))"

definition spec_get :: "version \<Rightarrow> key \<Rightarrow> spec \<Rightarrow> bytes option result" where
  "spec_get v k sp =
     (if v > MaxVersion then Inl ErrInvalidVersionRange
      else if k = emptyKey then Inl ErrEmptyKey
      else case sp_committed sp v of None \<Rightarrow> Inl ErrVersionNotFound | Some m \<Rightarrow> Inr (m k))"

section \<open>What was hashed\<close>

definition hashed :: "(bytes \<Rightarrow> hash) \<Rightarrow> vmap \<Rightarrow> contents" where
  "hashed H m = (\<lambda>k. map_option H (m k))"

lemma hashed_upd [simp]: "hashed H (m(k \<mapsto> b)) = (hashed H m)(k \<mapsto> H b)" "hashed H (m(k := None)) = (hashed H m)(k := None)"
  "hashed H Map.empty = Map.empty"
  by (auto simp: hashed_def)

definition inputs :: "(bytes \<Rightarrow> hash) \<Rightarrow> vmap list \<Rightarrow> bytes set" where
  "inputs H hist = (\<Union>m \<in> set hist. merkle_inputs H (hashed H m) [] MaxTreeDepth \<union> ran m)"

text \<open>The hash function is good on these inputs: no two of them collide and none hashes to the empty hash.\<close>

definition hash_ok :: "(bytes \<Rightarrow> hash) \<Rightarrow> vmap list \<Rightarrow> bool" where
  "hash_ok H hist \<longleftrightarrow> \<not> collides H (inputs H hist) \<and> (\<forall>x \<in> inputs H hist. H x \<noteq> EmptyHash)"

lemma inputs_mono: "set hist \<subseteq> set hist' \<Longrightarrow> inputs H hist \<subseteq> inputs H hist'"
  unfolding inputs_def by blast

lemma inputs_mem:
  assumes "m \<in> set hist"
  shows "merkle_inputs H (hashed H m) [] MaxTreeDepth \<subseteq> inputs H hist" and "ran m \<subseteq> inputs H hist"
  using assms unfolding inputs_def by blast+

lemma hash_ok_mono: "hash_ok H hist' \<Longrightarrow> set hist \<subseteq> set hist' \<Longrightarrow> hash_ok H hist"
  unfolding hash_ok_def using inputs_mono [of hist hist' H] collides_mono [of H "inputs H hist" "inputs H hist'"] by blast

lemma no_collision: "hash_ok H hist \<Longrightarrow> x \<in> inputs H hist \<Longrightarrow> y \<in> inputs H hist \<Longrightarrow> H x = H y \<Longrightarrow> x = y"
  unfolding hash_ok_def collides_def by blast

section \<open>The relation\<close>

text \<open>A stored version: its root node represents the map, or the map is empty and there is no root node.\<close>

definition version_ok :: "(bytes \<Rightarrow> hash) \<Rightarrow> vmap list \<Rightarrow> (NodeKey \<Rightarrow> Node result) \<Rightarrow> vmap \<Rightarrow> version \<Rightarrow> bool" where
  "version_ok H hist g m v \<longleftrightarrow> m \<in> set hist
     \<and> (if merkle H (hashed H m) [] MaxTreeDepth = None then \<exists>e. g (nkey v []) = Inl e \<and> \<not> is_panic e
        else 0 < v \<and> rep g H (hashed H m) v [] MaxTreeDepth)"

text \<open>A pending version, before and after the first successful operation.\<close>

definition fresh_ok :: "(bytes \<Rightarrow> hash) \<Rightarrow> vmap list \<Rightarrow> (NodeKey \<Rightarrow> Node result) \<Rightarrow> version \<Rightarrow> PendingVersion \<Rightarrow> vmap \<Rightarrow> bool" where
  "fresh_ok H hist g v pv m \<longleftrightarrow> pv_updater pv \<in> {None, Some (NewTreeUpdater (pv_parent pv) v)} \<and> pv_parent pv < v
     \<and> version_ok H hist g m (pv_parent pv)"

definition touched_ok :: "(bytes \<Rightarrow> hash) \<Rightarrow> vmap list \<Rightarrow> (NodeKey \<Rightarrow> Node result) \<Rightarrow> version \<Rightarrow> PendingVersion \<Rightarrow> vmap \<Rightarrow> bool" where
  "touched_ok H hist g v pv m \<longleftrightarrow> m \<in> set hist
     \<and> (\<exists>tu. pv_updater pv = Some tu \<and> newVersion tu = v \<and> tu_done g H (hashed H m) tu
         \<and> genuine H (inputs H hist) tu \<and> write_values (nodeWrites tu) \<subseteq> inputs H hist)"

definition pend_ok :: "(bytes \<Rightarrow> hash) \<Rightarrow> vmap list \<Rightarrow> (NodeKey \<Rightarrow> Node result) \<Rightarrow> version \<Rightarrow> PendingVersion option
    \<Rightarrow> (vmap \<times> bool) option \<Rightarrow> bool" where
  "pend_ok H hist g v pv pm \<longleftrightarrow>
     (case pv of
        None \<Rightarrow> pm = None
      | Some p \<Rightarrow> \<exists>m b. pm = Some (m, b) \<and> (if b then touched_ok H hist g v p m else fresh_ok H hist g v p m))"

lemma pend_ok_simps [simp]:
  "pend_ok H hist g v None pm \<longleftrightarrow> pm = None"
  "pend_ok H hist g v (Some p) None \<longleftrightarrow> False"
  "pend_ok H hist g v (Some p) (Some (m, b)) \<longleftrightarrow> (if b then touched_ok H hist g v p m else fresh_ok H hist g v p m)"
  by (auto simp: pend_ok_def)

definition snapshots_free :: "Storage \<Rightarrow> bool" where
  "snapshots_free db \<longleftrightarrow> ms_maxSnapshots db \<le> 0 \<or> ms_openSnapshots db < ms_maxSnapshots db"

definition store_ok :: "(bytes \<Rightarrow> hash) \<Rightarrow> vmap list \<Rightarrow> Storage \<Rightarrow> bool" where
  "store_ok H hist db \<longleftrightarrow> \<not> ms_closing db \<and> snapshots_free db \<and> values_ok H (inputs H hist) db"

text \<open>Nothing is stored under a version that is not finished.\<close>

definition unwritten :: "VersionManager \<Rightarrow> Storage \<Rightarrow> bool" where
  "unwritten vm db \<longleftrightarrow> (\<forall>w q. wf_nibbles q \<longrightarrow> latestVersion vm < w \<or> gm_get (pendingWrites vm) w \<noteq> None \<longrightarrow>
     gm_get (ms_data db) (skey w q) = None)"

definition versions_rel :: "(bytes \<Rightarrow> hash) \<Rightarrow> spec \<Rightarrow> Tree \<Rightarrow> bool" where
  "versions_rel H sp t \<longleftrightarrow>
     (\<forall>v. gm_get (t_rootHashes t) v = map_option (\<lambda>m. merkle_root H (hashed H m)) (sp_committed sp v))
     \<and> (\<forall>v m. sp_committed sp v = Some m \<longrightarrow> version_ok H (sp_hist sp) (loadNodeFromStorage (t_db t)) m v
          \<and> v \<le> sp_latest sp \<and> sp_pending sp v = None)
     \<and> sp_committed sp (sp_current sp) \<noteq> None"

definition pending_rel :: "(bytes \<Rightarrow> hash) \<Rightarrow> spec \<Rightarrow> Tree \<Rightarrow> bool" where
  "pending_rel H sp t \<longleftrightarrow>
     (\<forall>v. pend_ok H (sp_hist sp) (loadNodeFromStorage (t_db t)) v (gm_get (pendingWrites (t_versionManager t)) v) (sp_pending sp v)
       \<and> (\<forall>pv. gm_get (pendingWrites (t_versionManager t)) v = Some pv \<longrightarrow>
            sp_pending sp (pv_parent pv) = None \<and> pv_parent pv \<le> sp_latest sp))"

definition tree_rel :: "(bytes \<Rightarrow> hash) \<Rightarrow> spec \<Rightarrow> Tree \<Rightarrow> bool" where
  "tree_rel H sp t \<longleftrightarrow> vm_inv (t_versionManager t) \<and> latestVersion (t_versionManager t) = sp_latest sp
     \<and> committedVersion (t_versionManager t) = sp_current sp \<and> t_latestVer t = sp_current sp
     \<and> store_ok H (sp_hist sp) (t_db t) \<and> unwritten (t_versionManager t) (t_db t)
     \<and> versions_rel H sp t \<and> pending_rel H sp t"

end
