(* ===== verification/TreeRefine.thy ===== *)
theory TreeRefine
  imports TreeSpec
begin

text \<open>
  The tree operations refine the operations of the versioned map: one simulation square per operation,
  then sequences of operations.
\<close>

section \<open>Monotonicity\<close>

lemma genuine_mono: "genuine H S tu \<Longrightarrow> S \<subseteq> S' \<Longrightarrow> genuine H S' tu"
  unfolding genuine_def by (meson order.trans)

lemma values_ok_mono: "values_ok H S db \<Longrightarrow> S \<subseteq> S' \<Longrightarrow> values_ok H S' db"
  unfolding values_ok_def by blast

lemma version_ok_mono: "version_ok H hist g m v \<Longrightarrow> set hist \<subseteq> set hist' \<Longrightarrow> version_ok H hist' g m v"
  unfolding version_ok_def by blast

lemma touched_ok_mono:
  "touched_ok H hist g v p m \<Longrightarrow> set hist \<subseteq> set hist' \<Longrightarrow> touched_ok H hist' g v p m"
  using inputs_mono [of hist hist' H] genuine_mono [of H "inputs H hist" _ "inputs H hist'"] unfolding touched_ok_def by blast

lemma fresh_ok_mono: "fresh_ok H hist g v p m \<Longrightarrow> set hist \<subseteq> set hist' \<Longrightarrow> fresh_ok H hist' g v p m"
  unfolding fresh_ok_def using version_ok_mono by blast

lemma pend_ok_map:
  assumes "pend_ok H hist g v pv pm"
    and "\<And>p m. pv = Some p \<Longrightarrow> touched_ok H hist g v p m \<Longrightarrow> touched_ok H hist' g' v p m"
    and "\<And>p m. pv = Some p \<Longrightarrow> fresh_ok H hist g v p m \<Longrightarrow> fresh_ok H hist' g' v p m"
  shows "pend_ok H hist' g' v pv pm"
proof (cases pv)
  case None
  with assms(1) show ?thesis by simp
next
  case (Some p)
  with assms(1) obtain m b where "pm = Some (m, b)" by (cases pm) auto
  with assms Some show ?thesis by (cases b) simp_all
qed

lemma pend_ok_mono: "pend_ok H hist g v pv pm \<Longrightarrow> set hist \<subseteq> set hist' \<Longrightarrow> pend_ok H hist' g v pv pm"
  by (erule pend_ok_map) (auto intro: touched_ok_mono fresh_ok_mono)

text \<open>A loader with more nodes, none of them replaced.\<close>

definition grows :: "(NodeKey \<Rightarrow> Node result) \<Rightarrow> (NodeKey \<Rightarrow> Node result) \<Rightarrow> bool" where
  "grows g g' \<longleftrightarrow> (\<forall>w q n. wf_nibbles q \<longrightarrow> g (nkey w q) = Inr n \<longrightarrow> g' (nkey w q) = Inr n)"

lemma version_ok_grow:
  "version_ok H hist g m v \<Longrightarrow> grows g g' \<Longrightarrow> g' (nkey v []) = g (nkey v []) \<Longrightarrow> version_ok H hist g' m v"
  using rep_grow [of g H "hashed H m" v g'] unfolding version_ok_def grows_def by auto

lemma tu_done_grow:
  assumes "tu_done g H m tu" and "grows g g'"
  shows "tu_done g' H m tu"
proof -
  have "getNode g' (nkey w q) tu = Inr n" if "wf_nibbles q" "getNode g (nkey w q) tu = Inr n" for w q n
    using that assms(2) by (auto simp: getNode_nkey grows_def split: option.splits if_splits)
  then have "rep (src g' tu) H m (newVersion tu) [] MaxTreeDepth" if "rep (src g tu) H m (newVersion tu) [] MaxTreeDepth"
    using that assms(1) by (intro rep_grow [where g = "src g tu" and g' = "src g' tu"]) (auto simp: tu_done_def tu_ok_def)
  with assms(1) show ?thesis unfolding tu_done_def by blast
qed

lemma pend_ok_grow:
  assumes "pend_ok H hist g v pv pm" and "grows g g'"
    and "\<And>p. pv = Some p \<Longrightarrow> g' (nkey (pv_parent p) []) = g (nkey (pv_parent p) [])"
  shows "pend_ok H hist g' v pv pm"
  using assms(1)
proof (rule pend_ok_map)
  fix p m
  assume "touched_ok H hist g v p m"
  then show "touched_ok H hist g' v p m" using tu_done_grow [OF _ assms(2)] unfolding touched_ok_def by blast
next
  fix p m
  assume "pv = Some p" "fresh_ok H hist g v p m"
  then show "fresh_ok H hist g' v p m"
    using version_ok_grow [OF _ assms(2) assms(3)] unfolding fresh_ok_def by blast
qed

section \<open>The updater of a pending version\<close>

definition updaterOf :: "version \<Rightarrow> PendingVersion \<Rightarrow> TreeUpdater" where
  "updaterOf v pv = (case pv_updater pv of None \<Rightarrow> NewTreeUpdater (pv_parent pv) v | Some u \<Rightarrow> u)"

lemma New_rep:
  assumes ok: "version_ok H hist g m p" and "p < v"
  shows "tu_rep g H (hashed H m) (NewTreeUpdater p v)" and "genuine H S (NewTreeUpdater p v)"
    and "write_values (nodeWrites (NewTreeUpdater p v)) = {}" and "newVersion (NewTreeUpdater p v) = v"
proof -
  let ?tu = "NewTreeUpdater p v"
  have pos: "0 < v" using assms(2) by (metis word_gt_0 word_not_simps(1))
  have get: "getNode g (nkey w q) ?tu = (if w = 0 then Inl (Errorf ''node not found'') else g (nkey w q))" if "wf_nibbles q" for w q
    using that by (simp add: getNode_nkey NewTreeUpdater_def)
  have root: "currentRoot ?tu = nkey p []" "newVersion ?tu = v" by (simp_all add: NewTreeUpdater_def RootNodeKey_nkey)
  have "present g H (hashed H m) [] MaxTreeDepth (nkey p []) ?tu \<or> absent g H (hashed H m) [] MaxTreeDepth (nkey p []) ?tu"
  proof (cases "merkle H (hashed H m) [] MaxTreeDepth = None")
    case True
    with ok show ?thesis by (auto simp: version_ok_def absent_def get)
  next
    case False
    then have "0 < p" and rep: "rep g H (hashed H m) p [] MaxTreeDepth" using ok by (auto simp: version_ok_def)
    have "rep (src g ?tu) H (hashed H m) p [] MaxTreeDepth"
      by (rule rep_mono [where g = g and g' = "src g ?tu", OF rep \<open>0 < p\<close>]) (auto simp: get)
    with \<open>0 < p\<close> assms(2) show ?thesis by (auto simp: present_def root)
  qed
  with pos show "tu_rep g H (hashed H m) ?tu" by (simp add: tu_rep_def tu_ok_New root)
  show "genuine H S ?tu" "write_values (nodeWrites ?tu) = {}" "newVersion ?tu = v"
    by (simp_all add: genuine_def NewTreeUpdater_def write_values_def)
qed

lemma updaterOf_rep:
  assumes "pend_ok H hist g v (Some pv) (Some (m, b))"
  shows "tu_rep g H (hashed H m) (updaterOf v pv) \<and> newVersion (updaterOf v pv) = v
    \<and> genuine H (inputs H hist) (updaterOf v pv) \<and> write_values (nodeWrites (updaterOf v pv)) \<subseteq> inputs H hist"
proof (cases b)
  case True
  with assms show ?thesis by (auto simp: touched_ok_def updaterOf_def intro: tu_done_rep)
next
  case False
  then have "fresh_ok H hist g v pv m" using assms by simp
  then have "updaterOf v pv = NewTreeUpdater (pv_parent pv) v" "version_ok H hist g m (pv_parent pv)" "pv_parent pv < v"
    by (auto simp: fresh_ok_def updaterOf_def)
  with New_rep [of H hist g m "pv_parent pv" v] show ?thesis by simp
qed

lemma write_values_leaves: "gm_wf (nodeWrites tu) \<Longrightarrow> b \<in> write_values (nodeWrites tu) \<longleftrightarrow> (\<exists>l \<in> leaves tu. l_value l = Some b)"
  by (auto simp: write_values_def leaves_def)

lemma validators:
  "PutVersioned H v k val t = (case checkPut v k val of Inl e \<Rightarrow> (Inl e, t)
     | Inr _ \<Rightarrow> updateVersioned ''put failed'' v (TreeUpdater_Put H (loadNodeFromStorage (t_db t)) k val) t)"
  "DeleteVersioned H v k t = (case checkDelete v k of Inl e \<Rightarrow> (Inl e, t)
     | Inr _ \<Rightarrow> updateVersioned ''delete failed'' v (TreeUpdater_Delete H (loadNodeFromStorage (t_db t)) k) t)"
  by (simp_all add: PutVersioned_def DeleteVersioned_def checkPut_def checkDelete_def validateVersion_def validateKey_def
      validateValue_def wrapE_def)

lemma checkPut_valid: "checkPut v k val = Inr () \<Longrightarrow> wf_key k \<Longrightarrow> valid_put k val"
  by (auto simp: checkPut_def valid_put_def ValidateKey_def Key_IsEmpty_def split: if_splits)

lemma checkDelete_valid: "checkDelete v k = Inr () \<Longrightarrow> ValidateKey k = Inr ()"
  by (auto simp: checkDelete_def ValidateKey_def Key_IsEmpty_def split: if_splits)

section \<open>Updating a pending version\<close>

lemma tree_relD:
  assumes "tree_rel H sp t"
  shows "vm_inv (t_versionManager t)" "latestVersion (t_versionManager t) = sp_latest sp"
    "committedVersion (t_versionManager t) = sp_current sp" "t_latestVer t = sp_current sp"
    "store_ok H (sp_hist sp) (t_db t)" "unwritten (t_versionManager t) (t_db t)"
    "versions_rel H sp t" "pending_rel H sp t"
  using assms by (simp_all add: tree_rel_def)

lemma store_ok_mono: "store_ok H hist db \<Longrightarrow> set hist \<subseteq> set hist' \<Longrightarrow> store_ok H hist' db"
  unfolding store_ok_def using values_ok_mono [of H "inputs H hist" db "inputs H hist'"] inputs_mono [of hist hist' H] by blast

lemma pending_parent:
  assumes "tree_rel H sp t" and "gm_get (pendingWrites (t_versionManager t)) v = Some pv"
  shows "sp_pending sp (pv_parent pv) = None" "pv_parent pv \<le> sp_latest sp"
  using tree_relD(8) [OF assms(1)] assms(2) unfolding pending_rel_def by blast+

lemma pending_pend_ok:
  assumes "tree_rel H sp t"
  shows "pend_ok H (sp_hist sp) (loadNodeFromStorage (t_db t)) v (gm_get (pendingWrites (t_versionManager t)) v) (sp_pending sp v)"
  using tree_relD(8) [OF assms] unfolding pending_rel_def by blast

lemma pending_iff:
  assumes "tree_rel H sp t"
  shows "gm_get (pendingWrites (t_versionManager t)) v = None \<longleftrightarrow> sp_pending sp v = None"
  using pending_pend_ok [OF assms, of v]
  by (cases "gm_get (pendingWrites (t_versionManager t)) v"; cases "sp_pending sp v") auto

lemma committedD:
  assumes "tree_rel H sp t" and "sp_committed sp v = Some m"
  shows "version_ok H (sp_hist sp) (loadNodeFromStorage (t_db t)) m v" "v \<le> sp_latest sp" "sp_pending sp v = None"
  using tree_relD(7) [OF assms(1)] assms(2) unfolding versions_rel_def by blast+

lemma set_pending:
  assumes rel: "tree_rel H sp t" and pv: "gm_get (pendingWrites (t_versionManager t)) v = Some pv"
    and same: "pv_version pv' = pv_version pv" "pv_parent pv' = pv_parent pv"
    and hist: "set (sp_hist sp) \<subseteq> set hist'"
    and ok: "pend_ok H hist' (loadNodeFromStorage (t_db t)) v (Some pv') (Some pm)"
  shows "tree_rel H (sp\<lparr>sp_pending := (sp_pending sp)(v \<mapsto> pm), sp_hist := hist'\<rparr>)
    (t\<lparr>t_versionManager := (t_versionManager t)\<lparr>pendingWrites := gm_put v pv' (pendingWrites (t_versionManager t))\<rparr>\<rparr>)"
    (is "tree_rel H ?sp ?t")
proof -
  note D = tree_relD [OF rel]
  have v: "sp_pending sp v \<noteq> None" using pending_iff [OF rel, of v] pv by simp
  have inv: "vm_inv (t_versionManager ?t)" using vm_inv_pending [OF D(1) pv same(1)] by simp
  have unw: "unwritten (t_versionManager ?t) (t_db ?t)" using D(6) pv by (auto simp: unwritten_def)
  have vers: "versions_rel H ?sp ?t"
    unfolding versions_rel_def
  proof (intro conjI allI impI)
    fix u m
    assume "sp_committed ?sp u = Some m"
    then have "sp_committed sp u = Some m" by simp
    note c = committedD [OF rel this]
    show "version_ok H (sp_hist ?sp) (loadNodeFromStorage (t_db ?t)) m u" using version_ok_mono [OF c(1) hist] by simp
    show "u \<le> sp_latest ?sp" "sp_pending ?sp u = None" using c(2,3) v by auto
  qed (use D(7) in \<open>simp_all add: versions_rel_def\<close>)
  have pend: "pending_rel H ?sp ?t"
    unfolding pending_rel_def
  proof (intro allI conjI impI)
    fix u
    show "pend_ok H (sp_hist ?sp) (loadNodeFromStorage (t_db ?t)) u (gm_get (pendingWrites (t_versionManager ?t)) u) (sp_pending ?sp u)"
      using ok pend_ok_mono [OF pending_pend_ok [OF rel] hist, of u] by simp
  next
    fix u pu
    assume "gm_get (pendingWrites (t_versionManager ?t)) u = Some pu"
    then obtain p0 where "gm_get (pendingWrites (t_versionManager t)) (if u = v then v else u) = Some p0" "pv_parent pu = pv_parent p0"
      using pv same(2) by (cases "u = v") auto
    from pending_parent [OF rel this(1)] this(2) v show "sp_pending ?sp (pv_parent pu) = None" "pv_parent pu \<le> sp_latest ?sp"
      by auto
  qed
  show ?thesis
    unfolding tree_rel_def using inv unw vers pend D(2-4) store_ok_mono [OF D(5) hist] by simp
qed

lemma updateVersioned_pending:
  assumes "gm_get (pendingWrites (t_versionManager t)) v = Some pv" and "f (updaterOf v pv) = (res, tu1)"
  shows "updateVersioned msg v f t =
    (case res of
       Inl err \<Rightarrow> (Inl (wrapE msg err), t\<lparr>t_versionManager := (t_versionManager t)\<lparr>pendingWrites :=
          gm_put v (pv\<lparr>pv_updater := Some tu1\<rparr>) (pendingWrites (t_versionManager t))\<rparr>\<rparr>)
     | Inr _ \<Rightarrow> (Inr (), t\<lparr>t_versionManager := (t_versionManager t)\<lparr>pendingWrites :=
          gm_put v (pv\<lparr>pv_updater := Some tu1, pv_operations := pv_operations pv + 1\<rparr>) (pendingWrites (t_versionManager t))\<rparr>\<rparr>))"
  using assms
  by (cases res) (simp_all add: updateVersioned_def GetPending_def SetPendingUpdater_def IncrementOperations_def updaterOf_def
      Let_def update_last)

lemma set_touched:
  assumes rel: "tree_rel H sp t" and pv: "gm_get (pendingWrites (t_versionManager t)) v = Some pv"
    and d: "tu_done (loadNodeFromStorage (t_db t)) H (hashed H m') tu1" "newVersion tu1 = v"
    and gen: "genuine H (inputs H (sp_hist sp) \<union> merkle_inputs H (hashed H m') [] MaxTreeDepth) tu1"
    and vals: "write_values (nodeWrites tu1) \<subseteq> inputs H (sp_hist sp) \<union> ran m'"
  shows "tree_rel H (spec_set v m' sp) (t\<lparr>t_versionManager := (t_versionManager t)\<lparr>pendingWrites :=
    gm_put v (pv\<lparr>pv_updater := Some tu1, pv_operations := n\<rparr>) (pendingWrites (t_versionManager t))\<rparr>\<rparr>)"
proof -
  let ?h = "m' # sp_hist sp"
  have sub: "inputs H (sp_hist sp) \<subseteq> inputs H ?h" by (rule inputs_mono) auto
  have new: "merkle_inputs H (hashed H m') [] MaxTreeDepth \<subseteq> inputs H ?h" "ran m' \<subseteq> inputs H ?h"
    by (rule inputs_mem; simp)+
  have "genuine H (inputs H ?h) tu1" using genuine_mono [OF gen] sub new(1) by blast
  moreover have "write_values (nodeWrites tu1) \<subseteq> inputs H ?h" using vals sub new(2) by blast
  ultimately have "touched_ok H ?h (loadNodeFromStorage (t_db t)) v (pv\<lparr>pv_updater := Some tu1, pv_operations := n\<rparr>) m'"
    using d by (simp add: touched_ok_def)
  then show ?thesis
    unfolding spec_set_def by (intro set_pending [OF rel pv]) auto
qed

lemma put_refines:
  assumes rel: "tree_rel H sp t" and H: "\<And>x. wf_hash (H x)" and k: "wf_key k"
  shows "fst (PutVersioned H v k val t) = fst (spec_put v k val sp)"
    and "tree_rel H (snd (spec_put v k val sp)) (snd (PutVersioned H v k val t))"
proof -
  have "fst (PutVersioned H v k val t) = fst (spec_put v k val sp)
    \<and> tree_rel H (snd (spec_put v k val sp)) (snd (PutVersioned H v k val t))"
  proof (cases "checkPut v k val")
    case (Inl e)
    with rel show ?thesis by (simp add: validators spec_put_def)
  next
    case (Inr u)
    then have ok: "checkPut v k val = Inr ()" by simp
    show ?thesis
    proof (cases "gm_get (pendingWrites (t_versionManager t)) v")
      case None
      with rel ok pending_iff [OF rel, of v] show ?thesis
        by (simp add: validators spec_put_def updateVersioned_def GetPending_def)
    next
      case (Some pv)
      then obtain m b where m: "sp_pending sp v = Some (m, b)" using pending_iff [OF rel, of v] by fastforce
      let ?tu = "updaterOf v pv" and ?g = "loadNodeFromStorage (t_db t)"
      have rep: "tu_rep ?g H (hashed H m) ?tu" "newVersion ?tu = v" "genuine H (inputs H (sp_hist sp)) ?tu"
        "write_values (nodeWrites ?tu) \<subseteq> inputs H (sp_hist sp)"
        using updaterOf_rep pending_pend_ok [OF rel, of v] unfolding Some m by blast+
      obtain tu1 where tu1: "TreeUpdater_Put H ?g k val ?tu = (Inr (H val), tu1)" "tu_done ?g H (hashed H (m(k \<mapsto> val))) tu1"
        "newVersion tu1 = v" "leaves tu1 \<subseteq> insert (newLeaf H k val v) (leaves ?tu)"
        "genuine H (inputs H (sp_hist sp) \<union> merkle_inputs H (hashed H (m(k \<mapsto> val))) [] MaxTreeDepth) tu1"
        using Put_correct [OF rep(1) H checkPut_valid [OF ok k]] rep(3) unfolding hashed_upd rep(2) by blast
      have wf: "gm_wf (nodeWrites ?tu)" "gm_wf (nodeWrites tu1)" using rep(1) tu1(2) by (auto simp: tu_rep_def tu_done_def tu_ok_def)
      have "write_values (nodeWrites tu1) \<subseteq> inputs H (sp_hist sp) \<union> ran (m(k \<mapsto> val))"
      proof
        fix b'
        assume "b' \<in> write_values (nodeWrites tu1)"
        then obtain l where "l \<in> leaves tu1" "l_value l = Some b'" using write_values_leaves [OF wf(2)] by blast
        then have "l = newLeaf H k val v \<or> b' \<in> write_values (nodeWrites ?tu)" using tu1(4) write_values_leaves [OF wf(1)] by blast
        with rep(4) \<open>l_value l = Some b'\<close> show "b' \<in> inputs H (sp_hist sp) \<union> ran (m(k \<mapsto> val))" by (auto simp: ran_def)
      qed
      with set_touched [OF rel Some tu1(2,3,5)] show ?thesis
        using updateVersioned_pending [where f = "TreeUpdater_Put H ?g k val", OF Some tu1(1)] ok m by (simp add: validators spec_put_def)
    qed
  qed
  then show "fst (PutVersioned H v k val t) = fst (spec_put v k val sp)"
    "tree_rel H (snd (spec_put v k val sp)) (snd (PutVersioned H v k val t))" by simp_all
qed

lemma delete_refines:
  assumes rel: "tree_rel H sp t" and H: "\<And>x. wf_hash (H x)" and k: "wf_key k"
    and twin: "\<And>m b. sp_pending sp v = Some (m, b) \<Longrightarrow> no_twin (hashed H m) k"
  shows "fst (DeleteVersioned H v k t) = fst (spec_delete v k sp)
    \<and> tree_rel H (snd (spec_delete v k sp)) (snd (DeleteVersioned H v k t))"
proof (cases "checkDelete v k")
  case (Inl e)
  with rel show ?thesis by (simp add: validators spec_delete_def)
next
  case (Inr u)
  then have ok: "checkDelete v k = Inr ()" by simp
  note vk = checkDelete_valid [OF ok]
  show ?thesis
  proof (cases "gm_get (pendingWrites (t_versionManager t)) v")
    case None
    with rel ok pending_iff [OF rel, of v] show ?thesis
      by (simp add: validators spec_delete_def updateVersioned_def GetPending_def)
  next
    case (Some pv)
    then obtain m b where m: "sp_pending sp v = Some (m, b)" using pending_iff [OF rel, of v] by fastforce
    let ?tu = "updaterOf v pv" and ?g = "loadNodeFromStorage (t_db t)"
    have pok: "pend_ok H (sp_hist sp) ?g v (Some pv) (Some (m, b))" using pending_pend_ok [OF rel, of v] unfolding Some m .
    then have rep: "tu_rep ?g H (hashed H m) ?tu" "newVersion ?tu = v" "genuine H (inputs H (sp_hist sp)) ?tu"
      "write_values (nodeWrites ?tu) \<subseteq> inputs H (sp_hist sp)"
      using updaterOf_rep by blast+
    note run = updateVersioned_pending [where f = "TreeUpdater_Delete H ?g k", OF Some]
    show ?thesis
    proof (cases "m k")
      case None
      then have del: "TreeUpdater_Delete H ?g k ?tu = (Inl ErrKeyNotFound, ?tu)"
        using Delete_not_found [OF rep(1) k vk] by (simp add: hashed_def)
      have "pend_ok H (sp_hist sp) ?g v (Some (pv\<lparr>pv_updater := Some ?tu\<rparr>)) (Some (m, b))"
        using pok by (cases b) (auto simp: touched_ok_def fresh_ok_def updaterOf_def)
      then have "tree_rel H (sp\<lparr>sp_pending := (sp_pending sp)(v \<mapsto> (m, b)), sp_hist := sp_hist sp\<rparr>)
          (t\<lparr>t_versionManager := (t_versionManager t)\<lparr>pendingWrites := gm_put v (pv\<lparr>pv_updater := Some ?tu\<rparr>)
            (pendingWrites (t_versionManager t))\<rparr>\<rparr>)"
        by (intro set_pending [OF rel Some]) auto
      moreover have "sp\<lparr>sp_pending := (sp_pending sp)(v \<mapsto> (m, b)), sp_hist := sp_hist sp\<rparr> = sp"
        using m by (simp add: fun_upd_idem)
      ultimately show ?thesis using run [OF del] ok m None by (simp add: validators spec_delete_def wrapE_def)
    next
      case (Some val)
      then have "hashed H m k \<noteq> None" by (simp add: hashed_def)
      then obtain tu1 where tu1: "TreeUpdater_Delete H ?g k ?tu = (Inr (), tu1)" "tu_done ?g H (hashed H (m(k := None))) tu1"
        "newVersion tu1 = v" "leaves tu1 \<subseteq> leaves ?tu"
        "genuine H (inputs H (sp_hist sp) \<union> merkle_inputs H (hashed H (m(k := None))) [] MaxTreeDepth) tu1"
        using Delete_correct [OF rep(1) H k vk twin [OF m]] rep(3) unfolding hashed_upd rep(2) by blast
      have wf: "gm_wf (nodeWrites ?tu)" "gm_wf (nodeWrites tu1)" using rep(1) tu1(2) by (auto simp: tu_rep_def tu_done_def tu_ok_def)
      have "write_values (nodeWrites tu1) \<subseteq> write_values (nodeWrites ?tu)"
        using tu1(4) write_values_leaves [OF wf(1)] write_values_leaves [OF wf(2)] by blast
      then have "write_values (nodeWrites tu1) \<subseteq> inputs H (sp_hist sp) \<union> ran (m(k := None))" using rep(4) by blast
      with set_touched [OF rel \<open>gm_get _ v = Some pv\<close> tu1(2,3,5)] show ?thesis
        using run [OF tu1(1)] ok m Some by (simp add: validators spec_delete_def)
    qed
  qed
qed

section \<open>Beginning, aborting and committing a version\<close>

lemma unwritten_load:
  assumes "tree_rel H sp t" and "wf_nibbles q" and "sp_latest sp < w \<or> sp_pending sp w \<noteq> None"
  shows "gm_get (ms_data (t_db t)) (skey w q) = None" "loadNodeFromStorage (t_db t) (nkey w q) = Inl (Errorf ''node not found'')"
proof -
  show n: "gm_get (ms_data (t_db t)) (skey w q) = None"
    using tree_relD(2,6) [OF assms(1)] assms(2,3) pending_iff [OF assms(1), of w] unfolding unwritten_def by metis
  then show "loadNodeFromStorage (t_db t) (nkey w q) = Inl (Errorf ''node not found'')"
    using tree_relD(5) [OF assms(1)] assms(2) by (simp add: load_nkey store_ok_def)
qed

lemma begin_refines:
  assumes rel: "tree_rel H sp t"
  shows "fst (BeginVersion now t) = fst (spec_begin sp) \<and> tree_rel H (snd (spec_begin sp)) (snd (BeginVersion now t))"
proof -
  note D = tree_relD [OF rel]
  let ?vm = "t_versionManager t" and ?v = "sp_latest sp + 1"
  obtain i where i: "gm_get (versions ?vm) (sp_current sp) = Some i" "vi_Status i = VersionStatusCommitted"
    using vm_invD(6) [OF D(1)] D(3) by auto
  show ?thesis
  proof (cases "sp_latest sp = MaxVersion")
    case True
    with i rel D(2,3) show ?thesis
      by (simp add: BeginVersion_def GetLatestCommitted_def Begin_def withVM_def spec_begin_def)
  next
    case False
    obtain m where m: "sp_committed sp (sp_current sp) = Some m" using D(7) by (auto simp: versions_rel_def)
    note c = committedD [OF rel m]
    let ?pv = "\<lparr>pv_version = ?v, pv_parent = sp_current sp, pv_updater = None, pv_startTime = now, pv_operations = 0\<rparr>"
    let ?vm' = "?vm\<lparr>pendingWrites := gm_put ?v ?pv (pendingWrites ?vm), latestVersion := ?v\<rparr>"
    have b: "Begin now (sp_current sp) ?vm = (Inr ?v, ?vm')" using i False D(2) by (simp add: Begin_def Let_def)
    have nx: "sp_latest sp < ?v" "?v \<le> MaxVersion" "0 < ?v"
      using next_version [of "sp_latest sp"] vm_invD(3) [OF D(1)] D(2) False by auto
    let ?sp = "snd (spec_begin sp)" and ?t = "t\<lparr>t_versionManager := ?vm'\<rparr>"
    have sp: "?sp = sp\<lparr>sp_latest := ?v, sp_pending := (sp_pending sp)(?v \<mapsto> (m, False))\<rparr>" "fst (spec_begin sp) = Inr ?v"
      using False m by (simp_all add: spec_begin_def Let_def)
    have less: "u < ?v" if "u \<le> sp_latest sp" for u using that nx(1) by (rule le_less_trans)
    have inv: "vm_inv ?vm'" using vm_inv_Begin [OF D(1) b] .
    have unw: "unwritten ?vm' (t_db t)"
      unfolding unwritten_def
    proof (intro allI impI)
      fix w q
      assume q: "wf_nibbles q" and "latestVersion ?vm' < w \<or> gm_get (pendingWrites ?vm') w \<noteq> None"
      then have "sp_latest sp < w \<or> gm_get (pendingWrites ?vm) w \<noteq> None"
        using nx(1) by (cases "w = ?v") (auto dest: less_trans)
      then show "gm_get (ms_data (t_db t)) (skey w q) = None"
        unfolding pending_iff [OF rel] by (rule unwritten_load(1) [OF rel q])
    qed
    have vers: "versions_rel H ?sp ?t"
    proof -
      have "u \<le> sp_latest ?sp \<and> sp_pending ?sp u = None" if "sp_committed sp u = Some m'" for u m'
        using committedD(2,3) [OF rel that] less [of u] unfolding sp by auto
      with D(7) show ?thesis unfolding versions_rel_def sp by auto
    qed
    have fresh: "fresh_ok H (sp_hist sp) (loadNodeFromStorage (t_db t)) ?v ?pv m" using c(1,2) less by (simp add: fresh_ok_def)
    have pend: "pending_rel H ?sp ?t"
      unfolding pending_rel_def
    proof (intro allI conjI impI)
      fix u
      show "pend_ok H (sp_hist ?sp) (loadNodeFromStorage (t_db ?t)) u (gm_get (pendingWrites (t_versionManager ?t)) u) (sp_pending ?sp u)"
        using fresh pending_pend_ok [OF rel, of u] by (simp add: sp)
    next
      fix u pu
      assume "gm_get (pendingWrites (t_versionManager ?t)) u = Some pu"
      then have "pu = ?pv \<or> gm_get (pendingWrites ?vm) u = Some pu" by (simp split: if_splits)
      then have "sp_pending sp (pv_parent pu) = None \<and> pv_parent pu \<le> sp_latest sp"
        using c(2,3) pending_parent [OF rel] by auto
      then show "sp_pending ?sp (pv_parent pu) = None" "pv_parent pu \<le> sp_latest ?sp"
        using less [of "pv_parent pu"] by (auto simp: sp)
    qed
    have "BeginVersion now t = (Inr ?v, ?t)" using b D(3) by (simp add: BeginVersion_def GetLatestCommitted_def withVM_def)
    moreover have "tree_rel H ?sp ?t"
      unfolding tree_rel_def using inv unw vers pend D(3-5) by (simp add: sp)
    ultimately show ?thesis by (simp add: sp)
  qed
qed

text \<open>Removing a pending version, as \<open>Abort\<close> and \<open>Commit\<close> do.\<close>

lemma pending_rel_del:
  assumes "tree_rel H sp t" and "pendingWrites vm' = gm_del v (pendingWrites (t_versionManager t))"
    and "grows (loadNodeFromStorage (t_db t)) (loadNodeFromStorage db')"
    and "\<And>u. u \<noteq> v \<Longrightarrow> loadNodeFromStorage db' (nkey u []) = loadNodeFromStorage (t_db t) (nkey u [])"
    and "sp_pending sp v \<noteq> None" and "sp_pending sp' = (sp_pending sp)(v := None)" and "sp_hist sp' = sp_hist sp" "sp_latest sp' = sp_latest sp"
    and "t_db t' = db'" and "t_versionManager t' = vm'"
  shows "pending_rel H sp' t'"
  unfolding pending_rel_def
proof (intro allI conjI impI)
  fix u
  have par: "loadNodeFromStorage db' (nkey (pv_parent p) []) = loadNodeFromStorage (t_db t) (nkey (pv_parent p) [])"
    if "gm_get (pendingWrites (t_versionManager t)) u = Some p" for p
    using pending_parent(1) [OF assms(1) that] assms(4,5) by metis
  show "pend_ok H (sp_hist sp') (loadNodeFromStorage (t_db t')) u (gm_get (pendingWrites (t_versionManager t')) u) (sp_pending sp' u)"
    using pend_ok_grow [OF pending_pend_ok [OF assms(1), of u] assms(3) par] by (simp add: assms)
next
  fix u pu
  assume "gm_get (pendingWrites (t_versionManager t')) u = Some pu"
  then have "gm_get (pendingWrites (t_versionManager t)) u = Some pu" by (simp add: assms split: if_splits)
  from pending_parent [OF assms(1) this] show "sp_pending sp' (pv_parent pu) = None" "pv_parent pu \<le> sp_latest sp'"
    by (simp_all add: assms)
qed

lemma abort_refines:
  assumes rel: "tree_rel H sp t"
  shows "fst (AbortVersion v t) = fst (spec_abort v sp) \<and> tree_rel H (snd (spec_abort v sp)) (snd (AbortVersion v t))"
proof (cases "gm_get (pendingWrites (t_versionManager t)) v")
  case None
  with rel pending_iff [OF rel, of v] show ?thesis by (simp add: AbortVersion_def Abort_def withVM_def spec_abort_def)
next
  case (Some pv)
  note D = tree_relD [OF rel]
  have v: "sp_pending sp v \<noteq> None" using pending_iff [OF rel, of v] Some by simp
  obtain vm' where a: "Abort v (t_versionManager t) = (Inr (), vm')" and vm': "pendingWrites vm' = gm_del v (pendingWrites (t_versionManager t))"
    "latestVersion vm' = sp_latest sp" "committedVersion vm' = sp_current sp"
    using Some D(2,3) by (simp add: Abort_def)
  let ?sp = "sp\<lparr>sp_pending := (sp_pending sp)(v := None)\<rparr>" and ?t = "t\<lparr>t_versionManager := vm'\<rparr>"
  have "pending_rel H ?sp ?t"
    using vm'(1) v by (intro pending_rel_del [OF rel, of vm' v "t_db t"]) (auto simp: grows_def)
  moreover have "versions_rel H ?sp ?t" using D(7) by (auto simp: versions_rel_def)
  moreover have "unwritten vm' (t_db t)"
    using D(2,6) vm'(1,2) by (auto simp: unwritten_def)
  ultimately have "tree_rel H ?sp ?t"
    unfolding tree_rel_def using vm_inv_Abort [OF D(1) a] D(4,5) vm'(2,3) by simp
  with a v show ?thesis by (auto simp: AbortVersion_def withVM_def spec_abort_def)
qed

text \<open>What a commit does to the storage: the new version is there, no other version changes.\<close>

lemma commit_grow:
  assumes rel: "tree_rel H sp t" and b: "batch_ok H v batch" and v: "sp_pending sp v \<noteq> None"
  shows "w \<noteq> v \<Longrightarrow> wf_nibbles q \<Longrightarrow> loadNodeFromStorage (commit_db v batch (t_db t)) (nkey w q) = loadNodeFromStorage (t_db t) (nkey w q)"
    and "grows (loadNodeFromStorage (t_db t)) (loadNodeFromStorage (commit_db v batch (t_db t)))"
proof -
  have open': "\<not> ms_closing (t_db t)" using tree_relD(5) [OF rel] by (simp add: store_ok_def)
  show load: "loadNodeFromStorage (commit_db v batch (t_db t)) (nkey w q) = loadNodeFromStorage (t_db t) (nkey w q)"
    if "w \<noteq> v" "wf_nibbles q" for w q
    using load_commit_db [OF b that(2) open', of w] no_other_version [OF b that(2,1)] by simp
  show "grows (loadNodeFromStorage (t_db t)) (loadNodeFromStorage (commit_db v batch (t_db t)))"
    unfolding grows_def
  proof (intro allI impI)
    fix w q n
    assume q: "wf_nibbles q" and n: "loadNodeFromStorage (t_db t) (nkey w q) = Inr n"
    then have "w \<noteq> v" using unwritten_load(2) [OF rel q, of v] v by auto
    with load q n show "loadNodeFromStorage (commit_db v batch (t_db t)) (nkey w q) = Inr n" by simp
  qed
qed

lemma commit_version_ok:
  assumes rel: "tree_rel H sp t" and v: "sp_pending sp v \<noteq> None" and b: "batch_ok H v batch" and "m \<in> set hist"
    and tu: "tu_done (loadNodeFromStorage (t_db t)) H (hashed H m) tu" "newVersion tu = v"
    and nodes: "NewNodes batch \<in> (if currentRoot tu = zeroNodeKey then {[]} else {nodeWrites tu, forceHashes H (nodeWrites tu)})"
  shows "version_ok H hist (loadNodeFromStorage (commit_db v batch (t_db t))) m v"
proof -
  have open': "\<not> ms_closing (t_db t)" using tree_relD(5) [OF rel] by (simp add: store_ok_def)
  have pos: "0 < v" using tu by (auto simp: tu_done_def tu_ok_def)
  show ?thesis
  proof (cases "currentRoot tu = zeroNodeKey")
    case True
    then have "merkle H (hashed H m) [] MaxTreeDepth = None" using tu pos by (auto simp: tu_done_def zeroNodeKey_nkey)
    moreover have "loadNodeFromStorage (commit_db v batch (t_db t)) (nkey v []) = Inl (Errorf ''node not found'')"
      using load_commit_db [OF b _ open', of "[]" v] unwritten_load(2) [OF rel, of "[]" v] v nodes True by simp
    ultimately show ?thesis using assms(4) by (simp add: version_ok_def)
  next
    case False
    then have "rep (loadNodeFromStorage (commit_db v batch (t_db t))) H (hashed H m) v [] MaxTreeDepth"
      using rep_commit [OF tu(1) False _ open', of batch] nodes tu(2) by simp
    with rep_nonempty [OF this] pos assms(4) show ?thesis by (auto simp: version_ok_def)
  qed
qed

lemma commit_run:
  assumes rel: "tree_rel H sp t" and H: "\<And>x. wf_hash (H x)" and ok: "hash_ok H (sp_hist sp)"
    and pv: "gm_get (pendingWrites (t_versionManager t)) v = Some pv" and m: "sp_pending sp v = Some (m, True)"
  shows "\<exists>batch t'. CommitVersion H now v t = (Inr (), t') \<and> t_db t' = commit_db v batch (t_db t)
    \<and> t_rootHashes t' = gm_put v (merkle_root H (hashed H m)) (t_rootHashes t)
    \<and> t_latestVer t' = (if v > t_latestVer t then v else t_latestVer t)
    \<and> (\<exists>h n. VersionManager_Commit now v h n (t_versionManager t) = (Inr (), t_versionManager t'))
    \<and> batch_ok H v batch \<and> NewRootHash batch = merkle_root H (hashed H m) \<and> write_values (NewNodes batch) \<subseteq> inputs H (sp_hist sp)
    \<and> version_ok H (sp_hist sp) (loadNodeFromStorage (commit_db v batch (t_db t))) m v"
proof -
  let ?g = "loadNodeFromStorage (t_db t)" and ?vm = "t_versionManager t"
  have "touched_ok H (sp_hist sp) ?g v pv m" using pending_pend_ok [OF rel, of v] unfolding pv m by simp
  then obtain tu where tu: "pv_updater pv = Some tu" "newVersion tu = v" "tu_done ?g H (hashed H m) tu"
    "genuine H (inputs H (sp_hist sp)) tu" "write_values (nodeWrites tu) \<subseteq> inputs H (sp_hist sp)" and mh: "m \<in> set (sp_hist sp)"
    by (auto simp: touched_ok_def)
  have open': "\<not> ms_closing (t_db t)" using tree_relD(5) [OF rel] by (simp add: store_ok_def)
  have "\<not> collides H (inputs H (sp_hist sp))" using ok by (simp add: hash_ok_def)
  from build_ok [OF tu(3) H tu(4) this, of "cf_UseParallelBatching (t_config t)" "cf_BatchOptimizer (t_config t)"]
  obtain b0 batch where b0: "(if cf_UseParallelBatching (t_config t) then BuildUpdateBatchParallel H ?g tu else BuildUpdateBatch H ?g tu) = Inr b0"
    and batch: "(case cf_BatchOptimizer (t_config t) of None \<Rightarrow> Inr b0 | Some bo \<Rightarrow> OptimizeBatch bo b0) = Inr batch"
    and root: "NewRootHash batch = merkle_root H (hashed H m)"
    and nodes: "NewNodes batch \<in> (if currentRoot tu = zeroNodeKey then {[]} else {nodeWrites tu, forceHashes H (nodeWrites tu)})"
    by blast
  have "NewNodes batch \<in> {[], nodeWrites tu, forceHashes H (nodeWrites tu)}" using nodes by (auto split: if_splits)
  moreover have "tu_ok H tu" using tu(3) by (simp add: tu_done_def)
  ultimately have bok: "batch_ok H v batch" "write_values (NewNodes batch) \<subseteq> inputs H (sp_hist sp)"
    using batch_ok_of [of H tu batch] tu(2,5) by auto
  have "VersionManager_Commit now v h n ?vm = (Inr (), snd (VersionManager_Commit now v h n ?vm))" for h n
    using pv by (simp add: VersionManager_Commit_def Let_def)
  then show ?thesis
    using commitBatch_ok [OF open' bok(1) pv, of now] pv tu(1) b0 batch root bok
      commit_version_ok [OF rel _ bok(1) mh tu(3,2) nodes] m
    by (intro exI [where x = batch] exI [where x = "snd (CommitVersion H now v t)"])
      (auto simp: CommitVersion_def GetPending_def Let_def)
qed

lemma versions_rel_commit:
  assumes rel: "tree_rel H sp t" and v: "sp_pending sp v = Some (m, True)" and b: "batch_ok H v batch"
    and new: "version_ok H (sp_hist sp) (loadNodeFromStorage (commit_db v batch (t_db t))) m v"
    and t': "t_db t' = commit_db v batch (t_db t)" "t_rootHashes t' = gm_put v (merkle_root H (hashed H m)) (t_rootHashes t)"
  shows "versions_rel H (snd (spec_commit v sp)) t'"
proof -
  have vlatest: "v \<le> sp_latest sp"
    using vm_invD(5) [OF tree_relD(1) [OF rel], of v] pending_iff [OF rel, of v] v tree_relD(2) [OF rel] by fastforce
  have c: "version_ok H (sp_hist sp) (loadNodeFromStorage (commit_db v batch (t_db t))) m' u \<and> u \<le> sp_latest sp \<and> sp_pending sp u = None"
    if "sp_committed sp u = Some m'" "u \<noteq> v" for u m'
    using version_ok_grow [OF committedD(1) [OF rel that(1)] commit_grow(2) [OF rel b]] commit_grow(1) [OF rel b _ that(2), of "[]"]
      committedD(2,3) [OF rel that(1)] v by simp
  show ?thesis
    using tree_relD(7) [OF rel] v new vlatest c unfolding versions_rel_def by (simp add: spec_commit_def t')
qed

lemma vm_Commit_fields:
  assumes "VersionManager_Commit now v h n vm = (Inr (), vm')"
  shows "pendingWrites vm' = gm_del v (pendingWrites vm)" "latestVersion vm' = latestVersion vm"
    "committedVersion vm' = (if v > committedVersion vm then v else committedVersion vm)"
  using assms by (auto simp: VersionManager_Commit_def Let_def split: option.splits)

lemma unwritten_commit:
  assumes rel: "tree_rel H sp t" and b: "batch_ok H v batch"
    and pv: "gm_get (pendingWrites (t_versionManager t)) v = Some pv"
    and c: "VersionManager_Commit now v h n (t_versionManager t) = (Inr (), vm')"
  shows "unwritten vm' (commit_db v batch (t_db t))"
  unfolding unwritten_def
proof (intro allI impI)
  fix w q
  assume q: "wf_nibbles q" and w: "latestVersion vm' < w \<or> gm_get (pendingWrites vm') w \<noteq> None"
  have vm: "pendingWrites vm' = gm_del v (pendingWrites (t_versionManager t))" "latestVersion vm' = sp_latest sp"
    using vm_Commit_fields [OF c] tree_relD(2) [OF rel] by simp_all
  then have "w \<noteq> v" using w vm_invD(5) [OF tree_relD(1) [OF rel] pv] tree_relD(2) [OF rel] by auto
  moreover have "sp_latest sp < w \<or> sp_pending sp w \<noteq> None"
    using w \<open>w \<noteq> v\<close> unfolding pending_iff [OF rel, symmetric] by (simp add: vm)
  ultimately show "gm_get (ms_data (commit_db v batch (t_db t))) (skey w q) = None"
    using commit_db_node [OF b q, of "t_db t" w] no_other_version [OF b q] unwritten_load(1) [OF rel q] by simp
qed

lemma commit_refines:
  assumes rel: "tree_rel H sp t" and H: "\<And>x. wf_hash (H x)" and ok: "hash_ok H (sp_hist sp)"
    and touched: "\<And>m b. sp_pending sp v = Some (m, b) \<Longrightarrow> b"
  shows "fst (CommitVersion H now v t) = fst (spec_commit v sp) \<and> tree_rel H (snd (spec_commit v sp)) (snd (CommitVersion H now v t))"
proof (cases "gm_get (pendingWrites (t_versionManager t)) v")
  case None
  with rel pending_iff [OF rel, of v] show ?thesis by (simp add: CommitVersion_def GetPending_def spec_commit_def)
next
  case (Some pv)
  note D = tree_relD [OF rel]
  obtain m where m: "sp_pending sp v = Some (m, True)" using pending_iff [OF rel, of v] Some touched by fastforce
  obtain batch t' h n where commit: "CommitVersion H now v t = (Inr (), t')" and t': "t_db t' = commit_db v batch (t_db t)"
      "t_rootHashes t' = gm_put v (merkle_root H (hashed H m)) (t_rootHashes t)" "t_latestVer t' = (if v > t_latestVer t then v else t_latestVer t)"
      and vmc: "VersionManager_Commit now v h n (t_versionManager t) = (Inr (), t_versionManager t')"
      and b: "batch_ok H v batch" "write_values (NewNodes batch) \<subseteq> inputs H (sp_hist sp)"
      and new: "version_ok H (sp_hist sp) (loadNodeFromStorage (commit_db v batch (t_db t))) m v"
    using commit_run [OF rel H ok Some m, of now] by blast
  let ?sp = "snd (spec_commit v sp)"
  have sp: "?sp = sp\<lparr>sp_committed := (sp_committed sp)(v \<mapsto> m), sp_pending := (sp_pending sp)(v := None),
      sp_current := (if v > sp_current sp then v else sp_current sp)\<rparr>" "fst (spec_commit v sp) = Inr ()"
    using m by (simp_all add: spec_commit_def)
  have vm: "pendingWrites (t_versionManager t') = gm_del v (pendingWrites (t_versionManager t))"
    "latestVersion (t_versionManager t') = sp_latest sp" "committedVersion (t_versionManager t') = sp_current ?sp"
    using vm_Commit_fields [OF vmc] D(2,3) by (simp_all add: sp)
  have pend: "pending_rel H ?sp t'"
    using m commit_grow [OF rel b(1)] by (intro pending_rel_del [OF rel vm(1)]) (simp_all add: sp t')
  have "values_ok H (inputs H (sp_hist sp)) (commit_db v batch (t_db t))"
    using D(5) by (intro values_commit [OF _ b(1,2) subset_refl]) (simp_all add: store_ok_def)
  then have store: "store_ok H (sp_hist sp) (t_db t')" using D(5) by (simp add: store_ok_def t' snapshots_free_def)
  have "tree_rel H ?sp t'"
    unfolding tree_rel_def
    using vm_inv_Commit [OF D(1) vmc] vm(2,3) versions_rel_commit [OF rel m b(1) new t'(1,2)] pend store D(4)
      unwritten_commit [OF rel b(1) Some vmc] by (simp add: sp t')
  with commit sp(2) show ?thesis by simp
qed

section \<open>Reading\<close>

lemma snapshot_roundtrip:
  assumes "\<not> ms_closing db" and "snapshots_free db"
  shows "\<exists>sn db1. NewSnapshot db = (MemSnapshot sn, db1) \<and> sn_data sn = ms_data db \<and> snd (Snapshot_Close (MemSnapshot sn) db1) = db"
  using assms by (auto simp: NewSnapshot_def addRef_def snapshots_free_def releaseRef_def)

lemma stored_value:
  assumes rel: "tree_rel H sp t" and ok: "hash_ok H (sp_hist sp)" and k: "wf_key k" "m k = Some val" "m \<in> set (sp_hist sp)"
    and rep: "rep (loadNodeFromStorage (t_db t)) H (hashed H m) v [] MaxTreeDepth" and H: "\<And>x. wf_hash (H x)"
  shows "gm_get (ms_data (t_db t)) (DefaultKeyEncoder_ValueKey (H val)) = Some val"
proof -
  have val: "values_ok H (inputs H (sp_hist sp)) (t_db t)" using tree_relD(5) [OF rel] by (simp add: store_ok_def)
  have "hashed H m k = Some (H val)" using k(2) by (simp add: hashed_def)
  then obtain w l where "loadNodeFromStorage (t_db t) (nkey w (nibbles_of k)) = Inr (Leaf l)" "l_valueHash l = H val"
    using rep_leaf [OF rep _ _ _ k(1)] by auto
  then obtain b where b: "gm_get (ms_data (t_db t)) (DefaultKeyEncoder_ValueKey (H val)) = Some b"
    using val unfolding values_ok_def by (metis not_None_eq wf_nibbles_of)
  with val H have "H b = H val" "b \<in> inputs H (sp_hist sp)" unfolding values_ok_def by blast+
  moreover have "val \<in> inputs H (sp_hist sp)" using inputs_mem(2) [OF k(3), of H] k(2) by (auto simp: ran_def)
  ultimately show ?thesis using b no_collision [OF ok] by blast
qed

lemma get_refines:
  assumes rel: "tree_rel H sp t" and H: "\<And>x. wf_hash (H x)" and ok: "hash_ok H (sp_hist sp)" and k: "wf_key k"
  shows "Tree_Get H t v k = (spec_get v k sp, t)"
proof (cases "v \<le> MaxVersion \<and> k \<noteq> emptyKey \<and> sp_committed sp v \<noteq> None")
  case False
  moreover have "gm_get (t_rootHashes t) v = map_option (\<lambda>m. merkle_root H (hashed H m)) (sp_committed sp v)"
    using tree_relD(7) [OF rel] by (simp add: versions_rel_def)
  ultimately show ?thesis by (auto simp: Tree_Get_def spec_get_def validateVersion_def validateKey_def)
next
  case True
  then obtain m where m: "sp_committed sp v = Some m" by blast
  have root: "gm_get (t_rootHashes t) v = Some (merkle_root H (hashed H m))"
    using tree_relD(7) [OF rel] m by (simp add: versions_rel_def)
  have spec: "spec_get v k sp = Inr (m k)" using True m by (simp add: spec_get_def linorder_not_less [THEN iffD2])
  have vals: "validateVersion v = Inr ()" "validateKey k = Inr ()"
    using True by (simp_all add: validateVersion_def validateKey_def linorder_not_less [THEN iffD2])
  note c = committedD(1) [OF rel m]
  show ?thesis
  proof (cases "merkle H (hashed H m) [] MaxTreeDepth")
    case None
    then have "m k = None" using merkle_None_iff [of "[]" MaxTreeDepth H "hashed H m"] k by (auto simp: hashed_def)
    with None root spec vals show ?thesis by (simp add: Tree_Get_def merkle_root_def)
  next
    case (Some h)
    have mh: "m \<in> set (sp_hist sp)" and rep: "rep (loadNodeFromStorage (t_db t)) H (hashed H m) v [] MaxTreeDepth"
      using c Some by (auto simp: version_ok_def)
    have "h \<noteq> EmptyHash" using merkle_input [OF Some] inputs_mem(1) [OF mh, of H] ok by (auto simp: hash_ok_def)
    have st: "\<not> ms_closing (t_db t)" "snapshots_free (t_db t)" using tree_relD(5) [OF rel] by (simp_all add: store_ok_def)
    obtain sn db1 where sn: "NewSnapshot (t_db t) = (MemSnapshot sn, db1)" "sn_data sn = ms_data (t_db t)"
      "snd (Snapshot_Close (MemSnapshot sn) db1) = t_db t" using snapshot_roundtrip [OF st] by blast
    let ?rd = "\<lparr>rd_snapshot = MemSnapshot sn, rd_version = v, rd_rootHash = h\<rparr>"
    have "Reader_Get H ?rd k = Inr (m k)"
    proof (cases "m k")
      case None
      with Reader_Get_correct [OF rep _ k, of ?rd] sn(2) show ?thesis by (simp add: reads_def hashed_def)
    next
      case (Some val)
      with Reader_Get_correct [OF rep _ k, of ?rd] sn(2) stored_value [OF rel ok k Some mh rep H] show ?thesis
        by (simp add: reads_def hashed_def loadValue_def)
    qed
    with sn root Some \<open>h \<noteq> EmptyHash\<close> spec vals show ?thesis
      by (simp add: Tree_Get_def merkle_root_def del: Snapshot_Close.simps)
  qed
qed

end
