(* ===== verification/ToyHash.thy ===== *)
theory ToyHash
  imports TreeSpec
begin

text \<open>
  A small hash function for the examples that instantiate the theorems: 31 zero bytes and a byte computed
  from the sum of the input. It is good on the inputs that one key-value pair needs, so the examples run on
  the branch where the hash function does not collide.
\<close>

definition tailHash :: "byte \<Rightarrow> hash" where
  "tailHash b = replicate 31 0 @ [b]"

definition toyHash :: "bytes \<Rightarrow> hash" where
  "toyHash x = tailHash (sum_list x + 249)"

definition toyKey :: key where
  "toyKey = replicate 32 0x11"

definition toyValue :: bytes where
  "toyValue = [5]"

lemma tailHash_inject [simp]: "tailHash a = tailHash b \<longleftrightarrow> a = b"
  by (simp add: tailHash_def)

lemma tailHash_empty [simp]: "tailHash a = EmptyHash \<longleftrightarrow> a = 0"
proof -
  have eq: "EmptyHash = tailHash 0" by code_simp
  show ?thesis unfolding eq by simp
qed

lemma wf_toyHash [simp]: "wf_hash (toyHash x)"
  by (simp add: toyHash_def tailHash_def wf_hash_def HashSize_def)

lemma wf_toyKey [simp]: "wf_key toyKey"
  by (simp add: toyKey_def wf_key_def KeySize_def)

lemma toyKey_not_empty [simp]: "toyKey \<noteq> emptyKey"
  by code_simp

lemma nibbles_of_toyKey: "nibbles_of toyKey = replicate MaxTreeDepth 1"
  by code_simp

text \<open>The inputs along the path of the key, from the leaf upwards.\<close>

fun toyInput :: "nat \<Rightarrow> bytes" where
  "toyInput 0 = leaf_preimage toyKey (toyHash toyValue)"
| "toyInput (Suc j) = internal_preimage (\<lambda>n. if n = 1 then Some (tailHash (24 + of_nat j)) else None)"

lemma toyHash_internal: "toyHash (internal_preimage (\<lambda>n. if n = 1 then Some (tailHash c) else None)) = tailHash (c + 1)"
proof -
  have "sum_list (tailHash c) = c" by (simp add: tailHash_def sum_list_replicate)
  then show ?thesis
    by (simp add: toyHash_def internal_preimage_def nibble_range_def slot_def NodeTypeInternal_def EmptyTreeHash_def)
qed

lemma toyHash_toyInput: "toyHash (toyInput j) = tailHash (24 + of_nat j)"
proof (cases j)
  case 0
  have "toyHash (leaf_preimage toyKey (toyHash toyValue)) = tailHash 24" by code_simp
  with 0 show ?thesis by simp
next
  case (Suc i)
  then show ?thesis by (simp add: toyHash_internal add_ac)
qed

definition toyMap :: vmap where
  "toyMap = [toyKey \<mapsto> toyValue]"

lemma toy_merkle:
  assumes "d + r = MaxTreeDepth"
  shows "merkle toyHash (hashed toyHash toyMap) (replicate d 1) r = Some (tailHash (24 + of_nat r))
    \<and> merkle_inputs toyHash (hashed toyHash toyMap) (replicate d 1) r \<subseteq> toyInput ` {..r}"
  using assms
proof (induction r arbitrary: d)
  case 0
  then have "replicate d 1 = nibbles_of toyKey" by (simp add: nibbles_of_toyKey)
  then have "pack (replicate d 1) = toyKey" using pack_nibbles_of [OF wf_toyKey] by simp
  then show ?case using toyHash_toyInput [of 0] by (simp add: hashed_def toyMap_def)
next
  case (Suc r)
  let ?m = "hashed toyHash toyMap" and ?p = "replicate d 1 :: nibble list"
  have d: "d < MaxTreeDepth" using Suc.prems by simp
  have on: "merkle toyHash ?m (?p @ [1]) r = Some (tailHash (24 + of_nat r))"
    "merkle_inputs toyHash ?m (?p @ [1]) r \<subseteq> toyInput ` {..r}"
    using Suc.IH [of "Suc d"] Suc.prems by (simp_all add: replicate_append_same [symmetric])
  have off: "merkle toyHash ?m (?p @ [n]) r = None" if "n \<le> MaxNibbleValue" "n \<noteq> 1" for n
  proof -
    have "wf_nibbles (?p @ [n])" using that(1) d by (auto simp: wf_nibbles_def MaxNibbleValue_def)
    moreover have "\<not> below (?p @ [n]) toyKey" using that(2) d by (simp add: below_def ext_snoc nibbles_of_toyKey)
    ultimately show ?thesis using Suc.prems by (subst merkle_None_iff) (auto simp: hashed_def toyMap_def)
  qed
  have pre: "internal_preimage (\<lambda>n. merkle toyHash ?m (?p @ [n]) r) = toyInput (Suc r)"
    using on(1) off by (simp, intro internal_preimage_cong) auto
  have one: "(1 :: nibble) \<in> set nibble_range" by (simp add: nibble_range_def)
  have mk: "merkle toyHash ?m ?p (Suc r) = Some (toyHash (toyInput (Suc r)))"
    using on(1) one pre by (auto simp: merkle.simps(2))
  have "merkle_inputs toyHash ?m (?p @ [n]) r \<subseteq> toyInput ` {..r}" if "n \<in> set nibble_range" for n
    using on(2) off [of n] that by (cases "n = 1") (simp_all add: nibble_range_iff merkle_inputs_None)
  then have "merkle_inputs toyHash ?m ?p (Suc r) \<subseteq> insert (toyInput (Suc r)) (toyInput ` {..r})"
    using mk pre by auto
  also have "\<dots> = toyInput ` {..Suc r}" by (simp only: atMost_Suc image_insert)
  finally show ?case using mk toyHash_toyInput [of "Suc r"] by simp
qed

lemma toy_byte:
  assumes "j \<le> 64"
  shows "unat (24 + of_nat j :: byte) = 24 + j"
  using assms by (simp add: unat_word_ariths unat_of_nat)

lemma toy_inputs: "inputs toyHash [toyMap, Map.empty] \<subseteq> insert toyValue (toyInput ` {..64})"
proof -
  have "merkle_inputs toyHash (hashed toyHash toyMap) [] MaxTreeDepth \<subseteq> toyInput ` {..64}"
    using toy_merkle [of 0 MaxTreeDepth] by (simp add: MaxTreeDepth_def)
  moreover have "ran toyMap = {toyValue}" by (simp add: toyMap_def)
  ultimately show ?thesis by (simp add: inputs_def merkle_inputs_None) blast
qed

lemma toy_cases:
  assumes "x \<in> insert toyValue (toyInput ` {..64})"
  obtains "x = toyValue" "toyHash x = tailHash 254"
  | j where "j \<le> 64" "x = toyInput j" "toyHash x = tailHash (24 + of_nat j)"
proof -
  have "toyHash toyValue = tailHash 254" by code_simp
  with assms that toyHash_toyInput show ?thesis by (metis atMost_iff image_iff insert_iff)
qed

lemma toy_bytes:
  assumes "j \<le> 64"
  shows "(24 + of_nat j :: byte) \<noteq> 254" "(24 + of_nat j :: byte) \<noteq> 0"
proof -
  have "unat (24 + of_nat j :: byte) \<noteq> unat (254 :: byte)" "unat (24 + of_nat j :: byte) \<noteq> unat (0 :: byte)"
    using assms unfolding toy_byte [OF assms] by simp_all
  then show "(24 + of_nat j :: byte) \<noteq> 254" "(24 + of_nat j :: byte) \<noteq> 0" by metis+
qed

lemma toy_hash_ok: "hash_ok toyHash [toyMap, Map.empty]"
proof -
  let ?S = "insert toyValue (toyInput ` {..64})"
  have inj: "i = j" if "i \<le> 64" "j \<le> 64" "(24 + of_nat i :: byte) = 24 + of_nat j" for i j
    using arg_cong [where f = unat, OF that(3)] unfolding toy_byte [OF that(1)] toy_byte [OF that(2)] by simp
  have eq: "x = y" if "x \<in> ?S" "y \<in> ?S" "toyHash x = toyHash y" for x y
    using that(1)
  proof (cases rule: toy_cases)
    case x: 1
    from that(2) show ?thesis
    proof (cases rule: toy_cases)
      case (2 j)
      then have "(24 + of_nat j :: byte) = 254" using x(2) that(3) by (metis tailHash_inject)
      with toy_bytes(1) [OF 2(1)] show ?thesis by blast
    qed (use x in simp)
  next
    case x: (2 i)
    from that(2) show ?thesis
    proof (cases rule: toy_cases)
      case 1
      then have "(24 + of_nat i :: byte) = 254" using x(3) that(3) by (metis tailHash_inject)
      with toy_bytes(1) [OF x(1)] show ?thesis by blast
    next
      case (2 j)
      then have "(24 + of_nat i :: byte) = 24 + of_nat j" using x(3) that(3) by (metis tailHash_inject)
      from inj [OF x(1) 2(1) this] x(2) 2(2) show ?thesis by blast
    qed
  qed
  have nz: "toyHash x \<noteq> EmptyHash" if "x \<in> ?S" for x
    using that
  proof (cases rule: toy_cases)
    case 1
    show ?thesis unfolding 1(2) tailHash_empty by simp
  next
    case (2 j)
    from toy_bytes(2) [OF 2(1)] show ?thesis unfolding 2(3) tailHash_empty .
  qed
  show ?thesis
    unfolding hash_ok_def collides_def
  proof (intro conjI notI ballI)
    assume "\<exists>x \<in> inputs toyHash [toyMap, Map.empty]. \<exists>y \<in> inputs toyHash [toyMap, Map.empty]. x \<noteq> y \<and> toyHash x = toyHash y"
    then obtain x y where xy: "x \<in> ?S" "y \<in> ?S" "x \<noteq> y" "toyHash x = toyHash y" using toy_inputs by (meson subsetD)
    from xy(3) eq [OF xy(1,2,4)] show False ..
  next
    fix x
    assume x: "x \<in> inputs toyHash [toyMap, Map.empty]" "toyHash x = EmptyHash"
    from nz [OF subsetD [OF toy_inputs x(1)]] x(2) show False ..
  qed
qed

end
