(* ===== verification/TreeRuns.thy ===== *)
theory TreeRuns
  imports TreeRefine ToyHash
begin

text \<open>
  Sequences of tree operations against the versioned map, the operations \<open>Put\<close> and \<open>Delete\<close> (which begin,
  update and commit a version of their own), garbage collection, and the properties of the tree.
\<close>

section \<open>A new tree\<close>

definition empty_store :: "Storage \<Rightarrow> bool" where
  "empty_store db \<longleftrightarrow> ms_data db = [] \<and> \<not> ms_closing db \<and> snapshots_free db
     \<and> (ms_maxIterators db \<le> 0 \<or> ms_openIterators db < ms_maxIterators db)"

text \<open>The iterator over the root keys, opened and closed again.\<close>

lemma iterator_roundtrip:
  assumes "\<not> ms_closing db" and "ms_maxIterators db \<le> 0 \<or> ms_openIterators db < ms_maxIterators db"
  shows "\<exists>i db1. NewIterator db opts = (MemIterator i, db1) \<and> closeIterator (MemIterator i) db1 = db
    \<and> scan (MemIterator i) = map (\<lambda>k. (k, gm_get (ms_data db) k)) (filter (inBounds opts) (sort (map fst (ms_data db))))"
  using assms by (auto simp: NewIterator_def addRef_def Iterator_Close_def releaseRef_def scan_eq applyBounds_eq simp del: scan.simps)

lemma NewTree_empty:
  assumes "empty_store db" and "0 < cf_CacheSize cfg"
  shows "NewTree now db cfg = Inr \<lparr>t_db = db, t_latestVer = 0, t_rootHashes = [(0, EmptyHash)], t_config = cfg,
    t_versionManager = NewVersionManager now, t_stats = NewTreeStats\<rparr>"
proof -
  obtain i db1 where i: "NewIterator db rootOptions = (MemIterator i, db1)" "closeIterator (MemIterator i) db1 = db"
    "scan (MemIterator i) = []"
    using iterator_roundtrip [of db rootOptions] assms(1) by (auto simp: empty_store_def)
  show ?thesis
    using assms(2) i
    by (simp add: NewTree_def loadRootHashes_def NewVersionManager_def NewVersionManagerWithRetention_def InitialVersion_def
        del: scan.simps closeIterator.simps)
qed

lemma NewTree_rel:
  assumes "empty_store db" and "0 < cf_CacheSize cfg" and "NewTree now db cfg = Inr t"
  shows "tree_rel H spec_init t"
proof -
  have t: "t = \<lparr>t_db = db, t_latestVer = 0, t_rootHashes = [(0, EmptyHash)], t_config = cfg,
      t_versionManager = NewVersionManager now, t_stats = NewTreeStats\<rparr>"
    using NewTree_empty [OF assms(1,2), of now] assms(3) by simp
  have load: "loadNodeFromStorage db (nkey v q) = Inl (Errorf ''node not found'')" if "wf_nibbles q" for v q
    using assms(1) that by (simp add: load_nkey empty_store_def)
  have vm: "vm_inv (NewVersionManager now)" "pendingWrites (NewVersionManager now) = []"
    "latestVersion (NewVersionManager now) = 0" "committedVersion (NewVersionManager now) = 0"
    using vm_inv_New [of now RetentionPolicyCount 100 0]
    by (simp_all add: NewVersionManager_def NewVersionManagerWithRetention_def InitialVersion_def)
  have "values_ok H (inputs H [Map.empty]) db" using assms(1) load by (simp add: values_ok_def empty_store_def)
  moreover have "version_ok H [Map.empty] (loadNodeFromStorage db) Map.empty 0" using load by (simp add: version_ok_def)
  ultimately show ?thesis
    using vm assms(1)
    by (simp add: tree_rel_def t spec_init_def store_ok_def unwritten_def versions_rel_def pending_rel_def empty_store_def merkle_root_def)
qed

section \<open>Put and Delete\<close>

definition spec_Put :: "key \<Rightarrow> bytes \<Rightarrow> spec \<Rightarrow> version result \<times> spec" where
  "spec_Put k val sp =
     (if k = emptyKey then (Inl (Wrapf ''invalid key'' ErrEmptyKey), sp)
      else if val = [] then (Inl (Wrapf ''invalid value'' ErrEmptyValue), sp)
      else if length val > MaxValueSize then (Inl (Wrapf ''invalid value'' ErrValueTooLarge), sp)
      else if sp_latest sp = MaxVersion then (Inl (Wrapf ''failed to begin version'' (Errorf ''version overflow'')), sp)
      else let v = sp_latest sp + 1; m = (the (sp_committed sp (sp_current sp)))(k \<mapsto> val)
           in (Inr v, sp\<lparr>sp_committed := (sp_committed sp)(v \<mapsto> m), sp_latest := v, sp_current := v, sp_hist := m # sp_hist sp\<rparr>))"

text \<open>A failed \<open>Delete\<close> aborts the version it began, which uses up its number.\<close>

definition spec_Delete :: "key \<Rightarrow> spec \<Rightarrow> version result \<times> spec" where
  "spec_Delete k sp =
     (if sp_latest sp = MaxVersion then (Inl (Wrapf ''failed to begin version'' (Errorf ''version overflow'')), sp)
      else let v = sp_latest sp + 1; m = the (sp_committed sp (sp_current sp))
           in if k = emptyKey then (Inl (Wrapf ''failed to delete'' (Wrapf ''invalid key'' ErrEmptyKey)), sp\<lparr>sp_latest := v\<rparr>)
              else if m k = None then (Inl (Wrapf ''failed to delete'' (Wrapf ''delete failed'' ErrKeyNotFound)), sp\<lparr>sp_latest := v\<rparr>)
              else (Inr v, sp\<lparr>sp_committed := (sp_committed sp)(v \<mapsto> m(k := None)), sp_latest := v, sp_current := v,
                             sp_hist := m(k := None) # sp_hist sp\<rparr>))"

lemma next_free:
  assumes "tree_rel H sp t" and "sp_latest sp \<noteq> MaxVersion"
  shows "sp_latest sp < sp_latest sp + 1" "sp_latest sp + 1 \<le> MaxVersion" "sp_pending sp (sp_latest sp + 1) = None"
    "sp_current sp < sp_latest sp + 1" "\<exists>m. sp_committed sp (sp_current sp) = Some m"
proof -
  note D = tree_relD [OF assms(1)]
  show nx: "sp_latest sp < sp_latest sp + 1" "sp_latest sp + 1 \<le> MaxVersion"
    using next_version [of "sp_latest sp"] vm_invD(3) [OF D(1)] D(2) assms(2) by auto
  have "gm_get (pendingWrites (t_versionManager t)) (sp_latest sp + 1) = None"
  proof (rule ccontr)
    assume "gm_get (pendingWrites (t_versionManager t)) (sp_latest sp + 1) \<noteq> None"
    then obtain p where "gm_get (pendingWrites (t_versionManager t)) (sp_latest sp + 1) = Some p" by blast
    from vm_invD(5) [OF D(1) this] nx(1) D(2) show False by (simp add: leD)
  qed
  then show "sp_pending sp (sp_latest sp + 1) = None" unfolding pending_iff [OF assms(1)] .
  show m: "\<exists>m. sp_committed sp (sp_current sp) = Some m" using D(7) by (simp add: versions_rel_def)
  then show "sp_current sp < sp_latest sp + 1" using committedD(2) [OF assms(1)] nx(1) by (meson le_less_trans)
qed

lemma begin_run:
  assumes rel: "tree_rel H sp t" and "sp_latest sp \<noteq> MaxVersion" and m: "sp_committed sp (sp_current sp) = Some m"
  shows "\<exists>t1. BeginVersion now t = (Inr (sp_latest sp + 1), t1)
    \<and> tree_rel H (sp\<lparr>sp_latest := sp_latest sp + 1, sp_pending := (sp_pending sp)(sp_latest sp + 1 \<mapsto> (m, False))\<rparr>) t1"
  using begin_refines [OF rel, of now] assms(2) m
  by (cases "BeginVersion now t") (simp add: spec_begin_def Let_def)

lemma abort_run:
  assumes "tree_rel H (sp\<lparr>sp_latest := v, sp_pending := (sp_pending sp)(v \<mapsto> x)\<rparr>) t" and "sp_pending sp v = None"
  shows "tree_rel H (sp\<lparr>sp_latest := v\<rparr>) (snd (AbortVersion v t))"
proof -
  have "(sp_pending sp)(v := None) = sp_pending sp" using assms(2) by (simp add: fun_upd_idem)
  with abort_refines [OF assms(1), of v] show ?thesis by (simp add: spec_abort_def)
qed

lemma commit_run_new:
  assumes rel: "tree_rel H (sp\<lparr>sp_latest := v, sp_pending := (sp_pending sp)(v \<mapsto> (m, True)), sp_hist := m # sp_hist sp\<rparr>) t"
    and H: "\<And>x. wf_hash (H x)" and "hash_ok H (m # sp_hist sp)" and "sp_pending sp v = None" and "sp_current sp < v"
  shows "\<exists>t'. CommitVersion H now v t = (Inr (), t') \<and> tree_rel H (sp\<lparr>sp_committed := (sp_committed sp)(v \<mapsto> m),
    sp_latest := v, sp_current := v, sp_hist := m # sp_hist sp\<rparr>) t'"
proof -
  let ?sp = "sp\<lparr>sp_latest := v, sp_pending := (sp_pending sp)(v \<mapsto> (m, True)), sp_hist := m # sp_hist sp\<rparr>"
  have "spec_commit v ?sp = (Inr (), sp\<lparr>sp_committed := (sp_committed sp)(v \<mapsto> m),
      sp_latest := v, sp_current := v, sp_hist := m # sp_hist sp\<rparr>)"
    using assms(4,5) by (cases sp) (simp add: spec_commit_def fun_upd_idem)
  with commit_refines [where v = v and now = now, OF rel H] assms(3) show ?thesis
    by (cases "CommitVersion H now v t") simp
qed

lemma Put_refines:
  assumes rel: "tree_rel H sp t" and H: "\<And>x. wf_hash (H x)" and k: "wf_key k"
    and ok: "hash_ok H (sp_hist (snd (spec_Put k val sp)))"
  shows "fst (Tree_Put H now k val t) = fst (spec_Put k val sp) \<and> tree_rel H (snd (spec_Put k val sp)) (snd (Tree_Put H now k val t))"
proof (cases "k = emptyKey \<or> val = [] \<or> length val > MaxValueSize \<or> sp_latest sp = MaxVersion")
  case True
  with rel begin_refines [OF rel, of now] show ?thesis
    by (cases "BeginVersion now t") (auto simp: Tree_Put_def spec_Put_def validateKey_def validateValue_def wrapE_def spec_begin_def)
next
  case False
  let ?v = "sp_latest sp + 1"
  note nf = next_free [OF rel]
  obtain m where m: "sp_committed sp (sp_current sp) = Some m" using nf(5) False by blast
  let ?m = "m(k \<mapsto> val)"
  obtain t1 where t1: "BeginVersion now t = (Inr ?v, t1)"
    "tree_rel H (sp\<lparr>sp_latest := ?v, sp_pending := (sp_pending sp)(?v \<mapsto> (m, False))\<rparr>) t1"
    using begin_run [OF rel _ m] False by blast
  have "checkPut ?v k val = Inr ()" using False nf(2) by (auto simp: checkPut_def leD)
  then obtain t2 where t2: "PutVersioned H ?v k val t1 = (Inr (), t2)"
    "tree_rel H (sp\<lparr>sp_latest := ?v, sp_pending := (sp_pending sp)(?v \<mapsto> (?m, True)), sp_hist := ?m # sp_hist sp\<rparr>) t2"
    using put_refines [OF t1(2) H k, of ?v val]
    by (cases "PutVersioned H ?v k val t1") (simp add: spec_put_def spec_set_def)
  have sp: "spec_Put k val sp = (Inr ?v, sp\<lparr>sp_committed := (sp_committed sp)(?v \<mapsto> ?m), sp_latest := ?v, sp_current := ?v,
      sp_hist := ?m # sp_hist sp\<rparr>)"
    using False m by (simp add: spec_Put_def Let_def)
  then obtain t3 where "CommitVersion H now ?v t2 = (Inr (), t3)"
    "tree_rel H (sp\<lparr>sp_committed := (sp_committed sp)(?v \<mapsto> ?m), sp_latest := ?v, sp_current := ?v, sp_hist := ?m # sp_hist sp\<rparr>) t3"
    using commit_run_new [OF t2(2) H] ok nf(3,4) False by auto
  with t1(1) t2(1) sp False show ?thesis by (simp add: Tree_Put_def validateKey_def validateValue_def)
qed

lemma Delete_refines:
  assumes rel: "tree_rel H sp t" and H: "\<And>x. wf_hash (H x)" and k: "wf_key k"
    and twin: "\<And>m. sp_committed sp (sp_current sp) = Some m \<Longrightarrow> no_twin (hashed H m) k"
    and ok: "hash_ok H (sp_hist (snd (spec_Delete k sp)))"
  shows "fst (Tree_Delete H now k t) = fst (spec_Delete k sp) \<and> tree_rel H (snd (spec_Delete k sp)) (snd (Tree_Delete H now k t))"
proof (cases "sp_latest sp = MaxVersion")
  case True
  with rel begin_refines [OF rel, of now] show ?thesis
    by (cases "BeginVersion now t") (auto simp: Tree_Delete_def spec_Delete_def wrapE_def spec_begin_def)
next
  case False
  let ?v = "sp_latest sp + 1"
  note nf = next_free [OF rel False]
  obtain m where m: "sp_committed sp (sp_current sp) = Some m" using nf(5) by blast
  let ?m = "m(k := None)" and ?sp1 = "sp\<lparr>sp_latest := ?v, sp_pending := (sp_pending sp)(?v \<mapsto> (m, False))\<rparr>"
  obtain t1 where t1: "BeginVersion now t = (Inr ?v, t1)" "tree_rel H ?sp1 t1"
    using begin_run [OF rel False m] by blast
  have del: "fst (DeleteVersioned H ?v k t1) = fst (spec_delete ?v k ?sp1)
      \<and> tree_rel H (snd (spec_delete ?v k ?sp1)) (snd (DeleteVersioned H ?v k t1))"
    using twin m by (intro delete_refines [OF t1(2) H k]) simp
  have chk: "checkDelete ?v k = (if k = emptyKey then Inl (Wrapf ''invalid key'' ErrEmptyKey) else Inr ())"
    using nf(2) by (auto simp: checkDelete_def leD)
  show ?thesis
  proof (cases "k = emptyKey \<or> m k = None")
    case True
    then obtain e t2 where t2: "DeleteVersioned H ?v k t1 = (Inl e, t2)" "tree_rel H ?sp1 t2"
      and e: "fst (spec_Delete k sp) = Inl (Wrapf ''failed to delete'' e)" "\<not> is_panic e" "snd (spec_Delete k sp) = sp\<lparr>sp_latest := ?v\<rparr>"
      using del chk m False by (cases "DeleteVersioned H ?v k t1") (auto simp: spec_delete_def spec_Delete_def Let_def split: if_splits)
    then show ?thesis using t1(1) abort_run [OF t2(2) nf(3)] by (simp add: Tree_Delete_def abortWith_def)
  next
    case found: False
    then obtain t2 where t2: "DeleteVersioned H ?v k t1 = (Inr (), t2)"
      "tree_rel H (sp\<lparr>sp_latest := ?v, sp_pending := (sp_pending sp)(?v \<mapsto> (?m, True)), sp_hist := ?m # sp_hist sp\<rparr>) t2"
      using del chk by (cases "DeleteVersioned H ?v k t1") (auto simp: spec_delete_def spec_set_def)
    have sp: "spec_Delete k sp = (Inr ?v, sp\<lparr>sp_committed := (sp_committed sp)(?v \<mapsto> ?m), sp_latest := ?v, sp_current := ?v,
        sp_hist := ?m # sp_hist sp\<rparr>)"
      using False found m by (simp add: spec_Delete_def Let_def)
    then obtain t3 where "CommitVersion H now ?v t2 = (Inr (), t3)"
      "tree_rel H (sp\<lparr>sp_committed := (sp_committed sp)(?v \<mapsto> ?m), sp_latest := ?v, sp_current := ?v, sp_hist := ?m # sp_hist sp\<rparr>) t3"
      using commit_run_new [OF t2(2) H] ok nf(3,4) by auto
    with t1(1) t2(1) sp show ?thesis by (simp add: Tree_Delete_def)
  qed
qed

section \<open>Sequences of operations\<close>

datatype op =
    BeginOp int
  | PutOp version key bytes
  | DeleteOp version key
  | CommitOp int version
  | AbortOp version
  | GetOp version key
  | TreePutOp int key bytes
  | TreeDeleteOp int key

datatype outcome = OutVersion "version result" | OutUnit "unit result" | OutValue "bytes option result"

fun exec :: "(bytes \<Rightarrow> hash) \<Rightarrow> op \<Rightarrow> Tree \<Rightarrow> outcome \<times> Tree" where
  "exec H (BeginOp now) t = map_prod OutVersion id (BeginVersion now t)"
| "exec H (PutOp v k val) t = map_prod OutUnit id (PutVersioned H v k val t)"
| "exec H (DeleteOp v k) t = map_prod OutUnit id (DeleteVersioned H v k t)"
| "exec H (CommitOp now v) t = map_prod OutUnit id (CommitVersion H now v t)"
| "exec H (AbortOp v) t = map_prod OutUnit id (AbortVersion v t)"
| "exec H (GetOp v k) t = map_prod OutValue id (Tree_Get H t v k)"
| "exec H (TreePutOp now k val) t = map_prod OutVersion id (Tree_Put H now k val t)"
| "exec H (TreeDeleteOp now k) t = map_prod OutVersion id (Tree_Delete H now k t)"

fun specExec :: "op \<Rightarrow> spec \<Rightarrow> outcome \<times> spec" where
  "specExec (BeginOp now) sp = map_prod OutVersion id (spec_begin sp)"
| "specExec (PutOp v k val) sp = map_prod OutUnit id (spec_put v k val sp)"
| "specExec (DeleteOp v k) sp = map_prod OutUnit id (spec_delete v k sp)"
| "specExec (CommitOp now v) sp = map_prod OutUnit id (spec_commit v sp)"
| "specExec (AbortOp v) sp = map_prod OutUnit id (spec_abort v sp)"
| "specExec (GetOp v k) sp = (OutValue (spec_get v k sp), sp)"
| "specExec (TreePutOp now k val) sp = map_prod OutVersion id (spec_Put k val sp)"
| "specExec (TreeDeleteOp now k) sp = map_prod OutVersion id (spec_Delete k sp)"

text \<open>
  Where the code follows the specification: keys have 32 bytes, a key that is deleted, if it is there, has no
  neighbour that shares its first 63 nibbles, and a committed version had a successful operation.
\<close>

definition alone :: "vmap \<Rightarrow> key \<Rightarrow> bool" where
  "alone m k \<longleftrightarrow> (\<forall>k'. wf_key k' \<longrightarrow> k' \<noteq> k \<longrightarrow> take 63 (nibbles_of k') = take 63 (nibbles_of k) \<longrightarrow> m k' = None)"

definition twinless :: "vmap \<Rightarrow> key \<Rightarrow> bool" where
  "twinless m k \<longleftrightarrow> (m k \<noteq> None \<longrightarrow> alone m k)"

lemma no_twin_hashed [simp]: "no_twin (hashed H m) k \<longleftrightarrow> twinless m k"
  by (simp add: no_twin_def twinless_def alone_def hashed_def)

fun op_ok :: "op \<Rightarrow> spec \<Rightarrow> bool" where
  "op_ok (BeginOp now) sp = True"
| "op_ok (PutOp v k val) sp = wf_key k"
| "op_ok (DeleteOp v k) sp =
     (wf_key k \<and> (case sp_pending sp v of None \<Rightarrow> True | Some (m, b) \<Rightarrow> twinless m k))"
| "op_ok (CommitOp now v) sp = (case sp_pending sp v of None \<Rightarrow> True | Some (m, b) \<Rightarrow> b)"
| "op_ok (AbortOp v) sp = True"
| "op_ok (GetOp v k) sp = wf_key k"
| "op_ok (TreePutOp now k val) sp = wf_key k"
| "op_ok (TreeDeleteOp now k) sp = (wf_key k \<and> (case sp_committed sp (sp_current sp) of None \<Rightarrow> True | Some m \<Rightarrow> twinless m k))"

fun run :: "(bytes \<Rightarrow> hash) \<Rightarrow> op list \<Rightarrow> Tree \<Rightarrow> outcome list \<times> Tree" where
  "run H [] t = ([], t)"
| "run H (x # xs) t = (let (r, t1) = exec H x t; (rs, t2) = run H xs t1 in (r # rs, t2))"

fun specRun :: "op list \<Rightarrow> spec \<Rightarrow> outcome list \<times> spec" where
  "specRun [] sp = ([], sp)"
| "specRun (x # xs) sp = (let (r, sp1) = specExec x sp; (rs, sp2) = specRun xs sp1 in (r # rs, sp2))"

fun run_ok :: "op list \<Rightarrow> spec \<Rightarrow> bool" where
  "run_ok [] sp = True"
| "run_ok (x # xs) sp = (op_ok x sp \<and> run_ok xs (snd (specExec x sp)))"

lemma hist_mono: "set (sp_hist sp) \<subseteq> set (sp_hist (snd (specExec x sp)))"
  by (cases x) (auto simp: spec_begin_def spec_put_def spec_delete_def spec_commit_def spec_abort_def spec_set_def spec_Put_def spec_Delete_def Let_def
      split: sum.splits option.splits)

lemma exec_refines:
  assumes rel: "tree_rel H sp t" and H: "\<And>x. wf_hash (H x)" and ok: "hash_ok H (sp_hist (snd (specExec x sp)))" and "op_ok x sp"
  shows "fst (exec H x t) = fst (specExec x sp) \<and> tree_rel H (snd (specExec x sp)) (snd (exec H x t))"
proof -
  have ok0: "hash_ok H (sp_hist sp)" using hash_ok_mono [OF ok hist_mono] .
  show ?thesis
  proof (cases x)
    case (DeleteOp v k)
    then have "no_twin (hashed H m) k" if "sp_pending sp v = Some (m, b)" for m b using assms(4) that by simp
    with DeleteOp assms(4) show ?thesis using delete_refines [OF rel H] by simp
  next
    case (CommitOp now v)
    then have touched: "b" if "sp_pending sp v = Some (m, b)" for m b using assms(4) that by simp
    from commit_refines [where v = v and now = now, OF rel H ok0 touched] CommitOp show ?thesis by simp
  next
    case (TreeDeleteOp now k)
    then have "no_twin (hashed H m) k" if "sp_committed sp (sp_current sp) = Some m" for m using assms(4) that by simp
    with TreeDeleteOp assms(4) ok show ?thesis using Delete_refines [OF rel H] by simp
  next
    case (TreePutOp now k val)
    with assms(4) ok show ?thesis using Put_refines [OF rel H] by simp
  qed (use assms(4) begin_refines [OF rel] put_refines [OF rel H] abort_refines [OF rel] get_refines [OF rel H ok0] rel in simp_all)
qed

lemma hist_mono_run: "set (sp_hist sp) \<subseteq> set (sp_hist (snd (specRun xs sp)))"
proof (induction xs arbitrary: sp)
  case (Cons x xs)
  from hist_mono [of sp x] Cons [of "snd (specExec x sp)"] show ?case by (auto simp: Let_def case_prod_unfold)
qed simp

lemma specRun_Cons: "snd (specRun (x # xs) sp) = snd (specRun xs (snd (specExec x sp)))"
    "fst (specRun (x # xs) sp) = fst (specExec x sp) # fst (specRun xs (snd (specExec x sp)))"
  by (simp_all add: Let_def case_prod_unfold)

lemma run_Cons: "snd (run H (x # xs) t) = snd (run H xs (snd (exec H x t)))"
    "fst (run H (x # xs) t) = fst (exec H x t) # fst (run H xs (snd (exec H x t)))"
  by (simp_all add: Let_def case_prod_unfold)

lemma run_refines:
  assumes "tree_rel H sp t" and H: "\<And>x. wf_hash (H x)" and "hash_ok H (sp_hist (snd (specRun xs sp)))" and "run_ok xs sp"
  shows "fst (run H xs t) = fst (specRun xs sp) \<and> tree_rel H (snd (specRun xs sp)) (snd (run H xs t))"
  using assms(1,3,4)
proof (induction xs arbitrary: sp t)
  case (Cons x xs)
  have ok: "hash_ok H (sp_hist (snd (specRun xs (snd (specExec x sp)))))" using Cons.prems(2) unfolding specRun_Cons .
  have "hash_ok H (sp_hist (snd (specExec x sp)))" using hash_ok_mono [OF ok hist_mono_run] .
  then have e: "fst (exec H x t) = fst (specExec x sp)" "tree_rel H (snd (specExec x sp)) (snd (exec H x t))"
    using exec_refines [OF Cons.prems(1) H] Cons.prems(3) by auto
  have "run_ok xs (snd (specExec x sp))" using Cons.prems(3) by simp
  from Cons.IH [OF e(2) ok this] e(1) show ?case unfolding specRun_Cons run_Cons by simp
qed simp

section \<open>Committed versions never change\<close>

lemma spec_committed_stable:
  assumes rel: "tree_rel H sp t" and m: "sp_committed sp v = Some m"
  shows "sp_committed (snd (specExec x sp)) v = Some m"
proof -
  have nf: "sp_latest sp \<noteq> MaxVersion \<Longrightarrow> v \<noteq> sp_latest sp + 1"
    using next_free(1) [OF rel] committedD(2) [OF rel m] by auto
  have np: "sp_pending sp v = None" using committedD(3) [OF rel m] .
  show ?thesis
    using m nf np by (cases x) (auto simp: spec_begin_def spec_put_def spec_delete_def spec_commit_def spec_abort_def spec_set_def
        spec_Put_def spec_Delete_def Let_def split: sum.splits option.splits)
qed

lemma run_committed_stable:
  assumes "tree_rel H sp t" and H: "\<And>x. wf_hash (H x)" and "hash_ok H (sp_hist (snd (specRun xs sp)))" and "run_ok xs sp"
    and "sp_committed sp v = Some m"
  shows "sp_committed (snd (specRun xs sp)) v = Some m"
  using assms(1,3-5)
proof (induction xs arbitrary: sp t)
  case (Cons x xs)
  have ok: "hash_ok H (sp_hist (snd (specRun xs (snd (specExec x sp)))))" using Cons.prems(2) unfolding specRun_Cons .
  have "tree_rel H (snd (specExec x sp)) (snd (exec H x t))"
    using exec_refines [OF Cons.prems(1) H hash_ok_mono [OF ok hist_mono_run]] Cons.prems(3) by simp
  from Cons.IH [OF this ok _ spec_committed_stable [OF Cons.prems(1,4)]] Cons.prems(3) show ?case unfolding specRun_Cons by simp
qed simp

section \<open>Garbage collection\<close>

lemma gc_refines:
  assumes rel: "tree_rel H sp t" and gc: "CollectVersionGarbage cap now t = (Inr rm, t')"
  shows "tree_rel H (sp\<lparr>sp_committed := (sp_committed sp) |` (- set rm)\<rparr>) t' \<and> sp_current sp \<notin> set rm"
proof -
  note D = tree_relD [OF rel]
  obtain vm where g: "CollectGarbage cap now (t_versionManager t) = (Inr rm, vm)"
    and t': "t' = t\<lparr>t_versionManager := vm, t_rootHashes := foldl (\<lambda>m v. gm_del v m) (t_rootHashes t) rm\<rparr>"
    using gc by (auto simp: CollectVersionGarbage_def split: prod.splits sum.splits)
  have vm: "committedVersion vm = committedVersion (t_versionManager t)" "latestVersion vm = latestVersion (t_versionManager t)"
    "pendingWrites vm = pendingWrites (t_versionManager t)" and cur: "sp_current sp \<notin> set rm"
    using g D(3) by (auto simp: CollectGarbage_def Let_def split: if_splits sum.splits)
  let ?sp = "sp\<lparr>sp_committed := (sp_committed sp) |` (- set rm)\<rparr>"
  have "vm_inv vm" using vm_inv_step [OF vm_step.collect [OF g] D(1)] .
  moreover have "versions_rel H ?sp t'"
    using D(7) cur by (auto simp: versions_rel_def t' vm_inv_foldl_del restrict_map_def)
  moreover have "pending_rel H ?sp t'" using D(8) by (simp add: pending_rel_def t' vm)
  moreover have "unwritten vm (t_db t')" using D(6) by (simp add: unwritten_def t' vm)
  ultimately have "tree_rel H ?sp t'" unfolding tree_rel_def using D vm by (simp add: t')
  with cur show ?thesis by blast
qed

section \<open>An empty commit\<close>

text \<open>A version committed without an operation has the root hash of its parent, but no root node.\<close>

lemma empty_commit:
  assumes rel: "tree_rel H sp t" and "sp_latest sp \<noteq> MaxVersion" and m: "sp_committed sp (sp_current sp) = Some m" and "0 < sp_current sp"
  shows "\<exists>t1 t2. BeginVersion now t = (Inr (sp_latest sp + 1), t1) \<and> CommitVersion H now (sp_latest sp + 1) t1 = (Inr (), t2)
    \<and> t_db t2 = t_db t \<and> gm_get (t_rootHashes t2) (sp_latest sp + 1) = Some (merkle_root H (hashed H m))"
proof -
  note D = tree_relD [OF rel]
  let ?v = "sp_latest sp + 1" and ?vm = "t_versionManager t"
  obtain i where i: "gm_get (versions ?vm) (sp_current sp) = Some i" "vi_Status i = VersionStatusCommitted"
    using vm_invD(6) [OF D(1)] D(3) by auto
  have root: "gm_get (t_rootHashes t) (sp_current sp) = Some (merkle_root H (hashed H m))" using D(7) m by (simp add: versions_rel_def)
  have "sp_current sp \<noteq> ?v" using next_free(4) [OF rel assms(2)] by auto
  with i root assms(2,4) D(2,3) show ?thesis
    by (simp add: BeginVersion_def GetLatestCommitted_def Begin_def withVM_def Let_def CommitVersion_def GetPending_def GetRootHash_def
        VersionManager_Commit_def)
qed

end
