(* ===== verification/Proofs.thy ===== *)
theory Proofs
  imports Tree
begin

text \<open>
  Merkle proofs: \<^verbatim>\<open>pkg/proof/types.go\<close>, \<^verbatim>\<open>verifier.go\<close> and \<^verbatim>\<open>generator.go\<close>. The generator reads through
  a \<open>TreeReaderInterface\<close>, which the reader of the tree implements; the hash function is the parameter \<open>H\<close>. A Go slice that
  may be \<^verbatim>\<open>nil\<close> and a pointer are options.
\<close>

section \<open>Data\<close>

type_synonym ProofType = byte

definition ProofTypeInclusion :: ProofType where "ProofTypeInclusion = 0"
definition ProofTypeExclusionEmpty :: ProofType where "ProofTypeExclusionEmpty = 1"
definition ProofTypeExclusionNeighbor :: ProofType where "ProofTypeExclusionNeighbor = 2"

lemmas proofType_defs = ProofTypeInclusion_def ProofTypeExclusionEmpty_def ProofTypeExclusionNeighbor_def

record SiblingData =
  sb_Depth :: int
  sb_Nibble :: nibble
  sb_Hash :: hash
  sb_Children :: "(nibble, hash) gomap"

record NeighborLeafData =
  nb_Key :: key
  nb_ValueHash :: hash
  nb_Path :: "nibble list"
  nb_DivergeDepth :: int

record Proof =
  pf_Type :: ProofType
  pf_Key :: key
  pf_Value :: "bytes option"
  pf_NeighborLeaf :: "NeighborLeafData option"
  pf_Siblings :: "SiblingData list"
  pf_RootHash :: hash
  pf_Version :: version

definition MaxProofSize :: nat where "MaxProofSize = 10 * 1024"

section \<open>Validation\<close>

text \<open>The loop over the siblings; \<open>prev\<close> is the depth of the previous one.\<close>

fun validSiblings :: "int option \<Rightarrow> SiblingData list \<Rightarrow> unit result" where
  "validSiblings prev [] = Inr ()"
| "validSiblings prev (sib # rest) =
     (if sb_Depth sib < 0 \<or> sb_Depth sib > int MaxTreeDepth then Inl ErrInvalidProof
      else if sb_Nibble sib > MaxNibbleValue then Inl ErrInvalidProof
      else if (case prev of Some d \<Rightarrow> sb_Depth sib \<le> d | None \<Rightarrow> False) then Inl ErrInvalidProof
      else validSiblings (Some (sb_Depth sib)) rest)"

definition validNeighbor :: "NeighborLeafData \<Rightarrow> unit result" where
  "validNeighbor nb =
     bindE (ValidateKey (nb_Key nb)) (\<lambda>_.
       if nb_DivergeDepth nb < 0 \<or> nb_DivergeDepth nb > int MaxTreeDepth then Inl ErrInvalidProof else Inr ())"

definition Proof_IsValid :: "Proof \<Rightarrow> unit result" where
  "Proof_IsValid p =
     bindE (ValidateKey (pf_Key p)) (\<lambda>_.
     bindE
       (if pf_Type p = ProofTypeInclusion then
          (if pf_Value p = None then Inl ErrInvalidProof
           else if pf_NeighborLeaf p \<noteq> None then Inl ErrInvalidProof else Inr ())
        else if pf_Type p = ProofTypeExclusionEmpty then
          (if pf_Value p \<noteq> None \<or> pf_NeighborLeaf p \<noteq> None then Inl ErrInvalidProof else Inr ())
        else if pf_Type p = ProofTypeExclusionNeighbor then
          (case pf_NeighborLeaf p of None \<Rightarrow> Inl ErrInvalidProof
           | Some nb \<Rightarrow> if pf_Value p \<noteq> None then Inl ErrInvalidProof else validNeighbor nb)
        else Inl ErrInvalidProof)
       (\<lambda>_. validSiblings None (pf_Siblings p)))"

definition Proof_EstimateSize :: "Proof \<Rightarrow> nat" where
  "Proof_EstimateSize p =
     1 + 32 + 32 + 8
     + (case pf_Value p of Some v \<Rightarrow> 4 + length v | None \<Rightarrow> 0)
     + (case pf_NeighborLeaf p of Some nb \<Rightarrow> 32 + 32 + 4 + 4 + length (nb_Path nb) | None \<Rightarrow> 0)
     + 4 + sum_list (map (\<lambda>sib. 4 + 1 + 32 + 4 + length (sb_Children sib) * (1 + 32)) (pf_Siblings p))"

section \<open>Verification\<close>

definition idxInt :: "'a list \<Rightarrow> int \<Rightarrow> 'a result" where
  "idxInt xs i = (if i < 0 then Inl (Panic ''index out of range'') else idx xs (nat i))"

text \<open>The data of an internal node rebuilt from a sibling: the target slot is empty or holds the current hash.\<close>

definition siblingNode :: "nibble \<Rightarrow> hash option \<Rightarrow> SiblingData \<Rightarrow> bytes" where
  "siblingNode target cur sib =
     NodeTypeInternal # concat (map (\<lambda>nibble.
        if nibble = target then (case cur of None \<Rightarrow> EmptyTreeHash | Some h \<Rightarrow> nibble # h)
        else (case gm_get (sb_Children sib) nibble of Some h \<Rightarrow> nibble # h | None \<Rightarrow> EmptyTreeHash)) nibble_range)"

text \<open>The loop from the deepest sibling to the root, on the reversed list; \<open>deepest\<close> holds in the first round.\<close>

fun rebuild :: "(bytes \<Rightarrow> hash) \<Rightarrow> nibble list \<Rightarrow> bool \<Rightarrow> bool \<Rightarrow> SiblingData list \<Rightarrow> hash \<Rightarrow> hash result" where
  "rebuild H path isEmptyExclusion deepest [] currentHash = Inr currentHash"
| "rebuild H path isEmptyExclusion deepest (sibling # rest) currentHash =
     bindE (idxInt path (sb_Depth sibling)) (\<lambda>targetNibble.
       rebuild H path isEmptyExclusion False rest
         (H (siblingNode targetNibble (if isEmptyExclusion \<and> deepest then None else Some currentHash) sibling)))"

definition reconstructRoot :: "(bytes \<Rightarrow> hash) \<Rightarrow> key \<Rightarrow> hash \<Rightarrow> SiblingData list \<Rightarrow> ProofType \<Rightarrow> hash result" where
  "reconstructRoot H key startHash siblings proofType =
     bindE (ToNibblePath key) (\<lambda>path.
       rebuild H (Nibbles path) (proofType = ProofTypeExclusionEmpty) True (rev siblings) startHash)"

definition leafHash :: "(bytes \<Rightarrow> hash) \<Rightarrow> key \<Rightarrow> hash \<Rightarrow> hash" where
  "leafHash H key valueHash = H ([NodeTypeLeaf] @ key @ valueHash)"

definition verifyInclusion :: "(bytes \<Rightarrow> hash) \<Rightarrow> Proof \<Rightarrow> hash result" where
  "verifyInclusion H proof =
     (let valueHash = H (case pf_Value proof of Some v \<Rightarrow> v | None \<Rightarrow> [])
      in reconstructRoot H (pf_Key proof) (leafHash H (pf_Key proof) valueHash) (pf_Siblings proof) (pf_Type proof))"

definition verifyExclusionEmpty :: "(bytes \<Rightarrow> hash) \<Rightarrow> Proof \<Rightarrow> hash result" where
  "verifyExclusionEmpty H proof = reconstructRoot H (pf_Key proof) EmptyHash (pf_Siblings proof) (pf_Type proof)"

text \<open>The loop over the common path, from \<open>i\<close> on with \<open>n\<close> rounds left.\<close>

fun checkPath :: "nibble list \<Rightarrow> nibble list \<Rightarrow> nibble list \<Rightarrow> nat \<Rightarrow> nat \<Rightarrow> unit result" where
  "checkPath ks ns path i 0 = Inr ()"
| "checkPath ks ns path i (Suc n) =
     bindE (idx ks i) (\<lambda>k. bindE (idx ns i) (\<lambda>m. bindE (idx path i) (\<lambda>p.
       if k \<noteq> m then Inl (Errorf ''keys diverge before claimed depth'')
       else if k \<noteq> p then Inl (Errorf ''path mismatch'')
       else checkPath ks ns path (Suc i) n)))"

definition verifyExclusionNeighbor :: "(bytes \<Rightarrow> hash) \<Rightarrow> Proof \<Rightarrow> hash result" where
  "verifyExclusionNeighbor H proof =
     (case pf_NeighborLeaf proof of
        None \<Rightarrow> Inl (Panic ''nil pointer dereference'')
      | Some neighbor \<Rightarrow>
          if nb_DivergeDepth neighbor > int MaxTreeDepth then Inl ErrInvalidProof
          else bindE (ToNibblePath (pf_Key proof)) (\<lambda>kp. bindE (ToNibblePath (nb_Key neighbor)) (\<lambda>np.
            bindE (checkPath (Nibbles kp) (Nibbles np) (nb_Path neighbor) 0 (min (nat (nb_DivergeDepth neighbor)) (length (nb_Path neighbor))))
            (\<lambda>_. bindE
              (if nb_DivergeDepth neighbor < int MaxTreeDepth
               then bindE (idxInt (Nibbles kp) (nb_DivergeDepth neighbor)) (\<lambda>k. bindE (idxInt (Nibbles np) (nb_DivergeDepth neighbor)) (\<lambda>n.
                      if k = n then Inl (Errorf ''keys don't diverge at claimed depth'') else Inr ()))
               else Inr ())
              (\<lambda>_. reconstructRoot H (nb_Key neighbor) (leafHash H (nb_Key neighbor) (nb_ValueHash neighbor))
                     (pf_Siblings proof) (pf_Type proof))))))"

definition Verify :: "(bytes \<Rightarrow> hash) \<Rightarrow> Proof \<Rightarrow> unit result" where
  "Verify H proof =
     bindE (Proof_IsValid proof) (\<lambda>_.
     bindE (if pf_Type proof = ProofTypeInclusion then verifyInclusion H proof
            else if pf_Type proof = ProofTypeExclusionEmpty then verifyExclusionEmpty H proof
            else if pf_Type proof = ProofTypeExclusionNeighbor then verifyExclusionNeighbor H proof
            else Inl ErrInvalidProof)
       (\<lambda>computedRoot. if computedRoot \<noteq> pf_RootHash proof then Inl ErrHashMismatch else Inr ()))"

fun VerifyBatch :: "(bytes \<Rightarrow> hash) \<Rightarrow> Proof list \<Rightarrow> unit result" where
  "VerifyBatch H [] = Inr ()"
| "VerifyBatch H (proof # rest) =
     (case Verify H proof of Inl err \<Rightarrow> Inl (wrapE ''proof verification failed'' err) | Inr _ \<Rightarrow> VerifyBatch H rest)"

section \<open>Generation\<close>

text \<open>What the generator needs of a reader, and the tree's reader as such.\<close>

record TreeReaderInterface =
  ri_GetNode :: "NodeKey \<Rightarrow> Node option result"
  ri_LoadValue :: "hash \<Rightarrow> bytes result"
  ri_RootHash :: hash
  ri_Version :: version

definition asTreeReaderInterface :: "(bytes \<Rightarrow> hash) \<Rightarrow> TreeReader \<Rightarrow> TreeReaderInterface" where
  "asTreeReaderInterface H r =
     \<lparr>ri_GetNode = Reader_loadNode r, ri_LoadValue = loadValue H r, ri_RootHash = rd_rootHash r, ri_Version = rd_version r\<rparr>"

definition newProof :: "TreeReaderInterface \<Rightarrow> key \<Rightarrow> Proof" where
  "newProof r key = \<lparr>pf_Type = ProofTypeInclusion, pf_Key = key, pf_Value = None, pf_NeighborLeaf = None, pf_Siblings = [],
     pf_RootHash = ri_RootHash r, pf_Version = ri_Version r\<rparr>"

definition leafProof :: "TreeReaderInterface \<Rightarrow> key \<Rightarrow> nibble list \<Rightarrow> nat \<Rightarrow> LeafNode \<Rightarrow> Proof \<Rightarrow> Proof result" where
  "leafProof r key pathTaken depth n proof =
     (if l_key n = key then
        (case ri_LoadValue r (l_valueHash n) of
           Inl err \<Rightarrow> Inl (wrapE ''failed to load value'' err)
         | Inr val \<Rightarrow> Inr (proof\<lparr>pf_Type := ProofTypeInclusion, pf_Value := Some val\<rparr>))
      else Inr (proof\<lparr>pf_Type := ProofTypeExclusionNeighbor,
                  pf_NeighborLeaf := Some \<lparr>nb_Key = l_key n, nb_ValueHash = l_valueHash n, nb_Path = pathTaken, nb_DivergeDepth = int depth\<rparr>\<rparr>))"

definition siblingData :: "nat \<Rightarrow> nibble \<Rightarrow> InternalNode \<Rightarrow> SiblingData" where
  "siblingData depth nibble n =
     \<lparr>sb_Depth = int depth, sb_Nibble = nibble, sb_Hash = EmptyHash,
      sb_Children = concat (map (\<lambda>nib. case InternalNode_Child n nib of Some child \<Rightarrow> [(nib, c_Hash child)] | None \<Rightarrow> []) nibble_range)\<rparr>"

text \<open>The traversal: \<open>left\<close> rounds to go, then the check for a leaf at the maximal depth.\<close>

fun genLoop :: "TreeReaderInterface \<Rightarrow> key \<Rightarrow> nibble list \<Rightarrow> nat \<Rightarrow> nat \<Rightarrow> nibble list \<Rightarrow> NodeKey \<Rightarrow> Proof \<Rightarrow> Proof result" where
  "genLoop r key path depth 0 pathTaken nodeKey proof =
     (case ri_GetNode r nodeKey of
        Inl err \<Rightarrow> Inl (wrapE ''failed to load node at depth 64'' err)
      | Inr (Some (Leaf leaf)) \<Rightarrow> leafProof r key pathTaken MaxTreeDepth leaf proof
      | Inr _ \<Rightarrow> Inl (Errorf ''proof generation failed: unexpected tree structure''))"
| "genLoop r key path depth (Suc left) pathTaken nodeKey proof =
     (case ri_GetNode r nodeKey of
        Inl err \<Rightarrow> Inl (wrapE ''failed to load node'' err)
      | Inr None \<Rightarrow> Inl (Errorf ''unexpected nil node'')
      | Inr (Some (Leaf n)) \<Rightarrow> leafProof r key pathTaken depth n proof
      | Inr (Some (Internal n)) \<Rightarrow>
          bindE (idx path depth) (\<lambda>nibble.
            let proof1 = proof\<lparr>pf_Siblings := pf_Siblings proof @ [siblingData depth nibble n]\<rparr>
            in case InternalNode_Child n nibble of
                 None \<Rightarrow> Inr (proof1\<lparr>pf_Type := ProofTypeExclusionEmpty\<rparr>)
               | Some child \<Rightarrow>
                   genLoop r key path (depth + 1) left (pathTaken @ [nibble])
                     \<lparr>nk_Version = c_Version child, nk_NibblePath = \<lparr>Nibbles = take (depth + 1) path, Length = of_nat (depth + 1)\<rparr>\<rparr>
                     proof1))"

definition Generate :: "TreeReaderInterface \<Rightarrow> key \<Rightarrow> Proof result" where
  "Generate r key =
     bindE (ValidateKey key) (\<lambda>_.
       if ri_RootHash r = EmptyHash then Inr ((newProof r key)\<lparr>pf_Type := ProofTypeExclusionEmpty\<rparr>)
       else bindE (ToNibblePath key) (\<lambda>nibblePath.
              genLoop r key (Nibbles nibblePath) 0 MaxTreeDepth [] (RootNodeKey (ri_Version r)) (newProof r key)))"

fun GenerateBatch :: "TreeReaderInterface \<Rightarrow> key list \<Rightarrow> Proof list result" where
  "GenerateBatch r [] = Inr []"
| "GenerateBatch r (key # keys) =
     (case Generate r key of
        Inl err \<Rightarrow> Inl (wrapE ''failed to generate proof for key'' err)
      | Inr proof \<Rightarrow> bindE (GenerateBatch r keys) (\<lambda>proofs. Inr (proof # proofs)))"

end
