(* ===== verification/ProofVerify.thy ===== *)
theory ProofVerify
  imports Proofs MerkleSpec
begin

text \<open>
  What an accepted proof shows. Going from the deepest sibling to the root the verifier hashes one internal
  node per sibling; read from the root this is a descent in the trie of the contents whose root hash the proof
  carries, unless the hash function collides (\<open>descend\<close>). Inclusion proofs are sound without more; exclusion
  proofs by an empty slot are sound when the siblings have the depths \<open>0, 1, 2, \<dots>\<close>, which the verifier does
  not check, and exclusion proofs by a neighbour never are: any other key of the tree is accepted as one.
\<close>

section \<open>The data of a proof\<close>

text \<open>The sizes that the Go types fix: keys and hashes are arrays of 32 bytes, a map has each key once.\<close>

definition wf_sibling :: "SiblingData \<Rightarrow> bool" where
  "wf_sibling s \<longleftrightarrow> gm_wf (sb_Children s) \<and> wf_hash (sb_Hash s) \<and> (\<forall>h \<in> snd ` set (sb_Children s). wf_hash h)"

definition wf_neighbor :: "NeighborLeafData \<Rightarrow> bool" where
  "wf_neighbor nb \<longleftrightarrow> wf_key (nb_Key nb) \<and> wf_hash (nb_ValueHash nb)"

definition wf_proof :: "Proof \<Rightarrow> bool" where
  "wf_proof p \<longleftrightarrow> wf_key (pf_Key p) \<and> wf_hash (pf_RootHash p) \<and> (\<forall>s \<in> set (pf_Siblings p). wf_sibling s)
     \<and> (\<forall>nb. pf_NeighborLeaf p = Some nb \<longrightarrow> wf_neighbor nb)"

lemma wf_sibling_child: "wf_sibling s \<Longrightarrow> gm_get (sb_Children s) n = Some h \<Longrightarrow> length h = 32"
  by (force simp: wf_sibling_def wf_hash_def HashSize_def dest!: map_of_SomeD)

definition in_range :: "SiblingData \<Rightarrow> bool" where
  "in_range s \<longleftrightarrow> 0 \<le> sb_Depth s \<and> sb_Depth s < int MaxTreeDepth"

section \<open>The reconstruction, from the root down\<close>

definition filled :: "nibble \<Rightarrow> hash option \<Rightarrow> SiblingData \<Rightarrow> nibble \<Rightarrow> hash option" where
  "filled target cur sib = (\<lambda>n. if n = target then cur else gm_get (sb_Children sib) n)"

lemma siblingNode_eq: "siblingNode target cur sib = internal_preimage (filled target cur sib)"
  by (auto simp: siblingNode_def internal_preimage_def filled_def slot_def split: option.split
      intro!: arg_cong [where f = concat])

definition target :: "nibble list \<Rightarrow> SiblingData \<Rightarrow> nibble" where
  "target path s = path ! nat (sb_Depth s)"

fun climb :: "(bytes \<Rightarrow> hash) \<Rightarrow> nibble list \<Rightarrow> hash option \<Rightarrow> SiblingData list \<Rightarrow> hash option" where
  "climb H path start [] = start"
| "climb H path start (s # ss) = Some (H (siblingNode (target path s) (climb H path start ss) s))"

fun climb_inputs :: "(bytes \<Rightarrow> hash) \<Rightarrow> nibble list \<Rightarrow> hash option \<Rightarrow> SiblingData list \<Rightarrow> bytes set" where
  "climb_inputs H path start [] = {}"
| "climb_inputs H path start (s # ss) =
     insert (siblingNode (target path s) (climb H path start ss) s) (climb_inputs H path start ss)"

lemma bindE_assoc: "bindE (bindE x f) g = bindE x (\<lambda>a. bindE (f a) g)"
  by (cases x) auto

lemma rebuild_snoc:
  "rebuild H path e d (xs @ [s]) h =
     bindE (rebuild H path e d xs h) (\<lambda>h'. rebuild H path e (d \<and> xs = []) [s] h')"
  by (induction H path e d xs h rule: rebuild.induct) (auto simp: bindE_assoc)

lemma idxInt_ok: "length path = MaxTreeDepth \<Longrightarrow> in_range s \<Longrightarrow> idxInt path (sb_Depth s) = Inr (target path s)"
  by (auto simp: idxInt_def in_range_def target_def idx_def nat_less_iff)

lemma idxInt_bad: "length path = MaxTreeDepth \<Longrightarrow> \<not> in_range s \<Longrightarrow> idxInt path (sb_Depth s) = Inl (Panic ''index out of range'')"
  by (auto simp: idxInt_def in_range_def idx_def nat_less_iff)

lemma rebuild_in_range:
  "length path = MaxTreeDepth \<Longrightarrow> rebuild H path e d ss h = Inr x \<Longrightarrow> \<forall>s \<in> set ss. in_range s"
proof (induction H path e d ss h rule: rebuild.induct)
  case (2 H path e d s ss h)
  then show ?case by (cases "in_range s") (auto simp: idxInt_ok idxInt_bad)
qed simp

lemma rebuild_climb:
  assumes "length path = MaxTreeDepth" and "\<forall>s \<in> set ss. in_range s"
  shows "rebuild H path e True (rev ss) h =
    Inr (case climb H path (if e then None else Some h) ss of None \<Rightarrow> h | Some x \<Rightarrow> x)"
  using assms(2)
proof (induction ss)
  case (Cons s ss)
  have "climb H path (Some h) ss \<noteq> None" by (cases ss) auto
  moreover have "climb H path None ss = None \<longleftrightarrow> ss = []" by (cases ss) auto
  ultimately show ?case using Cons by (auto simp: rebuild_snoc idxInt_ok assms(1) split: option.split)
qed simp

section \<open>Descending in the contents\<close>

text \<open>
  A reconstruction that ends in the hash of the contents below \<open>p\<close> follows the contents down, along the
  nibbles the siblings stand for.
\<close>

lemma descend:
  assumes H: "\<And>x. wf_hash (H x)" and "wf_nibbles path" and "wf_nibbles p" and "length p + r = MaxTreeDepth"
    and "\<forall>s \<in> set ss. in_range s \<and> wf_sibling s" and "length path = MaxTreeDepth" and "\<forall>h. start = Some h \<longrightarrow> wf_hash h"
    and "climb H path start ss = merkle H c p r" and "ss = [] \<or> merkle H c p r \<noteq> None"
    and "\<not> collides H (merkle_inputs H c p r \<union> climb_inputs H path start ss)"
  shows "length ss \<le> r \<and> merkle H c (p @ map (target path) ss) (r - length ss) = start"
  using assms(3-)
proof (induction ss arbitrary: p r)
  case (Cons s ss)
  let ?t = "target path s" and ?rest = "climb H path start ss"
  let ?f = "filled ?t ?rest s"
  have f: "merkle H c p r = Some (H (internal_preimage ?f))" using Cons.prems(6) by (simp add: siblingNode_eq)
  have in_f: "internal_preimage ?f \<in> climb_inputs H path start (s # ss)" by (simp add: siblingNode_eq)
  have no_coll: "x = y" if "x \<in> merkle_inputs H c p r" "y \<in> climb_inputs H path start (s # ss)" "H x = H y" for x y
    using Cons.prems(8) that unfolding collides_def by blast
  show ?case
  proof (cases r)
    case 0
    with f obtain vh where "c (pack p) = Some vh" "H (leaf_preimage (pack p) vh) = H (internal_preimage ?f)" by auto
    with no_coll [of "leaf_preimage (pack p) vh", OF _ in_f] 0 show ?thesis by simp
  next
    case (Suc r')
    let ?g = "\<lambda>n. merkle H c (p @ [n]) r'"
    have g: "H (internal_preimage ?f) = H (internal_preimage ?g)" using f unfolding Suc by (rule merkle_SomeD)
    have in_g: "internal_preimage ?g \<in> merkle_inputs H c p r" using f Suc by (auto split: if_splits)
    have eq: "internal_preimage ?g = internal_preimage ?f" using no_coll [OF in_g in_f] g by simp
    have tgt: "?t \<le> MaxNibbleValue" using Cons.prems(3,4) assms(2) by (auto simp: target_def in_range_def wf_nibbles_def nat_less_iff)
    have "length h = 32" if "?rest = Some h" for h
      using that Cons.prems(5) H by (cases ss) (auto simp: wf_hash_def HashSize_def)
    then have len: "length h = 32" if "?f n = Some h" for n h
      using that Cons.prems(3) wf_sibling_child [of s n h] by (auto simp: filled_def split: if_splits)
    have "?g ?t = ?f ?t" using tgt merkle_length [OF H] len by (intro internal_preimage_inject [OF eq]) auto
    then have rest: "?rest = merkle H c (p @ [?t]) r'" by (simp add: filled_def)
    have wf: "wf_nibbles (p @ [?t])" using Cons.prems(1,2) tgt Suc by (intro wf_nibbles_snoc) auto
    have sub: "merkle_inputs H c (p @ [?t]) r' \<subseteq> merkle_inputs H c p r"
      using merkle_inputs_below [of p "[?t]" r r'] wf Suc by simp
    have "\<not> collides H (merkle_inputs H c (p @ [?t]) r' \<union> climb_inputs H path start ss)"
      using Cons.prems(8) collides_mono [OF _ Un_mono [OF sub subset_insertI]] by (metis climb_inputs.simps(2))
    moreover have "ss = [] \<or> merkle H c (p @ [?t]) r' \<noteq> None" using rest by (cases ss) (auto dest: sym)
    ultimately have "length ss \<le> r' \<and> merkle H c ((p @ [?t]) @ map (target path) ss) (r' - length ss) = start"
      using Cons.prems Suc wf rest by (intro Cons.IH) auto
    then show ?thesis by (simp add: Suc)
  qed
qed simp

section \<open>Accepted proofs\<close>

text \<open>Where the reconstruction starts, and what the verifier hashes.\<close>

definition start_of :: "(bytes \<Rightarrow> hash) \<Rightarrow> Proof \<Rightarrow> hash option" where
  "start_of H p =
     (if pf_Type p = ProofTypeInclusion then Some (leafHash H (pf_Key p) (H (the (pf_Value p))))
      else if pf_Type p = ProofTypeExclusionNeighbor
        then Some (leafHash H (nb_Key (the (pf_NeighborLeaf p))) (nb_ValueHash (the (pf_NeighborLeaf p))))
      else None)"

definition path_of :: "Proof \<Rightarrow> nibble list" where
  "path_of p = nibbles_of (if pf_Type p = ProofTypeExclusionNeighbor then nb_Key (the (pf_NeighborLeaf p)) else pf_Key p)"

definition proof_inputs :: "(bytes \<Rightarrow> hash) \<Rightarrow> Proof \<Rightarrow> bytes set" where
  "proof_inputs H p = climb_inputs H (path_of p) (start_of H p) (pf_Siblings p)
     \<union> (if pf_Type p = ProofTypeInclusion
        then {the (pf_Value p), leaf_preimage (pf_Key p) (H (the (pf_Value p)))} else {})"

lemma leafHash_eq: "leafHash H k vh = H (leaf_preimage k vh)"
  by (simp add: leafHash_def leaf_preimage_def)

lemma reconstructRoot_iff:
  assumes "wf_key k"
  shows "reconstructRoot H k h ss ty = Inr x \<longleftrightarrow> (\<forall>s \<in> set ss. in_range s)
    \<and> (case climb H (nibbles_of k) (if ty = ProofTypeExclusionEmpty then None else Some h) ss of None \<Rightarrow> h | Some y \<Rightarrow> y) = x"
proof (cases "\<forall>s \<in> set ss. in_range s")
  case True
  with assms show ?thesis by (simp add: reconstructRoot_def rebuild_climb)
next
  case False
  moreover have "\<not> reconstructRoot H k h ss ty = Inr x"
    using False assms rebuild_in_range [of "nibbles_of k" H _ _ "rev ss"] by (auto simp: reconstructRoot_def)
  ultimately show ?thesis by blast
qed

lemma climb_Some: "(case climb H path (Some h) ss of None \<Rightarrow> y | Some x \<Rightarrow> x) = y' \<longleftrightarrow> climb H path (Some h) ss = Some y'"
  by (cases ss) auto

lemma Verify_inclusion:
  assumes "wf_key (pf_Key p)" and "pf_Type p = ProofTypeInclusion"
  shows "Verify H p = Inr () \<longleftrightarrow> Proof_IsValid p = Inr () \<and> (\<forall>s \<in> set (pf_Siblings p). in_range s)
    \<and> climb H (nibbles_of (pf_Key p)) (start_of H p) (pf_Siblings p) = Some (pf_RootHash p)"
proof -
  have "pf_Value p \<noteq> None" if "Proof_IsValid p = Inr ()"
    using that assms(2) by (auto simp: Proof_IsValid_def bindE_eq_Inr split: if_splits)
  then show ?thesis
    using assms reconstructRoot_iff [OF assms(1)]
    by (auto simp: Verify_def bindE_eq_Inr verifyInclusion_def start_of_def proofType_defs climb_Some split: if_splits)
qed

lemma Verify_empty:
  assumes "wf_key (pf_Key p)" and "pf_Type p = ProofTypeExclusionEmpty"
  shows "Verify H p = Inr () \<longleftrightarrow> Proof_IsValid p = Inr () \<and> (\<forall>s \<in> set (pf_Siblings p). in_range s)
    \<and> (case climb H (nibbles_of (pf_Key p)) None (pf_Siblings p) of None \<Rightarrow> EmptyHash | Some h \<Rightarrow> h) = pf_RootHash p"
  using assms reconstructRoot_iff [OF assms(1)]
  by (auto simp: Verify_def bindE_eq_Inr verifyExclusionEmpty_def proofType_defs split: if_splits)

text \<open>No two of these inputs collide and none hashes to the empty hash.\<close>

definition hash_good :: "(bytes \<Rightarrow> hash) \<Rightarrow> bytes set \<Rightarrow> bool" where
  "hash_good H S \<longleftrightarrow> \<not> collides H S \<and> (\<forall>x \<in> S. H x \<noteq> EmptyHash)"

lemma hash_good_mono: "hash_good H S' \<Longrightarrow> S \<subseteq> S' \<Longrightarrow> hash_good H S"
  unfolding hash_good_def using collides_mono by blast

lemma hash_good_eq: "hash_good H S \<Longrightarrow> x \<in> S \<Longrightarrow> y \<in> S \<Longrightarrow> H x = H y \<Longrightarrow> x = y"
  unfolding hash_good_def collides_def by blast

lemma climb_input: "climb H path start ss = Some h \<Longrightarrow> ss \<noteq> [] \<Longrightarrow> \<exists>x \<in> climb_inputs H path start ss. H x = h"
  by (cases ss) auto

lemma root_merkle:
  assumes "merkle_root H c = h" and "h \<noteq> EmptyHash"
  shows "merkle H c [] MaxTreeDepth = Some h"
  using assms by (auto simp: merkle_root_def split: option.splits)

lemma wf_targets:
  assumes "\<forall>s \<in> set ss. in_range s" and "length ss \<le> MaxTreeDepth"
  shows "wf_nibbles (map (target (nibbles_of k)) ss)"
  using assms by (auto simp: wf_nibbles_def target_def in_range_def nat_less_iff)

lemma merkle_inputs_leaf:
  assumes "wf_nibbles q" and "length q + r = MaxTreeDepth" and "wf_key k" and "leaf_preimage k vh \<in> merkle_inputs H c q r"
  shows "c k = Some vh"
  using assms
proof (induction r arbitrary: q)
  case 0
  then show ?case by (auto simp: leaf_preimage_inject wf_key_pack split: option.splits)
next
  case (Suc r)
  then obtain n where "n \<le> MaxNibbleValue" "leaf_preimage k vh \<in> merkle_inputs H c (q @ [n]) r"
    by (auto simp: nibble_range_iff split: if_splits)
  with Suc show ?case by (intro Suc.IH [of "q @ [n]"]) (auto intro: wf_nibbles_snoc)
qed

lemma merkle_leaf:
  assumes "wf_nibbles q" and "length q + r = MaxTreeDepth" and m: "merkle H c q r = Some (H (leaf_preimage k vh))" and "wf_key k"
    and good: "hash_good H (insert (leaf_preimage k vh) (merkle_inputs H c [] MaxTreeDepth))"
  shows "c k = Some vh"
proof -
  have sub: "merkle_inputs H c q r \<subseteq> merkle_inputs H c [] MaxTreeDepth"
    using merkle_inputs_below [of "[]" q MaxTreeDepth r H c] assms(1,2) by simp
  obtain x where x: "x \<in> merkle_inputs H c q r" "H x = H (leaf_preimage k vh)" using merkle_input [OF m] by blast
  then have "x = leaf_preimage k vh" using hash_good_eq [OF good, of x "leaf_preimage k vh"] sub by blast
  then show ?thesis using x(1) assms(1,2,4) by (intro merkle_inputs_leaf [of q r k vh H c]) simp_all
qed

text \<open>An accepted inclusion proof shows the value of the key, for whatever depths its siblings claim.\<close>

lemma inclusion_contents:
  assumes H: "\<And>x. wf_hash (H x)" and p: "wf_proof p" "Verify H p = Inr ()" "pf_Type p = ProofTypeInclusion"
    and root: "pf_RootHash p = merkle_root H c"
    and good: "hash_good H (merkle_inputs H c [] MaxTreeDepth \<union> proof_inputs H p)"
  shows "\<exists>val. pf_Value p = Some val \<and> c (pf_Key p) = Some (H val)"
proof -
  let ?k = "pf_Key p" and ?ss = "pf_Siblings p" and ?start = "start_of H p"
  have k: "wf_key ?k" using p(1) by (simp add: wf_proof_def)
  note v = Verify_inclusion [OF k p(3), of H] and path = path_of_def [of p]
  have V: "Proof_IsValid p = Inr ()" "\<forall>s \<in> set ?ss. in_range s" "climb H (nibbles_of ?k) ?start ?ss = Some (pf_RootHash p)"
    using v p(2) by blast+
  obtain val where val: "pf_Value p = Some val"
    using V(1) p(3) by (auto simp: Proof_IsValid_def bindE_eq_Inr split: if_splits)
  let ?leaf = "leaf_preimage ?k (H val)"
  have start: "?start = Some (H ?leaf)" using p(3) val by (simp add: start_of_def leafHash_eq)
  have inputs: "proof_inputs H p = climb_inputs H (nibbles_of ?k) ?start ?ss \<union> {val, ?leaf}"
    using p(3) val by (simp add: proof_inputs_def path_of_def proofType_defs)
  have "pf_RootHash p \<noteq> EmptyHash"
    using climb_input [OF V(3)] V(3) good start unfolding inputs hash_good_def by (cases ?ss) auto
  then have m: "climb H (nibbles_of ?k) ?start ?ss = merkle H c [] MaxTreeDepth"
    using root_merkle [OF root [symmetric]] V(3) by simp
  have "length ?ss \<le> MaxTreeDepth \<and> merkle H c ([] @ map (target (nibbles_of ?k)) ?ss) (MaxTreeDepth - length ?ss) = ?start"
  proof (rule descend [OF H])
    show "\<not> collides H (merkle_inputs H c [] MaxTreeDepth \<union> climb_inputs H (nibbles_of ?k) ?start ?ss)"
      using hash_good_mono [OF good] unfolding inputs hash_good_def by blast
    show "\<forall>s \<in> set ?ss. in_range s \<and> wf_sibling s" using V(2) p(1) by (simp add: wf_proof_def)
    show "?ss = [] \<or> merkle H c [] MaxTreeDepth \<noteq> None" using V(3) unfolding m by simp
  qed (use m start H in simp_all)
  then have "merkle H c (map (target (nibbles_of ?k)) ?ss) (MaxTreeDepth - length ?ss) = Some (H ?leaf)"
    and "length ?ss \<le> MaxTreeDepth" using start by simp_all
  then have "c ?k = Some (H val)"
    using k V(2) good by (intro merkle_leaf [of "map (target (nibbles_of ?k)) ?ss" _ H c]) (auto simp: inputs intro: wf_targets hash_good_mono)
  with val show ?thesis by simp
qed

text \<open>
  An accepted proof by an empty slot shows that the key is absent, if its siblings are the nodes from the root
  on, one per depth.
\<close>

definition contiguous :: "SiblingData list \<Rightarrow> bool" where
  "contiguous ss \<longleftrightarrow> map sb_Depth ss = map int [0..<length ss]"

lemma contiguous_targets:
  assumes "contiguous ss" and "length ss \<le> length path"
  shows "map (target path) ss = take (length ss) path"
proof (rule nth_equalityI)
  fix i
  assume "i < length (map (target path) ss)"
  then have i: "i < length ss" by simp
  then have "map sb_Depth ss ! i = map int [0..<length ss] ! i" using assms(1) by (simp add: contiguous_def)
  with i show "map (target path) ss ! i = take (length ss) path ! i" by (simp add: target_def)
qed (use assms(2) in simp)

lemma exclusion_contents:
  assumes H: "\<And>x. wf_hash (H x)" and p: "wf_proof p" "Verify H p = Inr ()" "pf_Type p = ProofTypeExclusionEmpty"
    and cont: "contiguous (pf_Siblings p)" and root: "pf_RootHash p = merkle_root H c"
    and good: "hash_good H (merkle_inputs H c [] MaxTreeDepth \<union> proof_inputs H p)"
  shows "c (pf_Key p) = None"
proof -
  let ?k = "pf_Key p" and ?ss = "pf_Siblings p"
  have k: "wf_key ?k" using p(1) by (simp add: wf_proof_def)
  have V: "\<forall>s \<in> set ?ss. in_range s" "(case climb H (nibbles_of ?k) None ?ss of None \<Rightarrow> EmptyHash | Some h \<Rightarrow> h) = pf_RootHash p"
    using Verify_empty [OF k p(3), of H] p(2) by blast+
  have inputs: "proof_inputs H p = climb_inputs H (nibbles_of ?k) None ?ss"
    using p(3) by (simp add: proof_inputs_def path_of_def start_of_def proofType_defs)
  have m: "climb H (nibbles_of ?k) None ?ss = merkle H c [] MaxTreeDepth"
  proof (cases "climb H (nibbles_of ?k) None ?ss")
    case None
    then have "merkle_root H c = EmptyHash" using V(2) root by simp
    then have "merkle H c [] MaxTreeDepth = None"
      using merkle_input [of H c "[]" MaxTreeDepth] good by (auto simp: merkle_root_def hash_good_def split: option.splits)
    with None show ?thesis by simp
  next
    case (Some h)
    then have "?ss \<noteq> []" by auto
    then have "h \<noteq> EmptyHash" using climb_input [OF Some] good unfolding inputs hash_good_def by blast
    with Some V(2) root root_merkle [of H c h] show ?thesis by simp
  qed
  have d: "length ?ss \<le> MaxTreeDepth \<and> merkle H c ([] @ map (target (nibbles_of ?k)) ?ss) (MaxTreeDepth - length ?ss) = None"
  proof (rule descend [OF H])
    show "\<not> collides H (merkle_inputs H c [] MaxTreeDepth \<union> climb_inputs H (nibbles_of ?k) None ?ss)"
      using good unfolding inputs hash_good_def by blast
    show "\<forall>s \<in> set ?ss. in_range s \<and> wf_sibling s" using V(1) p(1) by (simp add: wf_proof_def)
    show "?ss = [] \<or> merkle H c [] MaxTreeDepth \<noteq> None" unfolding m [symmetric] by (cases ?ss) auto
  qed (use m in simp_all)
  then have t: "map (target (nibbles_of ?k)) ?ss = take (length ?ss) (nibbles_of ?k)" using cont by (simp add: contiguous_targets)
  with d have "merkle H c (take (length ?ss) (nibbles_of ?k)) (MaxTreeDepth - length ?ss) = None" by simp
  then show ?thesis
    using merkle_None_iff [of "take (length ?ss) (nibbles_of ?k)" "MaxTreeDepth - length ?ss" H c] d k by auto
qed

section \<open>Forged exclusion proofs\<close>

text \<open>
  The siblings of an accepted inclusion proof of any other key are accepted as an exclusion proof of a key, whether
  or not the key is in the tree: the verifier only compares the two keys.
\<close>

definition forgeNeighbor :: "(bytes \<Rightarrow> hash) \<Rightarrow> key \<Rightarrow> nat \<Rightarrow> Proof \<Rightarrow> Proof" where
  "forgeNeighbor H k d p = p\<lparr>pf_Type := ProofTypeExclusionNeighbor, pf_Key := k, pf_Value := None,
     pf_NeighborLeaf := Some \<lparr>nb_Key = pf_Key p, nb_ValueHash = H (the (pf_Value p)), nb_Path = take d (nibbles_of k), nb_DivergeDepth = int d\<rparr>\<rparr>"

lemma checkPath_ok:
  "i + n \<le> length path \<Longrightarrow> length path \<le> length ks \<Longrightarrow> length path \<le> length ns \<Longrightarrow>
   (\<forall>j < i + n. ks ! j = ns ! j \<and> path ! j = ks ! j) \<Longrightarrow> checkPath ks ns path i n = Inr ()"
  by (induction n arbitrary: i) (auto simp: idx_def)

lemma ValidateKey_ok: "wf_key k \<Longrightarrow> k \<noteq> emptyKey \<Longrightarrow> ValidateKey k = Inr ()"
  by (simp add: ValidateKey_def Key_IsEmpty_def emptyKey_def)

lemma first_difference:
  assumes "wf_key k" and "wf_key k'" and "k \<noteq> k'"
  shows "\<exists>d < MaxTreeDepth. nibble_at k d \<noteq> nibble_at k' d \<and> take d (nibbles_of k) = take d (nibbles_of k')"
proof -
  have "nibbles_of k \<noteq> nibbles_of k'" using assms by (metis pack_nibbles_of)
  then obtain pre x xs y ys where d: "x \<noteq> y" "nibbles_of k = pre @ [x] @ xs" "nibbles_of k' = pre @ [y] @ ys"
    using same_length_different [of "nibbles_of k" "nibbles_of k'"] by auto
  have len: "length pre < MaxTreeDepth" using arg_cong [OF d(2), of length] by simp
  then have "nibble_at k (length pre) = x" "nibble_at k' (length pre) = y"
    using arg_cong [OF d(2), of "\<lambda>l. l ! length pre"] arg_cong [OF d(3), of "\<lambda>l. l ! length pre"] by simp_all
  with d len show ?thesis by (intro exI [where x = "length pre"]) simp
qed

lemma forgeNeighbor_accepted:
  assumes p: "wf_proof p" "Verify H p = Inr ()" "pf_Type p = ProofTypeInclusion"
    and k: "wf_key k" "k \<noteq> emptyKey" and d: "d < MaxTreeDepth" "nibble_at k d \<noteq> nibble_at (pf_Key p) d"
    and common: "take d (nibbles_of k) = take d (nibbles_of (pf_Key p))"
  shows "Verify H (forgeNeighbor H k d p) = Inr ()"
proof -
  let ?f = "forgeNeighbor H k d p"
  have wk: "wf_key (pf_Key p)" using p(1) by (simp add: wf_proof_def)
  note V = Verify_inclusion [OF wk p(3), of H, THEN iffD1, OF p(2)]
  have valid: "ValidateKey (pf_Key p) = Inr ()" "validSiblings None (pf_Siblings p) = Inr ()"
    using V by (auto simp: Proof_IsValid_def bindE_eq_Inr)
  moreover have "ValidateKey k = Inr ()" using k by (rule ValidateKey_ok)
  ultimately have iv: "Proof_IsValid ?f = Inr ()"
    using d(1) by (simp add: Proof_IsValid_def forgeNeighbor_def validNeighbor_def proofType_defs)
  have "checkPath (nibbles_of k) (nibbles_of (pf_Key p)) (take d (nibbles_of k)) 0 d = Inr ()"
  proof (rule checkPath_ok)
    show "\<forall>j < 0 + d. nibbles_of k ! j = nibbles_of (pf_Key p) ! j \<and> take d (nibbles_of k) ! j = nibbles_of k ! j"
      using common by (metis add_0 nth_take)
  qed (use d(1) in simp_all)
  moreover have "reconstructRoot H (pf_Key p) (leafHash H (pf_Key p) (H (the (pf_Value p)))) (pf_Siblings p) ProofTypeExclusionNeighbor
      = Inr (pf_RootHash p)"
    using V p(3) by (simp add: reconstructRoot_iff [OF wk] start_of_def proofType_defs)
  ultimately have "verifyExclusionNeighbor H ?f = Inr (pf_RootHash p)"
    using d k wk by (simp add: verifyExclusionNeighbor_def forgeNeighbor_def idxInt_def idx_def)
  with iv show ?thesis by (simp add: Verify_def) (simp add: forgeNeighbor_def proofType_defs)
qed

lemma gm_get_optional:
  "gm_get (concat (map (\<lambda>x. case f x of Some c \<Rightarrow> [(x, g c)] | None \<Rightarrow> []) xs)) n = (if n \<in> set xs then map_option g (f n) else None)"
  by (induction xs) (auto split: option.splits)

lemma set_optional:
  "set (concat (map (\<lambda>x. case f x of Some c \<Rightarrow> [(x, g c)] | None \<Rightarrow> []) xs)) = {(x, g c) | x c. x \<in> set xs \<and> f x = Some c}"
  by (auto split: option.splits intro: sym)

lemma gm_wf_optional:
  "distinct xs \<Longrightarrow> gm_wf (concat (map (\<lambda>x. case f x of Some c \<Rightarrow> [(x, g c)] | None \<Rightarrow> []) xs))"
  by (induction xs) (auto split: option.splits)

lemma distinct_nibble_range: "distinct nibble_range"
  by (simp add: nibble_range_def)

text \<open>
  A proof by an empty slot may skip levels: the root node alone, claimed to stand at a depth where the nibble of
  the key is one that the root has no child for, is accepted.
\<close>

definition rootChildren :: "(bytes \<Rightarrow> hash) \<Rightarrow> contents \<Rightarrow> (nibble, hash) gomap" where
  "rootChildren H c = concat (map (\<lambda>n. case merkle H c [n] 63 of Some h \<Rightarrow> [(n, h)] | None \<Rightarrow> []) nibble_range)"

definition forgeEmpty :: "(bytes \<Rightarrow> hash) \<Rightarrow> contents \<Rightarrow> version \<Rightarrow> key \<Rightarrow> nat \<Rightarrow> Proof" where
  "forgeEmpty H c v k d =
     \<lparr>pf_Type = ProofTypeExclusionEmpty, pf_Key = k, pf_Value = None, pf_NeighborLeaf = None,
      pf_Siblings = [\<lparr>sb_Depth = int d, sb_Nibble = nibble_at k d, sb_Hash = EmptyHash, sb_Children = rootChildren H c\<rparr>],
      pf_RootHash = merkle_root H c, pf_Version = v\<rparr>"

lemma gm_get_rootChildren: "n \<le> MaxNibbleValue \<Longrightarrow> gm_get (rootChildren H c) n = merkle H c [n] 63"
  using gm_get_optional [where f = "\<lambda>n. merkle H c [n] 63" and g = "\<lambda>x. x"] by (simp add: rootChildren_def nibble_range_iff option.map_ident)

lemma wf_forgeEmpty:
  assumes "\<And>x. wf_hash (H x)" and "wf_key k"
  shows "wf_proof (forgeEmpty H c v k d)"
proof -
  have "gm_wf (rootChildren H c)"
    using gm_wf_optional [OF distinct_nibble_range, where f = "\<lambda>n. merkle H c [n] 63" and g = "\<lambda>x. x"] by (simp only: rootChildren_def)
  moreover have "\<forall>h \<in> snd ` set (rootChildren H c). wf_hash h"
    using set_optional [where f = "\<lambda>n. merkle H c [n] 63" and g = "\<lambda>x. x" and xs = nibble_range] merkle_length [of H c] assms(1)
    by (auto simp: rootChildren_def wf_hash_def HashSize_def)
  ultimately show ?thesis using assms wf_merkle_root [of H c] by (simp add: wf_proof_def forgeEmpty_def wf_sibling_def)
qed

lemma forgeEmpty_accepted:
  assumes k: "wf_key k" "k \<noteq> emptyKey" and d: "d < MaxTreeDepth" and slot: "merkle H c [nibble_at k d] 63 = None"
    and root: "merkle H c [] MaxTreeDepth \<noteq> None"
  shows "Verify H (forgeEmpty H c v k d) = Inr ()"
proof -
  let ?p = "forgeEmpty H c v k d"
  have k': "wf_key (pf_Key ?p)" and ty: "pf_Type ?p = ProofTypeExclusionEmpty" using k by (simp_all add: forgeEmpty_def)
  have depth: "MaxTreeDepth = Suc 63" by (simp add: MaxTreeDepth_def)
  obtain h where h: "merkle H c [] (Suc 63) = Some h" using root unfolding depth by blast
  then have "h = H (internal_preimage (\<lambda>n. merkle H c ([] @ [n]) 63))" by (rule merkle_SomeD)
  then have r: "merkle_root H c = H (internal_preimage (\<lambda>n. merkle H c [n] 63))"
    using h unfolding merkle_root_def depth by simp
  have "internal_preimage (filled (nibble_at k d) None (hd (pf_Siblings ?p))) = internal_preimage (\<lambda>n. merkle H c [n] 63)"
    using slot gm_get_rootChildren by (intro internal_preimage_cong) (auto simp: filled_def forgeEmpty_def)
  then show ?thesis
    using k d ValidateKey_ok [OF k]
    unfolding Verify_empty [OF k' ty]
    by (auto simp: forgeEmpty_def Proof_IsValid_def in_range_def target_def siblingNode_eq r proofType_defs linorder_not_less)
qed

text \<open>A sibling at depth 64 passes the validation, and the verifier indexes the path out of range.\<close>

lemma depth_64_panics:
  assumes "wf_key (pf_Key p)" and "Proof_IsValid p = Inr ()" and "pf_Type p = ProofTypeInclusion \<or> pf_Type p = ProofTypeExclusionEmpty"
    and "pf_Siblings p \<noteq> []" and "sb_Depth (last (pf_Siblings p)) = int MaxTreeDepth"
  shows "Verify H p = Inl (Panic ''index out of range'')"
proof -
  obtain ss s where ss: "pf_Siblings p = ss @ [s]" "sb_Depth s = int MaxTreeDepth"
    using assms(4,5) by (metis append_butlast_last_id)
  then have "\<not> in_range s" by (simp add: in_range_def)
  then have "reconstructRoot H (pf_Key p) h (pf_Siblings p) ty = Inl (Panic ''index out of range'')" for h ty
    using assms(1) by (simp add: reconstructRoot_def ss(1) idxInt_bad)
  with assms(2,3) show ?thesis by (auto simp: Verify_def verifyInclusion_def verifyExclusionEmpty_def proofType_defs)
qed

end
