(* ===== verification/ProofGenerate.thy ===== *)
theory ProofGenerate
  imports ProofVerify TreeRefine
begin

text \<open>
  Generated proofs are accepted. The interface that the generator needs of a reader is the locale
  \<open>tree_reader\<close>; the reader of the tree provides it for every committed version. Under it \<open>Generate\<close> always
  succeeds, and its proof is accepted by \<open>Verify\<close>: an inclusion proof with the value of a key that is present,
  an exclusion proof by an empty slot otherwise. (Leaves are stored at depth 64 only, so the exclusion proofs
  by a neighbour that the code provides for are never generated.)
\<close>

section \<open>Sibling data\<close>

lemma siblingData_simps [simp]: "sb_Depth (siblingData d n i) = int d" "sb_Nibble (siblingData d n i) = n"
  "sb_Hash (siblingData d n i) = EmptyHash"
  by (simp_all add: siblingData_def)

lemma siblingData_children:
  assumes "n \<le> MaxNibbleValue"
  shows "gm_get (sb_Children (siblingData d m i)) n = child_hash i n"
  using assms by (simp add: siblingData_def gm_get_optional nibble_range_iff child_hash_def InternalNode_Child_def)

lemma wf_siblingData:
  assumes "wf_node (Internal i)"
  shows "wf_sibling (siblingData d n i)"
proof -
  have "wf_hash (c_Hash c)" if "gm_get (i_children i) m = Some c" for m c
    using assms that by (force dest!: map_of_SomeD)
  then show ?thesis
    unfolding wf_sibling_def siblingData_def SiblingData.simps InternalNode_Child_def set_optional
    by (auto intro!: gm_wf_optional simp: distinct_nibble_range)
qed

section \<open>The traversal\<close>

lemma merkle_inputs_has_leaf: "wf_key k \<Longrightarrow> c k = Some h \<Longrightarrow> leaf_preimage k h \<in> merkle_inputs H c [] MaxTreeDepth"
  using merkle_inputs_below [of "[]" "nibbles_of k" MaxTreeDepth 0 H c] by (simp add: pack_nibbles_of)

definition node_of :: "TreeReaderInterface \<Rightarrow> NodeKey \<Rightarrow> Node result" where
  "node_of i k = (case ri_GetNode i k of Inl e \<Rightarrow> Inl e | Inr None \<Rightarrow> Inl (Errorf ''nil'') | Inr (Some n) \<Rightarrow> Inr n)"

lemma node_of_Inr: "node_of i k = Inr n \<longleftrightarrow> ri_GetNode i k = Inr (Some n)"
  by (auto simp: node_of_def split: sum.split option.split)

text \<open>What the traversal adds to the proof it was given.\<close>

definition finished :: "contents \<Rightarrow> key \<Rightarrow> bytes \<Rightarrow> SiblingData list \<Rightarrow> Proof \<Rightarrow> Proof" where
  "finished c k b ss p =
     (case c k of
        None \<Rightarrow> p\<lparr>pf_Siblings := pf_Siblings p @ ss, pf_Type := ProofTypeExclusionEmpty\<rparr>
      | Some _ \<Rightarrow> p\<lparr>pf_Siblings := pf_Siblings p @ ss, pf_Type := ProofTypeInclusion, pf_Value := Some b\<rparr>)"

definition bottom :: "(bytes \<Rightarrow> hash) \<Rightarrow> contents \<Rightarrow> key \<Rightarrow> hash option" where
  "bottom H c k = map_option (\<lambda>h. H (leaf_preimage k h)) (c k)"

lemma genLoop_correct:
  assumes "rep (node_of i) H c v (take d (nibbles_of k)) r" and "d + r = MaxTreeDepth" and k: "wf_key k"
    and b: "\<And>h. c k = Some h \<Longrightarrow> ri_LoadValue i h = Inr b"
  shows "\<exists>ss. genLoop i k (nibbles_of k) d r pt (nkey v (take d (nibbles_of k))) p = Inr (finished c k b ss p)
    \<and> map sb_Depth ss = map int [d..<d + length ss] \<and> d + length ss \<le> MaxTreeDepth
    \<and> (\<forall>s \<in> set ss. wf_sibling s \<and> sb_Nibble s \<le> MaxNibbleValue)
    \<and> climb H (nibbles_of k) (bottom H c k) ss = merkle H c (take d (nibbles_of k)) r
    \<and> climb_inputs H (nibbles_of k) (bottom H c k) ss \<subseteq> merkle_inputs H c (take d (nibbles_of k)) r"
  using assms(1,2)
proof (induction r arbitrary: d v pt p)
  case 0
  then have take: "take d (nibbles_of k) = nibbles_of k" by simp
  obtain l where l: "node_of i (nkey v (nibbles_of k)) = Inr (Leaf l)" "l_key l = k" "c k = Some (l_valueHash l)"
    using 0(1) k unfolding take by (auto simp: pack_nibbles_of)
  then show ?case
    using b 0(2) k unfolding take
    by (intro exI [where x = "[]"]) (simp add: node_of_Inr leafProof_def finished_def bottom_def pack_nibbles_of)
next
  case (Suc r)
  let ?p = "take d (nibbles_of k)" and ?n = "nibble_at k d"
  have d: "d < MaxTreeDepth" using Suc.prems(2) by simp
  obtain j where j: "node_of i (nkey v ?p) = Inr (Internal j)" "wf_node (Internal j)" "i_children j \<noteq> []"
    and ch: "\<And>n. n \<le> MaxNibbleValue \<Longrightarrow> child_ok (node_of i) H c v ?p r j n"
    using Suc.prems(1) unfolding rep_Suc by blast
  have wf: "wf_nibbles (?p @ [?n])" and step: "?p @ [?n] = take (Suc d) (nibbles_of k)" using d by (simp_all add: path_step)
  have hash: "merkle H c (?p @ [n]) r = child_hash j n" if "n \<le> MaxNibbleValue" for n
    using ch [OF that] by (simp add: child_ok_def child_hash_def split: option.splits)
  have node: "merkle H c ?p (Suc r) = Some (H (internal_preimage (child_hash j)))"
    using merkle_internal [OF j(2,3), of H c ?p r] hash by (simp add: preimage_def)
  let ?s = "siblingData d ?n j"
  have fill: "siblingNode ?n (child_hash j ?n) ?s = internal_preimage (child_hash j)"
    unfolding siblingNode_eq by (intro internal_preimage_cong) (simp add: filled_def siblingData_children)
  have tgt: "target (nibbles_of k) ?s = ?n" using d by (simp add: target_def)
  let ?goal = "\<lambda>ss. genLoop i k (nibbles_of k) d (Suc r) pt (nkey v ?p) p = Inr (finished c k b ss p)
    \<and> map sb_Depth ss = map int [d..<d + length ss] \<and> d + length ss \<le> MaxTreeDepth
    \<and> (\<forall>s \<in> set ss. wf_sibling s \<and> sb_Nibble s \<le> MaxNibbleValue)
    \<and> climb H (nibbles_of k) (bottom H c k) ss = merkle H c ?p (Suc r)
    \<and> climb_inputs H (nibbles_of k) (bottom H c k) ss \<subseteq> merkle_inputs H c ?p (Suc r)"
  have input: "internal_preimage (child_hash j) \<in> merkle_inputs H c ?p (Suc r)"
  proof -
    have "internal_preimage (\<lambda>n. merkle H c (?p @ [n]) r) = internal_preimage (child_hash j)" using hash by (intro internal_preimage_cong)
    with node show ?thesis by simp
  qed
  have sub: "merkle_inputs H c (take (Suc d) (nibbles_of k)) r \<subseteq> merkle_inputs H c ?p (Suc r)"
    using merkle_inputs_below [OF wf, of "Suc r" r H c] by (simp add: step)
  show ?case
  proof (cases "gm_get (i_children j) ?n")
    case None
    then have "merkle H c (?p @ [?n]) r = None" using hash [of ?n] by (simp add: child_hash_def)
    then have ck: "c k = None" using merkle_None_iff [OF wf, of r H c] Suc.prems(2) k d by (simp add: step)
    have "?goal [?s]"
      using None ck j(1) d node fill input wf_siblingData [OF j(2)]
      by (simp add: node_of_Inr InternalNode_Child_def finished_def bottom_def tgt child_hash_def)
    then show ?thesis by blast
  next
    case (Some child)
    then have c: "rep (node_of i) H c (c_Version child) (take (Suc d) (nibbles_of k)) r"
      using ch [of ?n] by (simp add: child_ok_def step)
    have key: "\<lparr>nk_Version = c_Version child, nk_NibblePath = \<lparr>Nibbles = take (Suc d) (nibbles_of k), Length = 1 + of_nat d\<rparr>\<rparr>
        = nkey (c_Version child) (take (Suc d) (nibbles_of k))"
      using d by (simp add: nkey_def mkpath_def)
    let ?p1 = "p\<lparr>pf_Siblings := pf_Siblings p @ [?s]\<rparr>"
    obtain ss where ss: "genLoop i k (nibbles_of k) (Suc d) r (pt @ [?n]) (nkey (c_Version child) (take (Suc d) (nibbles_of k))) ?p1
          = Inr (finished c k b ss ?p1)"
      "map sb_Depth ss = map int [Suc d..<Suc d + length ss]" "Suc d + length ss \<le> MaxTreeDepth"
      "\<forall>s \<in> set ss. wf_sibling s \<and> sb_Nibble s \<le> MaxNibbleValue"
      "climb H (nibbles_of k) (bottom H c k) ss = merkle H c (take (Suc d) (nibbles_of k)) r"
      "climb_inputs H (nibbles_of k) (bottom H c k) ss \<subseteq> merkle_inputs H c (take (Suc d) (nibbles_of k)) r"
      using Suc.IH [OF c, of "pt @ [?n]" ?p1] Suc.prems(2) by auto
    have "finished c k b ss ?p1 = finished c k b (?s # ss) p" by (simp add: finished_def split: option.split)
    moreover have "climb H (nibbles_of k) (bottom H c k) ss = child_hash j ?n" using ss(5) hash [of ?n] by (simp add: step)
    moreover have "[d..<Suc (d + length ss)] = d # [Suc d..<Suc (d + length ss)]" by (simp add: upt_rec)
    ultimately have "?goal (?s # ss)"
      using Some ss(1-4) j(1) d node fill wf_siblingData [OF j(2)] input subset_trans [OF ss(6) sub]
      by (simp add: node_of_Inr InternalNode_Child_def key tgt)
    then show ?thesis by blast
  qed
qed

lemma contiguous_in_range: "contiguous ss \<Longrightarrow> length ss \<le> MaxTreeDepth \<Longrightarrow> s \<in> set ss \<Longrightarrow> in_range s"
proof -
  assume c: "contiguous ss" and l: "length ss \<le> MaxTreeDepth" and "s \<in> set ss"
  then have "sb_Depth s \<in> set (map int [0..<length ss])" unfolding contiguous_def by (metis list.set_map image_eqI)
  with l show "in_range s" by (auto simp: in_range_def)
qed

lemma contiguous_valid:
  assumes "map sb_Depth ss = map int [d..<d + length ss]" and "d + length ss \<le> MaxTreeDepth"
    and "\<forall>s \<in> set ss. sb_Nibble s \<le> MaxNibbleValue" and "case prev of None \<Rightarrow> True | Some e \<Rightarrow> e < int d"
  shows "validSiblings prev ss = Inr ()"
  using assms
proof (induction ss arbitrary: d prev)
  case (Cons s ss)
  have "[d..<d + length (s # ss)] = d # [Suc d..<Suc d + length ss]" by (simp add: upt_rec)
  then have "sb_Depth s = int d" "map sb_Depth ss = map int [Suc d..<Suc d + length ss]" using Cons.prems(1) by simp_all
  moreover from this(2) have "validSiblings (Some (int d)) ss = Inr ()" using Cons.prems(2,3) by (intro Cons.IH [of "Suc d"]) auto
  ultimately show ?case using Cons.prems(2-4) by (auto simp: linorder_not_less split: option.splits)
qed simp

section \<open>The interface of a reader\<close>

text \<open>What a generated proof is.\<close>

definition good_proof :: "(bytes \<Rightarrow> hash) \<Rightarrow> TreeReaderInterface \<Rightarrow> contents \<Rightarrow> key \<Rightarrow> Proof \<Rightarrow> bool" where
  "good_proof H i c k p \<longleftrightarrow> Verify H p = Inr () \<and> pf_Key p = k \<and> pf_RootHash p = merkle_root H c \<and> pf_Version p = ri_Version i
     \<and> contiguous (pf_Siblings p) \<and> wf_proof p \<and> proof_inputs H p \<subseteq> merkle_inputs H c [] MaxTreeDepth \<union> set_option (pf_Value p)
     \<and> (case c k of None \<Rightarrow> pf_Type p = ProofTypeExclusionEmpty
        | Some h \<Rightarrow> pf_Type p = ProofTypeInclusion \<and> (\<exists>b. pf_Value p = Some b \<and> ri_LoadValue i h = Inr b \<and> H b = h))"

locale tree_reader =
  fixes iface :: "'r \<Rightarrow> TreeReaderInterface" and H :: "bytes \<Rightarrow> hash" and readable :: "'r \<Rightarrow> contents \<Rightarrow> bool"
  assumes digest_size: "readable r c \<Longrightarrow> wf_hash (H x)"
    and reader_root: "readable r c \<Longrightarrow> ri_RootHash (iface r) = merkle_root H c"
    and reader_nodes: "readable r c \<Longrightarrow> merkle H c [] MaxTreeDepth = Some h \<Longrightarrow>
      h \<noteq> EmptyHash \<and> rep (node_of (iface r)) H c (ri_Version (iface r)) [] MaxTreeDepth"
    and reader_values: "readable r c \<Longrightarrow> wf_key k \<Longrightarrow> c k = Some h \<Longrightarrow> \<exists>b. ri_LoadValue (iface r) h = Inr b \<and> H b = h"
begin

lemma Generate_empty:
  assumes "readable r c" and "merkle H c [] MaxTreeDepth = None" and "wf_key k" and "k \<noteq> emptyKey"
  shows "\<exists>p. Generate (iface r) k = Inr p \<and> good_proof H (iface r) c k p"
proof -
  have root: "ri_RootHash (iface r) = EmptyHash" "merkle_root H c = EmptyHash"
    using reader_root [OF assms(1)] assms(2) by (simp_all add: merkle_root_def)
  have "c k = None" using merkle_None_iff [of "[]" MaxTreeDepth H c] assms(2,3) by simp
  moreover let ?p = "(newProof (iface r) k)\<lparr>pf_Type := ProofTypeExclusionEmpty\<rparr>"
  have "Generate (iface r) k = Inr ?p" using root ValidateKey_ok [OF assms(3,4)] by (simp add: Generate_def)
  moreover have "Verify H ?p = Inr ()"
    using Verify_empty [of ?p H] assms(3) root ValidateKey_ok [OF assms(3,4)]
    by (simp add: newProof_def Proof_IsValid_def proofType_defs)
  ultimately show ?thesis using root assms(3) by (simp add: good_proof_def newProof_def contiguous_def wf_proof_def proof_inputs_def proofType_defs)
qed

lemma Generate_nonempty:
  assumes r: "readable r c" and h: "merkle H c [] MaxTreeDepth = Some h" and k: "wf_key k" "k \<noteq> emptyKey"
  shows "\<exists>p. Generate (iface r) k = Inr p \<and> good_proof H (iface r) c k p"
proof -
  let ?i = "iface r" and ?path = "nibbles_of k"
  have root: "ri_RootHash ?i = h" "merkle_root H c = h" "h \<noteq> EmptyHash" and rep: "rep (node_of ?i) H c (ri_Version ?i) [] MaxTreeDepth"
    using reader_root [OF r] reader_nodes [OF r h] h by (simp_all add: merkle_root_def)
  obtain b where b: "\<And>x. c k = Some x \<Longrightarrow> ri_LoadValue ?i x = Inr b \<and> H b = x" using reader_values [OF r k(1)] by (cases "c k") auto
  obtain ss where gen: "genLoop ?i k ?path 0 MaxTreeDepth [] (nkey (ri_Version ?i) []) (newProof ?i k) = Inr (finished c k b ss (newProof ?i k))"
    and ss: "contiguous ss" "length ss \<le> MaxTreeDepth" "\<forall>s \<in> set ss. wf_sibling s \<and> sb_Nibble s \<le> MaxNibbleValue"
    and climb: "climb H ?path (bottom H c k) ss = Some h" "climb_inputs H ?path (bottom H c k) ss \<subseteq> merkle_inputs H c [] MaxTreeDepth"
    using genLoop_correct [of ?i H c "ri_Version ?i" 0 k MaxTreeDepth b "[]" "newProof ?i k"] rep k(1) b h by (auto simp: contiguous_def)
  let ?p = "finished c k b ss (newProof ?i k)"
  have eq: "pf_Key ?p = k" "pf_Siblings ?p = ss" "pf_RootHash ?p = h" "pf_NeighborLeaf ?p = None" "pf_Version ?p = ri_Version ?i"
    "pf_Type ?p = (if c k = None then ProofTypeExclusionEmpty else ProofTypeInclusion)" "pf_Value ?p = map_option (\<lambda>_. b) (c k)"
    using root by (auto simp: finished_def newProof_def split: option.split)
  have range: "\<forall>s \<in> set ss. in_range s" using contiguous_in_range ss(1,2) by blast
  have valid: "Proof_IsValid ?p = Inr ()"
    using contiguous_valid [of ss 0 None] ss ValidateKey_ok [OF k] by (auto simp: Proof_IsValid_def eq proofType_defs contiguous_def)
  have start: "start_of H ?p = bottom H c k" using b by (auto simp: start_of_def eq leafHash_eq bottom_def proofType_defs)
  have "Verify H ?p = Inr ()"
    using Verify_empty [of ?p H] Verify_inclusion [of ?p H] range valid climb(1) k by (cases "c k") (simp_all add: eq start, simp add: bottom_def)
  moreover have "proof_inputs H ?p \<subseteq> merkle_inputs H c [] MaxTreeDepth \<union> set_option (pf_Value ?p)"
    using climb(2) b merkle_inputs_has_leaf [OF k(1), of c _ H]
    by (auto simp: proof_inputs_def start path_of_def eq proofType_defs split: if_splits)
  moreover have "Generate ?i k = Inr ?p"
    using gen root ValidateKey_ok [OF k] by (simp add: Generate_def RootNodeKey_nkey)
  moreover have "wf_proof ?p" using ss(3) k(1) wf_merkle_root [of H c] digest_size [OF r] root by (simp add: wf_proof_def eq)
  ultimately show ?thesis using root b ss(1) by (simp add: good_proof_def eq split: option.split)
qed

lemma Generate_complete:
  assumes "readable r c" and "wf_key k" and "k \<noteq> emptyKey"
  shows "\<exists>p. Generate (iface r) k = Inr p \<and> good_proof H (iface r) c k p"
  using Generate_empty [OF assms(1) _ assms(2,3)] Generate_nonempty [OF assms(1) _ assms(2,3)]
  by (cases "merkle H c [] MaxTreeDepth") auto

text \<open>A batch of keys gives one such proof per key, all accepted by \<open>VerifyBatch\<close>.\<close>

lemma GenerateBatch_complete:
  assumes "readable r c" and "\<forall>k \<in> set ks. wf_key k \<and> k \<noteq> emptyKey"
  shows "\<exists>ps. GenerateBatch (iface r) ks = Inr ps \<and> VerifyBatch H ps = Inr () \<and> list_all2 (good_proof H (iface r) c) ks ps"
  using assms(2)
proof (induction ks)
  case (Cons k ks)
  then obtain ps where ps: "GenerateBatch (iface r) ks = Inr ps" "VerifyBatch H ps = Inr ()" "list_all2 (good_proof H (iface r) c) ks ps" by auto
  obtain p where p: "Generate (iface r) k = Inr p" "good_proof H (iface r) c k p" using Generate_complete [OF assms(1)] Cons.prems by auto
  then have "Verify H p = Inr ()" by (simp add: good_proof_def)
  with ps p show ?case by simp
qed simp

end

section \<open>The reader of the tree\<close>

text \<open>A reader of the tree, opened on a committed version.\<close>

definition opened :: "(bytes \<Rightarrow> hash) \<Rightarrow> TreeReader \<Rightarrow> contents \<Rightarrow> bool" where
  "opened H rd c \<longleftrightarrow> (\<forall>x. wf_hash (H x)) \<and> (\<exists>sp t v m t'. tree_rel H sp t \<and> hash_ok H (sp_hist sp) \<and> sp_committed sp v = Some m
     \<and> Tree_Reader t v = (Inr rd, t') \<and> c = hashed H m)"

lemma Tree_Reader_opens:
  assumes rel: "tree_rel H sp t" and m: "sp_committed sp v = Some m"
  shows "\<exists>rd t'. Tree_Reader t v = (Inr rd, t') \<and> reads rd (t_db t) \<and> rd_version rd = v \<and> rd_rootHash rd = merkle_root H (hashed H m)"
proof -
  have "gm_get (t_rootHashes t) v = Some (merkle_root H (hashed H m))"
    using tree_relD(7) [OF rel] m by (simp add: versions_rel_def)
  moreover have "\<not> ms_closing (t_db t)" "snapshots_free (t_db t)" using tree_relD(5) [OF rel] by (simp_all add: store_ok_def)
  then obtain sn db1 where "NewSnapshot (t_db t) = (MemSnapshot sn, db1)" "sn_data sn = ms_data (t_db t)"
    using snapshot_roundtrip [of "t_db t"] by blast
  ultimately show ?thesis by (simp add: Tree_Reader_def reads_def)
qed

lemma reader_value:
  assumes rel: "tree_rel H sp t" and ok: "hash_ok H (sp_hist sp)" and m: "sp_committed sp v = Some m" and H: "\<And>x. wf_hash (H x)"
    and rd: "Tree_Reader t v = (Inr rd, t')" and k: "wf_key k" "m k = Some b"
  shows "loadValue H rd (H b) = Inr b"
proof -
  have r: "reads rd (t_db t)" using Tree_Reader_opens [OF rel m] rd by simp
  have vok: "version_ok H (sp_hist sp) (loadNodeFromStorage (t_db t)) m v" using committedD(1) [OF rel m] .
  have "merkle H (hashed H m) [] MaxTreeDepth \<noteq> None"
    using merkle_None_iff [of "[]" MaxTreeDepth H "hashed H m"] k by (auto simp: hashed_def)
  then have "m \<in> set (sp_hist sp)" "rep (loadNodeFromStorage (t_db t)) H (hashed H m) v [] MaxTreeDepth"
    using vok unfolding version_ok_def by auto
  then have "gm_get (ms_data (t_db t)) (DefaultKeyEncoder_ValueKey (H b)) = Some b" using stored_value [of H sp t k m b v, OF rel ok k _ _ H] by blast
  then show ?thesis using r by (auto simp: reads_def loadValue_def)
qed

lemma opened_reader:
  assumes "opened H rd c"
  shows "rd_rootHash rd = merkle_root H c"
    and "merkle H c [] MaxTreeDepth = Some h \<Longrightarrow>
      h \<noteq> EmptyHash \<and> rep (node_of (asTreeReaderInterface H rd)) H c (rd_version rd) [] MaxTreeDepth"
    and "wf_key k \<Longrightarrow> c k = Some h' \<Longrightarrow> \<exists>b. loadValue H rd h' = Inr b \<and> H b = h'"
proof -
  obtain sp t v m t' where H: "\<And>x. wf_hash (H x)" and rel: "tree_rel H sp t" and ok: "hash_ok H (sp_hist sp)" and m: "sp_committed sp v = Some m"
    and rd: "Tree_Reader t v = (Inr rd, t')" and c: "c = hashed H m"
    using assms unfolding opened_def by blast
  have r: "reads rd (t_db t)" "rd_version rd = v" "rd_rootHash rd = merkle_root H c"
    using Tree_Reader_opens [OF rel m] rd c by simp_all
  note vok = committedD(1) [OF rel m]
  show "rd_rootHash rd = merkle_root H c" using r by simp
  have mem: "m \<in> set (sp_hist sp)" using vok by (simp add: version_ok_def)
  have rep: "0 < v \<and> rep (loadNodeFromStorage (t_db t)) H c v [] MaxTreeDepth" if "merkle H c [] MaxTreeDepth \<noteq> None"
    using vok that unfolding version_ok_def c by (auto split: if_splits)
  show "h \<noteq> EmptyHash \<and> rep (node_of (asTreeReaderInterface H rd)) H c (rd_version rd) [] MaxTreeDepth"
    if h: "merkle H c [] MaxTreeDepth = Some h"
  proof
    show "h \<noteq> EmptyHash" using merkle_input [OF h] inputs_mem(1) [OF mem, of H] ok unfolding hash_ok_def c by blast
    have "rep (loadNodeFromStorage (t_db t)) H c v [] MaxTreeDepth" "0 < v" using rep h by auto
    then show "rep (node_of (asTreeReaderInterface H rd)) H c (rd_version rd) [] MaxTreeDepth"
      unfolding r(2) by (rule rep_grow) (simp add: node_of_Inr asTreeReaderInterface_def Reader_loadNode_reads [OF r(1)])
  qed
  show "\<exists>b. loadValue H rd h' = Inr b \<and> H b = h'" if k: "wf_key k" and h': "c k = Some h'"
  proof -
    obtain b where b: "m k = Some b" "h' = H b" using h' by (auto simp: c hashed_def)
    then show ?thesis using reader_value [OF rel ok m H rd k b(1)] by blast
  qed
qed

interpretation reader: tree_reader "asTreeReaderInterface H" H "opened H" for H
proof unfold_locales
  show "opened H r c \<Longrightarrow> ri_RootHash (asTreeReaderInterface H r) = merkle_root H c" for r c
    using opened_reader(1) by (simp add: asTreeReaderInterface_def)
  show "opened H r c \<Longrightarrow> merkle H c [] MaxTreeDepth = Some h \<Longrightarrow> h \<noteq> EmptyHash \<and>
      rep (node_of (asTreeReaderInterface H r)) H c (ri_Version (asTreeReaderInterface H r)) [] MaxTreeDepth" for r c h
    using opened_reader(2) by (simp add: asTreeReaderInterface_def)
  show "opened H r c \<Longrightarrow> wf_key k \<Longrightarrow> c k = Some h \<Longrightarrow> \<exists>b. ri_LoadValue (asTreeReaderInterface H r) h = Inr b \<and> H b = h" for r c k h
    using opened_reader(3) by (simp add: asTreeReaderInterface_def)
qed (simp add: opened_def)

text \<open>The proof that the generator makes for a key at a committed version.\<close>

lemma generated_proof:
  assumes "tree_rel H sp t" and "\<And>x. wf_hash (H x)" and "hash_ok H (sp_hist sp)" and "sp_committed sp v = Some m"
    and "wf_key k" and "k \<noteq> emptyKey"
  shows "\<exists>rd t' p. Tree_Reader t v = (Inr rd, t') \<and> Generate (asTreeReaderInterface H rd) k = Inr p \<and> Verify H p = Inr ()
    \<and> wf_proof p \<and> contiguous (pf_Siblings p) \<and> proof_inputs H p \<subseteq> inputs H (sp_hist sp)
    \<and> pf_Key p = k \<and> pf_Version p = v \<and> GetRootHash t v = Inr (pf_RootHash p)
    \<and> pf_Type p = (if m k = None then ProofTypeExclusionEmpty else ProofTypeInclusion) \<and> pf_Value p = m k"
proof -
  obtain rd t' where rd: "Tree_Reader t v = (Inr rd, t')" "rd_version rd = v" using Tree_Reader_opens [OF assms(1,4)] by blast
  then have "opened H rd (hashed H m)" using assms unfolding opened_def by blast
  then obtain p where p: "Generate (asTreeReaderInterface H rd) k = Inr p" "good_proof H (asTreeReaderInterface H rd) (hashed H m) k p"
    using reader.Generate_complete [OF _ assms(5,6)] by blast
  have "pf_Value p = None" if "m k = None"
    using p(2) that by (auto simp: good_proof_def hashed_def Verify_def Proof_IsValid_def bindE_eq_Inr proofType_defs split: if_splits)
  moreover have "pf_Value p = m k" if "m k \<noteq> None"
    using p(2) that reader_value [OF assms(1,3,4,2) rd(1) assms(5)] by (auto simp: good_proof_def hashed_def asTreeReaderInterface_def)
  ultimately have val: "pf_Value p = m k" by (cases "m k") auto
  have mem: "m \<in> set (sp_hist sp)" using committedD(1) [OF assms(1,4)] by (simp add: version_ok_def)
  have "set_option (pf_Value p) \<subseteq> inputs H (sp_hist sp)" using inputs_mem(2) [OF mem, of H] val by (auto simp: ran_def)
  then have "proof_inputs H p \<subseteq> inputs H (sp_hist sp)" using p(2) inputs_mem(1) [OF mem, of H] unfolding good_proof_def by blast
  moreover have "GetRootHash t v = Inr (merkle_root H (hashed H m))"
    using tree_relD(7) [OF assms(1)] assms(4) by (simp add: versions_rel_def GetRootHash_def)
  moreover have "pf_Type p = (if m k = None then ProofTypeExclusionEmpty else ProofTypeInclusion)"
    using p(2) by (auto simp: good_proof_def hashed_def)
  ultimately show ?thesis
    using rd p val by (auto simp: good_proof_def asTreeReaderInterface_def)
qed

end
