(* ===== verification/ProofCodec.thy ===== *)
theory ProofCodec
  imports ProofVerify
begin

text \<open>
  Serialised proofs: \<^verbatim>\<open>pkg/proof/codec.go\<close> and the compressed form of \<^verbatim>\<open>pkg/proof/optimization.go\<close>. Both write
  the same body (data of the proof's type, siblings), which the model shares. The readers work on the whole
  buffer at an offset, as in the code; slicing out of range panics. The gzip library is a pair of functions
  that \<open>CompressProof\<close> and \<open>DecompressProof\<close> take.
\<close>

section \<open>Writing\<close>

definition writeNeighbor :: "NeighborLeafData \<Rightarrow> bytes" where
  "writeNeighbor nb = nb_Key nb @ nb_ValueHash nb @ be_put 2 (word_of_int (nb_DivergeDepth nb) :: u16)
     @ be_put 2 (of_nat (length (nb_Path nb)) :: u16) @ nb_Path nb"

definition valueBytes :: "Proof \<Rightarrow> bytes" where
  "valueBytes p = (case pf_Value p of Some v \<Rightarrow> v | None \<Rightarrow> [])"

definition writeTypeData :: "Proof \<Rightarrow> bytes result" where
  "writeTypeData p =
     (if pf_Type p = ProofTypeInclusion then Inr (be_put 4 (of_nat (length (valueBytes p)) :: u32) @ valueBytes p)
      else if pf_Type p = ProofTypeExclusionNeighbor then
        (case pf_NeighborLeaf p of None \<Rightarrow> Inl (Panic ''nil pointer dereference'') | Some nb \<Rightarrow> Inr (writeNeighbor nb))
      else Inr [])"

definition writeChildren :: "(nibble, hash) gomap \<Rightarrow> bytes" where
  "writeChildren children = concat (map (\<lambda>nibble. case gm_get children nibble of Some h \<Rightarrow> nibble # h | None \<Rightarrow> []) nibble_range)"

definition writeSibling :: "SiblingData \<Rightarrow> bytes" where
  "writeSibling sib = be_put 2 (word_of_int (sb_Depth sib) :: u16) @ [sb_Nibble sib]
     @ be_put 2 (of_nat (length (sb_Children sib)) :: u16) @ writeChildren (sb_Children sib)"

definition writeSiblings :: "SiblingData list \<Rightarrow> bytes" where
  "writeSiblings ss = be_put 2 (of_nat (length ss) :: u16) @ concat (map writeSibling ss)"

definition Encode :: "Proof \<Rightarrow> bytes result" where
  "Encode proof =
     (case Proof_IsValid proof of
        Inl err \<Rightarrow> Inl (wrapE ''cannot encode invalid proof'' err)
      | Inr _ \<Rightarrow>
          bindE (writeTypeData proof) (\<lambda>typeData.
            let buf = [pf_Type proof] @ pf_Key proof @ be_put 8 (pf_Version proof) @ pf_RootHash proof
                        @ typeData @ writeSiblings (pf_Siblings proof)
            in if length buf > MaxProofSize then Inl (Errorf ''encoded proof exceeds maximum size'') else Inr buf))"

section \<open>Reading\<close>

text \<open>The slice expression \<^verbatim>\<open>data[i:j]\<close>.\<close>

definition sub :: "bytes \<Rightarrow> nat \<Rightarrow> nat \<Rightarrow> bytes result" where
  "sub data i j = (if i \<le> j \<and> j \<le> length data then Inr (slice data i j) else Inl (Panic ''slice bounds out of range''))"

definition readValue :: "bytes \<Rightarrow> nat \<Rightarrow> (bytes \<times> nat) result" where
  "readValue data offset =
     (if length data < offset + 4 then Inl (Errorf ''insufficient data for value length'')
      else bindE (sub data offset (offset + 4)) (\<lambda>lenBytes.
        let valueLen = unat (be_get lenBytes :: u32); offset = offset + 4
        in if length data < offset + valueLen then Inl (Errorf ''insufficient data for value'')
           else bindE (sub data offset (offset + valueLen)) (\<lambda>v. Inr (v, offset + valueLen))))"

text \<open>The path of the neighbour is read byte by byte; its bounds were checked before.\<close>

fun readPath :: "bytes \<Rightarrow> nat \<Rightarrow> nat \<Rightarrow> (nibble list \<times> nat) result" where
  "readPath data offset 0 = Inr ([], offset)"
| "readPath data offset (Suc n) =
     bindE (idx data offset) (\<lambda>b. bindE (readPath data (offset + 1) n) (\<lambda>(bs, off). Inr (b # bs, off)))"

definition readNeighbor :: "bytes \<Rightarrow> nat \<Rightarrow> (NeighborLeafData \<times> nat) result" where
  "readNeighbor data offset =
     (if length data < offset + 32 + 32 + 2 + 2 then Inl (Errorf ''insufficient data for neighbor'')
      else bindE (sub data offset (offset + 32)) (\<lambda>key.
           bindE (sub data (offset + 32) (offset + 64)) (\<lambda>vh.
           bindE (sub data (offset + 64) (offset + 66)) (\<lambda>depth.
           bindE (sub data (offset + 66) (offset + 68)) (\<lambda>len.
             let pathLen = unat (be_get len :: u16); offset = offset + 68
             in if length data < offset + pathLen then Inl (Errorf ''insufficient data for path'')
                else bindE (readPath data offset pathLen) (\<lambda>(path, off).
                  Inr (\<lparr>nb_Key = key, nb_ValueHash = vh, nb_Path = path, nb_DivergeDepth = uint (be_get depth :: u16)\<rparr>, off)))))))"

definition readTypeData :: "ProofType \<Rightarrow> bytes \<Rightarrow> nat \<Rightarrow> (bytes option \<times> NeighborLeafData option \<times> nat) result" where
  "readTypeData ty data offset =
     (if ty = ProofTypeInclusion then bindE (readValue data offset) (\<lambda>(v, off). Inr (Some v, None, off))
      else if ty = ProofTypeExclusionNeighbor then bindE (readNeighbor data offset) (\<lambda>(nb, off). Inr (None, Some nb, off))
      else Inr (None, None, offset))"

fun readChildren :: "bytes \<Rightarrow> nat \<Rightarrow> nat \<Rightarrow> (nibble, hash) gomap \<Rightarrow> ((nibble, hash) gomap \<times> nat) result" where
  "readChildren data offset 0 children = Inr (children, offset)"
| "readChildren data offset (Suc j) children =
     (if length data < offset + 1 + 32 then Inl (Errorf ''insufficient data for child'')
      else bindE (idx data offset) (\<lambda>nibble.
           bindE (sub data (offset + 1) (offset + 33)) (\<lambda>hash.
             readChildren data (offset + 33) j (gm_put nibble hash children))))"

fun readSiblings :: "string \<Rightarrow> bytes \<Rightarrow> nat \<Rightarrow> nat \<Rightarrow> (SiblingData list \<times> nat) result" where
  "readSiblings msg data offset 0 = Inr ([], offset)"
| "readSiblings msg data offset (Suc i) =
     (if length data < offset + 2 + 1 + 2 then Inl (Errorf msg)
      else bindE (sub data offset (offset + 2)) (\<lambda>depth.
           bindE (idx data (offset + 2)) (\<lambda>nibble.
           bindE (sub data (offset + 3) (offset + 5)) (\<lambda>count.
           bindE (readChildren data (offset + 5) (unat (be_get count :: u16)) []) (\<lambda>(children, off).
           bindE (readSiblings msg data off i) (\<lambda>(sibs, off).
             Inr (\<lparr>sb_Depth = uint (be_get depth :: u16), sb_Nibble = nibble, sb_Hash = EmptyHash, sb_Children = children\<rparr> # sibs, off)))))))"

text \<open>The siblings with their count.\<close>

definition readSiblingList :: "string \<Rightarrow> bytes \<Rightarrow> nat \<Rightarrow> (SiblingData list \<times> nat) result" where
  "readSiblingList msg data offset =
     (if length data < offset + 2 then Inl (Errorf ''insufficient data for sibling count'')
      else bindE (sub data offset (offset + 2)) (\<lambda>count.
        readSiblings msg data (offset + 2) (unat (be_get count :: u16))))"

definition Decode :: "bytes \<Rightarrow> Proof result" where
  "Decode data =
     (if length data < 1 + 32 + 8 + 32 then Inl (Errorf ''insufficient data for proof header'')
      else bindE (idx data 0) (\<lambda>ty.
           bindE (sub data 1 33) (\<lambda>key.
           bindE (sub data 33 41) (\<lambda>version.
           bindE (sub data 41 73) (\<lambda>rootHash.
             if ty \<noteq> ProofTypeInclusion \<and> ty \<noteq> ProofTypeExclusionNeighbor \<and> ty \<noteq> ProofTypeExclusionEmpty
             then Inl (Errorf ''unknown proof type'')
             else bindE (readTypeData ty data 73) (\<lambda>(val, nb, offset).
                  bindE (readSiblingList ''insufficient data for sibling header'' data offset) (\<lambda>(sibs, _).
                    let proof = \<lparr>pf_Type = ty, pf_Key = key, pf_Value = val, pf_NeighborLeaf = nb, pf_Siblings = sibs,
                          pf_RootHash = rootHash, pf_Version = be_get version\<rparr>
                    in case Proof_IsValid proof of
                         Inl err \<Rightarrow> Inl (wrapE ''invalid decoded proof'' err)
                       | Inr _ \<Rightarrow> Inr proof)))))))"

section \<open>Compressed proofs\<close>

record CompressedProof =
  cp_Type :: ProofType
  cp_KeyHash :: hash
  cp_CompressedData :: bytes

definition CompressProof :: "(bytes \<Rightarrow> hash) \<Rightarrow> (bytes \<Rightarrow> bytes) \<Rightarrow> Proof \<Rightarrow> CompressedProof result" where
  "CompressProof H gzip proof =
     bindE (Proof_IsValid proof) (\<lambda>_.
     bindE (writeTypeData proof) (\<lambda>typeData.
       let buf = pf_Key proof @ typeData @ writeSiblings (pf_Siblings proof) @ be_put 8 (pf_Version proof) @ pf_RootHash proof;
           compressed = gzip buf
       in if length compressed > MaxProofSize then Inl (Errorf ''compressed proof exceeds maximum size'')
          else Inr \<lparr>cp_Type = pf_Type proof, cp_KeyHash = H (pf_Key proof), cp_CompressedData = compressed\<rparr>))"

definition DecompressProof :: "(bytes \<Rightarrow> hash) \<Rightarrow> (bytes \<Rightarrow> bytes result) \<Rightarrow> CompressedProof \<Rightarrow> Proof result" where
  "DecompressProof H gunzip compressed =
     bindE (gunzip (cp_CompressedData compressed)) (\<lambda>data.
       if length data < 32 then Inl (Errorf ''insufficient data for key'')
       else bindE (sub data 0 32) (\<lambda>key.
         if H key \<noteq> cp_KeyHash compressed then Inl (Errorf ''key hash mismatch'')
         else bindE (readTypeData (cp_Type compressed) data 32) (\<lambda>(val, nb, offset).
              bindE (readSiblingList ''insufficient data for sibling'' data offset) (\<lambda>(sibs, offset).
                if length data < offset + 8 + 32 then Inl (Errorf ''insufficient data for version and root hash'')
                else bindE (sub data offset (offset + 8)) (\<lambda>version.
                     bindE (sub data (offset + 8) (offset + 40)) (\<lambda>rootHash.
                       let proof = \<lparr>pf_Type = cp_Type compressed, pf_Key = key, pf_Value = val, pf_NeighborLeaf = nb,
                             pf_Siblings = sibs, pf_RootHash = rootHash, pf_Version = be_get version\<rparr>
                       in case Proof_IsValid proof of
                            Inl err \<Rightarrow> Inl (wrapE ''invalid decompressed proof'' err)
                          | Inr _ \<Rightarrow> Inr proof))))))"

section \<open>Reading at an offset\<close>

lemma sub_skip: "length a \<le> i \<Longrightarrow> i \<le> j \<Longrightarrow> sub (a @ b) i j = sub b (i - length a) (j - length a)"
  by (auto simp: sub_def slice_def)

lemma sub_take: "length a = j \<Longrightarrow> sub (a @ b) 0 j = Inr a"
  by (auto simp: sub_def slice_def)

lemma idx_skip: "length a \<le> i \<Longrightarrow> idx (a @ b) i = idx b (i - length a)"
  by (auto simp: idx_def nth_append)

lemma idx_Cons_0 [simp]: "idx (x # xs) 0 = Inr x"
  by (simp add: idx_def)

lemma sub_Cons: "0 < i \<Longrightarrow> i \<le> j \<Longrightarrow> sub (x # xs) i j = sub xs (i - 1) (j - 1)"
  using sub_skip [of "[x]" i j xs] by simp

lemma sub_all: "length a = j \<Longrightarrow> sub a 0 j = Inr a"
  by (auto simp: sub_def slice_def)

lemmas read_simps = sub_skip sub_take sub_all idx_skip sub_Cons

lemma unat_of_nat_u16: "n < 2 ^ 16 \<Longrightarrow> unat (of_nat n :: u16) = n"
  by (simp add: unsigned_of_nat take_bit_nat_eq_self)

lemma unat_of_nat_u32: "n < 2 ^ 32 \<Longrightarrow> unat (of_nat n :: u32) = n"
  by (simp add: unsigned_of_nat take_bit_nat_eq_self)

lemma uint_depth: "0 \<le> d \<Longrightarrow> d \<le> int MaxTreeDepth \<Longrightarrow> uint (word_of_int d :: u16) = d"
  by (simp add: unsigned_of_int take_bit_int_eq_self MaxTreeDepth_def)

lemma readValue_back:
  assumes "length v < 2 ^ 32"
  shows "readValue (pre @ be_put 4 (of_nat (length v) :: u32) @ v @ post) (length pre) = Inr (v, length pre + 4 + length v)"
  using assms by (simp add: readValue_def read_simps unat_of_nat_u32)

lemma readPath_back: "readPath (pre @ ns @ post) (length pre) (length ns) = Inr (ns, length pre + length ns)"
proof (induction ns arbitrary: pre)
  case (Cons n ns)
  from Cons.IH [of "pre @ [n]"] show ?case by (simp add: read_simps)
qed simp

lemma readNeighbor_back:
  assumes "wf_neighbor nb" and "0 \<le> nb_DivergeDepth nb" and "nb_DivergeDepth nb \<le> int MaxTreeDepth" and "length (nb_Path nb) < 2 ^ 16"
  shows "readNeighbor (pre @ writeNeighbor nb @ post) (length pre) = Inr (nb, length pre + length (writeNeighbor nb))"
proof -
  let ?hd = "nb_Key nb @ nb_ValueHash nb @ be_put 2 (word_of_int (nb_DivergeDepth nb) :: u16) @ be_put 2 (of_nat (length (nb_Path nb)) :: u16)"
  have len: "length (nb_Key nb) = 32" "length (nb_ValueHash nb) = 32"
    using assms(1) by (simp_all add: wf_neighbor_def wf_key_def wf_hash_def size_defs)
  have "readPath ((pre @ ?hd) @ nb_Path nb @ post) (length (pre @ ?hd)) (length (nb_Path nb)) = Inr (nb_Path nb, length (pre @ ?hd) + length (nb_Path nb))"
    by (rule readPath_back)
  then show ?thesis
    using assms(2-4) len
    by (simp add: readNeighbor_def writeNeighbor_def read_simps unat_of_nat_u16 uint_depth add.assoc)
qed

section \<open>Siblings\<close>

text \<open>What a sibling is after a round trip: the unused hash is dropped and the children are in order.\<close>

definition canonChildren :: "(nibble, hash) gomap \<Rightarrow> (nibble, hash) gomap" where
  "canonChildren children = concat (map (\<lambda>n. case gm_get children n of Some h \<Rightarrow> [(n, h)] | None \<Rightarrow> []) nibble_range)"

definition canonSibling :: "SiblingData \<Rightarrow> SiblingData" where
  "canonSibling s = s\<lparr>sb_Hash := EmptyHash, sb_Children := canonChildren (sb_Children s)\<rparr>"

definition canonProof :: "Proof \<Rightarrow> Proof" where
  "canonProof p = p\<lparr>pf_Siblings := map canonSibling (pf_Siblings p)\<rparr>"

lemma canonSibling_simps [simp]: "sb_Depth (canonSibling s) = sb_Depth s" "sb_Nibble (canonSibling s) = sb_Nibble s"
  "sb_Children (canonSibling s) = canonChildren (sb_Children s)"
  by (simp_all add: canonSibling_def)

lemma canonProof_simps [simp]: "pf_Type (canonProof p) = pf_Type p" "pf_Key (canonProof p) = pf_Key p" "pf_Value (canonProof p) = pf_Value p"
  "pf_NeighborLeaf (canonProof p) = pf_NeighborLeaf p" "pf_RootHash (canonProof p) = pf_RootHash p"
  "pf_Siblings (canonProof p) = map canonSibling (pf_Siblings p)"
  by (simp_all add: canonProof_def)

definition nibble_children :: "SiblingData \<Rightarrow> bool" where
  "nibble_children s \<longleftrightarrow> (\<forall>n \<in> fst ` set (sb_Children s). n \<le> MaxNibbleValue)"

lemma gm_get_canonChildren: "n \<le> MaxNibbleValue \<Longrightarrow> gm_get (canonChildren ch) n = gm_get ch n"
  using gm_get_optional [where f = "gm_get ch" and g = "\<lambda>x. x"] by (simp add: canonChildren_def nibble_range_iff option.map_ident)

lemma gm_wf_canonChildren: "gm_wf (canonChildren ch)"
  using gm_wf_optional [OF distinct_nibble_range, where f = "gm_get ch" and g = "\<lambda>x. x"] by (simp only: canonChildren_def)

lemma writeChildren_canon: "writeChildren ch = concat (map (\<lambda>(n, h). n # h) (canonChildren ch))"
proof -
  have "concat (map (\<lambda>n. case gm_get ch n of Some h \<Rightarrow> n # h | None \<Rightarrow> []) ns)
      = concat (map (\<lambda>(n, h). n # h) (concat (map (\<lambda>n. case gm_get ch n of Some h \<Rightarrow> [(n, h)] | None \<Rightarrow> []) ns)))" for ns
    by (induction ns) (auto split: option.split)
  then show ?thesis by (simp add: writeChildren_def canonChildren_def)
qed

lemma set_canonChildren:
  assumes "wf_sibling s" and "nibble_children s"
  shows "set (canonChildren (sb_Children s)) = set (sb_Children s)"
proof -
  have "set (canonChildren (sb_Children s)) = {(n, h). n \<in> set nibble_range \<and> gm_get (sb_Children s) n = Some h}"
    using set_optional [where f = "gm_get (sb_Children s)" and g = "\<lambda>x. x" and xs = nibble_range] by (auto simp: canonChildren_def)
  also have "\<dots> = set (sb_Children s)"
    using assms by (force simp: nibble_range_iff wf_sibling_def nibble_children_def)
  finally show ?thesis .
qed

lemma length_canonChildren:
  assumes "wf_sibling s" and "nibble_children s"
  shows "length (canonChildren (sb_Children s)) = length (sb_Children s)"
proof -
  have "distinct (canonChildren (sb_Children s))" "distinct (sb_Children s)"
    using gm_wf_canonChildren [of "sb_Children s"] assms(1) by (auto simp: wf_sibling_def distinct_map)
  then show ?thesis using set_canonChildren [OF assms] by (metis distinct_card)
qed

lemma gm_put_fresh: "k \<notin> fst ` set m \<Longrightarrow> gm_put k v m = m @ [(k, v)]"
  by (induction m) auto

lemma readChildren_back:
  assumes "\<forall>h \<in> snd ` set cs. wf_hash h" and "gm_wf (acc @ cs)"
  shows "readChildren (pre @ concat (map (\<lambda>(n, h). n # h) cs) @ post) (length pre) (length cs) acc
    = Inr (acc @ cs, length pre + length (concat (map (\<lambda>(n, h). n # h) cs)))"
  using assms
proof (induction cs arbitrary: pre acc)
  case (Cons c cs)
  obtain n h where c: "c = (n, h)" by (cases c)
  have h: "length h = 32" using Cons.prems(1) by (simp add: c wf_hash_def HashSize_def)
  have "gm_put n h acc = acc @ [(n, h)]" using Cons.prems(2) by (intro gm_put_fresh) (auto simp: c)
  moreover have "readChildren ((pre @ n # h) @ concat (map (\<lambda>(n, h). n # h) cs) @ post) (length (pre @ n # h)) (length cs) (acc @ [(n, h)])
      = Inr ((acc @ [(n, h)]) @ cs, length (pre @ n # h) + length (concat (map (\<lambda>(n, h). n # h) cs)))"
    using Cons.prems c by (intro Cons.IH) auto
  ultimately show ?case using h by (simp add: c read_simps add.assoc)
qed simp

lemma readSiblings_back:
  assumes "\<forall>s \<in> set ss. wf_sibling s \<and> nibble_children s \<and> 0 \<le> sb_Depth s \<and> sb_Depth s \<le> int MaxTreeDepth"
  shows "readSiblings msg (pre @ concat (map writeSibling ss) @ post) (length pre) (length ss)
    = Inr (map canonSibling ss, length pre + length (concat (map writeSibling ss)))"
  using assms
proof (induction ss arbitrary: pre)
  case (Cons s ss)
  let ?cs = "canonChildren (sb_Children s)"
  let ?hd = "be_put 2 (word_of_int (sb_Depth s) :: u16) @ [sb_Nibble s] @ be_put 2 (of_nat (length (sb_Children s)) :: u16)"
  let ?ch = "concat (map (\<lambda>(n, h). n # h) ?cs)" and ?rest = "concat (map writeSibling ss) @ post"
  have s: "wf_sibling s" "nibble_children s" "0 \<le> sb_Depth s" "sb_Depth s \<le> int MaxTreeDepth" using Cons.prems by simp_all
  have len: "length (sb_Children s) = length ?cs" using length_canonChildren [OF s(1,2)] by simp
  have "length ?cs \<le> 16"
  proof -
    have "length ?cs = card (fst ` set ?cs)" using gm_wf_canonChildren [of "sb_Children s"] by (metis distinct_card length_map list.set_map)
    also have "\<dots> \<le> card (set nibble_range)" using s(2) unfolding set_canonChildren [OF s(1,2)]
      by (intro card_mono) (auto simp: nibble_range_iff nibble_children_def)
    also have "\<dots> = 16" by (simp add: distinct_card distinct_nibble_range) (simp add: nibble_range_def)
    finally show ?thesis .
  qed
  then have n: "unat (of_nat (length (sb_Children s)) :: u16) = length ?cs" unfolding len by (intro unat_of_nat_u16) simp
  have ch: "readChildren ((pre @ ?hd) @ ?ch @ ?rest) (length (pre @ ?hd)) (length ?cs) [] = Inr ([] @ ?cs, length (pre @ ?hd) + length ?ch)"
    using s(1) gm_wf_canonChildren [of "sb_Children s"] set_canonChildren [OF s(1,2)]
    by (intro readChildren_back) (simp_all add: wf_sibling_def)
  have off: "length (pre @ ?hd @ ?ch) = length pre + (5 + length ?ch)" by simp
  have "readSiblings msg ((pre @ ?hd @ ?ch) @ ?rest) (length (pre @ ?hd @ ?ch)) (length ss)
      = Inr (map canonSibling ss, length (pre @ ?hd @ ?ch) + length (concat (map writeSibling ss)))"
    using Cons.prems by (intro Cons.IH) simp
  note rest = this [unfolded off]
  have sib: "canonSibling s = \<lparr>sb_Depth = sb_Depth s, sb_Nibble = sb_Nibble s, sb_Hash = EmptyHash, sb_Children = ?cs\<rparr>"
    by (simp add: canonSibling_def)
  show ?case
    using ch rest s(3,4) unfolding sib list.map
    by (simp add: writeSibling_def writeChildren_canon read_simps n uint_depth add.assoc del: idx_in)
qed simp

section \<open>Round trips\<close>

lemma validSiblings_bounds:
  "validSiblings prev ss = Inr () \<Longrightarrow> (case prev of None \<Rightarrow> -1 | Some d \<Rightarrow> d) + int (length ss) \<le> int MaxTreeDepth \<or> ss = []"
  by (induction prev ss rule: validSiblings.induct) (force split: if_splits option.splits)+

lemma validSiblings_depth: "validSiblings prev ss = Inr () \<Longrightarrow> s \<in> set ss \<Longrightarrow> 0 \<le> sb_Depth s \<and> sb_Depth s \<le> int MaxTreeDepth"
  by (induction prev ss rule: validSiblings.induct) (auto split: if_splits)

lemma valid_count: "validSiblings None ss = Inr () \<Longrightarrow> length ss < 2 ^ 16"
  using validSiblings_bounds [of None ss] by (auto simp: MaxTreeDepth_def)

lemma validSiblings_canon [simp]: "validSiblings prev (map canonSibling ss) = validSiblings prev ss"
  by (induction prev ss rule: validSiblings.induct) (auto split: option.splits)

lemma Proof_IsValid_canon [simp]: "Proof_IsValid (canonProof p) = Proof_IsValid p"
  by (simp add: Proof_IsValid_def split: option.split)

lemma valid_siblings: "Proof_IsValid p = Inr () \<Longrightarrow> validSiblings None (pf_Siblings p) = Inr ()"
  by (auto simp: Proof_IsValid_def bindE_eq_Inr)

text \<open>A proof that fits the length fields and whose sibling maps only have nibbles as keys.\<close>

definition encodable :: "Proof \<Rightarrow> bool" where
  "encodable p \<longleftrightarrow> wf_proof p \<and> (\<forall>s \<in> set (pf_Siblings p). nibble_children s) \<and> length (valueBytes p) < 2 ^ 32
     \<and> (\<forall>nb. pf_NeighborLeaf p = Some nb \<longrightarrow> length (nb_Path nb) < 2 ^ 16)"

lemma readSiblingList_back:
  assumes "Proof_IsValid p = Inr ()" and "encodable p"
  shows "readSiblingList msg (pre @ writeSiblings (pf_Siblings p) @ post) (length pre)
    = Inr (pf_Siblings (canonProof p), length pre + length (writeSiblings (pf_Siblings p)))"
proof -
  let ?n = "be_put 2 (of_nat (length (pf_Siblings p)) :: u16)" and ?ss = "pf_Siblings p"
  note v = valid_siblings [OF assms(1)]
  have off: "length (pre @ ?n) = length pre + 2" by simp
  have "readSiblings msg ((pre @ ?n) @ concat (map writeSibling ?ss) @ post) (length (pre @ ?n)) (length ?ss)
      = Inr (map canonSibling ?ss, length (pre @ ?n) + length (concat (map writeSibling ?ss)))"
    using assms(2) validSiblings_depth [OF v] by (intro readSiblings_back) (simp add: encodable_def wf_proof_def)
  note r = this [unfolded off]
  show ?thesis using r valid_count [OF v]
    by (simp add: readSiblingList_def writeSiblings_def read_simps unat_of_nat_u16 canonProof_def add.assoc)
qed

lemma valid_typeE:
  assumes "Proof_IsValid p = Inr ()"
  obtains (incl) val where "pf_Type p = ProofTypeInclusion" "pf_Value p = Some val" "pf_NeighborLeaf p = None"
    | (neigh) nb where "pf_Type p = ProofTypeExclusionNeighbor" "pf_Value p = None" "pf_NeighborLeaf p = Some nb" "validNeighbor nb = Inr ()"
    | (empty) "pf_Type p = ProofTypeExclusionEmpty" "pf_Value p = None" "pf_NeighborLeaf p = None"
  using assms by (auto simp: Proof_IsValid_def bindE_eq_Inr split: if_splits option.splits)

lemma encodableI:
  assumes "Proof_IsValid p = Inr ()" and "wf_proof p" and "\<forall>s \<in> set (pf_Siblings p). nibble_children s"
    and "writeTypeData p = Inr d" and "length d \<le> MaxProofSize"
  shows "encodable p"
  using assms(1)
proof (cases rule: valid_typeE)
  case (incl val)
  with assms show ?thesis by (auto simp: encodable_def writeTypeData_def valueBytes_def MaxProofSize_def)
next
  case (neigh nb)
  with assms show ?thesis by (auto simp: encodable_def writeTypeData_def writeNeighbor_def valueBytes_def MaxProofSize_def proofType_defs)
next
  case empty
  with assms show ?thesis by (auto simp: encodable_def valueBytes_def)
qed

lemma writeTypeData_total: "Proof_IsValid p = Inr () \<Longrightarrow> \<exists>d. writeTypeData p = Inr d"
  by (erule valid_typeE) (auto simp: writeTypeData_def proofType_defs)

lemma readTypeData_back:
  assumes v: "Proof_IsValid p = Inr ()" and e: "encodable p" and w: "writeTypeData p = Inr d"
  shows "readTypeData (pf_Type p) (pre @ d @ post) (length pre) = Inr (pf_Value p, pf_NeighborLeaf p, length pre + length d)"
  using v
proof (cases rule: valid_typeE)
  case (incl val)
  have "readValue (pre @ be_put 4 (of_nat (length val) :: u32) @ val @ post) (length pre) = Inr (val, length pre + 4 + length val)"
    using e incl by (intro readValue_back) (simp add: encodable_def valueBytes_def)
  with w incl show ?thesis by (auto simp: readTypeData_def writeTypeData_def valueBytes_def add.assoc)
next
  case (neigh nb)
  then have "0 \<le> nb_DivergeDepth nb" "nb_DivergeDepth nb \<le> int MaxTreeDepth"
    by (auto simp: validNeighbor_def bindE_eq_Inr split: if_splits)
  moreover have "wf_neighbor nb" "length (nb_Path nb) < 2 ^ 16" using e neigh by (auto simp: encodable_def wf_proof_def)
  ultimately have "readNeighbor (pre @ writeNeighbor nb @ post) (length pre) = Inr (nb, length pre + length (writeNeighbor nb))"
    by (intro readNeighbor_back)
  with w neigh show ?thesis by (auto simp: readTypeData_def writeTypeData_def proofType_defs)
next
  case empty
  with w show ?thesis by (simp add: readTypeData_def writeTypeData_def proofType_defs)
qed

lemma Decode_Encode:
  assumes e: "Encode p = Inr bs" and wf: "wf_proof p" and ch: "\<forall>s \<in> set (pf_Siblings p). nibble_children s"
  shows "Decode bs = Inr (canonProof p)"
proof -
  have v: "Proof_IsValid p = Inr ()" using e by (auto simp: Encode_def split: sum.splits)
  let ?hd = "[pf_Type p] @ pf_Key p @ be_put 8 (pf_Version p) @ pf_RootHash p"
  obtain d where d: "writeTypeData p = Inr d" and bs: "bs = ?hd @ d @ writeSiblings (pf_Siblings p)" and size: "length bs \<le> MaxProofSize"
    using e v by (auto simp: Encode_def bindE_eq_Inr Let_def split: if_splits)
  have len: "length (pf_Key p) = 32" "length (pf_RootHash p) = 32"
    using wf by (simp_all add: wf_proof_def wf_key_def wf_hash_def size_defs)
  have enc: "encodable p" using size bs by (intro encodableI [OF v wf ch d]) simp
  have hd: "length ?hd = 73" using len by simp
  note td = readTypeData_back [OF v enc d, of ?hd "writeSiblings (pf_Siblings p)", unfolded hd]
  have hd2: "length (?hd @ d) = 73 + length d" using len by simp
  note sl = readSiblingList_back [OF v enc, of _ "?hd @ d" "[]", unfolded hd2]
  have ty: "pf_Type p = ProofTypeInclusion \<or> pf_Type p = ProofTypeExclusionNeighbor \<or> pf_Type p = ProofTypeExclusionEmpty"
    using v by (rule valid_typeE) auto
  have rebuild: "\<lparr>pf_Type = pf_Type p, pf_Key = pf_Key p, pf_Value = pf_Value p, pf_NeighborLeaf = pf_NeighborLeaf p,
      pf_Siblings = map canonSibling (pf_Siblings p), pf_RootHash = pf_RootHash p, pf_Version = pf_Version p\<rparr> = canonProof p"
    by (cases p) (simp add: canonProof_def)
  show ?thesis using td sl ty len v by (auto simp: Decode_def bs read_simps rebuild Let_def)
qed

lemma Decompress_Compress:
  assumes c: "CompressProof H gzip p = Inr cp" and e: "encodable p" and gz: "\<And>x. gunzip (gzip x) = Inr x"
  shows "DecompressProof H gunzip cp = Inr (canonProof p)"
proof -
  have v: "Proof_IsValid p = Inr ()" using c by (auto simp: CompressProof_def bindE_eq_Inr)
  let ?tl = "be_put 8 (pf_Version p) @ pf_RootHash p"
  obtain d where d: "writeTypeData p = Inr d" using writeTypeData_total [OF v] by blast
  let ?buf = "pf_Key p @ d @ writeSiblings (pf_Siblings p) @ ?tl"
  have cp: "cp = \<lparr>cp_Type = pf_Type p, cp_KeyHash = H (pf_Key p), cp_CompressedData = gzip ?buf\<rparr>"
    using c v d by (auto simp: CompressProof_def Let_def split: if_splits)
  have len: "length (pf_Key p) = 32" "length (pf_RootHash p) = 32"
    using e by (simp_all add: encodable_def wf_proof_def wf_key_def wf_hash_def size_defs)
  note td = readTypeData_back [OF v e d, of "pf_Key p" "writeSiblings (pf_Siblings p) @ ?tl", unfolded len]
  have hd2: "length (pf_Key p @ d) = 32 + length d" using len by simp
  note sl = readSiblingList_back [OF v e, of _ "pf_Key p @ d" ?tl, unfolded hd2]
  have rebuild: "\<lparr>pf_Type = pf_Type p, pf_Key = pf_Key p, pf_Value = pf_Value p, pf_NeighborLeaf = pf_NeighborLeaf p,
      pf_Siblings = map canonSibling (pf_Siblings p), pf_RootHash = pf_RootHash p, pf_Version = pf_Version p\<rparr> = canonProof p"
    by (cases p) (simp add: canonProof_def)
  show ?thesis using td sl len v by (simp add: DecompressProof_def cp gz read_simps rebuild Let_def)
qed

text \<open>The verifier does not see the difference between a proof and its canonical form.\<close>

lemma siblingNode_canon [simp]: "siblingNode t cur (canonSibling s) = siblingNode t cur s"
  unfolding siblingNode_eq by (rule internal_preimage_cong) (simp add: filled_def gm_get_canonChildren)

lemma rebuild_canon [simp]: "rebuild H path e d (map canonSibling ss) h = rebuild H path e d ss h"
  by (induction H path e d ss h rule: rebuild.induct) simp_all

lemma reconstructRoot_canon [simp]: "reconstructRoot H k h (map canonSibling ss) ty = reconstructRoot H k h ss ty"
  by (simp add: reconstructRoot_def rev_map)

lemma verifyExclusionNeighbor_canon [simp]: "verifyExclusionNeighbor H (canonProof p) = verifyExclusionNeighbor H p"
  unfolding verifyExclusionNeighbor_def by (cases "pf_NeighborLeaf p") simp_all

lemma Verify_canon [simp]: "Verify H (canonProof p) = Verify H p"
  by (simp add: Verify_def verifyInclusion_def verifyExclusionEmpty_def)

section \<open>Decoding arbitrary bytes\<close>

definition no_panic :: "'a result \<Rightarrow> bool" where
  "no_panic r \<longleftrightarrow> (\<forall>e. r = Inl e \<longrightarrow> \<not> is_panic e)"

lemma no_panic_simps [simp]: "no_panic (Inr x)" "no_panic (Inl e) \<longleftrightarrow> \<not> is_panic e"
  by (auto simp: no_panic_def)

lemma no_panic_bind: "no_panic r \<Longrightarrow> (\<And>x. r = Inr x \<Longrightarrow> no_panic (f x)) \<Longrightarrow> no_panic (bindE r f)"
  by (cases r) auto

lemma sub_in: "i \<le> j \<Longrightarrow> j \<le> length data \<Longrightarrow> sub data i j = Inr (slice data i j)"
  by (simp add: sub_def)

lemma length_sub: "sub data i j = Inr x \<Longrightarrow> length x = j - i"
  by (auto simp: sub_def split: if_splits)

lemma readValue_safe: "no_panic (readValue data offset)"
  by (simp add: readValue_def sub_in Let_def)

lemma readPath_safe: "offset + n \<le> length data \<Longrightarrow> \<exists>ns. readPath data offset n = Inr (ns, offset + n)"
proof (induction n arbitrary: offset)
  case (Suc n)
  from Suc.IH [of "offset + 1"] Suc.prems show ?case by auto
qed simp

lemma readNeighbor_safe:
  "no_panic (readNeighbor data offset)" "readNeighbor data offset = Inr (nb, off) \<Longrightarrow> wf_neighbor nb"
proof -
  let ?n = "unat (be_get (slice data (offset + 66) (offset + 68)) :: u16)"
  have "no_panic (readNeighbor data offset) \<and> (readNeighbor data offset = Inr (nb, off) \<longrightarrow> wf_neighbor nb)"
  proof (cases "length data < offset + 32 + 32 + 2 + 2 \<or> length data < offset + 68 + ?n")
    case True
    then show ?thesis by (auto simp: readNeighbor_def sub_in Let_def)
  next
    case False
    then obtain ns where "readPath data (offset + 68) ?n = Inr (ns, offset + 68 + ?n)" using readPath_safe [of "offset + 68" ?n data] by auto
    with False show ?thesis by (auto simp: readNeighbor_def sub_in Let_def wf_neighbor_def wf_key_def wf_hash_def size_defs)
  qed
  then show "no_panic (readNeighbor data offset)" "readNeighbor data offset = Inr (nb, off) \<Longrightarrow> wf_neighbor nb" by blast+
qed

lemma gm_put_values: "\<forall>h \<in> snd ` set m. P h \<Longrightarrow> P v \<Longrightarrow> \<forall>h \<in> snd ` set (gm_put k v m). P h"
  by (induction m) auto

lemma readChildren_safe: "no_panic (readChildren data offset n cs)"
  by (induction data offset n cs rule: readChildren.induct) (auto simp: sub_in)

lemma readChildren_wf:
  assumes "readChildren data offset n cs = Inr (cs', off)" and "gm_wf cs" and "\<forall>h \<in> snd ` set cs. wf_hash h"
  shows "gm_wf cs' \<and> (\<forall>h \<in> snd ` set cs'. wf_hash h)"
  using assms
proof (induction n arbitrary: offset cs)
  case (Suc n)
  have len: "offset + 33 \<le> length data"
  proof (rule ccontr)
    assume "\<not> offset + 33 \<le> length data"
    with Suc.prems(1) show False by simp
  qed
  let ?h = "slice data (offset + 1) (offset + 33)"
  have rd: "readChildren data (offset + 33) n (gm_put (data ! offset) ?h cs) = Inr (cs', off)"
    using Suc.prems(1) len by (simp add: sub_in)
  have "wf_hash ?h" using len by (simp add: wf_hash_def HashSize_def)
  with Suc.prems(3) have "\<forall>h \<in> snd ` set (gm_put (data ! offset) ?h cs). wf_hash h" by (rule gm_put_values)
  with gm_wf_put [OF Suc.prems(2)] show ?case by (rule Suc.IH [OF rd])
qed simp

lemma readSiblings_safe: "no_panic (readSiblings msg data offset n)"
proof (induction msg data offset n rule: readSiblings.induct)
  case (2 msg data offset i)
  show ?case
  proof (cases "length data < offset + 2 + 1 + 2")
    case False
    then show ?thesis using 2 readChildren_safe by (auto simp: sub_in intro!: no_panic_bind split: prod.split)
  qed simp
qed simp

lemma readSiblings_wf: "readSiblings msg data offset n = Inr (ss, off) \<Longrightarrow> \<forall>s \<in> set ss. wf_sibling s"
proof (induction msg data offset n arbitrary: ss off rule: readSiblings.induct)
  case (2 msg data offset i)
  then obtain s cs rest off1 off2 where ss: "ss = s # rest" "sb_Hash s = EmptyHash" "sb_Children s = cs"
    and rd: "readChildren data (offset + 5) (unat (be_get (slice data (offset + 3) (offset + 5)) :: u16)) [] = Inr (cs, off1)"
      "readSiblings msg data off1 i = Inr (rest, off2)" and len: "\<not> length data < offset + 5"
    by (auto simp: bindE_eq_Inr sub_in split: if_splits)
  have "wf_sibling s" using readChildren_wf [OF rd(1)] ss by (simp add: wf_sibling_def)
  moreover have "\<forall>s \<in> set rest. wf_sibling s" using 2 rd len by (auto simp: sub_in)
  ultimately show ?case using ss by simp
qed simp

lemma Proof_IsValid_safe: "no_panic (Proof_IsValid p)"
proof -
  have "no_panic (validSiblings prev ss)" for prev ss by (induction prev ss rule: validSiblings.induct) auto
  moreover have "no_panic (ValidateKey k)" for k by (simp add: ValidateKey_def)
  ultimately show ?thesis
    by (auto simp: Proof_IsValid_def validNeighbor_def intro!: no_panic_bind split: option.split)
qed

lemma readTypeData_safe:
  "no_panic (readTypeData ty data offset)"
  "readTypeData ty data offset = Inr (val, nb, off) \<Longrightarrow> (\<forall>n. nb = Some n \<longrightarrow> wf_neighbor n)"
  using readValue_safe readNeighbor_safe
  by (auto simp: readTypeData_def bindE_eq_Inr intro!: no_panic_bind split: if_splits)

lemma readSiblingList_safe:
  "no_panic (readSiblingList msg data offset)"
  "readSiblingList msg data offset = Inr (ss, off) \<Longrightarrow> \<forall>s \<in> set ss. wf_sibling s"
  using readSiblings_safe readSiblings_wf by (auto simp: readSiblingList_def sub_in split: if_splits)

lemma Decode_safe: "no_panic (Decode data)"
proof (cases "length data < 1 + 32 + 8 + 32")
  case False
  have "no_panic (case Proof_IsValid p of Inl err \<Rightarrow> Inl (wrapE msg err) | Inr _ \<Rightarrow> Inr q)" for p msg and q :: Proof
    using Proof_IsValid_safe [of p] by (auto simp: wrapE_def split: sum.split)
  moreover have "idx data 0 = Inr (data ! 0)" using False by (intro idx_in) auto
  ultimately show ?thesis
    using False readTypeData_safe(1) readSiblingList_safe(1)
    by (auto simp: Decode_def sub_in Let_def intro!: no_panic_bind)
qed (simp add: Decode_def)

lemma checked_Inr:
  "(case Proof_IsValid q of Inl err \<Rightarrow> Inl (f err) | Inr _ \<Rightarrow> Inr q) = Inr p \<longleftrightarrow> q = p \<and> Proof_IsValid p = Inr ()"
  by (cases "Proof_IsValid q") auto

lemma Decode_wf:
  assumes "Decode data = Inr p"
  shows "wf_proof p \<and> Proof_IsValid p = Inr ()"
proof -
  have "\<not> length data < 73" using assms by (auto simp: Decode_def split: if_splits)
  with assms show ?thesis
    using readTypeData_safe(2) readSiblingList_safe(2)
    by (auto simp: Decode_def sub_in Let_def bindE_eq_Inr wf_proof_def wf_key_def wf_hash_def size_defs checked_Inr split: if_splits)
qed

section \<open>Properties\<close>

text \<open>An example: a proof with one sibling at the given depth.\<close>

definition smallProof :: "int \<Rightarrow> Proof" where
  "smallProof d = \<lparr>pf_Type = ProofTypeExclusionEmpty, pf_Key = replicate 32 0x11, pf_Value = None, pf_NeighborLeaf = None,
     pf_Siblings = [\<lparr>sb_Depth = d, sb_Nibble = 1, sb_Hash = EmptyHash, sb_Children = [(9, replicate 32 7), (3, replicate 32 5)]\<rparr>],
     pf_RootHash = replicate 32 8, pf_Version = 4\<rparr>"

lemma smallProof_ok: "wf_proof (smallProof d)" "\<forall>s \<in> set (pf_Siblings (smallProof d)). nibble_children s" "encodable (smallProof d)"
proof -
  show wf: "wf_proof (smallProof d)" by (simp add: smallProof_def wf_proof_def wf_sibling_def wf_key_def wf_hash_def size_defs EmptyHash_def)
  show ch: "\<forall>s \<in> set (pf_Siblings (smallProof d)). nibble_children s"
    by (simp add: smallProof_def nibble_children_def MaxNibbleValue_def)
  show "encodable (smallProof d)" using wf ch by (simp add: encodable_def) (simp add: smallProof_def valueBytes_def)
qed

lemma smallProof_valid: "0 \<le> d \<Longrightarrow> d \<le> 64 \<Longrightarrow> Proof_IsValid (smallProof d) = Inr ()"
proof -
  have "replicate 32 0x11 \<noteq> emptyKey" by code_simp
  then show "0 \<le> d \<Longrightarrow> d \<le> 64 \<Longrightarrow> Proof_IsValid (smallProof d) = Inr ()"
    by (simp add: smallProof_def Proof_IsValid_def ValidateKey_def Key_IsEmpty_def proofType_defs MaxTreeDepth_def MaxNibbleValue_def)
qed

lemma smallProof_encodes: "0 \<le> d \<Longrightarrow> d \<le> 64 \<Longrightarrow> \<exists>bs. Encode (smallProof d) = Inr bs"
  using smallProof_valid [of d]
  by (auto simp: Encode_def writeTypeData_def smallProof_def proofType_defs writeSiblings_def writeSibling_def writeChildren_def
      nibble_range_def MaxProofSize_def Let_def)

text \<open>
  C35: the binary form of a proof. Decoding what \<open>Encode\<close> produced gives the proof back up to the unused sibling hashes and the
  order of the children, and the verifier returns the same for both; the bytes never exceed \<open>MaxProofSize\<close>.
\<close>

theorem proof_codec_roundtrip:
  assumes "Encode p = Inr bs" and "wf_proof p" and "\<forall>s \<in> set (pf_Siblings p). nibble_children s"
  shows "Decode bs = Inr (canonProof p) \<and> Verify H (canonProof p) = Verify H p \<and> length bs \<le> MaxProofSize"
  using Decode_Encode [OF assms] assms(1)
  by (auto simp: Encode_def bindE_eq_Inr Let_def split: sum.splits if_splits)

theorem proof_codec_roundtrip_witness: "\<exists>bs. Encode (smallProof 0) = Inr bs \<and> Decode bs = Inr (canonProof (smallProof 0))"
proof -
  obtain bs where "Encode (smallProof 0) = Inr bs" using smallProof_encodes [of 0] by auto
  with proof_codec_roundtrip [OF this smallProof_ok(1,2)] show ?thesis by blast
qed

text \<open>
  The compressed form of a proof. With a compression library that gives back what it compressed, decompressing a
  compressed proof gives the same proof as above, and the verifier returns the same for it.
\<close>

theorem compressed_proof_roundtrip:
  assumes "\<And>x. gunzip (gzip x) = Inr x" and "encodable p" and "CompressProof H gzip p = Inr cp"
  shows "DecompressProof H gunzip cp = Inr (canonProof p) \<and> Verify H (canonProof p) = Verify H p"
  using Decompress_Compress [OF assms(3,2,1)] by simp

theorem compressed_proof_roundtrip_witness:
  "\<exists>cp. CompressProof DefaultSHA256_Hash (\<lambda>x. 0x1f # x) (smallProof 0) = Inr cp \<and> DecompressProof DefaultSHA256_Hash (\<lambda>x. Inr (tl x)) cp = Inr (canonProof (smallProof 0))"
proof -
  have "\<exists>cp. CompressProof DefaultSHA256_Hash (\<lambda>x. 0x1f # x) (smallProof 0) = Inr cp"
    using smallProof_valid [of 0]
    by (auto simp: CompressProof_def writeTypeData_def smallProof_def proofType_defs writeSiblings_def writeSibling_def writeChildren_def
        nibble_range_def MaxProofSize_def Let_def)
  then obtain cp where "CompressProof DefaultSHA256_Hash (\<lambda>x. 0x1f # x) (smallProof 0) = Inr cp" ..
  with compressed_proof_roundtrip [OF _ smallProof_ok(3) this, of "\<lambda>x. Inr (tl x)"] show ?thesis by simp
qed

text \<open>
  C36: decoding untrusted bytes. Whatever the bytes, \<open>Decode\<close> does not panic, and a proof it returns is valid and well-formed.
\<close>

theorem decode_untrusted: "no_panic (Decode data) \<and> (\<forall>p. Decode data = Inr p \<longrightarrow> wf_proof p \<and> Proof_IsValid p = Inr ())"
  using Decode_safe Decode_wf by blast

theorem decode_untrusted_witness: "\<exists>bs. Decode bs = Inr (canonProof (smallProof 0)) \<and> wf_proof (canonProof (smallProof 0))"
proof -
  obtain bs where bs: "Encode (smallProof 0) = Inr bs" using smallProof_encodes [of 0] by auto
  then have "Decode bs = Inr (canonProof (smallProof 0))" using Decode_Encode [OF bs smallProof_ok(1,2)] by simp
  with decode_untrusted [of bs] show ?thesis by blast
qed

text \<open>
  C37: verifying untrusted proofs. There are bytes that decode into a proof that the validation accepts, and on which the
  verifier panics with every hash function: a sibling at depth 64.
\<close>

theorem verify_untrusted_panics: "\<exists>bs p. Decode bs = Inr p \<and> Proof_IsValid p = Inr () \<and> Verify H p = Inl (Panic ''index out of range'')"
proof -
  obtain bs where bs: "Encode (smallProof 64) = Inr bs" using smallProof_encodes [of 64] by auto
  then have "Decode bs = Inr (canonProof (smallProof 64))" using Decode_Encode [OF bs smallProof_ok(1,2)] by simp
  moreover have "Verify H (smallProof 64) = Inl (Panic ''index out of range'')"
    using smallProof_valid [of 64] smallProof_ok(1) [of 64]
    by (intro depth_64_panics) (simp_all add: wf_proof_def, simp_all add: smallProof_def MaxTreeDepth_def)
  ultimately show ?thesis using smallProof_valid [of 64] by (metis Proof_IsValid_canon Verify_canon zero_le_numeral order_refl)
qed

text \<open>
  The limit on proofs is smaller than the limit on values. A valid inclusion proof of a value longer than \<open>MaxProofSize\<close>
  (10 KB) cannot be encoded, although the tree accepts values up to \<open>MaxValueSize\<close> (1 MB).
\<close>

theorem large_value_unencodable:
  assumes "Proof_IsValid p = Inr ()" and "pf_Type p = ProofTypeInclusion" and "pf_Value p = Some val" and "length val > MaxProofSize"
  shows "Encode p = Inl (Errorf ''encoded proof exceeds maximum size'') \<and> MaxProofSize < MaxValueSize"
  using assms by (simp add: Encode_def writeTypeData_def valueBytes_def) (simp add: MaxProofSize_def MaxValueSize_def)

theorem large_value_unencodable_witness:
  "Encode ((smallProof 0)\<lparr>pf_Type := ProofTypeInclusion, pf_Value := Some (replicate 10241 1)\<rparr>)
     = Inl (Errorf ''encoded proof exceeds maximum size'')"
proof -
  let ?p = "(smallProof 0)\<lparr>pf_Type := ProofTypeInclusion, pf_Value := Some (replicate 10241 1)\<rparr>"
  have "Proof_IsValid ?p = Inr ()"
    using smallProof_valid [of 0] by (auto simp: Proof_IsValid_def smallProof_def bindE_eq_Inr proofType_defs split: if_splits)
  from large_value_unencodable [OF this] show ?thesis by (simp add: MaxProofSize_def)
qed

end
