(* ===== verification/BatchTransactions.thy ===== *)
theory BatchTransactions
  imports TreeRuns
begin

text \<open>
  Batch transactions: \<^verbatim>\<open>pkg/tree/batch_transaction.go\<close>. A transaction collects operations and remembers, for
  every key, the index of the latest one; \<open>Execute\<close> runs the latest operation of every key, in the original
  order, in one new version, and aborts the version if one fails. The tree that a transaction points to is an
  argument of the operations. Shown here: the deduplicated operations have the effect of all of them, and
  \<open>Execute\<close> is atomic.
\<close>

section \<open>Operations\<close>

type_synonym BatchOpType = int

definition BatchOpPut :: BatchOpType where "BatchOpPut = 0"
definition BatchOpDelete :: BatchOpType where "BatchOpDelete = 1"

record BatchOperation =
  op_Type :: BatchOpType
  op_Key :: key
  op_Value :: "bytes option"

record BatchTransaction =
  bt_operations :: "BatchOperation list"
  bt_keyOps :: "(key, nat) gomap"

definition NewBatchTransaction :: BatchTransaction where
  "NewBatchTransaction = \<lparr>bt_operations = [], bt_keyOps = []\<rparr>"

definition addOperation :: "BatchOperation \<Rightarrow> BatchTransaction \<Rightarrow> BatchTransaction" where
  "addOperation x bt = \<lparr>bt_operations = bt_operations bt @ [x], bt_keyOps = gm_put (op_Key x) (length (bt_operations bt)) (bt_keyOps bt)\<rparr>"

definition BatchPut :: "key \<Rightarrow> bytes option \<Rightarrow> BatchTransaction \<Rightarrow> unit result \<times> BatchTransaction" where
  "BatchPut key val bt =
     (case validateKey key of
        Inl err \<Rightarrow> (Inl (wrapE ''invalid key'' err), bt)
      | Inr _ \<Rightarrow>
          if val = None then (Inl (Errorf ''value cannot be nil''), bt)
          else (Inr (), addOperation \<lparr>op_Type = BatchOpPut, op_Key = key, op_Value = val\<rparr> bt))"

definition BatchDelete :: "key \<Rightarrow> BatchTransaction \<Rightarrow> unit result \<times> BatchTransaction" where
  "BatchDelete key bt =
     (case validateKey key of
        Inl err \<Rightarrow> (Inl (wrapE ''invalid key'' err), bt)
      | Inr _ \<Rightarrow> (Inr (), addOperation \<lparr>op_Type = BatchOpDelete, op_Key = key, op_Value = None\<rparr> bt))"

definition Size :: "BatchTransaction \<Rightarrow> nat" where
  "Size bt = length (bt_operations bt)"

definition GetOperations :: "BatchTransaction \<Rightarrow> BatchOperation list" where
  "GetOperations bt = bt_operations bt"

definition optimizeOperationsLocked :: "BatchTransaction \<Rightarrow> BatchOperation list" where
  "optimizeOperationsLocked bt =
     (if length (bt_operations bt) = 0 then []
      else let neededIndices = map snd (bt_keyOps bt)
           in map snd (filter (\<lambda>(i, x). i \<in> set neededIndices) (enumerate 0 (bt_operations bt))))"

definition OptimizeOperations :: "BatchTransaction \<Rightarrow> BatchOperation list" where
  "OptimizeOperations bt = optimizeOperationsLocked bt"

text \<open>The loop over the operations, in the version that \<open>Execute\<close> began.\<close>

fun executeOps :: "(bytes \<Rightarrow> hash) \<Rightarrow> version \<Rightarrow> BatchOperation list \<Rightarrow> Tree \<Rightarrow> unit result \<times> Tree" where
  "executeOps H version [] t = (Inr (), t)"
| "executeOps H version (x # xs) t =
     (if op_Type x = BatchOpPut then
        (case PutVersioned H version (op_Key x) (case op_Value x of Some v \<Rightarrow> v | None \<Rightarrow> []) t of
           (Inl err, t1) \<Rightarrow> abortWith ''operation (put) failed'' version err t1
         | (Inr _, t1) \<Rightarrow> executeOps H version xs t1)
      else if op_Type x = BatchOpDelete then
        (case DeleteVersioned H version (op_Key x) t of
           (Inl err, t1) \<Rightarrow> abortWith ''operation (delete) failed'' version err t1
         | (Inr _, t1) \<Rightarrow> executeOps H version xs t1)
      else (Inl (Errorf ''unknown operation type''), snd (AbortVersion version t)))"

definition Clear :: "BatchTransaction \<Rightarrow> BatchTransaction" where
  "Clear bt = \<lparr>bt_operations = [], bt_keyOps = []\<rparr>"

definition Execute :: "(bytes \<Rightarrow> hash) \<Rightarrow> int \<Rightarrow> BatchTransaction \<Rightarrow> Tree \<Rightarrow> version result \<times> BatchTransaction \<times> Tree" where
  "Execute H now bt t =
     (let operations = optimizeOperationsLocked bt
      in if length operations = 0 then (Inl (Errorf ''no operations in batch''), bt, t)
         else case BeginVersion now t of
                (Inl err, t1) \<Rightarrow> (Inl (wrapE ''failed to begin version'' err), bt, t1)
              | (Inr version, t1) \<Rightarrow>
                  (case executeOps H version operations t1 of
                     (Inl err, t2) \<Rightarrow> (Inl err, bt, t2)
                   | (Inr _, t2) \<Rightarrow>
                       (case CommitVersion H now version t2 of
                          (Inl err, t3) \<Rightarrow> (case abortWith ''failed to commit batch'' version err t3 of (r, t4) \<Rightarrow> (r, bt, t4))
                        | (Inr _, t3) \<Rightarrow> (Inr version, Clear bt, t3))))"

section \<open>Deduplication\<close>

text \<open>The latest operation of every key.\<close>

fun lastOps :: "BatchOperation list \<Rightarrow> BatchOperation list" where
  "lastOps [] = []"
| "lastOps (x # xs) = (if op_Key x \<in> op_Key ` set xs then lastOps xs else x # lastOps xs)"

definition effect :: "BatchOperation \<Rightarrow> vmap \<Rightarrow> vmap" where
  "effect x m = (if op_Type x = BatchOpPut then m(op_Key x \<mapsto> (case op_Value x of Some v \<Rightarrow> v | None \<Rightarrow> []))
     else m(op_Key x := None))"

definition effects :: "BatchOperation list \<Rightarrow> vmap \<Rightarrow> vmap" where
  "effects xs m = fold effect xs m"

lemma effects_simps [simp]: "effects [] m = m" "effects (x # xs) m = effects xs (effect x m)"
  by (simp_all add: effects_def)

lemma effects_overwrite: "k \<in> op_Key ` set xs \<Longrightarrow> effects xs (m(k := z)) = effects xs m"
proof (induction xs arbitrary: m)
  case (Cons x xs)
  show ?case
  proof (cases "op_Key x = k")
    case True
    then have "effect x (m(k := z)) = effect x m" unfolding effect_def by (simp only: fun_upd_upd)
    then show ?thesis by (simp only: effects_simps)
  next
    case False
    then have "effect x (m(k := z)) = (effect x m)(k := z)" by (simp add: effect_def fun_upd_twist)
    moreover have "k \<in> op_Key ` set xs" using Cons.prems False by auto
    ultimately show ?thesis using Cons.IH [of "effect x m"] by (simp only: effects_simps)
  qed
qed simp

lemma effects_lastOps: "effects (lastOps xs) m = effects xs m"
proof (induction xs arbitrary: m)
  case (Cons x xs)
  obtain z where "effect x m = m(op_Key x := z)" by (cases "op_Type x = BatchOpPut") (auto simp: effect_def)
  then show ?case using Cons.IH effects_overwrite [of "op_Key x" xs m z]
    by (cases "op_Key x \<in> op_Key ` set xs") (simp_all only: lastOps.simps effects_simps if_True if_False)
qed simp

lemma set_lastOps: "set (lastOps xs) \<subseteq> set xs"
  by (induction xs) auto

lemma keys_lastOps: "op_Key ` set (lastOps xs) = op_Key ` set xs"
  by (induction xs) auto

lemma distinct_lastOps: "distinct (map op_Key (lastOps xs))"
  using keys_lastOps by (induction xs) auto

lemma lastOps_empty [simp]: "lastOps xs = [] \<longleftrightarrow> xs = []"
  by (induction xs) auto

text \<open>What the transactions that the operations build look like.\<close>

definition bt_inv :: "BatchTransaction \<Rightarrow> bool" where
  "bt_inv bt \<longleftrightarrow> gm_wf (bt_keyOps bt)
     \<and> (\<forall>k i. gm_get (bt_keyOps bt) k = Some i \<longleftrightarrow> i < length (bt_operations bt) \<and> op_Key (bt_operations bt ! i) = k
          \<and> (\<forall>j. i < j \<longrightarrow> j < length (bt_operations bt) \<longrightarrow> op_Key (bt_operations bt ! j) \<noteq> k))
     \<and> (\<forall>x \<in> set (bt_operations bt). op_Key x \<noteq> emptyKey \<and> (op_Type x = BatchOpPut \<and> op_Value x \<noteq> None \<or> op_Type x = BatchOpDelete))"

inductive built :: "BatchTransaction \<Rightarrow> bool" where
  new: "built NewBatchTransaction"
| put: "built bt \<Longrightarrow> BatchPut k v bt = (r, bt') \<Longrightarrow> built bt'"
| del: "built bt \<Longrightarrow> BatchDelete k bt = (r, bt') \<Longrightarrow> built bt'"
| clear: "built bt \<Longrightarrow> built (Clear bt)"

lemma bt_inv_empty: "bt_inv \<lparr>bt_operations = [], bt_keyOps = []\<rparr>"
  by (simp add: bt_inv_def)

lemma bt_inv_add:
  assumes inv: "bt_inv bt" and x: "op_Key x \<noteq> emptyKey" "op_Type x = BatchOpPut \<and> op_Value x \<noteq> None \<or> op_Type x = BatchOpDelete"
  shows "bt_inv (addOperation x bt)"
proof -
  let ?n = "length (bt_operations bt)" and ?ops = "bt_operations bt @ [x]"
  have nth: "?ops ! i = (if i < ?n then bt_operations bt ! i else x)" if "i < Suc ?n" for i using that by (simp add: nth_append)
  have "gm_get (gm_put (op_Key x) ?n (bt_keyOps bt)) k = Some i \<longleftrightarrow> i < length ?ops \<and> op_Key (?ops ! i) = k
      \<and> (\<forall>j. i < j \<longrightarrow> j < length ?ops \<longrightarrow> op_Key (?ops ! j) \<noteq> k)" for k i
  proof (cases "k = op_Key x")
    case True
    then show ?thesis by (auto simp: nth_append less_Suc_eq)
  next
    case False
    then have "gm_get (gm_put (op_Key x) ?n (bt_keyOps bt)) k = gm_get (bt_keyOps bt) k" by simp
    with inv False show ?thesis by (auto simp: bt_inv_def nth_append less_Suc_eq)
  qed
  with inv x show ?thesis unfolding bt_inv_def addOperation_def by (simp del: map_of_eq_Some_iff) 
qed

lemma built_inv: "built bt \<Longrightarrow> bt_inv bt"
proof (induction rule: built.induct)
  case (put bt k v r bt')
  then show ?case by (auto simp: BatchPut_def validateKey_def intro!: bt_inv_add split: if_splits)
next
  case (del bt k r bt')
  then show ?case by (auto simp: BatchDelete_def validateKey_def intro!: bt_inv_add split: if_splits)
qed (simp_all add: NewBatchTransaction_def Clear_def bt_inv_empty)

lemma filter_lastOps:
  assumes "\<And>i. i < length xs \<Longrightarrow> P (n + i) \<longleftrightarrow> op_Key (xs ! i) \<notin> op_Key ` set (drop (Suc i) xs)"
  shows "map snd (filter (\<lambda>(i, x). P i) (enumerate n xs)) = lastOps xs"
  using assms
proof (induction xs arbitrary: n)
  case (Cons x xs)
  have "map snd (filter (\<lambda>(i, x). P i) (enumerate (Suc n) xs)) = lastOps xs"
    using Cons.prems [of "Suc _"] by (intro Cons.IH) simp
  with Cons.prems [of 0] show ?case by simp
qed simp

lemma set_drop_nth: "set (drop n xs) = {xs ! j | j. n \<le> j \<and> j < length xs}"
proof -
  have "drop n xs = map ((!) xs) [n..<length xs]" by (metis drop_map drop_upt map_nth plus_nat.add_0)
  then show ?thesis by auto
qed

lemma optimize_lastOps:
  assumes "bt_inv bt"
  shows "optimizeOperationsLocked bt = lastOps (bt_operations bt)"
proof -
  let ?ops = "bt_operations bt"
  have "0 + i \<in> snd ` set (bt_keyOps bt) \<longleftrightarrow> op_Key (?ops ! i) \<notin> op_Key ` set (drop (Suc i) ?ops)" if i: "i < length ?ops" for i
  proof -
    have inv: "gm_get (bt_keyOps bt) k = Some i \<longleftrightarrow> i < length ?ops \<and> op_Key (?ops ! i) = k
        \<and> (\<forall>j. i < j \<longrightarrow> j < length ?ops \<longrightarrow> op_Key (?ops ! j) \<noteq> k)" for k
      using assms by (simp only: bt_inv_def)
    have "gm_wf (bt_keyOps bt)" using assms by (simp only: bt_inv_def)
    then have "i \<in> snd ` set (bt_keyOps bt) \<longleftrightarrow> (\<exists>k. gm_get (bt_keyOps bt) k = Some i)"
      by (simp only: ran_distinct [symmetric] ran_def mem_Collect_eq)
    also have "\<dots> \<longleftrightarrow> (\<forall>j. i < j \<longrightarrow> j < length ?ops \<longrightarrow> op_Key (?ops ! j) \<noteq> op_Key (?ops ! i))"
      unfolding inv using i by auto
    also have "\<dots> \<longleftrightarrow> op_Key (?ops ! i) \<notin> op_Key ` set (drop (Suc i) ?ops)"
      unfolding set_drop_nth Suc_le_eq image_iff by (simp only: mem_Collect_eq bex_simps) metis
    finally show ?thesis by simp
  qed
  from filter_lastOps [of ?ops "\<lambda>i. i \<in> snd ` set (bt_keyOps bt)" 0, OF this] show ?thesis
    unfolding optimizeOperationsLocked_def Let_def by (cases "?ops = []") simp_all
qed

section \<open>Execution refines the specification\<close>

fun specOps :: "version \<Rightarrow> BatchOperation list \<Rightarrow> spec \<Rightarrow> unit result \<times> spec" where
  "specOps v [] sp = (Inr (), sp)"
| "specOps v (x # xs) sp =
     (if op_Type x = BatchOpPut then
        (case spec_put v (op_Key x) (case op_Value x of Some b \<Rightarrow> b | None \<Rightarrow> []) sp of
           (Inl e, sp1) \<Rightarrow> (Inl (Wrapf ''operation (put) failed'' e), snd (spec_abort v sp1))
         | (Inr _, sp1) \<Rightarrow> specOps v xs sp1)
      else
        (case spec_delete v (op_Key x) sp of
           (Inl e, sp1) \<Rightarrow> (Inl (Wrapf ''operation (delete) failed'' e), snd (spec_abort v sp1))
         | (Inr _, sp1) \<Rightarrow> specOps v xs sp1))"

fun ops_ok :: "version \<Rightarrow> BatchOperation list \<Rightarrow> spec \<Rightarrow> bool" where
  "ops_ok v [] sp = True"
| "ops_ok v (x # xs) sp =
     (wf_key (op_Key x) \<and> (op_Type x = BatchOpPut \<or> op_Type x = BatchOpDelete
          \<and> (case sp_pending sp v of None \<Rightarrow> True | Some (m, b) \<Rightarrow> twinless m (op_Key x)))
      \<and> ops_ok v xs (snd (if op_Type x = BatchOpPut then spec_put v (op_Key x) (case op_Value x of Some b \<Rightarrow> b | None \<Rightarrow> []) sp
          else spec_delete v (op_Key x) sp)))"

lemma spec_put_panic: "spec_put v k val sp = (Inl e, sp1) \<Longrightarrow> \<not> is_panic e"
  by (auto simp: spec_put_def checkPut_def split: sum.splits option.splits if_splits prod.splits)

lemma spec_delete_panic: "spec_delete v k sp = (Inl e, sp1) \<Longrightarrow> \<not> is_panic e"
  by (auto simp: spec_delete_def checkDelete_def split: sum.splits option.splits if_splits prod.splits)

lemma executeOps_refines:
  assumes "tree_rel H sp t" and H: "\<And>x. wf_hash (H x)" and "ops_ok v xs sp"
  shows "fst (executeOps H v xs t) = fst (specOps v xs sp) \<and> tree_rel H (snd (specOps v xs sp)) (snd (executeOps H v xs t))"
  using assms(1,3)
proof (induction xs arbitrary: sp t)
  case (Cons x xs)
  let ?val = "case op_Value x of Some b \<Rightarrow> b | None \<Rightarrow> []"
  have k: "wf_key (op_Key x)" using Cons.prems(2) by simp
  show ?case
  proof (cases "op_Type x = BatchOpPut")
    case True
    note p = put_refines [OF Cons.prems(1) H k, of v ?val]
    obtain r sp1 where sp1: "spec_put v (op_Key x) ?val sp = (r, sp1)" by (cases "spec_put v (op_Key x) ?val sp")
    obtain t1 where t1: "PutVersioned H v (op_Key x) ?val t = (r, t1)" "tree_rel H sp1 t1"
      using p sp1 by (cases "PutVersioned H v (op_Key x) ?val t") simp
    have ok: "ops_ok v xs sp1" using Cons.prems(2) True sp1 by simp
    show ?thesis
    proof (cases r)
      case (Inl e)
      with spec_put_panic [of v "op_Key x" ?val sp e sp1] sp1 have "\<not> is_panic e" by simp
      with Inl True t1 sp1 abort_refines [OF t1(2), of v] show ?thesis by (simp add: abortWith_def)
    next
      case (Inr u)
      with True t1 sp1 Cons.IH [OF t1(2) ok] show ?thesis by simp
    qed
  next
    case False
    have tw: "no_twin (hashed H m) (op_Key x)" if "sp_pending sp v = Some (m, b)" for m b
      using Cons.prems(2) False that by simp
    have ty: "op_Type x = BatchOpDelete" using Cons.prems(2) False by simp
    have d: "fst (DeleteVersioned H v (op_Key x) t) = fst (spec_delete v (op_Key x) sp)
        \<and> tree_rel H (snd (spec_delete v (op_Key x) sp)) (snd (DeleteVersioned H v (op_Key x) t))"
      by (rule delete_refines [OF Cons.prems(1) H k tw])
    obtain r sp1 where sp1: "spec_delete v (op_Key x) sp = (r, sp1)" by (cases "spec_delete v (op_Key x) sp")
    obtain t1 where t1: "DeleteVersioned H v (op_Key x) t = (r, t1)" "tree_rel H sp1 t1"
      using d sp1 by (cases "DeleteVersioned H v (op_Key x) t") simp
    have ok: "ops_ok v xs sp1" using Cons.prems(2) False sp1 by simp
    show ?thesis
    proof (cases r)
      case (Inl e)
      with spec_delete_panic [of v "op_Key x" sp e sp1] sp1 have "\<not> is_panic e" by simp
      with Inl False ty t1 sp1 abort_refines [OF t1(2), of v] show ?thesis by (simp add: abortWith_def)
    next
      case (Inr u)
      with False ty t1 sp1 Cons.IH [OF t1(2) ok] show ?thesis by simp
    qed
  qed
qed simp

text \<open>An operation that succeeds on the contents \<open>m\<close>.\<close>

definition applicable :: "vmap \<Rightarrow> BatchOperation \<Rightarrow> bool" where
  "applicable m x \<longleftrightarrow>
     (if op_Type x = BatchOpPut then \<exists>b. op_Value x = Some b \<and> b \<noteq> [] \<and> length b \<le> MaxValueSize else m (op_Key x) \<noteq> None)"

definition proper :: "BatchOperation \<Rightarrow> bool" where
  "proper x \<longleftrightarrow> wf_key (op_Key x) \<and> op_Key x \<noteq> emptyKey \<and> (op_Type x = BatchOpPut \<and> op_Value x \<noteq> None \<or> op_Type x = BatchOpDelete)"

lemma applicable_effect: "op_Key y \<noteq> op_Key x \<Longrightarrow> applicable (effect x m) y \<longleftrightarrow> applicable m y"
  by (auto simp: applicable_def effect_def)

definition specStep :: "version \<Rightarrow> BatchOperation \<Rightarrow> spec \<Rightarrow> unit result \<times> spec" where
  "specStep v x sp = (if op_Type x = BatchOpPut then spec_put v (op_Key x) (case op_Value x of Some b \<Rightarrow> b | None \<Rightarrow> []) sp
     else spec_delete v (op_Key x) sp)"

lemma specStep_cases:
  assumes "sp_pending sp v = Some (m, b)" and "v \<le> MaxVersion" and "proper x"
  shows "applicable m x \<Longrightarrow> specStep v x sp = (Inr (), spec_set v (effect x m) sp)"
    and "\<not> applicable m x \<Longrightarrow> \<exists>e. specStep v x sp = (Inl e, sp)"
  using assms
  by (auto simp: specStep_def spec_put_def spec_delete_def applicable_def proper_def effect_def checkPut_def checkDelete_def
      BatchOpPut_def BatchOpDelete_def leD split: option.splits sum.splits if_splits)

lemma specOps_step:
  "specOps v (x # xs) sp =
     (case specStep v x sp of
        (Inl e, sp1) \<Rightarrow> (Inl (Wrapf (if op_Type x = BatchOpPut then ''operation (put) failed'' else ''operation (delete) failed'') e), snd (spec_abort v sp1))
      | (Inr _, sp1) \<Rightarrow> specOps v xs sp1)"
  by (simp add: specStep_def)

declare specOps.simps(2) [simp del]

lemma spec_set_upd:
  "(spec_set v m sp)\<lparr>sp_pending := (sp_pending (spec_set v m sp))(v := z), sp_hist := hist @ sp_hist (spec_set v m sp)\<rparr>
     = sp\<lparr>sp_pending := (sp_pending sp)(v := z), sp_hist := (hist @ [m]) @ sp_hist sp\<rparr>"
  by (cases sp) (simp add: spec_set_def del: fun_upd_apply)

lemma applicable_effects: "op_Key x \<notin> op_Key ` set xs \<Longrightarrow> (\<forall>y \<in> set xs. applicable (effect x m) y) \<longleftrightarrow> (\<forall>y \<in> set xs. applicable m y)"
  by (rule ball_cong [OF refl]) (metis applicable_effect imageI)

lemma specOps_succeeds:
  assumes "sp_pending sp v = Some (m, b)" and "v \<le> MaxVersion" and "\<forall>x \<in> set xs. proper x" and "distinct (map op_Key xs)"
    and "\<forall>x \<in> set xs. applicable m x" and "xs \<noteq> []"
  shows "\<exists>hist. specOps v xs sp = (Inr (), sp\<lparr>sp_pending := (sp_pending sp)(v \<mapsto> (effects xs m, True)), sp_hist := hist @ sp_hist sp\<rparr>)"
  using assms(1,3-)
proof (induction xs arbitrary: sp m b)
  case (Cons x xs)
  let ?m = "effect x m" and ?sp1 = "spec_set v (effect x m) sp"
  have step: "specOps v (x # xs) sp = specOps v xs ?sp1"
    using specStep_cases(1) [OF Cons.prems(1) assms(2), of x] Cons.prems(2,4) by (simp add: specOps_step)
  have p1: "sp_pending ?sp1 v = Some (?m, True)" by (simp add: spec_set_def)
  show ?case
  proof (cases "xs = []")
    case True
    then show ?thesis using step by (intro exI [where x = "[?m]"]) (simp add: spec_set_def del: fun_upd_apply)
  next
    case False
    have *: "\<forall>y \<in> set xs. applicable ?m y" "\<forall>y \<in> set xs. proper y" "distinct (map op_Key xs)"
      using Cons.prems applicable_effects [of x xs m] by simp_all
    obtain hist where "specOps v xs ?sp1 = (Inr (), ?sp1\<lparr>sp_pending := (sp_pending ?sp1)(v \<mapsto> (effects xs ?m, True)), sp_hist := hist @ sp_hist ?sp1\<rparr>)"
      using Cons.IH [OF p1 *(2,3,1) False] by blast
    then show ?thesis unfolding step spec_set_upd by (simp only: effects_simps) blast
  qed
qed simp

lemma specOps_fails:
  assumes "sp_pending sp v = Some (m, b)" and "v \<le> MaxVersion" and "\<forall>x \<in> set xs. proper x" and "distinct (map op_Key xs)"
    and "\<not> (\<forall>x \<in> set xs. applicable m x)"
  shows "\<exists>e hist. specOps v xs sp = (Inl e, sp\<lparr>sp_pending := (sp_pending sp)(v := None), sp_hist := hist @ sp_hist sp\<rparr>)"
  using assms(1,3-)
proof (induction xs arbitrary: sp m b)
  case (Cons x xs)
  note st = specStep_cases [OF Cons.prems(1) assms(2), of x]
  let ?m = "effect x m" and ?sp1 = "spec_set v (effect x m) sp"
  show ?case
  proof (cases "applicable m x")
    case False
    then obtain e where "specStep v x sp = (Inl e, sp)" using st(2) Cons.prems(2) by auto
    with Cons.prems(1) have "specOps v (x # xs) sp =
        (Inl (Wrapf (if op_Type x = BatchOpPut then ''operation (put) failed'' else ''operation (delete) failed'') e),
         sp\<lparr>sp_pending := (sp_pending sp)(v := None)\<rparr>)"
      by (simp add: specOps_step spec_abort_def del: fun_upd_apply)
    then show ?thesis
      by (intro exI [where x = "Wrapf (if op_Type x = BatchOpPut then ''operation (put) failed'' else ''operation (delete) failed'') e"]
          exI [where x = "[]"]) (simp del: fun_upd_apply)
  next
    case True
    then have step: "specOps v (x # xs) sp = specOps v xs ?sp1" using st(1) Cons.prems(2) by (simp add: specOps_step)
    have p1: "sp_pending ?sp1 v = Some (?m, True)" by (simp add: spec_set_def)
    have *: "\<not> (\<forall>y \<in> set xs. applicable ?m y)" "\<forall>y \<in> set xs. proper y" "distinct (map op_Key xs)"
      using Cons.prems True applicable_effects [of x xs m] by simp_all
    obtain e hist where "specOps v xs ?sp1 = (Inl e, ?sp1\<lparr>sp_pending := (sp_pending ?sp1)(v := None), sp_hist := hist @ sp_hist ?sp1\<rparr>)"
      using Cons.IH [OF p1 *(2,3,1)] by blast
    then show ?thesis unfolding step spec_set_upd by blast
  qed
qed simp

text \<open>No deleted key shares its first 63 nibbles with another key of the contents or of a put.\<close>

definition batch_twinless :: "vmap \<Rightarrow> BatchOperation list \<Rightarrow> bool" where
  "batch_twinless m xs \<longleftrightarrow> (\<forall>x \<in> set xs. op_Type x = BatchOpDelete \<longrightarrow> alone m (op_Key x)
     \<and> (\<forall>y \<in> set xs. op_Type y = BatchOpPut \<longrightarrow> op_Key y \<noteq> op_Key x \<longrightarrow>
          take 63 (nibbles_of (op_Key y)) \<noteq> take 63 (nibbles_of (op_Key x))))"

lemma batch_twinless_effect:
  assumes "batch_twinless m (x # xs)"
  shows "batch_twinless (effect x m) xs" and "batch_twinless m xs"
  using assms by (auto simp: batch_twinless_def alone_def effect_def)

lemma batch_twinless_subset: "batch_twinless m xs \<Longrightarrow> set ys \<subseteq> set xs \<Longrightarrow> batch_twinless m ys"
  unfolding batch_twinless_def by blast

lemma ops_ok_batch:
  assumes "sp_pending sp v = Some (m, b)" and "v \<le> MaxVersion" and "\<forall>x \<in> set xs. proper x" and "batch_twinless m xs"
  shows "ops_ok v xs sp"
  using assms(1,3,4)
proof (induction xs arbitrary: sp m b)
  case (Cons x xs)
  note st = specStep_cases [OF Cons.prems(1) assms(2), of x] and tw = batch_twinless_effect [OF Cons.prems(3)]
  have "ops_ok v xs (snd (specStep v x sp))"
  proof (cases "applicable m x")
    case True
    then show ?thesis using st(1) Cons.prems(2) tw(1) by (intro Cons.IH [of _ "effect x m" True]) (auto simp: spec_set_def)
  next
    case False
    then obtain e where "specStep v x sp = (Inl e, sp)" using st(2) Cons.prems(2) by auto
    then show ?thesis using Cons.IH [OF Cons.prems(1) _ tw(2)] Cons.prems(2) by simp
  qed
  moreover have "op_Type x = BatchOpPut \<or> op_Type x = BatchOpDelete \<and> twinless m (op_Key x)" "wf_key (op_Key x)"
    using Cons.prems(2,3) by (auto simp: proper_def batch_twinless_def twinless_def)
  ultimately show ?case using Cons.prems(1) by (simp add: specStep_def)
qed simp

definition spec_Execute :: "BatchOperation list \<Rightarrow> spec \<Rightarrow> version result \<times> spec" where
  "spec_Execute xs sp =
     (let v = sp_latest sp + 1
      in case specOps v xs (snd (spec_begin sp)) of
           (Inl e, sp2) \<Rightarrow> (Inl e, sp2)
         | (Inr _, sp2) \<Rightarrow> (Inr v, snd (spec_commit v sp2)))"

text \<open>The specification of a batch: all of it or nothing, except that a failed batch uses up a version number.\<close>

lemma spec_Execute_outcome:
  assumes rel: "tree_rel H sp t" and lt: "sp_latest sp \<noteq> MaxVersion" and m: "sp_committed sp (sp_current sp) = Some m"
    and xs: "\<forall>x \<in> set xs. proper x" "distinct (map op_Key xs)" "xs \<noteq> []"
  shows "\<forall>x \<in> set xs. applicable m x \<Longrightarrow>
      \<exists>hist. spec_Execute xs sp = (Inr (sp_latest sp + 1), sp\<lparr>sp_committed := (sp_committed sp)(sp_latest sp + 1 \<mapsto> effects xs m),
        sp_latest := sp_latest sp + 1, sp_current := sp_latest sp + 1, sp_hist := hist @ sp_hist sp\<rparr>)"
    and "\<not> (\<forall>x \<in> set xs. applicable m x) \<Longrightarrow>
      \<exists>e hist. spec_Execute xs sp = (Inl e, sp\<lparr>sp_latest := sp_latest sp + 1, sp_hist := hist @ sp_hist sp\<rparr>)"
proof -
  let ?v = "sp_latest sp + 1"
  note nf = next_free [OF rel lt]
  let ?sp1 = "sp\<lparr>sp_latest := ?v, sp_pending := (sp_pending sp)(?v \<mapsto> (m, False))\<rparr>"
  have sp1: "snd (spec_begin sp) = ?sp1" using lt m by (simp add: spec_begin_def Let_def)
  have p: "sp_pending ?sp1 ?v = Some (m, False)" by simp
  have idem: "(sp_pending sp)(?v := None) = sp_pending sp" using nf(3) by (simp add: fun_upd_idem)
  show "\<exists>hist. spec_Execute xs sp = (Inr ?v, sp\<lparr>sp_committed := (sp_committed sp)(?v \<mapsto> effects xs m),
        sp_latest := ?v, sp_current := ?v, sp_hist := hist @ sp_hist sp\<rparr>)" if all: "\<forall>x \<in> set xs. applicable m x"
  proof -
    obtain hist where "specOps ?v xs ?sp1 = (Inr (), ?sp1\<lparr>sp_pending := (sp_pending ?sp1)(?v \<mapsto> (effects xs m, True)), sp_hist := hist @ sp_hist ?sp1\<rparr>)"
      using specOps_succeeds [OF p nf(2) xs(1,2) all xs(3)] by blast
    with nf(4) idem show ?thesis unfolding spec_Execute_def Let_def sp1
      by (intro exI [where x = hist]) (cases sp, simp add: spec_commit_def)
  qed
  show "\<exists>e hist. spec_Execute xs sp = (Inl e, sp\<lparr>sp_latest := ?v, sp_hist := hist @ sp_hist sp\<rparr>)" if some: "\<not> (\<forall>x \<in> set xs. applicable m x)"
  proof -
    obtain e hist where "specOps ?v xs ?sp1 = (Inl e, ?sp1\<lparr>sp_pending := (sp_pending ?sp1)(?v := None), sp_hist := hist @ sp_hist ?sp1\<rparr>)"
      using specOps_fails [OF p nf(2) xs(1,2) some] by blast
    with idem show ?thesis unfolding spec_Execute_def Let_def sp1
      by (intro exI [where x = e] exI [where x = hist]) (cases sp, simp)
  qed
qed

lemma Execute_refines:
  assumes rel: "tree_rel H sp t" and H: "\<And>x. wf_hash (H x)" and lt: "sp_latest sp \<noteq> MaxVersion" and m: "sp_committed sp (sp_current sp) = Some m"
    and bt: "bt_inv bt" "bt_operations bt \<noteq> []" "\<forall>x \<in> set (bt_operations bt). wf_key (op_Key x)" and tw: "batch_twinless m (bt_operations bt)"
    and ok: "hash_ok H (sp_hist (snd (spec_Execute (lastOps (bt_operations bt)) sp)))"
  shows "\<exists>t'. Execute H now bt t = (fst (spec_Execute (lastOps (bt_operations bt)) sp),
      (if \<forall>x \<in> set (lastOps (bt_operations bt)). applicable m x then Clear bt else bt), t')
    \<and> tree_rel H (snd (spec_Execute (lastOps (bt_operations bt)) sp)) t'"
proof -
  let ?v = "sp_latest sp + 1" and ?xs = "lastOps (bt_operations bt)"
  note nf = next_free [OF rel lt]
  let ?sp1 = "sp\<lparr>sp_latest := ?v, sp_pending := (sp_pending sp)(?v \<mapsto> (m, False))\<rparr>"
  have sp1: "snd (spec_begin sp) = ?sp1" using lt m by (simp add: spec_begin_def Let_def)
  have xs: "\<forall>x \<in> set ?xs. proper x" "distinct (map op_Key ?xs)" "batch_twinless m ?xs"
    using set_lastOps [of "bt_operations bt"] bt distinct_lastOps tw batch_twinless_subset by (auto simp: bt_inv_def proper_def)
  obtain t1 where t1: "BeginVersion now t = (Inr ?v, t1)" "tree_rel H ?sp1 t1" using begin_run [OF rel lt m] by blast
  have "ops_ok ?v ?xs ?sp1" using nf(2) xs by (intro ops_ok_batch) auto
  from executeOps_refines [OF t1(2) H this]
  obtain t2 where t2: "executeOps H ?v ?xs t1 = (fst (specOps ?v ?xs ?sp1), t2)" "tree_rel H (snd (specOps ?v ?xs ?sp1)) t2"
    by (cases "executeOps H ?v ?xs t1") simp
  have opt: "optimizeOperationsLocked bt = ?xs" using optimize_lastOps [OF bt(1)] .
  have p: "sp_pending ?sp1 ?v = Some (m, False)" by simp
  show ?thesis
  proof (cases "\<forall>x \<in> set ?xs. applicable m x")
    case True
    then obtain hist where sp2: "specOps ?v ?xs ?sp1 = (Inr (), ?sp1\<lparr>sp_pending := (sp_pending ?sp1)(?v \<mapsto> (effects ?xs m, True)), sp_hist := hist @ sp_hist ?sp1\<rparr>)"
      using specOps_succeeds [OF p nf(2) xs(1,2)] bt(2) by auto
    let ?sp2 = "?sp1\<lparr>sp_pending := (sp_pending ?sp1)(?v \<mapsto> (effects ?xs m, True)), sp_hist := hist @ sp_hist ?sp1\<rparr>"
    have ok2: "hash_ok H (sp_hist ?sp2)" using ok by (simp add: spec_Execute_def sp1 sp2 spec_commit_def Let_def)
    have t2': "executeOps H ?v ?xs t1 = (Inr (), t2)" "tree_rel H ?sp2 t2" using t2 unfolding sp2 by simp_all
    have "fst (CommitVersion H now ?v t2) = fst (spec_commit ?v ?sp2) \<and> tree_rel H (snd (spec_commit ?v ?sp2)) (snd (CommitVersion H now ?v t2))"
      by (rule commit_refines [OF t2'(2) H ok2]) simp
    moreover have "fst (spec_commit ?v ?sp2) = Inr ()" by (simp add: spec_commit_def)
    ultimately obtain t3 where t3: "CommitVersion H now ?v t2 = (Inr (), t3)" "tree_rel H (snd (spec_commit ?v ?sp2)) t3"
      by (cases "CommitVersion H now ?v t2") simp
    have "spec_Execute ?xs sp = (Inr ?v, snd (spec_commit ?v ?sp2))" unfolding spec_Execute_def Let_def sp1 sp2 by simp
    moreover have "Execute H now bt t = (Inr ?v, Clear bt, t3)" using t1(1) t2'(1) t3(1) bt(2) by (simp add: Execute_def opt Let_def)
    ultimately show ?thesis unfolding if_P [OF True] using t3(2) by (simp only: fst_conv snd_conv) blast
  next
    case False
    then obtain e s2 where sp2: "specOps ?v ?xs ?sp1 = (Inl e, s2)" using specOps_fails [OF p nf(2) xs(1,2)] by blast
    have t2': "executeOps H ?v ?xs t1 = (Inl e, t2)" "tree_rel H s2 t2" using t2 unfolding sp2 by simp_all
    have "spec_Execute ?xs sp = (Inl e, s2)" unfolding spec_Execute_def Let_def sp1 sp2 by simp
    moreover have "Execute H now bt t = (Inl e, bt, t2)" using t1(1) t2'(1) bt(2) by (simp add: Execute_def opt Let_def)
    ultimately show ?thesis unfolding if_not_P [OF False] using t2'(2) by (simp only: fst_conv snd_conv) blast
  qed
qed

end
