(* ===== verification/TreeReopen.thy ===== *)
theory TreeReopen
  imports TreeRuns
begin

text \<open>
  Persistence: what \<open>NewTree\<close> finds in the storage of an earlier tree. \<open>durable\<close> says that the root keys in the
  storage are those of the committed versions and that nodes are stored under committed versions only; every
  operation keeps it. Opening a tree again on such a storage gives the versioned map without its pending
  versions, without the numbers that aborted versions used up, and without version 0 once another version is committed.
\<close>

lemma updateVersioned_frame:
  "t_db (snd (updateVersioned msg v f t)) = t_db t \<and> t_rootHashes (snd (updateVersioned msg v f t)) = t_rootHashes t
     \<and> t_latestVer (snd (updateVersioned msg v f t)) = t_latestVer t"
  by (simp add: updateVersioned_def Let_def case_prod_unfold split: option.split sum.split)

lemma Tree_Get_frame:
  assumes "tree_rel H sp t"
  shows "snd (Tree_Get H t v k) = t"
proof -
  have "\<not> ms_closing (t_db t)" "snapshots_free (t_db t)" using tree_relD(5) [OF assms] by (simp_all add: store_ok_def)
  then obtain sn db1 where "NewSnapshot (t_db t) = (MemSnapshot sn, db1)" "snd (Snapshot_Close (MemSnapshot sn) db1) = t_db t"
    using snapshot_roundtrip by blast
  then show ?thesis
    by (simp add: Tree_Get_def Let_def del: Snapshot_Close.simps split: sum.split option.split)
qed

lemma touched_put: "spec_put v k val sp = (Inr u, sp') \<Longrightarrow> sp_pending sp' v = Some (m, b) \<Longrightarrow> b"
  by (auto simp: spec_put_def spec_set_def split: sum.splits option.splits)

lemma touched_delete: "spec_delete v k sp = (Inr u, sp') \<Longrightarrow> sp_pending sp' v = Some (m, b) \<Longrightarrow> b"
  by (auto simp: spec_delete_def spec_set_def split: sum.splits option.splits if_splits)

section \<open>What every operation keeps\<close>

text \<open>
  Only commits touch the storage and the root hashes. So a property of a tree that depends on nothing else, and
  that commits keep, is kept by every operation.
\<close>

locale commit_invariant =
  fixes P :: "Tree \<Rightarrow> bool"
  assumes frame: "t_db t' = t_db t \<Longrightarrow> t_rootHashes t' = t_rootHashes t \<Longrightarrow> t_latestVer t' = t_latestVer t \<Longrightarrow> P t' \<longleftrightarrow> P t"
    and commit: "(\<And>x. wf_hash (H x)) \<Longrightarrow> tree_rel H sp t \<Longrightarrow> hash_ok H (sp_hist sp) \<Longrightarrow> (\<And>m b. sp_pending sp v = Some (m, b) \<Longrightarrow> b) \<Longrightarrow>
      P t \<Longrightarrow> P (snd (CommitVersion H now v t))"
begin

lemma keep_update: "P (snd (updateVersioned msg v f t)) \<longleftrightarrow> P t"
  by (rule frame) (simp_all add: updateVersioned_frame)

lemma keep_put: "P (snd (PutVersioned H v k val t)) \<longleftrightarrow> P t"
  by (cases "checkPut v k val") (simp_all add: validators keep_update)

lemma keep_delete: "P (snd (DeleteVersioned H v k t)) \<longleftrightarrow> P t"
  by (cases "checkDelete v k") (simp_all add: validators keep_update)

lemma keep_begin: "P (snd (BeginVersion now t)) \<longleftrightarrow> P t"
  by (rule frame) (simp_all add: BeginVersion_def withVM_def Let_def)

lemma keep_abort: "P (snd (AbortVersion v t)) \<longleftrightarrow> P t"
  by (rule frame) (simp_all add: AbortVersion_def withVM_def)

lemma keep_abortWith: "P (snd (abortWith msg v e t)) \<longleftrightarrow> P t"
  by (simp add: abortWith_def keep_abort)

text \<open>Updating and committing the version that was just begun.\<close>

lemma keep_Put:
  assumes rel: "tree_rel H sp t" and H: "\<And>x. wf_hash (H x)" and k: "wf_key k"
    and ok: "hash_ok H (sp_hist (snd (spec_Put k val sp)))" and dur: "P t"
  shows "P (snd (Tree_Put H now k val t))"
proof (cases "validateKey k = Inr () \<and> validateValue val = Inr ()")
  case False
  then show ?thesis using dur by (auto simp: Tree_Put_def split: sum.split)
next
  case valid: True
  obtain r t1 where t1: "BeginVersion now t = (r, t1)" by (cases "BeginVersion now t")
  have rel1: "r = fst (spec_begin sp)" "tree_rel H (snd (spec_begin sp)) t1" using begin_refines [OF rel, of now] t1 by simp_all
  have d1: "P t1" using keep_begin [of now t] dur t1 by simp
  show ?thesis
  proof (cases r)
    case (Inl e)
    with valid t1 d1 show ?thesis by (simp add: Tree_Put_def)
  next
    case (Inr v)
    obtain r2 t2 where t2: "PutVersioned H v k val t1 = (r2, t2)" by (cases "PutVersioned H v k val t1")
    let ?sp2 = "snd (spec_put v k val (snd (spec_begin sp)))"
    have rel2: "r2 = fst (spec_put v k val (snd (spec_begin sp)))" "tree_rel H ?sp2 t2"
      using put_refines [OF rel1(2) H k, of v val] t2 by simp_all
    have d2: "P t2" using keep_put [of H v k val t1] d1 t2 by simp
    show ?thesis
    proof (cases r2)
      case (Inl e)
      with valid t1 \<open>r = Inr v\<close> t2 d2 show ?thesis by (simp add: Tree_Put_def keep_abortWith)
    next
      case ok2: (Inr u)
      have sp2: "spec_put v k val (snd (spec_begin sp)) = (Inr u, ?sp2)" using rel2(1) ok2 by (simp add: prod_eq_iff)
      have "set (sp_hist ?sp2) \<subseteq> set (sp_hist (snd (spec_Put k val sp)))"
        using Inr rel1(1) valid
        by (auto simp: spec_begin_def spec_Put_def spec_put_def spec_set_def Let_def validateKey_def validateValue_def split: if_splits sum.splits option.splits)
      then have "P (snd (CommitVersion H now v t2))"
        by (intro commit [OF H rel2(2) hash_ok_mono [OF ok] touched_put [OF sp2] d2])
      with valid t1 Inr t2 ok2 show ?thesis
        by (cases "CommitVersion H now v t2") (simp add: Tree_Put_def keep_abortWith split: sum.split)
    qed
  qed
qed

lemma keep_Delete:
  assumes rel: "tree_rel H sp t" and H: "\<And>x. wf_hash (H x)" and k: "wf_key k"
    and twin: "\<And>m. sp_committed sp (sp_current sp) = Some m \<Longrightarrow> no_twin (hashed H m) k"
    and ok: "hash_ok H (sp_hist (snd (spec_Delete k sp)))" and dur: "P t"
  shows "P (snd (Tree_Delete H now k t))"
proof -
  obtain r t1 where t1: "BeginVersion now t = (r, t1)" by (cases "BeginVersion now t")
  have rel1: "r = fst (spec_begin sp)" "tree_rel H (snd (spec_begin sp)) t1" using begin_refines [OF rel, of now] t1 by simp_all
  have d1: "P t1" using keep_begin [of now t] dur t1 by simp
  show ?thesis
  proof (cases r)
    case (Inl e)
    with t1 d1 show ?thesis by (simp add: Tree_Delete_def)
  next
    case (Inr v)
    obtain r2 t2 where t2: "DeleteVersioned H v k t1 = (r2, t2)" by (cases "DeleteVersioned H v k t1")
    let ?sp2 = "snd (spec_delete v k (snd (spec_begin sp)))"
    have "no_twin (hashed H m) k" if "sp_pending (snd (spec_begin sp)) v = Some (m, b)" for m b
      using twin that Inr rel1(1) tree_relD(7) [OF rel] by (auto simp: versions_rel_def spec_begin_def Let_def split: if_splits)
    then have rel2: "r2 = fst (spec_delete v k (snd (spec_begin sp)))" "tree_rel H ?sp2 t2"
      using delete_refines [OF rel1(2) H k, of v] t2 by simp_all
    have d2: "P t2" using keep_delete [of H v k t1] d1 t2 by simp
    show ?thesis
    proof (cases r2)
      case (Inl e)
      with t1 \<open>r = Inr v\<close> t2 d2 show ?thesis by (simp add: Tree_Delete_def keep_abortWith)
    next
      case ok2: (Inr u)
      have sp2: "spec_delete v k (snd (spec_begin sp)) = (Inr u, ?sp2)" using rel2(1) ok2 by (simp add: prod_eq_iff)
      then have "set (sp_hist ?sp2) \<subseteq> set (sp_hist (snd (spec_Delete k sp)))"
        using Inr rel1(1)
        by (auto simp: spec_begin_def spec_Delete_def spec_delete_def checkDelete_def spec_set_def Let_def split: if_splits sum.splits option.splits)
      then have "P (snd (CommitVersion H now v t2))"
        by (intro commit [OF H rel2(2) hash_ok_mono [OF ok] touched_delete [OF sp2] d2])
      with t1 Inr t2 ok2 show ?thesis
        by (cases "CommitVersion H now v t2") (simp add: Tree_Delete_def keep_abortWith split: sum.split)
    qed
  qed
qed

lemma keep_exec:
  assumes rel: "tree_rel H sp t" and H: "\<And>x. wf_hash (H x)" and ok: "hash_ok H (sp_hist (snd (specExec x sp)))" and x: "op_ok x sp"
    and dur: "P t"
  shows "P (snd (exec H x t))"
proof -
  have ok0: "hash_ok H (sp_hist sp)" using hash_ok_mono [OF ok hist_mono] .
  show ?thesis
  proof (cases x)
    case (CommitOp now v)
    then have "b" if "sp_pending sp v = Some (m, b)" for m b using x that by simp
    from commit [OF H rel ok0 this dur] CommitOp show ?thesis by simp
  next
    case (TreeDeleteOp now k)
    then have "no_twin (hashed H m) k" if "sp_committed sp (sp_current sp) = Some m" for m using x that by simp
    with TreeDeleteOp x ok dur show ?thesis using keep_Delete [OF rel H] by simp
  next
    case (TreePutOp now k val)
    with x ok dur show ?thesis using keep_Put [OF rel H] by simp
  qed (use dur Tree_Get_frame [OF rel] in \<open>simp_all add: keep_begin keep_put keep_delete keep_abort\<close>)
qed

lemma keep_run:
  assumes "tree_rel H sp t" and H: "\<And>x. wf_hash (H x)" and "hash_ok H (sp_hist (snd (specRun xs sp)))" and "run_ok xs sp" and "P t"
  shows "P (snd (run H xs t))"
  using assms(1,3-5)
proof (induction xs arbitrary: sp t)
  case (Cons x xs)
  have ok: "hash_ok H (sp_hist (snd (specRun xs (snd (specExec x sp)))))" using Cons.prems(2) unfolding specRun_Cons .
  have ok1: "hash_ok H (sp_hist (snd (specExec x sp)))" using hash_ok_mono [OF ok hist_mono_run] .
  have x: "op_ok x sp" "run_ok xs (snd (specExec x sp))" using Cons.prems(3) by simp_all
  show ?case unfolding run_Cons
    using Cons.IH [OF conjunct2 [OF exec_refines [OF Cons.prems(1) H ok1 x(1)]] ok x(2) keep_exec [OF Cons.prems(1) H ok1 x(1) Cons.prems(4)]] .
qed simp



end

section \<open>What the storage holds\<close>

definition iterators_free :: "Storage \<Rightarrow> bool" where
  "iterators_free db \<longleftrightarrow> ms_maxIterators db \<le> 0 \<or> ms_openIterators db < ms_maxIterators db"

definition durable :: "Tree \<Rightarrow> bool" where
  "durable t \<longleftrightarrow> gm_wf (ms_data (t_db t)) \<and> iterators_free (t_db t)
     \<and> (\<forall>k. gm_get (ms_data (t_db t)) k \<noteq> None \<longrightarrow> hasPrefix k RootKeyPrefix \<longrightarrow> (\<exists>v. k = DefaultKeyEncoder_RootKey v \<and> 0 < v))
     \<and> (\<forall>v > 0. gm_get (ms_data (t_db t)) (DefaultKeyEncoder_RootKey v) = gm_get (t_rootHashes t) v)
     \<and> (\<forall>v. gm_get (t_rootHashes t) v \<noteq> None \<longrightarrow> v \<le> t_latestVer t)
     \<and> (\<forall>w q. wf_nibbles q \<longrightarrow> gm_get (ms_data (t_db t)) (skey w q) \<noteq> None \<longrightarrow> 0 < w \<and> gm_get (t_rootHashes t) w \<noteq> None)"

lemma durable_frame:
  "t_db t' = t_db t \<Longrightarrow> t_rootHashes t' = t_rootHashes t \<Longrightarrow> t_latestVer t' = t_latestVer t \<Longrightarrow> durable t' \<longleftrightarrow> durable t"
  by (simp add: durable_def)

lemma no_root_prefix [simp]: "\<not> hasPrefix (skey v q) RootKeyPrefix" "\<not> hasPrefix (DefaultKeyEncoder_ValueKey h) RootKeyPrefix"
  by (simp_all add: hasPrefix_def skey_def NodeKeyPrefix_def RootKeyPrefix_def DefaultKeyEncoder_ValueKey_def)

lemma gm_wf_applyOps: "gm_wf data \<Longrightarrow> gm_wf (foldl applyOp data ops)"
proof (induction ops arbitrary: data)
  case (Cons x ops)
  then show ?case by (cases x) simp_all
qed simp

lemma commit_db_wf: "gm_wf (ms_data db) \<Longrightarrow> gm_wf (ms_data (commit_db v batch db))"
  by (simp add: commit_db_def gm_wf_applyOps)

lemma iterators_free_commit_db [simp]: "iterators_free (commit_db v batch db) \<longleftrightarrow> iterators_free db"
  by (simp add: commit_db_def iterators_free_def)

lemma commitKVs_key:
  assumes "batch_ok H v batch" and "map_of (rev (commitKVs v batch)) k = Some b"
  shows "k = DefaultKeyEncoder_RootKey v \<and> b = NewRootHash batch \<or> (\<exists>q. k = skey v q) \<or> (\<exists>h. k = DefaultKeyEncoder_ValueKey h)"
proof -
  from map_of_rev_SomeD [OF assms(2)] consider "k = DefaultKeyEncoder_RootKey v" "b = NewRootHash batch" | "(k, b) \<in> set (batchKVs (NewNodes batch))"
    by (auto simp: commitKVs_def)
  then show ?thesis
  proof cases
    case 2
    from batchKVs_mem [OF this] show ?thesis
    proof (elim disjE exE conjE)
      fix s w assume "(s, w) \<in> set (NewNodes batch)" "k = s"
      with assms(1) have "storable H v (k, w)" by (simp add: batch_ok_def)
      then show ?thesis by (auto simp: storable_def)
    qed blast
  qed blast
qed

lemma key_disjoint: "DefaultKeyEncoder_RootKey w \<noteq> DefaultKeyEncoder_ValueKey h"
  by (simp add: DefaultKeyEncoder_RootKey_def DefaultKeyEncoder_ValueKey_def RootKeyPrefix_def)

lemma commit_db_root:
  assumes "batch_ok H v batch"
  shows "gm_get (ms_data (commit_db v batch db)) (DefaultKeyEncoder_RootKey w) =
    (if w = v then Some (NewRootHash batch) else gm_get (ms_data db) (DefaultKeyEncoder_RootKey w))"
proof (cases "map_of (rev (commitKVs v batch)) (DefaultKeyEncoder_RootKey w)")
  case None
  then have "w \<noteq> v" by (auto simp: commitKVs_def)
  with None show ?thesis by (simp add: commit_db_get)
next
  case (Some b)
  from commitKVs_key [OF assms this] have "w = v" "b = NewRootHash batch" using key_disjoint by auto
  with Some show ?thesis by (simp add: commit_db_get)
qed

lemma durable_commit:
  assumes rel: "tree_rel H sp t" and H: "\<And>x. wf_hash (H x)" and ok: "hash_ok H (sp_hist sp)"
    and touched: "\<And>m b. sp_pending sp v = Some (m, b) \<Longrightarrow> b" and dur: "durable t"
  shows "durable (snd (CommitVersion H now v t))"
proof (cases "gm_get (pendingWrites (t_versionManager t)) v")
  case None
  with dur show ?thesis by (simp add: CommitVersion_def GetPending_def)
next
  case (Some pv)
  obtain m where m: "sp_pending sp v = Some (m, True)" using pending_iff [OF rel, of v] Some touched by fastforce
  obtain batch t' where commit: "CommitVersion H now v t = (Inr (), t')" and t': "t_db t' = commit_db v batch (t_db t)"
      "t_rootHashes t' = gm_put v (NewRootHash batch) (t_rootHashes t)" "t_latestVer t' = (if v > t_latestVer t then v else t_latestVer t)"
      and b: "batch_ok H v batch"
    using commit_run [OF rel H ok Some m, of now] by auto
  have v0: "0 < v" using vm_invD(5) [OF tree_relD(1) [OF rel] Some] by simp
  note D = dur [unfolded durable_def]
  have "\<forall>k. gm_get (ms_data (t_db t')) k \<noteq> None \<longrightarrow> hasPrefix k RootKeyPrefix \<longrightarrow> (\<exists>w. k = DefaultKeyEncoder_RootKey w \<and> 0 < w)"
  proof (intro allI impI)
    fix k assume k: "gm_get (ms_data (t_db t')) k \<noteq> None" "hasPrefix k RootKeyPrefix"
    show "\<exists>w. k = DefaultKeyEncoder_RootKey w \<and> 0 < w"
    proof (cases "map_of (rev (commitKVs v batch)) k")
      case None
      with k D show ?thesis by (simp add: t' commit_db_get del: map_of_eq_Some_iff)
    next
      case (Some b')
      with commitKVs_key [OF b Some] k(2) v0 show ?thesis by auto
    qed
  qed
  moreover have "\<forall>w q. wf_nibbles q \<longrightarrow> gm_get (ms_data (t_db t')) (skey w q) \<noteq> None \<longrightarrow> 0 < w \<and> gm_get (t_rootHashes t') w \<noteq> None"
  proof (intro allI impI)
    fix w q assume q: "wf_nibbles q" "gm_get (ms_data (t_db t')) (skey w q) \<noteq> None"
    show "0 < w \<and> gm_get (t_rootHashes t') w \<noteq> None"
    proof (cases "w = v")
      case False
      from q no_other_version [OF b q(1) False] have "gm_get (ms_data (t_db t)) (skey w q) \<noteq> None"
        by (simp add: t' commit_db_node [OF b q(1)] del: map_of_eq_Some_iff)
      with D q(1) False show ?thesis by (simp add: t' del: map_of_eq_Some_iff)
    qed (simp add: t' v0)
  qed
  moreover have "\<forall>w > 0. gm_get (ms_data (t_db t')) (DefaultKeyEncoder_RootKey w) = gm_get (t_rootHashes t') w"
    using D by (simp add: t' commit_db_root [OF b] del: map_of_eq_Some_iff)
  moreover have "\<forall>w. gm_get (t_rootHashes t') w \<noteq> None \<longrightarrow> w \<le> t_latestVer t'"
    using D by (auto simp: t' intro: order.strict_implies_order order.strict_trans1)
  ultimately have "durable t'" using D unfolding durable_def by (simp add: t'(1) commit_db_wf del: map_of_eq_Some_iff not_None_eq)
  with commit show ?thesis by simp
qed

interpretation persist: commit_invariant durable
proof unfold_locales
  fix H sp t v now assume "\<And>x. wf_hash (H x)" "tree_rel H sp t" "hash_ok H (sp_hist sp)" "\<And>m b. sp_pending sp v = Some (m, b) \<Longrightarrow> b" "durable t"
  then show "durable (snd (CommitVersion H now v t))" using durable_commit by blast
qed (rule durable_frame)

lemma durable_new:
  assumes "empty_store db" and "0 < cf_CacheSize cfg" and "NewTree now db cfg = Inr t"
  shows "durable t"
  using NewTree_empty [OF assms(1,2), of now] assms by (auto simp: durable_def empty_store_def iterators_free_def)

section \<open>Opening the tree again\<close>

definition spec_reopen :: "spec \<Rightarrow> spec" where
  "spec_reopen sp = sp\<lparr>sp_pending := Map.empty, sp_latest := sp_current sp,
     sp_committed := (if sp_current sp = 0 then sp_committed sp else (sp_committed sp)(0 := None))\<rparr>"

definition reopenedInfo :: "int \<Rightarrow> version \<Rightarrow> hash \<Rightarrow> VersionInfo" where
  "reopenedInfo now v h = \<lparr>vi_Version = v, vi_RootHash = h, vi_ParentVersion = (if v = 1 then 0 else v - 1), vi_CreatedAt = now,
     vi_NodeCount = 0, vi_Status = VersionStatusCommitted\<rparr>"

text \<open>The loop over the root keys.\<close>

lemma loadRoots_ok:
  assumes "\<forall>(v, h) \<in> set vs. 0 < v \<and> length h = 32"
  shows "\<exists>t'. loadRoots now (map (\<lambda>(v, h). (DefaultKeyEncoder_RootKey v, Some h)) vs) t = (Inr (), t')
    \<and> t_db t' = t_db t \<and> t_config t' = t_config t
    \<and> t_rootHashes t' = fold (\<lambda>(v, h). gm_put v h) vs (t_rootHashes t)
    \<and> t_latestVer t' = fold (\<lambda>(v, h). max v) vs (t_latestVer t)
    \<and> t_versionManager t' = (t_versionManager t)\<lparr>versions := fold (\<lambda>(v, h). gm_put v (reopenedInfo now v h)) vs (versions (t_versionManager t))\<rparr>"
  using assms
proof (induction vs arbitrary: t)
  case (Cons x vs)
  obtain v h where x: "x = (v, h)" by (cases x)
  then have "v \<noteq> 0" "length h = 32" using Cons.prems by auto
  moreover have "(if w < v then v else w) = max v w" for w by (simp add: max_def flip: not_le)
  ultimately have "loadRoots now (map (\<lambda>(v, h). (DefaultKeyEncoder_RootKey v, Some h)) (x # vs)) t =
      loadRoots now (map (\<lambda>(v, h). (DefaultKeyEncoder_RootKey v, Some h)) vs)
        (t\<lparr>t_rootHashes := gm_put v h (t_rootHashes t), t_latestVer := max v (t_latestVer t),
           t_versionManager := (t_versionManager t)\<lparr>versions := gm_put v (reopenedInfo now v h) (versions (t_versionManager t))\<rparr>\<rparr>)"
    by (simp add: x reopenedInfo_def Let_def)
  then show ?case
    using Cons.prems Cons.IH [of "t\<lparr>t_rootHashes := gm_put v h (t_rootHashes t), t_latestVer := max v (t_latestVer t),
        t_versionManager := (t_versionManager t)\<lparr>versions := gm_put v (reopenedInfo now v h) (versions (t_versionManager t))\<rparr>\<rparr>"]
    by (simp add: x)
qed simp

lemma fold_put_get:
  "distinct (map fst vs) \<Longrightarrow> gm_get (fold (\<lambda>(v, h). gm_put v (f v h)) vs m) w = (case map_of vs w of Some h \<Rightarrow> Some (f w h) | None \<Rightarrow> gm_get m w)"
proof (induction vs arbitrary: m)
  case (Cons x vs)
  then have "map_of vs (fst x) = None" by (simp add: map_of_eq_None_iff)
  with Cons show ?case by (cases x) (auto split: option.split)
qed simp

lemma fold_put_wf: "gm_wf m \<Longrightarrow> gm_wf (fold (\<lambda>(v, h). gm_put v (f v h)) vs m)"
  by (induction vs arbitrary: m) auto

lemma fold_max:
  fixes a :: "'a::linorder"
  shows "a \<le> fold (\<lambda>(v, h). max v) vs a" and "(v, h) \<in> set vs \<Longrightarrow> v \<le> fold (\<lambda>(v, h). max v) vs a"
    and "fold (\<lambda>(v, h). max v) vs a = a \<or> fold (\<lambda>(v, h). max v) vs a \<in> fst ` set vs"
proof (induction vs arbitrary: a)
  case (Cons x vs)
  obtain v' h' where x: "x = (v', h')" by (cases x)
  { case 1 show ?case using Cons(1) [of "max v' a"] by (simp add: x) }
  { case 2 then show ?case using Cons(1,2) [of "max v' a"] by (auto simp: x) }
  { case 3 have "max v' a = v' \<or> max v' a = a" by (simp add: max_def)
    then show ?case using Cons(3) [of "max v' a"] by (auto simp: x) }
qed simp_all

text \<open>The root keys of a durable tree, as the iterator yields them.\<close>

lemma durable_roots:
  assumes dur: "durable t"
  shows "\<exists>vs. map (\<lambda>k. (k, gm_get (ms_data (t_db t)) k)) (filter (inBounds rootOptions) (sort (map fst (ms_data (t_db t)))))
      = map (\<lambda>(v, h). (DefaultKeyEncoder_RootKey v, Some h)) vs
    \<and> distinct (map fst vs) \<and> (\<forall>v. map_of vs v = (if 0 < v then gm_get (t_rootHashes t) v else None))"
proof -
  note D = dur [unfolded durable_def]
  let ?data = "ms_data (t_db t)"
  let ?ks = "filter (inBounds rootOptions) (sort (map fst ?data))"
  define ver where "ver k = projr (DefaultKeyEncoder_ParseRootKey k)" for k
  have in_iff: "inBounds rootOptions k \<longleftrightarrow> hasPrefix k RootKeyPrefix" for k
    by (simp add: inBounds_def rootOptions_def DefaultKeyEncoder_RootKeyPrefix_def)
  have k: "DefaultKeyEncoder_RootKey (ver k) = k \<and> 0 < ver k \<and> gm_get ?data k = gm_get (t_rootHashes t) (ver k) \<and> gm_get ?data k \<noteq> None"
    if "k \<in> set ?ks" for k
  proof -
    from that have "gm_get ?data k \<noteq> None" "hasPrefix k RootKeyPrefix" by (auto simp: in_iff map_of_eq_None_iff image_iff)
    with D obtain v where "k = DefaultKeyEncoder_RootKey v" "0 < v" "gm_get ?data k = gm_get (t_rootHashes t) v" by metis
    with \<open>gm_get ?data k \<noteq> None\<close> show ?thesis by (simp add: ver_def)
  qed
  have has: "DefaultKeyEncoder_RootKey v \<in> set ?ks \<longleftrightarrow> gm_get (t_rootHashes t) v \<noteq> None" if "0 < v" for v
  proof -
    have "gm_get ?data (DefaultKeyEncoder_RootKey v) = gm_get (t_rootHashes t) v" using D that by blast
    moreover have "hasPrefix (DefaultKeyEncoder_RootKey v) RootKeyPrefix" by (simp add: hasPrefix_def DefaultKeyEncoder_RootKey_def)
    ultimately show ?thesis using map_of_eq_None_iff [of ?data "DefaultKeyEncoder_RootKey v"] by (simp add: in_iff del: map_of_eq_None_iff map_of_eq_Some_iff not_None_eq)
  qed
  let ?vs = "map (\<lambda>k. (ver k, the (gm_get ?data k))) ?ks"
  have "distinct ?ks" using D by simp
  moreover have inj: "inj_on ver (set ?ks)" by (rule inj_onI) (metis k)
  ultimately have dist: "distinct (map fst ?vs)" by (simp add: distinct_map comp_def del: set_filter set_sort)
  have "map_of ?vs v = (if 0 < v then gm_get (t_rootHashes t) v else None)" for v
  proof (cases "0 < v \<and> gm_get (t_rootHashes t) v \<noteq> None")
    case True
    then obtain h where h: "gm_get (t_rootHashes t) v = Some h" by blast
    have mem: "DefaultKeyEncoder_RootKey v \<in> set ?ks" using has True by blast
    have "ver (DefaultKeyEncoder_RootKey v) = v" by (simp add: ver_def)
    with k [OF mem] h have "(v, h) = (ver (DefaultKeyEncoder_RootKey v), the (gm_get ?data (DefaultKeyEncoder_RootKey v)))" by simp
    with mem have "(v, h) \<in> set ?vs" by (simp only: set_map image_iff) blast
    from map_of_is_SomeI [OF dist this] h True show ?thesis by simp
  next
    case False
    have "v \<notin> fst ` set ?vs"
    proof
      assume "v \<in> fst ` set ?vs"
      then obtain k' where "k' \<in> set ?ks" "v = ver k'" by (auto simp del: set_filter set_sort)
      with k [OF this(1)] False show False by metis
    qed
    then have "map_of ?vs v = None" unfolding map_of_eq_None_iff .
    with False show ?thesis by (simp only: de_Morgan_conj not_not) auto
  qed
  moreover have "map (\<lambda>k. (k, gm_get ?data k)) ?ks = map (\<lambda>(v, h). (DefaultKeyEncoder_RootKey v, Some h)) ?vs"
    unfolding map_map comp_def by (rule map_cong [OF refl]) (use k in \<open>simp del: set_filter set_sort; metis option.exhaust_sel\<close>)
  ultimately show ?thesis using dist by (intro exI [where x = ?vs]) (simp only: conj_assoc simp_thms all_simps)
qed

lemma version_zero:
  assumes rel: "tree_rel H sp t" and "sp_committed sp 0 = Some m"
  shows "merkle_root H (hashed H m) = EmptyHash"
  using committedD(1) [OF assms] by (simp add: version_ok_def merkle_root_def split: if_splits)

text \<open>The version manager after the root keys were read.\<close>

lemma reopened_vm:
  assumes vs: "distinct (map fst vs)" "\<And>v h. map_of vs v = Some h \<Longrightarrow> 0 < v \<and> v \<le> L" and L: "L = 0 \<or> map_of vs L \<noteq> None" "L \<le> MaxVersion"
    and vm: "vm = (NewVersionManager now)\<lparr>versions := fold (\<lambda>(v, h). gm_put v (reopenedInfo now v h)) vs (versions (NewVersionManager now)),
      latestVersion := L, committedVersion := L\<rparr>"
  shows "vm_inv vm \<and> pendingWrites vm = [] \<and> latestVersion vm = L \<and> committedVersion vm = L"
proof -
  have get: "gm_get (versions vm) v = (case map_of vs v of Some h \<Rightarrow> Some (reopenedInfo now v h) | None \<Rightarrow> if v = 0 then Some (initialInfo now) else None)" for v
    by (simp add: vm fold_put_get [OF vs(1)] NewVersionManager_def NewVersionManagerWithRetention_def InitialVersion_def split: option.split)
  have "gm_wf (versions vm)" by (simp add: vm fold_put_wf NewVersionManager_def NewVersionManagerWithRetention_def)
  moreover have "pendingWrites vm = []" "latestVersion vm = L" "committedVersion vm = L"
    by (simp_all add: vm NewVersionManager_def NewVersionManagerWithRetention_def)
  moreover have "\<exists>i. gm_get (versions vm) L = Some i \<and> vi_Status i = VersionStatusCommitted"
    using L(1) by (auto simp: get reopenedInfo_def initialInfo_def split: option.split)
  moreover have "v \<le> L \<and> vi_Version i = v \<and> vi_Status i = VersionStatusCommitted" if "gm_get (versions vm) v = Some i" for v i
    using that vs(2) [of v] by (auto simp: get reopenedInfo_def initialInfo_def InitialVersion_def split: option.splits if_splits)
  moreover have "VersionStatusCommitted \<noteq> VersionStatusPending" by simp
  ultimately show ?thesis using L(2) unfolding vm_inv_def by (simp del: map_of_eq_Some_iff)
qed

lemma rel_root: "tree_rel H sp t \<Longrightarrow> gm_get (t_rootHashes t) v = map_option (\<lambda>m. merkle_root H (hashed H m)) (sp_committed sp v)"
  using tree_relD(7) by (simp add: versions_rel_def)

lemma durable_le:
  assumes "tree_rel H sp t" and "durable t" and "sp_committed sp v \<noteq> None"
  shows "v \<le> sp_current sp"
  using assms(2,3) rel_root [OF assms(1), of v] tree_relD(4) [OF assms(1)] by (auto simp: durable_def)

text \<open>The state after the root keys were read.\<close>

lemma reopen_load:
  assumes rel: "tree_rel H sp t" and dur: "durable t" and H: "\<And>x. wf_hash (H x)"
  shows "\<exists>t1. loadRootHashes now \<lparr>t_db = t_db t, t_latestVer = 0, t_rootHashes = [], t_config = cfg,
        t_versionManager = NewVersionManager now, t_stats = NewTreeStats\<rparr> = (Inr (), t1)
    \<and> t_db t1 = t_db t \<and> t_latestVer t1 = sp_current sp
    \<and> (\<forall>v. gm_get (t_rootHashes t1) v = (if 0 < v then gm_get (t_rootHashes t) v else None))
    \<and> (sp_current sp = 0 \<longrightarrow> t_rootHashes t1 = [] \<and> versions (t_versionManager t1) = [(0, initialInfo now)])
    \<and> vm_inv (t_versionManager t1) \<and> pendingWrites (t_versionManager t1) = []
    \<and> latestVersion (t_versionManager t1) = sp_current sp \<and> committedVersion (t_versionManager t1) = sp_current sp"
proof -
  note R = tree_relD [OF rel] and root = rel_root [OF rel]
  obtain vs where scan: "map (\<lambda>k. (k, gm_get (ms_data (t_db t)) k)) (filter (inBounds rootOptions) (sort (map fst (ms_data (t_db t)))))
      = map (\<lambda>(v, h). (DefaultKeyEncoder_RootKey v, Some h)) vs" and dist: "distinct (map fst vs)"
    and vs: "\<And>v. map_of vs v = (if 0 < v then gm_get (t_rootHashes t) v else None)"
    using durable_roots [OF dur] by blast
  have cur: "sp_committed sp (sp_current sp) \<noteq> None" using R(7) by (simp add: versions_rel_def)
  have vsD: "0 < v \<and> length h = 32 \<and> v \<le> sp_current sp" if "(v, h) \<in> set vs" for v h
  proof -
    have v: "0 < v" "gm_get (t_rootHashes t) v = Some h" using map_of_is_SomeI [OF dist that] vs [of v] by (simp_all split: if_splits)
    then obtain m where "sp_committed sp v = Some m" "h = merkle_root H (hashed H m)" using root [of v] by auto
    with v(1) durable_le [OF rel dur, of v] wf_merkle_root [of H "hashed H m"] H show ?thesis by (simp add: wf_hash_def HashSize_def)
  qed
  obtain i db1 where it: "NewIterator (t_db t) rootOptions = (MemIterator i, db1)" "closeIterator (MemIterator i) db1 = t_db t"
      "scan (MemIterator i) = map (\<lambda>(v, h). (DefaultKeyEncoder_RootKey v, Some h)) vs"
    using iterator_roundtrip [of "t_db t" rootOptions] R(5) dur scan by (auto simp: store_ok_def iterators_free_def durable_def)
  let ?t0 = "\<lparr>t_db = t_db t, t_latestVer = 0, t_rootHashes = [], t_config = cfg, t_versionManager = NewVersionManager now, t_stats = NewTreeStats\<rparr>"
  have "\<forall>(v, h) \<in> set vs. 0 < v \<and> length h = 32" using vsD by auto
  from loadRoots_ok [OF this, of now ?t0] obtain t1 where t1: "loadRoots now (map (\<lambda>(v, h). (DefaultKeyEncoder_RootKey v, Some h)) vs) ?t0 = (Inr (), t1)"
    "t_db t1 = t_db t" "t_rootHashes t1 = fold (\<lambda>(v, h). gm_put v h) vs []" "t_latestVer t1 = fold (\<lambda>(v, h). max v) vs 0"
    "t_versionManager t1 = (NewVersionManager now)\<lparr>versions := fold (\<lambda>(v, h). gm_put v (reopenedInfo now v h)) vs (versions (NewVersionManager now))\<rparr>"
    by auto
  have roots: "gm_get (t_rootHashes t1) v = (if 0 < v then gm_get (t_rootHashes t) v else None)" for v
    using fold_put_get [OF dist, of "\<lambda>v h. h" "[]" v] vs [of v] by (simp add: t1(3) split: option.splits)
  have found: "sp_current sp = 0 \<or> map_of vs (sp_current sp) \<noteq> None" using vs root cur by (auto simp: word_gt_0)
  have latest: "t_latestVer t1 = sp_current sp"
    using fold_max(3) [of vs 0] fold_max(2) [of "sp_current sp" _ vs 0] vsD found
    by (auto simp: t1(4) intro!: antisym dest!: map_of_SomeD)
  have none: "vs = []" if "sp_current sp = 0" using vsD that by (cases vs) auto
  let ?vm = "(t_versionManager t1)\<lparr>latestVersion := t_latestVer t1, committedVersion := t_latestVer t1\<rparr>"
  have "sp_current sp \<le> MaxVersion"
    using cur committedD(2) [OF rel] vm_invD(3) [OF R(1)] R(2) by (auto intro: order.trans)
  with found have "vm_inv ?vm \<and> pendingWrites ?vm = [] \<and> latestVersion ?vm = sp_current sp \<and> committedVersion ?vm = sp_current sp"
    using vsD by (intro reopened_vm [OF dist]) (auto simp: latest t1(5) dest!: map_of_SomeD)
  then show ?thesis
    using it t1(1,2) latest roots none
    by (intro exI [where x = "t1\<lparr>t_versionManager := ?vm\<rparr>"])
      (simp add: loadRootHashes_def t1(3,5) NewVersionManager_def NewVersionManagerWithRetention_def InitialVersion_def
        del: scan.simps closeIterator.simps map_of_eq_Some_iff)
qed

text \<open>A tree on the same storage that knows the committed versions represents the reopened specification.\<close>

lemma reopened_rel:
  assumes rel: "tree_rel H sp t" and dur: "durable t" and db: "t_db t' = t_db t" "t_latestVer t' = sp_current sp"
    and roots: "\<And>v. gm_get (t_rootHashes t') v = map_option (\<lambda>m. merkle_root H (hashed H m)) (sp_committed (spec_reopen sp) v)"
    and vm: "vm_inv (t_versionManager t')" "pendingWrites (t_versionManager t') = []"
      "latestVersion (t_versionManager t') = sp_current sp" "committedVersion (t_versionManager t') = sp_current sp"
  shows "tree_rel H (spec_reopen sp) t' \<and> durable t'"
proof -
  note R = tree_relD [OF rel] and D = dur [unfolded durable_def] and le = durable_le [OF rel dur] and root = rel_root [OF rel]
  have sub: "sp_committed sp v = Some m" if "sp_committed (spec_reopen sp) v = Some m" for v m
    using that by (simp add: spec_reopen_def split: if_splits)
  have spec_sel: "sp_hist (spec_reopen sp) = sp_hist sp" "sp_latest (spec_reopen sp) = sp_current sp" "sp_current (spec_reopen sp) = sp_current sp"
    "sp_pending (spec_reopen sp) = Map.empty"
    by (simp_all add: spec_reopen_def)
  have old: "version_ok H (sp_hist sp) (loadNodeFromStorage (t_db t)) m v \<and> v \<le> sp_current sp \<and> Map.empty v = None"
    if "sp_committed (spec_reopen sp) v = Some m" for v m
    using committedD(1) [OF rel sub [OF that]] le [of v] sub [OF that] by simp
  have known: "0 < w \<and> gm_get (t_rootHashes t) w \<noteq> None" if "wf_nibbles q" "gm_get (ms_data (t_db t)) (skey w q) \<noteq> None" for w q
    using D that by blast
  have "unwritten (t_versionManager t') (t_db t)"
    unfolding unwritten_def
  proof (intro allI impI)
    fix w q assume q: "wf_nibbles q" "latestVersion (t_versionManager t') < w \<or> gm_get (pendingWrites (t_versionManager t')) w \<noteq> None"
    then have "\<not> w \<le> sp_current sp" using vm by (simp add: leD)
    then have "gm_get (t_rootHashes t) w = None" using le [of w] root [of w] by (cases "sp_committed sp w") auto
    with known [OF q(1)] show "gm_get (ms_data (t_db t)) (skey w q) = None" by blast
  qed
  moreover have "sp_committed (spec_reopen sp) (sp_current sp) \<noteq> None" using R(7) by (auto simp: versions_rel_def spec_reopen_def)
  then have "versions_rel H (spec_reopen sp) t'"
    unfolding versions_rel_def db spec_sel using roots old by blast
  moreover have "pending_rel H (spec_reopen sp) t'" using vm(2) by (simp add: pending_rel_def spec_reopen_def)
  ultimately have "tree_rel H (spec_reopen sp) t'" using vm R(5) by (simp add: tree_rel_def spec_reopen_def db)
  moreover have "durable t'"
  proof -
    have same: "gm_get (t_rootHashes t') v = gm_get (t_rootHashes t) v" if "0 < v" for v
      using roots [of v] root [of v] that by (auto simp: spec_reopen_def)
    have "\<forall>v. gm_get (t_rootHashes t') v \<noteq> None \<longrightarrow> v \<le> sp_current sp"
    proof (intro allI impI)
      fix v assume "gm_get (t_rootHashes t') v \<noteq> None"
      then show "v \<le> sp_current sp" using roots [of v] sub [of v] le [of v] by (cases "sp_committed (spec_reopen sp) v") auto
    qed
    moreover have "\<forall>v > 0. gm_get (ms_data (t_db t)) (DefaultKeyEncoder_RootKey v) = gm_get (t_rootHashes t') v" using D same by simp
    moreover have "\<forall>w q. wf_nibbles q \<longrightarrow> gm_get (ms_data (t_db t)) (skey w q) \<noteq> None \<longrightarrow> 0 < w \<and> gm_get (t_rootHashes t') w \<noteq> None"
      using known same by metis
    ultimately show ?thesis using D unfolding durable_def db by (elim conjE, intro conjI) assumption+
  qed
  ultimately show ?thesis by blast
qed

lemma reopen_rel:
  assumes rel: "tree_rel H sp t" and dur: "durable t" and H: "\<And>x. wf_hash (H x)" and cfg: "0 < cf_CacheSize cfg"
  shows "\<exists>t'. NewTree now (t_db t) cfg = Inr t' \<and> tree_rel H (spec_reopen sp) t' \<and> durable t'"
proof -
  obtain t1 where load: "loadRootHashes now \<lparr>t_db = t_db t, t_latestVer = 0, t_rootHashes = [], t_config = cfg,
        t_versionManager = NewVersionManager now, t_stats = NewTreeStats\<rparr> = (Inr (), t1)"
    and t1: "t_db t1 = t_db t" "t_latestVer t1 = sp_current sp"
    and roots: "\<And>v. gm_get (t_rootHashes t1) v = (if 0 < v then gm_get (t_rootHashes t) v else None)"
    and zero: "sp_current sp = 0 \<Longrightarrow> t_rootHashes t1 = [] \<and> versions (t_versionManager t1) = [(0, initialInfo now)]"
    and vm: "vm_inv (t_versionManager t1)" "pendingWrites (t_versionManager t1) = []"
      "latestVersion (t_versionManager t1) = sp_current sp" "committedVersion (t_versionManager t1) = sp_current sp"
    using reopen_load [OF rel dur H, of now cfg] by blast
  have cur: "sp_committed sp (sp_current sp) \<noteq> None" using tree_relD(7) [OF rel] by (simp add: versions_rel_def)
  show ?thesis
  proof (cases "sp_current sp = 0")
    case False
    then have new: "NewTree now (t_db t) cfg = Inr t1" using cfg load t1(2) by (simp add: NewTree_def Let_def)
    have "gm_get (t_rootHashes t1) v = map_option (\<lambda>m. merkle_root H (hashed H m)) (sp_committed (spec_reopen sp) v)" for v
      using False roots [of v] rel_root [OF rel, of v] by (auto simp: spec_reopen_def word_gt_0)
    from reopened_rel [OF rel dur t1 this vm] new show ?thesis by blast
  next
    case True
    then obtain m where m: "sp_committed sp 0 = Some m" using cur by auto
    let ?t = "t1\<lparr>t_rootHashes := [(0, EmptyHash)]\<rparr>"
    have new: "NewTree now (t_db t) cfg = Inr ?t"
      using cfg load t1(2) zero [OF True] True vm(3,4) by (cases "t_versionManager t1") (simp add: NewTree_def Let_def)
    have "gm_get (t_rootHashes ?t) v = map_option (\<lambda>m. merkle_root H (hashed H m)) (sp_committed (spec_reopen sp) v)" for v
      using True version_zero [OF rel m] m durable_le [OF rel dur, of v]
      by (cases "v = 0"; cases "sp_committed sp v") (simp_all add: spec_reopen_def)
    from reopened_rel [OF rel dur, of ?t, OF _ _ this] t1 vm new show ?thesis by auto
  qed
qed

end
