(* ===== verification/TreeHealth.thy ===== *)
theory TreeHealth
  imports TreeRuns
begin

text \<open>
  Checks of a stored version: \<^verbatim>\<open>pkg/tree/validation.go\<close> and \<^verbatim>\<open>pkg/tree/health.go\<close>. Both walk the nodes of a version
  from its root and remember the node keys they have seen, the first as strings, the second as storage keys. The
  walk of \<open>ValidateTreeStructure\<close> ends on every storage, also on a corrupted one. The walk of \<open>VerifyIntegrity\<close> has
  no bound on the depth, so it takes fuel; 65 levels are enough for a tree. The context is the function that tells at
  each poll whether it is cancelled.
\<close>

section \<open>The string of a node key\<close>

definition digit :: "nat \<Rightarrow> char" where
  "digit n = char_of (if n < 10 then 48 + n else 87 + n)"

fun decimal :: "nat \<Rightarrow> string" where
  "decimal n = (if n < 10 then [digit n] else decimal (n div 10) @ [digit (n mod 10)])"

definition hexByte :: "byte \<Rightarrow> string" where
  "hexByte b = (if unat b < 16 then [digit (unat b)] else [digit (unat b div 16), digit (unat b mod 16)])"

text \<open>The loop over the nibbles, from index \<open>i\<close> on.\<close>

fun nibbleStr :: "nibble list \<Rightarrow> nat \<Rightarrow> nat \<Rightarrow> string result" where
  "nibbleStr ns i 0 = Inr []"
| "nibbleStr ns i (Suc left) = bindE (idx ns i) (\<lambda>n. bindE (nibbleStr ns (Suc i) left) (\<lambda>s. Inr (hexByte n @ s)))"

definition NodeKey_String :: "NodeKey \<Rightarrow> string result" where
  "NodeKey_String nk =
     (if Length (nk_NibblePath nk) = 0 then Inr (''v'' @ decimal (unat (nk_Version nk)) @ '':'')
      else bindE (nibbleStr (Nibbles (nk_NibblePath nk)) 0 (unat (Length (nk_NibblePath nk)))) (\<lambda>s.
             Inr (''v'' @ decimal (unat (nk_Version nk)) @ '':'' @ s)))"

section \<open>ValidateTreeStructure\<close>

text \<open>A longer path never wraps around to a short one: the append panics at the last length of 16 bits.\<close>

lemma Append_longer:
  assumes "NibblePath_Append np n = Inr p"
  shows "unat (Length p) = Suc (unat (Length np))"
proof -
  have "unat (Length np) < unat (Length np + 1)"
    using assms by (auto simp: NibblePath_Append_def setidx_def split: if_splits)
  then have "Length np + 1 \<noteq> 0" by auto
  then have "unat (Length np + 1) = Suc (unat (Length np))" by (simp add: unatSuc add.commute)
  moreover have "Length p = Length np + 1" using assms by (auto simp: NibblePath_Append_def bindE_eq_Inr)
  ultimately show ?thesis by simp
qed

function structure_validateNode :: "TreeReader \<Rightarrow> Node option \<Rightarrow> version \<Rightarrow> NibblePath \<Rightarrow> string list \<Rightarrow> unit result \<times> string list"
  and structure_validateChildren :: "TreeReader \<Rightarrow> InternalNode \<Rightarrow> NibblePath \<Rightarrow> nibble list \<Rightarrow> string list \<Rightarrow> unit result \<times> string list" where
  "structure_validateNode reader node version path visited =
     (case NodeKey_String \<lparr>nk_Version = version, nk_NibblePath = path\<rparr> of
        Inl e \<Rightarrow> (Inl e, visited)
      | Inr nodeKeyStr \<Rightarrow>
          if nodeKeyStr \<in> set visited then (Inl (Errorf ''cycle detected''), visited)
          else case node of
                 None \<Rightarrow> (Inr (), nodeKeyStr # visited)
               | Some (Leaf n) \<Rightarrow>
                   (case IsPrefix path (NewNibblePath (l_key n)) of
                      Inl e \<Rightarrow> (Inl e, nodeKeyStr # visited)
                    | Inr False \<Rightarrow> (Inl (Errorf ''leaf path mismatch''), nodeKeyStr # visited)
                    | Inr True \<Rightarrow> (Inr (), nodeKeyStr # visited))
               | Some (Internal n) \<Rightarrow>
                   if unat (Length path) \<ge> MaxTreeDepth then (Inl (Errorf ''internal node exceeds maximum allowed depth''), nodeKeyStr # visited)
                   else if NumChildren n < 1 then (Inl (Errorf ''internal node has no children''), nodeKeyStr # visited)
                   else structure_validateChildren reader n path nibble_range (nodeKeyStr # visited))"
| "structure_validateChildren reader n path [] visited = (Inr (), visited)"
| "structure_validateChildren reader n path (nibble # rest) visited =
     (case InternalNode_Child n nibble of
        None \<Rightarrow> structure_validateChildren reader n path rest visited
      | Some child \<Rightarrow>
          (case NibblePath_Append path nibble of
             Inl e \<Rightarrow> (Inl e, visited)
           | Inr childPath \<Rightarrow>
               (case Reader_loadNode reader \<lparr>nk_Version = c_Version child, nk_NibblePath = childPath\<rparr> of
                  Inl err \<Rightarrow> (Inl (wrapE ''failed to load child'' err), visited)
                | Inr childNode \<Rightarrow>
                    (case structure_validateNode reader childNode (c_Version child) childPath visited of
                       (Inl err, visited1) \<Rightarrow> (Inl err, visited1)
                     | (Inr _, visited1) \<Rightarrow> structure_validateChildren reader n path rest visited1))))"
  by pat_completeness auto
termination
proof (relation "measures [case_sum (\<lambda>(r, nd, v, p, vis). 65536 - unat (Length p)) (\<lambda>(r, n, p, ns, vis). 65536 - unat (Length p)),
    case_sum (\<lambda>_. 17) (\<lambda>(r, n, p, ns, vis). length ns)]")
  show "(Inl (r, nd, c_Version c, p', vis), Inr (r, n, p, nb # rest, vis)) \<in> measures
      [case_sum (\<lambda>(r, nd, v, p, vis). 65536 - unat (Length p)) (\<lambda>(r, n, p, ns, vis). 65536 - unat (Length p)),
       case_sum (\<lambda>_. 17) (\<lambda>(r, n, p, ns, vis). length ns)]" if "NibblePath_Append p nb = Inr p'" for r nd c p' vis n p nb rest
  proof -
    have "unat (Length p') < 2 ^ 16" using unsigned_less [of "Length p'"] by simp
    with Append_longer [OF that] show ?thesis by simp arith
  qed
qed (auto simp: nibble_range_def)

declare structure_validateNode.simps [simp del]

definition ValidateTreeStructure :: "Tree \<Rightarrow> version \<Rightarrow> unit result \<times> Tree" where
  "ValidateTreeStructure tree version =
     (case GetRootHash tree version of
        Inl err \<Rightarrow> (Inl (wrapE ''failed to get root hash'' err), tree)
      | Inr rootHash \<Rightarrow>
          if rootHash = EmptyHash then (Inr (), tree)
          else let (snap, db1) = NewSnapshot (t_db tree);
                   reader = \<lparr>rd_snapshot = snap, rd_version = version, rd_rootHash = rootHash\<rparr>
               in ((case Reader_loadNode reader (RootNodeKey version) of
                      Inl err \<Rightarrow> Inl (wrapE ''failed to load root'' err)
                    | Inr root \<Rightarrow> fst (structure_validateNode reader root version emptyPath [])),
                   tree\<lparr>t_db := snd (Snapshot_Close snap db1)\<rparr>))"

section \<open>VerifyIntegrity\<close>

text \<open>
  \<open>None\<close> is a walk that ran out of fuel. The state counts the polls of the context and has the storage keys that
  were visited. The children are visited in one of the orders that Go may choose for a map.
\<close>

type_synonym walk = "nat \<times> bytes list"

fun verifyNode :: "(bytes \<Rightarrow> hash) \<Rightarrow> (nat \<Rightarrow> error option) \<Rightarrow> TreeReader \<Rightarrow> nat \<Rightarrow> NodeKey \<Rightarrow> walk \<Rightarrow> (unit result \<times> walk) option"
  and verifyChildren :: "(bytes \<Rightarrow> hash) \<Rightarrow> (nat \<Rightarrow> error option) \<Rightarrow> TreeReader \<Rightarrow> nat \<Rightarrow> NodeKey \<Rightarrow> (nibble \<times> Child) list \<Rightarrow> walk
    \<Rightarrow> (unit result \<times> walk) option" where
  "verifyNode H ctx reader 0 key st = None"
| "verifyNode H ctx reader (Suc fuel) key (polls, visited) =
     (case ctx polls of
        Some err \<Rightarrow> Some (Inl err, Suc polls, visited)
      | None \<Rightarrow>
          (case DefaultKeyEncoder_NodeKey key of
             Inl e \<Rightarrow> Some (Inl e, Suc polls, visited)
           | Inr visitKey \<Rightarrow>
               if visitKey \<in> set visited then Some (Inr (), Suc polls, visited)
               else let st = (Suc polls, visitKey # visited)
                    in case Reader_loadNode reader key of
                         Inl err \<Rightarrow> Some (Inl (wrapE ''failed to load node'' err), st)
                       | Inr None \<Rightarrow> Some (Inl (Errorf ''node not found''), st)
                       | Inr (Some node) \<Rightarrow>
                           if Node_Hash H node = EmptyHash then Some (Inl (Errorf ''invalid empty hash for node''), st)
                           else case AsInternal node of
                                  None \<Rightarrow> Some (Inr (), st)
                                | Some internal \<Rightarrow> verifyChildren H ctx reader fuel key (Children internal) st))"
| "verifyChildren H ctx reader fuel key [] st = Some (Inr (), st)"
| "verifyChildren H ctx reader fuel key ((nibble, child) # rest) st =
     (if Child_IsEmpty child then verifyChildren H ctx reader fuel key rest st
      else case verifyNode H ctx reader fuel
                  \<lparr>nk_Version = c_Version child,
                   nk_NibblePath = \<lparr>Nibbles = Nibbles (nk_NibblePath key) @ [nibble], Length = Length (nk_NibblePath key) + 1\<rparr>\<rparr> st of
             None \<Rightarrow> None
           | Some (Inl err, st1) \<Rightarrow> Some (Inl err, st1)
           | Some (Inr _, st1) \<Rightarrow> verifyChildren H ctx reader fuel key rest st1)"

definition VerifyIntegrity :: "(bytes \<Rightarrow> hash) \<Rightarrow> nat \<Rightarrow> (nat \<Rightarrow> error option) \<Rightarrow> Tree \<Rightarrow> version \<Rightarrow> unit result option \<times> Tree" where
  "VerifyIntegrity H fuel ctx tree version =
     (if \<not> HasVersion tree version then (Some (Inl ErrVersionNotFound), tree)
      else let (snap, db1) = NewSnapshot (t_db tree);
               reader = \<lparr>rd_snapshot = snap, rd_version = version, rd_rootHash = replicate 32 0\<rparr>
           in (map_option fst (verifyNode H ctx reader fuel (RootNodeKey version) (0, [])),
               tree\<lparr>t_db := snd (Snapshot_Close snap db1)\<rparr>))"

definition CheckVersion :: "Tree \<Rightarrow> version \<Rightarrow> unit result" where
  "CheckVersion tree version =
     (if \<not> HasVersion tree version then Inl ErrVersionNotFound
      else bindE (GetRootHash tree version) (\<lambda>rootHash. bindE (Tree_IsEmpty tree version) (\<lambda>isEmpty.
             if isEmpty \<and> rootHash \<noteq> EmptyHash then Inl (Errorf ''empty tree should have empty hash'') else Inr ())))"

section \<open>Names of visited nodes\<close>

text \<open>
  A walk below the path \<open>p\<close> records names of nodes below \<open>p\<close> only, so a node whose path is not below \<open>p\<close> stays unvisited.
\<close>

definition fresh :: "(version \<Rightarrow> nibble list \<Rightarrow> 'a) \<Rightarrow> nibble list \<Rightarrow> 'a list \<Rightarrow> bool" where
  "fresh name p vis \<longleftrightarrow> (\<forall>w q. wf_nibbles q \<longrightarrow> take (length p) q = p \<longrightarrow> name w q \<notin> set vis)"

definition added :: "(version \<Rightarrow> nibble list \<Rightarrow> 'a) \<Rightarrow> nibble list \<Rightarrow> 'a list \<Rightarrow> 'a list \<Rightarrow> bool" where
  "added name p vis vis' \<longleftrightarrow> (\<forall>s \<in> set vis'. s \<in> set vis \<or> (\<exists>w q. wf_nibbles q \<and> take (length p) q = p \<and> s = name w q))"

definition naming :: "(version \<Rightarrow> nibble list \<Rightarrow> 'a) \<Rightarrow> bool" where
  "naming name \<longleftrightarrow> (\<forall>v p w q. wf_nibbles p \<longrightarrow> wf_nibbles q \<longrightarrow> name v p = name w q \<longrightarrow> p = q)"

lemma added_refl [simp]: "added name p vis vis"
  by (simp add: added_def)

lemma added_self: "wf_nibbles p \<Longrightarrow> added name p vis (name v p # vis)"
  unfolding added_def by (metis order_refl set_ConsD take_all)

lemma added_trans: "added name p vis vis1 \<Longrightarrow> added name p vis1 vis2 \<Longrightarrow> added name p vis vis2"
  unfolding added_def by blast

lemma take_snoc: "take (Suc (length p)) q = p @ [n] \<Longrightarrow> take (length p) q = p"
  by (metis append_eq_conv_conj length_append_singleton lessI less_imp_le_nat min.absorb1 take_take)

lemma added_child: "added name (p @ [n]) vis vis' \<Longrightarrow> added name p vis vis'"
  unfolding added_def by (auto dest: take_snoc)

lemma fresh_child: "fresh name p vis \<Longrightarrow> fresh name (p @ [n]) vis"
  unfolding fresh_def by (auto dest: take_snoc)

lemma fresh_self:
  assumes "naming name" and "wf_nibbles p" and "fresh name p vis"
  shows "name v p \<notin> set vis" and "fresh name (p @ [n]) (name v p # vis)"
proof -
  show "name v p \<notin> set vis" using assms(2,3) by (simp add: fresh_def)
  have "q \<noteq> p" if "take (Suc (length p)) q = p @ [n]" for q using that by auto
  then have "name w q \<noteq> name v p" if "wf_nibbles q" "take (Suc (length p)) q = p @ [n]" for w q
    using assms(1,2) that unfolding naming_def by blast
  with fresh_child [OF assms(3)] show "fresh name (p @ [n]) (name v p # vis)" by (auto simp: fresh_def)
qed

lemma fresh_sibling:
  assumes "naming name" and "fresh name (p @ [n']) vis" and "added name (p @ [n]) vis vis'" and "n' \<noteq> n"
  shows "fresh name (p @ [n']) vis'"
  unfolding fresh_def
proof (intro allI impI notI)
  fix w q assume q: "wf_nibbles q" "take (length (p @ [n'])) q = p @ [n']" "name w q \<in> set vis'"
  from q(3) assms(2,3) q(1,2) obtain w' q' where "wf_nibbles q'" "take (length (p @ [n])) q' = p @ [n]" "name w q = name w' q'"
    unfolding added_def fresh_def by blast
  moreover from this q(1) assms(1) have "q = q'" unfolding naming_def by blast
  ultimately show False using q(2) assms(4) by simp
qed

definition keyString :: "version \<Rightarrow> nibble list \<Rightarrow> string" where
  "keyString v q = ''v'' @ decimal (unat v) @ '':'' @ map (\<lambda>n. digit (unat n)) q"

declare decimal.simps [simp del]

lemma digit_inject: "m < 16 \<Longrightarrow> n < 16 \<Longrightarrow> digit m = digit n \<longleftrightarrow> m = n"
  by (auto simp: digit_def char_of_eq_iff take_bit_nat_eq_self split: if_splits)

lemma colon_decimal: "CHR '':'' \<notin> set (decimal n)"
proof (induction n rule: decimal.induct)
  case (1 n)
  have "digit m \<noteq> CHR '':''" if "m < 10" for m
    using that by (auto simp: digit_def char_of_eq_iff take_bit_nat_eq_self)
  then have "CHR '':'' \<noteq> digit (n mod 10)" "n < 10 \<Longrightarrow> CHR '':'' \<noteq> digit n" by (metis mod_less_divisor zero_less_numeral)+
  with 1 show ?case by (simp add: decimal.simps [of n])
qed

lemma nibbleStr_eq: "i + left \<le> length ns \<Longrightarrow> nibbleStr ns i left = Inr (concat (map hexByte (take left (drop i ns))))"
proof (induction left arbitrary: i)
  case (Suc left)
  then have "drop i ns = ns ! i # drop (Suc i) ns" by (simp add: Cons_nth_drop_Suc)
  with Suc show ?case by simp
qed simp

lemma NodeKey_String_nkey:
  assumes "wf_nibbles q"
  shows "NodeKey_String (nkey v q) = Inr (keyString v q)"
proof -
  have "unat n < 16" if "n \<in> set q" for n
    using assms that by (auto simp: wf_nibbles_def MaxNibbleValue_def word_le_nat_alt)
  then have "concat (map hexByte q) = map (\<lambda>n. digit (unat n)) q" by (induction q) (auto simp: hexByte_def)
  moreover have "length q \<le> MaxTreeDepth" using assms by (simp add: wf_nibbles_def)
  moreover from this have "Length (mkpath q) = 0 \<longleftrightarrow> q = []" by (metis length_0_conv unat_Length_mkpath unat_eq_zero)
  ultimately show ?thesis
    by (simp add: NodeKey_String_def nkey_def keyString_def nibbleStr_eq)
qed

lemma naming_keyString: "naming keyString"
  unfolding naming_def
proof (intro allI impI)
  fix v p w q assume wf: "wf_nibbles p" "wf_nibbles q" and eq: "keyString v p = keyString w q"
  have tail: "dropWhile (\<lambda>c. c \<noteq> CHR '':'') (tl (keyString u r)) = CHR '':'' # map (\<lambda>n. digit (unat n)) r" for u r
    using colon_decimal [of "unat u"] by (auto simp: keyString_def dropWhile_append)
  have "map (\<lambda>n. digit (unat n)) p = map (\<lambda>n. digit (unat n)) q" using tail [of v p] tail [of w q] eq by simp
  moreover have "inj_on (\<lambda>n :: nibble. digit (unat n)) {n. n \<le> MaxNibbleValue}"
    by (rule inj_onI) (auto simp: digit_inject MaxNibbleValue_def word_le_nat_alt word_unat_eq_iff)
  ultimately show "p = q" using wf by (auto simp: wf_nibbles_def intro!: map_inj_on [of "\<lambda>n. digit (unat n)"] elim: inj_on_subset)
qed

lemma naming_skey: "naming skey"
  by (simp add: naming_def)

section \<open>The walks over a stored version\<close>

definition serves :: "TreeReader \<Rightarrow> (NodeKey \<Rightarrow> Node result) \<Rightarrow> bool" where
  "serves rd g \<longleftrightarrow> (\<forall>w q n. wf_nibbles q \<longrightarrow> g (nkey w q) = Inr n \<longrightarrow> Reader_loadNode rd (nkey w q) = Inr (Some n))"

lemma serves_reads: "reads rd db \<Longrightarrow> serves rd (loadNodeFromStorage db)"
  using Reader_loadNode_reads by (simp add: serves_def)

lemma structure_validateChildren_ok:
  assumes "wf_nibbles p" and "length p < MaxTreeDepth" and "distinct ns"
    and "\<And>n c. n \<in> set ns \<Longrightarrow> gm_get (i_children i) n = Some c \<Longrightarrow>
      \<exists>nd. Reader_loadNode rd (nkey (c_Version c) (p @ [n])) = Inr (Some nd)
        \<and> (\<forall>vis. fresh keyString (p @ [n]) vis \<longrightarrow> (\<exists>vis'. structure_validateNode rd (Some nd) (c_Version c) (mkpath (p @ [n])) vis = (Inr (), vis')
             \<and> added keyString (p @ [n]) vis vis'))"
    and "\<forall>n \<in> set ns. fresh keyString (p @ [n]) vis"
  shows "\<exists>vis'. structure_validateChildren rd i (mkpath p) ns vis = (Inr (), vis') \<and> added keyString p vis vis'"
  using assms(3-)
proof (induction ns arbitrary: vis)
  case (Cons n ns)
  show ?case
  proof (cases "gm_get (i_children i) n")
    case None
    with Cons show ?thesis by (simp add: InternalNode_Child_def)
  next
    case (Some c)
    obtain nd vis1 where nd: "Reader_loadNode rd (nkey (c_Version c) (p @ [n])) = Inr (Some nd)"
      and v1: "structure_validateNode rd (Some nd) (c_Version c) (mkpath (p @ [n])) vis = (Inr (), vis1)" "added keyString (p @ [n]) vis vis1"
      using Cons.prems(2) [of n c] Some Cons.prems(3) by auto
    have "fresh keyString (p @ [n']) vis1" if "n' \<in> set ns" for n'
      using fresh_sibling [OF naming_keyString _ v1(2)] Cons.prems(1,3) that by auto
    then obtain vis2 where "structure_validateChildren rd i (mkpath p) ns vis1 = (Inr (), vis2)" "added keyString p vis1 vis2"
      using Cons.IH [of vis1] Cons.prems(1,2) by auto
    with Some nd v1 added_trans [OF added_child [OF v1(2)]] assms(2) show ?thesis by (simp add: InternalNode_Child_def nkey_def)
  qed
qed simp

lemma rep_child:
  assumes "rep g H m v p (Suc r)" and "wf_nibbles p" and "length p + Suc r = MaxTreeDepth" and "serves rd g"
  shows "\<exists>i. Reader_loadNode rd (nkey v p) = Inr (Some (Internal i)) \<and> g (nkey v p) = Inr (Internal i) \<and> i_children i \<noteq> [] \<and> wf_node (Internal i)
    \<and> (\<forall>n c. gm_get (i_children i) n = Some c \<longrightarrow> n \<le> MaxNibbleValue \<and> wf_nibbles (p @ [n]) \<and> rep g H m (c_Version c) (p @ [n]) r
         \<and> merkle H m (p @ [n]) r = Some (c_Hash c))"
proof -
  obtain i where i: "g (nkey v p) = Inr (Internal i)" "wf_node (Internal i)" "i_children i \<noteq> []"
    and ch: "\<forall>n \<le> MaxNibbleValue. child_ok g H m v p r i n"
    using assms(1) unfolding rep_Suc by blast
  have "n \<le> MaxNibbleValue" if "gm_get (i_children i) n = Some c" for n c using gm_get_children_nibble [OF i(2) that] .
  moreover from this have "wf_nibbles (p @ [n])" if "gm_get (i_children i) n = Some c" for n c
    using that assms(2,3) by (intro wf_nibbles_snoc) auto
  moreover have "rep g H m (c_Version c) (p @ [n]) r \<and> merkle H m (p @ [n]) r = Some (c_Hash c)" if "gm_get (i_children i) n = Some c" for n c
    using ch gm_get_children_nibble [OF i(2) that] that by (auto simp: child_ok_def)
  ultimately show ?thesis using i assms(2,4) by (simp add: serves_def)
qed

lemma structure_validateNode_ok:
  assumes "rep g H m v p r" and "wf_nibbles p" and "length p + r = MaxTreeDepth" and "serves rd g" and "fresh keyString p vis"
    and "g (nkey v p) = Inr nd"
  shows "\<exists>vis'. structure_validateNode rd (Some nd) v (mkpath p) vis = (Inr (), vis') \<and> added keyString p vis vis'"
  using assms
proof (induction r arbitrary: v p vis nd)
  case 0
  then obtain l where l: "nd = Leaf l" "l_key l = pack p" by auto
  have key: "NodeKey_String \<lparr>nk_Version = v, nk_NibblePath = mkpath p\<rparr> = Inr (keyString v p)"
    using NodeKey_String_nkey [OF "0.prems"(2), of v] by (simp add: nkey_def)
  have "NewNibblePath (pack p) = mkpath p"
    using "0.prems"(2,3) nibbles_of_concat [OF wf_key_pack, of p] nibbles_of_pack [of p] by (simp add: NewNibblePath_def mkpath_def)
  moreover have "keyString v p \<notin> set vis" using fresh_self(1) [OF naming_keyString "0.prems"(2,5)] .
  ultimately show ?case using key l added_self [OF "0.prems"(2)] wf_nibblesD [OF "0.prems"(2)] by (simp add: structure_validateNode.simps)
next
  case (Suc r)
  obtain i where i: "nd = Internal i" "i_children i \<noteq> []"
    and ch: "\<And>n c. gm_get (i_children i) n = Some c \<Longrightarrow> wf_nibbles (p @ [n]) \<and> rep g H m (c_Version c) (p @ [n]) r"
    using rep_child [OF Suc.prems(1-4)] Suc.prems(6) by auto
  have key: "NodeKey_String \<lparr>nk_Version = v, nk_NibblePath = mkpath p\<rparr> = Inr (keyString v p)"
    using NodeKey_String_nkey [OF Suc.prems(2), of v] by (simp add: nkey_def)
  have lt: "length p < MaxTreeDepth" using Suc.prems(3) by simp
  let ?vis = "keyString v p # vis"
  have "\<exists>vis'. structure_validateChildren rd i (mkpath p) nibble_range ?vis = (Inr (), vis') \<and> added keyString p ?vis vis'"
  proof (rule structure_validateChildren_ok [OF Suc.prems(2) lt])
    fix n c assume c: "gm_get (i_children i) n = Some c"
    from rep_hash [OF conjunct2 [OF ch [OF c]]] obtain nd' where "g (nkey (c_Version c) (p @ [n])) = Inr nd'" by blast
    then show "\<exists>nd. Reader_loadNode rd (nkey (c_Version c) (p @ [n])) = Inr (Some nd)
        \<and> (\<forall>vis. fresh keyString (p @ [n]) vis \<longrightarrow> (\<exists>vis'. structure_validateNode rd (Some nd) (c_Version c) (mkpath (p @ [n])) vis = (Inr (), vis')
             \<and> added keyString (p @ [n]) vis vis'))"
      using Suc.IH [of "c_Version c" "p @ [n]"] ch [OF c] Suc.prems(3,4) by (intro exI [where x = nd']) (auto simp: serves_def)
  qed (use fresh_self(2) [OF naming_keyString Suc.prems(2,5)] in \<open>simp_all add: nibble_range_def\<close>)
  then show ?case
    using key i fresh_self(1) [OF naming_keyString Suc.prems(2,5)] added_trans [OF added_self [OF Suc.prems(2)]] lt
    by (simp add: structure_validateNode.simps NumChildren_def) blast
qed

text \<open>The other walk: below a stored node it needs one unit of fuel per level.\<close>

lemma verifyChildren_ok:
  assumes "wf_nibbles p" and "length p < MaxTreeDepth" and "distinct (map fst cs)"
    and "\<And>n c pl vis. (n, c) \<in> set cs \<Longrightarrow> fresh skey (p @ [n]) vis \<Longrightarrow>
      \<exists>pl' vis'. verifyNode H ctx rd fuel (nkey (c_Version c) (p @ [n])) (pl, vis) = Some (Inr (), pl', vis') \<and> added skey (p @ [n]) vis vis'"
    and "\<forall>n \<in> fst ` set cs. fresh skey (p @ [n]) vis"
  shows "\<exists>pl' vis'. verifyChildren H ctx rd fuel (nkey v p) cs (pl, vis) = Some (Inr (), pl', vis') \<and> added skey p vis vis'"
  using assms(3-)
proof (induction cs arbitrary: pl vis)
  case (Cons nc cs)
  obtain n c where nc: "nc = (n, c)" by (cases nc)
  have key: "\<lparr>nk_Version = c_Version c, nk_NibblePath = \<lparr>Nibbles = Nibbles (nk_NibblePath (nkey v p)) @ [n],
      Length = Length (nk_NibblePath (nkey v p)) + 1\<rparr>\<rparr> = nkey (c_Version c) (p @ [n])"
    by (simp add: nkey_def mkpath_def add.commute)
  show ?case
  proof (cases "Child_IsEmpty c")
    case True
    with Cons nc show ?thesis by simp
  next
    case False
    obtain pl1 vis1 where v1: "verifyNode H ctx rd fuel (nkey (c_Version c) (p @ [n])) (pl, vis) = Some (Inr (), pl1, vis1)"
      "added skey (p @ [n]) vis vis1"
      using Cons.prems(2) [of n c vis pl] Cons.prems(3) nc by auto
    have "fresh skey (p @ [n']) vis1" if "n' \<in> fst ` set cs" for n'
      using fresh_sibling [OF naming_skey _ v1(2)] Cons.prems(1,3) that nc by auto
    then obtain pl2 vis2 where "verifyChildren H ctx rd fuel (nkey v p) cs (pl1, vis1) = Some (Inr (), pl2, vis2)" "added skey p vis1 vis2"
      using Cons.IH [of vis1 pl1] Cons.prems(1,2) nc by auto
    with False v1 key added_trans [OF added_child [OF v1(2)]] show ?thesis by (simp add: nc)
  qed
qed simp

lemma verifyNode_ok:
  assumes "rep g H m v p r" and "wf_nibbles p" and "length p + r = MaxTreeDepth" and "serves rd g" and "fresh skey p vis"
    and "\<forall>x \<in> merkle_inputs H m p r. H x \<noteq> EmptyHash" and "r < fuel" and "\<forall>i. ctx i = None"
  shows "\<exists>pl' vis'. verifyNode H ctx rd fuel (nkey v p) (pl, vis) = Some (Inr (), pl', vis') \<and> added skey p vis vis'"
  using assms(1-7)
proof (induction r arbitrary: v p vis fuel pl)
  case 0
  then obtain l where l: "g (nkey v p) = Inr (Leaf l)" by auto
  then have load: "Reader_loadNode rd (nkey v p) = Inr (Some (Leaf l))" using "0.prems"(2,4) by (simp add: serves_def)
  have "Node_Hash H (Leaf l) \<noteq> EmptyHash"
    using rep_hash [OF "0.prems"(1)] l merkle_input [of H m p 0] "0.prems"(6) by fastforce
  moreover obtain f where "fuel = Suc f" using "0.prems"(7) by (cases fuel) auto
  moreover have "DefaultKeyEncoder_NodeKey (nkey v p) = Inr (skey v p)" using "0.prems"(2) by (simp add: skey_def wf_nibblesD)
  ultimately show ?case
    using load assms(8) fresh_self(1) [OF naming_skey "0.prems"(2,5)] added_self [OF "0.prems"(2)] by simp
next
  case (Suc r)
  obtain i where load: "Reader_loadNode rd (nkey v p) = Inr (Some (Internal i))" and i: "g (nkey v p) = Inr (Internal i)" "wf_node (Internal i)"
    and ch: "\<And>n c. gm_get (i_children i) n = Some c \<Longrightarrow> wf_nibbles (p @ [n]) \<and> n \<le> MaxNibbleValue \<and> rep g H m (c_Version c) (p @ [n]) r
      \<and> merkle H m (p @ [n]) r = Some (c_Hash c)"
    using rep_child [OF Suc.prems(1-4)] by blast
  have h: "merkle H m p (Suc r) = Some (Node_Hash H (Internal i))" using rep_hash [OF Suc.prems(1)] i by auto
  then have "Node_Hash H (Internal i) \<noteq> EmptyHash" using merkle_input [OF h] Suc.prems(6) by auto
  moreover obtain f where f: "fuel = Suc f" using Suc.prems(7) by (cases fuel) auto
  moreover have "DefaultKeyEncoder_NodeKey (nkey v p) = Inr (skey v p)" using Suc.prems(2) by (simp add: skey_def wf_nibblesD)
  moreover have "gm_wf (i_children i)" using i(2) by simp
  have "\<exists>pl' vis'. verifyChildren H ctx rd f (nkey v p) (i_children i) (Suc pl, skey v p # vis) = Some (Inr (), pl', vis')
      \<and> added skey p (skey v p # vis) vis'"
  proof (rule verifyChildren_ok [OF Suc.prems(2)])
    fix n c pl vis assume c: "(n, c) \<in> set (i_children i)" and fr: "fresh skey (p @ [n]) vis"
    then have get: "gm_get (i_children i) n = Some c" using \<open>gm_wf (i_children i)\<close> by simp
    have "merkle_inputs H m (p @ [n]) r \<subseteq> merkle_inputs H m p (Suc r)" using h ch [OF get] by (auto simp: nibble_range_iff)
    then show "\<exists>pl' vis'. verifyNode H ctx rd f (nkey (c_Version c) (p @ [n])) (pl, vis) = Some (Inr (), pl', vis') \<and> added skey (p @ [n]) vis vis'"
      using ch [OF get] Suc.prems(3,4,6,7) fr f by (intro Suc.IH) auto
  qed (use Suc.prems(3) \<open>gm_wf (i_children i)\<close> fresh_self(2) [OF naming_skey Suc.prems(2,5)] in auto)
  ultimately show ?case
    using load assms(8) [rule_format, of pl] fresh_self(1) [OF naming_skey Suc.prems(2,5)] added_trans [OF added_self [OF Suc.prems(2)]]
    by (simp add: Children_def) blast
qed

section \<open>The checks on a committed version\<close>

lemma snapshot_reader:
  assumes "tree_rel H sp t"
  shows "\<exists>sn db1. NewSnapshot (t_db t) = (MemSnapshot sn, db1) \<and> snd (Snapshot_Close (MemSnapshot sn) db1) = t_db t
    \<and> reads \<lparr>rd_snapshot = MemSnapshot sn, rd_version = v, rd_rootHash = h\<rparr> (t_db t)"
proof -
  have "\<not> ms_closing (t_db t)" "snapshots_free (t_db t)" using tree_relD(5) [OF assms] by (simp_all add: store_ok_def)
  from snapshot_roundtrip [OF this] show ?thesis by (auto simp: reads_def simp del: Snapshot_Close.simps)
qed

lemma reads_missing:
  "reads rd db \<Longrightarrow> wf_nibbles q \<Longrightarrow> gm_get (ms_data db) (skey v q) = None \<Longrightarrow> Reader_loadNode rd (nkey v q) = Inr None"
  by (auto simp: reads_def Reader_loadNode_def wf_nibblesD skey_def)

lemma Reader_loadNode_iff:
  "reads rd db \<Longrightarrow> wf_nibbles q \<Longrightarrow> \<not> ms_closing db \<Longrightarrow> Reader_loadNode rd (nkey v q) = Inr (Some n) \<longleftrightarrow> loadNodeFromStorage db (nkey v q) = Inr n"
  by (auto simp: reads_def Reader_loadNode_def load_nkey wf_nibblesD skey_def split: if_splits option.splits sum.splits)

lemma fresh_Nil [simp]: "fresh name p []"
  by (simp add: fresh_def)

lemma emptyPath_eq: "emptyPath = mkpath []"
  by (simp add: emptyPath_def mkpath_def)

lemma validate_committed:
  assumes rel: "tree_rel H sp t" and m: "sp_committed sp v = Some m"
  shows "ValidateTreeStructure t v = (Inr (), t)"
proof -
  have root: "GetRootHash t v = Inr (merkle_root H (hashed H m))" using tree_relD(7) [OF rel] m by (simp add: versions_rel_def GetRootHash_def)
  show ?thesis
  proof (cases "merkle_root H (hashed H m) = EmptyHash")
    case True
    with root show ?thesis by (simp add: ValidateTreeStructure_def)
  next
    case False
    then have rep: "rep (loadNodeFromStorage (t_db t)) H (hashed H m) v [] MaxTreeDepth"
      using committedD(1) [OF rel m] by (auto simp: version_ok_def merkle_root_def split: if_splits)
    obtain sn db1 where sn: "NewSnapshot (t_db t) = (MemSnapshot sn, db1)" "snd (Snapshot_Close (MemSnapshot sn) db1) = t_db t"
      and rd: "serves \<lparr>rd_snapshot = MemSnapshot sn, rd_version = v, rd_rootHash = merkle_root H (hashed H m)\<rparr> (loadNodeFromStorage (t_db t))"
      using snapshot_reader [OF rel] serves_reads by blast
    obtain nd where nd: "loadNodeFromStorage (t_db t) (nkey v []) = Inr nd" using rep_hash [OF rep] by blast
    from structure_validateNode_ok [OF rep _ _ rd _ nd, of "[]"] nd rd sn False root show ?thesis
      by (auto simp: ValidateTreeStructure_def RootNodeKey_nkey serves_def emptyPath_eq simp del: Snapshot_Close.simps)
  qed
qed

lemma verify_committed:
  assumes rel: "tree_rel H sp t" and m: "sp_committed sp v = Some m" and ok: "hash_ok H (sp_hist sp)"
    and ctx: "\<forall>i. ctx i = None" and fuel: "MaxTreeDepth < fuel"
  shows "\<exists>r. VerifyIntegrity H fuel ctx t v = (Some r, t) \<and> (is_ok r \<longleftrightarrow> merkle H (hashed H m) [] MaxTreeDepth \<noteq> None)"
proof -
  let ?g = "loadNodeFromStorage (t_db t)"
  have has: "HasVersion t v" using tree_relD(7) [OF rel] m by (simp add: versions_rel_def HasVersion_def)
  obtain sn db1 where sn: "NewSnapshot (t_db t) = (MemSnapshot sn, db1)" "snd (Snapshot_Close (MemSnapshot sn) db1) = t_db t"
    and reads: "reads \<lparr>rd_snapshot = MemSnapshot sn, rd_version = v, rd_rootHash = replicate 32 0\<rparr> (t_db t)"
    using snapshot_reader [OF rel] by blast
  let ?rd = "\<lparr>rd_snapshot = MemSnapshot sn, rd_version = v, rd_rootHash = replicate 32 0\<rparr>"
  have run: "VerifyIntegrity H fuel ctx t v = (map_option fst (verifyNode H ctx ?rd fuel (nkey v []) (0, [])), t)"
    using has sn by (simp add: VerifyIntegrity_def RootNodeKey_nkey del: Snapshot_Close.simps)
  note vok = committedD(1) [OF rel m]
  show ?thesis
  proof (cases "merkle H (hashed H m) [] MaxTreeDepth")
    case None
    obtain f where f: "fuel = Suc f" using fuel by (cases fuel) auto
    have "?g (nkey v []) \<noteq> Inr n" for n using vok None by (auto simp: version_ok_def)
    then have "Reader_loadNode ?rd (nkey v []) \<noteq> Inr (Some n)" for n
      using Reader_loadNode_iff [OF reads, of "[]" v n] tree_relD(5) [OF rel] by (simp add: store_ok_def)
    then have "\<exists>e st. verifyNode H ctx ?rd fuel (nkey v []) (0, []) = Some (Inl e, st)"
      using ctx [rule_format, of 0] by (cases "Reader_loadNode ?rd (nkey v [])") (auto simp: f Let_def split: option.split)
    with run None show ?thesis by auto
  next
    case (Some h)
    then have rep: "rep ?g H (hashed H m) v [] MaxTreeDepth" and mem: "m \<in> set (sp_hist sp)" using vok by (auto simp: version_ok_def)
    have "\<forall>x \<in> merkle_inputs H (hashed H m) [] MaxTreeDepth. H x \<noteq> EmptyHash"
      using ok inputs_mem(1) [OF mem, of H] unfolding hash_ok_def by blast
    from verifyNode_ok [OF rep _ _ serves_reads [OF reads] _ this fuel ctx, of "[]" 0] run Some show ?thesis by auto
  qed
qed

lemma check_committed: "tree_rel H sp t \<Longrightarrow> sp_committed sp v = Some m \<Longrightarrow> CheckVersion t v = Inr ()"
  using tree_relD(7) [of H sp t] by (simp add: versions_rel_def CheckVersion_def HasVersion_def GetRootHash_def Tree_IsEmpty_def)

text \<open>A root node that is missing is not noticed.\<close>

lemma validate_missing:
  assumes "\<not> ms_closing (t_db t)" and "snapshots_free (t_db t)" and "gm_get (t_rootHashes t) v = Some h"
    and "gm_get (ms_data (t_db t)) (skey v []) = None"
  shows "fst (ValidateTreeStructure t v) = Inr ()"
proof -
  obtain sn db1 where sn: "NewSnapshot (t_db t) = (MemSnapshot sn, db1)" "sn_data sn = ms_data (t_db t)"
    using snapshot_roundtrip [OF assms(1,2)] by blast
  then have "Reader_loadNode \<lparr>rd_snapshot = MemSnapshot sn, rd_version = v, rd_rootHash = h\<rparr> (nkey v []) = Inr None"
    using reads_missing [of _ "t_db t" "[]"] assms(4) by (simp add: reads_def)
  with sn assms(3) show ?thesis
    using NodeKey_String_nkey [of "[]" v]
    by (simp add: ValidateTreeStructure_def GetRootHash_def RootNodeKey_nkey emptyPath_eq nkey_def structure_validateNode.simps)
qed

end
