(* ===== verification/NodeCache.thy ===== *)
theory NodeCache
  imports TreeReopen
begin

text \<open>
  The node cache: \<^verbatim>\<open>pkg/tree/cache.go\<close>, and the loaders of \<^verbatim>\<open>tree.go\<close> and \<^verbatim>\<open>reader.go\<close> with the cache in front. The
  LRU cache is a third-party package, here the parameter \<open>L\<close>, a record of its operations; \<open>lru_laws\<close> states what its
  documentation says of them, with \<open>view\<close> the entries that a cache holds. Nodes are the values that were decoded;
  that they are shared pointers whose hash is memoised later is not part of the model. Shown here: with the cache
  the loaders return what they return without it, whatever the cache evicts, because commits never replace a node.
\<close>

section \<open>The LRU package\<close>

record 'c lru =
  lru_New :: "int \<Rightarrow> 'c result"
  lru_Get :: "bytes \<Rightarrow> 'c \<Rightarrow> Node option \<times> 'c"
  lru_Add :: "bytes \<Rightarrow> Node \<Rightarrow> 'c \<Rightarrow> bool \<times> 'c"
  lru_Remove :: "bytes \<Rightarrow> 'c \<Rightarrow> bool \<times> 'c"
  lru_Purge :: "'c \<Rightarrow> 'c"
  lru_Len :: "'c \<Rightarrow> int"

definition lru_laws :: "'c lru \<Rightarrow> ('c \<Rightarrow> bytes \<rightharpoonup> Node) \<Rightarrow> bool" where
  "lru_laws L view \<longleftrightarrow>
     (\<forall>n > 0. \<exists>c. lru_New L n = Inr c \<and> view c = Map.empty)
     \<and> (\<forall>k c. fst (lru_Get L k c) = view c k \<and> view (snd (lru_Get L k c)) = view c)
     \<and> (\<forall>k n c. view (snd (lru_Add L k n c)) \<subseteq>\<^sub>m (view c)(k \<mapsto> n))
     \<and> (\<forall>k c. view (snd (lru_Remove L k c)) \<subseteq>\<^sub>m view c)
     \<and> (\<forall>c. view (lru_Purge L c) = Map.empty)"

section \<open>The cache\<close>

record 'c NodeCache =
  nc_cache :: 'c
  nc_hits :: u64
  nc_misses :: u64
  nc_maxSize :: int

definition NewNodeCache :: "'c lru \<Rightarrow> int \<Rightarrow> 'c NodeCache result" where
  "NewNodeCache L maxSize =
     (if maxSize \<le> 0 then Inl (Errorf ''cache size must be positive'')
      else case lru_New L maxSize of
             Inl err \<Rightarrow> Inl (wrapE ''failed to create LRU cache'' err)
           | Inr cache \<Rightarrow> Inr \<lparr>nc_cache = cache, nc_hits = 0, nc_misses = 0, nc_maxSize = maxSize\<rparr>)"

definition encodeCacheKey :: "NodeKey \<Rightarrow> bytes result" where
  "encodeCacheKey key = makeNodeKey key"

definition Cache_Get :: "'c lru \<Rightarrow> NodeKey \<Rightarrow> 'c NodeCache \<Rightarrow> Node option result \<times> 'c NodeCache" where
  "Cache_Get L key c =
     (case encodeCacheKey key of
        Inl e \<Rightarrow> (Inl e, c)
      | Inr cacheKey \<Rightarrow>
          (case lru_Get L cacheKey (nc_cache c) of
             (Some val, c1) \<Rightarrow> (Inr (Some val), c\<lparr>nc_cache := c1, nc_hits := nc_hits c + 1\<rparr>)
           | (None, c1) \<Rightarrow> (Inr None, c\<lparr>nc_cache := c1, nc_misses := nc_misses c + 1\<rparr>)))"

definition Cache_Put :: "'c lru \<Rightarrow> NodeKey \<Rightarrow> Node option \<Rightarrow> 'c NodeCache \<Rightarrow> unit result \<times> 'c NodeCache" where
  "Cache_Put L key node c =
     (case node of
        None \<Rightarrow> (Inr (), c)
      | Some n \<Rightarrow>
          (case encodeCacheKey key of
             Inl e \<Rightarrow> (Inl e, c)
           | Inr cacheKey \<Rightarrow> (Inr (), c\<lparr>nc_cache := snd (lru_Add L cacheKey n (nc_cache c))\<rparr>)))"

definition Cache_Remove :: "'c lru \<Rightarrow> NodeKey \<Rightarrow> 'c NodeCache \<Rightarrow> unit result \<times> 'c NodeCache" where
  "Cache_Remove L key c =
     (case encodeCacheKey key of
        Inl e \<Rightarrow> (Inl e, c)
      | Inr cacheKey \<Rightarrow> (Inr (), c\<lparr>nc_cache := snd (lru_Remove L cacheKey (nc_cache c))\<rparr>))"

definition Cache_Clear :: "'c lru \<Rightarrow> 'c NodeCache \<Rightarrow> 'c NodeCache" where
  "Cache_Clear L c = c\<lparr>nc_cache := lru_Purge L (nc_cache c)\<rparr>"

definition Cache_Stats :: "'c lru \<Rightarrow> 'c NodeCache \<Rightarrow> u64 \<times> u64 \<times> int" where
  "Cache_Stats L c = (nc_hits c, nc_misses c, lru_Len L (nc_cache c))"

section \<open>The loaders with the cache\<close>

definition cachedLoadNode :: "'c lru \<Rightarrow> Storage \<Rightarrow> NodeKey \<Rightarrow> 'c NodeCache \<Rightarrow> Node result \<times> 'c NodeCache" where
  "cachedLoadNode L db key c =
     (case Cache_Get L key c of
        (Inl e, c1) \<Rightarrow> (Inl e, c1)
      | (Inr (Some node), c1) \<Rightarrow> (Inr node, c1)
      | (Inr None, c1) \<Rightarrow>
          (case DefaultKeyEncoder_NodeKey key of
             Inl e \<Rightarrow> (Inl e, c1)
           | Inr storageKey \<Rightarrow>
               (case Storage_Get db storageKey of
                  Inl err \<Rightarrow> (Inl (wrapE ''failed to load node'' err), c1)
                | Inr None \<Rightarrow> (Inl (Errorf ''node not found''), c1)
                | Inr (Some data) \<Rightarrow>
                    (case DecodeNode data (nk_Version key) of
                       Inl err \<Rightarrow> (Inl (wrapE ''failed to decode node'' err), c1)
                     | Inr node \<Rightarrow> (case Cache_Put L key (Some node) c1 of (Inl e, c2) \<Rightarrow> (Inl e, c2) | (Inr _, c2) \<Rightarrow> (Inr node, c2))))))"

definition cachedReaderLoad :: "'c lru \<Rightarrow> TreeReader \<Rightarrow> NodeKey \<Rightarrow> 'c NodeCache \<Rightarrow> Node option result \<times> 'c NodeCache" where
  "cachedReaderLoad L r key c =
     (case Cache_Get L key c of
        (Inl e, c1) \<Rightarrow> (Inl e, c1)
      | (Inr (Some node), c1) \<Rightarrow> (Inr (Some node), c1)
      | (Inr None, c1) \<Rightarrow>
          (case DefaultKeyEncoder_NodeKey key of
             Inl e \<Rightarrow> (Inl e, c1)
           | Inr storageKey \<Rightarrow>
               (case Snapshot_Get (rd_snapshot r) storageKey of
                  Inl err \<Rightarrow> (Inl (wrapE ''failed to load node'' err), c1)
                | Inr None \<Rightarrow> (Inr None, c1)
                | Inr (Some data) \<Rightarrow>
                    (case DecodeNode data (nk_Version key) of
                       Inl err \<Rightarrow> (Inl (wrapE ''failed to decode node'' err), c1)
                     | Inr node \<Rightarrow> (case Cache_Put L key (Some node) c1 of (Inl e, c2) \<Rightarrow> (Inl e, c2) | (Inr _, c2) \<Rightarrow> (Inr (Some node), c2))))))"

section \<open>Coherence\<close>

text \<open>Every entry is the node that the storage has under its key.\<close>

definition coherent :: "('c \<Rightarrow> bytes \<rightharpoonup> Node) \<Rightarrow> Storage \<Rightarrow> 'c NodeCache \<Rightarrow> bool" where
  "coherent view db c \<longleftrightarrow> (\<forall>w q n. wf_nibbles q \<longrightarrow> view (nc_cache c) (skey w q) = Some n \<longrightarrow> loadNodeFromStorage db (nkey w q) = Inr n)"

lemma encodeCacheKey_nkey: "wf_nibbles q \<Longrightarrow> encodeCacheKey (nkey w q) = Inr (skey w q)"
  by (simp add: encodeCacheKey_def tree_copy_eq skey_def wf_nibblesD)

lemma coherent_new: "lru_laws L view \<Longrightarrow> 0 < n \<Longrightarrow> \<exists>c. NewNodeCache L n = Inr c \<and> coherent view db c"
  by (auto simp: lru_laws_def NewNodeCache_def coherent_def)

lemma coherent_sub: "coherent view db c \<Longrightarrow> view (nc_cache c') \<subseteq>\<^sub>m view (nc_cache c) \<Longrightarrow> coherent view db c'"
  unfolding coherent_def map_le_def by (metis domI)

lemma coherent_grow: "coherent view db c \<Longrightarrow> grows (loadNodeFromStorage db) (loadNodeFromStorage db') \<Longrightarrow> coherent view db' c"
  unfolding coherent_def grows_def by blast

lemma Cache_Get_nkey:
  assumes "lru_laws L view" and "wf_nibbles q"
  shows "fst (Cache_Get L (nkey w q) c) = Inr (view (nc_cache c) (skey w q))"
    and "view (nc_cache (snd (Cache_Get L (nkey w q) c))) = view (nc_cache c)"
    and "nc_hits (snd (Cache_Get L (nkey w q) c)) + nc_misses (snd (Cache_Get L (nkey w q) c)) = nc_hits c + nc_misses c + 1"
proof -
  have "fst (lru_Get L (skey w q) (nc_cache c)) = view (nc_cache c) (skey w q)"
    "view (snd (lru_Get L (skey w q) (nc_cache c))) = view (nc_cache c)" using assms(1) by (simp_all add: lru_laws_def)
  then show "fst (Cache_Get L (nkey w q) c) = Inr (view (nc_cache c) (skey w q))"
      "view (nc_cache (snd (Cache_Get L (nkey w q) c))) = view (nc_cache c)"
      "nc_hits (snd (Cache_Get L (nkey w q) c)) + nc_misses (snd (Cache_Get L (nkey w q) c)) = nc_hits c + nc_misses c + 1"
    by (auto simp: Cache_Get_def encodeCacheKey_nkey [OF assms(2)] algebra_simps split: prod.split option.split)
qed

lemma Cache_Put_nkey:
  assumes "lru_laws L view" and "wf_nibbles q"
  shows "fst (Cache_Put L (nkey w q) (Some n) c) = Inr ()"
    and "coherent view db c \<Longrightarrow> loadNodeFromStorage db (nkey w q) = Inr n \<Longrightarrow> coherent view db (snd (Cache_Put L (nkey w q) (Some n) c))"
    and "nc_hits (snd (Cache_Put L (nkey w q) nd c)) = nc_hits c \<and> nc_misses (snd (Cache_Put L (nkey w q) nd c)) = nc_misses c"
proof -
  have put: "Cache_Put L (nkey w q) (Some n) c = (Inr (), c\<lparr>nc_cache := snd (lru_Add L (skey w q) n (nc_cache c))\<rparr>)" for n
    by (simp add: Cache_Put_def encodeCacheKey_nkey [OF assms(2)])
  show "fst (Cache_Put L (nkey w q) (Some n) c) = Inr ()" by (simp add: put)
  show "nc_hits (snd (Cache_Put L (nkey w q) nd c)) = nc_hits c \<and> nc_misses (snd (Cache_Put L (nkey w q) nd c)) = nc_misses c"
    by (cases nd) (simp_all add: put, simp_all add: Cache_Put_def)
  assume c: "coherent view db c" and n: "loadNodeFromStorage db (nkey w q) = Inr n"
  have "view (snd (lru_Add L (skey w q) n (nc_cache c))) \<subseteq>\<^sub>m (view (nc_cache c))(skey w q \<mapsto> n)" using assms(1) by (simp add: lru_laws_def)
  then have entry: "(if skey w' q' = skey w q then Some n else view (nc_cache c) (skey w' q')) = Some n'"
    if "view (snd (lru_Add L (skey w q) n (nc_cache c))) (skey w' q') = Some n'" for w' q' n'
    using that unfolding map_le_def by (metis domI fun_upd_apply)
  then have "loadNodeFromStorage db (nkey w' q') = Inr n'"
    if "wf_nibbles q'" "view (snd (lru_Add L (skey w q) n (nc_cache c))) (skey w' q') = Some n'" for w' q' n'
    using entry [OF that(2)] that(1) c n assms(2) by (cases "w' = w \<and> q' = q") (auto simp: coherent_def)
  then show "coherent view db (snd (Cache_Put L (nkey w q) (Some n) c))" by (simp add: coherent_def put)
qed

lemma cachedLoadNode_ok:
  assumes L: "lru_laws L view" and q: "wf_nibbles q" and c: "coherent view db c"
  shows "fst (cachedLoadNode L db (nkey w q) c) = loadNodeFromStorage db (nkey w q)"
    and "coherent view db (snd (cachedLoadNode L db (nkey w q) c))"
    and "nc_hits (snd (cachedLoadNode L db (nkey w q) c)) + nc_misses (snd (cachedLoadNode L db (nkey w q) c)) = nc_hits c + nc_misses c + 1"
proof -
  let ?k = "nkey w q"
  obtain r c1 where get: "Cache_Get L ?k c = (r, c1)" by (cases "Cache_Get L ?k c")
  have r: "r = Inr (view (nc_cache c) (skey w q))" "view (nc_cache c1) = view (nc_cache c)" "nc_hits c1 + nc_misses c1 = nc_hits c + nc_misses c + 1"
    using Cache_Get_nkey [OF L q, of w c] get by simp_all
  have c1: "coherent view db c1" using c r(2) by (simp add: coherent_def)
  have "fst (cachedLoadNode L db ?k c) = loadNodeFromStorage db ?k \<and> coherent view db (snd (cachedLoadNode L db ?k c))
    \<and> nc_hits (snd (cachedLoadNode L db ?k c)) + nc_misses (snd (cachedLoadNode L db ?k c)) = nc_hits c + nc_misses c + 1"
  proof (cases "view (nc_cache c) (skey w q)")
    case (Some n)
    then have "loadNodeFromStorage db ?k = Inr n" using c q by (simp add: coherent_def)
    with Some get r c1 show ?thesis by (simp add: cachedLoadNode_def)
  next
    case None
    then have load: "cachedLoadNode L db ?k c = (case loadNodeFromStorage db ?k of Inl e \<Rightarrow> (Inl e, c1)
        | Inr node \<Rightarrow> (case Cache_Put L ?k (Some node) c1 of (Inl e, c2) \<Rightarrow> (Inl e, c2) | (Inr _, c2) \<Rightarrow> (Inr node, c2)))"
      using get r(1) by (simp add: cachedLoadNode_def loadNodeFromStorage_def bindE_def split: sum.split option.split)
    show ?thesis
    proof (cases "loadNodeFromStorage db ?k")
      case (Inl e)
      with load r(3) c1 show ?thesis by simp
    next
      case (Inr n)
      obtain c2 where c2: "Cache_Put L ?k (Some n) c1 = (Inr (), c2)"
        using Cache_Put_nkey(1) [OF L q, of w n c1] by (cases "Cache_Put L ?k (Some n) c1") simp
      with Cache_Put_nkey(2) [OF L q c1 Inr] Cache_Put_nkey(3) [OF L q, of w "Some n" c1] Inr load r(3) show ?thesis by simp
    qed
  qed
  then show "fst (cachedLoadNode L db ?k c) = loadNodeFromStorage db ?k" "coherent view db (snd (cachedLoadNode L db ?k c))"
    "nc_hits (snd (cachedLoadNode L db ?k c)) + nc_misses (snd (cachedLoadNode L db ?k c)) = nc_hits c + nc_misses c + 1" by blast+
qed

text \<open>A reader finds in the cache what its snapshot has, also when the storage went on.\<close>

lemma cachedReaderLoad_ok:
  assumes L: "lru_laws L view" and q: "wf_nibbles q" and c: "coherent view db c" and rd: "reads rd db0"
    and g: "grows (loadNodeFromStorage db0) (loadNodeFromStorage db)" and n: "loadNodeFromStorage db0 (nkey w q) = Inr n"
  shows "fst (cachedReaderLoad L rd (nkey w q) c) = Inr (Some n) \<and> coherent view db (snd (cachedReaderLoad L rd (nkey w q) c))"
proof -
  let ?k = "nkey w q"
  obtain r c1 where get: "Cache_Get L ?k c = (r, c1)" by (cases "Cache_Get L ?k c")
  have r: "r = Inr (view (nc_cache c) (skey w q))" "view (nc_cache c1) = view (nc_cache c)"
    using Cache_Get_nkey [OF L q, of w c] get by simp_all
  have c1: "coherent view db c1" using c r(2) by (simp add: coherent_def)
  have n': "loadNodeFromStorage db ?k = Inr n" using g q n by (simp add: grows_def)
  show ?thesis
  proof (cases "view (nc_cache c) (skey w q)")
    case (Some m)
    then have "loadNodeFromStorage db ?k = Inr m" using c q by (simp add: coherent_def)
    with Some get r c1 n' show ?thesis by (simp add: cachedReaderLoad_def)
  next
    case None
    then have "cachedReaderLoad L rd ?k c = (case Reader_loadNode rd ?k of Inl e \<Rightarrow> (Inl e, c1) | Inr None \<Rightarrow> (Inr None, c1)
        | Inr (Some node) \<Rightarrow> (case Cache_Put L ?k (Some node) c1 of (Inl e, c2) \<Rightarrow> (Inl e, c2) | (Inr _, c2) \<Rightarrow> (Inr (Some node), c2)))"
      using get r(1) by (simp add: cachedReaderLoad_def Reader_loadNode_def bindE_def split: sum.split option.split)
    moreover have "Reader_loadNode rd ?k = Inr (Some n)" using Reader_loadNode_reads [OF rd q n] .
    moreover obtain c2 where "Cache_Put L ?k (Some n) c1 = (Inr (), c2)"
      using Cache_Put_nkey(1) [OF L q, of w n c1] by (cases "Cache_Put L ?k (Some n) c1") simp
    ultimately show ?thesis using Cache_Put_nkey(2) [OF L q c1 n'] by simp
  qed
qed

section \<open>Commits do not replace nodes\<close>

lemma grows_trans: "grows f g \<Longrightarrow> grows g h \<Longrightarrow> grows f h"
  by (simp add: grows_def)

interpretation growing: commit_invariant "\<lambda>t. grows g (loadNodeFromStorage (t_db t))" for g
proof unfold_locales
  fix H sp t v now
  assume H: "\<And>x. wf_hash (H x)" and rel: "tree_rel H sp t" and ok: "hash_ok H (sp_hist sp)"
    and touched: "\<And>m b. sp_pending sp v = Some (m, b) \<Longrightarrow> b" and g: "grows g (loadNodeFromStorage (t_db t))"
  show "grows g (loadNodeFromStorage (t_db (snd (CommitVersion H now v t))))"
  proof (cases "gm_get (pendingWrites (t_versionManager t)) v")
    case None
    with g show ?thesis by (simp add: CommitVersion_def GetPending_def)
  next
    case (Some pv)
    obtain m where m: "sp_pending sp v = Some (m, True)" using pending_iff [OF rel, of v] Some touched by fastforce
    then obtain batch t' where t': "CommitVersion H now v t = (Inr (), t')" "t_db t' = commit_db v batch (t_db t)" "batch_ok H v batch"
      using commit_run [OF rel H ok Some m, of now] by blast
    with grows_trans [OF g commit_grow(2) [OF rel t'(3)]] m show ?thesis by simp
  qed
qed simp

section \<open>A tree with its cache\<close>

text \<open>
  The tree operations in any order with loads, of any node at any time, removals and purges in between. The loads that
  the operations make themselves are among them: they happen on the storage before the operation commits.
\<close>

datatype event = TreeEvent op | LoadEvent version "nibble list" | RemoveEvent version "nibble list" | ClearEvent

fun cachedRun :: "'c lru \<Rightarrow> (bytes \<Rightarrow> hash) \<Rightarrow> event list \<Rightarrow> Tree \<Rightarrow> 'c NodeCache \<Rightarrow> Node result list \<times> 'c NodeCache" where
  "cachedRun L H [] t c = ([], c)"
| "cachedRun L H (TreeEvent x # es) t c = cachedRun L H es (snd (exec H x t)) c"
| "cachedRun L H (LoadEvent w q # es) t c =
     (let (r, c1) = cachedLoadNode L (t_db t) (nkey w q) c; (rs, c2) = cachedRun L H es t c1 in (r # rs, c2))"
| "cachedRun L H (RemoveEvent w q # es) t c = cachedRun L H es t (snd (Cache_Remove L (nkey w q) c))"
| "cachedRun L H (ClearEvent # es) t c = cachedRun L H es t (Cache_Clear L c)"

fun plainRun :: "(bytes \<Rightarrow> hash) \<Rightarrow> event list \<Rightarrow> Tree \<Rightarrow> Node result list" where
  "plainRun H [] t = []"
| "plainRun H (TreeEvent x # es) t = plainRun H es (snd (exec H x t))"
| "plainRun H (LoadEvent w q # es) t = loadNodeFromStorage (t_db t) (nkey w q) # plainRun H es t"
| "plainRun H (RemoveEvent w q # es) t = plainRun H es t"
| "plainRun H (ClearEvent # es) t = plainRun H es t"

fun treeOps :: "event list \<Rightarrow> op list" where
  "treeOps [] = []"
| "treeOps (TreeEvent x # es) = x # treeOps es"
| "treeOps (_ # es) = treeOps es"

fun loads_ok :: "event list \<Rightarrow> bool" where
  "loads_ok [] = True"
| "loads_ok (LoadEvent w q # es) = (wf_nibbles q \<and> loads_ok es)"
| "loads_ok (RemoveEvent w q # es) = (wf_nibbles q \<and> loads_ok es)"
| "loads_ok (_ # es) = loads_ok es"

lemma cachedRun_ok:
  assumes L: "lru_laws L view" and H: "\<And>x. wf_hash (H x)" and "tree_rel H sp t" and "run_ok (treeOps es) sp"
    and "hash_ok H (sp_hist (snd (specRun (treeOps es) sp)))" and "loads_ok es" and "coherent view (t_db t) c"
  shows "fst (cachedRun L H es t c) = plainRun H es t
    \<and> nc_hits (snd (cachedRun L H es t c)) + nc_misses (snd (cachedRun L H es t c)) = nc_hits c + nc_misses c + of_nat (length (plainRun H es t))"
  using assms(3-)
proof (induction es arbitrary: sp t c)
  case (Cons e es)
  show ?case
  proof (cases e)
    case (TreeEvent x)
    have ok: "hash_ok H (sp_hist (snd (specRun (treeOps es) (snd (specExec x sp)))))"
      using Cons.prems(3) unfolding TreeEvent treeOps.simps specRun_Cons .
    have ok1: "hash_ok H (sp_hist (snd (specExec x sp)))" using hash_ok_mono [OF ok hist_mono_run] .
    have x: "op_ok x sp" "run_ok (treeOps es) (snd (specExec x sp))" using Cons.prems(2) TreeEvent by simp_all
    have "grows (loadNodeFromStorage (t_db t)) (loadNodeFromStorage (t_db (snd (exec H x t))))"
      by (rule growing.keep_exec [OF Cons.prems(1) H ok1 x(1)]) (simp add: grows_def)
    from Cons.IH [OF conjunct2 [OF exec_refines [OF Cons.prems(1) H ok1 x(1)]] x(2) ok _ coherent_grow [OF Cons.prems(5) this]]
    show ?thesis using Cons.prems(4) TreeEvent by simp
  next
    case (LoadEvent w q)
    then have q: "wf_nibbles q" using Cons.prems(4) by simp
    obtain r c1 where c1: "cachedLoadNode L (t_db t) (nkey w q) c = (r, c1)" by (cases "cachedLoadNode L (t_db t) (nkey w q) c")
    note load = cachedLoadNode_ok [OF L q Cons.prems(5), of w, unfolded c1 fst_conv snd_conv]
    from Cons.IH [OF Cons.prems(1) _ _ _ load(2)] Cons.prems(2-4) load(1,3) show ?thesis
      by (simp add: LoadEvent c1 case_prod_unfold)
  next
    case (RemoveEvent w q)
    then have q: "wf_nibbles q" using Cons.prems(4) by simp
    have c1: "Cache_Remove L (nkey w q) c = (Inr (), c\<lparr>nc_cache := snd (lru_Remove L (skey w q) (nc_cache c))\<rparr>)"
      by (simp add: Cache_Remove_def encodeCacheKey_nkey [OF q])
    have "coherent view (t_db t) (snd (Cache_Remove L (nkey w q) c))"
      by (rule coherent_sub [OF Cons.prems(5)]) (use L in \<open>simp add: c1 lru_laws_def\<close>)
    from Cons.IH [OF Cons.prems(1) _ _ _ this] Cons.prems(2-4) show ?thesis by (simp add: RemoveEvent c1)
  next
    case ClearEvent
    have "coherent view (t_db t) (Cache_Clear L c)"
      by (rule coherent_sub [OF Cons.prems(5)]) (use L in \<open>simp add: Cache_Clear_def lru_laws_def\<close>)
    from Cons.IH [OF Cons.prems(1) _ _ _ this] Cons.prems(2-4) show ?thesis by (simp add: ClearEvent Cache_Clear_def)
  qed
qed simp

section \<open>An LRU cache\<close>

text \<open>The laws can be met: a list with the most recently used entry first, cut to the capacity.\<close>

definition listLRU :: "(nat \<times> (bytes \<times> Node) list) lru" where
  "listLRU = \<lparr>
     lru_New = (\<lambda>n. if n \<le> 0 then Inl (Errorf ''must provide a positive size'') else Inr (nat n, [])),
     lru_Get = (\<lambda>k (n, xs). case map_of xs k of None \<Rightarrow> (None, (n, xs)) | Some v \<Rightarrow> (Some v, (n, (k, v) # filter (\<lambda>e. fst e \<noteq> k) xs))),
     lru_Add = (\<lambda>k v (n, xs). let ys = (k, v) # filter (\<lambda>e. fst e \<noteq> k) xs in (n < length ys, (n, take n ys))),
     lru_Remove = (\<lambda>k (n, xs). (map_of xs k \<noteq> None, (n, filter (\<lambda>e. fst e \<noteq> k) xs))),
     lru_Purge = (\<lambda>(n, xs). (n, [])),
     lru_Len = (\<lambda>(n, xs). int (length xs))\<rparr>"

lemma map_of_take: "map_of (take n xs) \<subseteq>\<^sub>m map_of xs"
proof -
  have "map_of xs = map_of (take n xs @ drop n xs)" by simp
  then show ?thesis unfolding map_of_append by (metis map_le_map_add)
qed

lemma map_of_filter_neq: "map_of (filter (\<lambda>e. fst e \<noteq> k) xs) k' = (if k' = k then None else map_of xs k')"
  by (induction xs) auto

lemma listLRU_laws: "lru_laws listLRU (\<lambda>(n, xs). map_of xs)"
proof -
  have add: "map_of (take n ((k, v) # filter (\<lambda>e. fst e \<noteq> k) xs)) \<subseteq>\<^sub>m (map_of xs)(k \<mapsto> v)" for n k v and xs :: "(bytes \<times> Node) list"
  proof -
    have "map_of ((k, v) # filter (\<lambda>e. fst e \<noteq> k) xs) = (map_of xs)(k \<mapsto> v)" by (auto simp: map_of_filter_neq)
    then show ?thesis using map_of_take [of n "(k, v) # filter (\<lambda>e. fst e \<noteq> k) xs"] by simp
  qed
  have get: "(map_of (filter (\<lambda>e. fst e \<noteq> k) xs))(k \<mapsto> v) = map_of xs" if "map_of xs k = Some v" for k v and xs :: "(bytes \<times> Node) list"
    using that by (auto simp: map_of_filter_neq)
  show ?thesis
    using add get by (auto simp: lru_laws_def listLRU_def Let_def map_of_filter_neq map_le_def split: option.split)
qed

end
