(* ===== verification/StoragePolicies.thy ===== *)
theory StoragePolicies
  imports NodeKeys
begin

text \<open>
  Pruning policies and the storage configuration: \<^verbatim>\<open>pkg/storage/pruning.go\<close> and \<^verbatim>\<open>pkg/storage/config.go\<close>. The
  implementations of the interface \<open>PruningPolicy\<close> are the constructors of a datatype and the method \<open>ShouldPrune\<close> is
  one function over them. Times are nanoseconds. Shown here: which versions the policies keep, and how a composite
  policy combines its parts.
\<close>

section \<open>Pruning policies\<close>

record StoredVersionInfo =
  svi_Version :: version
  svi_Timestamp :: int
  svi_Size :: u64

datatype PruningPolicy =
    KeepLastNVersions int version
  | KeepVersionsNewerThan int int
  | KeepMilestoneVersions int version
  | CompositePruningPolicy "PruningPolicy list" bool

definition NewKeepLastNVersions :: "int \<Rightarrow> version \<Rightarrow> PruningPolicy" where
  "NewKeepLastNVersions n currentVersion = KeepLastNVersions n currentVersion"

definition NewKeepVersionsNewerThan :: "int \<Rightarrow> int \<Rightarrow> PruningPolicy" where
  "NewKeepVersionsNewerThan now age = KeepVersionsNewerThan age now"

definition NewKeepMilestoneVersions :: "int \<Rightarrow> version \<Rightarrow> PruningPolicy" where
  "NewKeepMilestoneVersions interval currentVersion = KeepMilestoneVersions interval currentVersion"

definition NewCompositePruningPolicy :: "bool \<Rightarrow> PruningPolicy list \<Rightarrow> PruningPolicy" where
  "NewCompositePruningPolicy all policies = CompositePruningPolicy policies all"

text \<open>\<^verbatim>\<open>Time.Sub\<close>: the difference, saturated at 64 bits.\<close>

definition timeSub :: "int \<Rightarrow> int \<Rightarrow> int" where
  "timeSub t u = max (- (2 ^ 63)) (min (2 ^ 63 - 1) (t - u))"

definition KeepLastNVersions_ShouldPrune :: "int \<Rightarrow> version \<Rightarrow> version \<Rightarrow> bool" where
  "KeepLastNVersions_ShouldPrune n currentVersion version =
     (if version = currentVersion then False else currentVersion - version > of_int n)"

definition KeepVersionsNewerThan_ShouldPrune :: "int \<Rightarrow> int \<Rightarrow> StoredVersionInfo \<Rightarrow> bool" where
  "KeepVersionsNewerThan_ShouldPrune age now info = (timeSub now (svi_Timestamp info) > age)"

definition KeepMilestoneVersions_ShouldPrune :: "int \<Rightarrow> version \<Rightarrow> version \<Rightarrow> bool result" where
  "KeepMilestoneVersions_ShouldPrune interval currentVersion version =
     (if version = currentVersion then Inr False
      else if (of_int interval :: u64) = 0 then Inl (Panic ''integer divide by zero'')
      else Inr (version mod of_int interval \<noteq> 0))"

fun ShouldPrune :: "PruningPolicy \<Rightarrow> version \<Rightarrow> StoredVersionInfo \<Rightarrow> bool result"
  and combinePolicies :: "PruningPolicy list \<Rightarrow> bool \<Rightarrow> version \<Rightarrow> StoredVersionInfo \<Rightarrow> bool result" where
  "ShouldPrune (KeepLastNVersions n currentVersion) version info = Inr (KeepLastNVersions_ShouldPrune n currentVersion version)"
| "ShouldPrune (KeepVersionsNewerThan age now) version info = Inr (KeepVersionsNewerThan_ShouldPrune age now info)"
| "ShouldPrune (KeepMilestoneVersions interval currentVersion) version info = KeepMilestoneVersions_ShouldPrune interval currentVersion version"
| "ShouldPrune (CompositePruningPolicy policies all) version info =
     (if length policies = 0 then Inr False else combinePolicies policies all version info)"
| "combinePolicies [] all version info = Inr all"
| "combinePolicies (policy # rest) all version info =
     (case ShouldPrune policy version info of
        Inl e \<Rightarrow> Inl e
      | Inr shouldPrune \<Rightarrow>
          if all \<and> \<not> shouldPrune then Inr False
          else if \<not> all \<and> shouldPrune then Inr True
          else combinePolicies rest all version info)"

section \<open>Configuration\<close>

record PebbleConfig =
  pc_CacheSize :: int
  pc_WriteBufferSize :: int
  pc_MaxOpenFiles :: int
  pc_Compression :: string
  pc_DisableWAL :: bool
  pc_MaxConcurrentCompactions :: int

record MetricsConfig =
  mc_Enabled :: bool
  mc_ReportInterval :: int
  mc_MaxLatencySamples :: int

record PruningPolicyConfig =
  ppc_Type :: string
  ppc_KeepVersions :: int
  ppc_MaxAge :: int
  ppc_MilestoneInterval :: int

record PruningConfig =
  prc_Enabled :: bool
  prc_Interval :: int
  prc_Policy :: PruningPolicyConfig

record Config =
  cfg_Backend :: string
  cfg_Path :: string
  cfg_Pebble :: PebbleConfig
  cfg_Metrics :: MetricsConfig
  cfg_Pruning :: PruningConfig
  cfg_KeyEncoder :: string

definition DefaultConfig :: "string \<Rightarrow> Config" where
  "DefaultConfig path =
     \<lparr>cfg_Backend = ''pebble'', cfg_Path = path,
      cfg_Pebble = \<lparr>pc_CacheSize = 64 * 2 ^ 20, pc_WriteBufferSize = 32 * 2 ^ 20, pc_MaxOpenFiles = 1000, pc_Compression = ''snappy'',
        pc_DisableWAL = False, pc_MaxConcurrentCompactions = 3\<rparr>,
      cfg_Metrics = \<lparr>mc_Enabled = True, mc_ReportInterval = 60 * 10 ^ 9, mc_MaxLatencySamples = 10000\<rparr>,
      cfg_Pruning = \<lparr>prc_Enabled = False, prc_Interval = 3600 * 10 ^ 9,
        prc_Policy = \<lparr>ppc_Type = ''keep_last_n'', ppc_KeepVersions = 100, ppc_MaxAge = 0, ppc_MilestoneInterval = 0\<rparr>\<rparr>,
      cfg_KeyEncoder = ''default''\<rparr>"

definition MemoryConfig :: Config where
  "MemoryConfig =
     \<lparr>cfg_Backend = ''memory'', cfg_Path = [],
      cfg_Pebble = \<lparr>pc_CacheSize = 0, pc_WriteBufferSize = 0, pc_MaxOpenFiles = 0, pc_Compression = [], pc_DisableWAL = False,
        pc_MaxConcurrentCompactions = 0\<rparr>,
      cfg_Metrics = \<lparr>mc_Enabled = False, mc_ReportInterval = 0, mc_MaxLatencySamples = 0\<rparr>,
      cfg_Pruning = \<lparr>prc_Enabled = False, prc_Interval = 0,
        prc_Policy = \<lparr>ppc_Type = [], ppc_KeepVersions = 0, ppc_MaxAge = 0, ppc_MilestoneInterval = 0\<rparr>\<rparr>,
      cfg_KeyEncoder = ''default''\<rparr>"

definition Validate :: "Config \<Rightarrow> unit result" where
  "Validate c =
     (if cfg_Backend c \<notin> {''pebble'', ''memory''} then Inl ErrInvalidBackend
      else if cfg_Backend c = ''pebble'' \<and> cfg_Path c = [] then Inl ErrPathRequired
      else if pc_CacheSize (cfg_Pebble c) < 0 then Inl ErrInvalidCacheSize
      else if pc_WriteBufferSize (cfg_Pebble c) < 0 then Inl ErrInvalidWriteBufferSize
      else if pc_Compression (cfg_Pebble c) \<notin> {''snappy'', ''zstd'', ''none'', []} then Inl ErrInvalidCompression
      else if ppc_Type (prc_Policy (cfg_Pruning c)) \<notin> {''keep_last_n'', ''keep_newer_than'', ''keep_milestones'', []} then Inl ErrInvalidPruningPolicy
      else Inr ())"

lemma default_configs_valid: "Validate MemoryConfig = Inr ()" "Validate (DefaultConfig path) = (if path = [] then Inl ErrPathRequired else Inr ())"
  by (simp_all add: Validate_def MemoryConfig_def DefaultConfig_def)

section \<open>What the policies keep\<close>

lemma unat_of_int:
  assumes "0 \<le> n" and "n < 2 ^ 63"
  shows "unat (of_int n :: u64) = nat n"
proof -
  have "uint (of_int n :: u64) = n mod 2 ^ 64" by (simp add: unsigned_of_int take_bit_eq_mod)
  also have "\<dots> = n" using assms by (intro mod_pos_pos_trivial) simp_all
  finally show ?thesis by (simp add: unat_eq_nat_uint)
qed

lemma unat_sub_word: "v \<le> c \<Longrightarrow> unat (c - v :: u64) = unat c - unat v"
  by (simp add: unat_sub)

lemma nat_wrap: "0 \<le> a \<Longrightarrow> a < b \<Longrightarrow> b < int M \<Longrightarrow> nat (a - b + int M) = M - (nat b - nat a)"
  by linarith

lemma unat_sub_wrap:
  fixes v c :: u64
  assumes "c < v"
  shows "unat (c - v) = 2 ^ 64 - (unat v - unat c)"
proof -
  have lt: "uint c < uint v" using assms by (simp add: word_less_def)
  have "uint (c - v) = uint c - uint v + 2 ^ 64" using uint_sub_if' [of c v] lt by simp
  moreover have "uint v < int (2 ^ 64)" using uint_lt2p [of v] by simp
  ultimately show ?thesis using nat_wrap [OF uint_ge_0 [of c] lt, of "2 ^ 64"] by (simp only: unat_eq_nat_uint of_nat_power of_nat_numeral)
qed

lemma lastN_kept:
  assumes "0 \<le> n" and "n < 2 ^ 63"
  shows "v \<le> c \<Longrightarrow> ShouldPrune (NewKeepLastNVersions n c) v info = Inr (unat v + nat n < unat c)"
    and "c < v \<Longrightarrow> ShouldPrune (NewKeepLastNVersions n c) v info = Inr (nat n + (unat v - unat c) < 2 ^ 64)"
proof -
  have eq: "ShouldPrune (NewKeepLastNVersions n c) v info = Inr (v \<noteq> c \<and> nat n < unat (c - v))"
    using assms by (simp add: NewKeepLastNVersions_def KeepLastNVersions_ShouldPrune_def word_less_nat_alt unat_of_int)
  show "ShouldPrune (NewKeepLastNVersions n c) v info = Inr (unat v + nat n < unat c)" if "v \<le> c"
    using that by (auto simp: eq unat_sub_word word_le_nat_alt word_unat_eq_iff)
  show "ShouldPrune (NewKeepLastNVersions n c) v info = Inr (nat n + (unat v - unat c) < 2 ^ 64)" if "c < v"
    using that unsigned_less [of v] by (auto simp: eq unat_sub_wrap)
qed

text \<open>A composite policy: conjunction or disjunction of its parts, unless one that is asked panics.\<close>

lemma combine_all: "combinePolicies ps True v i = Inr b \<Longrightarrow> b \<longleftrightarrow> (\<forall>p \<in> set ps. ShouldPrune p v i = Inr True)"
  by (induction ps) (auto split: sum.splits if_splits)

lemma combine_any: "combinePolicies ps False v i = Inr b \<Longrightarrow> b \<longleftrightarrow> (\<exists>p \<in> set ps. ShouldPrune p v i = Inr True)"
  by (induction ps) (auto split: sum.splits if_splits)

lemma combine_total: "(\<forall>p \<in> set ps. \<exists>b. ShouldPrune p v i = Inr b) \<Longrightarrow> \<exists>b. combinePolicies ps all v i = Inr b"
  by (induction ps) (auto split: sum.splits)

lemma card_kept: "card {v :: u64. v \<le> c \<and> unat c \<le> unat v + n} = min n (unat c) + 1"
proof -
  have "bij_betw unat {v :: u64. v \<le> c \<and> unat c \<le> unat v + n} {unat c - n..unat c}"
  proof (rule bij_betw_byWitness [where f' = of_nat])
    have "unat c < 2 ^ 64" using unsigned_less [of c] by simp
    then have "unat (of_nat a :: u64) = a" if "a \<le> unat c" for a
      using that by (simp add: unsigned_of_nat take_bit_nat_eq_self)
    then show "\<forall>a \<in> {unat c - n..unat c}. unat (of_nat a :: u64) = a" "of_nat ` {unat c - n..unat c} \<subseteq> {v :: u64. v \<le> c \<and> unat c \<le> unat v + n}"
      by (auto simp: word_le_nat_alt)
  qed (auto simp: word_le_nat_alt)
  from bij_betw_same_card [OF this] show ?thesis by simp
qed

text \<open>
  C34: what \<open>KeepLastNVersions\<close> keeps of the versions up to the current one: the current version and the \<open>n\<close> versions
  before it, so one more than the \<open>n\<close> most recent versions of its description. A version above the current one is pruned
  unless it is so far above that the 64-bit difference wraps around to at most \<open>n\<close>; a composite policy asked about
  policies that do not panic prunes if all of them, respectively one of them, would.
\<close>

theorem pruning_policies:
  assumes "0 \<le> n" and "n < 2 ^ 63"
  shows "{v. v \<le> c \<and> ShouldPrune (NewKeepLastNVersions n c) v info = Inr False} = {v. v \<le> c \<and> unat c \<le> unat v + nat n}
    \<and> card {v. v \<le> c \<and> ShouldPrune (NewKeepLastNVersions n c) v info = Inr False} = min (nat n) (unat c) + 1
    \<and> (\<forall>v > c. ShouldPrune (NewKeepLastNVersions n c) v info = Inr (nat n + (unat v - unat c) < 2 ^ 64))
    \<and> (\<forall>ps v. ps \<noteq> [] \<longrightarrow> (\<forall>p \<in> set ps. \<exists>b. ShouldPrune p v info = Inr b) \<longrightarrow>
         ShouldPrune (NewCompositePruningPolicy True ps) v info = Inr (\<forall>p \<in> set ps. ShouldPrune p v info = Inr True)
         \<and> ShouldPrune (NewCompositePruningPolicy False ps) v info = Inr (\<exists>p \<in> set ps. ShouldPrune p v info = Inr True))"
proof -
  have eq: "{v. v \<le> c \<and> ShouldPrune (NewKeepLastNVersions n c) v info = Inr False} = {v. v \<le> c \<and> unat c \<le> unat v + nat n}"
    by (rule Collect_cong) (auto simp: lastN_kept(1) [OF assms])
  have "ShouldPrune (NewCompositePruningPolicy True ps) v info = Inr (\<forall>p \<in> set ps. ShouldPrune p v info = Inr True)
      \<and> ShouldPrune (NewCompositePruningPolicy False ps) v info = Inr (\<exists>p \<in> set ps. ShouldPrune p v info = Inr True)"
    if "ps \<noteq> []" "\<forall>p \<in> set ps. \<exists>b. ShouldPrune p v info = Inr b" for ps v
    using combine_total [OF that(2), of True] combine_total [OF that(2), of False] combine_all [of ps v info] combine_any [of ps v info] that(1)
    by (auto simp: NewCompositePruningPolicy_def)
  with eq card_kept [of c "nat n"] lastN_kept(2) [OF assms] show ?thesis by simp
qed

theorem pruning_policies_witness:
  "card {v. v \<le> 10 \<and> ShouldPrune (NewKeepLastNVersions 3 10) v \<lparr>svi_Version = 0, svi_Timestamp = 0, svi_Size = 0\<rparr> = Inr False} = 4"
proof -
  have "(0 :: int) \<le> 3" "(3 :: int) < 2 ^ 63" by simp_all
  note kept = pruning_policies [OF this, of 10 "\<lparr>svi_Version = 0, svi_Timestamp = 0, svi_Size = 0\<rparr>"]
  have "min (nat 3) (unat (10 :: version)) + 1 = 4" by simp
  then show ?thesis by (rule trans [OF conjunct1 [OF conjunct2 [OF kept]]])
qed

end
