(* ===== verification/ErrorCodes.thy ===== *)
theory ErrorCodes
  imports NodeKeys
begin

text \<open>
  Classification of errors and the default error handlers: \<^verbatim>\<open>pkg/types/error_utils.go\<close>, \<^verbatim>\<open>pkg/tree/errors.go\<close> and
  \<^verbatim>\<open>pkg/tree/error_handlers.go\<close>. An error keeps its format string, not its arguments, so the handlers keep the string of
  their message; what they log is left out. The random jitter of the back-off is an argument. Shown here: wrapping never
  changes the class of an error, which classes the sentinels have, and the bounds of the back-off.
\<close>

section \<open>Error chains\<close>

text \<open>\<^verbatim>\<open>errors.Is\<close> for a sentinel: the error itself or one that it wraps.\<close>

fun errors_Is :: "error \<Rightarrow> error \<Rightarrow> bool" where
  "errors_Is (Wrapf msg err) target \<longleftrightarrow> Wrapf msg err = target \<or> errors_Is err target"
| "errors_Is err target \<longleftrightarrow> err = target"

definition WrapError :: "error option \<Rightarrow> string \<Rightarrow> error option" where
  "WrapError err msg = (case err of None \<Rightarrow> None | Some e \<Rightarrow> Some (Wrapf msg e))"

definition tree_WrapError :: "error option \<Rightarrow> string \<Rightarrow> error option" where
  "tree_WrapError err msg = (case err of None \<Rightarrow> None | Some e \<Rightarrow> Some (Wrapf msg e))"

datatype ErrorCode = CodeUnknown | CodeCorruption | CodeNotFound | CodeInvalidInput | CodeStorageFailure
  | CodeResourceExhausted | CodeTransactionConflict

definition IsRetryable :: "error \<Rightarrow> bool" where
  "IsRetryable err \<longleftrightarrow> errors_Is err ErrStorageFailure \<or> errors_Is err ErrTransactionAborted \<or> errors_Is err ErrTxConflict"

definition GetErrorCode :: "error \<Rightarrow> ErrorCode" where
  "GetErrorCode err =
     (if errors_Is err ErrCorruptedNode \<or> errors_Is err ErrInvalidNodeType \<or> errors_Is err ErrHashMismatch then CodeCorruption
      else if errors_Is err ErrKeyNotFound \<or> errors_Is err ErrVersionNotFound \<or> errors_Is err ErrNodeNotFound then CodeNotFound
      else if errors_Is err ErrInvalidKey \<or> errors_Is err ErrEmptyKey \<or> errors_Is err ErrInvalidVersion \<or> errors_Is err ErrValueTooLarge
        \<or> errors_Is err ErrInvalidNibble \<or> errors_Is err ErrInvalidNodeKey \<or> errors_Is err ErrInvalidNibbleCount then CodeInvalidInput
      else if errors_Is err ErrStorageFailure \<or> errors_Is err ErrTransactionAborted \<or> errors_Is err ErrDatabaseClosed then CodeStorageFailure
      else if errors_Is err ErrMaxDepthExceeded \<or> errors_Is err ErrBatchTooLarge \<or> errors_Is err ErrOutOfMemory then CodeResourceExhausted
      else if errors_Is err ErrTxConflict \<or> errors_Is err ErrTxStateInvalid then CodeTransactionConflict
      else CodeUnknown)"

section \<open>The default handlers\<close>

definition HandleCorruptedNode :: "NodeKey \<Rightarrow> error \<Rightarrow> error" where
  "HandleCorruptedNode key err = Wrapf ''corrupted node at %v'' err"

definition HandleMissingNode :: "NodeKey \<Rightarrow> error" where
  "HandleMissingNode key = Errorf ''node not found at %v''"

record DefaultWriteErrorHandler =
  maxRetries :: int
  baseDelay :: u64

definition NewDefaultWriteErrorHandler :: "int \<Rightarrow> u64 \<Rightarrow> DefaultWriteErrorHandler" where
  "NewDefaultWriteErrorHandler retries delay = \<lparr>maxRetries = retries, baseDelay = delay\<rparr>"

definition HandleWriteFailure :: "DefaultWriteErrorHandler \<Rightarrow> error \<Rightarrow> error" where
  "HandleWriteFailure h err = Wrapf ''write operation failed'' err"

definition ShouldRetry :: "DefaultWriteErrorHandler \<Rightarrow> error \<Rightarrow> bool" where
  "ShouldRetry h err \<longleftrightarrow> False"

text \<open>
  A duration is a 64-bit word; a shift by 64 or more bits gives zero, and a negative attempt is a huge shift. The
  argument \<open>jitter\<close> is the random fraction of the delay that the code adds.
\<close>

definition RetryDelay :: "(u64 \<Rightarrow> u64) \<Rightarrow> DefaultWriteErrorHandler \<Rightarrow> int \<Rightarrow> u64" where
  "RetryDelay jitter h attempt =
     (let shift = unat (of_int attempt :: u64);
          delay = baseDelay h * (if shift < 64 then push_bit shift 1 else 0)
      in delay + jitter delay)"

section \<open>Wrapping keeps the class\<close>

text \<open>The sentinels are no wrapped errors, so a chain contains a sentinel if its innermost error is that sentinel.\<close>

fun root_cause :: "error \<Rightarrow> error" where
  "root_cause (Wrapf msg err) = root_cause err"
| "root_cause err = err"

lemma errors_Is_root: "(\<And>m e. target \<noteq> Wrapf m e) \<Longrightarrow> errors_Is err target \<longleftrightarrow> root_cause err = target"
  by (induction err) auto

lemma errors_Is_Wrapf: "(\<And>m e. target \<noteq> Wrapf m e) \<Longrightarrow> errors_Is (Wrapf msg err) target \<longleftrightarrow> errors_Is err target"
  by auto

lemma GetErrorCode_Wrapf [simp]: "GetErrorCode (Wrapf msg err) = GetErrorCode err"
  by (simp add: GetErrorCode_def)

lemma IsRetryable_Wrapf [simp]: "IsRetryable (Wrapf msg err) = IsRetryable err"
  by (simp add: IsRetryable_def)

lemma GetErrorCode_root: "GetErrorCode err = GetErrorCode (root_cause err)"
  by (induction err) simp_all

lemma GetErrorCode_sentinels [simp]:
  "GetErrorCode ErrKeyNotFound = CodeNotFound" "GetErrorCode ErrVersionNotFound = CodeNotFound"
  "GetErrorCode ErrEmptyKey = CodeInvalidInput" "GetErrorCode ErrValueTooLarge = CodeInvalidInput"
  "GetErrorCode ErrEmptyValue = CodeUnknown" "GetErrorCode ErrInvalidVersionRange = CodeUnknown"
  "GetErrorCode ErrStorageClosed = CodeUnknown" "GetErrorCode (Errorf msg) = CodeUnknown"
  by (simp_all add: GetErrorCode_def)

lemma IsRetryable_sentinels [simp]:
  "\<not> IsRetryable ErrKeyNotFound" "\<not> IsRetryable ErrVersionNotFound" "\<not> IsRetryable ErrEmptyKey" "\<not> IsRetryable ErrValueTooLarge"
  "\<not> IsRetryable ErrEmptyValue" "\<not> IsRetryable ErrInvalidVersionRange" "\<not> IsRetryable (Errorf msg)"
  by (simp_all add: IsRetryable_def)

text \<open>A missing node that went through its handler is no longer recognised as not found.\<close>

lemma handlers_code:
  "GetErrorCode (HandleCorruptedNode key err) = GetErrorCode err" "GetErrorCode (HandleWriteFailure h err) = GetErrorCode err"
  "GetErrorCode (HandleMissingNode key) = CodeUnknown"
  by (simp_all add: HandleCorruptedNode_def HandleWriteFailure_def HandleMissingNode_def)

text \<open>Retryable errors are storage failures or transaction conflicts, unless their chain is of another class.\<close>

lemma retryable_code: "IsRetryable err \<Longrightarrow> GetErrorCode err \<in> {CodeStorageFailure, CodeTransactionConflict}"
  by (auto simp: IsRetryable_def GetErrorCode_def errors_Is_root)

section \<open>The back-off\<close>

lemma unat_power_two: "n < 64 \<Longrightarrow> unat (2 ^ n :: u64) = 2 ^ n"
proof -
  assume n: "n < 64"
  then have "(2 :: nat) ^ n < 2 ^ 64" by (rule power_strict_increasing) simp
  then have "unat (of_nat (2 ^ n) :: u64) = 2 ^ n" using n by (simp only: unsigned_of_nat) (simp add: take_bit_nat_eq_self)
  then show ?thesis by simp
qed

lemma retry_delay_bounds:
  assumes "0 \<le> attempt" and "unat (baseDelay h) * 2 ^ nat attempt < 2 ^ 62" and "baseDelay h \<noteq> 0"
    and jitter: "\<And>d. unat (jitter d) \<le> unat d div 4"
  defines "d \<equiv> unat (baseDelay h) * 2 ^ nat attempt"
  shows "d \<le> unat (RetryDelay jitter h attempt) \<and> unat (RetryDelay jitter h attempt) \<le> d + d div 4"
proof -
  have "1 \<le> unat (baseDelay h)" using assms(3) by (simp add: Suc_le_eq unat_gt_0)
  then have "2 ^ nat attempt \<le> d" by (simp add: d_def)
  then have "(2 :: nat) ^ nat attempt < 2 ^ 62" using assms(2) unfolding d_def by (rule le_less_trans)
  then have small: "nat attempt < 62" by (rule power_less_imp_less_exp [rotated]) simp
  have shift: "unat (of_int attempt :: u64) = nat attempt"
    using small assms(1) by (simp add: unsigned_of_int take_bit_int_eq_self)
  let ?delay = "baseDelay h * 2 ^ nat attempt"
  have delay: "unat ?delay = d"
    using assms(2) small by (simp add: unat_word_ariths unat_power_two d_def)
  have "d + unat (jitter ?delay) < 2 ^ 64" using jitter [of ?delay] assms(2) unfolding delay d_def [symmetric] by simp
  then have "unat (?delay + jitter ?delay) = d + unat (jitter ?delay)" by (subst unat_add_lem [THEN iffD1]) (simp_all add: delay)
  with jitter [of ?delay] shift small show ?thesis by (simp add: RetryDelay_def delay Let_def)
qed

text \<open>From the 64th attempt on the delay is gone.\<close>

lemma retry_delay_overflow: "64 \<le> attempt \<Longrightarrow> attempt < 2 ^ 63 \<Longrightarrow> RetryDelay jitter h attempt = jitter 0"
proof -
  assume "64 \<le> attempt" "attempt < 2 ^ 63"
  then have "unat (of_int attempt :: u64) = nat attempt" "\<not> nat attempt < 64" by (simp_all add: unsigned_of_int take_bit_int_eq_self)
  then show ?thesis by (simp add: RetryDelay_def)
qed

end
