(* ===== verification/StorageMetrics.thy ===== *)
theory StorageMetrics
  imports Prelude
begin

text \<open>
  The metrics collector of the storage backends: \<^verbatim>\<open>pkg/storage/metrics.go\<close>. Counters are 64-bit words. The readers take
  an optional collector, where \<open>None\<close> is the \<open>NullMetrics\<close> of the source. A percentile multiplies the number of samples
  with a fraction in floating point; that number of samples is the argument \<open>target\<close>. Shown here: the latency
  histogram finds the bucket of the sample with the asked rank.
\<close>

section \<open>The latency histogram\<close>

record latencyHistogram =
  lh_buckets :: "u64 list"
  lh_bounds :: "int list"
  lh_total :: u64

definition newLatencyHistogram :: latencyHistogram where
  "newLatencyHistogram =
     (let bounds = [100, 500, 10 ^ 3, 5 * 10 ^ 3, 10 * 10 ^ 3, 50 * 10 ^ 3, 100 * 10 ^ 3, 500 * 10 ^ 3, 10 ^ 6, 5 * 10 ^ 6,
        10 * 10 ^ 6, 50 * 10 ^ 6, 100 * 10 ^ 6, 500 * 10 ^ 6, 10 ^ 9]
      in \<lparr>lh_buckets = replicate (length bounds + 1) 0, lh_bounds = bounds, lh_total = 0\<rparr>)"

fun findBucket :: "int list \<Rightarrow> nat \<Rightarrow> int \<Rightarrow> nat option" where
  "findBucket [] i d = None"
| "findBucket (bound # bounds) i d = (if d \<le> bound then Some i else findBucket bounds (Suc i) d)"

definition histogram_record :: "latencyHistogram \<Rightarrow> int \<Rightarrow> latencyHistogram" where
  "histogram_record h d =
     (let i = (case findBucket (lh_bounds h) 0 d of Some i \<Rightarrow> i | None \<Rightarrow> length (lh_buckets h) - 1)
      in h\<lparr>lh_total := lh_total h + 1, lh_buckets := (lh_buckets h)[i := lh_buckets h ! i + 1]\<rparr>)"

text \<open>What the loop returns for the bucket where it stops: the middle of the bucket.\<close>

definition bucketLatency :: "int list \<Rightarrow> nat \<Rightarrow> int" where
  "bucketLatency bounds i =
     (if i = 0 then bounds ! 0 div 2
      else if i < length bounds then bounds ! (i - 1) + (bounds ! i - bounds ! (i - 1)) div 2
      else bounds ! (length bounds - 1))"

fun percentileLoop :: "int list \<Rightarrow> u64 list \<Rightarrow> nat \<Rightarrow> u64 \<Rightarrow> u64 \<Rightarrow> int" where
  "percentileLoop bounds [] i count target = bounds ! (length bounds - 1)"
| "percentileLoop bounds (b # bs) i count target =
     (if count + b \<ge> target then bucketLatency bounds i else percentileLoop bounds bs (Suc i) (count + b) target)"

definition percentile :: "latencyHistogram \<Rightarrow> (u64 \<Rightarrow> u64) \<Rightarrow> int" where
  "percentile h scale =
     (if lh_total h = 0 then 0
      else percentileLoop (lh_bounds h) (lh_buckets h) 0 0 (scale (lh_total h)))"

section \<open>The collector\<close>

record MetricsCollector =
  getOps :: u64
  putOps :: u64
  deleteOps :: u64
  batchOps :: u64
  getLatencies :: latencyHistogram
  putLatencies :: latencyHistogram
  dbSize :: u64
  liveDataSize :: u64
  cacheHits :: u64
  cacheMisses :: u64
  cacheSize :: u64

definition NewMetricsCollector :: MetricsCollector where
  "NewMetricsCollector = \<lparr>getOps = 0, putOps = 0, deleteOps = 0, batchOps = 0, getLatencies = newLatencyHistogram,
     putLatencies = newLatencyHistogram, dbSize = 0, liveDataSize = 0, cacheHits = 0, cacheMisses = 0, cacheSize = 0\<rparr>"

definition RecordGet :: "int \<Rightarrow> MetricsCollector \<Rightarrow> MetricsCollector" where
  "RecordGet latency m = m\<lparr>getOps := getOps m + 1, getLatencies := histogram_record (getLatencies m) latency\<rparr>"

definition RecordPut :: "int \<Rightarrow> MetricsCollector \<Rightarrow> MetricsCollector" where
  "RecordPut latency m = m\<lparr>putOps := putOps m + 1, putLatencies := histogram_record (putLatencies m) latency\<rparr>"

definition RecordDelete :: "MetricsCollector \<Rightarrow> MetricsCollector" where
  "RecordDelete m = m\<lparr>deleteOps := deleteOps m + 1\<rparr>"

definition RecordBatchCommit :: "MetricsCollector \<Rightarrow> MetricsCollector" where
  "RecordBatchCommit m = m\<lparr>batchOps := batchOps m + 1\<rparr>"

definition RecordCacheHit :: "MetricsCollector \<Rightarrow> MetricsCollector" where
  "RecordCacheHit m = m\<lparr>cacheHits := cacheHits m + 1\<rparr>"

definition RecordCacheMiss :: "MetricsCollector \<Rightarrow> MetricsCollector" where
  "RecordCacheMiss m = m\<lparr>cacheMisses := cacheMisses m + 1\<rparr>"

definition UpdateDatabaseSize :: "u64 \<Rightarrow> MetricsCollector \<Rightarrow> MetricsCollector" where
  "UpdateDatabaseSize sz m = m\<lparr>dbSize := sz\<rparr>"

definition UpdateLiveDataSize :: "u64 \<Rightarrow> MetricsCollector \<Rightarrow> MetricsCollector" where
  "UpdateLiveDataSize sz m = m\<lparr>liveDataSize := sz\<rparr>"

definition UpdateCacheSize :: "u64 \<Rightarrow> MetricsCollector \<Rightarrow> MetricsCollector" where
  "UpdateCacheSize sz m = m\<lparr>cacheSize := sz\<rparr>"

definition Metrics_GetOperations :: "MetricsCollector option \<Rightarrow> u64" where
  "Metrics_GetOperations mo = (case mo of None \<Rightarrow> 0 | Some m \<Rightarrow> getOps m)"

definition Metrics_PutOperations :: "MetricsCollector option \<Rightarrow> u64" where
  "Metrics_PutOperations mo = (case mo of None \<Rightarrow> 0 | Some m \<Rightarrow> putOps m)"

definition Metrics_DeleteOperations :: "MetricsCollector option \<Rightarrow> u64" where
  "Metrics_DeleteOperations mo = (case mo of None \<Rightarrow> 0 | Some m \<Rightarrow> deleteOps m)"

definition Metrics_BatchCommits :: "MetricsCollector option \<Rightarrow> u64" where
  "Metrics_BatchCommits mo = (case mo of None \<Rightarrow> 0 | Some m \<Rightarrow> batchOps m)"

definition Metrics_GetLatency :: "(u64 \<Rightarrow> u64) \<Rightarrow> MetricsCollector option \<Rightarrow> u64" where
  "Metrics_GetLatency scale mo = (case mo of None \<Rightarrow> 0 | Some m \<Rightarrow> of_int (percentile (getLatencies m) scale))"

definition Metrics_PutLatency :: "(u64 \<Rightarrow> u64) \<Rightarrow> MetricsCollector option \<Rightarrow> u64" where
  "Metrics_PutLatency scale mo = (case mo of None \<Rightarrow> 0 | Some m \<Rightarrow> of_int (percentile (putLatencies m) scale))"

definition Metrics_DatabaseSize :: "MetricsCollector option \<Rightarrow> u64" where
  "Metrics_DatabaseSize mo = (case mo of None \<Rightarrow> 0 | Some m \<Rightarrow> dbSize m)"

definition Metrics_LiveDataSize :: "MetricsCollector option \<Rightarrow> u64" where
  "Metrics_LiveDataSize mo = (case mo of None \<Rightarrow> 0 | Some m \<Rightarrow> liveDataSize m)"

definition Metrics_CacheSize :: "MetricsCollector option \<Rightarrow> u64" where
  "Metrics_CacheSize mo = (case mo of None \<Rightarrow> 0 | Some m \<Rightarrow> cacheSize m)"

section \<open>The buckets count the samples\<close>

definition bucketOf :: "int list \<Rightarrow> int \<Rightarrow> nat" where
  "bucketOf bounds d = length (takeWhile (\<lambda>b. b < d) bounds)"

definition inBucket :: "int list \<Rightarrow> nat \<Rightarrow> int list \<Rightarrow> nat" where
  "inBucket bounds i ds = length (filter (\<lambda>d. bucketOf bounds d = i) ds)"

lemma findBucket_eq: "findBucket bounds i d = (if bucketOf bounds d < length bounds then Some (i + bucketOf bounds d) else None)"
  by (induction bounds arbitrary: i) (auto simp: bucketOf_def)

lemma bucketOf_le: "bucketOf bounds d \<le> length bounds"
  by (simp add: bucketOf_def length_takeWhile_le)

lemma bucketOf_mono: "d \<le> e \<Longrightarrow> bucketOf bounds d \<le> bucketOf bounds e"
  unfolding bucketOf_def by (induction bounds) auto

lemma histogram_record_eq:
  assumes "length (lh_buckets h) = Suc (length (lh_bounds h))"
  shows "histogram_record h d = h\<lparr>lh_total := lh_total h + 1,
    lh_buckets := (lh_buckets h)[bucketOf (lh_bounds h) d := lh_buckets h ! bucketOf (lh_bounds h) d + 1]\<rparr>"
  using assms bucketOf_le [of "lh_bounds h" d] by (simp add: histogram_record_def findBucket_eq Let_def)

text \<open>The histogram after the samples \<open>ds\<close>.\<close>

definition histogram_of :: "int list \<Rightarrow> latencyHistogram" where
  "histogram_of ds = foldl histogram_record newLatencyHistogram ds"

lemma newHistogram_bounds [simp]: "length (lh_bounds newLatencyHistogram) = 15" "sorted (lh_bounds newLatencyHistogram)"
  by (simp_all add: newLatencyHistogram_def Let_def)

lemma inBucket_snoc: "inBucket bounds i (ds @ [d]) = inBucket bounds i ds + (if bucketOf bounds d = i then 1 else 0)"
  by (simp add: inBucket_def)

lemma histogram_of_eq:
  "lh_bounds (histogram_of ds) = lh_bounds newLatencyHistogram \<and> lh_total (histogram_of ds) = of_nat (length ds)
   \<and> lh_buckets (histogram_of ds) = map (\<lambda>i. of_nat (inBucket (lh_bounds newLatencyHistogram) i ds)) [0..<16]"
proof (induction ds rule: rev_induct)
  case Nil
  have "lh_buckets newLatencyHistogram = replicate 16 0" by (simp add: newLatencyHistogram_def Let_def numeral_eq_Suc)
  then show ?case by (simp add: histogram_of_def inBucket_def map_replicate_const) (simp add: newLatencyHistogram_def Let_def)
next
  case (snoc d ds)
  let ?bs = "lh_bounds newLatencyHistogram" and ?h = "histogram_of ds"
  have step: "histogram_of (ds @ [d]) = histogram_record ?h d" by (simp add: histogram_of_def)
  have b: "bucketOf ?bs d < 16" using bucketOf_le [of ?bs d] by simp
  have h: "histogram_record ?h d = ?h\<lparr>lh_total := lh_total ?h + 1,
      lh_buckets := (lh_buckets ?h)[bucketOf ?bs d := lh_buckets ?h ! bucketOf ?bs d + 1]\<rparr>"
    using snoc histogram_record_eq [of ?h d] by simp
  have "(map (\<lambda>i. of_nat (inBucket ?bs i ds)) [0..<16])[bucketOf ?bs d := of_nat (inBucket ?bs (bucketOf ?bs d) ds) + 1]
      = map (\<lambda>i. of_nat (inBucket ?bs i (ds @ [d])) :: u64) [0..<16]"
    by (rule nth_equalityI) (auto simp: nth_list_update inBucket_snoc)
  with snoc b show ?case by (simp add: step h)
qed

section \<open>Percentiles\<close>

lemma sorted_rank:
  assumes "sorted ys" and "0 < r" and "r \<le> length ys"
  shows "r \<le> length (filter (\<lambda>y. y \<le> i) ys) \<longleftrightarrow> ys ! (r - 1) \<le> (i :: 'a :: linorder)"
proof -
  have "filter (\<lambda>y. y \<le> i) ys = takeWhile (\<lambda>y. y \<le> i) ys"
    using assms(1)
  proof (induction ys)
    case (Cons y ys)
    then have "\<forall>x \<in> set ys. \<not> x \<le> i" if "\<not> y \<le> i" using that by (auto dest: order.trans)
    with Cons show ?case by (auto simp: filter_empty_conv)
  qed simp
  moreover have "r \<le> length (takeWhile (\<lambda>y. y \<le> i) ys) \<longleftrightarrow> ys ! (r - 1) \<le> i"
    using assms
  proof (induction ys arbitrary: r)
    case (Cons y ys)
    show ?case
    proof (cases "r = 1")
      case True
      then show ?thesis by simp
    next
      case False
      then obtain r' where r': "r = Suc r'" "0 < r'" using Cons.prems(2) by (cases r) auto
      then have "ys ! (r' - 1) \<in> set ys" using Cons.prems(3) by simp
      then have "y \<le> ys ! (r' - 1)" using Cons.prems(1) by simp
      moreover have "r' \<le> length (takeWhile (\<lambda>y. y \<le> i) ys) \<longleftrightarrow> ys ! (r' - 1) \<le> i" using Cons r' by simp
      ultimately show ?thesis using r' by (auto simp: nth_Cons' intro: order_trans)
    qed
  qed simp
  ultimately show ?thesis by simp
qed

text \<open>The loop stops at the bucket \<open>b\<close> up to which the asked number of samples is reached.\<close>

lemma filter_le_split: "length (filter (\<lambda>d. f d \<le> i) ds) = length (filter (\<lambda>d. f d < i) ds) + length (filter (\<lambda>d. f d = (i :: nat)) ds)"
  by (induction ds) auto

lemma percentileLoop_stop:
  fixes target :: u64
  assumes "length ds < 2 ^ 64" and "b < n" and "i \<le> b"
    and rank: "\<And>j. unat target \<le> length (filter (\<lambda>d. bucketOf bs d \<le> j) ds) \<longleftrightarrow> b \<le> j"
  shows "percentileLoop bounds (map (\<lambda>i. of_nat (inBucket bs i ds)) [i..<n]) i (of_nat (length (filter (\<lambda>d. bucketOf bs d < i) ds))) target
    = bucketLatency bounds b"
  using assms(3)
proof (induction "b - i" arbitrary: i rule: less_induct)
  case (less i)
  let ?lt = "\<lambda>i. length (filter (\<lambda>d. bucketOf bs d < i) ds)" and ?le = "length (filter (\<lambda>d. bucketOf bs d \<le> i) ds)"
  have upt: "[i..<n] = i # [Suc i..<n]" using less.prems assms(2) by (simp add: upt_conv_Cons)
  have le: "?le = ?lt (Suc i)" by (simp add: less_Suc_eq_le)
  have "?le < 2 ^ 64" using assms(1) length_filter_le [of _ ds] by (meson le_less_trans)
  then have "unat (of_nat ?le :: u64) = ?le" by (simp add: unsigned_of_nat take_bit_nat_eq_self)
  then have reached: "target \<le> of_nat ?le \<longleftrightarrow> b \<le> i" using rank [of i] by (simp add: word_le_nat_alt)
  have sum: "of_nat (?lt i) + of_nat (inBucket bs i ds) = (of_nat ?le :: u64)"
    by (simp add: filter_le_split [of "bucketOf bs"] inBucket_def)
  show ?case
  proof (cases "b = i")
    case True
    with reached sum show ?thesis by (simp add: upt)
  next
    case False
    then have "b - Suc i < b - i" "Suc i \<le> b" using less.prems by auto
    from less.hyps [OF this] False less.prems reached sum show ?thesis by (simp add: upt le)
  qed
qed

text \<open>
  Percentiles. After fewer than \<open>2 ^ 64\<close> samples, asking for the sample of rank \<open>target\<close> gives the middle of the bucket of that
  sample in the sorted list of the samples; when the scaled rank is zero, as it is for the 99th percentile of one sample,
  it gives the middle of the lowest bucket, whatever was measured.
\<close>

theorem latency_percentile:
  assumes "length ds < 2 ^ 64" and "ds \<noteq> []" and "unat (scale (of_nat (length ds))) \<le> length ds"
  defines "bounds \<equiv> lh_bounds newLatencyHistogram" and "r \<equiv> unat (scale (of_nat (length ds)))"
  shows "percentile (foldl histogram_record newLatencyHistogram ds) scale =
    (if r = 0 then 50 else bucketLatency bounds (length (takeWhile (\<lambda>b. b < sort ds ! (r - 1)) bounds)))"
proof -
  let ?target = "scale (of_nat (length ds))"
  have h: "lh_bounds (histogram_of ds) = bounds" "lh_total (histogram_of ds) = of_nat (length ds)"
    "lh_buckets (histogram_of ds) = map (\<lambda>i. of_nat (inBucket bounds i ds)) [0..<16]"
    using histogram_of_eq [of ds] by (simp_all add: bounds_def)
  have "unat (of_nat (length ds) :: u64) = length ds" using assms(1) by (simp add: unsigned_of_nat take_bit_nat_eq_self)
  then have "(of_nat (length ds) :: u64) \<noteq> 0" using assms(2) by (metis length_0_conv unsigned_0)
  then have p: "percentile (histogram_of ds) scale = percentileLoop bounds (map (\<lambda>i. of_nat (inBucket bounds i ds)) [0..<16]) 0 0 ?target"
    by (simp add: percentile_def h)
  show ?thesis
  proof (cases "r = 0")
    case True
    then have "?target = 0" by (simp add: r_def unat_eq_zero)
    then have "percentile (histogram_of ds) scale = bucketLatency bounds 0" unfolding p by (simp add: upt_conv_Cons)
    with True show ?thesis by (simp add: histogram_of_def bucketLatency_def bounds_def newLatencyHistogram_def)
  next
    case False
    let ?b = "bucketOf bounds (sort ds ! (r - 1))"
    have "sorted (map (bucketOf bounds) (sort ds))"
      by (rule sorted_map_mono [OF sorted_sort]) (simp add: bucketOf_mono mono_onI)
    then have "r \<le> length (filter (\<lambda>y. y \<le> j) (map (bucketOf bounds) (sort ds))) \<longleftrightarrow> ?b \<le> j" for j
      using sorted_rank [of "map (bucketOf bounds) (sort ds)" r j] False assms(3) by (simp add: r_def)
    moreover have "length (filter (\<lambda>y. y \<le> j) (map (bucketOf bounds) (sort ds))) = length (filter (\<lambda>d. bucketOf bounds d \<le> j) ds)" for j
      by (simp add: filter_map comp_def filter_sort)
    ultimately have rank: "unat ?target \<le> length (filter (\<lambda>d. bucketOf bounds d \<le> j) ds) \<longleftrightarrow> ?b \<le> j" for j by (simp add: r_def)
    have "?b < 16" using bucketOf_le [of bounds] by (simp add: bounds_def less_Suc_eq_le flip: Suc_le_eq)
    from percentileLoop_stop [OF assms(1) this le0 rank, of bounds] False show ?thesis
      by (simp add: p flip: histogram_of_def bucketOf_def)
  qed
qed

lemma latency_percentile_examples:
  "percentile (foldl histogram_record newLatencyHistogram [2 * 10 ^ 9]) (\<lambda>n. 0) = 50
    \<and> percentile (foldl histogram_record newLatencyHistogram [700, 30, 2 * 10 ^ 9]) (\<lambda>n. 2) = 750"
proof -
  let ?ds = "[700, 30, 2 * 10 ^ 9] :: int list"
  have sort: "sort ?ds = [30, 700, 2 * 10 ^ 9]" by simp
  have "percentile (foldl histogram_record newLatencyHistogram [2 * 10 ^ 9]) (\<lambda>n. 0) = 50"
    using latency_percentile [of "[2 * 10 ^ 9]" "\<lambda>n. 0"] by simp
  moreover have "percentile (foldl histogram_record newLatencyHistogram ?ds) (\<lambda>n. 2) = 750"
    using latency_percentile [of ?ds "\<lambda>n. 2"] unfolding sort by (simp add: newLatencyHistogram_def bucketLatency_def)
  ultimately show ?thesis by simp
qed

end
