(* ===== verification/PebbleStorage.thy ===== *)
theory PebbleStorage
  imports MemoryStorage StorageMetrics
begin

text \<open>
  The persistent storage backend: \<^verbatim>\<open>pkg/storage/pebble/pebble.go\<close>. The PebbleDB library is the record \<open>pebble\<close> of the
  functions that the backend calls, an argument of every operation, over arbitrary types of options, databases, batches,
  iterators and snapshots. The wrappers around them are records with their \<open>closed\<close> flag; the interfaces of the storage
  package are datatypes with a constructor per implementation. Latencies are an argument, the background goroutine is the
  step \<open>updateDatabaseMetrics\<close>. A nil database is dereferenced with a panic.
\<close>

section \<open>The library\<close>

record ('o, 'db, 'b, 'i, 's) pebble =
  pb_Options :: "int option \<Rightarrow> int option \<Rightarrow> 'o"
  pb_Open :: "string \<Rightarrow> 'o \<Rightarrow> 'db result"
  pb_ErrNotFound :: error
  pb_Get :: "'db \<Rightarrow> bytes \<Rightarrow> bytes result"
  pb_Set :: "'db \<Rightarrow> bytes \<Rightarrow> bytes \<Rightarrow> bool \<Rightarrow> unit result \<times> 'db"
  pb_Delete :: "'db \<Rightarrow> bytes \<Rightarrow> bool \<Rightarrow> unit result \<times> 'db"
  pb_DiskSpaceUsage :: "'db \<Rightarrow> u64"
  pb_Close :: "'db \<Rightarrow> unit result"
  pb_NewBatch :: "'db \<Rightarrow> 'b"
  pb_BatchSet :: "'b \<Rightarrow> bytes \<Rightarrow> bytes \<Rightarrow> unit result \<times> 'b"
  pb_BatchDelete :: "'b \<Rightarrow> bytes \<Rightarrow> unit result \<times> 'b"
  pb_BatchCommit :: "'b \<Rightarrow> bool \<Rightarrow> 'db \<Rightarrow> unit result \<times> 'b \<times> 'db"
  pb_BatchClose :: "'b \<Rightarrow> unit result \<times> 'b"
  pb_NewIter :: "'db \<Rightarrow> bytes option \<Rightarrow> bytes option \<Rightarrow> 'i result"
  pb_SeekGE :: "'i \<Rightarrow> bytes \<Rightarrow> bool \<times> 'i"
  pb_SeekLT :: "'i \<Rightarrow> bytes \<Rightarrow> bool \<times> 'i"
  pb_First :: "'i \<Rightarrow> bool \<times> 'i"
  pb_Last :: "'i \<Rightarrow> bool \<times> 'i"
  pb_Next :: "'i \<Rightarrow> bool \<times> 'i"
  pb_Prev :: "'i \<Rightarrow> bool \<times> 'i"
  pb_Valid :: "'i \<Rightarrow> bool"
  pb_Key :: "'i \<Rightarrow> bytes option"
  pb_Value :: "'i \<Rightarrow> bytes option"
  pb_Error :: "'i \<Rightarrow> error option"
  pb_IterClose :: "'i \<Rightarrow> unit result \<times> 'i"
  pb_NewSnapshot :: "'db \<Rightarrow> 's"
  pb_SnapGet :: "'s \<Rightarrow> bytes \<Rightarrow> bytes result"
  pb_SnapNewIter :: "'s \<Rightarrow> bytes option \<Rightarrow> bytes option \<Rightarrow> 'i result"
  pb_SnapClose :: "'s \<Rightarrow> unit result \<times> 's"

section \<open>Storage\<close>

record 'db PStorage =
  ps_db :: "'db option"
  ps_metrics :: "MetricsCollector option"
  ps_refCount :: int
  ps_closing :: bool
  ps_resourceWG :: int
  ps_openIterators :: int
  ps_openSnapshots :: int
  ps_maxIterators :: int
  ps_maxSnapshots :: int

record 'o POptions =
  po_PebbleOptions :: "'o option"
  po_EnableMetrics :: bool
  po_MaxIterators :: int
  po_MaxSnapshots :: int

definition pebble_DefaultOptions :: "('o, 'db, 'b, 'i, 's) pebble \<Rightarrow> 'o POptions" where
  "pebble_DefaultOptions P =
     \<lparr>po_PebbleOptions = Some (pb_Options P (Some (64 * 2 ^ 20)) (Some (32 * 2 ^ 20))), po_EnableMetrics = True,
      po_MaxIterators = 1000, po_MaxSnapshots = 100\<rparr>"

definition pebble_NewStorage :: "('o, 'db, 'b, 'i, 's) pebble \<Rightarrow> string \<Rightarrow> 'o POptions option \<Rightarrow> 'db PStorage result" where
  "pebble_NewStorage P path opts =
     (let o' = (case opts of None \<Rightarrow> pebble_DefaultOptions P | Some p \<Rightarrow> p);
          pebbleOpts = (case po_PebbleOptions o' of None \<Rightarrow> pb_Options P None None | Some q \<Rightarrow> q)
      in case pb_Open P path pebbleOpts of
           Inl err \<Rightarrow> Inl err
         | Inr db \<Rightarrow>
             Inr \<lparr>ps_db = Some db, ps_metrics = (if po_EnableMetrics o' then Some NewMetricsCollector else None), ps_refCount = 0,
                  ps_closing = False, ps_resourceWG = 0, ps_openIterators = 0, ps_openSnapshots = 0,
                  ps_maxIterators = po_MaxIterators o', ps_maxSnapshots = po_MaxSnapshots o'\<rparr>)"

definition pebble_addRef :: "'db PStorage \<Rightarrow> bool \<times> 'db PStorage" where
  "pebble_addRef s =
     (if ps_closing s then (False, s)
      else (True, s\<lparr>ps_refCount := ps_refCount s + 1, ps_resourceWG := ps_resourceWG s + 1\<rparr>))"

definition pebble_releaseRef :: "'db PStorage \<Rightarrow> 'db PStorage" where
  "pebble_releaseRef s = s\<lparr>ps_refCount := ps_refCount s - 1, ps_resourceWG := ps_resourceWG s - 1\<rparr>"

text \<open>\<open>withMetrics\<close>: record an operation if there is a collector; \<open>nilDB\<close>: the panic of a nil database.\<close>

definition withMetrics :: "(MetricsCollector \<Rightarrow> MetricsCollector) \<Rightarrow> 'db PStorage \<Rightarrow> 'db PStorage" where
  "withMetrics f s = s\<lparr>ps_metrics := map_option f (ps_metrics s)\<rparr>"

abbreviation nilDB :: error where
  "nilDB \<equiv> Panic ''nil pointer dereference''"

text \<open>The translation of a library read: a missing key is no error but a nil value.\<close>

definition readResult :: "('o, 'db, 'b, 'i, 's) pebble \<Rightarrow> bytes result \<Rightarrow> bytes option result" where
  "readResult P r =
     (case r of
        Inl err \<Rightarrow> if err = pb_ErrNotFound P then Inr None else Inl err
      | Inr value \<Rightarrow> Inr (Some (go_copy (replicate (length value) 0) value)))"

definition pebble_Get :: "('o, 'db, 'b, 'i, 's) pebble \<Rightarrow> int \<Rightarrow> 'db PStorage \<Rightarrow> bytes \<Rightarrow> bytes option result \<times> 'db PStorage" where
  "pebble_Get P latency s key =
     (if ps_closing s then (Inl ErrStorageClosed, s)
      else case ps_db s of
             None \<Rightarrow> (Inl nilDB, withMetrics (RecordGet latency) s)
           | Some db \<Rightarrow> (readResult P (pb_Get P db key), withMetrics (RecordGet latency) s))"

definition pebble_Put :: "('o, 'db, 'b, 'i, 's) pebble \<Rightarrow> int \<Rightarrow> 'db PStorage \<Rightarrow> bytes \<Rightarrow> bytes \<Rightarrow> unit result \<times> 'db PStorage" where
  "pebble_Put P latency s key value =
     (if ps_closing s then (Inl ErrStorageClosed, s)
      else case ps_db s of
             None \<Rightarrow> (Inl nilDB, withMetrics (RecordPut latency) s)
           | Some db \<Rightarrow> (let (r, db') = pb_Set P db key value True in (r, withMetrics (RecordPut latency) (s\<lparr>ps_db := Some db'\<rparr>))))"

definition pebble_Delete :: "('o, 'db, 'b, 'i, 's) pebble \<Rightarrow> 'db PStorage \<Rightarrow> bytes \<Rightarrow> unit result \<times> 'db PStorage" where
  "pebble_Delete P s key =
     (if ps_closing s then (Inl ErrStorageClosed, s)
      else case ps_db s of
             None \<Rightarrow> (Inl nilDB, withMetrics RecordDelete s)
           | Some db \<Rightarrow> (let (r, db') = pb_Delete P db key True in (r, withMetrics RecordDelete (s\<lparr>ps_db := Some db'\<rparr>))))"

definition pebble_Metrics :: "'db PStorage \<Rightarrow> MetricsCollector option" where
  "pebble_Metrics s = ps_metrics s"

text \<open>One round of the background goroutine; it reports whether the goroutine goes on.\<close>

definition updateDatabaseMetrics :: "('o, 'db, 'b, 'i, 's) pebble \<Rightarrow> 'db PStorage \<Rightarrow> bool \<times> 'db PStorage" where
  "updateDatabaseMetrics P s =
     (if ps_closing s then (False, s)
      else case ps_db s of
             None \<Rightarrow> (True, s)
           | Some db \<Rightarrow>
               (let diskSize = pb_DiskSpaceUsage P db
                in (True, if diskSize > 0 then withMetrics (UpdateDatabaseSize diskSize) s else s)))"

section \<open>Closing\<close>

text \<open>
  \<open>Close\<close> returns \<open>None\<close> while it waits for the open resources; \<open>finishClose\<close> is what it does after the wait.
\<close>

definition pebble_finishClose :: "('o, 'db, 'b, 'i, 's) pebble \<Rightarrow> 'db PStorage \<Rightarrow> unit result \<times> 'db PStorage" where
  "pebble_finishClose P s =
     (case ps_db s of None \<Rightarrow> (Inr (), s) | Some db \<Rightarrow> (pb_Close P db, s\<lparr>ps_db := None\<rparr>))"

definition pebble_Close :: "('o, 'db, 'b, 'i, 's) pebble \<Rightarrow> 'db PStorage \<Rightarrow> unit result option \<times> 'db PStorage" where
  "pebble_Close P s =
     (if ps_closing s then (Some (Inr ()), s)
      else let s1 = s\<lparr>ps_closing := True\<rparr>
           in if ps_resourceWG s1 = 0 then (let (r, s2) = pebble_finishClose P s1 in (Some r, s2))
              else (None, s1))"

section \<open>Batches\<close>

record 'b pebbleBatch =
  pbt_batch :: 'b
  pbt_closed :: bool

datatype 'b PBatch = PebbleBatch "'b pebbleBatch" | ErrorPBatch error

definition pebble_NewBatch :: "('o, 'db, 'b, 'i, 's) pebble \<Rightarrow> 'db PStorage \<Rightarrow> 'b PBatch result \<times> 'db PStorage" where
  "pebble_NewBatch P s =
     (case pebble_addRef s of
        (False, s1) \<Rightarrow> (Inr (ErrorPBatch ErrStorageClosed), s1)
      | (True, s1) \<Rightarrow>
          (case ps_db s1 of
             None \<Rightarrow> (Inl nilDB, s1)
           | Some db \<Rightarrow> (Inr (PebbleBatch \<lparr>pbt_batch = pb_NewBatch P db, pbt_closed = False\<rparr>), s1)))"

fun pebbleBatch_Put :: "('o, 'db, 'b, 'i, 's) pebble \<Rightarrow> 'b PBatch \<Rightarrow> bytes \<Rightarrow> bytes \<Rightarrow> unit result \<times> 'b PBatch" where
  "pebbleBatch_Put P (PebbleBatch b) key value =
     (let (r, b') = pb_BatchSet P (pbt_batch b) key value in (r, PebbleBatch (b\<lparr>pbt_batch := b'\<rparr>)))"
| "pebbleBatch_Put P (ErrorPBatch err) key value = (Inl err, ErrorPBatch err)"

fun pebbleBatch_Delete :: "('o, 'db, 'b, 'i, 's) pebble \<Rightarrow> 'b PBatch \<Rightarrow> bytes \<Rightarrow> unit result \<times> 'b PBatch" where
  "pebbleBatch_Delete P (PebbleBatch b) key =
     (let (r, b') = pb_BatchDelete P (pbt_batch b) key in (r, PebbleBatch (b\<lparr>pbt_batch := b'\<rparr>)))"
| "pebbleBatch_Delete P (ErrorPBatch err) key = (Inl err, ErrorPBatch err)"

definition pebbleBatch_close :: "'b pebbleBatch \<Rightarrow> 'db PStorage \<Rightarrow> 'b pebbleBatch \<times> 'db PStorage" where
  "pebbleBatch_close b s = (if pbt_closed b then (b, s) else (b\<lparr>pbt_closed := True\<rparr>, pebble_releaseRef s))"

fun pebbleBatch_Commit :: "('o, 'db, 'b, 'i, 's) pebble \<Rightarrow> bool \<Rightarrow> 'b PBatch \<Rightarrow> 'db PStorage \<Rightarrow> unit result \<times> 'b PBatch \<times> 'db PStorage" where
  "pebbleBatch_Commit P sync (PebbleBatch b) s =
     (if pbt_closed b then (Inl ErrStorageClosed, PebbleBatch b, s)
      else let s1 = withMetrics RecordBatchCommit s
           in case ps_db s1 of
                None \<Rightarrow> (Inl nilDB, PebbleBatch b, s1)
              | Some db \<Rightarrow>
                  (let (err, pb, db') = pb_BatchCommit P (pbt_batch b) sync db;
                       (b1, s2) = pebbleBatch_close (b\<lparr>pbt_batch := pb\<rparr>) (s1\<lparr>ps_db := Some db'\<rparr>)
                   in (err, PebbleBatch b1, s2)))"
| "pebbleBatch_Commit P sync (ErrorPBatch err) s = (Inl err, ErrorPBatch err, s)"

fun pebbleBatch_Close :: "('o, 'db, 'b, 'i, 's) pebble \<Rightarrow> 'b PBatch \<Rightarrow> 'db PStorage \<Rightarrow> unit result \<times> 'b PBatch \<times> 'db PStorage" where
  "pebbleBatch_Close P (PebbleBatch b) s =
     (let (b1, s1) = pebbleBatch_close b s; (r, pb) = pb_BatchClose P (pbt_batch b1) in (r, PebbleBatch (b1\<lparr>pbt_batch := pb\<rparr>), s1))"
| "pebbleBatch_Close P (ErrorPBatch err) s = (Inr (), ErrorPBatch err, s)"

section \<open>Iterators\<close>

text \<open>
  The loop of \<open>prefixUpperBound\<close> looks at the bytes from the last one on. It increments the first byte that is not
  \<^verbatim>\<open>0xFF\<close>, and keeps the bytes behind it.
\<close>

fun prefixLoop :: "nat \<Rightarrow> bytes \<Rightarrow> bytes option" where
  "prefixLoop 0 upper = None"
| "prefixLoop (Suc i) upper = (if upper ! i < 0xFF then Some (upper[i := upper ! i + 1]) else prefixLoop i upper)"

definition prefixUpperBound :: "bytes \<Rightarrow> bytes option" where
  "prefixUpperBound prefix =
     (if length prefix = 0 then None
      else prefixLoop (length prefix) (go_copy (replicate (length prefix) 0) prefix))"

definition iterBounds :: "IteratorOptions option \<Rightarrow> bytes option \<times> bytes option" where
  "iterBounds opts =
     (case opts of None \<Rightarrow> (None, None)
      | Some p \<Rightarrow>
          (case Prefix p of
             Some prefix \<Rightarrow> (Some prefix, prefixUpperBound prefix)
           | None \<Rightarrow> (LowerBound p, UpperBound p)))"

record 'i pebbleIterator =
  pit_iter :: 'i
  pit_closed :: bool

datatype 'i PIterator = PebbleIterator "'i pebbleIterator" | PebbleSnapshotIterator "'i pebbleIterator" | ErrorPIterator error

definition pebble_NewIterator :: "('o, 'db, 'b, 'i, 's) pebble \<Rightarrow> 'db PStorage \<Rightarrow> IteratorOptions option \<Rightarrow> 'i PIterator result \<times> 'db PStorage" where
  "pebble_NewIterator P s opts =
     (case pebble_addRef s of
        (False, s1) \<Rightarrow> (Inr (ErrorPIterator ErrStorageClosed), s1)
      | (True, s1) \<Rightarrow>
          if ps_maxIterators s1 > 0 \<and> ps_openIterators s1 + 1 > ps_maxIterators s1
          then (Inr (ErrorPIterator ErrTooManyIterators), pebble_releaseRef s1)
          else let s2 = s1\<lparr>ps_openIterators := ps_openIterators s1 + 1\<rparr>; (lower, upper) = iterBounds opts
               in case ps_db s2 of
                    None \<Rightarrow> (Inl nilDB, s2)
                  | Some db \<Rightarrow>
                      (case pb_NewIter P db lower upper of
                         Inl err \<Rightarrow> (Inr (ErrorPIterator err), pebble_releaseRef (s2\<lparr>ps_openIterators := ps_openIterators s2 - 1\<rparr>))
                       | Inr it \<Rightarrow> (Inr (PebbleIterator \<lparr>pit_iter = it, pit_closed = False\<rparr>), s2)))"

text \<open>A call that moves the library's iterator; the error iterator never moves.\<close>

fun moveIter :: "('i \<Rightarrow> bool \<times> 'i) \<Rightarrow> 'i PIterator \<Rightarrow> bool \<times> 'i PIterator" where
  "moveIter f (PebbleIterator i) = (let (r, it) = f (pit_iter i) in (r, PebbleIterator (i\<lparr>pit_iter := it\<rparr>)))"
| "moveIter f (PebbleSnapshotIterator i) = (let (r, it) = f (pit_iter i) in (r, PebbleSnapshotIterator (i\<lparr>pit_iter := it\<rparr>)))"
| "moveIter f (ErrorPIterator err) = (False, ErrorPIterator err)"

definition pebbleIter_SeekGE :: "('o, 'db, 'b, 'i, 's) pebble \<Rightarrow> 'i PIterator \<Rightarrow> bytes \<Rightarrow> bool \<times> 'i PIterator" where
  "pebbleIter_SeekGE P i key = moveIter (\<lambda>it. pb_SeekGE P it key) i"

definition pebbleIter_SeekLT :: "('o, 'db, 'b, 'i, 's) pebble \<Rightarrow> 'i PIterator \<Rightarrow> bytes \<Rightarrow> bool \<times> 'i PIterator" where
  "pebbleIter_SeekLT P i key = moveIter (\<lambda>it. pb_SeekLT P it key) i"

definition pebbleIter_First :: "('o, 'db, 'b, 'i, 's) pebble \<Rightarrow> 'i PIterator \<Rightarrow> bool \<times> 'i PIterator" where
  "pebbleIter_First P i = moveIter (pb_First P) i"

definition pebbleIter_Last :: "('o, 'db, 'b, 'i, 's) pebble \<Rightarrow> 'i PIterator \<Rightarrow> bool \<times> 'i PIterator" where
  "pebbleIter_Last P i = moveIter (pb_Last P) i"

definition pebbleIter_Next :: "('o, 'db, 'b, 'i, 's) pebble \<Rightarrow> 'i PIterator \<Rightarrow> bool \<times> 'i PIterator" where
  "pebbleIter_Next P i = moveIter (pb_Next P) i"

definition pebbleIter_Prev :: "('o, 'db, 'b, 'i, 's) pebble \<Rightarrow> 'i PIterator \<Rightarrow> bool \<times> 'i PIterator" where
  "pebbleIter_Prev P i = moveIter (pb_Prev P) i"

fun pebbleIter_Valid :: "('o, 'db, 'b, 'i, 's) pebble \<Rightarrow> 'i PIterator \<Rightarrow> bool" where
  "pebbleIter_Valid P (PebbleIterator i) = pb_Valid P (pit_iter i)"
| "pebbleIter_Valid P (PebbleSnapshotIterator i) = pb_Valid P (pit_iter i)"
| "pebbleIter_Valid P (ErrorPIterator err) = False"

fun pebbleIter_Key :: "('o, 'db, 'b, 'i, 's) pebble \<Rightarrow> 'i PIterator \<Rightarrow> bytes option" where
  "pebbleIter_Key P (PebbleIterator i) = pb_Key P (pit_iter i)"
| "pebbleIter_Key P (PebbleSnapshotIterator i) = pb_Key P (pit_iter i)"
| "pebbleIter_Key P (ErrorPIterator err) = None"

fun pebbleIter_Value :: "('o, 'db, 'b, 'i, 's) pebble \<Rightarrow> 'i PIterator \<Rightarrow> bytes option" where
  "pebbleIter_Value P (PebbleIterator i) = pb_Value P (pit_iter i)"
| "pebbleIter_Value P (PebbleSnapshotIterator i) = pb_Value P (pit_iter i)"
| "pebbleIter_Value P (ErrorPIterator err) = None"

fun pebbleIter_Error :: "('o, 'db, 'b, 'i, 's) pebble \<Rightarrow> 'i PIterator \<Rightarrow> error option" where
  "pebbleIter_Error P (PebbleIterator i) = pb_Error P (pit_iter i)"
| "pebbleIter_Error P (PebbleSnapshotIterator i) = pb_Error P (pit_iter i)"
| "pebbleIter_Error P (ErrorPIterator err) = Some err"

text \<open>The iterator of a snapshot holds no reference of its own and releases none.\<close>

fun pebbleIter_Close :: "('o, 'db, 'b, 'i, 's) pebble \<Rightarrow> 'i PIterator \<Rightarrow> 'db PStorage \<Rightarrow> unit result \<times> 'i PIterator \<times> 'db PStorage" where
  "pebbleIter_Close P (PebbleIterator i) s =
     (if pit_closed i then (Inr (), PebbleIterator i, s)
      else let (err, it) = pb_IterClose P (pit_iter i)
           in (err, PebbleIterator \<lparr>pit_iter = it, pit_closed = True\<rparr>,
               pebble_releaseRef (s\<lparr>ps_openIterators := ps_openIterators s - 1\<rparr>)))"
| "pebbleIter_Close P (PebbleSnapshotIterator i) s =
     (if pit_closed i then (Inr (), PebbleSnapshotIterator i, s)
      else let (err, it) = pb_IterClose P (pit_iter i)
           in (err, PebbleSnapshotIterator \<lparr>pit_iter = it, pit_closed = True\<rparr>, s\<lparr>ps_openIterators := ps_openIterators s - 1\<rparr>))"
| "pebbleIter_Close P (ErrorPIterator err) s = (Inr (), ErrorPIterator err, s)"

section \<open>Snapshots\<close>

record 's pebbleSnapshot =
  psn_snap :: 's
  psn_closed :: bool

datatype 's PSnapshot = PebbleSnapshot "'s pebbleSnapshot" | ErrorPSnapshot error

definition pebble_NewSnapshot :: "('o, 'db, 'b, 'i, 's) pebble \<Rightarrow> 'db PStorage \<Rightarrow> 's PSnapshot result \<times> 'db PStorage" where
  "pebble_NewSnapshot P s =
     (case pebble_addRef s of
        (False, s1) \<Rightarrow> (Inr (ErrorPSnapshot ErrStorageClosed), s1)
      | (True, s1) \<Rightarrow>
          if ps_maxSnapshots s1 > 0 \<and> ps_openSnapshots s1 + 1 > ps_maxSnapshots s1
          then (Inr (ErrorPSnapshot ErrTooManySnapshots), pebble_releaseRef s1)
          else let s2 = s1\<lparr>ps_openSnapshots := ps_openSnapshots s1 + 1\<rparr>
               in case ps_db s2 of
                    None \<Rightarrow> (Inl nilDB, s2)
                  | Some db \<Rightarrow> (Inr (PebbleSnapshot \<lparr>psn_snap = pb_NewSnapshot P db, psn_closed = False\<rparr>), s2))"

fun pebbleSnapshot_Get :: "('o, 'db, 'b, 'i, 's) pebble \<Rightarrow> 's PSnapshot \<Rightarrow> bytes \<Rightarrow> bytes option result" where
  "pebbleSnapshot_Get P (PebbleSnapshot sn) key = readResult P (pb_SnapGet P (psn_snap sn) key)"
| "pebbleSnapshot_Get P (ErrorPSnapshot err) key = Inl err"

fun pebbleSnapshot_NewIterator ::
    "('o, 'db, 'b, 'i, 's) pebble \<Rightarrow> 's PSnapshot \<Rightarrow> IteratorOptions option \<Rightarrow> 'db PStorage \<Rightarrow> 'i PIterator \<times> 'db PStorage" where
  "pebbleSnapshot_NewIterator P (PebbleSnapshot sn) opts s =
     (if psn_closed sn then (ErrorPIterator ErrStorageClosed, s)
      else if ps_maxIterators s > 0 \<and> ps_openIterators s + 1 > ps_maxIterators s then (ErrorPIterator ErrTooManyIterators, s)
      else let s1 = s\<lparr>ps_openIterators := ps_openIterators s + 1\<rparr>; (lower, upper) = iterBounds opts
           in case pb_SnapNewIter P (psn_snap sn) lower upper of
                Inl err \<Rightarrow> (ErrorPIterator err, s1\<lparr>ps_openIterators := ps_openIterators s1 - 1\<rparr>)
              | Inr it \<Rightarrow> (PebbleSnapshotIterator \<lparr>pit_iter = it, pit_closed = False\<rparr>, s1))"
| "pebbleSnapshot_NewIterator P (ErrorPSnapshot err) opts s = (ErrorPIterator err, s)"

fun pebbleSnapshot_Close :: "('o, 'db, 'b, 'i, 's) pebble \<Rightarrow> 's PSnapshot \<Rightarrow> 'db PStorage \<Rightarrow> unit result \<times> 's PSnapshot \<times> 'db PStorage" where
  "pebbleSnapshot_Close P (PebbleSnapshot sn) s =
     (if psn_closed sn then (Inr (), PebbleSnapshot sn, s)
      else let (err, snap) = pb_SnapClose P (psn_snap sn)
           in (err, PebbleSnapshot \<lparr>psn_snap = snap, psn_closed = True\<rparr>,
               pebble_releaseRef (s\<lparr>ps_openSnapshots := ps_openSnapshots s - 1\<rparr>)))"
| "pebbleSnapshot_Close P (ErrorPSnapshot err) s = (Inr (), ErrorPSnapshot err, s)"

section \<open>The bounds of a prefix\<close>

definition withinBounds :: "bytes option \<times> bytes option \<Rightarrow> bytes \<Rightarrow> bool" where
  "withinBounds b k \<longleftrightarrow> (case fst b of Some lower \<Rightarrow> lower \<le> k | None \<Rightarrow> True) \<and> (case snd b of Some upper \<Rightarrow> k < upper | None \<Rightarrow> True)"

definition exactPrefix :: "bytes \<Rightarrow> bool" where
  "exactPrefix prefix \<longleftrightarrow> prefix = [] \<or> last prefix \<noteq> 0xFF \<or> set prefix \<subseteq> {0xFF}"

lemma byte_le_max: "x \<le> (0xFF :: byte)"
proof -
  have "unat x < 2 ^ 8" using unsigned_less [of x] by simp
  then show ?thesis by (simp add: word_le_nat_alt)
qed

lemma byte_less_max: "x \<noteq> 0xFF \<Longrightarrow> x < (0xFF :: byte)"
  using byte_le_max [of x] by simp

lemma byte_suc: "x < (0xFF :: byte) \<Longrightarrow> y < x + 1 \<longleftrightarrow> y \<le> x"
proof -
  assume "x < 0xFF"
  then have "unat (x + 1) = unat x + 1" by (simp add: word_less_nat_alt unat_word_ariths)
  then show ?thesis by (simp add: word_less_nat_alt word_le_nat_alt less_Suc_eq_le)
qed

text \<open>Every prefix is a run of \<^verbatim>\<open>0xFF\<close> or ends with a smaller byte before such a run.\<close>

lemma prefix_cases:
  obtains (ones) n where "prefix = replicate n 0xFF"
  | (less) p c n where "prefix = p @ c # replicate n (0xFF :: byte)" "c \<noteq> 0xFF"
proof (induction prefix arbitrary: thesis rule: rev_induct)
  case Nil
  from Nil(1) [of 0] show ?case by simp
next
  case (snoc x xs)
  show ?case
  proof (cases "x = 0xFF")
    case True
    show ?thesis
    proof (rule snoc.IH)
      fix n assume "xs = replicate n 0xFF"
      with True snoc.prems(1) [of "Suc n"] show ?thesis by (simp add: replicate_append_same)
    next
      fix p c n assume "xs = p @ c # replicate n 0xFF" "c \<noteq> 0xFF"
      with True snoc.prems(2) [of p c "Suc n"] show ?thesis by (simp add: replicate_append_same)
    qed
  next
    case False
    with snoc.prems(2) [of xs x 0] show ?thesis by simp
  qed
qed

lemma prefixLoop_skip: "(\<And>j. i \<le> j \<Longrightarrow> j < i + n \<Longrightarrow> upper ! j = 0xFF) \<Longrightarrow> prefixLoop (i + n) upper = prefixLoop i upper"
  by (induction n) simp_all

lemma prefixUpperBound_ones: "prefixUpperBound (replicate n 0xFF) = None"
  using prefixLoop_skip [of 0 n "replicate n 0xFF"] by (simp add: prefixUpperBound_def)

lemma prefixUpperBound_less:
  assumes "c \<noteq> 0xFF"
  shows "prefixUpperBound (p @ c # replicate n 0xFF) = Some (p @ (c + 1) # replicate n 0xFF)"
proof -
  let ?pre = "p @ c # replicate n 0xFF"
  have "prefixLoop (Suc (length p) + n) ?pre = prefixLoop (Suc (length p)) ?pre"
    by (rule prefixLoop_skip) (simp add: nth_append nth_Cons')
  with byte_less_max [OF assms] show ?thesis by (simp add: prefixUpperBound_def nth_append list_update_append)
qed

lemma hasPrefix_Nil [simp]: "hasPrefix k []"
  by (simp add: hasPrefix_def)

lemma hasPrefix_Cons: "hasPrefix k (x # xs) \<longleftrightarrow> (\<exists>k'. k = x # k' \<and> hasPrefix k' xs)"
  by (cases k) (auto simp: hasPrefix_def)

lemma ones_range: "replicate n 0xFF \<le> k \<longleftrightarrow> hasPrefix k (replicate n (0xFF :: byte))"
proof (induction n arbitrary: k)
  case (Suc n)
  have "\<not> 0xFF < a" for a :: byte using byte_le_max [of a] by (simp add: not_less)
  with Suc show ?case by (cases k) (auto simp: hasPrefix_Cons)
qed simp

lemma less_range:
  assumes "c < (0xFF :: byte)"
  shows "p @ [c] \<le> k \<and> k < p @ [c + 1] \<longleftrightarrow> hasPrefix k (p @ [c])"
proof (induction p arbitrary: k)
  case Nil
  show ?case
  proof (cases k)
    case (Cons y ys)
    have "(c < y \<or> c = y) \<and> y < c + 1 \<longleftrightarrow> y = c" unfolding byte_suc [OF assms] by auto
    with Cons show ?thesis by (simp add: hasPrefix_Cons)
  qed (simp add: hasPrefix_Cons)
next
  case (Cons x p)
  show ?case
  proof (cases k)
    case (Cons y ys)
    have "\<not> (x < y \<and> y < x)" by auto
    with Cons Cons.IH [of ys] show ?thesis by (cases "y = x") (simp_all add: hasPrefix_Cons)
  qed (simp add: hasPrefix_Cons)
qed

lemma prefix_below: "hasPrefix k p \<Longrightarrow> p \<le> k"
  by (induction p arbitrary: k) (auto simp: hasPrefix_Cons)

lemma less_append_left: "(p @ xs < p @ ys) = (xs < (ys :: bytes))"
  by (induction p) simp_all

lemma prefix_above: "hasPrefix k (p @ c # q) \<Longrightarrow> c < (0xFF :: byte) \<Longrightarrow> k < p @ (c + 1) # r"
  using byte_suc [of c c] by (induction p arbitrary: k) (auto simp: hasPrefix_Cons)

lemma prefix_bounds_cases:
  assumes "Prefix opts = Some prefix"
  shows "hasPrefix k prefix \<Longrightarrow> withinBounds (iterBounds (Some opts)) k"
    and "exactPrefix prefix \<Longrightarrow> withinBounds (iterBounds (Some opts)) k \<longleftrightarrow> hasPrefix k prefix"
    and "\<not> exactPrefix prefix \<Longrightarrow> \<exists>k. withinBounds (iterBounds (Some opts)) k \<and> \<not> hasPrefix k prefix"
proof (atomize (full), cases prefix rule: prefix_cases)
  case (ones n)
  then have "exactPrefix prefix" by (auto simp: exactPrefix_def)
  with ones assms show "(hasPrefix k prefix \<longrightarrow> withinBounds (iterBounds (Some opts)) k)
      \<and> (exactPrefix prefix \<longrightarrow> withinBounds (iterBounds (Some opts)) k \<longleftrightarrow> hasPrefix k prefix)
      \<and> (\<not> exactPrefix prefix \<longrightarrow> (\<exists>k. withinBounds (iterBounds (Some opts)) k \<and> \<not> hasPrefix k prefix))"
    by (simp add: iterBounds_def withinBounds_def prefixUpperBound_ones ones_range)
next
  case (less p c n)
  have c: "c < 0xFF" using byte_less_max [OF less(2)] .
  have within: "withinBounds (iterBounds (Some opts)) k \<longleftrightarrow> prefix \<le> k \<and> k < p @ (c + 1) # replicate n 0xFF" for k
    using assms less by (simp add: iterBounds_def withinBounds_def prefixUpperBound_less)
  have all: "withinBounds (iterBounds (Some opts)) k" if "hasPrefix k prefix" for k
    unfolding within using prefix_below [OF that] prefix_above [of k p c "replicate n 0xFF"] that c less(1) by simp
  show "(hasPrefix k prefix \<longrightarrow> withinBounds (iterBounds (Some opts)) k)
      \<and> (exactPrefix prefix \<longrightarrow> withinBounds (iterBounds (Some opts)) k \<longleftrightarrow> hasPrefix k prefix)
      \<and> (\<not> exactPrefix prefix \<longrightarrow> (\<exists>k. withinBounds (iterBounds (Some opts)) k \<and> \<not> hasPrefix k prefix))"
  proof (cases n)
    case 0
    then have "exactPrefix prefix" using less by (simp add: exactPrefix_def)
    with all 0 less(1) less_range [OF c, of p] show ?thesis by (auto simp: within)
  next
    case (Suc m)
    let ?k = "p @ [c + 1]"
    have "p @ c # replicate n 0xFF < ?k" using byte_suc [OF c, of c] by (simp add: less_append_left)
    moreover have "?k < p @ (c + 1) # replicate n 0xFF" using Suc by (simp add: less_append_left)
    ultimately have k: "withinBounds (iterBounds (Some opts)) ?k" using less(1) by (simp add: within)
    have "\<not> hasPrefix ?k prefix" using less(1) Suc by (simp add: hasPrefix_def)
    moreover have "\<not> exactPrefix prefix" using less Suc by (auto simp: exactPrefix_def)
    ultimately show ?thesis using all k by blast
  qed
qed

lemma prefixUpperBound_nonempty: "prefixUpperBound prefix \<noteq> Some []"
  by (cases prefix rule: prefix_cases) (simp_all add: prefixUpperBound_ones prefixUpperBound_less)

text \<open>
  The bounds of a prefix. The bounds that an iterator with a prefix hands to the database contain every key with the
  prefix; they contain no other key exactly if the prefix is empty, does not end in \<^verbatim>\<open>0xFF\<close>, or consists of \<^verbatim>\<open>0xFF\<close> only. For every other
  prefix the scan also visits keys without it.
\<close>

theorem prefix_bounds:
  assumes "Prefix opts = Some prefix"
  shows "(\<forall>k. hasPrefix k prefix \<longrightarrow> withinBounds (iterBounds (Some opts)) k)
    \<and> ((\<forall>k. withinBounds (iterBounds (Some opts)) k \<longrightarrow> hasPrefix k prefix) \<longleftrightarrow> prefix = [] \<or> last prefix \<noteq> 0xFF \<or> set prefix \<subseteq> {0xFF})"
  using prefix_bounds_cases [OF assms] unfolding exactPrefix_def by blast

lemma prefix_bounds_examples:
  "withinBounds (iterBounds (Some \<lparr>LowerBound = None, UpperBound = None, Prefix = Some [1]\<rparr>)) [1, 7]
    \<and> \<not> (\<forall>k. withinBounds (iterBounds (Some \<lparr>LowerBound = None, UpperBound = None, Prefix = Some [1, 0xFF]\<rparr>)) k \<longrightarrow> hasPrefix k [1, 0xFF])"
proof -
  have "hasPrefix [1, 7] [1]" by (simp add: hasPrefix_def)
  moreover have "\<not> ([1, 0xFF :: byte] = [] \<or> last [1, 0xFF] \<noteq> (0xFF :: byte) \<or> set [1, 0xFF] \<subseteq> {0xFF :: byte})" by simp
  ultimately show ?thesis
    using prefix_bounds [of "\<lparr>LowerBound = None, UpperBound = None, Prefix = Some [1]\<rparr>" "[1]"]
      prefix_bounds [of "\<lparr>LowerBound = None, UpperBound = None, Prefix = Some [1, 0xFF]\<rparr>" "[1, 0xFF]"] by simp
qed

end
