(* ===== verification/PebbleLaws.thy ===== *)
theory PebbleLaws
  imports PebbleStorage
begin

text \<open>
  What the persistent backend relies on of the PebbleDB library, as documented for a database without I/O errors: reads
  see the last write, a committed batch is its operations in order, a snapshot is the database at the time it was taken,
  an iterator walks the keys within its bounds in increasing order. The laws are stated over abstraction functions from
  the library's types; \<open>listPebble\<close> is a library over association lists that satisfies them.
\<close>

section \<open>The laws\<close>

definition db_laws :: "('o, 'db, 'b, 'i, 's) pebble \<Rightarrow> ('db \<Rightarrow> bytes \<Rightarrow> bytes option) \<Rightarrow> bool" where
  "db_laws P view \<longleftrightarrow>
     (\<forall>db k. pb_Get P db k = (case view db k of Some v \<Rightarrow> Inr v | None \<Rightarrow> Inl (pb_ErrNotFound P)))
     \<and> (\<forall>db k v sync. \<exists>db'. pb_Set P db k v sync = (Inr (), db') \<and> view db' = (view db)(k \<mapsto> v))
     \<and> (\<forall>db k sync. \<exists>db'. pb_Delete P db k sync = (Inr (), db') \<and> view db' = (view db)(k := None))
     \<and> (\<forall>db. pb_Close P db = Inr ())"

definition batch_laws :: "('o, 'db, 'b, 'i, 's) pebble \<Rightarrow> ('db \<Rightarrow> bytes \<Rightarrow> bytes option) \<Rightarrow> ('b \<Rightarrow> batchOp list) \<Rightarrow> bool" where
  "batch_laws P view bops \<longleftrightarrow>
     (\<forall>db. bops (pb_NewBatch P db) = [])
     \<and> (\<forall>b k v. \<exists>b'. pb_BatchSet P b k v = (Inr (), b') \<and> bops b' = bops b @ [opPut k v])
     \<and> (\<forall>b k. \<exists>b'. pb_BatchDelete P b k = (Inr (), b') \<and> bops b' = bops b @ [opDelete k])
     \<and> (\<forall>b sync db. \<exists>b' db'. pb_BatchCommit P b sync db = (Inr (), b', db') \<and> (\<forall>k. view db' k = foldl (opEffect k) (view db k) (bops b)))
     \<and> (\<forall>b. \<exists>b'. pb_BatchClose P b = (Inr (), b'))"

definition snapshot_laws :: "('o, 'db, 'b, 'i, 's) pebble \<Rightarrow> ('db \<Rightarrow> bytes \<Rightarrow> bytes option) \<Rightarrow> ('s \<Rightarrow> bytes \<Rightarrow> bytes option) \<Rightarrow> bool" where
  "snapshot_laws P view sview \<longleftrightarrow>
     (\<forall>db. sview (pb_NewSnapshot P db) = view db)
     \<and> (\<forall>sn k. pb_SnapGet P sn k = (case sview sn k of Some v \<Rightarrow> Inr v | None \<Rightarrow> Inl (pb_ErrNotFound P)))"

definition iter_laws :: "('o, 'db, 'b, 'i, 's) pebble \<Rightarrow> ('db \<Rightarrow> bytes \<Rightarrow> bytes option) \<Rightarrow> ('i \<Rightarrow> (bytes \<times> bytes) list) \<Rightarrow> ('i \<Rightarrow> nat) \<Rightarrow> bool" where
  "iter_laws P view items pos \<longleftrightarrow>
     (\<forall>db lo hi. hi \<noteq> Some [] \<longrightarrow> (\<exists>i. pb_NewIter P db lo hi = Inr i \<and> sorted_wrt (<) (map fst (items i))
        \<and> (\<forall>k v. (k, v) \<in> set (items i) \<longleftrightarrow> view db k = Some v \<and> withinBounds (lo, hi) k)))
     \<and> (\<forall>i. items (snd (pb_First P i)) = items i \<and> pos (snd (pb_First P i)) = 0)
     \<and> (\<forall>i. pb_Valid P i \<longrightarrow> items (snd (pb_Next P i)) = items i \<and> pos (snd (pb_Next P i)) = Suc (pos i))
     \<and> (\<forall>i. pb_Valid P i \<longleftrightarrow> pos i < length (items i))
     \<and> (\<forall>i. pb_Valid P i \<longrightarrow> pb_Key P i = Some (fst (items i ! pos i)) \<and> pb_Value P i = Some (snd (items i ! pos i)))"

definition pebble_laws :: "('o, 'db, 'b, 'i, 's) pebble \<Rightarrow> ('db \<Rightarrow> bytes \<Rightarrow> bytes option) \<Rightarrow> ('b \<Rightarrow> batchOp list)
    \<Rightarrow> ('s \<Rightarrow> bytes \<Rightarrow> bytes option) \<Rightarrow> ('i \<Rightarrow> (bytes \<times> bytes) list) \<Rightarrow> ('i \<Rightarrow> nat) \<Rightarrow> bool" where
  "pebble_laws P view bops sview items pos \<longleftrightarrow>
     db_laws P view \<and> batch_laws P view bops \<and> snapshot_laws P view sview \<and> iter_laws P view items pos"

section \<open>A library over association lists\<close>

definition listItems :: "(bytes, bytes) gomap \<Rightarrow> bytes option \<Rightarrow> bytes option \<Rightarrow> (bytes \<times> bytes) list" where
  "listItems db lo hi = map (\<lambda>k. (k, the (gm_get db k))) (filter (withinBounds (lo, hi)) (sort (remdups (map fst db))))"

definition listRead :: "(bytes, bytes) gomap \<Rightarrow> bytes \<Rightarrow> bytes result" where
  "listRead db k = (case gm_get db k of Some v \<Rightarrow> Inr v | None \<Rightarrow> Inl (Errorf ''pebble: not found''))"

definition listPebble :: "(unit, (bytes, bytes) gomap, batchOp list, (bytes \<times> bytes) list \<times> nat, (bytes, bytes) gomap) pebble" where
  "listPebble =
     \<lparr>pb_Options = \<lambda>c m. (), pb_Open = \<lambda>path opts. Inr [], pb_ErrNotFound = Errorf ''pebble: not found'', pb_Get = listRead,
      pb_Set = \<lambda>db k v sync. (Inr (), gm_put k v db), pb_Delete = \<lambda>db k sync. (Inr (), gm_del k db),
      pb_DiskSpaceUsage = \<lambda>db. of_nat (length db), pb_Close = \<lambda>db. Inr (),
      pb_NewBatch = \<lambda>db. [], pb_BatchSet = \<lambda>b k v. (Inr (), b @ [opPut k v]), pb_BatchDelete = \<lambda>b k. (Inr (), b @ [opDelete k]),
      pb_BatchCommit = \<lambda>b sync db. (Inr (), b, foldl applyOp db b), pb_BatchClose = \<lambda>b. (Inr (), b),
      pb_NewIter = \<lambda>db lo hi. Inr (listItems db lo hi, length (listItems db lo hi)),
      pb_SeekGE = \<lambda>(xs, p) k. let n = length (takeWhile (\<lambda>x. fst x < k) xs) in (n < length xs, (xs, n)),
      pb_SeekLT = \<lambda>(xs, p) k. let n = length (takeWhile (\<lambda>x. fst x < k) xs) in if 0 < n then (True, (xs, n - 1)) else (False, (xs, length xs)),
      pb_First = \<lambda>(xs, p). (xs \<noteq> [], (xs, 0)), pb_Last = \<lambda>(xs, p). (xs \<noteq> [], (xs, length xs - 1)),
      pb_Next = \<lambda>(xs, p). (Suc p < length xs, (xs, Suc p)),
      pb_Prev = \<lambda>(xs, p). if 0 < p then (True, (xs, p - 1)) else (False, (xs, length xs)),
      pb_Valid = \<lambda>(xs, p). p < length xs,
      pb_Key = \<lambda>(xs, p). if p < length xs then Some (fst (xs ! p)) else None,
      pb_Value = \<lambda>(xs, p). if p < length xs then Some (snd (xs ! p)) else None,
      pb_Error = \<lambda>i. None, pb_IterClose = \<lambda>i. (Inr (), i),
      pb_NewSnapshot = \<lambda>db. db, pb_SnapGet = listRead,
      pb_SnapNewIter = \<lambda>sn lo hi. Inr (listItems sn lo hi, length (listItems sn lo hi)), pb_SnapClose = \<lambda>sn. (Inr (), sn)\<rparr>"

lemma listItems_sorted: "sorted_wrt (<) (map fst (listItems db lo hi))"
proof -
  have "sorted_wrt (<) (sort (remdups (map fst db)))" by (simp add: strict_sorted_iff)
  then show ?thesis by (simp add: listItems_def comp_def sorted_wrt_filter)
qed

lemma listItems_mem: "(k, v) \<in> set (listItems db lo hi) \<longleftrightarrow> gm_get db k = Some v \<and> withinBounds (lo, hi) k"
proof (cases "gm_get db k")
  case None
  then have "k \<notin> fst ` set db" by (simp add: map_of_eq_None_iff)
  with None show ?thesis by (auto simp: listItems_def)
next
  case (Some u)
  then have "k \<in> fst ` set db" by (metis map_of_eq_None_iff option.distinct(1))
  with Some show ?thesis by (auto simp: listItems_def)
qed

lemma listPebble_simps [simp]:
  "pb_Options listPebble = (\<lambda>c m. ())" "pb_Open listPebble = (\<lambda>path opts. Inr [])" "pb_ErrNotFound listPebble = Errorf ''pebble: not found''"
  "pb_Get listPebble = listRead" "pb_Set listPebble = (\<lambda>db k v sync. (Inr (), gm_put k v db))"
  "pb_Delete listPebble = (\<lambda>db k sync. (Inr (), gm_del k db))" "pb_Close listPebble = (\<lambda>db. Inr ())"
  "pb_NewBatch listPebble = (\<lambda>db. [])" "pb_BatchSet listPebble = (\<lambda>b k v. (Inr (), b @ [opPut k v]))"
  "pb_BatchDelete listPebble = (\<lambda>b k. (Inr (), b @ [opDelete k]))"
  "pb_BatchCommit listPebble = (\<lambda>b sync db. (Inr (), b, foldl applyOp db b))" "pb_BatchClose listPebble = (\<lambda>b. (Inr (), b))"
  "pb_NewIter listPebble = (\<lambda>db lo hi. Inr (listItems db lo hi, length (listItems db lo hi)))"
  "pb_First listPebble = (\<lambda>(xs, p). (xs \<noteq> [], (xs, 0)))" "pb_Next listPebble = (\<lambda>(xs, p). (Suc p < length xs, (xs, Suc p)))"
  "pb_Valid listPebble = (\<lambda>(xs, p). p < length xs)" "pb_Key listPebble = (\<lambda>(xs, p). if p < length xs then Some (fst (xs ! p)) else None)"
  "pb_Value listPebble = (\<lambda>(xs, p). if p < length xs then Some (snd (xs ! p)) else None)"
  "pb_NewSnapshot listPebble = (\<lambda>db. db)" "pb_SnapGet listPebble = listRead" "pb_SnapClose listPebble = (\<lambda>sn. (Inr (), sn))"
  "pb_IterClose listPebble = (\<lambda>i. (Inr (), i))"
  "pb_SnapNewIter listPebble = (\<lambda>sn lo hi. Inr (listItems sn lo hi, length (listItems sn lo hi)))"
  by (simp_all add: listPebble_def)

lemma listPebble_laws: "pebble_laws listPebble gm_get (\<lambda>b. b) gm_get fst snd"
proof -
  have "db_laws listPebble gm_get" by (simp add: db_laws_def listRead_def AList.update_conv' AList.delete_conv' split: option.split)
  moreover have "batch_laws listPebble gm_get (\<lambda>b. b)" by (simp add: batch_laws_def applyOp_get)
  moreover have "snapshot_laws listPebble gm_get gm_get" by (simp add: snapshot_laws_def listRead_def split: option.split)
  moreover have "iter_laws listPebble gm_get fst snd"
    using listItems_sorted listItems_mem by (auto simp: iter_laws_def)
  ultimately show ?thesis by (simp add: pebble_laws_def)
qed

section \<open>The backend is a key-value store\<close>

definition pebble_usable :: "'db PStorage \<Rightarrow> bool" where
  "pebble_usable s \<longleftrightarrow> \<not> ps_closing s \<and> ps_db s \<noteq> None"

fun pebbleFill :: "('o, 'db, 'b, 'i, 's) pebble \<Rightarrow> batchOp list \<Rightarrow> 'b PBatch \<Rightarrow> 'b PBatch" where
  "pebbleFill P [] b = b"
| "pebbleFill P (opPut k v # ops) b = pebbleFill P ops (snd (pebbleBatch_Put P b k v))"
| "pebbleFill P (opDelete k # ops) b = pebbleFill P ops (snd (pebbleBatch_Delete P b k))"

text \<open>A batch from \<open>NewBatch\<close> to \<open>Commit\<close>.\<close>

definition pebble_commit :: "('o, 'db, 'b, 'i, 's) pebble \<Rightarrow> bool \<Rightarrow> batchOp list \<Rightarrow> 'db PStorage \<Rightarrow> unit result \<times> 'db PStorage" where
  "pebble_commit P sync ops s =
     (case pebble_NewBatch P s of
        (Inl e, s1) \<Rightarrow> (Inl e, s1)
      | (Inr b, s1) \<Rightarrow> (let (r, b', s2) = pebbleBatch_Commit P sync (pebbleFill P ops b) s1 in (r, s2)))"

lemma readResult_law [simp]: "readResult P (case r of Some v \<Rightarrow> Inr v | None \<Rightarrow> Inl (pb_ErrNotFound P)) = Inr r"
  by (simp add: readResult_def split: option.split)

lemma pebble_Get_eq: "db_laws P view \<Longrightarrow> \<not> ps_closing s \<Longrightarrow> ps_db s = Some db \<Longrightarrow> fst (pebble_Get P l s k) = Inr (view db k)"
  by (simp add: pebble_Get_def db_laws_def)

lemma pebble_Put_eq:
  assumes "db_laws P view" and "\<not> ps_closing s" and "ps_db s = Some db"
  shows "\<exists>s' db'. pebble_Put P l s k v = (Inr (), s') \<and> ps_db s' = Some db' \<and> view db' = (view db)(k \<mapsto> v)
    \<and> s' = s\<lparr>ps_db := Some db', ps_metrics := ps_metrics s'\<rparr>"
proof -
  obtain db' where "pb_Set P db k v True = (Inr (), db')" "view db' = (view db)(k \<mapsto> v)" using assms(1) unfolding db_laws_def by blast
  with assms(2,3) show ?thesis by (simp add: pebble_Put_def withMetrics_def)
qed

lemma pebble_Delete_eq:
  assumes "db_laws P view" and "\<not> ps_closing s" and "ps_db s = Some db"
  shows "\<exists>s' db'. pebble_Delete P s k = (Inr (), s') \<and> ps_db s' = Some db' \<and> view db' = (view db)(k := None)
    \<and> s' = s\<lparr>ps_db := Some db', ps_metrics := ps_metrics s'\<rparr>"
proof -
  obtain db' where "pb_Delete P db k True = (Inr (), db')" "view db' = (view db)(k := None)" using assms(1) unfolding db_laws_def by blast
  with assms(2,3) show ?thesis by (simp add: pebble_Delete_def withMetrics_def)
qed

lemma pebbleFill_eq:
  assumes "batch_laws P view bops"
  shows "\<exists>b'. pebbleFill P ops (PebbleBatch b) = PebbleBatch b' \<and> pbt_closed b' = pbt_closed b \<and> bops (pbt_batch b') = bops (pbt_batch b) @ ops"
proof (induction ops arbitrary: b)
  case (Cons op ops)
  have "\<exists>x. pebbleFill P (op # ops) (PebbleBatch b) = pebbleFill P ops (PebbleBatch (b\<lparr>pbt_batch := x\<rparr>)) \<and> bops x = bops (pbt_batch b) @ [op]"
  proof (cases op)
    case (opPut k v)
    obtain x where "pb_BatchSet P (pbt_batch b) k v = (Inr (), x)" "bops x = bops (pbt_batch b) @ [opPut k v]"
      using assms unfolding batch_laws_def by blast
    with opPut show ?thesis by auto
  next
    case (opDelete k)
    obtain x where "pb_BatchDelete P (pbt_batch b) k = (Inr (), x)" "bops x = bops (pbt_batch b) @ [opDelete k]"
      using assms unfolding batch_laws_def by blast
    with opDelete show ?thesis by auto
  qed
  then obtain x where x: "pebbleFill P (op # ops) (PebbleBatch b) = pebbleFill P ops (PebbleBatch (b\<lparr>pbt_batch := x\<rparr>))"
    "bops x = bops (pbt_batch b) @ [op]" by blast
  from Cons [of "b\<lparr>pbt_batch := x\<rparr>"] x(2) show ?case unfolding x(1) by simp
qed simp

lemma pebble_commit_eq:
  assumes "batch_laws P view bops" and "\<not> ps_closing s" and "ps_db s = Some db"
  shows "\<exists>s' db'. pebble_commit P sync ops s = (Inr (), s') \<and> ps_db s' = Some db' \<and> (\<forall>k. view db' k = foldl (opEffect k) (view db k) ops)
    \<and> s' = s\<lparr>ps_db := Some db', ps_metrics := ps_metrics s'\<rparr>"
proof -
  let ?b = "\<lparr>pbt_batch = pb_NewBatch P db, pbt_closed = False\<rparr>"
  obtain b' where b': "pebbleFill P ops (PebbleBatch ?b) = PebbleBatch b'" "\<not> pbt_closed b'" "bops (pbt_batch b') = ops"
    using pebbleFill_eq [OF assms(1), of ops ?b] assms(1) by (auto simp: batch_laws_def)
  obtain x db' where "pb_BatchCommit P (pbt_batch b') sync db = (Inr (), x, db')" "\<forall>k. view db' k = foldl (opEffect k) (view db k) ops"
    using assms(1) b'(3) unfolding batch_laws_def by metis
  with assms(2,3) b' show ?thesis
    by (simp add: pebble_commit_def pebble_NewBatch_def pebble_addRef_def withMetrics_def pebbleBatch_close_def pebble_releaseRef_def)
qed

text \<open>Under the laws the persistent backend satisfies the interface of a key-value store that the memory backend satisfies.\<close>

lemma pebble_kv_store:
  assumes "db_laws P view" and "batch_laws P view bops"
  shows "kv_store pebble_usable (\<lambda>s k. fst (pebble_Get P l s k)) (pebble_Put P l) (pebble_Delete P) (pebble_commit P sync)"
proof
  show "\<exists>r. fst (pebble_Get P l s k) = Inr r" if "pebble_usable s" for s k
    using that pebble_Get_eq [OF assms(1)] by (auto simp: pebble_usable_def)
  show "\<exists>s'. pebble_Put P l s k v = (Inr (), s') \<and> pebble_usable s'
      \<and> (\<forall>k'. fst (pebble_Get P l s' k') = (if k' = k then Inr (Some v) else fst (pebble_Get P l s k')))"
    if u: "pebble_usable s" for s k v
  proof -
    from u obtain db where s: "\<not> ps_closing s" "ps_db s = Some db" by (auto simp: pebble_usable_def)
    obtain s' db' where s': "pebble_Put P l s k v = (Inr (), s')" "ps_db s' = Some db'" "view db' = (view db)(k \<mapsto> v)"
      "s' = s\<lparr>ps_db := Some db', ps_metrics := ps_metrics s'\<rparr>"
      using pebble_Put_eq [OF assms(1) s] by blast
    have c: "\<not> ps_closing s'" using s(1) by (subst s'(4)) simp
    show ?thesis using s'(1-3) c pebble_Get_eq [OF assms(1) c s'(2)] pebble_Get_eq [OF assms(1) s] by (simp add: pebble_usable_def)
  qed
  show "\<exists>s'. pebble_Delete P s k = (Inr (), s') \<and> pebble_usable s'
      \<and> (\<forall>k'. fst (pebble_Get P l s' k') = (if k' = k then Inr None else fst (pebble_Get P l s k')))"
    if u: "pebble_usable s" for s k
  proof -
    from u obtain db where s: "\<not> ps_closing s" "ps_db s = Some db" by (auto simp: pebble_usable_def)
    obtain s' db' where s': "pebble_Delete P s k = (Inr (), s')" "ps_db s' = Some db'" "view db' = (view db)(k := None)"
      "s' = s\<lparr>ps_db := Some db', ps_metrics := ps_metrics s'\<rparr>"
      using pebble_Delete_eq [OF assms(1) s] by blast
    have c: "\<not> ps_closing s'" using s(1) by (subst s'(4)) simp
    show ?thesis using s'(1-3) c pebble_Get_eq [OF assms(1) c s'(2)] pebble_Get_eq [OF assms(1) s] by (simp add: pebble_usable_def)
  qed
  show "\<exists>s'. pebble_commit P sync ops s = (Inr (), s') \<and> pebble_usable s'
      \<and> (\<forall>k r. fst (pebble_Get P l s k) = Inr r \<longrightarrow> fst (pebble_Get P l s' k) = Inr (foldl (opEffect k) r ops))"
    if u: "pebble_usable s" for s ops
  proof -
    from u obtain db where s: "\<not> ps_closing s" "ps_db s = Some db" by (auto simp: pebble_usable_def)
    obtain s' db' where s': "pebble_commit P sync ops s = (Inr (), s')" "ps_db s' = Some db'"
      "\<forall>k. view db' k = foldl (opEffect k) (view db k) ops" "s' = s\<lparr>ps_db := Some db', ps_metrics := ps_metrics s'\<rparr>"
      using pebble_commit_eq [OF assms(2) s] by blast
    have c: "\<not> ps_closing s'" using s(1) by (subst s'(4)) simp
    show ?thesis using s'(1-3) c pebble_Get_eq [OF assms(1) c s'(2)] pebble_Get_eq [OF assms(1) s] by (simp add: pebble_usable_def)
  qed
qed

end
