(* ===== verification/PebbleResources.thy ===== *)
theory PebbleResources
  imports PebbleLaws
begin

text \<open>
  Resource accounting and shutdown of the persistent backend (\<^verbatim>\<open>pkg/storage/pebble/pebble.go\<close>). The storage together with
  every batch, iterator and snapshot it handed out is a transition system with one step per call; \<open>Close\<close> is two steps,
  the call and the end of its wait. Shown here: the reference counts are right in every reachable state, the database
  outlives the resources that hold a reference, and a shutdown that was begun can always be completed.
\<close>

section \<open>The transition system\<close>

record ('db, 'b, 'i, 's) PWorld =
  pw_store :: "'db PStorage"
  pw_batches :: "'b PBatch list"
  pw_iters :: "'i PIterator list"
  pw_snaps :: "'s PSnapshot list"

inductive pebble_step :: "('o, 'db, 'b, 'i, 's) pebble \<Rightarrow> ('db, 'b, 'i, 's) PWorld \<Rightarrow> ('db, 'b, 'i, 's) PWorld \<Rightarrow> bool" for P where
  get: "pebble_step P w (w\<lparr>pw_store := snd (pebble_Get P latency (pw_store w) k)\<rparr>)"
| put: "pebble_step P w (w\<lparr>pw_store := snd (pebble_Put P latency (pw_store w) k v)\<rparr>)"
| delete: "pebble_step P w (w\<lparr>pw_store := snd (pebble_Delete P (pw_store w) k)\<rparr>)"
| tick: "pebble_step P w (w\<lparr>pw_store := snd (updateDatabaseMetrics P (pw_store w))\<rparr>)"
| newBatch: "pebble_NewBatch P (pw_store w) = (Inr b, s) \<Longrightarrow>
    pebble_step P w (w\<lparr>pw_store := s, pw_batches := pw_batches w @ [b]\<rparr>)"
| batchPut: "i < length (pw_batches w) \<Longrightarrow>
    pebble_step P w (w\<lparr>pw_batches := (pw_batches w)[i := snd (pebbleBatch_Put P (pw_batches w ! i) k v)]\<rparr>)"
| batchDelete: "i < length (pw_batches w) \<Longrightarrow>
    pebble_step P w (w\<lparr>pw_batches := (pw_batches w)[i := snd (pebbleBatch_Delete P (pw_batches w ! i) k)]\<rparr>)"
| batchCommit: "i < length (pw_batches w) \<Longrightarrow> pebbleBatch_Commit P sync (pw_batches w ! i) (pw_store w) = (r, b, s) \<Longrightarrow>
    pebble_step P w (w\<lparr>pw_store := s, pw_batches := (pw_batches w)[i := b]\<rparr>)"
| batchClose: "i < length (pw_batches w) \<Longrightarrow> pebbleBatch_Close P (pw_batches w ! i) (pw_store w) = (r, b, s) \<Longrightarrow>
    pebble_step P w (w\<lparr>pw_store := s, pw_batches := (pw_batches w)[i := b]\<rparr>)"
| newIter: "pebble_NewIterator P (pw_store w) opts = (Inr it, s) \<Longrightarrow>
    pebble_step P w (w\<lparr>pw_store := s, pw_iters := pw_iters w @ [it]\<rparr>)"
| iterMove: "i < length (pw_iters w) \<Longrightarrow>
    pebble_step P w (w\<lparr>pw_iters := (pw_iters w)[i := snd (moveIter f (pw_iters w ! i))]\<rparr>)"
| iterClose: "i < length (pw_iters w) \<Longrightarrow> pebbleIter_Close P (pw_iters w ! i) (pw_store w) = (r, it, s) \<Longrightarrow>
    pebble_step P w (w\<lparr>pw_store := s, pw_iters := (pw_iters w)[i := it]\<rparr>)"
| newSnap: "pebble_NewSnapshot P (pw_store w) = (Inr sn, s) \<Longrightarrow>
    pebble_step P w (w\<lparr>pw_store := s, pw_snaps := pw_snaps w @ [sn]\<rparr>)"
| snapIter: "i < length (pw_snaps w) \<Longrightarrow> pebbleSnapshot_NewIterator P (pw_snaps w ! i) opts (pw_store w) = (it, s) \<Longrightarrow>
    pebble_step P w (w\<lparr>pw_store := s, pw_iters := pw_iters w @ [it]\<rparr>)"
| snapClose: "i < length (pw_snaps w) \<Longrightarrow> pebbleSnapshot_Close P (pw_snaps w ! i) (pw_store w) = (r, sn, s) \<Longrightarrow>
    pebble_step P w (w\<lparr>pw_store := s, pw_snaps := (pw_snaps w)[i := sn]\<rparr>)"
| close: "pebble_step P w (w\<lparr>pw_store := snd (pebble_Close P (pw_store w))\<rparr>)"
| finish: "ps_closing (pw_store w) \<Longrightarrow> ps_resourceWG (pw_store w) = 0 \<Longrightarrow>
    pebble_step P w (w\<lparr>pw_store := snd (pebble_finishClose P (pw_store w))\<rparr>)"

definition initPWorld :: "'db PStorage \<Rightarrow> ('db, 'b, 'i, 's) PWorld" where
  "initPWorld s = \<lparr>pw_store = s, pw_batches = [], pw_iters = [], pw_snaps = []\<rparr>"

section \<open>Accounting\<close>

text \<open>Which resources are closed; an iterator of a snapshot never holds a reference.\<close>

fun batchClosed :: "'b PBatch \<Rightarrow> bool" where
  "batchClosed (PebbleBatch b) = pbt_closed b"
| "batchClosed (ErrorPBatch e) = True"

fun iterClosed :: "'i PIterator \<Rightarrow> bool" where
  "iterClosed (PebbleIterator i) = pit_closed i"
| "iterClosed (PebbleSnapshotIterator i) = pit_closed i"
| "iterClosed (ErrorPIterator e) = True"

fun refFree :: "'i PIterator \<Rightarrow> bool" where
  "refFree (PebbleIterator i) = pit_closed i"
| "refFree (PebbleSnapshotIterator i) = True"
| "refFree (ErrorPIterator e) = True"

fun snapClosed :: "'s PSnapshot \<Rightarrow> bool" where
  "snapClosed (PebbleSnapshot sn) = psn_closed sn"
| "snapClosed (ErrorPSnapshot e) = True"

text \<open>The wait group agrees with the reference count, and the database is gone only after a wait that saw no reference.\<close>

definition db_guard :: "'db PStorage \<Rightarrow> bool" where
  "db_guard s \<longleftrightarrow> ps_resourceWG s = ps_refCount s \<and> (ps_db s = None \<longrightarrow> ps_closing s \<and> ps_refCount s = 0)"

definition pebble_accounted :: "('db, 'b, 'i, 's) PWorld \<Rightarrow> bool" where
  "pebble_accounted w \<longleftrightarrow>
     ps_refCount (pw_store w) = openCount batchClosed (pw_batches w) + openCount refFree (pw_iters w) + openCount snapClosed (pw_snaps w)
     \<and> ps_openIterators (pw_store w) = openCount iterClosed (pw_iters w)
     \<and> ps_openSnapshots (pw_store w) = openCount snapClosed (pw_snaps w)
     \<and> (ps_maxIterators (pw_store w) > 0 \<longrightarrow> ps_openIterators (pw_store w) \<le> ps_maxIterators (pw_store w))
     \<and> (ps_maxSnapshots (pw_store w) > 0 \<longrightarrow> ps_openSnapshots (pw_store w) \<le> ps_maxSnapshots (pw_store w))
     \<and> db_guard (pw_store w)"

lemma moveIter_closed [simp]: "refFree (snd (moveIter f i)) = refFree i" "iterClosed (snd (moveIter f i)) = iterClosed i"
  by (cases i; simp split: prod.split)+

lemma batch_ops_closed [simp]: "batchClosed (snd (pebbleBatch_Put P b k v)) = batchClosed b" "batchClosed (snd (pebbleBatch_Delete P b k)) = batchClosed b"
  by (cases b; simp split: prod.split)+

text \<open>An open resource is counted.\<close>

lemma openCount_pos: "i < length xs \<Longrightarrow> \<not> c (xs ! i) \<Longrightarrow> 0 < openCount c xs"
  using openCount_nonneg [of c xs] openCount_0 [of c xs] nth_mem [of i xs] by fastforce

lemmas pebble_ops_defs = pebble_Get_def pebble_Put_def pebble_Delete_def updateDatabaseMetrics_def withMetrics_def
  pebble_addRef_def pebble_releaseRef_def pebble_finishClose_def pebble_Close_def

text \<open>
  What a call does to the counters: the changes of the reference, iterator and snapshot counts. A closing storage hands
  out no reference, and a resource is added only within its limit.
\<close>

definition moves :: "int \<Rightarrow> int \<Rightarrow> int \<Rightarrow> 'db PStorage \<Rightarrow> 'db PStorage \<Rightarrow> bool" where
  "moves dr di ds s s' \<longleftrightarrow> ps_refCount s' = ps_refCount s + dr \<and> ps_resourceWG s' = ps_resourceWG s + dr
     \<and> ps_openIterators s' = ps_openIterators s + di \<and> ps_openSnapshots s' = ps_openSnapshots s + ds
     \<and> ps_maxIterators s' = ps_maxIterators s \<and> ps_maxSnapshots s' = ps_maxSnapshots s
     \<and> ps_closing s' = ps_closing s \<and> (ps_closing s \<longrightarrow> dr \<le> 0) \<and> (ps_db s' = None \<longleftrightarrow> ps_db s = None)
     \<and> (0 < di \<longrightarrow> ps_maxIterators s \<le> 0 \<or> ps_openIterators s + di \<le> ps_maxIterators s)
     \<and> (0 < ds \<longrightarrow> ps_maxSnapshots s \<le> 0 \<or> ps_openSnapshots s + ds \<le> ps_maxSnapshots s)"

abbreviation live :: "('a \<Rightarrow> bool) \<Rightarrow> 'a \<Rightarrow> int" where
  "live closed x \<equiv> if closed x then 0 else 1"

lemma plain_moves:
  "moves 0 0 0 s (snd (pebble_Get P l s k))" "moves 0 0 0 s (snd (pebble_Put P l s k v))" "moves 0 0 0 s (snd (pebble_Delete P s k))"
  "moves 0 0 0 s (snd (updateDatabaseMetrics P s))" "moves 0 0 0 s s"
  by (auto simp: moves_def pebble_ops_defs Let_def split: option.splits prod.splits)

lemma batch_moves:
  "pebble_NewBatch P s = (Inr b, s') \<Longrightarrow> moves (live batchClosed b) 0 0 s s'"
  "pebbleBatch_Commit P sync b s = (r, b', s') \<Longrightarrow> moves (live batchClosed b' - live batchClosed b) 0 0 s s'"
  "pebbleBatch_Close P b s = (r, b', s') \<Longrightarrow> moves (live batchClosed b' - live batchClosed b) 0 0 s s'"
proof -
  show "moves (live batchClosed b) 0 0 s s'" if "pebble_NewBatch P s = (Inr b, s')"
    using that by (auto simp: moves_def pebble_NewBatch_def pebble_addRef_def split: if_splits option.splits)
  show "moves (live batchClosed b' - live batchClosed b) 0 0 s s'" if "pebbleBatch_Commit P sync b s = (r, b', s')"
    using that by (cases b) (auto simp: moves_def pebbleBatch_close_def pebble_releaseRef_def withMetrics_def Let_def
        split: if_splits option.splits prod.splits)
  show "moves (live batchClosed b' - live batchClosed b) 0 0 s s'" if "pebbleBatch_Close P b s = (r, b', s')"
    using that by (cases b) (auto simp: moves_def pebbleBatch_close_def pebble_releaseRef_def Let_def split: if_splits prod.splits)
qed

lemma iter_moves:
  "pebble_NewIterator P s opts = (Inr it, s') \<Longrightarrow> moves (live refFree it) (live iterClosed it) 0 s s'"
  "pebbleIter_Close P it s = (r, it', s') \<Longrightarrow> moves (live refFree it' - live refFree it) (live iterClosed it' - live iterClosed it) 0 s s'"
  "pebbleSnapshot_NewIterator P sn opts s = (it, s') \<Longrightarrow> moves (live refFree it) (live iterClosed it) 0 s s'"
proof -
  show "moves (live refFree it) (live iterClosed it) 0 s s'" if "pebble_NewIterator P s opts = (Inr it, s')"
    using that by (auto simp: moves_def pebble_NewIterator_def pebble_addRef_def pebble_releaseRef_def Let_def
        split: if_splits option.splits prod.splits sum.splits)
  show "moves (live refFree it' - live refFree it) (live iterClosed it' - live iterClosed it) 0 s s'" if "pebbleIter_Close P it s = (r, it', s')"
    using that by (cases it) (auto simp: moves_def pebble_releaseRef_def Let_def split: if_splits prod.splits)
  show "moves (live refFree it) (live iterClosed it) 0 s s'" if "pebbleSnapshot_NewIterator P sn opts s = (it, s')"
    using that by (cases sn) (auto simp: moves_def Let_def split: if_splits prod.splits sum.splits)
qed

lemma snap_moves:
  "pebble_NewSnapshot P s = (Inr sn, s') \<Longrightarrow> moves (live snapClosed sn) 0 (live snapClosed sn) s s'"
  "pebbleSnapshot_Close P sn s = (r, sn', s') \<Longrightarrow> moves (live snapClosed sn' - live snapClosed sn) 0 (live snapClosed sn' - live snapClosed sn) s s'"
proof -
  show "moves (live snapClosed sn) 0 (live snapClosed sn) s s'" if "pebble_NewSnapshot P s = (Inr sn, s')"
    using that by (auto simp: moves_def pebble_NewSnapshot_def pebble_addRef_def pebble_releaseRef_def Let_def split: if_splits option.splits)
  show "moves (live snapClosed sn' - live snapClosed sn) 0 (live snapClosed sn' - live snapClosed sn) s s'"
    if "pebbleSnapshot_Close P sn s = (r, sn', s')"
    using that by (cases sn) (auto simp: moves_def pebble_releaseRef_def Let_def split: if_splits prod.splits)
qed

definition refs :: "('db, 'b, 'i, 's) PWorld \<Rightarrow> int" where
  "refs w = openCount batchClosed (pw_batches w) + openCount refFree (pw_iters w) + openCount snapClosed (pw_snaps w)"

lemma refs_nonneg: "0 \<le> refs w"
  unfolding refs_def by (intro add_nonneg_nonneg openCount_nonneg)

lemma accounted_moves:
  assumes acc: "pebble_accounted w" and mv: "moves dr di ds (pw_store w) (pw_store w')" and "refs w' = refs w + dr"
    and "openCount iterClosed (pw_iters w') = openCount iterClosed (pw_iters w) + di"
    and "openCount snapClosed (pw_snaps w') = openCount snapClosed (pw_snaps w) + ds"
  shows "pebble_accounted w'"
proof -
  have "db_guard (pw_store w')"
    using acc mv assms(3) refs_nonneg [of w'] by (auto simp: pebble_accounted_def db_guard_def moves_def refs_def)
  moreover have "0 < ps_maxIterators (pw_store w') \<Longrightarrow> ps_openIterators (pw_store w') \<le> ps_maxIterators (pw_store w')"
    using acc mv by (cases "0 < di") (auto simp: pebble_accounted_def moves_def)
  moreover have "0 < ps_maxSnapshots (pw_store w') \<Longrightarrow> ps_openSnapshots (pw_store w') \<le> ps_maxSnapshots (pw_store w')"
    using acc mv by (cases "0 < ds") (auto simp: pebble_accounted_def moves_def)
  moreover have "ps_refCount (pw_store w') = refs w'" "ps_openIterators (pw_store w') = openCount iterClosed (pw_iters w')"
    "ps_openSnapshots (pw_store w') = openCount snapClosed (pw_snaps w')"
    using acc mv assms(3-5) by (simp_all add: pebble_accounted_def moves_def flip: refs_def)
  ultimately show ?thesis by (simp add: pebble_accounted_def refs_def)
qed

text \<open>Every step except the end of \<open>Close\<close> moves the counters as the lists of resources change.\<close>

definition counted :: "('db, 'b, 'i, 's) PWorld \<Rightarrow> ('db, 'b, 'i, 's) PWorld \<Rightarrow> bool" where
  "counted w w' \<longleftrightarrow> (\<exists>dr di ds. moves dr di ds (pw_store w) (pw_store w') \<and> refs w' = refs w + dr
     \<and> openCount iterClosed (pw_iters w') = openCount iterClosed (pw_iters w) + di
     \<and> openCount snapClosed (pw_snaps w') = openCount snapClosed (pw_snaps w) + ds)"

lemma countedI: "moves dr di ds (pw_store w) s \<Longrightarrow> pw_store w' = s \<Longrightarrow> refs w' = refs w + dr
     \<Longrightarrow> openCount iterClosed (pw_iters w') = openCount iterClosed (pw_iters w) + di
     \<Longrightarrow> openCount snapClosed (pw_snaps w') = openCount snapClosed (pw_snaps w) + ds \<Longrightarrow> counted w w'"
  unfolding counted_def by blast

lemma step_counted:
  assumes "pebble_step P w w'"
  shows "counted w w' \<or> w' = w\<lparr>pw_store := snd (pebble_Close P (pw_store w))\<rparr>
    \<or> ps_closing (pw_store w) \<and> ps_resourceWG (pw_store w) = 0 \<and> w' = w\<lparr>pw_store := snd (pebble_finishClose P (pw_store w))\<rparr>"
  using assms
proof (induction rule: pebble_step.induct)
  case (get w latency k)
  show ?case by (rule disjI1, rule countedI [OF plain_moves(1)]) (simp_all add: refs_def)
next
  case (put w latency k v)
  show ?case by (rule disjI1, rule countedI [OF plain_moves(2)]) (simp_all add: refs_def)
next
  case (delete w k)
  show ?case by (rule disjI1, rule countedI [OF plain_moves(3)]) (simp_all add: refs_def)
next
  case (tick w)
  show ?case by (rule disjI1, rule countedI [OF plain_moves(4)]) (simp_all add: refs_def)
next
  case (newBatch w b s)
  show ?case by (rule disjI1, rule countedI [OF batch_moves(1) [OF newBatch]]) (simp_all add: refs_def)
next
  case (batchPut i w k v)
  show ?case by (rule disjI1, rule countedI [OF plain_moves(5)]) (use batchPut in \<open>simp_all add: refs_def\<close>)
next
  case (batchDelete i w k)
  show ?case by (rule disjI1, rule countedI [OF plain_moves(5)]) (use batchDelete in \<open>simp_all add: refs_def\<close>)
next
  case (batchCommit i w sync r b s)
  show ?case by (rule disjI1, rule countedI [OF batch_moves(2) [OF batchCommit(2)]]) (use batchCommit in \<open>simp_all add: refs_def\<close>)
next
  case (batchClose i w r b s)
  show ?case by (rule disjI1, rule countedI [OF batch_moves(3) [OF batchClose(2)]]) (use batchClose in \<open>simp_all add: refs_def\<close>)
next
  case (newIter w opts it s)
  show ?case by (rule disjI1, rule countedI [OF iter_moves(1) [OF newIter]]) (simp_all add: refs_def)
next
  case (iterMove i w f)
  show ?case by (rule disjI1, rule countedI [OF plain_moves(5)]) (use iterMove in \<open>simp_all add: refs_def\<close>)
next
  case (iterClose i w r it s)
  show ?case by (rule disjI1, rule countedI [OF iter_moves(2) [OF iterClose(2)]]) (use iterClose in \<open>simp_all add: refs_def\<close>)
next
  case (newSnap w sn s)
  show ?case by (rule disjI1, rule countedI [OF snap_moves(1) [OF newSnap]]) (simp_all add: refs_def)
next
  case (snapIter i w opts it s)
  show ?case by (rule disjI1, rule countedI [OF iter_moves(3) [OF snapIter(2)]]) (use snapIter in \<open>simp_all add: refs_def\<close>)
next
  case (snapClose i w r sn s)
  show ?case by (rule disjI1, rule countedI [OF snap_moves(2) [OF snapClose(2)]]) (use snapClose in \<open>simp_all add: refs_def\<close>)
next
  case (close w)
  then show ?case by blast
next
  case (finish w)
  then show ?case by blast
qed

text \<open>Closing keeps the counters; it drops the database only when no reference is left.\<close>

lemma close_guard:
  assumes "db_guard s"
  shows "db_guard (snd (pebble_Close P s))" and "ps_closing s \<Longrightarrow> ps_resourceWG s = 0 \<Longrightarrow> db_guard (snd (pebble_finishClose P s))"
  using assms by (auto simp: db_guard_def pebble_ops_defs Let_def split: option.splits prod.splits)

definition same_counts :: "'db PStorage \<Rightarrow> 'db PStorage \<Rightarrow> bool" where
  "same_counts s s' \<longleftrightarrow> ps_refCount s' = ps_refCount s \<and> ps_resourceWG s' = ps_resourceWG s \<and> ps_openIterators s' = ps_openIterators s
     \<and> ps_openSnapshots s' = ps_openSnapshots s \<and> ps_maxIterators s' = ps_maxIterators s \<and> ps_maxSnapshots s' = ps_maxSnapshots s"

lemma close_counts: "same_counts s (snd (pebble_Close P s))" "same_counts s (snd (pebble_finishClose P s))"
  by (auto simp: same_counts_def pebble_Close_def pebble_finishClose_def Let_def split: option.splits prod.splits)

lemma accounted_same:
  assumes "pebble_accounted w" and "same_counts (pw_store w) s" and "db_guard s"
  shows "pebble_accounted (w\<lparr>pw_store := s\<rparr>)"
  using assms unfolding pebble_accounted_def same_counts_def by auto

lemma accounted_pebble_step: "pebble_step P w w' \<Longrightarrow> pebble_accounted w \<Longrightarrow> pebble_accounted w'"
proof -
  assume step: "pebble_step P w w'" and acc: "pebble_accounted w"
  then have guard: "db_guard (pw_store w)" by (simp add: pebble_accounted_def)
  show ?thesis
    using step_counted [OF step]
  proof (elim disjE conjE)
    assume "counted w w'"
    then show ?thesis unfolding counted_def using accounted_moves [OF acc] by blast
  qed (use accounted_same [OF acc] close_counts close_guard [OF guard] in blast)+
qed

lemma pebble_reachable_accounted:
  assumes "pebble_NewStorage P path opts = Inr s" and "(pebble_step P)\<^sup>*\<^sup>* (initPWorld s) w"
  shows "pebble_accounted w"
  using assms(2)
proof (induction rule: rtranclp_induct)
  case base
  then show ?case using assms(1)
    by (auto simp: pebble_accounted_def db_guard_def initPWorld_def pebble_NewStorage_def Let_def split: sum.splits)
next
  case (step y z)
  then show ?case using accounted_pebble_step by blast
qed

section \<open>Shutdown\<close>

lemma openCount_ex: "0 < openCount c xs \<Longrightarrow> \<exists>i < length xs. \<not> c (xs ! i)"
  using openCount_0 [of c xs] by (metis in_set_conv_nth less_irrefl)

text \<open>Closing an open resource releases one reference.\<close>

lemma after_Close:
  "pebbleBatch_Close P b s = (r, b', s') \<Longrightarrow> batchClosed b'" "pebbleSnapshot_Close P sn s = (r, sn', s') \<Longrightarrow> snapClosed sn'"
  "pebbleIter_Close P it s = (r, it', s') \<Longrightarrow> refFree it' \<and> iterClosed it'"
proof -
  show "batchClosed b'" if "pebbleBatch_Close P b s = (r, b', s')"
    using that by (cases b) (auto simp: pebbleBatch_close_def split: if_splits prod.splits)
  show "snapClosed sn'" if "pebbleSnapshot_Close P sn s = (r, sn', s')" using that by (cases sn) (auto split: if_splits prod.splits)
  show "refFree it' \<and> iterClosed it'" if "pebbleIter_Close P it s = (r, it', s')" using that by (cases it) (auto split: if_splits prod.splits)
qed

lemma refFree_iff: "\<not> refFree it \<Longrightarrow> \<not> iterClosed it"
  by (cases it) auto

lemma release_batch:
  assumes "i < length (pw_batches w)" and "\<not> batchClosed (pw_batches w ! i)"
  shows "\<exists>w'. pebble_step P w w' \<and> moves (- 1) 0 0 (pw_store w) (pw_store w')"
proof -
  obtain r b s where c: "pebbleBatch_Close P (pw_batches w ! i) (pw_store w) = (r, b, s)" by (cases "pebbleBatch_Close P (pw_batches w ! i) (pw_store w)")
  with after_Close(1) [OF c] batch_moves(3) [OF c] pebble_step.batchClose [OF assms(1) c] assms(2) show ?thesis by force
qed

lemma release_iter:
  assumes "i < length (pw_iters w)" and "\<not> refFree (pw_iters w ! i)"
  shows "\<exists>w'. pebble_step P w w' \<and> moves (- 1) (- 1) 0 (pw_store w) (pw_store w')"
proof -
  obtain r it s where c: "pebbleIter_Close P (pw_iters w ! i) (pw_store w) = (r, it, s)" by (cases "pebbleIter_Close P (pw_iters w ! i) (pw_store w)")
  with after_Close(3) [OF c] refFree_iff [OF assms(2)] iter_moves(2) [OF c] pebble_step.iterClose [OF assms(1) c] assms(2) show ?thesis by force
qed

lemma release_snap:
  assumes "i < length (pw_snaps w)" and "\<not> snapClosed (pw_snaps w ! i)"
  shows "\<exists>w'. pebble_step P w w' \<and> moves (- 1) 0 (- 1) (pw_store w) (pw_store w')"
proof -
  obtain r sn s where c: "pebbleSnapshot_Close P (pw_snaps w ! i) (pw_store w) = (r, sn, s)" by (cases "pebbleSnapshot_Close P (pw_snaps w ! i) (pw_store w)")
  with after_Close(2) [OF c] snap_moves(2) [OF c] pebble_step.snapClose [OF assms(1) c] assms(2) show ?thesis by force
qed

lemma release_one:
  assumes "pebble_accounted w" and "ps_closing (pw_store w)" and "0 < ps_refCount (pw_store w)"
  shows "\<exists>w'. pebble_step P w w' \<and> ps_closing (pw_store w') \<and> ps_refCount (pw_store w') = ps_refCount (pw_store w) - 1"
proof -
  have "0 < openCount batchClosed (pw_batches w) \<or> 0 < openCount refFree (pw_iters w) \<or> 0 < openCount snapClosed (pw_snaps w)"
    using assms(1,3) by (auto simp: pebble_accounted_def)
  then have "\<exists>w' di ds. pebble_step P w w' \<and> moves (- 1) di ds (pw_store w) (pw_store w')"
  proof (elim disjE)
    assume "0 < openCount batchClosed (pw_batches w)"
    from openCount_ex [OF this] show ?thesis using release_batch [of _ w P] by blast
  next
    assume "0 < openCount refFree (pw_iters w)"
    from openCount_ex [OF this] show ?thesis using release_iter [of _ w P] by blast
  next
    assume "0 < openCount snapClosed (pw_snaps w)"
    from openCount_ex [OF this] show ?thesis using release_snap [of _ w P] by blast
  qed
  then show ?thesis using assms(2) by (auto simp: moves_def)
qed

lemma drain:
  assumes "pebble_accounted w" and "ps_closing (pw_store w)"
  shows "\<exists>w'. (pebble_step P)\<^sup>*\<^sup>* w w' \<and> ps_db (pw_store w') = None"
  using assms
proof (induction "nat (ps_refCount (pw_store w))" arbitrary: w)
  case 0
  moreover have "0 \<le> ps_refCount (pw_store w)" using 0(2) refs_nonneg [of w] by (simp add: pebble_accounted_def refs_def)
  ultimately have "ps_resourceWG (pw_store w) = 0" by (simp add: pebble_accounted_def db_guard_def)
  from pebble_step.finish [OF 0(3) this, of P]
  show ?case by (intro exI conjI, rule r_into_rtranclp) (auto simp: pebble_finishClose_def split: option.splits)
next
  case (Suc n)
  then obtain w1 where w1: "pebble_step P w w1" "ps_closing (pw_store w1)" "ps_refCount (pw_store w1) = ps_refCount (pw_store w) - 1"
    using release_one [of w] by fastforce
  then have "n = nat (ps_refCount (pw_store w1))" using Suc(2) by simp
  from Suc(1) [OF this accounted_pebble_step [OF w1(1) Suc(3)] w1(2)] w1(1) show ?case
    by (meson converse_rtranclp_into_rtranclp)
qed

lemma closing_step:
  assumes "pebble_step P w w'" and "ps_closing (pw_store w)"
  shows "ps_closing (pw_store w') \<and> ps_refCount (pw_store w') \<le> ps_refCount (pw_store w)"
  using step_counted [OF assms(1)] assms(2)
  by (auto simp: counted_def moves_def pebble_Close_def pebble_finishClose_def split: option.splits)

section \<open>Properties\<close>

text \<open>
  C29: resource accounting of the persistent backend. In every state reachable from a new storage the reference count is
  the number of open batches, iterators and snapshots (the iterators of snapshots hold none), the limits are respected,
  \<open>Close\<close> waits exactly while a reference is held, a storage that is not closing has its database, and the database is
  closed only after every batch, iterator and snapshot.
\<close>

theorem pebble_resources_accounted:
  assumes "pebble_NewStorage P path opts = Inr s" and "(pebble_step P)\<^sup>*\<^sup>* (initPWorld s) w"
  shows "pebble_accounted w
    \<and> (\<not> ps_closing (pw_store w) \<longrightarrow> ps_db (pw_store w) \<noteq> None \<and>
        (fst (pebble_Close P (pw_store w)) = None \<longleftrightarrow>
           (\<exists>b \<in> set (pw_batches w). \<not> batchClosed b) \<or> (\<exists>i \<in> set (pw_iters w). \<not> refFree i) \<or> (\<exists>sn \<in> set (pw_snaps w). \<not> snapClosed sn)))
    \<and> (ps_db (pw_store w) = None \<longrightarrow>
        (\<forall>b \<in> set (pw_batches w). batchClosed b) \<and> (\<forall>i \<in> set (pw_iters w). refFree i) \<and> (\<forall>sn \<in> set (pw_snaps w). snapClosed sn))"
proof -
  have acc: "pebble_accounted w" using pebble_reachable_accounted [OF assms] .
  then have guard: "db_guard (pw_store w)" and ref: "ps_refCount (pw_store w) = refs w" by (simp_all add: pebble_accounted_def refs_def)
  have zero: "ps_refCount (pw_store w) = 0 \<longleftrightarrow>
      (\<forall>b \<in> set (pw_batches w). batchClosed b) \<and> (\<forall>i \<in> set (pw_iters w). refFree i) \<and> (\<forall>sn \<in> set (pw_snaps w). snapClosed sn)"
    using openCount_nonneg [of batchClosed "pw_batches w"] openCount_nonneg [of refFree "pw_iters w"] openCount_nonneg [of snapClosed "pw_snaps w"]
    unfolding ref refs_def openCount_0 [symmetric] by linarith
  have "fst (pebble_Close P (pw_store w)) = None \<longleftrightarrow> ps_refCount (pw_store w) \<noteq> 0" if "\<not> ps_closing (pw_store w)"
    using that guard by (simp add: pebble_Close_def db_guard_def Let_def case_prod_unfold)
  then show ?thesis using acc guard zero by (auto simp: db_guard_def)
qed

text \<open>
  C30: a shutdown completes. Once \<open>Close\<close> was called, no call hands out another reference and the storage stays closing; and
  whatever is open, closing the open batches, iterators and snapshots leads to the state in which the database is closed.
\<close>

theorem pebble_close_completes:
  assumes "pebble_NewStorage P path opts = Inr s" and "(pebble_step P)\<^sup>*\<^sup>* (initPWorld s) w" and "ps_closing (pw_store w)"
  shows "(\<forall>w'. (pebble_step P)\<^sup>*\<^sup>* w w' \<longrightarrow> ps_closing (pw_store w') \<and> ps_refCount (pw_store w') \<le> ps_refCount (pw_store w))
    \<and> (\<forall>w'. (pebble_step P)\<^sup>*\<^sup>* w w' \<longrightarrow> (\<exists>w''. (pebble_step P)\<^sup>*\<^sup>* w' w'' \<and> ps_db (pw_store w'') = None))"
proof -
  have closing: "ps_closing (pw_store w') \<and> ps_refCount (pw_store w') \<le> ps_refCount (pw_store w)" if "(pebble_step P)\<^sup>*\<^sup>* w w'" for w'
    using that
  proof (induction rule: rtranclp_induct)
    case (step y z)
    then show ?case using closing_step [of P y z] by auto
  qed (simp add: assms(3))
  moreover have "\<exists>w''. (pebble_step P)\<^sup>*\<^sup>* w' w'' \<and> ps_db (pw_store w'') = None" if w': "(pebble_step P)\<^sup>*\<^sup>* w w'" for w'
    using drain [OF pebble_reachable_accounted [OF assms(1) rtranclp_trans [OF assms(2) w']]] closing [OF w'] by blast
  ultimately show ?thesis by blast
qed

section \<open>Examples\<close>

definition listStore :: "(bytes, bytes) gomap PStorage" where
  "listStore = \<lparr>ps_db = Some [], ps_metrics = None, ps_refCount = 0, ps_closing = False, ps_resourceWG = 0, ps_openIterators = 0,
     ps_openSnapshots = 0, ps_maxIterators = 1000, ps_maxSnapshots = 100\<rparr>"

definition listOptions :: "unit POptions" where
  "listOptions = \<lparr>po_PebbleOptions = None, po_EnableMetrics = False, po_MaxIterators = 1000, po_MaxSnapshots = 100\<rparr>"

lemma listStore_new: "pebble_NewStorage listPebble ''db'' (Some listOptions) = Inr listStore"
  by (simp add: pebble_NewStorage_def listOptions_def listStore_def)

definition openSnap :: "(bytes, bytes) gomap PSnapshot" where
  "openSnap = PebbleSnapshot \<lparr>psn_snap = [], psn_closed = False\<rparr>"

lemma listStore_snapshot:
  "pebble_NewSnapshot listPebble listStore = (Inr openSnap, listStore\<lparr>ps_refCount := 1, ps_resourceWG := 1, ps_openSnapshots := 1\<rparr>)"
  by (simp add: pebble_NewSnapshot_def pebble_addRef_def listStore_def openSnap_def)

text \<open>A storage with one open snapshot.\<close>

definition snapWorld :: "((bytes, bytes) gomap, batchOp list, (bytes \<times> bytes) list \<times> nat, (bytes, bytes) gomap) PWorld" where
  "snapWorld = \<lparr>pw_store = listStore\<lparr>ps_refCount := 1, ps_resourceWG := 1, ps_openSnapshots := 1\<rparr>, pw_batches = [], pw_iters = [], pw_snaps = [openSnap]\<rparr>"

lemma snapWorld_reachable: "(pebble_step listPebble)\<^sup>*\<^sup>* (initPWorld listStore) snapWorld"
proof -
  have "pebble_NewSnapshot listPebble (pw_store (initPWorld listStore)) = (Inr openSnap, listStore\<lparr>ps_refCount := 1, ps_resourceWG := 1, ps_openSnapshots := 1\<rparr>)"
    using listStore_snapshot by (simp add: initPWorld_def)
  from pebble_step.newSnap [OF this] show ?thesis by (simp add: initPWorld_def snapWorld_def r_into_rtranclp)
qed

definition closingWorld :: "((bytes, bytes) gomap, batchOp list, (bytes \<times> bytes) list \<times> nat, (bytes, bytes) gomap) PWorld" where
  "closingWorld = snapWorld\<lparr>pw_store := (pw_store snapWorld)\<lparr>ps_closing := True\<rparr>\<rparr>"

lemma closingWorld_reachable: "(pebble_step listPebble)\<^sup>*\<^sup>* (initPWorld listStore) closingWorld"
proof -
  have "snd (pebble_Close listPebble (pw_store snapWorld)) = (pw_store snapWorld)\<lparr>ps_closing := True\<rparr>"
    by (simp add: pebble_Close_def snapWorld_def listStore_def)
  with pebble_step.close [of listPebble snapWorld] snapWorld_reachable show ?thesis by (simp add: closingWorld_def rtranclp.rtrancl_into_rtrancl)
qed

theorem pebble_resources_accounted_witness: "pebble_accounted snapWorld \<and> fst (pebble_Close listPebble (pw_store snapWorld)) = None"
proof -
  have "\<not> ps_closing (pw_store snapWorld)" "openSnap \<in> set (pw_snaps snapWorld)" "\<not> snapClosed openSnap"
    by (simp_all add: snapWorld_def listStore_def openSnap_def)
  with pebble_resources_accounted [OF listStore_new snapWorld_reachable] show ?thesis by blast
qed

theorem pebble_close_completes_witness: "\<exists>w. (pebble_step listPebble)\<^sup>*\<^sup>* closingWorld w \<and> ps_db (pw_store w) = None"
proof -
  have "ps_closing (pw_store closingWorld)" by (simp add: closingWorld_def)
  from pebble_close_completes [OF listStore_new closingWorld_reachable this] show ?thesis by blast
qed

text \<open>
  The iterators of a snapshot are not waited for: after its snapshot was closed, such an iterator is still open when \<open>Close\<close>
  closes the database.
\<close>

lemma snapshot_iterator_leak:
  "\<exists>w. (pebble_step listPebble)\<^sup>*\<^sup>* (initPWorld listStore) w \<and> ps_db (pw_store w) = None \<and> ps_openIterators (pw_store w) = 1"
proof -
  let ?s1 = "(pw_store snapWorld)\<lparr>ps_openIterators := 1\<rparr>"
  let ?it = "PebbleSnapshotIterator \<lparr>pit_iter = ([], 0), pit_closed = False\<rparr>"
  have i: "pebbleSnapshot_NewIterator listPebble (pw_snaps snapWorld ! 0) None (pw_store snapWorld) = (?it, ?s1)"
    by (simp add: snapWorld_def openSnap_def listStore_def iterBounds_def listItems_def)
  let ?w1 = "snapWorld\<lparr>pw_store := ?s1, pw_iters := [?it]\<rparr>"
  let ?sn = "PebbleSnapshot \<lparr>psn_snap = [], psn_closed = True\<rparr>"
  have c: "pebbleSnapshot_Close listPebble (pw_snaps ?w1 ! 0) (pw_store ?w1) = (Inr (), ?sn, listStore\<lparr>ps_openIterators := 1\<rparr>)"
    by (simp add: snapWorld_def openSnap_def pebble_releaseRef_def listStore_def)
  let ?w2 = "?w1\<lparr>pw_store := listStore\<lparr>ps_openIterators := 1\<rparr>, pw_snaps := [?sn]\<rparr>"
  let ?w3 = "?w2\<lparr>pw_store := snd (pebble_Close listPebble (pw_store ?w2))\<rparr>"
  have "pebble_step listPebble snapWorld ?w1" using pebble_step.snapIter [OF _ i] by (simp add: snapWorld_def)
  moreover have "pebble_step listPebble ?w1 ?w2" using pebble_step.snapClose [OF _ c] by (simp add: snapWorld_def)
  moreover have "pebble_step listPebble ?w2 ?w3" by (rule pebble_step.close)
  ultimately have "(pebble_step listPebble)\<^sup>*\<^sup>* (initPWorld listStore) ?w3"
    using snapWorld_reachable by (meson rtranclp.rtrancl_into_rtrancl)
  moreover have "ps_db (pw_store ?w3) = None" "ps_openIterators (pw_store ?w3) = 1"
    by (simp_all add: pebble_Close_def pebble_finishClose_def listStore_def)
  ultimately show ?thesis by blast
qed

end
