(* ===== verification/PebbleRefine.thy ===== *)
theory PebbleRefine
  imports PebbleLaws
begin

text \<open>
  The two storage backends against each other: a client that reads, writes, fills, commits and closes batches, takes, reads and closes
  snapshots, scans and closes the storage gets the same answers from \<^verbatim>\<open>storage/pebble/pebble.go\<close> as from
  \<^verbatim>\<open>storage/memory/memory.go\<close>, provided that the library keeps its laws, with two exceptions, which are shown to differ:
  a scan with a prefix for which the bounds of the persistent backend are too wide, and a batch committed after \<open>Close\<close>.
\<close>

section \<open>Clients\<close>

datatype request =
    ReqGet bytes
  | ReqPut bytes bytes
  | ReqDelete bytes
  | ReqNewBatch
  | ReqBatchPut nat bytes bytes
  | ReqBatchDelete nat bytes
  | ReqBatchCommit nat bool
  | ReqBatchClose nat
  | ReqSnapshot
  | ReqSnapGet nat bytes
  | ReqSnapClose nat
  | ReqScan "IteratorOptions option" nat
  | ReqClose

datatype answer =
    AnsValue "bytes option result"
  | AnsUnit "unit result"
  | AnsList "(bytes \<times> bytes option) list"
  | AnsClose "unit result option"
  | AnsNone

text \<open>
  The memory backend. Batches and snapshots are handles, numbered as they are made; a batch comes with a flag of the client, set
  once it has committed or closed the batch. A request to a handle that does not exist, a write to a batch with the flag and
  a read of a closed snapshot are no calls; a scan reads the first \<open>n\<close> entries with \<open>First\<close>, \<open>Valid\<close> and \<open>Next\<close> and
  closes its iterator.
\<close>

fun memEndScan :: "Iterator \<Rightarrow> Storage \<Rightarrow> Storage" where
  "memEndScan (MemIterator i) s = snd (Iterator_Close i s)"
| "memEndScan (ErrorIterator e) s = s"

fun memSnapUsable :: "Snapshot \<Rightarrow> bool" where
  "memSnapUsable (MemSnapshot sn) = (\<not> sn_closed sn)"
| "memSnapUsable (ErrorSnapshot e) = True"

definition writable :: "('b \<times> bool) list \<Rightarrow> nat \<Rightarrow> bool" where
  "writable bs i \<longleftrightarrow> i < length bs \<and> \<not> snd (bs ! i)"

fun memServe :: "request \<Rightarrow> Storage \<times> (Batch \<times> bool) list \<times> Snapshot list \<Rightarrow> answer \<times> Storage \<times> (Batch \<times> bool) list \<times> Snapshot list" where
  "memServe (ReqGet k) (s, bs, sns) = (AnsValue (Storage_Get s k), s, bs, sns)"
| "memServe (ReqPut k v) (s, bs, sns) = (let (r, s') = Storage_Put s k v in (AnsUnit r, s', bs, sns))"
| "memServe (ReqDelete k) (s, bs, sns) = (let (r, s') = Storage_Delete s k in (AnsUnit r, s', bs, sns))"
| "memServe ReqNewBatch (s, bs, sns) = (let (b, s') = NewBatch s in (AnsNone, s', bs @ [(b, False)], sns))"
| "memServe (ReqBatchPut i k v) (s, bs, sns) =
     (if writable bs i then (let (r, b) = Batch_Put (fst (bs ! i)) k v in (AnsUnit r, s, bs[i := (b, False)], sns)) else (AnsNone, s, bs, sns))"
| "memServe (ReqBatchDelete i k) (s, bs, sns) =
     (if writable bs i then (let (r, b) = Batch_Delete (fst (bs ! i)) k in (AnsUnit r, s, bs[i := (b, False)], sns)) else (AnsNone, s, bs, sns))"
| "memServe (ReqBatchCommit i sync) (s, bs, sns) =
     (if i < length bs then (let (r, b, s') = Batch_Commit (fst (bs ! i)) s in (AnsUnit r, s', bs[i := (b, True)], sns)) else (AnsNone, s, bs, sns))"
| "memServe (ReqBatchClose i) (s, bs, sns) =
     (if i < length bs then (let (b, s') = Batch_Close (fst (bs ! i)) s in (AnsUnit (Inr ()), s', bs[i := (b, True)], sns)) else (AnsNone, s, bs, sns))"
| "memServe ReqSnapshot (s, bs, sns) = (let (sn, s') = NewSnapshot s in (AnsNone, s', bs, sns @ [sn]))"
| "memServe (ReqSnapGet i k) (s, bs, sns) =
     (if i < length sns \<and> memSnapUsable (sns ! i) then (AnsValue (Snapshot_Get (sns ! i) k), s, bs, sns) else (AnsNone, s, bs, sns))"
| "memServe (ReqSnapClose i) (s, bs, sns) =
     (if i < length sns then (let (sn, s') = Snapshot_Close (sns ! i) s in (AnsNone, s', bs, sns[i := sn])) else (AnsNone, s, bs, sns))"
| "memServe (ReqScan opts n) (s, bs, sns) =
     (let (it, s1) = NewIterator s opts in (AnsList (take n (scan it)), memEndScan it s1, bs, sns))"
| "memServe ReqClose (s, bs, sns) = (let (r, s') = Storage_Close s in (AnsClose r, s', bs, sns))"

text \<open>The persistent backend; \<open>l\<close> is the latency its metrics see.\<close>

fun pebbleTake :: "('o, 'db, 'b, 'i, 's) pebble \<Rightarrow> nat \<Rightarrow> 'i PIterator \<Rightarrow> (bytes \<times> bytes option) list" where
  "pebbleTake P 0 it = []"
| "pebbleTake P (Suc n) it =
     (if pebbleIter_Valid P it then (the (pebbleIter_Key P it), pebbleIter_Value P it) # pebbleTake P n (snd (pebbleIter_Next P it)) else [])"

fun pebbleSnapUsable :: "'s PSnapshot \<Rightarrow> bool" where
  "pebbleSnapUsable (PebbleSnapshot sn) = (\<not> psn_closed sn)"
| "pebbleSnapUsable (ErrorPSnapshot e) = True"

fun pebbleServe :: "('o, 'db, 'b, 'i, 's) pebble \<Rightarrow> int \<Rightarrow> request \<Rightarrow> 'db PStorage \<times> ('b PBatch \<times> bool) list \<times> 's PSnapshot list
    \<Rightarrow> answer \<times> 'db PStorage \<times> ('b PBatch \<times> bool) list \<times> 's PSnapshot list" where
  "pebbleServe P l (ReqGet k) (s, bs, sns) = (let (r, s') = pebble_Get P l s k in (AnsValue r, s', bs, sns))"
| "pebbleServe P l (ReqPut k v) (s, bs, sns) = (let (r, s') = pebble_Put P l s k v in (AnsUnit r, s', bs, sns))"
| "pebbleServe P l (ReqDelete k) (s, bs, sns) = (let (r, s') = pebble_Delete P s k in (AnsUnit r, s', bs, sns))"
| "pebbleServe P l ReqNewBatch (s, bs, sns) =
     (case pebble_NewBatch P s of
        (Inl e, s') \<Rightarrow> (AnsUnit (Inl e), s', bs, sns)
      | (Inr b, s') \<Rightarrow> (AnsNone, s', bs @ [(b, False)], sns))"
| "pebbleServe P l (ReqBatchPut i k v) (s, bs, sns) =
     (if writable bs i then (let (r, b) = pebbleBatch_Put P (fst (bs ! i)) k v in (AnsUnit r, s, bs[i := (b, False)], sns)) else (AnsNone, s, bs, sns))"
| "pebbleServe P l (ReqBatchDelete i k) (s, bs, sns) =
     (if writable bs i then (let (r, b) = pebbleBatch_Delete P (fst (bs ! i)) k in (AnsUnit r, s, bs[i := (b, False)], sns)) else (AnsNone, s, bs, sns))"
| "pebbleServe P l (ReqBatchCommit i sync) (s, bs, sns) =
     (if i < length bs then (let (r, b, s') = pebbleBatch_Commit P sync (fst (bs ! i)) s in (AnsUnit r, s', bs[i := (b, True)], sns))
      else (AnsNone, s, bs, sns))"
| "pebbleServe P l (ReqBatchClose i) (s, bs, sns) =
     (if i < length bs then (let (r, b, s') = pebbleBatch_Close P (fst (bs ! i)) s in (AnsUnit r, s', bs[i := (b, True)], sns))
      else (AnsNone, s, bs, sns))"
| "pebbleServe P l ReqSnapshot (s, bs, sns) =
     (case pebble_NewSnapshot P s of
        (Inl e, s') \<Rightarrow> (AnsUnit (Inl e), s', bs, sns)
      | (Inr sn, s') \<Rightarrow> (AnsNone, s', bs, sns @ [sn]))"
| "pebbleServe P l (ReqSnapGet i k) (s, bs, sns) =
     (if i < length sns \<and> pebbleSnapUsable (sns ! i) then (AnsValue (pebbleSnapshot_Get P (sns ! i) k), s, bs, sns) else (AnsNone, s, bs, sns))"
| "pebbleServe P l (ReqSnapClose i) (s, bs, sns) =
     (if i < length sns then (let (r, sn, s') = pebbleSnapshot_Close P (sns ! i) s in (AnsNone, s', bs, sns[i := sn])) else (AnsNone, s, bs, sns))"
| "pebbleServe P l (ReqScan opts n) (s, bs, sns) =
     (case pebble_NewIterator P s opts of
        (Inl e, s1) \<Rightarrow> (AnsUnit (Inl e), s1, bs, sns)
      | (Inr it, s1) \<Rightarrow>
          (let it1 = snd (pebbleIter_First P it); (r, it2, s2) = pebbleIter_Close P it1 s1 in (AnsList (pebbleTake P n it1), s2, bs, sns)))"
| "pebbleServe P l ReqClose (s, bs, sns) = (let (r, s') = pebble_Close P s in (AnsClose r, s', bs, sns))"

fun memServeAll :: "request list \<Rightarrow> Storage \<times> (Batch \<times> bool) list \<times> Snapshot list \<Rightarrow> answer list" where
  "memServeAll [] st = []"
| "memServeAll (q # qs) st = (let (a, st') = memServe q st in a # memServeAll qs st')"

fun pebbleServeAll :: "('o, 'db, 'b, 'i, 's) pebble \<Rightarrow> int \<Rightarrow> request list \<Rightarrow> 'db PStorage \<times> ('b PBatch \<times> bool) list \<times> 's PSnapshot list \<Rightarrow> answer list" where
  "pebbleServeAll P l [] st = []"
| "pebbleServeAll P l (q # qs) st = (let (a, st') = pebbleServe P l q st in a # pebbleServeAll P l qs st')"


section \<open>The relation\<close>






section \<open>Reads and writes\<close>








section \<open>Batches\<close>







section \<open>Scans\<close>






section \<open>Snapshots and closing\<close>





section \<open>Clients cannot tell the backends apart\<close>





text \<open>The exceptions are needed: a late commit, and a scan for the keys that start with \<^verbatim>\<open>01 FF\<close>.\<close>

lemma late_commit_differs:
  assumes "pebble_NewStorage listPebble ''db'' (Some (pebble_DefaultOptions listPebble)) = Inr ps"
  shows "pebbleServeAll listPebble 0 [ReqNewBatch, ReqClose, ReqBatchCommit 0 True] (ps, [], []) = [AnsNone, AnsClose None, AnsUnit (Inr ())]"
    and "memServeAll [ReqNewBatch, ReqClose, ReqBatchCommit 0 True] (NewStorage, [], []) = [AnsNone, AnsClose None, AnsUnit (Inl ErrStorageClosed)]"
  using assms
  by (auto simp: pebble_NewStorage_def pebble_DefaultOptions_def pebble_NewBatch_def pebble_addRef_def pebble_Close_def withMetrics_def
      pebbleBatch_close_def NewStorage_def NewStorageWithOptions_def DefaultOptions_def NewBatch_def addRef_def Storage_Close_def)

lemma wide_scan_differs:
  assumes "pebble_NewStorage listPebble ''db'' (Some (pebble_DefaultOptions listPebble)) = Inr ps"
    and o: "o' = Some \<lparr>LowerBound = None, UpperBound = None, Prefix = Some [1, 0xFF]\<rparr>"
  shows "pebbleServeAll listPebble 0 [ReqPut [2, 0] [7], ReqScan o' 1] (ps, [], []) = [AnsUnit (Inr ()), AnsList [([2, 0], Some [7])]]"
    and "memServeAll [ReqPut [2, 0] [7], ReqScan o' 1] (NewStorage, [], []) = [AnsUnit (Inr ()), AnsList []]"
proof -
  have "1 < (255 :: byte)" by (simp add: word_less_nat_alt)
  then have up: "prefixUpperBound [1, 0xFF] = Some [2, 0xFF]" by (simp add: prefixUpperBound_def go_copy_def numeral_2_eq_2)
  have items: "listItems [([2, 0], [7])] (Some [1, 0xFF]) (Some [2, 0xFF]) = [([2, 0], [7])]" by (simp add: listItems_def withinBounds_def)
  show "pebbleServeAll listPebble 0 [ReqPut [2, 0] [7], ReqScan o' 1] (ps, [], []) = [AnsUnit (Inr ()), AnsList [([2, 0], Some [7])]]"
    using assms(1) by (auto simp: o pebble_NewStorage_def pebble_DefaultOptions_def pebble_Put_def withMetrics_def pebble_NewIterator_def
        pebble_addRef_def iterBounds_def up items pebbleIter_First_def pebbleIter_Next_def)
  have "NewIterator (snd (Storage_Put NewStorage [2, 0] [7])) o' = (MemIterator \<lparr>it_keys = [], it_index = -1, it_data = [([2, 0], [7])], it_closed = False\<rparr>,
      (snd (Storage_Put NewStorage [2, 0] [7]))\<lparr>ms_refCount := 1, ms_openIterators := 1\<rparr>)"
    by (simp add: o NewIterator_def addRef_def Storage_Put_def NewStorage_def NewStorageWithOptions_def DefaultOptions_def applyBounds_def hasPrefix_def)
  then show "memServeAll [ReqPut [2, 0] [7], ReqScan o' 1] (NewStorage, [], []) = [AnsUnit (Inr ()), AnsList []]"
    by (simp add: Storage_Put_def NewStorage_def NewStorageWithOptions_def DefaultOptions_def scan_eq del: scan.simps)
qed


end
