(* ===== verification/ToyTree.thy ===== *)
theory ToyTree
  imports TreeRuns
begin

text \<open>
  The tree that the examples start from, and what it is after one \<open>Put\<close>, with the small hash function of theory \<open>ToyHash\<close>.
\<close>

definition toyTree :: Tree where
  "toyTree = \<lparr>t_db = NewStorage, t_latestVer = 0, t_rootHashes = [(0, EmptyHash)], t_config = DefaultTreeConfig,
     t_versionManager = NewVersionManager 0, t_stats = NewTreeStats\<rparr>"

lemma empty_NewStorage: "empty_store NewStorage"
  by (simp add: empty_store_def NewStorage_def NewStorageWithOptions_def DefaultOptions_def snapshots_free_def Let_def)

lemma NewTree_toyTree: "NewTree 0 NewStorage DefaultTreeConfig = Inr toyTree"
  using NewTree_empty [OF empty_NewStorage, of DefaultTreeConfig 0] by (simp add: DefaultTreeConfig_def toyTree_def)

lemma toyTree_rel: "tree_rel H spec_init toyTree"
  using NewTree_rel [OF empty_NewStorage _ NewTree_toyTree] by (simp add: DefaultTreeConfig_def)

lemma spec_Put_toy: "spec_Put toyKey toyValue spec_init =
   (Inr 1, spec_init\<lparr>sp_committed := [0 \<mapsto> Map.empty, 1 \<mapsto> toyMap], sp_latest := 1, sp_current := 1, sp_hist := [toyMap, Map.empty]\<rparr>)"
proof -
  have "(0 :: version) \<noteq> MaxVersion" by (simp add: MaxVersion_def)
  then show ?thesis by (simp add: spec_Put_def spec_init_def toyMap_def toyValue_def MaxValueSize_def Let_def)
qed

lemma toy_hash_ok_init: "hash_ok toyHash (sp_hist spec_init)"
  using hash_ok_mono [OF toy_hash_ok, of "[Map.empty]"] by (simp add: spec_init_def)

lemma toy_hash_ok_put: "hash_ok toyHash (sp_hist (snd (spec_Put toyKey toyValue spec_init)))"
  using toy_hash_ok by (simp add: spec_Put_toy)

lemma toy_put: "\<exists>t1. Tree_Put toyHash now toyKey toyValue toyTree = (Inr 1, t1)
    \<and> tree_rel toyHash (snd (spec_Put toyKey toyValue spec_init)) t1"
  using Put_refines [OF toyTree_rel wf_toyHash wf_toyKey toy_hash_ok_put, of now]
  by (cases "Tree_Put toyHash now toyKey toyValue toyTree") (simp add: spec_Put_toy)

lemma one_le_MaxVersion: "(1 :: version) \<le> MaxVersion"
  by code_simp

end
