(* ===== verification/CommandInput.thy ===== *)
theory CommandInput
  imports TreeHealth Crypto "HOL-Library.Sublist"
begin

text \<open>
  The input of the command line: \<^verbatim>\<open>cmd/pb/commands/security.go\<close>, the parsing of keys, and the entries of export
  and import files. A Go string is a list of bytes, here a \<open>string\<close>. What the commands use of Go's standard library
  comes first: hexadecimal strings, \<^verbatim>\<open>filepath.Clean\<close>, the line scanner of \<^verbatim>\<open>bufio\<close> and the functions of
  \<^verbatim>\<open>strings\<close>. Shown here: hexadecimal strings are read back; a path that \<open>validatePath\<close> accepts stays below the
  directory it starts from and outside the system directories; the validation mode of the import accepts the entries that
  the import can parse.
\<close>

section \<open>Strings and bytes\<close>

definition bytesOf :: "string \<Rightarrow> bytes" where
  "bytesOf s = map (\<lambda>c. word_of_nat (of_char c)) s"

definition stringOf :: "bytes \<Rightarrow> string" where
  "stringOf bs = map (\<lambda>b. char_of (unat b)) bs"

lemma byte_less: "unat (b :: byte) < 256"
  using unsigned_less [of b, where ?'a = nat] by simp

lemma stringOf_bytesOf [simp]: "stringOf (bytesOf s) = s"
  by (induction s) (simp_all add: stringOf_def bytesOf_def unat_of_nat)

lemma bytesOf_stringOf [simp]: "bytesOf (stringOf bs) = bs"
proof (induction bs)
  case (Cons b bs)
  with byte_less [of b] show ?case by (simp add: stringOf_def bytesOf_def)
qed (simp_all add: stringOf_def bytesOf_def)

lemma length_stringOf [simp]: "length (stringOf bs) = length bs" "length (bytesOf s) = length s"
  by (simp_all add: stringOf_def bytesOf_def)

section \<open>Hexadecimal strings\<close>

text \<open>\<^verbatim>\<open>encoding/hex\<close>.\<close>

definition EncodeToString :: "bytes \<Rightarrow> string" where
  "EncodeToString bs = concat (map (\<lambda>b. [digit (unat b div 16), digit (unat b mod 16)]) bs)"

definition fromHexChar :: "char \<Rightarrow> nat option" where
  "fromHexChar c =
     (let n = of_char c :: nat
      in if 48 \<le> n \<and> n \<le> 57 then Some (n - 48)
         else if 97 \<le> n \<and> n \<le> 102 then Some (n - 87)
         else if 65 \<le> n \<and> n \<le> 70 then Some (n - 55)
         else None)"

fun DecodeString :: "string \<Rightarrow> bytes result" where
  "DecodeString [] = Inr []"
| "DecodeString [p] =
     (case fromHexChar p of
        None \<Rightarrow> Inl (Errorf ''encoding/hex: invalid byte'')
      | Some _ \<Rightarrow> Inl (Errorf ''encoding/hex: odd length hex string''))"
| "DecodeString (p # q # s) =
     (case fromHexChar p of
        None \<Rightarrow> Inl (Errorf ''encoding/hex: invalid byte'')
      | Some a \<Rightarrow>
          (case fromHexChar q of
             None \<Rightarrow> Inl (Errorf ''encoding/hex: invalid byte'')
           | Some b \<Rightarrow> bindE (DecodeString s) (\<lambda>bs. Inr (word_of_nat (16 * a + b) # bs))))"

lemma fromHexChar_digit: "n < 16 \<Longrightarrow> fromHexChar (digit n) = Some n"
  by (auto simp: fromHexChar_def digit_def of_char_of Let_def)

lemma DecodeString_EncodeToString [simp]: "DecodeString (EncodeToString bs) = Inr bs"
proof (induction bs)
  case (Cons b bs)
  have "unat b div 16 < 16" "unat b mod 16 < 16" using byte_less [of b] by simp_all
  moreover have "(word_of_nat (16 * (unat b div 16) + unat b mod 16) :: byte) = b" by (simp only: mult_div_mod_eq) simp
  ultimately show ?case using Cons by (simp add: EncodeToString_def fromHexChar_digit)
qed (simp add: EncodeToString_def)

lemma length_EncodeToString [simp]: "length (EncodeToString bs) = 2 * length bs"
  by (induction bs) (simp_all add: EncodeToString_def)

lemma EncodeToString_Nil [simp]: "EncodeToString bs = [] \<longleftrightarrow> bs = []"
  using length_EncodeToString [of bs] by (metis length_0_conv mult_is_0 zero_neq_numeral)

lemma DecodeString_length: "DecodeString s = Inr bs \<Longrightarrow> length s = 2 * length bs"
  by (induction s arbitrary: bs rule: DecodeString.induct) (auto simp: bindE_eq_Inr split: option.splits)

lemma DecodeString_no_panic: "DecodeString s = Inl e \<Longrightarrow> \<not> is_panic e"
  by (induction s arbitrary: e rule: DecodeString.induct) (auto simp: bindE_def split: option.splits sum.splits)

section \<open>Paths\<close>

fun splitSlash :: "string \<Rightarrow> string list" where
  "splitSlash [] = [[]]"
| "splitSlash (c # s) =
     (if c = CHR ''/'' then [] # splitSlash s
      else (case splitSlash s of [] \<Rightarrow> [[c]] | x # xs \<Rightarrow> (c # x) # xs))"

fun joinSlash :: "string list \<Rightarrow> string" where
  "joinSlash [] = []"
| "joinSlash [x] = x"
| "joinSlash (x # y # xs) = x @ ''/'' @ joinSlash (y # xs)"

definition IsAbs :: "string \<Rightarrow> bool" where
  "IsAbs path = prefix ''/'' path"

text \<open>
  \<^verbatim>\<open>filepath.Clean\<close> on Unix: drop empty elements and \<^verbatim>\<open>.\<close>, let \<^verbatim>\<open>..\<close> remove the element before it, if that is not
  \<^verbatim>\<open>..\<close> itself, and drop a \<^verbatim>\<open>..\<close> at the root.
\<close>

definition cleanStep :: "bool \<Rightarrow> string list \<Rightarrow> string \<Rightarrow> string list" where
  "cleanStep rooted out c =
     (if c = [] \<or> c = ''.'' then out
      else if c = ''..'' then
        (if out \<noteq> [] \<and> last out \<noteq> ''..'' then butlast out else if rooted then out else out @ [''..''])
      else out @ [c])"

definition Clean :: "string \<Rightarrow> string" where
  "Clean path =
     (let rooted = IsAbs path; out = foldl (cleanStep rooted) [] (splitSlash path)
      in if rooted then ''/'' @ joinSlash out else if out = [] then ''.'' else joinSlash out)"

fun contains :: "string \<Rightarrow> string \<Rightarrow> bool" where
  "contains sub [] = (sub = [])"
| "contains sub (c # s) = (prefix sub (c # s) \<or> contains sub s)"

section \<open>Limits and checks\<close>

definition maxImportFileSize :: nat where
  "maxImportFileSize = 100 * 1024 * 1024"

definition maxBatchOperations :: nat where
  "maxBatchOperations = 10000"

definition sensitivePrefix :: "string list" where
  "sensitivePrefix = [''/etc'', ''/sys'', ''/proc'', ''/dev'', ''/boot'', ''/root'', ''/usr/bin'', ''/usr/sbin'', ''/bin'', ''/sbin'']"

definition validatePath :: "string \<Rightarrow> unit result" where
  "validatePath path =
     (let cleanPath = Clean path
      in if contains ''..'' cleanPath then Inl (Errorf ''invalid path: directory traversal detected'')
         else if IsAbs cleanPath \<and> list_ex (\<lambda>p. prefix p cleanPath) sensitivePrefix
         then Inl (Errorf ''invalid path: access to system directory denied'')
         else Inr ())"

text \<open>The size that \<^verbatim>\<open>os.Stat\<close> reports is an argument.\<close>

definition validateFileSize :: "nat result \<Rightarrow> nat \<Rightarrow> unit result" where
  "validateFileSize stat maxSize =
     (case stat of
        Inl err \<Rightarrow> Inl (wrapE ''failed to stat file'' err)
      | Inr sz \<Rightarrow> if sz > maxSize then Inl (Errorf ''file too large'') else Inr ())"

definition sanitizeKey :: "string \<Rightarrow> bool \<Rightarrow> string" where
  "sanitizeKey key hexKey =
     (if hexKey \<and> length key > 16 then take 8 key @ ''...'' @ drop (length key - 8) key
      else if length key > 32 then take 32 key @ ''...''
      else key)"

definition sanitizeValue :: "string \<Rightarrow> string" where
  "sanitizeValue val = (if length val > 64 then take 64 val @ ''...'' else val)"

definition validateKeySize :: "bytes \<Rightarrow> unit result" where
  "validateKeySize keyBytes = (if length keyBytes \<noteq> 32 then Inl (Errorf ''key must be exactly 32 bytes'') else Inr ())"

definition validateBatchSize :: "nat \<Rightarrow> unit result" where
  "validateBatchSize operations = (if operations > maxBatchOperations then Inl (Errorf ''too many batch operations'') else Inr ())"

text \<open>The key argument of a command, with and without \<^verbatim>\<open>--hex-key\<close>.\<close>

definition parseKey :: "bool \<Rightarrow> string \<Rightarrow> key result" where
  "parseKey hexKey keyStr =
     (if hexKey then
        (case DecodeString keyStr of
           Inl err \<Rightarrow> Inl (wrapE ''invalid hex key'' err)
         | Inr keyBytes \<Rightarrow>
             if length keyBytes \<noteq> 32 then Inl (Errorf ''key must be 32 bytes'') else Inr (go_copy emptyKey keyBytes))
      else Inr (KeyHash (bytesOf keyStr)))"

section \<open>Lines and words\<close>

text \<open>
  The white space of Unicode in UTF-8. No other encoding contains one of these byte sequences, so that they can be
  matched anywhere.
\<close>

definition spaces :: "string list" where
  "spaces = map (map char_of) ([[9], [10], [11], [12], [13], [32], [194, 133], [194, 160], [225, 154, 128]]
     @ map (\<lambda>n. [226, 128, n]) ([128..<139] @ [168, 169, 175]) @ [[226, 129, 159], [227, 128, 128 :: nat]])"

definition leadingSpace :: "string \<Rightarrow> nat" where
  "leadingSpace s = (case find (\<lambda>w. prefix w s) spaces of None \<Rightarrow> 0 | Some w \<Rightarrow> length w)"

function trimLeft :: "string \<Rightarrow> string" where
  "trimLeft s = (if s = [] \<or> leadingSpace s = 0 then s else trimLeft (drop (leadingSpace s) s))"
  by pat_completeness auto
termination by (relation "measure length") (auto simp: length_greater_0_conv)

function trimRight :: "string \<Rightarrow> string" where
  "trimRight s =
     (case find (\<lambda>w. suffix w s) spaces of
        None \<Rightarrow> s
      | Some w \<Rightarrow> if s = [] \<or> w = [] then s else trimRight (take (length s - length w) s))"
  by pat_completeness auto
termination by (relation "measure length") auto

definition TrimSpace :: "string \<Rightarrow> string" where
  "TrimSpace s = trimRight (trimLeft s)"

text \<open>\<^verbatim>\<open>strings.Fields\<close>: \<open>cur\<close> is the field read so far.\<close>

function fieldsFrom :: "string \<Rightarrow> string \<Rightarrow> string list" where
  "fieldsFrom cur s =
     (if s = [] then (if cur = [] then [] else [cur])
      else if leadingSpace s = 0 then fieldsFrom (cur @ [hd s]) (tl s)
      else (if cur = [] then [] else [cur]) @ fieldsFrom [] (drop (leadingSpace s) s))"
  by pat_completeness auto
termination by (relation "measure (\<lambda>(cur, s). length s)") (auto simp: length_greater_0_conv)

definition Fields :: "string \<Rightarrow> string list" where
  "Fields s = fieldsFrom [] s"

fun joinSpace :: "string list \<Rightarrow> string" where
  "joinSpace [] = []"
| "joinSpace [x] = x"
| "joinSpace (x # y # xs) = x @ '' '' @ joinSpace (y # xs)"

text \<open>
  \<^verbatim>\<open>strings.ToLower\<close>, of which only the comparison with ASCII words matters: besides the capital letters of ASCII the dotted
  capital I and the Kelvin sign have a lower case in ASCII.
\<close>

function ToLower :: "string \<Rightarrow> string" where
  "ToLower s =
     (if s = [] then []
      else if prefix [char_of (196 :: nat), char_of (176 :: nat)] s then CHR ''i'' # ToLower (drop 2 s)
      else if prefix [char_of (226 :: nat), char_of (132 :: nat), char_of (170 :: nat)] s then CHR ''k'' # ToLower (drop 3 s)
      else (let n = of_char (hd s) :: nat in (if 65 \<le> n \<and> n \<le> 90 then char_of (n + 32) else hd s)) # ToLower (tl s))"
  by pat_completeness auto
termination by (relation "measure length") auto

text \<open>
  The lines that a \<^verbatim>\<open>bufio.Scanner\<close> yields, without \<^verbatim>\<open>\n\<close> and a \<^verbatim>\<open>\r\<close> before it, and whether it stopped with
  \<^verbatim>\<open>ErrTooLong\<close>: a line of 64 KB does not fit the buffer.
\<close>

definition maxTokenSize :: nat where
  "maxTokenSize = 64 * 1024"

definition newline :: char where
  "newline = char_of (10 :: nat)"

fun rawLines :: "string \<Rightarrow> string list" where
  "rawLines [] = []"
| "rawLines (c # s) =
     (if c = newline then [] # rawLines s
      else (case rawLines s of [] \<Rightarrow> [[c]] | l # ls \<Rightarrow> (c # l) # ls))"

definition dropCR :: "string \<Rightarrow> string" where
  "dropCR l = (if l \<noteq> [] \<and> last l = char_of (13 :: nat) then butlast l else l)"

definition scanLines :: "string \<Rightarrow> string list \<times> bool" where
  "scanLines s =
     (let ls = rawLines s; ok = takeWhile (\<lambda>l. length l < maxTokenSize) ls
      in (map dropCR ok, length ok < length ls))"

text \<open>The number that \<^verbatim>\<open>fmt.Sscanf(s, "%d", &v)\<close> stores in an unsigned 64-bit variable; what follows it is ignored.\<close>

definition isDigit :: "char \<Rightarrow> bool" where
  "isDigit c = (let n = of_char c :: nat in 48 \<le> n \<and> n \<le> 57)"

definition decimalValue :: "string \<Rightarrow> nat" where
  "decimalValue s = foldl (\<lambda>a c. 10 * a + (of_char c - 48)) 0 s"

definition Sscanf_d :: "string \<Rightarrow> u64 result" where
  "Sscanf_d s =
     (let ds = takeWhile isDigit s
      in if ds = [] then Inl (Errorf ''expected integer'')
         else if decimalValue ds \<ge> 2 ^ 64 then Inl (Errorf ''value out of range'')
         else Inr (of_nat (decimalValue ds)))"

section \<open>Entries of export and batch files\<close>

record ExportEntry =
  ee_Key :: string
  ee_KeyHex :: string
  ee_Value :: string
  ee_ValueHex :: string

definition validateImportEntry :: "ExportEntry \<Rightarrow> unit result" where
  "validateImportEntry entry =
     (if ee_Key entry = [] then Inl (Errorf ''empty key'')
      else case (if length (ee_Key entry) = 64 then DecodeString (ee_Key entry) else Inr []) of
        Inl err \<Rightarrow> Inl (wrapE ''invalid hex key'' err)
      | Inr _ \<Rightarrow>
          (case (if ee_ValueHex entry \<noteq> [] then DecodeString (ee_ValueHex entry) else Inr []) of
             Inl err \<Rightarrow> Inl (wrapE ''invalid hex value'' err)
           | Inr _ \<Rightarrow> Inr ()))"

definition parseImportKey :: "string \<Rightarrow> key result" where
  "parseImportKey s =
     (if length s = 64 then
        (case DecodeString s of
           Inl err \<Rightarrow> Inl (wrapE ''failed to decode hex key'' err)
         | Inr keyBytes \<Rightarrow>
             if length keyBytes \<noteq> 32 then Inl (Errorf ''key must be 32 bytes'') else Inr (go_copy emptyKey keyBytes))
      else Inr (KeyHash (bytesOf s)))"

definition parseImportValue :: "ExportEntry \<Rightarrow> bytes result" where
  "parseImportValue entry =
     (if ee_ValueHex entry \<noteq> [] then
        (case DecodeString (ee_ValueHex entry) of
           Inl err \<Rightarrow> Inl (wrapE ''failed to decode hex value'' err)
         | Inr val \<Rightarrow> Inr val)
      else Inr (bytesOf (ee_Value entry)))"

definition parseImportEntry :: "ExportEntry \<Rightarrow> (key \<times> bytes) result" where
  "parseImportEntry entry =
     (if ee_Key entry = [] then Inl (Errorf ''empty key'')
      else bindE (parseImportKey (ee_Key entry)) (\<lambda>key. bindE (parseImportValue entry) (\<lambda>val. Inr (key, val))))"

record FileOperation =
  fo_Type :: string
  fo_Key :: string
  fo_Value :: string

definition validateOperation :: "FileOperation \<Rightarrow> unit result" where
  "validateOperation x =
     (if fo_Type x = ''put'' then
        (if fo_Key x = [] then Inl (Errorf ''missing key for put operation'')
         else if fo_Value x = [] then Inl (Errorf ''missing value for put operation'')
         else Inr ())
      else if fo_Type x = ''delete'' then
        (if fo_Key x = [] then Inl (Errorf ''missing key for delete operation'') else Inr ())
      else Inl (Errorf ''unknown operation type''))"

section \<open>Keys\<close>

lemma length_emptyKey [simp]: "length emptyKey = 32"
  by code_simp

lemma parseKey_hex: "wf_key k \<Longrightarrow> parseKey True (EncodeToString k) = Inr k"
  by (simp add: parseKey_def wf_key_def KeySize_def)

lemma parseKey_wf: "parseKey hex s = Inr k \<Longrightarrow> wf_key k"
  by (auto simp: parseKey_def wf_key_def KeySize_def KeyHash_wf [unfolded wf_key_def KeySize_def] split: if_splits sum.splits)

lemma parseImportKey_hex: "wf_key k \<Longrightarrow> parseImportKey (EncodeToString k) = Inr k"
  by (simp add: parseImportKey_def wf_key_def KeySize_def)

lemma parseImportKey_wf: "parseImportKey s = Inr k \<Longrightarrow> wf_key k"
  by (auto simp: parseImportKey_def wf_key_def KeySize_def KeyHash_wf [unfolded wf_key_def KeySize_def] split: if_splits sum.splits)

text \<open>The entries that the validation accepts are those that can be parsed.\<close>

lemma validate_parse: "validateImportEntry e = Inr () \<longleftrightarrow> is_ok (parseImportEntry e)"
  using DecodeString_length [of "ee_Key e"]
  by (auto simp: validateImportEntry_def parseImportEntry_def parseImportKey_def parseImportValue_def is_ok_iff bindE_eq_Inr split: sum.splits)

section \<open>Where an accepted path leads\<close>

text \<open>
  The directory in which the path with the elements \<open>cs\<close> ends, starting from the directory \<open>dir\<close>, without symbolic
  links. Directories are the lists of the names on the way from the root.
\<close>

fun walk :: "string list \<Rightarrow> string list \<Rightarrow> string list" where
  "walk dir [] = dir"
| "walk dir (c # cs) = walk (if c = [] \<or> c = ''.'' then dir else if c = ''..'' then butlast dir else dir @ [c]) cs"

definition resolve :: "string list \<Rightarrow> string \<Rightarrow> string list" where
  "resolve cwd path = walk (if IsAbs path then [] else cwd) (splitSlash path)"

definition systemDirs :: "string list list" where
  "systemDirs = [[''etc''], [''sys''], [''proc''], [''dev''], [''boot''], [''root''], [''usr'', ''bin''], [''usr'', ''sbin''], [''bin''], [''sbin'']]"

lemma sensitive_systemDirs: "sensitivePrefix = map (\<lambda>d. ''/'' @ joinSlash d) systemDirs"
  by code_simp

lemma dots_stay: "''..'' \<in> set out \<Longrightarrow> ''..'' \<in> set (cleanStep rooted out c)"
proof -
  assume dots: "''..'' \<in> set out"
  then have "out = butlast out @ [last out]" by (metis append_butlast_last_id list.set_cases not_Cons_self2 list.distinct(1))
  then have "''..'' \<in> set (butlast out)" if "last out \<noteq> ''..''" using dots that by (metis Un_iff empty_iff insert_iff list.set set_append)
  with dots show ?thesis by (auto simp: cleanStep_def)
qed

lemma dots_stay_fold: "''..'' \<in> set out \<Longrightarrow> ''..'' \<in> set (foldl (cleanStep rooted) out cs)"
  by (induction cs arbitrary: out) (auto intro: dots_stay)

lemma walk_relative:
  assumes "''..'' \<notin> set out" and "''..'' \<notin> set (foldl (cleanStep False) out cs)"
  shows "walk (cwd @ out) cs = cwd @ foldl (cleanStep False) out cs"
  using assms
proof (induction cs arbitrary: out)
  case (Cons c cs)
  have dots: "''..'' \<notin> set (cleanStep False out c)" using Cons.prems(2) dots_stay_fold by fastforce
  have "walk (cwd @ out) (c # cs) = walk (cwd @ cleanStep False out c) cs"
    using dots Cons.prems(1) by (auto simp: cleanStep_def butlast_append)
  with Cons.IH [OF dots] Cons.prems(2) show ?case by simp
qed simp

lemma walk_rooted:
  assumes "''..'' \<notin> set out"
  shows "walk out cs = foldl (cleanStep True) out cs"
  using assms
proof (induction cs arbitrary: out)
  case (Cons c cs)
  have "last out \<noteq> ''..''" if "out \<noteq> []" using last_in_set [OF that] Cons.prems by metis
  then have "cleanStep True out c = (if c = [] \<or> c = ''.'' then out else if c = ''..'' then butlast out else out @ [c])"
    by (cases "out = []") (simp_all add: cleanStep_def)
  moreover from this Cons.prems have "''..'' \<notin> set (cleanStep True out c)" by (auto dest: in_set_butlastD)
  ultimately show ?case using Cons.IH [of "cleanStep True out c"] by simp
qed simp

lemma contains_append: "contains sub t \<Longrightarrow> contains sub (s @ t)"
  by (induction s) auto

lemma contains_prefix: "prefix sub s \<Longrightarrow> contains sub s"
  by (cases s) auto

lemma contains_join: "x \<in> set xs \<Longrightarrow> contains x (joinSlash xs)"
proof (induction xs rule: joinSlash.induct)
  case (3 x' y xs)
  then show ?case using contains_append [of x "joinSlash (y # xs)" "x' @ ''/''"] contains_prefix [of x "x @ ''/'' @ joinSlash (y # xs)"] by auto
qed (auto intro: contains_prefix)

lemma prefix_join: "prefix (d # ds) xs \<Longrightarrow> prefix (joinSlash (d # ds)) (joinSlash xs)"
proof (induction ds arbitrary: d xs)
  case Nil
  then obtain ys where "xs = d # ys" by (cases xs) auto
  then show ?case by (cases ys) simp_all
next
  case (Cons e ds)
  then obtain zs where zs: "xs = d # zs" "prefix (e # ds) zs" by (cases xs) auto
  then obtain ys where "zs = e # ys" by (cases zs) auto
  with Cons.IH [OF zs(2)] zs(1) show ?case by simp
qed

lemma accepted_path:
  assumes "validatePath path = Inr ()"
  shows "\<not> IsAbs path \<Longrightarrow> prefix cwd (resolve cwd path)" and "IsAbs path \<Longrightarrow> d \<in> set systemDirs \<Longrightarrow> \<not> prefix d (resolve cwd path)"
proof -
  have ok: "\<not> contains ''..'' (Clean path)" "IsAbs (Clean path) \<Longrightarrow> p \<in> set sensitivePrefix \<Longrightarrow> \<not> prefix p (Clean path)" for p
    using assms by (auto simp: validatePath_def Let_def list_ex_iff split: if_splits)
  show "prefix cwd (resolve cwd path)" if rel: "\<not> IsAbs path"
  proof -
    let ?out = "foldl (cleanStep False) [] (splitSlash path)"
    have "''..'' \<notin> set ?out" using ok(1) contains_join [of "''..''" ?out] rel by (auto simp: Clean_def Let_def split: if_splits)
    with walk_relative [of "[]" "splitSlash path" cwd] rel show ?thesis by (simp add: resolve_def)
  qed
  show "\<not> prefix d (resolve cwd path)" if abs: "IsAbs path" and d: "d \<in> set systemDirs"
  proof
    let ?out = "foldl (cleanStep True) [] (splitSlash path)"
    assume "prefix d (resolve cwd path)"
    then have "prefix d ?out" using abs walk_rooted [of "[]"] by (simp add: resolve_def)
    moreover have "d \<noteq> []" using d by (auto simp: systemDirs_def)
    ultimately have "prefix (joinSlash d) (joinSlash ?out)" using prefix_join by (metis list.exhaust)
    moreover have "Clean path = ''/'' @ joinSlash ?out" using abs by (simp add: Clean_def)
    moreover have "''/'' @ joinSlash d \<in> set sensitivePrefix" using d by (simp add: sensitive_systemDirs)
    ultimately show False using ok(2) [of "''/'' @ joinSlash d"] by (simp add: IsAbs_def)
  qed
qed

section \<open>Properties\<close>

text \<open>
  C22: where an accepted path leads. If \<open>validatePath\<close> accepts a relative path, then following it element by element from
  any directory ends in that directory or below it; if it accepts an absolute path, then the path does not lead to a
  system directory or below one. (Symbolic links are not considered, neither by the code.)
\<close>

theorem validated_path_safe:
  assumes "validatePath path = Inr ()"
  shows "(\<not> IsAbs path \<longrightarrow> prefix cwd (resolve cwd path)) \<and> (IsAbs path \<longrightarrow> (\<forall>d \<in> set systemDirs. \<not> prefix d (resolve cwd path)))"
  using accepted_path [OF assms] by blast

theorem validated_path_safe_witness:
  "prefix [''home'', ''user''] (resolve [''home'', ''user''] ''a/../b//./c.json'')
    \<and> \<not> prefix [''usr'', ''bin''] (resolve [''home''] ''/tmp/../srv/x'') \<and> validatePath ''a/../../b'' \<noteq> Inr ()"
proof -
  have ok: "validatePath ''a/../b//./c.json'' = Inr ()" "validatePath ''/tmp/../srv/x'' = Inr ()" "validatePath ''a/../../b'' \<noteq> Inr ()" by code_simp+
  have abs: "\<not> IsAbs ''a/../b//./c.json''" "IsAbs ''/tmp/../srv/x''" by code_simp+
  have "[''usr'', ''bin''] \<in> set systemDirs" by code_simp
  then show ?thesis using validated_path_safe [OF ok(1), of "[''home'', ''user'']"] validated_path_safe [OF ok(2), of "[''home'']"] ok(3) abs by blast
qed

end
