(* ===== verification/Commands.thy ===== *)
theory Commands
  imports CommandInput BatchTransactions TreeReopen ProofGenerate ProofCodec
begin

text \<open>
  The commands of the program \<^verbatim>\<open>pb\<close>: \<^verbatim>\<open>cmd/pb/commands\<close>. Every command opens the database, does its work on a tree and
  closes the database again. The disk is a state of files and databases, by their cleaned paths; a database is the
  data of its storage, on which \<open>openDatabase\<close> opens the model of the storage. A command returns what it prints, or an
  error, and the disk. The time, the standard input, the refusals of the operating system and the JSON and CSV packages
  are arguments. Messages on the standard error output and the lines that \<^verbatim>\<open>--verbose\<close> prints before the result of an
  import are left out.
\<close>

section \<open>JSON values and files\<close>

datatype json =
    JNull
  | JBool bool
  | JNumber int
  | JString string
  | JArray "json list"
  | JObject "(string \<times> json) list"

record ExportData =
  ed_Version :: version
  ed_ExportTime :: string
  ed_RootHash :: string
  ed_EntryCount :: int
  ed_Entries :: "ExportEntry list"

text \<open>
  What the commands use of \<^verbatim>\<open>encoding/json\<close> and \<^verbatim>\<open>encoding/csv\<close>. \<open>csvRead\<close> gives the results of the calls of \<open>Read\<close>
  up to the end of the file.
\<close>

record Codecs =
  jsonMarshal :: "json \<Rightarrow> string"
  jsonUnmarshal :: "string \<Rightarrow> json result"
  encodeExport :: "ExportData \<Rightarrow> string"
  decodeExport :: "string \<Rightarrow> ExportData result"
  decodeBatch :: "string \<Rightarrow> FileOperation list result"
  csvWrite :: "string list list \<Rightarrow> string"
  csvRead :: "string \<Rightarrow> string list result list"

section \<open>The disk\<close>

record Disk =
  ds_files :: "(string, string) gomap"
  ds_dbs :: "(string, (bytes, bytes) gomap) gomap"
  ds_refuse :: "string \<Rightarrow> bool"
  ds_dirSize :: nat

definition os_Stat :: "Disk \<Rightarrow> string \<Rightarrow> nat result" where
  "os_Stat d path =
     (case gm_get (ds_files d) (Clean path) of
        Some s \<Rightarrow> Inr (length s)
      | None \<Rightarrow> if gm_get (ds_dbs d) (Clean path) \<noteq> None then Inr (ds_dirSize d) else Inl (Errorf ''no such file or directory''))"

definition os_Open :: "Disk \<Rightarrow> string \<Rightarrow> unit result" where
  "os_Open d path = bindE (os_Stat d path) (\<lambda>_. if ds_refuse d (Clean path) then Inl (Errorf ''permission denied'') else Inr ())"

definition io_ReadAll :: "Disk \<Rightarrow> string \<Rightarrow> string result" where
  "io_ReadAll d path = (case gm_get (ds_files d) (Clean path) of Some s \<Rightarrow> Inr s | None \<Rightarrow> Inl (Errorf ''is a directory''))"

definition os_ReadFile :: "Disk \<Rightarrow> string \<Rightarrow> string result" where
  "os_ReadFile d path = bindE (os_Open d path) (\<lambda>_. io_ReadAll d path)"

definition os_WriteFile :: "string \<Rightarrow> string \<Rightarrow> Disk \<Rightarrow> unit result \<times> Disk" where
  "os_WriteFile path s d =
     (if ds_refuse d (Clean path) then (Inl (Errorf ''permission denied''), d)
      else if gm_get (ds_dbs d) (Clean path) \<noteq> None then (Inl (Errorf ''is a directory''), d)
      else (Inr (), d\<lparr>ds_files := gm_put (Clean path) s (ds_files d)\<rparr>))"

section \<open>Flags\<close>

record Flags =
  dbPath :: string
  jsonOutput :: bool
  hexKey :: bool
  verboseMode :: bool
  fileValue :: string
  versionFlag :: "version option"
  outputFile :: string
  importFormat :: string
  skipErrors :: bool
  validateOnly :: bool
  dryRun :: bool
  keysFile :: string
  keysFormat :: string
  exportFormat :: string
  exportOutput :: string
  includeHex :: bool
  backend :: string

text \<open>\<open>versionFlag\<close> is \<open>None\<close> when the flag was not given. The defaults:\<close>

definition defaultFlags :: Flags where
  "defaultFlags = \<lparr>dbPath = ''./pb.db'', jsonOutput = False, hexKey = False, verboseMode = False, fileValue = [], versionFlag = None,
     outputFile = [], importFormat = ''json'', skipErrors = False, validateOnly = False, dryRun = False, keysFile = [],
     keysFormat = ''text'', exportFormat = ''json'', exportOutput = [], includeHex = False, backend = ''pebble''\<rparr>"

text \<open>The clock at the call, the formatted time and duration, and the standard input.\<close>

record Env =
  env_now :: int
  env_stamp :: string
  env_duration :: string
  env_stdin :: string

text \<open>What a command prints: a result by \<open>outputResult\<close>, the data of an export, or a message.\<close>

datatype Printed = OutputResult json | ExportText string | Message string "json list"

section \<open>Opening and closing\<close>

definition openDatabase :: "string \<Rightarrow> Disk \<Rightarrow> Storage result" where
  "openDatabase path d =
     (case os_Stat d path of
        Inl _ \<Rightarrow> Inl (Errorf ''database not found'')
      | Inr _ \<Rightarrow>
          if os_ReadFile d path = Inr ''memory'' then Inr NewStorage
          else (case gm_get (ds_dbs d) (Clean path) of
                  None \<Rightarrow> Inl (wrapE ''failed to open database'' (Errorf ''not a directory''))
                | Some data \<Rightarrow>
                    if ds_refuse d (Clean path) then Inl (wrapE ''failed to open database'' (Errorf ''permission denied''))
                    else Inr (NewStorage\<lparr>ms_data := data\<rparr>)))"

definition openTree :: "int \<Rightarrow> Storage \<Rightarrow> Tree result" where
  "openTree now store =
     (case NewTree now store DefaultTreeConfig of
        Inl err \<Rightarrow> Inl (wrapE ''failed to open tree'' err)
      | Inr t \<Rightarrow> Inr t)"

text \<open>\<^verbatim>\<open>store.Close()\<close>: the data of a database stays on the disk, the data of the memory backend is gone.\<close>

definition closeStore :: "string \<Rightarrow> Tree \<Rightarrow> Disk \<Rightarrow> Disk" where
  "closeStore path t d =
     (if gm_get (ds_dbs d) (Clean path) = None then d
      else d\<lparr>ds_dbs := gm_put (Clean path) (ms_data (t_db t)) (ds_dbs d)\<rparr>)"

definition runInit :: "Flags \<Rightarrow> Env \<Rightarrow> unit result \<Rightarrow> Disk \<Rightarrow> Printed list result \<times> Disk" where
  "runInit fl env mkdirAll d =
     (if is_ok (os_Stat d (dbPath fl)) then (Inl (Errorf ''database already exists''), d)
      else case mkdirAll of
        Inl err \<Rightarrow> (Inl (wrapE ''failed to create directory'' err), d)
      | Inr _ \<Rightarrow>
          if backend fl = ''pebble'' then
            (if ds_refuse d (Clean (dbPath fl)) then (Inl (wrapE ''failed to create pebble storage'' (Errorf ''permission denied'')), d)
             else let d1 = d\<lparr>ds_dbs := gm_put (Clean (dbPath fl)) [] (ds_dbs d)\<rparr>
                  in case NewTree (env_now env) NewStorage DefaultTreeConfig of
                       Inl err \<Rightarrow> (Inl (wrapE ''failed to initialize tree'' err), d1)
                     | Inr t \<Rightarrow>
                         (Inr [OutputResult (JObject [(''status'', JString ''success''), (''backend'', JString (backend fl)),
                            (''path'', JString (dbPath fl)), (''message'', JString ''Database initialized successfully'')])],
                          closeStore (dbPath fl) t d1))
          else if backend fl = ''memory'' then
            (case os_WriteFile (dbPath fl) ''memory'' d of
               (Inl err, d1) \<Rightarrow> (Inl (wrapE ''failed to create marker file'' err), d1)
             | (Inr _, d1) \<Rightarrow>
                 (Inr [OutputResult (JObject [(''status'', JString ''success''), (''backend'', JString ''memory''), (''path'', JString (dbPath fl)),
                    (''message'', JString ''Memory backend initialized (data will not persist)'')])], d1))
          else (Inl (Errorf ''unsupported backend''), d))"

section \<open>Put, get, delete and root\<close>

definition putValue :: "Flags \<Rightarrow> string list \<Rightarrow> Disk \<Rightarrow> bytes result" where
  "putValue fl args d =
     (if fileValue fl \<noteq> [] then
        (case validatePath (fileValue fl) of Inl err \<Rightarrow> Inl (wrapE ''invalid value file path'' err) | Inr _ \<Rightarrow>
         case validateFileSize (os_Stat d (fileValue fl)) maxImportFileSize of Inl err \<Rightarrow> Inl (wrapE ''value file too large'' err) | Inr _ \<Rightarrow>
         case os_Open d (fileValue fl) of Inl err \<Rightarrow> Inl (wrapE ''failed to open file'' err) | Inr _ \<Rightarrow>
         case io_ReadAll d (fileValue fl) of Inl err \<Rightarrow> Inl (wrapE ''failed to read file'' err) | Inr s \<Rightarrow> Inr (bytesOf s))
      else if length args > 1 then Inr (bytesOf (args ! 1))
      else Inl (Errorf ''value is required (provide as argument or use --file-value)''))"

definition putOutput :: "Flags \<Rightarrow> string \<Rightarrow> key \<Rightarrow> bytes \<Rightarrow> version \<Rightarrow> hash \<Rightarrow> Printed" where
  "putOutput fl keyStr key val version rootHash =
     OutputResult (JObject ([(''status'', JString ''success''), (''key'', JString keyStr), (''version'', JNumber (uint version)),
         (''root_hash'', JString (EncodeToString rootHash))]
       @ (if verboseMode fl
          then [(''key_hex'', JString (sanitizeKey (EncodeToString key) True)), (''value_size'', JNumber (int (length val))),
                (''value_preview'', JString (if length val \<le> 64 then stringOf val else sanitizeValue (stringOf val)))]
          else [])))"

definition runPut :: "(bytes \<Rightarrow> hash) \<Rightarrow> Flags \<Rightarrow> Env \<Rightarrow> string list \<Rightarrow> Disk \<Rightarrow> Printed list result \<times> Disk" where
  "runPut H fl env args d =
     (if length args < 1 then (Inl (Errorf ''key is required''), d)
      else case openDatabase (dbPath fl) d of Inl err \<Rightarrow> (Inl err, d) | Inr store \<Rightarrow>
      case parseKey (hexKey fl) (args ! 0) of Inl err \<Rightarrow> (Inl err, d) | Inr key \<Rightarrow>
      case putValue fl args d of Inl err \<Rightarrow> (Inl err, d) | Inr val \<Rightarrow>
      case openTree (env_now env) store of Inl err \<Rightarrow> (Inl err, d) | Inr tree \<Rightarrow>
      case Tree_Put H (env_now env) key val tree of
        (Inl err, t1) \<Rightarrow> (Inl (wrapE ''failed to put value'' err), closeStore (dbPath fl) t1 d)
      | (Inr version, t1) \<Rightarrow>
          (case GetRootHash t1 version of
             Inl err \<Rightarrow> (Inl (wrapE ''failed to get root hash'' err), closeStore (dbPath fl) t1 d)
           | Inr rootHash \<Rightarrow>
               (Inr [putOutput fl (args ! 0) key val version rootHash], closeStore (dbPath fl) t1 d)))"

definition theVersion :: "Flags \<Rightarrow> Tree \<Rightarrow> version" where
  "theVersion fl tree = (case versionFlag fl of None \<Rightarrow> GetLatestVersion tree | Some v \<Rightarrow> v)"

text \<open>The result of a read of the tree: \<open>Tree.Get\<close> reports a missing key as \<^verbatim>\<open>nil\<close>.\<close>

definition getOutput :: "Flags \<Rightarrow> string \<Rightarrow> key \<Rightarrow> version \<Rightarrow> bytes option result \<Rightarrow> Printed list result" where
  "getOutput fl keyStr key version r =
     (let notFound = OutputResult (JObject [(''status'', JString ''not_found''), (''key'', JString keyStr), (''version'', JNumber (uint version))])
      in case r of
           Inl err \<Rightarrow> if err = ErrKeyNotFound then Inr [notFound] else Inl (wrapE ''failed to get value'' err)
         | Inr None \<Rightarrow> Inr [notFound]
         | Inr (Some val) \<Rightarrow>
             Inr [OutputResult (JObject ([(''status'', JString ''found''), (''key'', JString keyStr), (''value'', JString (stringOf val)),
                 (''version'', JNumber (uint version))]
               @ (if verboseMode fl
                  then [(''key_hex'', JString (EncodeToString key)), (''value_hex'', JString (EncodeToString val)),
                        (''value_size'', JNumber (int (length val)))]
                  else [])))])"

definition runGet :: "(bytes \<Rightarrow> hash) \<Rightarrow> Flags \<Rightarrow> Env \<Rightarrow> string list \<Rightarrow> Disk \<Rightarrow> Printed list result \<times> Disk" where
  "runGet H fl env args d =
     (case openDatabase (dbPath fl) d of Inl err \<Rightarrow> (Inl err, d) | Inr store \<Rightarrow>
      case idx args 0 of Inl err \<Rightarrow> (Inl err, d) | Inr keyStr \<Rightarrow>
      case parseKey (hexKey fl) keyStr of Inl err \<Rightarrow> (Inl err, d) | Inr key \<Rightarrow>
      case openTree (env_now env) store of Inl err \<Rightarrow> (Inl err, d) | Inr tree \<Rightarrow>
      let (r, t1) = Tree_Get H tree (theVersion fl tree) key
      in (getOutput fl keyStr key (theVersion fl tree) r, closeStore (dbPath fl) t1 d))"

definition deleteOutput :: "Flags \<Rightarrow> string \<Rightarrow> key \<Rightarrow> version \<Rightarrow> hash \<Rightarrow> Printed" where
  "deleteOutput fl keyStr key version rootHash =
     OutputResult (JObject ([(''status'', JString ''success''), (''key'', JString keyStr), (''version'', JNumber (uint version)),
         (''root_hash'', JString (EncodeToString rootHash))]
       @ (if verboseMode fl then [(''key_hex'', JString (EncodeToString key))] else [])))"

definition runDelete :: "(bytes \<Rightarrow> hash) \<Rightarrow> Flags \<Rightarrow> Env \<Rightarrow> string list \<Rightarrow> Disk \<Rightarrow> Printed list result \<times> Disk" where
  "runDelete H fl env args d =
     (case openDatabase (dbPath fl) d of Inl err \<Rightarrow> (Inl err, d) | Inr store \<Rightarrow>
      case idx args 0 of Inl err \<Rightarrow> (Inl err, d) | Inr keyStr \<Rightarrow>
      case parseKey (hexKey fl) keyStr of Inl err \<Rightarrow> (Inl err, d) | Inr key \<Rightarrow>
      case openTree (env_now env) store of Inl err \<Rightarrow> (Inl err, d) | Inr tree \<Rightarrow>
      case Tree_Delete H (env_now env) key tree of
        (Inl err, t1) \<Rightarrow> (Inl (wrapE ''failed to delete key'' err), closeStore (dbPath fl) t1 d)
      | (Inr version, t1) \<Rightarrow>
          (case GetRootHash t1 version of
             Inl err \<Rightarrow> (Inl (wrapE ''failed to get root hash'' err), closeStore (dbPath fl) t1 d)
           | Inr rootHash \<Rightarrow> (Inr [deleteOutput fl keyStr key version rootHash], closeStore (dbPath fl) t1 d)))"

definition rootOutput :: "Flags \<Rightarrow> version \<Rightarrow> hash \<Rightarrow> int \<Rightarrow> int \<Rightarrow> Printed" where
  "rootOutput fl version rootHash height nodeCount =
     OutputResult (JObject ([(''version'', JNumber (uint version)), (''root_hash'', JString (EncodeToString rootHash))]
       @ (if verboseMode fl then [(''stats'', JObject [(''height'', JNumber height), (''node_count'', JNumber nodeCount)])] else [])))"

definition runRootHash :: "Flags \<Rightarrow> Env \<Rightarrow> Disk \<Rightarrow> Printed list result \<times> Disk" where
  "runRootHash fl env d =
     (case openDatabase (dbPath fl) d of Inl err \<Rightarrow> (Inl err, d) | Inr store \<Rightarrow>
      case openTree (env_now env) store of Inl err \<Rightarrow> (Inl err, d) | Inr tree \<Rightarrow>
      let version = theVersion fl tree
      in case GetRootHash tree version of
           Inl err \<Rightarrow> (Inl (wrapE ''failed to get root hash'' err), closeStore (dbPath fl) tree d)
         | Inr rootHash \<Rightarrow>
             (let (height, nodeCount, _) = GetStats tree
              in (Inr [rootOutput fl version rootHash height nodeCount], closeStore (dbPath fl) tree d)))"

section \<open>Batch files\<close>

text \<open>The loop that fills the transaction.\<close>

fun addOps :: "FileOperation list \<Rightarrow> BatchTransaction \<Rightarrow> unit result \<times> BatchTransaction" where
  "addOps [] bt = (Inr (), bt)"
| "addOps (x # xs) bt =
     (let key = KeyHash (bytesOf (fo_Key x));
          (r, bt1) = (if fo_Type x = ''put'' then BatchPut key (Some (bytesOf (fo_Value x))) bt
                      else if fo_Type x = ''delete'' then BatchDelete key bt else (Inr (), bt))
      in case r of Inl err \<Rightarrow> (Inl err, bt1) | Inr _ \<Rightarrow> addOps xs bt1)"

fun validateOps :: "FileOperation list \<Rightarrow> unit result" where
  "validateOps [] = Inr ()"
| "validateOps (x # xs) =
     (case validateOperation x of Inl err \<Rightarrow> Inl (wrapE ''invalid operation'' err) | Inr _ \<Rightarrow> validateOps xs)"

record BatchResult =
  br_SuccessfulOps :: nat
  br_FailedOps :: nat
  br_StartVersion :: version
  br_EndVersion :: version
  br_Errors :: "string list"
  br_Success :: bool

text \<open>The printed result; \<open>errors\<close> and \<open>operation_results\<close> are left out when empty.\<close>

definition batchOutput :: "Flags \<Rightarrow> Env \<Rightarrow> FileOperation list \<Rightarrow> bool \<Rightarrow> BatchResult \<Rightarrow> Printed" where
  "batchOutput fl env xs executed r =
     OutputResult (JObject ([(''total_operations'', JNumber (int (length xs))), (''successful_operations'', JNumber (int (br_SuccessfulOps r))),
         (''failed_operations'', JNumber (int (br_FailedOps r))), (''start_version'', JNumber (uint (br_StartVersion r))),
         (''end_version'', JNumber (uint (br_EndVersion r))), (''duration'', JString (env_duration env))]
       @ (if br_Errors r = [] then [] else [(''errors'', JArray (map JString (br_Errors r)))])
       @ (if verboseMode fl \<and> executed \<and> xs \<noteq> []
          then [(''operation_results'', JArray (map (\<lambda>(i, x). JObject ([(''index'', JNumber (int i)), (''type'', JString (fo_Type x)),
                  (''key'', JString (fo_Key x)), (''success'', JBool (br_Success r))]
                @ (if br_Success r then (if br_EndVersion r = 0 then [] else [(''version'', JNumber (uint (br_EndVersion r)))])
                   else [(''error'', JString ''batch execution failed'')]))) (enumerate 0 xs)))]
          else [])))"

definition readBatchFile :: "Codecs \<Rightarrow> string \<Rightarrow> Disk \<Rightarrow> FileOperation list result" where
  "readBatchFile C path d =
     (case validatePath path of Inl err \<Rightarrow> Inl (wrapE ''invalid batch file path'' err) | Inr _ \<Rightarrow>
      case validateFileSize (os_Stat d path) maxImportFileSize of Inl err \<Rightarrow> Inl err | Inr _ \<Rightarrow>
      case os_Open d path of Inl err \<Rightarrow> Inl (wrapE ''failed to open batch file'' err) | Inr _ \<Rightarrow>
      case io_ReadAll d path of Inl err \<Rightarrow> Inl (wrapE ''failed to read batch file'' err) | Inr data \<Rightarrow>
      case decodeBatch C data of Inl err \<Rightarrow> Inl (wrapE ''failed to parse batch file'' err) | Inr xs \<Rightarrow>
      if xs = [] then Inl (Errorf ''no operations found in batch file'')
      else case validateBatchSize (length xs) of Inl err \<Rightarrow> Inl err | Inr _ \<Rightarrow>
      case validateOps xs of Inl err \<Rightarrow> Inl err | Inr _ \<Rightarrow> Inr xs)"

definition failedBatch :: "FileOperation list \<Rightarrow> version \<Rightarrow> string \<Rightarrow> BatchResult" where
  "failedBatch xs startVersion msg = \<lparr>br_SuccessfulOps = 0, br_FailedOps = length xs, br_StartVersion = startVersion, br_EndVersion = 0,
     br_Errors = [msg], br_Success = False\<rparr>"

definition runBatch :: "Codecs \<Rightarrow> (bytes \<Rightarrow> hash) \<Rightarrow> Flags \<Rightarrow> Env \<Rightarrow> string list \<Rightarrow> Disk \<Rightarrow> Printed list result \<times> Disk" where
  "runBatch C H fl env args d =
     (case idx args 0 of Inl err \<Rightarrow> (Inl err, d) | Inr path \<Rightarrow>
      case readBatchFile C path d of Inl err \<Rightarrow> (Inl err, d) | Inr xs \<Rightarrow>
      if dryRun fl then
        (Inr [OutputResult (JObject [(''status'', JString ''dry_run''), (''valid'', JBool True), (''operation_count'', JNumber (int (length xs))),
           (''operations'', JArray (map (\<lambda>x. JObject [(''type'', JString (fo_Type x)), (''key'', JString (fo_Key x)),
              (''value'', JString (fo_Value x))]) xs))])], d)
      else
      case openDatabase (dbPath fl) d of Inl err \<Rightarrow> (Inl err, d) | Inr store \<Rightarrow>
      case openTree (env_now env) store of Inl err \<Rightarrow> (Inl err, d) | Inr tree \<Rightarrow>
      let startVersion = GetLatestVersion tree
      in case addOps xs NewBatchTransaction of
           (Inl err, bt) \<Rightarrow> (Inr [batchOutput fl env xs False (failedBatch xs startVersion ''validation failed'')], closeStore (dbPath fl) tree d)
         | (Inr _, bt) \<Rightarrow>
             (case Execute H (env_now env) bt tree of
                (Inl err, _, t1) \<Rightarrow>
                  (if is_panic err then Inl err else Inr [batchOutput fl env xs True (failedBatch xs startVersion ''batch execution failed'')],
                   closeStore (dbPath fl) t1 d)
              | (Inr version, _, t1) \<Rightarrow>
                  (Inr [batchOutput fl env xs True \<lparr>br_SuccessfulOps = length xs, br_FailedOps = 0, br_StartVersion = startVersion,
                     br_EndVersion = version, br_Errors = [], br_Success = True\<rparr>], closeStore (dbPath fl) t1 d)))"

section \<open>Import\<close>

text \<open>The records after the header of a CSV file; the first error ends the reading.\<close>

fun csvEntries :: "string list result list \<Rightarrow> ExportEntry list result" where
  "csvEntries [] = Inr []"
| "csvEntries (Inl err # rs) = Inl (wrapE ''failed to read CSV record'' err)"
| "csvEntries (Inr record # rs) =
     (if length record < 2 then Inl (Errorf ''invalid CSV record: expected at least 2 fields'')
      else bindE (csvEntries rs) (\<lambda>es. Inr (\<lparr>ee_Key = record ! 0, ee_KeyHex = [], ee_Value = record ! 1, ee_ValueHex = []\<rparr> # es)))"

definition csvImport :: "string list result list \<Rightarrow> ExportEntry list result" where
  "csvImport rs =
     (case rs of
        [] \<Rightarrow> Inl (wrapE ''failed to read CSV header'' (Errorf ''EOF''))
      | Inl err # _ \<Rightarrow> Inl (wrapE ''failed to read CSV header'' err)
      | Inr header # records \<Rightarrow>
          if length header < 2 \<or> header ! 0 \<noteq> ''key'' \<or> header ! 1 \<noteq> ''value'' then Inl (Errorf ''invalid CSV header'')
          else csvEntries records)"

definition parseImportFile :: "Codecs \<Rightarrow> string \<Rightarrow> string result \<Rightarrow> ExportEntry list result" where
  "parseImportFile C fmt text =
     (if fmt = ''json'' then
        (case bindE text (decodeExport C) of Inl err \<Rightarrow> Inl (wrapE ''failed to parse JSON'' err) | Inr data \<Rightarrow> Inr (ed_Entries data))
      else if fmt = ''csv'' then csvImport (case text of Inl err \<Rightarrow> [Inl err] | Inr s \<Rightarrow> csvRead C s)
      else Inl (Errorf ''unsupported format''))"

definition readImportFile :: "Codecs \<Rightarrow> Flags \<Rightarrow> string \<Rightarrow> Disk \<Rightarrow> ExportEntry list result" where
  "readImportFile C fl path d =
     (case validatePath path of Inl err \<Rightarrow> Inl (wrapE ''invalid import file path'' err) | Inr _ \<Rightarrow>
      case validateFileSize (os_Stat d path) maxImportFileSize of Inl err \<Rightarrow> Inl err | Inr _ \<Rightarrow>
      case os_Open d path of Inl err \<Rightarrow> Inl (wrapE ''failed to open import file'' err) | Inr _ \<Rightarrow>
      case parseImportFile C (importFormat fl) (io_ReadAll d path) of Inl err \<Rightarrow> Inl err | Inr entries \<Rightarrow>
      if entries = [] then Inl (Errorf ''no entries found in import file'')
      else case validateBatchSize (length entries) of Inl err \<Rightarrow> Inl err | Inr _ \<Rightarrow> Inr entries)"

text \<open>The loop that fills the transaction: the messages of the failed entries and the number of valid ones.\<close>

definition addEntry :: "ExportEntry \<Rightarrow> BatchTransaction \<Rightarrow> (string \<times> error) option \<times> BatchTransaction" where
  "addEntry e bt =
     (case parseImportEntry e of
        Inl err \<Rightarrow> (Some (''validation failed'', err), bt)
      | Inr (key, val) \<Rightarrow>
          (case BatchPut key (Some val) bt of
             (Inl err, bt1) \<Rightarrow> (Some (''failed to add to batch'', err), bt1)
           | (Inr _, bt1) \<Rightarrow> (None, bt1)))"

fun addEntries :: "bool \<Rightarrow> ExportEntry list \<Rightarrow> BatchTransaction \<Rightarrow> (string list \<times> nat) result \<times> BatchTransaction" where
  "addEntries skip [] bt = (Inr ([], 0), bt)"
| "addEntries skip (e # es) bt =
     (case addEntry e bt of
        (None, bt1) \<Rightarrow>
          (let (r, bt2) = addEntries skip es bt1 in (map_sum id (\<lambda>(msgs, valid). (msgs, Suc valid)) r, bt2))
      | (Some (msg, err), bt1) \<Rightarrow>
          if skip then (let (r, bt2) = addEntries skip es bt1 in (map_sum id (\<lambda>(msgs, valid). (msg # msgs, valid)) r, bt2))
          else (Inl (wrapE ''import failed'' err), bt1))"

definition importOutput :: "Env \<Rightarrow> nat \<Rightarrow> nat \<Rightarrow> string list \<Rightarrow> version \<Rightarrow> version \<Rightarrow> Printed" where
  "importOutput env entryCount successful msgs startVersion endVersion =
     OutputResult (JObject ([(''total_entries'', JNumber (int entryCount)), (''successful_imports'', JNumber (int successful)),
         (''failed_imports'', JNumber (int (length msgs))), (''start_version'', JNumber (uint startVersion)),
         (''end_version'', JNumber (uint endVersion)), (''duration'', JString (env_duration env))]
       @ (if msgs = [] then [] else [(''errors'', JArray (map JString msgs))])))"

definition runImport :: "Codecs \<Rightarrow> (bytes \<Rightarrow> hash) \<Rightarrow> Flags \<Rightarrow> Env \<Rightarrow> string list \<Rightarrow> Disk \<Rightarrow> Printed list result \<times> Disk" where
  "runImport C H fl env args d =
     (case idx args 0 of Inl err \<Rightarrow> (Inl err, d) | Inr path \<Rightarrow>
      case readImportFile C fl path d of Inl err \<Rightarrow> (Inl err, d) | Inr entries \<Rightarrow>
      if validateOnly fl then
        (let valid = length (filter (\<lambda>e. is_ok (validateImportEntry e)) entries)
         in (Inr [OutputResult (JObject [(''status'', JString ''validation_complete''), (''total_entries'', JNumber (int (length entries))),
              (''valid_entries'', JNumber (int valid)), (''invalid_entries'', JNumber (int (length entries - valid)))])], d))
      else
      case openDatabase (dbPath fl) d of Inl err \<Rightarrow> (Inl err, d) | Inr store \<Rightarrow>
      case openTree (env_now env) store of Inl err \<Rightarrow> (Inl err, d) | Inr tree \<Rightarrow>
      let startVersion = GetLatestVersion tree
      in case addEntries (skipErrors fl) entries NewBatchTransaction of
           (Inl err, bt) \<Rightarrow> (Inl err, closeStore (dbPath fl) tree d)
         | (Inr (msgs, valid), bt) \<Rightarrow>
             if Size bt > 0 then
               (case Execute H (env_now env) bt tree of
                  (Inl err, _, t1) \<Rightarrow> (Inl (wrapE ''import batch execution failed'' err), closeStore (dbPath fl) t1 d)
                | (Inr version, _, t1) \<Rightarrow>
                    (Inr [importOutput env (length entries) valid msgs startVersion version], closeStore (dbPath fl) t1 d))
             else (Inr [importOutput env (length entries) 0 msgs startVersion startVersion], closeStore (dbPath fl) tree d))"

section \<open>Export\<close>

text \<open>The lines with keys: neither empty nor comments.\<close>

definition keyLines :: "string list \<Rightarrow> string list" where
  "keyLines ls = filter (\<lambda>l. l \<noteq> [] \<and> \<not> prefix ''#'' l) (map TrimSpace ls)"

definition readKeys :: "Flags \<Rightarrow> Env \<Rightarrow> Disk \<Rightarrow> string list result" where
  "readKeys fl env d =
     (case (if keysFile fl = [] then Inr (Inr (env_stdin env))
            else (case validatePath (keysFile fl) of Inl err \<Rightarrow> Inl (wrapE ''invalid keys file path'' err) | Inr _ \<Rightarrow>
                  case os_Open d (keysFile fl) of Inl err \<Rightarrow> Inl (wrapE ''failed to open keys file'' err) | Inr _ \<Rightarrow>
                  Inr (io_ReadAll d (keysFile fl)))) of
        Inl err \<Rightarrow> Inl err
      | Inr (Inl err) \<Rightarrow> Inl (wrapE ''failed to read keys'' err)
      | Inr (Inr text) \<Rightarrow>
          let (ls, tooLong) = scanLines text; keys = keyLines ls
          in if tooLong then Inl (wrapE ''failed to read keys'' (Errorf ''bufio.Scanner: token too long''))
             else if keys = [] then Inl (Errorf ''no keys provided'') else Inr keys)"

definition exportEntry :: "bool \<Rightarrow> string \<Rightarrow> key \<Rightarrow> bytes \<Rightarrow> ExportEntry" where
  "exportEntry hex keyStr key val =
     \<lparr>ee_Key = keyStr, ee_KeyHex = (if hex then EncodeToString key else []), ee_Value = stringOf val,
      ee_ValueHex = (if hex then EncodeToString val else [])\<rparr>"

text \<open>The loop over the keys: the entries and the number of keys not found.\<close>

fun exportLoop :: "(bytes \<Rightarrow> hash) \<Rightarrow> Flags \<Rightarrow> version \<Rightarrow> string list \<Rightarrow> Tree \<Rightarrow> (ExportEntry list \<times> nat) result \<times> Tree" where
  "exportLoop H fl version [] t = (Inr ([], 0), t)"
| "exportLoop H fl version (keyStr # keys) t =
     (case parseKey (keysFormat fl = ''hex'') keyStr of
        Inl err \<Rightarrow> (Inl err, t)
      | Inr key \<Rightarrow>
          let (r, t1) = Tree_Get H t version key; (rest, t2) = exportLoop H fl version keys t1
          in case r of
               Inr (Some val) \<Rightarrow> (map_sum id (\<lambda>(es, n). (exportEntry (includeHex fl) keyStr key val # es, n)) rest, t2)
             | _ \<Rightarrow> (map_sum id (\<lambda>(es, n). (es, Suc n)) rest, t2))"

definition csvRows :: "bool \<Rightarrow> ExportEntry list \<Rightarrow> string list list" where
  "csvRows hex es = ([''key'', ''value''] @ (if hex then [''key_hex'', ''value_hex''] else []))
     # map (\<lambda>e. [ee_Key e, ee_Value e] @ (if hex then [ee_KeyHex e, ee_ValueHex e] else [])) es"

definition exportText :: "Codecs \<Rightarrow> Flags \<Rightarrow> Env \<Rightarrow> version \<Rightarrow> hash \<Rightarrow> ExportEntry list \<Rightarrow> string result" where
  "exportText C fl env version rootHash es =
     (if exportFormat fl = ''json'' then
        Inr (encodeExport C \<lparr>ed_Version = version, ed_ExportTime = env_stamp env, ed_RootHash = EncodeToString rootHash,
          ed_EntryCount = int (length es), ed_Entries = es\<rparr>)
      else if exportFormat fl = ''csv'' then Inr (csvWrite C (csvRows (includeHex fl) es))
      else Inl (Errorf ''unsupported format''))"

text \<open>
  The output file is created, empty, before the format is looked at. Encoding and writing succeed.
\<close>

definition writeExport :: "Flags \<Rightarrow> Env \<Rightarrow> version \<Rightarrow> nat \<Rightarrow> nat \<Rightarrow> nat \<Rightarrow> string result \<Rightarrow> Disk \<Rightarrow> Printed list result \<times> Disk" where
  "writeExport fl env version requested exported notFound text d =
     (if exportOutput fl = [] \<or> exportOutput fl = ''-'' then (map_sum id (\<lambda>s. [ExportText s]) text, d)
      else case validatePath (exportOutput fl) of Inl err \<Rightarrow> (Inl (wrapE ''invalid export file path'' err), d) | Inr _ \<Rightarrow>
      case os_WriteFile (exportOutput fl) [] d of (Inl err, d1) \<Rightarrow> (Inl (wrapE ''failed to create output file'' err), d1) | (Inr _, d1) \<Rightarrow>
      case text of Inl err \<Rightarrow> (Inl err, d1) | Inr s \<Rightarrow>
      (Inr (if jsonOutput fl
            then [OutputResult (JObject [(''status'', JString ''success''), (''requested'', JNumber (int requested)), (''exported'', JNumber (int exported)),
               (''not_found'', JNumber (int notFound)), (''version'', JNumber (uint version)), (''output_file'', JString (exportOutput fl)),
               (''duration'', JString (env_duration env))])]
            else Message ''Exported'' [JNumber (int exported), JNumber (int requested), JString (exportOutput fl), JString (env_duration env)]
              # (if notFound > 0 then [Message ''Keys not found'' [JNumber (int notFound)]] else [])),
       snd (os_WriteFile (exportOutput fl) s d1)))"

definition runExportKeys :: "Codecs \<Rightarrow> (bytes \<Rightarrow> hash) \<Rightarrow> Flags \<Rightarrow> Env \<Rightarrow> Disk \<Rightarrow> Printed list result \<times> Disk" where
  "runExportKeys C H fl env d =
     (case openDatabase (dbPath fl) d of Inl err \<Rightarrow> (Inl err, d) | Inr store \<Rightarrow>
      case openTree (env_now env) store of Inl err \<Rightarrow> (Inl err, d) | Inr tree \<Rightarrow>
      let version = theVersion fl tree
      in case GetRootHash tree version of Inl err \<Rightarrow> (Inl (wrapE ''failed to get root hash'' err), closeStore (dbPath fl) tree d) | Inr rootHash \<Rightarrow>
      case readKeys fl env d of Inl err \<Rightarrow> (Inl err, closeStore (dbPath fl) tree d) | Inr keys \<Rightarrow>
      case exportLoop H fl version keys tree of
        (Inl err, t1) \<Rightarrow> (Inl err, closeStore (dbPath fl) t1 d)
      | (Inr (es, notFound), t1) \<Rightarrow>
          (let (r, d1) = writeExport fl env version (length keys) (length es) notFound (exportText C fl env version rootHash es) d
           in (r, closeStore (dbPath fl) t1 d1)))"

section \<open>Proofs\<close>

definition proofTypeToString :: "ProofType \<Rightarrow> string" where
  "proofTypeToString pt =
     (if pt = ProofTypeInclusion then ''inclusion''
      else if pt = ProofTypeExclusionEmpty then ''exclusion_empty''
      else if pt = ProofTypeExclusionNeighbor then ''exclusion_neighbor''
      else ''unknown'')"

definition proofValue :: "Proof \<Rightarrow> bytes" where
  "proofValue p = (case pf_Value p of Some v \<Rightarrow> v | None \<Rightarrow> [])"

definition typeFields :: "Proof \<Rightarrow> (string \<times> json) list" where
  "typeFields p =
     (if pf_Type p = ProofTypeInclusion
      then [(''value'', JString (stringOf (proofValue p))), (''value_hex'', JString (EncodeToString (proofValue p)))]
      else if pf_Type p = ProofTypeExclusionNeighbor then
        (case pf_NeighborLeaf p of
           None \<Rightarrow> []
         | Some nb \<Rightarrow> [(''neighbor_key'', JString (EncodeToString (nb_Key nb))), (''neighbor_value_hash'', JString (EncodeToString (nb_ValueHash nb)))])
      else [])"

definition siblingJSON :: "SiblingData \<Rightarrow> json" where
  "siblingJSON s = JObject [(''depth'', JNumber (sb_Depth s)),
     (''children'', JObject (map (\<lambda>(n, h). (hexByte n, JString (EncodeToString h))) (sb_Children s)))]"

definition proofFields :: "string \<Rightarrow> key \<Rightarrow> Proof \<Rightarrow> (string \<times> json) list" where
  "proofFields keyStr key p =
     [(''key'', JString keyStr), (''key_hex'', JString (EncodeToString key)), (''version'', JNumber (uint (pf_Version p))),
      (''root_hash'', JString (EncodeToString (pf_RootHash p))), (''type'', JString (proofTypeToString (pf_Type p)))]
     @ typeFields p @ [(''siblings'', JArray (map siblingJSON (pf_Siblings p)))]"

definition proveAt :: "(bytes \<Rightarrow> hash) \<Rightarrow> version \<Rightarrow> key \<Rightarrow> Tree \<Rightarrow> Proof result \<times> Tree" where
  "proveAt H version key tree =
     (case Tree_Reader tree version of
        (Inl err, t1) \<Rightarrow> (Inl (wrapE ''failed to create reader'' err), t1)
      | (Inr reader, t1) \<Rightarrow>
          (case Generate (asTreeReaderInterface H reader) key of
             Inl err \<Rightarrow> (Inl (wrapE ''failed to generate proof'' err), snd (Reader_Close reader t1))
           | Inr p \<Rightarrow> (Inr p, snd (Reader_Close reader t1))))"

definition runProve :: "Codecs \<Rightarrow> (bytes \<Rightarrow> hash) \<Rightarrow> Flags \<Rightarrow> Env \<Rightarrow> string list \<Rightarrow> Disk \<Rightarrow> Printed list result \<times> Disk" where
  "runProve C H fl env args d =
     (case openDatabase (dbPath fl) d of Inl err \<Rightarrow> (Inl err, d) | Inr store \<Rightarrow>
      case idx args 0 of Inl err \<Rightarrow> (Inl err, d) | Inr keyStr \<Rightarrow>
      case parseKey (hexKey fl) keyStr of Inl err \<Rightarrow> (Inl err, d) | Inr key \<Rightarrow>
      case openTree (env_now env) store of Inl err \<Rightarrow> (Inl err, d) | Inr tree \<Rightarrow>
      case proveAt H (theVersion fl tree) key tree of
        (Inl err, t1) \<Rightarrow> (Inl err, closeStore (dbPath fl) t1 d)
      | (Inr p, t1) \<Rightarrow>
          let d1 = closeStore (dbPath fl) t1 d
          in case Encode p of
               Inl err \<Rightarrow> (Inl (wrapE ''failed to encode proof'' err), d1)
             | Inr encodedProof \<Rightarrow>
                 let proofData = JObject (proofFields keyStr key p @ [(''encoded'', JString (EncodeToString encodedProof))])
                 in if outputFile fl = [] then (Inr [OutputResult proofData], d1)
                    else case validatePath (outputFile fl) of
                           Inl err \<Rightarrow> (Inl (wrapE ''invalid proof output path'' err), d1)
                         | Inr _ \<Rightarrow>
                             (case os_WriteFile (outputFile fl) (jsonMarshal C proofData) d1 of
                                (Inl err, d2) \<Rightarrow> (Inl (wrapE ''failed to create output file'' err), d2)
                              | (Inr _, d2) \<Rightarrow>
                                  (Inr [OutputResult (JObject [(''status'', JString ''success''),
                                     (''message'', JString (''Proof written to '' @ outputFile fl))])], d2)))"

text \<open>An object of JSON read into a map, and its string under a name.\<close>

fun jsonFields :: "json \<Rightarrow> (string \<times> json) list result" where
  "jsonFields (JObject fs) = Inr fs"
| "jsonFields JNull = Inr []"
| "jsonFields _ = Inl (Errorf ''json: cannot unmarshal'')"

fun stringField :: "json option \<Rightarrow> string result" where
  "stringField (Some (JString s)) = Inr s"
| "stringField _ = Inl (Errorf ''missing or invalid encoded field in proof file'')"

definition readProofFile :: "Codecs \<Rightarrow> string \<Rightarrow> Disk \<Rightarrow> (string \<times> json) list result" where
  "readProofFile C proofFile d =
     (case validatePath proofFile of Inl err \<Rightarrow> Inl (wrapE ''invalid proof file path'' err) | Inr _ \<Rightarrow>
      case validateFileSize (os_Stat d proofFile) maxImportFileSize of Inl err \<Rightarrow> Inl (wrapE ''proof file too large'' err) | Inr _ \<Rightarrow>
      case os_Open d proofFile of Inl err \<Rightarrow> Inl (wrapE ''failed to open proof file'' err) | Inr _ \<Rightarrow>
      case io_ReadAll d proofFile of Inl err \<Rightarrow> Inl (wrapE ''failed to read proof file'' err) | Inr data \<Rightarrow>
      case bindE (jsonUnmarshal C data) jsonFields of Inl err \<Rightarrow> Inl (wrapE ''failed to parse proof file'' err) | Inr fs \<Rightarrow> Inr fs)"

definition decodeProofFile :: "(string \<times> json) list \<Rightarrow> Proof result" where
  "decodeProofFile proofData =
     bindE (stringField (map_of proofData ''encoded'')) (\<lambda>encodedStr.
       case bindE (DecodeString encodedStr) Decode of Inl err \<Rightarrow> Inl (wrapE ''failed to decode proof'' err) | Inr p \<Rightarrow> Inr p)"

definition verdict :: "Flags \<Rightarrow> json \<Rightarrow> Proof \<Rightarrow> bool \<Rightarrow> Printed" where
  "verdict fl key p valid =
     OutputResult (JObject ([(''key'', key), (''version'', JNumber (uint (pf_Version p))),
         (''root_hash'', JString (EncodeToString (pf_RootHash p))), (''type'', JString (proofTypeToString (pf_Type p)))]
       @ (if valid
          then [(''status'', JString ''valid''), (''message'', JString ''Proof is valid'')]
            @ (if pf_Type p = ProofTypeInclusion
               then (''value'', JString (stringOf (proofValue p)))
                 # (if verboseMode fl then [(''value_hex'', JString (EncodeToString (proofValue p)))] else [])
               else [])
          else [(''status'', JString ''invalid''), (''message'', JString ''Proof is invalid'')])))"

definition runVerify :: "Codecs \<Rightarrow> (bytes \<Rightarrow> hash) \<Rightarrow> Flags \<Rightarrow> string list \<Rightarrow> Disk \<Rightarrow> Printed list result" where
  "runVerify C H fl args d =
     bindE (idx args 0) (\<lambda>proofFile.
     bindE (readProofFile C proofFile d) (\<lambda>proofData.
     bindE (decodeProofFile proofData) (\<lambda>p.
       let key = (case map_of proofData ''key'' of None \<Rightarrow> JNull | Some j \<Rightarrow> j)
       in case Verify H p of
            Inr _ \<Rightarrow> Inr [verdict fl key p True]
          | Inl err \<Rightarrow> if is_panic err then Inl err else Inr [verdict fl key p False])))"

end
