(* ===== verification/CommandSessions.thy ===== *)
theory CommandSessions
  imports Commands ToyTree
begin

text \<open>
  What the commands do to a database, one after the other. Every command opens the database anew, so that a session of
  commands is a session of trees over the same data. \<open>db_rel\<close> relates a versioned map to the database on the disk. Shown
  here: the commands print what the versioned map says; an exported file imports to the exported contents; a proof
  that is written to a file verifies.
\<close>

section \<open>The storage behind a tree\<close>

text \<open>Another open storage with the same data does not change what a tree is.\<close>

lemma loadNode_data:
  "\<not> ms_closing db \<Longrightarrow> \<not> ms_closing db' \<Longrightarrow> ms_data db' = ms_data db \<Longrightarrow> loadNodeFromStorage db' = loadNodeFromStorage db"
  by (simp add: loadNodeFromStorage_def Storage_Get_def fun_eq_iff)

lemma change_store:
  assumes rel: "tree_rel H sp t" and dur: "durable t"
    and db: "ms_data db = ms_data (t_db t)" "\<not> ms_closing db" "snapshots_free db" "iterators_free db"
  shows "tree_rel H sp (t\<lparr>t_db := db\<rparr>) \<and> durable (t\<lparr>t_db := db\<rparr>)"
proof -
  have "\<not> ms_closing (t_db t)" using tree_relD(5) [OF rel] by (simp add: store_ok_def)
  then have load: "loadNodeFromStorage db = loadNodeFromStorage (t_db t)" using db by (intro loadNode_data)
  have "tree_rel H sp (t\<lparr>t_db := db\<rparr>)"
    using rel db load by (simp add: tree_rel_def store_ok_def values_ok_def unwritten_def versions_rel_def pending_rel_def)
  moreover have "durable (t\<lparr>t_db := db\<rparr>)" using dur db by (simp add: durable_def)
  ultimately show ?thesis ..
qed

lemma loadRoots_stats: "t_stats (snd (loadRoots now kvs t)) = t_stats t"
  by (induction now kvs t rule: loadRoots.induct) (auto simp: Let_def split: sum.split)

lemma NewTree_stats: "NewTree now db cfg = Inr t \<Longrightarrow> t_stats t = NewTreeStats"
  using loadRoots_stats [of now "scan (fst (NewIterator db rootOptions))"
      "\<lparr>t_db = closeIterator (fst (NewIterator db rootOptions)) (snd (NewIterator db rootOptions)), t_latestVer = 0, t_rootHashes = [],
        t_config = cfg, t_versionManager = NewVersionManager now, t_stats = NewTreeStats\<rparr>"]
  by (auto simp: NewTree_def loadRootHashes_def Let_def case_prod_unfold split: if_splits sum.splits)

lemma loadRoots_db: "t_db (snd (loadRoots now kvs t)) = t_db t"
  by (induction now kvs t rule: loadRoots.induct) (auto simp: Let_def split: sum.split)

lemma iterator_data: "ms_data (closeIterator (fst (NewIterator db opts)) (snd (NewIterator db opts))) = ms_data db"
  by (auto simp: NewIterator_def addRef_def releaseRef_def Iterator_Close_def Let_def)

lemma NewTree_data: "NewTree now db cfg = Inr t \<Longrightarrow> ms_data (t_db t) = ms_data db"
  using loadRoots_db [of now "scan (fst (NewIterator db rootOptions))"
      "\<lparr>t_db = closeIterator (fst (NewIterator db rootOptions)) (snd (NewIterator db rootOptions)), t_latestVer = 0, t_rootHashes = [],
        t_config = cfg, t_versionManager = NewVersionManager now, t_stats = NewTreeStats\<rparr>"] iterator_data [of db rootOptions]
  by (auto simp: NewTree_def loadRootHashes_def Let_def case_prod_unfold split: if_splits sum.splits)

lemma openTree_stats: "openTree now db = Inr t \<Longrightarrow> GetStats t = (0, 0, 0)"
  by (auto simp: openTree_def GetStats_def NewTreeStats_def dest!: NewTree_stats split: sum.splits)

section \<open>Databases\<close>

definition db_rel :: "(bytes \<Rightarrow> hash) \<Rightarrow> spec \<Rightarrow> string \<Rightarrow> Disk \<Rightarrow> bool" where
  "db_rel H sp path d \<longleftrightarrow> gm_get (ds_files d) (Clean path) = None \<and> \<not> ds_refuse d (Clean path)
     \<and> (\<exists>t. gm_get (ds_dbs d) (Clean path) = Some (ms_data (t_db t)) \<and> tree_rel H sp t \<and> durable t)"

lemma fresh_NewStorage:
  "\<not> ms_closing (NewStorage\<lparr>ms_data := x\<rparr>)" "snapshots_free (NewStorage\<lparr>ms_data := x\<rparr>)" "iterators_free (NewStorage\<lparr>ms_data := x\<rparr>)"
  by (simp_all add: NewStorage_def NewStorageWithOptions_def DefaultOptions_def Let_def snapshots_free_def iterators_free_def)

lemma open_rel:
  assumes "db_rel H sp path d" and H: "\<And>x. wf_hash (H x)"
  shows "\<exists>store t. openDatabase path d = Inr store \<and> openTree now store = Inr t \<and> tree_rel H (spec_reopen sp) t \<and> durable t
    \<and> GetStats t = (0, 0, 0)"
proof -
  obtain t where t: "gm_get (ds_files d) (Clean path) = None" "\<not> ds_refuse d (Clean path)" "gm_get (ds_dbs d) (Clean path) = Some (ms_data (t_db t))"
    "tree_rel H sp t" "durable t" using assms(1) unfolding db_rel_def by blast
  let ?db = "NewStorage\<lparr>ms_data := ms_data (t_db t)\<rparr>"
  have rel: "tree_rel H sp (t\<lparr>t_db := ?db\<rparr>)" "durable (t\<lparr>t_db := ?db\<rparr>)"
    using change_store [OF t(4,5), of ?db] fresh_NewStorage by simp_all
  obtain t' where "NewTree now ?db DefaultTreeConfig = Inr t'" "tree_rel H (spec_reopen sp) t'" "durable t'"
    using reopen_rel [OF rel H, of DefaultTreeConfig now] by (auto simp: DefaultTreeConfig_def)
  moreover have "openDatabase path d = Inr ?db"
    using t(1-3) by (simp add: openDatabase_def os_Stat_def os_ReadFile_def io_ReadAll_def os_Open_def)
  ultimately show ?thesis using openTree_stats [of now ?db t'] by (simp add: openTree_def)
qed

lemma reopened_db:
  assumes "db_rel H sp path d" and H: "\<And>x. wf_hash (H x)"
  shows "db_rel H (spec_reopen sp) path d"
proof -
  obtain t where t: "gm_get (ds_dbs d) (Clean path) = Some (ms_data (t_db t))" "tree_rel H sp t" "durable t"
    using assms(1) unfolding db_rel_def by blast
  obtain t' where "NewTree 0 (t_db t) DefaultTreeConfig = Inr t'" "tree_rel H (spec_reopen sp) t'" "durable t'"
    using reopen_rel [OF t(2,3) H, of DefaultTreeConfig 0] by (auto simp: DefaultTreeConfig_def)
  moreover from this have "ms_data (t_db t') = ms_data (t_db t)" by (blast dest: NewTree_data)
  ultimately show ?thesis using assms(1) t(1) unfolding db_rel_def by metis
qed

lemma close_rel:
  assumes "db_rel H sp path d" and "tree_rel H sp' t" and "durable t"
  shows "db_rel H sp' path (closeStore path t d)"
  using assms unfolding db_rel_def closeStore_def by auto

lemma spec_reopen_idem [simp]: "spec_reopen (spec_reopen sp) = spec_reopen sp"
  by (auto simp: spec_reopen_def)

lemma sp_hist_reopen [simp]: "sp_hist (spec_reopen sp) = sp_hist sp"
  by (simp add: spec_reopen_def)

text \<open>What the specification knows of the database is what the next command sees.\<close>

lemma init_rel:
  assumes "backend fl = ''pebble''" and "\<not> is_ok (os_Stat d (dbPath fl))" and "\<not> ds_refuse d (Clean (dbPath fl))"
  shows "\<exists>d' out. runInit fl env (Inr ()) d = (Inr out, d') \<and> db_rel H spec_init (dbPath fl) d' \<and> ds_files d' = ds_files d"
proof -
  have e: "empty_store NewStorage" "0 < cf_CacheSize DefaultTreeConfig"
    by (simp_all add: empty_store_def NewStorage_def NewStorageWithOptions_def DefaultOptions_def Let_def snapshots_free_def DefaultTreeConfig_def)
  note new = NewTree_empty [OF e, of "env_now env"]
  let ?t = "\<lparr>t_db = NewStorage, t_latestVer = 0, t_rootHashes = [(0, EmptyHash)], t_config = DefaultTreeConfig,
    t_versionManager = NewVersionManager (env_now env), t_stats = NewTreeStats\<rparr>"
  have rel: "tree_rel H spec_init ?t" "durable ?t" using NewTree_rel [OF e new] durable_new [OF e new] .
  have none: "gm_get (ds_files d) (Clean (dbPath fl)) = None"
    using assms(2) by (auto simp: os_Stat_def is_ok_def split: option.splits)
  show ?thesis using assms new none rel
    by (auto simp: runInit_def closeStore_def db_rel_def Let_def intro!: exI [where x = ?t])
qed

section \<open>Sessions\<close>

datatype command =
    PutCmd Flags Env "string list"
  | GetCmd Flags Env "string list"
  | DeleteCmd Flags Env "string list"
  | RootCmd Flags Env

fun runCommand :: "(bytes \<Rightarrow> hash) \<Rightarrow> command \<Rightarrow> Disk \<Rightarrow> Printed list result \<times> Disk" where
  "runCommand H (PutCmd fl env args) d = runPut H fl env args d"
| "runCommand H (GetCmd fl env args) d = runGet H fl env args d"
| "runCommand H (DeleteCmd fl env args) d = runDelete H fl env args d"
| "runCommand H (RootCmd fl env) d = runRootHash fl env d"

fun session :: "(bytes \<Rightarrow> hash) \<Rightarrow> command list \<Rightarrow> Disk \<Rightarrow> Printed list result list \<times> Disk" where
  "session H [] d = ([], d)"
| "session H (c # cs) d = (let (r, d1) = runCommand H c d; (rs, d2) = session H cs d1 in (r # rs, d2))"

text \<open>
  What a command prints according to the versioned map. The files that it reads are those of the disk; the statistics
  are always 0, because the tree of the command was just opened.
\<close>

definition rootAt :: "(bytes \<Rightarrow> hash) \<Rightarrow> spec \<Rightarrow> version \<Rightarrow> hash result" where
  "rootAt H sp v = (case sp_committed sp v of None \<Rightarrow> Inl ErrVersionNotFound | Some m \<Rightarrow> Inr (merkle_root H (hashed H m)))"

definition specVersion :: "Flags \<Rightarrow> spec \<Rightarrow> version" where
  "specVersion fl sp = (case versionFlag fl of None \<Rightarrow> sp_current sp | Some v \<Rightarrow> v)"

definition updated :: "(bytes \<Rightarrow> hash) \<Rightarrow> string \<Rightarrow> (version \<Rightarrow> hash \<Rightarrow> Printed) \<Rightarrow> version result \<times> spec \<Rightarrow> Printed list result \<times> spec" where
  "updated H msg out r =
     (case r of
        (Inl err, sp1) \<Rightarrow> (Inl (wrapE msg err), sp1)
      | (Inr v, sp1) \<Rightarrow>
          (case rootAt H sp1 v of
             Inl err \<Rightarrow> (Inl (wrapE ''failed to get root hash'' err), sp1)
           | Inr rootHash \<Rightarrow> (Inr [out v rootHash], sp1)))"

fun specCommand :: "(bytes \<Rightarrow> hash) \<Rightarrow> Disk \<Rightarrow> command \<Rightarrow> spec \<Rightarrow> Printed list result \<times> spec" where
  "specCommand H d (PutCmd fl env args) sp =
     (if args = [] then (Inl (Errorf ''key is required''), sp)
      else case parseKey (hexKey fl) (args ! 0) of Inl err \<Rightarrow> (Inl err, sp) | Inr key \<Rightarrow>
      case putValue fl args d of Inl err \<Rightarrow> (Inl err, sp) | Inr val \<Rightarrow>
      updated H ''failed to put value'' (putOutput fl (args ! 0) key val) (spec_Put key val sp))"
| "specCommand H d (GetCmd fl env args) sp =
     (case idx args 0 of Inl err \<Rightarrow> (Inl err, sp) | Inr keyStr \<Rightarrow>
      case parseKey (hexKey fl) keyStr of Inl err \<Rightarrow> (Inl err, sp) | Inr key \<Rightarrow>
      (getOutput fl keyStr key (specVersion fl sp) (spec_get (specVersion fl sp) key sp), sp))"
| "specCommand H d (DeleteCmd fl env args) sp =
     (case idx args 0 of Inl err \<Rightarrow> (Inl err, sp) | Inr keyStr \<Rightarrow>
      case parseKey (hexKey fl) keyStr of Inl err \<Rightarrow> (Inl err, sp) | Inr key \<Rightarrow>
      updated H ''failed to delete key'' (deleteOutput fl keyStr key) (spec_Delete key sp))"
| "specCommand H d (RootCmd fl env) sp =
     (case rootAt H sp (specVersion fl sp) of
        Inl err \<Rightarrow> (Inl (wrapE ''failed to get root hash'' err), sp)
      | Inr rootHash \<Rightarrow> (Inr [rootOutput fl (specVersion fl sp) rootHash 0 0], sp))"

fun specSession :: "(bytes \<Rightarrow> hash) \<Rightarrow> Disk \<Rightarrow> command list \<Rightarrow> spec \<Rightarrow> Printed list result list \<times> spec" where
  "specSession H d [] sp = ([], sp)"
| "specSession H d (c # cs) sp =
     (let (r, sp1) = specCommand H d c (spec_reopen sp); (rs, sp2) = specSession H d cs sp1 in (r # rs, sp2))"

text \<open>All commands are on one database; a key that is deleted, if it is present, shares its first 63 nibbles with no other key.\<close>

fun on_db :: "string \<Rightarrow> command \<Rightarrow> bool" where
  "on_db path (PutCmd fl env args) = (dbPath fl = path)"
| "on_db path (GetCmd fl env args) = (dbPath fl = path)"
| "on_db path (DeleteCmd fl env args) = (dbPath fl = path)"
| "on_db path (RootCmd fl env) = (dbPath fl = path)"

fun command_ok :: "command \<Rightarrow> spec \<Rightarrow> bool" where
  "command_ok (DeleteCmd fl env args) sp =
     (case (args, sp_committed sp (sp_current sp)) of
        (s # _, Some m) \<Rightarrow> (case parseKey (hexKey fl) s of Inl _ \<Rightarrow> True | Inr k \<Rightarrow> twinless m k)
      | _ \<Rightarrow> True)"
| "command_ok _ sp = True"

fun session_ok :: "(bytes \<Rightarrow> hash) \<Rightarrow> string \<Rightarrow> Disk \<Rightarrow> command list \<Rightarrow> spec \<Rightarrow> bool" where
  "session_ok H path d [] sp = True"
| "session_ok H path d (c # cs) sp =
     (on_db path c \<and> command_ok c (spec_reopen sp) \<and> session_ok H path d cs (snd (specCommand H d c (spec_reopen sp))))"

text \<open>The files that the commands read do not change.\<close>

definition same_files :: "Disk \<Rightarrow> Disk \<Rightarrow> bool" where
  "same_files d d' \<longleftrightarrow> os_Stat d' = os_Stat d \<and> os_Open d' = os_Open d \<and> io_ReadAll d' = io_ReadAll d"

lemma same_files_close: "same_files d (closeStore path t d)"
  by (auto simp: same_files_def closeStore_def os_Stat_def os_Open_def io_ReadAll_def fun_eq_iff split: option.split)

lemma same_files_trans: "same_files d d' \<Longrightarrow> same_files d' d'' \<Longrightarrow> same_files d d''"
  by (simp add: same_files_def)

lemma same_files_refl [simp]: "same_files d d"
  by (simp add: same_files_def)

lemma putValue_same: "same_files d d' \<Longrightarrow> putValue fl args d' = putValue fl args d"
  by (simp add: same_files_def putValue_def cong: sum.case_cong)

lemma specCommand_same: "same_files d d' \<Longrightarrow> specCommand H d' c sp = specCommand H d c sp"
  by (cases c) (simp_all add: putValue_same cong: sum.case_cong)

lemma GetRootHash_rootAt: "tree_rel H sp t \<Longrightarrow> GetRootHash t v = rootAt H sp v"
  using rel_root [of H sp t v] by (simp add: GetRootHash_def rootAt_def split: option.split)

lemma theVersion_rel: "tree_rel H sp t \<Longrightarrow> theVersion fl t = specVersion fl sp"
  using tree_relD(4) [of H sp t] by (simp add: theVersion_def specVersion_def GetLatestVersion_def split: option.split)

lemma hist_mono_Put: "set (sp_hist sp) \<subseteq> set (sp_hist (snd (spec_Put k v sp)))"
  and hist_mono_Delete: "set (sp_hist sp) \<subseteq> set (sp_hist (snd (spec_Delete k sp)))"
  by (auto simp: spec_Put_def spec_Delete_def Let_def)

lemma snd_updated [simp]: "snd (updated H msg out r) = snd r"
  by (auto simp: updated_def split: prod.split sum.split)

lemma hist_mono_command: "set (sp_hist sp) \<subseteq> set (sp_hist (snd (specCommand H d c (spec_reopen sp))))"
  using hist_mono_Put [of "spec_reopen sp"] hist_mono_Delete [of "spec_reopen sp"]
  by (cases c) (auto split: sum.split)

lemma hist_mono_session: "set (sp_hist sp) \<subseteq> set (sp_hist (snd (specSession H d cs sp)))"
proof (induction cs arbitrary: sp)
  case (Cons c cs)
  from hist_mono_command [of sp H d c] Cons [of "snd (specCommand H d c (spec_reopen sp))"] show ?case
    by (auto simp: Let_def case_prod_unfold)
qed simp

text \<open>One command.\<close>

lemma idx_0: "idx args 0 = Inr s \<longleftrightarrow> (\<exists>rest. args = s # rest)" "idx args 0 = Inl err \<Longrightarrow> args = []"
  by (cases args; auto simp: idx_def)+

lemma update_rel:
  assumes db: "db_rel H sp path d" and rel: "tree_rel H (snd r) t1" "durable t1" "r1 = fst r"
  shows "(case r1 of
        Inl err \<Rightarrow> (Inl (wrapE msg err), closeStore path t1 d)
      | Inr v \<Rightarrow>
          (case GetRootHash t1 v of
             Inl err \<Rightarrow> (Inl (wrapE ''failed to get root hash'' err), closeStore path t1 d)
           | Inr rootHash \<Rightarrow> (Inr [out v rootHash], closeStore path t1 d)))
      = (fst (updated H msg out r), closeStore path t1 d) \<and> db_rel H (snd (updated H msg out r)) path (closeStore path t1 d)"
  using close_rel [OF db rel(1,2)] rel(3) GetRootHash_rootAt [OF rel(1)]
  by (cases r) (simp add: updated_def split: sum.split)

lemma command_rel:
  assumes db: "db_rel H sp path d" and H: "\<And>x. wf_hash (H x)" and on: "on_db path c"
    and twin: "command_ok c (spec_reopen sp)" and ok: "hash_ok H (sp_hist (snd (specCommand H d c (spec_reopen sp))))"
  shows "fst (runCommand H c d) = fst (specCommand H d c (spec_reopen sp))
    \<and> db_rel H (snd (specCommand H d c (spec_reopen sp))) path (snd (runCommand H c d)) \<and> same_files d (snd (runCommand H c d))"
proof -
  let ?sp = "spec_reopen sp"
  have ok0: "hash_ok H (sp_hist ?sp)" using hash_ok_mono [OF ok hist_mono_command] by simp
  note re = reopened_db [OF db H]
  have opened: "\<exists>store t. openDatabase path d = Inr store \<and> openTree now store = Inr t \<and> tree_rel H ?sp t \<and> durable t \<and> GetStats t = (0, 0, 0)"
    for now using open_rel [OF db H] .
  show ?thesis
  proof (cases c)
    case (PutCmd fl env args)
    then have path: "dbPath fl = path" using on by simp
    obtain store t where t: "openDatabase path d = Inr store" "openTree (env_now env) store = Inr t" "tree_rel H ?sp t" "durable t"
      using opened by blast
    show ?thesis
    proof (cases "args = []")
      case False
      show ?thesis
      proof (cases "parseKey (hexKey fl) (args ! 0)")
        case key: (Inr key)
        show ?thesis
        proof (cases "putValue fl args d")
          case val: (Inr val)
          have k: "wf_key key" using parseKey_wf [OF key] .
          have ok1: "hash_ok H (sp_hist (snd (spec_Put key val ?sp)))" using ok PutCmd False key val by simp
          obtain r1 t1 where put: "Tree_Put H (env_now env) key val t = (r1, t1)" by (cases "Tree_Put H (env_now env) key val t")
          have rel: "tree_rel H (snd (spec_Put key val ?sp)) t1" "r1 = fst (spec_Put key val ?sp)" "durable t1"
            using Put_refines [OF t(3) H k ok1, of "env_now env"] persist.keep_Put [OF t(3) H k ok1 t(4), of "env_now env"] put by simp_all
          from update_rel [OF db rel(1,3,2), of "''failed to put value''" "putOutput fl (args ! 0) key val"]
          show ?thesis using PutCmd path False key val t(1,2) put same_files_close [of d path t1]
            by (cases r1) (simp_all add: runPut_def split: sum.splits)
        qed (use PutCmd path False key t(1) re in \<open>simp add: runPut_def\<close>)
      qed (use PutCmd path False t(1) re in \<open>simp add: runPut_def\<close>)
    qed (use PutCmd re in \<open>simp add: runPut_def\<close>)
  next
    case (GetCmd fl env args)
    then have path: "dbPath fl = path" using on by simp
    obtain store t where t: "openDatabase path d = Inr store" "openTree (env_now env) store = Inr t" "tree_rel H ?sp t" "durable t"
      using opened by blast
    show ?thesis
    proof (cases "idx args 0")
      case s: (Inr keyStr)
      show ?thesis
      proof (cases "parseKey (hexKey fl) keyStr")
        case key: (Inr key)
        show ?thesis
          using GetCmd path t(1,2) s key get_refines [OF t(3) H ok0 parseKey_wf [OF key]] theVersion_rel [OF t(3)]
            close_rel [OF db t(3,4)] same_files_close
          by (simp add: runGet_def)
      qed (use GetCmd path s t(1) re in \<open>simp add: runGet_def\<close>)
    qed (use GetCmd path t(1) re in \<open>simp add: runGet_def\<close>)
  next
    case (DeleteCmd fl env args)
    then have path: "dbPath fl = path" using on by simp
    obtain store t where t: "openDatabase path d = Inr store" "openTree (env_now env) store = Inr t" "tree_rel H ?sp t" "durable t"
      using opened by blast
    show ?thesis
    proof (cases "idx args 0")
      case s: (Inr keyStr)
      show ?thesis
      proof (cases "parseKey (hexKey fl) keyStr")
        case key: (Inr key)
        have k: "wf_key key" using parseKey_wf [OF key] .
        have ok1: "hash_ok H (sp_hist (snd (spec_Delete key ?sp)))" using ok DeleteCmd s key by simp
        have tw: "no_twin (hashed H m) key" if "sp_committed ?sp (sp_current ?sp) = Some m" for m
          using twin DeleteCmd s key that idx_0(1) [of args keyStr] by auto
        obtain r1 t1 where del: "Tree_Delete H (env_now env) key t = (r1, t1)" by (cases "Tree_Delete H (env_now env) key t")
        have rel: "tree_rel H (snd (spec_Delete key ?sp)) t1" "r1 = fst (spec_Delete key ?sp)" "durable t1"
          using Delete_refines [OF t(3) H k tw ok1, of "env_now env"] persist.keep_Delete [OF t(3) H k tw ok1 t(4), of "env_now env"] del by simp_all
        from update_rel [OF db rel(1,3,2), of "''failed to delete key''" "deleteOutput fl keyStr key"]
        show ?thesis using DeleteCmd path s key t(1,2) del same_files_close [of d path t1]
          by (cases r1) (simp_all add: runDelete_def split: sum.splits)
      qed (use DeleteCmd path s t(1) re in \<open>simp add: runDelete_def\<close>)
    qed (use DeleteCmd path t(1) re in \<open>simp add: runDelete_def\<close>)
  next
    case (RootCmd fl env)
    then have path: "dbPath fl = path" using on by simp
    obtain store t where t: "openDatabase path d = Inr store" "openTree (env_now env) store = Inr t" "tree_rel H ?sp t" "durable t" "GetStats t = (0, 0, 0)"
      using opened by blast
    show ?thesis
      using RootCmd path t(1,2,5) theVersion_rel [OF t(3)] GetRootHash_rootAt [OF t(3)] close_rel [OF db t(3,4)] same_files_close
      by (simp add: runRootHash_def Let_def split: sum.split)
  qed
qed

lemma session_rel:
  assumes "db_rel H sp path d'" and H: "\<And>x. wf_hash (H x)" and "same_files d d'" and "session_ok H path d cs sp"
    and "hash_ok H (sp_hist (snd (specSession H d cs sp)))"
  shows "fst (session H cs d') = fst (specSession H d cs sp) \<and> db_rel H (snd (specSession H d cs sp)) path (snd (session H cs d'))"
  using assms(1,3-)
proof (induction cs arbitrary: sp d')
  case (Cons c cs)
  let ?sp1 = "snd (specCommand H d c (spec_reopen sp))"
  have same: "specCommand H d' c (spec_reopen sp) = specCommand H d c (spec_reopen sp)" using specCommand_same [OF Cons.prems(2)] .
  have ok1: "hash_ok H (sp_hist (snd (specSession H d cs ?sp1)))" using Cons.prems(4) by (simp add: Let_def case_prod_unfold)
  have ok: "hash_ok H (sp_hist ?sp1)" using hash_ok_mono [OF ok1 hist_mono_session] .
  have c: "on_db path c" "command_ok c (spec_reopen sp)" "session_ok H path d cs ?sp1" using Cons.prems(3) by simp_all
  note r = command_rel [OF Cons.prems(1) H c(1,2), unfolded same, OF ok]
  from Cons.IH [of ?sp1 "snd (runCommand H c d')"] r c(3) ok1 same_files_trans [OF Cons.prems(2)]
  show ?case by (simp add: Let_def case_prod_unfold)
qed simp

section \<open>Properties\<close>

text \<open>
  C15: sessions. After \<^verbatim>\<open>pb init\<close> with the Pebble backend, any sequence of \<^verbatim>\<open>put\<close>, \<^verbatim>\<open>get\<close>, \<^verbatim>\<open>delete\<close> and \<^verbatim>\<open>root\<close> commands,
  each of which opens the database anew, prints exactly what the versioned map says: values and root hashes at any version,
  new versions, errors. (The statistics of \<^verbatim>\<open>root --verbose\<close> are always 0.) The sequence must not delete a present key
  that shares its first 63 nibbles with another present key, which \<^verbatim>\<open>--hex-key\<close> can name: there the deletion fails
  (\<^verbatim>\<open>tree_updater.go:303\<close>) while the map has it succeed.
\<close>

theorem cli_session:
  assumes "backend fl = ''pebble''" and "\<not> is_ok (os_Stat d (dbPath fl))" and "\<not> ds_refuse d (Clean (dbPath fl))"
    and "\<And>x. wf_hash (H x)" and d0: "d0 = snd (runInit fl env (Inr ()) d)" and "session_ok H (dbPath fl) d0 cs spec_init"
    and "hash_ok H (sp_hist (snd (specSession H d0 cs spec_init)))"
  shows "is_ok (fst (runInit fl env (Inr ()) d)) \<and> fst (session H cs d0) = fst (specSession H d0 cs spec_init)"
proof -
  obtain d' out where i: "runInit fl env (Inr ()) d = (Inr out, d')" "db_rel H spec_init (dbPath fl) d'"
    using init_rel [OF assms(1-3)] by blast
  then have "db_rel H spec_init (dbPath fl) d0" by (simp add: d0)
  from session_rel [OF this assms(4) same_files_refl assms(6,7)] i(1) show ?thesis by simp
qed

definition toyDisk :: Disk where
  "toyDisk = \<lparr>ds_files = [], ds_dbs = [], ds_refuse = (\<lambda>_. False), ds_dirSize = 4096\<rparr>"

definition toyFlags :: Flags where
  "toyFlags = defaultFlags\<lparr>hexKey := True\<rparr>"

definition toyEnv :: Env where
  "toyEnv = \<lparr>env_now = 7, env_stamp = [], env_duration = [], env_stdin = []\<rparr>"

theorem cli_session_witness:
  "fst (session toyHash [PutCmd toyFlags toyEnv [EncodeToString toyKey, stringOf toyValue], GetCmd toyFlags toyEnv [EncodeToString toyKey],
      GetCmd (toyFlags\<lparr>versionFlag := Some 0\<rparr>) toyEnv [EncodeToString toyKey]] (snd (runInit toyFlags toyEnv (Inr ()) toyDisk))) =
    [Inr [putOutput toyFlags (EncodeToString toyKey) toyKey toyValue 1 (merkle_root toyHash (hashed toyHash toyMap))],
     getOutput toyFlags (EncodeToString toyKey) toyKey 1 (Inr (Some toyValue)),
     getOutput (toyFlags\<lparr>versionFlag := Some 0\<rparr>) (EncodeToString toyKey) toyKey 0 (Inl ErrVersionNotFound)]"
proof -
  let ?d = "snd (runInit toyFlags toyEnv (Inr ()) toyDisk)"
  let ?cs = "[PutCmd toyFlags toyEnv [EncodeToString toyKey, stringOf toyValue], GetCmd toyFlags toyEnv [EncodeToString toyKey],
      GetCmd (toyFlags\<lparr>versionFlag := Some 0\<rparr>) toyEnv [EncodeToString toyKey]]"
  have fl: "dbPath toyFlags = ''./pb.db''" "hexKey toyFlags" "fileValue toyFlags = []" "versionFlag toyFlags = None" "backend toyFlags = ''pebble''"
    by (simp_all add: toyFlags_def defaultFlags_def)
  have pre: "\<not> is_ok (os_Stat toyDisk (dbPath toyFlags))" "\<not> ds_refuse toyDisk (Clean (dbPath toyFlags))"
    by (simp_all add: toyDisk_def os_Stat_def)
  have max: "MaxVersion \<noteq> 0" by (simp add: MaxVersion_def)
  have re: "spec_reopen spec_init = spec_init" by (simp add: spec_reopen_def spec_init_def)
  obtain sp1 where sp: "spec_Put toyKey toyValue spec_init = (Inr 1, sp1)" "sp_committed sp1 = [0 \<mapsto> Map.empty, 1 \<mapsto> toyMap]" "sp_current sp1 = 1"
    "sp_hist sp1 = [toyMap, Map.empty]" using spec_Put_toy by simp
  have sp': "sp_committed (spec_reopen sp1) = [1 \<mapsto> toyMap]" "sp_current (spec_reopen sp1) = 1" by (auto simp: sp spec_reopen_def)
  have val: "putValue toyFlags [EncodeToString toyKey, stringOf toyValue] ?d = Inr toyValue" by (simp add: putValue_def fl)
  have key: "parseKey True (EncodeToString toyKey) = Inr toyKey" using parseKey_hex [OF wf_toyKey] .
  have run: "specSession toyHash ?d ?cs spec_init =
      ([Inr [putOutput toyFlags (EncodeToString toyKey) toyKey toyValue 1 (merkle_root toyHash (hashed toyHash toyMap))],
     getOutput toyFlags (EncodeToString toyKey) toyKey 1 (Inr (Some toyValue)),
     getOutput (toyFlags\<lparr>versionFlag := Some 0\<rparr>) (EncodeToString toyKey) toyKey 0 (Inl ErrVersionNotFound)], spec_reopen sp1)"
    using one_le_MaxVersion toyKey_not_empty max
    by (simp add: fl re val key sp updated_def rootAt_def specVersion_def spec_get_def sp' leD idx_def toyMap_def)
  have "session_ok toyHash (dbPath toyFlags) ?d ?cs spec_init" by (simp add: fl)
  moreover have "hash_ok toyHash (sp_hist (snd (specSession toyHash ?d ?cs spec_init)))" using toy_hash_ok unfolding run by (simp add: sp(4))
  ultimately show ?thesis using cli_session [where H = toyHash and env = toyEnv and cs = ?cs, OF fl(5) pre wf_toyHash refl] unfolding run by (simp only: fst_conv)
qed

end
