(* ===== verification/CommandTransfers.thy ===== *)
theory CommandTransfers
  imports CommandSessions
begin

text \<open>
  Moving data between databases with the commands: a batch keeps the storage of the tree durable, an exported file
  imports to the exported contents, and a proof that \<^verbatim>\<open>pb prove\<close> writes to a file is accepted by \<^verbatim>\<open>pb verify\<close>. What
  the JSON and CSV packages guarantee is stated as \<open>export_law\<close> and \<open>proof_law\<close>.
\<close>

section \<open>Batches and the storage\<close>

context commit_invariant begin

lemma keep_executeOps: "P t \<Longrightarrow> P (snd (executeOps H v xs t))"
proof (induction xs arbitrary: t)
  case (Cons x xs)
  show ?case
  proof (cases "op_Type x = BatchOpPut")
    case True
    let ?p = "PutVersioned H v (op_Key x) (case op_Value x of Some b \<Rightarrow> b | None \<Rightarrow> []) t"
    have "P (snd ?p)" using Cons.prems by (simp add: keep_put)
    with True Cons.IH show ?thesis by (cases ?p) (simp add: keep_abortWith split: sum.split)
  next
    case False
    let ?p = "DeleteVersioned H v (op_Key x) t"
    have "P (snd ?p)" using Cons.prems by (simp add: keep_delete)
    with False Cons show ?thesis by (cases ?p) (simp add: keep_abortWith keep_abort split: sum.split)
  qed
qed simp

lemma keep_Execute:
  assumes rel: "tree_rel H sp t" and H: "\<And>x. wf_hash (H x)" and lt: "sp_latest sp \<noteq> MaxVersion" and m: "sp_committed sp (sp_current sp) = Some m"
    and bt: "bt_inv bt" "bt_operations bt \<noteq> []" "\<forall>x \<in> set (bt_operations bt). wf_key (op_Key x)" and tw: "batch_twinless m (bt_operations bt)"
    and ok: "hash_ok H (sp_hist (snd (spec_Execute (lastOps (bt_operations bt)) sp)))" and P: "P t"
  shows "P (snd (snd (Execute H now bt t)))"
proof -
  let ?v = "sp_latest sp + 1" and ?xs = "lastOps (bt_operations bt)"
  note nf = next_free [OF rel lt]
  let ?sp1 = "sp\<lparr>sp_latest := ?v, sp_pending := (sp_pending sp)(?v \<mapsto> (m, False))\<rparr>"
  have sp1: "snd (spec_begin sp) = ?sp1" using lt m by (simp add: spec_begin_def Let_def)
  have xs: "\<forall>x \<in> set ?xs. proper x" "distinct (map op_Key ?xs)" "batch_twinless m ?xs"
    using set_lastOps [of "bt_operations bt"] bt distinct_lastOps tw batch_twinless_subset by (auto simp: bt_inv_def proper_def)
  obtain t1 where t1: "BeginVersion now t = (Inr ?v, t1)" "tree_rel H ?sp1 t1" using begin_run [OF rel lt m] by blast
  have P1: "P t1" using keep_begin [of now t] P t1(1) by simp
  obtain r t2 where t2: "executeOps H ?v ?xs t1 = (r, t2)" by (cases "executeOps H ?v ?xs t1")
  have P2: "P t2" using keep_executeOps [OF P1, of H ?v ?xs] t2 by simp
  have opt: "optimizeOperationsLocked bt = ?xs" using optimize_lastOps [OF bt(1)] .
  show ?thesis
  proof (cases r)
    case (Inl e)
    with t1(1) t2 P2 bt(2) show ?thesis by (simp add: Execute_def opt Let_def)
  next
    case (Inr u)
    have "ops_ok ?v ?xs ?sp1" using nf(2) xs by (intro ops_ok_batch) auto
    from executeOps_refines [OF t1(2) H this] t2 Inr
    have sp2: "fst (specOps ?v ?xs ?sp1) = Inr u" "tree_rel H (snd (specOps ?v ?xs ?sp1)) t2" by simp_all
    have p: "sp_pending ?sp1 ?v = Some (m, False)" by simp
    have all: "\<forall>x \<in> set ?xs. applicable m x"
    proof (rule ccontr)
      assume "\<not> (\<forall>x \<in> set ?xs. applicable m x)"
      from specOps_fails [OF p nf(2) xs(1,2) this] sp2(1) show False by (elim exE) simp
    qed
    obtain hist where sp3: "specOps ?v ?xs ?sp1 = (Inr (), ?sp1\<lparr>sp_pending := (sp_pending ?sp1)(?v \<mapsto> (effects ?xs m, True)), sp_hist := hist @ sp_hist ?sp1\<rparr>)"
      using specOps_succeeds [OF p nf(2) xs(1,2) all] bt(2) by auto
    let ?sp2 = "?sp1\<lparr>sp_pending := (sp_pending ?sp1)(?v \<mapsto> (effects ?xs m, True)), sp_hist := hist @ sp_hist ?sp1\<rparr>"
    have ok2: "hash_ok H (sp_hist ?sp2)" using ok by (simp add: spec_Execute_def sp1 sp3 spec_commit_def Let_def)
    have rel2: "tree_rel H ?sp2 t2" using sp2(2) unfolding sp3 by simp
    have "P (snd (CommitVersion H now ?v t2))" by (rule commit [OF H rel2 ok2 _ P2]) simp
    with t1(1) t2 Inr bt(2) show ?thesis
      by (cases "CommitVersion H now ?v t2") (simp add: Execute_def opt Let_def keep_abortWith case_prod_unfold split: sum.split)
  qed
qed

end

section \<open>Filling a transaction\<close>

definition putOp :: "key \<Rightarrow> bytes \<Rightarrow> BatchOperation" where
  "putOp k b = \<lparr>op_Type = BatchOpPut, op_Key = k, op_Value = Some b\<rparr>"

lemma BatchPut_ok: "k \<noteq> emptyKey \<Longrightarrow> BatchPut k (Some b) bt = (Inr (), addOperation (putOp k b) bt)"
  by (simp add: BatchPut_def validateKey_def putOp_def)

lemma bt_operations_add [simp]: "bt_operations (addOperation x bt) = bt_operations bt @ [x]"
  by (simp add: addOperation_def)

lemma bt_inv_putOp: "bt_inv bt \<Longrightarrow> k \<noteq> emptyKey \<Longrightarrow> bt_inv (addOperation (putOp k b) bt)"
  by (rule bt_inv_add) (simp_all add: putOp_def)

text \<open>Entries that parse to keys other than the empty key.\<close>

lemma addEntries_ok:
  assumes "list_all2 (\<lambda>e (k, b). parseImportEntry e = Inr (k, b) \<and> k \<noteq> emptyKey) es kbs" and "bt_inv bt"
  shows "\<exists>bt'. addEntries skip es bt = (Inr ([], length es), bt') \<and> bt_inv bt'
    \<and> bt_operations bt' = bt_operations bt @ map (\<lambda>(k, b). putOp k b) kbs"
  using assms
proof (induction es kbs arbitrary: bt rule: list_all2_induct)
  case (Cons e es kb kbs)
  obtain k b where kb: "kb = (k, b)" by (cases kb)
  with Cons.hyps have e: "parseImportEntry e = Inr (k, b)" "k \<noteq> emptyKey" by simp_all
  obtain bt' where "addEntries skip es (addOperation (putOp k b) bt) = (Inr ([], length es), bt')" "bt_inv bt'"
    "bt_operations bt' = bt_operations bt @ putOp k b # map (\<lambda>(k, b). putOp k b) kbs"
    using Cons.IH [OF bt_inv_putOp [OF Cons.prems e(2)]] by auto
  then show ?case using e by (simp add: kb addEntry_def BatchPut_ok)
qed simp

lemma bt_inv_New: "bt_inv NewBatchTransaction" "bt_operations NewBatchTransaction = []"
  by (simp_all add: NewBatchTransaction_def bt_inv_empty)

text \<open>The contents after the puts.\<close>

definition putAll :: "(key \<times> bytes) list \<Rightarrow> vmap \<Rightarrow> vmap" where
  "putAll kbs m = fold (\<lambda>(k, b) m. m(k \<mapsto> b)) kbs m"

lemma effects_putAll: "effects (map (\<lambda>(k, b). putOp k b) kbs) m = putAll kbs m"
  by (induction kbs arbitrary: m) (auto simp: putAll_def effect_def putOp_def)

lemma putAll_map: "putAll kbs m = m ++ map_of (rev kbs)"
  by (induction kbs arbitrary: m) (auto simp: putAll_def)

lemma putAll_get:
  assumes "\<And>k b. (k, b) \<in> set kbs \<Longrightarrow> f k = Some b"
  shows "putAll kbs m k = (if k \<in> fst ` set kbs then f k else m k)"
proof (cases "map_of (rev kbs) k")
  case None
  then have "k \<notin> fst ` set kbs" by (simp add: map_of_eq_None_iff)
  with None show ?thesis by (simp only: putAll_map map_add_def option.case if_False)
next
  case (Some b)
  then have "(k, b) \<in> set kbs" by (auto dest: map_of_SomeD)
  with Some assms show ?thesis by (force simp: putAll_map map_add_def)
qed

section \<open>Import\<close>

lemma proper_putOps: "bt_inv bt \<Longrightarrow> bt_operations bt = map (\<lambda>(k, b). putOp k b) kbs \<Longrightarrow> \<forall>(k, b) \<in> set kbs. wf_key k \<Longrightarrow>
  (\<forall>x \<in> set (lastOps (bt_operations bt)). proper x) \<and> batch_twinless m (bt_operations bt)"
  using set_lastOps [of "bt_operations bt"]
  by (auto simp: proper_def bt_inv_def batch_twinless_def putOp_def BatchOpPut_def BatchOpDelete_def split_beta image_iff dest!: subsetD)

lemma lastOps_putAll: "effects (lastOps (map (\<lambda>(k, b). putOp k b) kbs)) m = putAll kbs m"
  by (simp add: effects_lastOps effects_putAll)

lemma import_rel:
  assumes db: "db_rel H sp path d" and H: "\<And>x. wf_hash (H x)" and fl: "dbPath fl = path" "\<not> validateOnly fl"
    and imp: "readImportFile C fl f d = Inr es"
    and es: "list_all2 (\<lambda>e (k, b). parseImportEntry e = Inr (k, b) \<and> k \<noteq> emptyKey) es kbs" "es \<noteq> []"
    and kbs: "\<forall>(k, b) \<in> set kbs. wf_key k \<and> b \<noteq> [] \<and> length b \<le> MaxValueSize"
    and sp: "sp_current sp \<noteq> MaxVersion" "sp_committed (spec_reopen sp) (sp_current sp) = Some m"
    and ok: "hash_ok H (sp_hist (snd (spec_Execute (lastOps (map (\<lambda>(k, b). putOp k b) kbs)) (spec_reopen sp))))"
  shows "\<exists>out d' sp'. runImport C H fl env [f] d = (Inr out, d') \<and> db_rel H sp' path d'
    \<and> sp_current sp' = sp_current sp + 1 \<and> sp_committed sp' = (sp_committed (spec_reopen sp))(sp_current sp + 1 \<mapsto> putAll kbs m)"
proof -
  let ?sp = "spec_reopen sp" and ?xs = "lastOps (map (\<lambda>(k, b). putOp k b) kbs)"
  have re: "sp_latest ?sp = sp_current sp" "sp_current ?sp = sp_current sp" by (simp_all add: spec_reopen_def)
  obtain store t where t: "openDatabase path d = Inr store" "openTree (env_now env) store = Inr t" "tree_rel H ?sp t" "durable t"
    using open_rel [OF db H] by blast
  obtain bt where bt: "addEntries (skipErrors fl) es NewBatchTransaction = (Inr ([], length es), bt)" "bt_inv bt"
    "bt_operations bt = map (\<lambda>(k, b). putOp k b) kbs" using addEntries_ok [OF es(1) bt_inv_New(1)] by (auto simp: bt_inv_New)
  have ne: "kbs \<noteq> []" using es list_all2_lengthD by fastforce
  have P: "\<forall>x \<in> set ?xs. proper x" "batch_twinless m (bt_operations bt)"
    using proper_putOps [OF bt(2,3), of m] kbs by (auto simp: bt(3))
  have all: "\<forall>x \<in> set ?xs. applicable m x"
  proof
    fix x assume "x \<in> set ?xs"
    then have "x \<in> set (map (\<lambda>(k, b). putOp k b) kbs)" using set_lastOps by blast
    then obtain k b where "(k, b) \<in> set kbs" "x = putOp k b" by auto
    with kbs show "applicable m x" by (auto simp: applicable_def putOp_def)
  qed
  have lt: "sp_latest ?sp \<noteq> MaxVersion" and m: "sp_committed ?sp (sp_current ?sp) = Some m" using sp re by simp_all
  have wf: "bt_operations bt \<noteq> []" "\<forall>x \<in> set (bt_operations bt). wf_key (op_Key x)" using kbs ne by (auto simp: bt(3) putOp_def)
  note ok' = ok [folded bt(3)]
  obtain t' where ex: "Execute H (env_now env) bt t = (fst (spec_Execute ?xs ?sp), Clear bt, t')" "tree_rel H (snd (spec_Execute ?xs ?sp)) t'"
    using Execute_refines [OF t(3) H lt m bt(2) wf P(2) ok', of "env_now env"] all unfolding bt(3) by auto
  have dur: "durable t'" using persist.keep_Execute [OF t(3) H lt m bt(2) wf P(2) ok' t(4), of "env_now env"] ex(1) by simp
  obtain hist where spec: "spec_Execute ?xs ?sp = (Inr (sp_current sp + 1), ?sp\<lparr>sp_committed := (sp_committed ?sp)(sp_current sp + 1 \<mapsto> putAll kbs m),
      sp_latest := sp_current sp + 1, sp_current := sp_current sp + 1, sp_hist := hist @ sp_hist ?sp\<rparr>)"
    using spec_Execute_outcome(1) [OF t(3) lt m P(1) distinct_lastOps _ all] ne unfolding re lastOps_putAll by auto
  have sz: "Size bt > 0" using ne by (simp add: Size_def bt(3))
  have "\<exists>out. runImport C H fl env [f] d = (Inr out, closeStore path t' d)"
    using imp fl t(1,2) bt(1) ex(1) spec sz by (simp add: runImport_def idx_def)
  moreover have "db_rel H (snd (spec_Execute ?xs ?sp)) path (closeStore path t' d)" using close_rel [OF db ex(2) dur] .
  ultimately show ?thesis unfolding spec by (elim exE) (intro exI conjI, assumption, assumption, simp_all)
qed

section \<open>Export\<close>

text \<open>What the loop exports at a version with the contents \<open>m\<close>.\<close>

fun exported :: "Flags \<Rightarrow> vmap \<Rightarrow> string list \<Rightarrow> (string \<times> key \<times> bytes) list" where
  "exported fl m [] = []"
| "exported fl m (s # ss) =
     (case parseKey (keysFormat fl = ''hex'') s of
        Inl _ \<Rightarrow> []
      | Inr k \<Rightarrow> (if k = emptyKey then [] else case m k of None \<Rightarrow> [] | Some b \<Rightarrow> [(s, k, b)])) @ exported fl m ss"

lemma exportLoop_ok:
  assumes rel: "tree_rel H sp t" and H: "\<And>x. wf_hash (H x)" and ok: "hash_ok H (sp_hist sp)"
    and v: "sp_committed sp v = Some m" "v \<le> MaxVersion"
  shows "snd (exportLoop H fl v keys t) = t \<and> (\<forall>es n. fst (exportLoop H fl v keys t) = Inr (es, n) \<longrightarrow>
    es = map (\<lambda>(s, k, b). exportEntry (includeHex fl) s k b) (exported fl m keys) \<and> length es + n = length keys)"
proof (induction keys)
  case (Cons s ss)
  show ?case
  proof (cases "parseKey (keysFormat fl = ''hex'') s")
    case (Inr k)
    then have "Tree_Get H t v k = (spec_get v k sp, t)" using get_refines [OF rel H ok parseKey_wf] by blast
    moreover have "spec_get v k sp = (if k = emptyKey then Inl ErrEmptyKey else Inr (m k))" using v by (simp add: spec_get_def leD)
    ultimately have get: "Tree_Get H t v k = (if k = emptyKey then Inl ErrEmptyKey else Inr (m k), t)" by simp
    obtain r where r: "exportLoop H fl v ss t = (r, t)" using Cons by (cases "exportLoop H fl v ss t") simp
    show ?thesis
    proof (cases "k = emptyKey \<or> m k = None")
      case True
      with get have "exportLoop H fl v (s # ss) t = (map_sum id (\<lambda>(es, n). (es, Suc n)) r, t)"
        using Inr r by (cases "k = emptyKey") simp_all
      moreover have "exported fl m (s # ss) = exported fl m ss" using Inr True by auto
      ultimately show ?thesis using Cons unfolding r by (cases r) auto
    next
      case False
      then obtain b where b: "m k = Some b" by blast
      have "exportLoop H fl v (s # ss) t = (map_sum id (\<lambda>(es, n). (exportEntry (includeHex fl) s k b # es, n)) r, t)"
        using Inr r get False b by simp
      moreover have "exported fl m (s # ss) = (s, k, b) # exported fl m ss" using Inr False b by simp
      ultimately show ?thesis using Cons unfolding r by (cases r) auto
    qed
  qed simp
qed simp

lemma exported_mem: "(s, k, b) \<in> set (exported fl m keys) \<longleftrightarrow>
    s \<in> set keys \<and> parseKey (keysFormat fl = ''hex'') s = Inr k \<and> k \<noteq> emptyKey \<and> m k = Some b"
proof (induction keys)
  case (Cons x xs)
  show ?case
  proof (cases "parseKey (keysFormat fl = ''hex'') x")
    case (Inl e)
    then show ?thesis using Cons by force
  next
    case (Inr k')
    then have "exported fl m (x # xs) = (if k' = emptyKey then [] else case m k' of None \<Rightarrow> [] | Some b \<Rightarrow> [(x, k', b)]) @ exported fl m xs" by simp
    then have "(s, k, b) \<in> set (exported fl m (x # xs)) \<longleftrightarrow>
        s = x \<and> k = k' \<and> k' \<noteq> emptyKey \<and> m k' = Some b \<or> (s, k, b) \<in> set (exported fl m xs)"
      by (cases "m k'") auto
    with Inr Cons show ?thesis by (metis set_ConsD list.set_intros sum.inject(2))
  qed
qed simp

lemma readKeys_nonempty: "readKeys fl env d = Inr keys \<Longrightarrow> s \<in> set keys \<Longrightarrow> s \<noteq> []"
  by (auto simp: readKeys_def keyLines_def Let_def case_prod_unfold split: sum.splits if_splits)

definition ascii :: "string \<Rightarrow> bool" where
  "ascii s \<longleftrightarrow> (\<forall>c \<in> set s. of_char c < (128 :: nat))"

lemma ascii_hex: "ascii (EncodeToString bs)"
proof -
  have "of_char (digit n) < (128 :: nat)" if "n < 16" for n using that by (simp add: digit_def)
  moreover have "unat b div 16 < 16" for b :: byte using byte_less [of b] by simp
  ultimately show ?thesis by (auto simp: ascii_def EncodeToString_def)
qed

text \<open>
  The law of the JSON package: reading back what was written gives the entries with every string made valid UTF-8,
  which leaves ASCII strings as they are.
\<close>

definition cleanEntry :: "(string \<Rightarrow> string) \<Rightarrow> ExportEntry \<Rightarrow> ExportEntry" where
  "cleanEntry clean e = \<lparr>ee_Key = clean (ee_Key e), ee_KeyHex = clean (ee_KeyHex e), ee_Value = clean (ee_Value e), ee_ValueHex = clean (ee_ValueHex e)\<rparr>"

definition export_law :: "Codecs \<Rightarrow> (string \<Rightarrow> string) \<Rightarrow> bool" where
  "export_law C clean \<longleftrightarrow> (\<forall>s. ascii s \<longrightarrow> clean s = s)
     \<and> (\<forall>ed. \<exists>ed'. decodeExport C (encodeExport C ed) = Inr ed' \<and> ed_Entries ed' = map (cleanEntry clean) (ed_Entries ed))"

text \<open>
  The law of the CSV package: rows of the same number of fields, two at least, come back if no field has a carriage return
  (before a newline it would be dropped).
\<close>

definition csv_law :: "Codecs \<Rightarrow> bool" where
  "csv_law C \<longleftrightarrow> (\<forall>n rows. 2 \<le> n \<longrightarrow> (\<forall>r \<in> set rows. length r = n \<and> (\<forall>s \<in> set r. CHR 0x0D \<notin> set s))
     \<longrightarrow> csvRead C (csvWrite C rows) = map Inr rows)"

definition format_law :: "Codecs \<Rightarrow> (string \<Rightarrow> string) \<Rightarrow> string \<Rightarrow> bool" where
  "format_law C clean fmt \<longleftrightarrow> fmt = ''json'' \<and> export_law C clean \<or> fmt = ''csv'' \<and> csv_law C"

text \<open>
  A string that survives a file of the format; an exported key that the import reads back, and a value that survives: the import
  of a CSV file ignores the columns with hexadecimal digits.
\<close>

definition text_survives :: "(string \<Rightarrow> string) \<Rightarrow> string \<Rightarrow> string \<Rightarrow> bool" where
  "text_survives clean fmt s \<longleftrightarrow> (if fmt = ''json'' then clean s = s else CHR 0x0D \<notin> set s)"

definition key_survives :: "(string \<Rightarrow> string) \<Rightarrow> Flags \<Rightarrow> string \<Rightarrow> bool" where
  "key_survives clean fl s \<longleftrightarrow> text_survives clean (exportFormat fl) s \<and> (keysFormat fl = ''hex'' \<or> length s \<noteq> 64)"

definition value_survives :: "(string \<Rightarrow> string) \<Rightarrow> Flags \<Rightarrow> bytes \<Rightarrow> bool" where
  "value_survives clean fl b \<longleftrightarrow> b \<noteq> [] \<and> length b \<le> MaxValueSize
     \<and> (exportFormat fl = ''json'' \<and> includeHex fl \<or> text_survives clean (exportFormat fl) (stringOf b))"

text \<open>The entry that the import reads for an exported one.\<close>

definition readBack :: "(string \<Rightarrow> string) \<Rightarrow> Flags \<Rightarrow> ExportEntry \<Rightarrow> ExportEntry" where
  "readBack clean fl e =
     (if exportFormat fl = ''json'' then cleanEntry clean e else \<lparr>ee_Key = ee_Key e, ee_KeyHex = [], ee_Value = ee_Value e, ee_ValueHex = []\<rparr>)"

lemma no_return_hex: "CHR 0x0D \<notin> set (EncodeToString bs)"
proof -
  have "of_char (CHR 0x0D) < (48 :: nat)" by simp
  moreover have "48 \<le> (of_char (digit n) :: nat)" if "n < 16" for n using that by (simp add: digit_def)
  ultimately have "CHR 0x0D \<noteq> digit n" if "n < 16" for n using that by fastforce
  moreover have "unat b div 16 < 16" for b :: byte using byte_less [of b] by simp
  ultimately show ?thesis by (force simp: EncodeToString_def)
qed

text \<open>The import parses what the export wrote.\<close>

lemma csvEntries_map: "(\<And>r. r \<in> set rs \<Longrightarrow> 2 \<le> length r) \<Longrightarrow>
    csvEntries (map Inr rs) = Inr (map (\<lambda>r. \<lparr>ee_Key = r ! 0, ee_KeyHex = [], ee_Value = r ! 1, ee_ValueHex = []\<rparr>) rs)"
  by (induction rs) (simp_all add: not_less)

lemma parse_written:
  assumes law: "format_law C clean (exportFormat fl)" and written: "exportText C fl env v h es = Inr payload"
    and csv: "\<And>e. e \<in> set es \<Longrightarrow> exportFormat fl = ''csv'' \<Longrightarrow> \<forall>s \<in> {ee_Key e, ee_KeyHex e, ee_Value e, ee_ValueHex e}. CHR 0x0D \<notin> set s"
  shows "parseImportFile C (exportFormat fl) (Inr payload) = Inr (map (readBack clean fl) es)"
proof (cases "exportFormat fl = ''json''")
  case True
  then have "payload = encodeExport C \<lparr>ed_Version = v, ed_ExportTime = env_stamp env, ed_RootHash = EncodeToString h,
      ed_EntryCount = int (length es), ed_Entries = es\<rparr>" using written by (simp add: exportText_def)
  then obtain ed where ed: "payload = encodeExport C ed" "ed_Entries ed = es" by (rule that) simp
  have "export_law C clean" using law True by (simp add: format_law_def)
  then obtain ed' where "decodeExport C payload = Inr ed'" "ed_Entries ed' = map (cleanEntry clean) es"
    using ed(2) unfolding export_law_def ed(1) by metis
  with True show ?thesis by (simp add: parseImportFile_def readBack_def)
next
  case False
  then have fmt: "exportFormat fl = ''csv''" "csv_law C" using law by (simp_all add: format_law_def)
  let ?hex = "includeHex fl"
  let ?rows = "csvRows ?hex es"
  have rows: "length r = (if ?hex then 4 else 2) \<and> (\<forall>s \<in> set r. CHR 0x0D \<notin> set s)" if r: "r \<in> set ?rows" for r
  proof (cases "r = [''key'', ''value''] @ (if ?hex then [''key_hex'', ''value_hex''] else [])")
    case True
    then show ?thesis by simp
  next
    case False
    then obtain e where e: "e \<in> set es" "r = [ee_Key e, ee_Value e] @ (if ?hex then [ee_KeyHex e, ee_ValueHex e] else [])"
      using r by (auto simp: csvRows_def)
    show ?thesis using csv [OF e(1) fmt(1)] by (simp add: e(2))
  qed
  have "(2 :: nat) \<le> (if ?hex then 4 else 2)" by simp
  from fmt(2) [unfolded csv_law_def, THEN spec, THEN spec, THEN mp, THEN mp, OF this ballI, OF rows]
  have read: "csvRead C (csvWrite C ?rows) = map Inr ?rows" .
  have "payload = csvWrite C ?rows" using written fmt(1) by (simp add: exportText_def)
  then have "parseImportFile C (exportFormat fl) (Inr payload) = csvImport (map Inr ?rows)" using fmt(1) read by (simp add: parseImportFile_def)
  also have "\<dots> = csvEntries (map Inr (map (\<lambda>e. [ee_Key e, ee_Value e] @ (if ?hex then [ee_KeyHex e, ee_ValueHex e] else [])) es))"
    by (simp add: csvImport_def csvRows_def)
  also have "\<dots> = Inr (map (readBack clean fl) es)" by (subst csvEntries_map) (auto simp: readBack_def fmt(1))
  finally show ?thesis .
qed

lemma parse_exported:
  assumes "exportFormat fl = ''json'' \<Longrightarrow> \<forall>s. ascii s \<longrightarrow> clean s = s" and "s \<noteq> []" and "key_survives clean fl s" and "value_survives clean fl b"
    and "parseKey (keysFormat fl = ''hex'') s = Inr k"
  shows "parseImportEntry (readBack clean fl (exportEntry (includeHex fl) s k b)) = Inr (k, b)"
proof -
  let ?e = "readBack clean fl (exportEntry (includeHex fl) s k b)"
  have key: "parseImportKey s = Inr k"
  proof (cases "keysFormat fl = ''hex''")
    case True
    then obtain kb where "DecodeString s = Inr kb" "length kb = 32" "k = go_copy emptyKey kb"
      using assms(5) by (auto simp: parseKey_def split: sum.splits if_splits)
    with DecodeString_length [OF this(1)] show ?thesis by (simp add: parseImportKey_def)
  next
    case False
    with assms(3,5) show ?thesis by (simp add: parseKey_def parseImportKey_def key_survives_def)
  qed
  have e: "ee_Key ?e = s \<and> parseImportValue ?e = Inr b"
  proof (cases "exportFormat fl = ''json''")
    case True
    note clean = assms(1) [OF True, rule_format]
    show ?thesis using clean [OF ascii_hex [of b]] clean [of "[]"] assms(3,4) True
      by (auto simp: parseImportValue_def readBack_def cleanEntry_def exportEntry_def key_survives_def value_survives_def text_survives_def ascii_def)
  next
    case False
    then show ?thesis using assms(4) by (simp add: parseImportValue_def readBack_def exportEntry_def value_survives_def)
  qed
  with key assms(2) show ?thesis by (simp add: parseImportEntry_def)
qed

text \<open>What a successful export of version \<open>v\<close> to a file writes.\<close>

lemma export_written:
  assumes db: "db_rel H sp path d" and H: "\<And>x. wf_hash (H x)" and ok: "hash_ok H (sp_hist sp)" and fl: "dbPath fl = path"
    and v: "v = specVersion fl (spec_reopen sp)" "sp_committed (spec_reopen sp) v = Some m" "v \<le> MaxVersion"
    and f: "exportOutput fl = f" "f \<noteq> []" "f \<noteq> ''-''" and keys: "readKeys fl env d = Inr keys"
    and run: "runExportKeys C H fl env d = (Inr out, d1)"
  shows "validatePath f = Inr () \<and> \<not> ds_refuse d1 (Clean f) \<and> (\<exists>h payload. gm_get (ds_files d1) (Clean f) = Some payload
    \<and> exportText C fl env v h (map (\<lambda>(s, k, b). exportEntry (includeHex fl) s k b) (exported fl m keys)) = Inr payload)"
proof -
  let ?sp = "spec_reopen sp"
  obtain store t where t: "openDatabase path d = Inr store" "openTree (env_now env) store = Inr t" "tree_rel H ?sp t" "durable t"
    using open_rel [OF db H] by blast
  have ok': "hash_ok H (sp_hist ?sp)" using ok by simp
  have root: "GetRootHash t v = Inr (merkle_root H (hashed H m))" using GetRootHash_rootAt [OF t(3)] v(2) by (simp add: rootAt_def)
  have ver: "theVersion fl t = v" using theVersion_rel [OF t(3)] v(1) by simp
  obtain r where loop: "exportLoop H fl v keys t = (r, t)" and es: "\<And>es n. r = Inr (es, n) \<Longrightarrow>
      es = map (\<lambda>(s, k, b). exportEntry (includeHex fl) s k b) (exported fl m keys)"
    using exportLoop_ok [OF t(3) H ok' v(2,3), of fl keys] by (cases "exportLoop H fl v keys t") auto
  obtain es n where r: "r = Inr (es, n)" using run fl t(1,2) root ver keys loop by (cases r) (auto simp: runExportKeys_def)
  define payload where "payload = exportText C fl env v (merkle_root H (hashed H m)) es"
  obtain d2 where w: "writeExport fl env v (length keys) (length es) n payload d = (Inr out, d2)" "d1 = closeStore path t d2"
    using run fl t(1,2) root ver keys loop r by (auto simp: runExportKeys_def payload_def split: prod.splits)
  from w(1) f have path: "validatePath f = Inr ()" by (auto simp: writeExport_def split: sum.splits)
  have free: "\<not> ds_refuse d (Clean f)" "gm_get (ds_dbs d) (Clean f) = None"
    using w(1) f path by (auto simp: writeExport_def os_WriteFile_def split: if_splits)
  obtain s where s: "payload = Inr s" using w(1) f path free by (cases payload) (simp_all add: writeExport_def os_WriteFile_def)
  have "d2 = d\<lparr>ds_files := gm_put (Clean f) s (gm_put (Clean f) [] (ds_files d))\<rparr>"
    using w(1) f s path free by (simp add: writeExport_def os_WriteFile_def)
  then have "gm_get (ds_files d1) (Clean f) = Some s" "ds_refuse d1 = ds_refuse d" by (auto simp: w(2) closeStore_def)
  moreover have "exportText C fl env v (merkle_root H (hashed H m)) es = Inr s" using s by (simp add: payload_def)
  ultimately show ?thesis using es [OF r] path free(1) by auto
qed

text \<open>How the import reads the file of an export.\<close>

lemma import_written:
  assumes source: "db_rel H sp path d" and H: "\<And>x. wf_hash (H x)" and "hash_ok H (sp_hist sp)" and "dbPath fl = path"
    and v: "v = specVersion fl (spec_reopen sp)" "sp_committed (spec_reopen sp) v = Some m" "v \<le> MaxVersion"
    and f: "exportOutput fl = f" "f \<noteq> []" "f \<noteq> ''-''" and keys: "readKeys fl env d = Inr keys"
    and run: "runExportKeys C H fl env d = (Inr out, d1)"
    and law: "format_law C clean (exportFormat fl)" and fl2: "importFormat fl2 = exportFormat fl" "\<not> validateOnly fl2"
    and survives: "\<forall>(s, k, b) \<in> set (exported fl m keys). key_survives clean fl s \<and> value_survives clean fl b"
  shows "\<exists>content. gm_get (ds_files d1) (Clean f) = Some content
    \<and> (if exported fl m keys = [] \<or> maxBatchOperations < length (exported fl m keys) \<or> maxImportFileSize < length content
       then \<exists>err. readImportFile C fl2 f d1 = Inl err
       else \<exists>es. readImportFile C fl2 f d1 = Inr es
         \<and> list_all2 (\<lambda>e (k, b). parseImportEntry e = Inr (k, b) \<and> k \<noteq> emptyKey) es (map snd (exported fl m keys)))"
proof -
  let ?ex = "exported fl m keys"
  let ?written = "map (\<lambda>(s, k, b). exportEntry (includeHex fl) s k b) ?ex"
  let ?es = "map (\<lambda>(s, k, b). readBack clean fl (exportEntry (includeHex fl) s k b)) ?ex"
  obtain h content where path: "validatePath f = Inr ()" "\<not> ds_refuse d1 (Clean f)" and content: "gm_get (ds_files d1) (Clean f) = Some content"
    and encoded: "exportText C fl env v h ?written = Inr content"
    using export_written [OF assms(1-12)] by blast
  have mem: "s \<in> set keys \<and> parseKey (keysFormat fl = ''hex'') s = Inr k \<and> k \<noteq> emptyKey \<and> m k = Some b
      \<and> key_survives clean fl s \<and> value_survives clean fl b" if "(s, k, b) \<in> set ?ex" for s k b
    using that [unfolded exported_mem] bspec [OF survives that] by simp
  have "parseImportFile C (exportFormat fl) (Inr content) = Inr (map (readBack clean fl) ?written)"
  proof (rule parse_written [OF law encoded])
    fix e assume "e \<in> set ?written" and csv: "exportFormat fl = ''csv''"
    then obtain s k b where e: "(s, k, b) \<in> set ?ex" "e = exportEntry (includeHex fl) s k b" by auto
    from mem [OF e(1)] csv show "\<forall>s \<in> {ee_Key e, ee_KeyHex e, ee_Value e, ee_ValueHex e}. CHR 0x0D \<notin> set s"
      using no_return_hex by (simp add: e(2) exportEntry_def key_survives_def value_survives_def text_survives_def)
  qed
  then have parsed: "parseImportFile C (importFormat fl2) (Inr content) = Inr ?es" by (simp add: fl2(1) split_beta comp_def)
  have open_file: "is_ok (os_Open d1 f)" "io_ReadAll d1 f = Inr content" "os_Stat d1 f = Inr (length content)"
    using path(2) content by (simp_all add: os_Open_def io_ReadAll_def os_Stat_def)
  show ?thesis
  proof (cases "?ex = [] \<or> maxBatchOperations < length ?ex \<or> maxImportFileSize < length content")
    case True
    have "\<exists>err. readImportFile C fl2 f d1 = Inl err"
      using True path open_file parsed
      by (auto simp: readImportFile_def validateFileSize_def validateBatchSize_def split: sum.split)
    with True content show ?thesis by simp
  next
    case False
    then have read: "readImportFile C fl2 f d1 = Inr ?es"
      using path open_file parsed
      by (auto simp: readImportFile_def validateFileSize_def validateBatchSize_def split: sum.split)
    have clean: "exportFormat fl = ''json'' \<Longrightarrow> \<forall>s. ascii s \<longrightarrow> clean s = s" using law by (simp add: format_law_def export_law_def)
    have "parseImportEntry (readBack clean fl (exportEntry (includeHex fl) s k b)) = Inr (k, b) \<and> k \<noteq> emptyKey" if "(s, k, b) \<in> set ?ex" for s k b
      using parse_exported [OF clean readKeys_nonempty [OF keys]] mem [OF that] by blast
    then have "list_all2 (\<lambda>e (k, b). parseImportEntry e = Inr (k, b) \<and> k \<noteq> emptyKey) ?es (map snd ?ex)"
      by (auto simp: list_all2_map1 list_all2_map2 split_beta intro!: list.rel_refl_strong)
    with read False content show ?thesis by auto
  qed
qed

section \<open>Properties\<close>

text \<open>
  C16: export and import. Let a database be exported with \<^verbatim>\<open>pb export-keys\<close> to a file, as JSON or as CSV, and the file
  imported with \<^verbatim>\<open>pb import\<close> in the same format into a database, the same or another. If no key was found, or more than
  \<open>maxBatchOperations\<close> (10000), or the file is longer than \<open>maxImportFileSize\<close> (100 MiB), the import is refused and the disk
  stays as it is. Otherwise the import succeeds and commits the next version, in which every exported key has the value
  that was exported and every other key the value it had; older versions stay. The exported keys and values must survive
  the file: text keys do not have 64 characters (the import takes those for hexadecimal); in JSON, strings are valid UTF-8, except
  for values exported with \<^verbatim>\<open>--hex\<close>; in CSV, they hold no carriage return.
\<close>

theorem export_import:
  assumes source: "db_rel H sp path d" and H: "\<And>x. wf_hash (H x)" and "hash_ok H (sp_hist sp)" and "dbPath fl = path"
    and v: "v = specVersion fl (spec_reopen sp)" "sp_committed (spec_reopen sp) v = Some m" "v \<le> MaxVersion"
    and f: "exportOutput fl = f" "f \<noteq> []" "f \<noteq> ''-''" and keys: "readKeys fl env d = Inr keys"
    and run: "runExportKeys C H fl env d = (Inr out, d1)"
    and law: "format_law C clean (exportFormat fl)" and fl2: "importFormat fl2 = exportFormat fl" "\<not> validateOnly fl2"
    and survives: "\<forall>(s, k, b) \<in> set (exported fl m keys). key_survives clean fl s \<and> value_survives clean fl b"
    and target: "db_rel H sp2 (dbPath fl2) d1" "sp_current sp2 \<noteq> MaxVersion" "sp_committed (spec_reopen sp2) (sp_current sp2) = Some m2"
    and ok2: "hash_ok H (sp_hist (snd (spec_Execute (lastOps (map (\<lambda>(s, k, b). putOp k b) (exported fl m keys))) (spec_reopen sp2))))"
  shows "\<exists>content. gm_get (ds_files d1) (Clean f) = Some content
    \<and> (if exported fl m keys = [] \<or> maxBatchOperations < length (exported fl m keys) \<or> maxImportFileSize < length content
       then \<exists>err. runImport C H fl2 env2 [f] d1 = (Inl err, d1)
       else \<exists>out2 d2 sp3 m3. runImport C H fl2 env2 [f] d1 = (Inr out2, d2) \<and> db_rel H sp3 (dbPath fl2) d2
         \<and> sp_current sp3 = sp_current sp2 + 1 \<and> sp_committed sp3 = (sp_committed (spec_reopen sp2))(sp_current sp3 \<mapsto> m3)
         \<and> (\<forall>k. m3 k = (if k \<in> fst ` snd ` set (exported fl m keys) then m k else m2 k)))"
proof -
  let ?ex = "exported fl m keys"
  obtain content where content: "gm_get (ds_files d1) (Clean f) = Some content" and
    read: "if ?ex = [] \<or> maxBatchOperations < length ?ex \<or> maxImportFileSize < length content then \<exists>err. readImportFile C fl2 f d1 = Inl err
      else \<exists>es. readImportFile C fl2 f d1 = Inr es \<and> list_all2 (\<lambda>e (k, b). parseImportEntry e = Inr (k, b) \<and> k \<noteq> emptyKey) es (map snd ?ex)"
    using import_written [OF assms(1-16)] by blast
  show ?thesis
  proof (cases "?ex = [] \<or> maxBatchOperations < length ?ex \<or> maxImportFileSize < length content")
    case True
    with read obtain err where "readImportFile C fl2 f d1 = Inl err" by (simp only: if_True) blast
    then have "\<exists>err. runImport C H fl2 env2 [f] d1 = (Inl err, d1)" by (simp add: runImport_def idx_def)
    with True content show ?thesis by simp
  next
    case False
    with read obtain es where es: "readImportFile C fl2 f d1 = Inr es"
      "list_all2 (\<lambda>e (k, b). parseImportEntry e = Inr (k, b) \<and> k \<noteq> emptyKey) es (map snd ?ex)" by (simp only: if_False) blast
    have mem: "k \<noteq> emptyKey \<and> m k = Some b \<and> wf_key k \<and> b \<noteq> [] \<and> length b \<le> MaxValueSize" if "(s, k, b) \<in> set ?ex" for s k b
      using that [unfolded exported_mem] bspec [OF survives that] parseKey_wf by (auto simp: value_survives_def)
    then have kbs: "\<forall>(k, b) \<in> set (map snd ?ex). wf_key k \<and> b \<noteq> [] \<and> length b \<le> MaxValueSize" by fastforce
    have eq: "map (\<lambda>(k, b). putOp k b) (map snd ?ex) = map (\<lambda>(s, k, b). putOp k b) ?ex" by (simp add: split_beta)
    have "es \<noteq> []" using list_all2_lengthD [OF es(2)] False by auto
    from import_rel [OF target(1) H refl fl2(2) es(1,2) this kbs target(2,3) ok2 [folded eq]]
    obtain out2 d2 sp3 where run2: "runImport C H fl2 env2 [f] d1 = (Inr out2, d2)" "db_rel H sp3 (dbPath fl2) d2" "sp_current sp3 = sp_current sp2 + 1"
      "sp_committed sp3 = (sp_committed (spec_reopen sp2))(sp_current sp2 + 1 \<mapsto> putAll (map snd ?ex) m2)" by blast
    have "putAll (map snd ?ex) m2 k = (if k \<in> fst ` snd ` set ?ex then m k else m2 k)" for k
      using putAll_get [of "map snd ?ex" m m2 k] mem by (force simp: image_image)
    with run2 have "\<exists>out2 d2 sp3 m3. runImport C H fl2 env2 [f] d1 = (Inr out2, d2) \<and> db_rel H sp3 (dbPath fl2) d2
         \<and> sp_current sp3 = sp_current sp2 + 1 \<and> sp_committed sp3 = (sp_committed (spec_reopen sp2))(sp_current sp3 \<mapsto> m3)
         \<and> (\<forall>k. m3 k = (if k \<in> fst ` snd ` set ?ex then m k else m2 k))" by metis
    with False content show ?thesis by simp
  qed
qed

section \<open>Proof files\<close>

lemma nibble_siblingData: "nibble_children (siblingData d n i)"
  by (auto simp: nibble_children_def siblingData_def nibble_range_iff split: option.splits)

lemma leafProof_siblings: "leafProof r k taken d l q = Inr p \<Longrightarrow> pf_Siblings p = pf_Siblings q"
  by (auto simp: leafProof_def split: if_splits sum.splits)

lemma genLoop_nibbles:
  "genLoop r k path d left taken nk q = Inr p \<Longrightarrow> \<forall>s \<in> set (pf_Siblings q). nibble_children s \<Longrightarrow> \<forall>s \<in> set (pf_Siblings p). nibble_children s"
proof (induction left arbitrary: d taken nk q)
  case (Suc left)
  show ?case
  proof (cases "ri_GetNode r nk")
    case (Inr no)
    show ?thesis
    proof (cases no)
      case (Some n)
      show ?thesis
      proof (cases n)
        case (Internal i)
        let ?q = "\<lambda>nib. q\<lparr>pf_Siblings := pf_Siblings q @ [siblingData d nib i]\<rparr>"
        have q: "\<forall>s \<in> set (pf_Siblings (?q nib)). nibble_children s" for nib using Suc.prems(2) nibble_siblingData by auto
        obtain nib where nib: "idx path d = Inr nib" using Suc.prems(1) Inr Some Internal by (cases "idx path d") simp_all
        show ?thesis
        proof (cases "InternalNode_Child i nib")
          case None
          then have "p = (?q nib)\<lparr>pf_Type := ProofTypeExclusionEmpty\<rparr>" using Suc.prems(1) Inr Some Internal nib by simp
          with q [of nib] show ?thesis by simp
        next
          case (Some c)
          then show ?thesis using Suc.IH [OF _ q] Suc.prems(1) Inr \<open>no = Some n\<close> Internal nib by simp
        qed
      qed (use Suc.prems Inr Some in \<open>auto dest: leafProof_siblings\<close>)
    qed (use Suc.prems Inr in simp)
  qed (use Suc.prems in simp)
qed (auto dest: leafProof_siblings split: sum.splits option.splits Node.splits)

lemma Generate_nibbles: "Generate r k = Inr p \<Longrightarrow> \<forall>s \<in> set (pf_Siblings p). nibble_children s"
  by (auto simp: Generate_def bindE_eq_Inr newProof_def split: if_splits dest!: genLoop_nibbles)

lemma typeFields_encoded: "map_of (typeFields p) ''encoded'' = None"
  unfolding typeFields_def
  by (cases "pf_Type p = ProofTypeInclusion"; cases "pf_Type p = ProofTypeExclusionNeighbor"; cases "pf_NeighborLeaf p")
    (simp_all only: if_True if_False option.case map_of.simps fst_conv snd_conv fun_upd_apply list.inject char.inject simp_thms)

lemma proofFields_lookup:
  "map_of (proofFields s k p @ [(''encoded'', j)]) ''encoded'' = Some j" "map_of (proofFields s k p @ [(''encoded'', j)]) ''key'' = Some (JString s)"
  using typeFields_encoded [of p] by (simp_all add: proofFields_def map_add_def)

text \<open>
  The law of the JSON package for an object: strings come back, made valid UTF-8.
\<close>

definition proof_law :: "Codecs \<Rightarrow> (string \<Rightarrow> string) \<Rightarrow> bool" where
  "proof_law C clean \<longleftrightarrow> (\<forall>s. ascii s \<longrightarrow> clean s = s)
     \<and> (\<forall>fs. \<exists>fs'. jsonUnmarshal C (jsonMarshal C (JObject fs)) = Inr (JObject fs')
          \<and> (\<forall>k s. map_of fs k = Some (JString s) \<longrightarrow> map_of fs' k = Some (JString (clean s))))"

text \<open>
  C17: proof files. When \<^verbatim>\<open>pb prove\<close> succeeds and writes a file, \<^verbatim>\<open>pb verify\<close> on this file prints that the proof is valid,
  with the version, the root hash of the database at that version, and, for a key that is present, its value.
\<close>

theorem prove_then_verify:
  assumes db: "db_rel H sp (dbPath fl) d" and H: "\<And>x. wf_hash (H x)" and "hash_ok H (sp_hist sp)"
    and v: "v = specVersion fl (spec_reopen sp)" "sp_committed (spec_reopen sp) v = Some m"
    and k: "parseKey (hexKey fl) s = Inr k" "k \<noteq> emptyKey" and f: "outputFile fl \<noteq> []"
    and run: "runProve C H fl env [s] d = (Inr out, d1)" and law: "proof_law C clean"
    and sz: "\<forall>t. gm_get (ds_files d1) (Clean (outputFile fl)) = Some t \<longrightarrow> length t \<le> maxImportFileSize"
  shows "\<exists>p. runVerify C H fl2 [outputFile fl] d1 = Inr [verdict fl2 (JString (clean s)) p True]
    \<and> pf_Key p = k \<and> pf_RootHash p = merkle_root H (hashed H m) \<and> pf_Version p = v
    \<and> (case m k of None \<Rightarrow> pf_Type p = ProofTypeExclusionEmpty | Some b \<Rightarrow> pf_Type p = ProofTypeInclusion \<and> pf_Value p = Some b)"
proof -
  let ?sp = "spec_reopen sp" and ?f = "outputFile fl"
  obtain store t where t: "openDatabase (dbPath fl) d = Inr store" "openTree (env_now env) store = Inr t" "tree_rel H ?sp t"
    using open_rel [OF db H] by blast
  have ok: "hash_ok H (sp_hist ?sp)" using assms(3) by simp
  obtain rd t' p where rd: "Tree_Reader t v = (Inr rd, t')" and p: "Generate (asTreeReaderInterface H rd) k = Inr p" "Verify H p = Inr ()"
    "wf_proof p" "pf_Key p = k" "pf_Version p = v" "GetRootHash t v = Inr (pf_RootHash p)"
    "pf_Type p = (if m k = None then ProofTypeExclusionEmpty else ProofTypeInclusion)" "pf_Value p = m k"
    using generated_proof [OF t(3) H ok v(2) parseKey_wf [OF k(1)] k(2)] by blast
  have root: "pf_RootHash p = merkle_root H (hashed H m)" using p(6) GetRootHash_rootAt [OF t(3), of v] v(2) by (simp add: rootAt_def)
  obtain t2 where at: "proveAt H (theVersion fl t) k t = (Inr p, t2)"
    using rd p(1) theVersion_rel [OF t(3), of fl] v(1) by (simp add: proveAt_def)
  obtain bs where bs: "Encode p = Inr bs" using run t(1,2) k(1) at by (auto simp: runProve_def idx_def Let_def split: sum.splits)
  let ?fs = "proofFields s k p @ [(''encoded'', JString (EncodeToString bs))]"
  have path: "validatePath ?f = Inr ()"
    using run t(1,2) k(1) at bs f by (auto simp: runProve_def idx_def Let_def split: sum.splits)
  obtain d2 where "os_WriteFile ?f (jsonMarshal C (JObject ?fs)) (closeStore (dbPath fl) t2 d) = (Inr (), d2)" "d1 = d2"
    using run t(1,2) k(1) at bs f path by (auto simp: runProve_def idx_def Let_def split: sum.splits prod.splits)
  then have written: "gm_get (ds_files d1) (Clean ?f) = Some (jsonMarshal C (JObject ?fs))" "\<not> ds_refuse d1 (Clean ?f)"
    by (auto simp: os_WriteFile_def split: if_splits)
  obtain fs' where fs': "jsonUnmarshal C (jsonMarshal C (JObject ?fs)) = Inr (JObject fs')"
    "\<And>k s. map_of ?fs k = Some (JString s) \<Longrightarrow> map_of fs' k = Some (JString (clean s))" using law unfolding proof_law_def by blast
  have "map_of ?fs ''encoded'' = Some (JString (EncodeToString bs))" "map_of ?fs ''key'' = Some (JString s)" by (rule proofFields_lookup)+
  then have enc: "map_of fs' ''encoded'' = Some (JString (EncodeToString bs))" and key: "map_of fs' ''key'' = Some (JString (clean s))"
    using fs'(2) law ascii_hex [of bs] unfolding proof_law_def by metis+
  have read: "readProofFile C ?f d1 = Inr fs'"
    using path written sz fs'(1) by (simp add: readProofFile_def validateFileSize_def os_Stat_def os_Open_def io_ReadAll_def)
  have dec: "Decode bs = Inr (canonProof p)" using Decode_Encode [OF bs p(3) Generate_nibbles [OF p(1)]] .
  have "runVerify C H fl2 [?f] d1 = Inr [verdict fl2 (JString (clean s)) (canonProof p) True]"
    using read enc key dec p(2) by (simp add: runVerify_def idx_def decodeProofFile_def)
  moreover have "pf_Version (canonProof p) = v" using p(5) by (simp add: canonProof_def)
  ultimately show ?thesis using p(4,7,8) root by (intro exI [where x = "canonProof p"]) (auto split: option.split)
qed

section \<open>Examples\<close>

text \<open>A format for lists of strings in which JSON objects and entries are written in the examples: unary lengths.\<close>

fun encStrings :: "string list \<Rightarrow> string" where
  "encStrings [] = []"
| "encStrings (x # xs) = replicate (length x) CHR ''1'' @ CHR ''0'' # x @ encStrings xs"

function decStrings :: "string \<Rightarrow> string list" where
  "decStrings s =
     (if s = [] then []
      else let n = length (takeWhile ((=) CHR ''1'') s); r = drop (Suc n) s in take n r # decStrings (drop n r))"
  by pat_completeness auto
termination by (relation "measure length") auto

declare decStrings.simps [simp del]

lemma decStrings_encStrings: "decStrings (encStrings xs) = xs"
proof (induction xs)
  case (Cons x xs)
  let ?s = "replicate (length x) CHR ''1'' @ CHR ''0'' # x @ encStrings xs"
  have "takeWhile ((=) CHR ''1'') ?s = replicate (length x) CHR ''1''" by (simp add: takeWhile_append)
  with Cons show ?case by (subst decStrings.simps) (simp add: Let_def)
qed (simp add: decStrings.simps)

fun entryStrings :: "ExportEntry list \<Rightarrow> string list" where
  "entryStrings [] = []"
| "entryStrings (e # es) = ee_Key e # ee_KeyHex e # ee_Value e # ee_ValueHex e # entryStrings es"

fun stringEntries :: "string list \<Rightarrow> ExportEntry list" where
  "stringEntries (k # kh # v # vh # rest) = \<lparr>ee_Key = k, ee_KeyHex = kh, ee_Value = v, ee_ValueHex = vh\<rparr> # stringEntries rest"
| "stringEntries _ = []"

lemma stringEntries_entryStrings: "stringEntries (entryStrings es) = es"
  by (induction es) simp_all

fun fieldStrings :: "(string \<times> json) list \<Rightarrow> string list" where
  "fieldStrings [] = []"
| "fieldStrings ((k, JString s) # fs) = k # s # fieldStrings fs"
| "fieldStrings (_ # fs) = fieldStrings fs"

fun stringFields :: "string list \<Rightarrow> (string \<times> json) list" where
  "stringFields (k # s # rest) = (k, JString s) # stringFields rest"
| "stringFields _ = []"

lemma stringFields_fieldStrings: "map_of fs k = Some (JString s) \<Longrightarrow> map_of (stringFields (fieldStrings fs)) k = Some (JString s)"
  by (induction fs rule: fieldStrings.induct) (auto split: if_splits)

definition toyCodecs :: Codecs where
  "toyCodecs = \<lparr>jsonMarshal = (\<lambda>j. case j of JObject fs \<Rightarrow> encStrings (fieldStrings fs) | _ \<Rightarrow> []),
     jsonUnmarshal = (\<lambda>s. Inr (JObject (stringFields (decStrings s)))), encodeExport = (\<lambda>ed. encStrings (entryStrings (ed_Entries ed))),
     decodeExport = (\<lambda>s. Inr \<lparr>ed_Version = 0, ed_ExportTime = [], ed_RootHash = [], ed_EntryCount = 0, ed_Entries = stringEntries (decStrings s)\<rparr>),
     decodeBatch = (\<lambda>s. Inl (Errorf ''unused'')), csvWrite = (\<lambda>rows. encStrings (map encStrings rows)),
     csvRead = (\<lambda>s. map (Inr \<circ> decStrings) (decStrings s))\<rparr>"

lemma toyCodecs_laws: "proof_law toyCodecs id" "export_law toyCodecs id" "csv_law toyCodecs"
proof -
  show "proof_law toyCodecs id"
    using stringFields_fieldStrings by (auto simp: proof_law_def toyCodecs_def decStrings_encStrings)
  have "cleanEntry id = id" by (simp add: cleanEntry_def fun_eq_iff)
  then show "export_law toyCodecs id"
    by (auto simp: export_law_def toyCodecs_def decStrings_encStrings stringEntries_entryStrings)
  show "csv_law toyCodecs" by (simp add: csv_law_def toyCodecs_def decStrings_encStrings comp_def)
qed

lemma length_encStrings: "length (encStrings xs) = sum_list (map (\<lambda>x. 2 * length x + 1) xs)"
  by (induction xs) simp_all

text \<open>The database that \<^verbatim>\<open>pb init\<close> makes on the empty disk.\<close>

definition toyDB :: Disk where
  "toyDB = snd (runInit toyFlags toyEnv (Inr ()) toyDisk)"

lemma toyFlags_simps [simp]: "dbPath toyFlags = ''./pb.db''" "hexKey toyFlags" "versionFlag toyFlags = None" "outputFile toyFlags = []"
  "verboseMode toyFlags = False" "jsonOutput toyFlags = False" "importFormat toyFlags = ''json''" "\<not> validateOnly toyFlags" "backend toyFlags = ''pebble''"
  "exportFormat toyFlags = ''json''" "keysFile toyFlags = []" "includeHex toyFlags = False"
  by (simp_all add: toyFlags_def defaultFlags_def)

lemma toyDB_rel: "db_rel toyHash spec_init ''./pb.db'' toyDB" "ds_files toyDB = []" "ds_refuse toyDB = (\<lambda>_. False)"
  "q \<noteq> Clean ''./pb.db'' \<Longrightarrow> gm_get (ds_dbs toyDB) q = None"
proof -
  have "\<not> is_ok (os_Stat toyDisk (dbPath toyFlags))" "\<not> ds_refuse toyDisk (Clean (dbPath toyFlags))"
    by (simp_all add: toyDisk_def os_Stat_def)
  from init_rel [OF _ this, of toyEnv toyHash] obtain d' out where d': "runInit toyFlags toyEnv (Inr ()) toyDisk = (Inr out, d')"
    "db_rel toyHash spec_init ''./pb.db'' d'" "ds_files d' = ds_files toyDisk" by auto
  then show "db_rel toyHash spec_init ''./pb.db'' toyDB" "ds_files toyDB = []" by (simp_all add: toyDB_def toyDisk_def)
  show "ds_refuse toyDB = (\<lambda>_. False)" "q \<noteq> Clean ''./pb.db'' \<Longrightarrow> gm_get (ds_dbs toyDB) q = None"
    by (auto simp: toyDB_def runInit_def toyDisk_def os_Stat_def is_ok_def closeStore_def Let_def split: sum.splits)
qed

lemma spec_reopen_init [simp]: "spec_reopen spec_init = spec_init"
  by (simp add: spec_reopen_def spec_init_def)

lemma cleaned: "Clean ''p.json'' \<noteq> Clean ''./pb.db''" "validatePath ''p.json'' = Inr ()"
  by code_simp+

text \<open>The proof that a key is absent from the empty version.\<close>

definition absentProof :: Proof where
  "absentProof = \<lparr>pf_Type = ProofTypeExclusionEmpty, pf_Key = toyKey, pf_Value = None, pf_NeighborLeaf = None, pf_Siblings = [],
     pf_RootHash = EmptyHash, pf_Version = 0\<rparr>"

lemma Encode_absentProof: "\<exists>bs. Encode absentProof = Inr bs \<and> length bs \<le> MaxProofSize"
proof -
  have "ValidateKey toyKey = Inr ()" by (simp add: ValidateKey_def Key_IsEmpty_def)
  then have "Proof_IsValid absentProof = Inr ()" by (simp add: absentProof_def Proof_IsValid_def proofType_defs)
  then show ?thesis
    by (auto simp: Encode_def absentProof_def writeTypeData_def proofType_defs writeSiblings_def MaxProofSize_def toyKey_def Let_def size_defs EmptyHash_def)
qed

lemma toyProve:
  "\<exists>bs d2. Encode absentProof = Inr bs \<and> length bs \<le> MaxProofSize
    \<and> runProve toyCodecs toyHash (toyFlags\<lparr>outputFile := ''p.json''\<rparr>) toyEnv [EncodeToString toyKey] toyDB = (Inr [OutputResult (JObject
        [(''status'', JString ''success''), (''message'', JString (''Proof written to '' @ ''p.json''))])], d2)
    \<and> gm_get (ds_files d2) (Clean ''p.json'') = Some (jsonMarshal toyCodecs (JObject (proofFields (EncodeToString toyKey) toyKey absentProof
        @ [(''encoded'', JString (EncodeToString bs))])))"
proof -
  obtain store t where t: "openDatabase ''./pb.db'' toyDB = Inr store" "openTree (env_now toyEnv) store = Inr t" "tree_rel toyHash spec_init t"
    using open_rel [OF toyDB_rel(1) wf_toyHash, of "env_now toyEnv"] by auto
  have cur: "t_latestVer t = 0" using tree_relD(4) [OF t(3)] by (simp add: spec_init_def)
  have root: "gm_get (t_rootHashes t) 0 = Some EmptyHash"
    using rel_root [OF t(3), of 0] by (simp add: spec_init_def merkle_root_def)
  have key: "parseKey True (EncodeToString toyKey) = Inr toyKey" using parseKey_hex [OF wf_toyKey] .
  obtain sn db1 where snap: "NewSnapshot (t_db t) = (sn, db1)" by (cases "NewSnapshot (t_db t)")
  have valid: "ValidateKey toyKey = Inr ()" by (simp add: ValidateKey_def Key_IsEmpty_def)
  obtain t2 where at: "proveAt toyHash 0 toyKey t = (Inr absentProof, t2)"
    using root snap valid by (simp add: proveAt_def Tree_Reader_def Generate_def asTreeReaderInterface_def newProof_def absentProof_def)
  obtain bs where bs: "Encode absentProof = Inr bs" "length bs \<le> MaxProofSize" using Encode_absentProof by blast
  let ?d1 = "closeStore ''./pb.db'' t2 toyDB"
  have "gm_get (ds_dbs ?d1) (Clean ''p.json'') = None" "ds_refuse ?d1 = (\<lambda>_. False)"
    using toyDB_rel(3,4) cleaned(1) by (auto simp: closeStore_def)
  then show ?thesis using t(1,2) key at bs cleaned(2) cur
    by (simp add: runProve_def idx_def theVersion_def GetLatestVersion_def os_WriteFile_def Let_def)
qed

theorem prove_then_verify_witness:
  "\<exists>p d1. runProve toyCodecs toyHash (toyFlags\<lparr>outputFile := ''p.json''\<rparr>) toyEnv [EncodeToString toyKey] toyDB = (Inr [OutputResult (JObject
        [(''status'', JString ''success''), (''message'', JString (''Proof written to '' @ ''p.json''))])], d1)
    \<and> runVerify toyCodecs toyHash toyFlags [''p.json''] d1 = Inr [verdict toyFlags (JString (EncodeToString toyKey)) p True]
    \<and> pf_Key p = toyKey \<and> pf_Type p = ProofTypeExclusionEmpty"
proof -
  let ?fl = "toyFlags\<lparr>outputFile := ''p.json''\<rparr>"
  obtain bs d1 where run: "Encode absentProof = Inr bs" "length bs \<le> MaxProofSize"
    "runProve toyCodecs toyHash ?fl toyEnv [EncodeToString toyKey] toyDB = (Inr [OutputResult (JObject
        [(''status'', JString ''success''), (''message'', JString (''Proof written to '' @ ''p.json''))])], d1)"
    "gm_get (ds_files d1) (Clean ''p.json'') = Some (jsonMarshal toyCodecs (JObject (proofFields (EncodeToString toyKey) toyKey absentProof
        @ [(''encoded'', JString (EncodeToString bs))])))" by (rule exE [OF toyProve], erule exE, elim conjE) (rule that)
  have db: "db_rel toyHash spec_init (dbPath ?fl) toyDB" using toyDB_rel(1) by simp
  have v: "0 = specVersion ?fl (spec_reopen spec_init)" "sp_committed (spec_reopen spec_init) 0 = Some Map.empty"
    unfolding spec_reopen_init by (simp_all add: specVersion_def spec_init_def)
  have key: "parseKey (hexKey ?fl) (EncodeToString toyKey) = Inr toyKey" using parseKey_hex [OF wf_toyKey] by simp
  have "length (jsonMarshal toyCodecs (JObject (proofFields (EncodeToString toyKey) toyKey absentProof @ [(''encoded'', JString (EncodeToString bs))])))
      \<le> maxImportFileSize"
  proof -
    have "length toyKey = 32" "length EmptyHash = 32" by (simp_all add: toyKey_def EmptyHash_def size_defs)
    with run(2) show ?thesis by (simp add: toyCodecs_def length_encStrings proofFields_def typeFields_def absentProof_def proofType_defs
        proofTypeToString_def MaxProofSize_def maxImportFileSize_def)
  qed
  with run(4) have sz: "\<forall>t. gm_get (ds_files d1) (Clean (outputFile ?fl)) = Some t \<longrightarrow> length t \<le> maxImportFileSize" by simp
  have "outputFile ?fl \<noteq> []" by simp
  note verified = prove_then_verify [OF db wf_toyHash toy_hash_ok_init v key toyKey_not_empty this run(3) toyCodecs_laws(1) sz, of toyFlags]
  then obtain p where p: "runVerify toyCodecs toyHash toyFlags [outputFile ?fl] d1 = Inr [verdict toyFlags (JString (id (EncodeToString toyKey))) p True]"
    "pf_Key p = toyKey" "pf_Type p = ProofTypeExclusionEmpty" by (elim exE conjE) (simp only: option.case)
  have "outputFile ?fl = ''p.json''" by simp
  with p(1) have "runVerify toyCodecs toyHash toyFlags [''p.json''] d1 = Inr [verdict toyFlags (JString (EncodeToString toyKey)) p True]"
    by (simp only: id_apply)
  with run(3) p(2,3) show ?thesis by (intro exI conjI)
qed

text \<open>A disk with two databases: one with the key of the examples at version 1, one empty.\<close>

definition twoDBs :: "Tree \<Rightarrow> Disk" where
  "twoDBs t1 = toyDisk\<lparr>ds_dbs := [(Clean ''./a.db'', ms_data (t_db t1)), (Clean ''./b.db'', [])]\<rparr>"

definition exportFlags :: Flags where
  "exportFlags = toyFlags\<lparr>dbPath := ''./a.db'', keysFormat := ''hex'', exportOutput := ''e.json''\<rparr>"

definition exportEnv :: Env where
  "exportEnv = toyEnv\<lparr>env_stdin := EncodeToString toyKey\<rparr>"

lemma exportFlags_simps: "dbPath exportFlags = ''./a.db''" "versionFlag exportFlags = None" "keysFormat exportFlags = ''hex''" "exportOutput exportFlags = ''e.json''"
  "exportFormat exportFlags = ''json''" "keysFile exportFlags = []" "includeHex exportFlags = False" "jsonOutput exportFlags = False"
  by (simp_all add: exportFlags_def)

lemma twoDBs_paths: "Clean ''./a.db'' \<noteq> Clean ''./b.db''" "Clean ''e.json'' \<noteq> Clean ''./a.db''" "Clean ''e.json'' \<noteq> Clean ''./b.db''"
  "validatePath ''e.json'' = Inr ()" "''e.json'' \<noteq> []" "''e.json'' \<noteq> ''-''"
  by code_simp+

text \<open>The hexadecimal form of the key is one line without spaces.\<close>

lemma hexKey_toy: "EncodeToString toyKey = replicate 64 CHR ''1''"
proof -
  have "digit 1 = CHR ''1''" by code_simp
  then have one: "EncodeToString [0x11] = [CHR ''1'', CHR ''1'']" by (simp add: EncodeToString_def)
  have "EncodeToString (replicate n 0x11) = replicate (2 * n) CHR ''1''" for n using one by (induction n) (simp_all add: EncodeToString_def)
  then have "EncodeToString (replicate 32 0x11) = replicate (2 * 32) CHR ''1''" .
  moreover have "2 * 32 = (64 :: nat)" by simp
  ultimately show ?thesis unfolding toyKey_def by (simp only:)
qed

lemma no_space: "w \<in> set spaces \<Longrightarrow> w \<noteq> [] \<and> hd w \<noteq> CHR ''1'' \<and> last w \<noteq> CHR ''1''"
  by (auto simp: spaces_def char_of_eq_iff)

lemma trim_ones: "TrimSpace (replicate (Suc n) CHR ''1'') = replicate (Suc n) CHR ''1''"
proof -
  let ?s = "replicate (Suc n) CHR ''1''"
  have "\<not> prefix w ?s \<and> \<not> suffix w ?s" if w: "w \<in> set spaces" for w
  proof
    show "\<not> prefix w ?s"
    proof
      assume "prefix w ?s"
      then have "hd w = hd ?s" using no_space [OF w] by (cases w) auto
      then show False using no_space [OF w] by simp
    qed
    show "\<not> suffix w ?s"
    proof
      assume "suffix w ?s"
      then have "last w = last ?s" using no_space [OF w] by (metis suffix_def last_appendR)
      then show False using no_space [OF w] by (simp add: last_replicate del: replicate.simps)
    qed
  qed
  then have "find (\<lambda>w. prefix w ?s) spaces = None" "find (\<lambda>w. suffix w ?s) spaces = None" unfolding find_None_iff by blast+
  then show ?thesis unfolding TrimSpace_def by (subst trimLeft.simps) (simp add: leadingSpace_def trimRight.simps del: replicate.simps)
qed

lemma rawLines_ones: "rawLines (replicate (Suc n) CHR ''1'') = [replicate (Suc n) CHR ''1'']"
proof -
  have "CHR ''1'' \<noteq> newline" by code_simp
  then show ?thesis by (induction n) simp_all
qed

lemma readKeys_toy: "readKeys exportFlags exportEnv d = Inr [EncodeToString toyKey]"
proof -
  have n: "64 = Suc 63" by simp
  have "CHR ''1'' \<noteq> char_of (13 :: nat)" by code_simp
  then have "dropCR (EncodeToString toyKey) = EncodeToString toyKey"
    unfolding hexKey_toy n by (simp add: dropCR_def del: replicate.simps)
  moreover have "length (EncodeToString toyKey) < maxTokenSize" by (simp add: toyKey_def maxTokenSize_def)
  moreover have "rawLines (EncodeToString toyKey) = [EncodeToString toyKey]" unfolding hexKey_toy n by (rule rawLines_ones)
  ultimately have "scanLines (EncodeToString toyKey) = ([EncodeToString toyKey], False)" by (simp add: scanLines_def)
  moreover have "keyLines [EncodeToString toyKey] = [EncodeToString toyKey]"
  proof -
    have "TrimSpace (replicate 64 CHR ''1'') = CHR ''1'' # replicate 63 CHR ''1''" using trim_ones [of 63] by (simp only: n replicate_Suc)
    moreover have "CHR ''1'' # replicate 63 CHR ''1'' = replicate 64 CHR ''1''" by (simp only: n replicate_Suc)
    moreover have "\<not> prefix ''#'' (replicate 64 CHR ''1'')" by (simp only: n replicate_Suc) simp
    ultimately show ?thesis unfolding hexKey_toy keyLines_def by simp
  qed
  ultimately show ?thesis by (simp add: readKeys_def exportFlags_simps exportEnv_def)
qed

lemma toyTree_durable: "durable toyTree"
  using durable_new [OF empty_NewStorage _ NewTree_toyTree] by (simp add: DefaultTreeConfig_def)

lemma twoDBs_rel:
  assumes "Tree_Put toyHash 7 toyKey toyValue toyTree = (Inr 1, t1)"
  shows "db_rel toyHash (snd (spec_Put toyKey toyValue spec_init)) ''./a.db'' (twoDBs t1)" "db_rel toyHash spec_init ''./b.db'' (twoDBs t1)"
proof -
  have rel: "tree_rel toyHash (snd (spec_Put toyKey toyValue spec_init)) t1" using toy_put [of 7] assms by auto
  have dur: "durable t1"
    using persist.keep_Put [OF toyTree_rel wf_toyHash wf_toyKey toy_hash_ok_put toyTree_durable, of 7] assms by simp
  show "db_rel toyHash (snd (spec_Put toyKey toyValue spec_init)) ''./a.db'' (twoDBs t1)"
    unfolding db_rel_def using rel dur by (intro conjI exI [where x = t1]) (simp_all add: twoDBs_def toyDisk_def)
  have "ms_data (t_db toyTree) = []" by (simp add: toyTree_def NewStorage_def NewStorageWithOptions_def Let_def)
  then show "db_rel toyHash spec_init ''./b.db'' (twoDBs t1)"
    unfolding db_rel_def using toyTree_rel toyTree_durable twoDBs_paths(1)
    by (intro conjI exI [where x = toyTree]) (simp_all add: twoDBs_def toyDisk_def)
qed

text \<open>The export of the first database.\<close>

definition toyEntry :: ExportEntry where
  "toyEntry = exportEntry False (EncodeToString toyKey) toyKey toyValue"

lemma toyExport:
  assumes put: "Tree_Put toyHash 7 toyKey toyValue toyTree = (Inr 1, t1)"
  shows "\<exists>out d1. runExportKeys toyCodecs toyHash exportFlags exportEnv (twoDBs t1) = (Inr out, d1)
    \<and> gm_get (ds_files d1) (Clean ''e.json'') = Some (encStrings (entryStrings [toyEntry])) \<and> db_rel toyHash spec_init ''./b.db'' d1"
proof -
  let ?sp = "snd (spec_Put toyKey toyValue spec_init)"
  obtain store t where t: "openDatabase ''./a.db'' (twoDBs t1) = Inr store" "openTree (env_now exportEnv) store = Inr t" "tree_rel toyHash (spec_reopen ?sp) t"
    using open_rel [OF twoDBs_rel(1) [OF put] wf_toyHash, of "env_now exportEnv"] by auto
  have sp: "sp_committed (spec_reopen ?sp) 1 = Some toyMap" "sp_current (spec_reopen ?sp) = 1" "sp_hist (spec_reopen ?sp) = [toyMap, Map.empty]"
    by (simp_all add: spec_Put_toy spec_reopen_def)
  have cur: "theVersion exportFlags t = 1" using theVersion_rel [OF t(3)] sp(2) by (simp add: exportFlags_simps specVersion_def)
  obtain h where root: "GetRootHash t 1 = Inr h" using GetRootHash_rootAt [OF t(3), of 1] sp(1) by (simp add: rootAt_def)
  have max: "MaxVersion \<noteq> 0" by (simp add: MaxVersion_def)
  have "Tree_Get toyHash t 1 toyKey = (spec_get 1 toyKey (spec_reopen ?sp), t)"
    using get_refines [OF t(3) wf_toyHash _ wf_toyKey] toy_hash_ok unfolding sp(3) .
  then have get: "Tree_Get toyHash t 1 toyKey = (Inr (Some toyValue), t)"
    using one_le_MaxVersion max toyKey_not_empty sp(1) by (simp add: spec_get_def leD toyMap_def)
  have key: "parseKey True (EncodeToString toyKey) = Inr toyKey" using parseKey_hex [OF wf_toyKey] .
  have loop: "exportLoop toyHash exportFlags 1 [EncodeToString toyKey] t = (Inr ([toyEntry], 0), t)"
    using get key by (simp add: exportFlags_simps toyEntry_def)
  have refuse: "\<not> ds_refuse (twoDBs t1) (Clean ''e.json'')" "gm_get (ds_dbs (twoDBs t1)) (Clean ''e.json'') = None"
    using twoDBs_paths(2,3) by (simp_all add: twoDBs_def toyDisk_def)
  let ?d = "(twoDBs t1)\<lparr>ds_files := gm_put (Clean ''e.json'') (encStrings (entryStrings [toyEntry])) (gm_put (Clean ''e.json'') [] (ds_files (twoDBs t1)))\<rparr>"
  have "exportText toyCodecs exportFlags exportEnv 1 h [toyEntry] = Inr (encStrings (entryStrings [toyEntry]))"
    by (simp add: exportText_def exportFlags_simps toyCodecs_def)
  then obtain out where wr: "writeExport exportFlags exportEnv 1 (length [EncodeToString toyKey]) (length [toyEntry]) 0
      (exportText toyCodecs exportFlags exportEnv 1 h [toyEntry]) (twoDBs t1) = (Inr out, ?d)"
    using refuse twoDBs_paths(4-6) by (simp add: writeExport_def exportFlags_simps os_WriteFile_def)
  have run: "runExportKeys toyCodecs toyHash exportFlags exportEnv (twoDBs t1) = (Inr out, closeStore ''./a.db'' t ?d)"
    using t(1,2) cur root loop wr unfolding runExportKeys_def exportFlags_simps(1) by (simp add: readKeys_toy Let_def)
  have "gm_get (ds_files (closeStore ''./a.db'' t ?d)) (Clean ''e.json'') = Some (encStrings (entryStrings [toyEntry]))"
    by (simp add: closeStore_def)
  moreover have "db_rel toyHash spec_init ''./b.db'' (closeStore ''./a.db'' t ?d)"
    using twoDBs_rel(2) [OF put] twoDBs_paths(1,3) by (auto simp: db_rel_def closeStore_def)
  ultimately show ?thesis using run by blast
qed

theorem export_import_witness:
  "\<exists>t1 out d1 out2 d2 sp3 m3. Tree_Put toyHash 7 toyKey toyValue toyTree = (Inr 1, t1)
    \<and> runExportKeys toyCodecs toyHash exportFlags exportEnv (twoDBs t1) = (Inr out, d1)
    \<and> runImport toyCodecs toyHash (toyFlags\<lparr>dbPath := ''./b.db''\<rparr>) toyEnv [''e.json''] d1 = (Inr out2, d2)
    \<and> db_rel toyHash sp3 ''./b.db'' d2 \<and> sp_committed sp3 = [0 \<mapsto> Map.empty, 1 \<mapsto> m3] \<and> m3 toyKey = Some toyValue"
proof -
  let ?sp = "snd (spec_Put toyKey toyValue spec_init)" and ?fl2 = "toyFlags\<lparr>dbPath := ''./b.db''\<rparr>"
  obtain t1 where put: "Tree_Put toyHash 7 toyKey toyValue toyTree = (Inr 1, t1)" using toy_put [of 7] by blast
  obtain out d1 where run: "runExportKeys toyCodecs toyHash exportFlags exportEnv (twoDBs t1) = (Inr out, d1)"
    and e: "gm_get (ds_files d1) (Clean ''e.json'') = Some (encStrings (entryStrings [toyEntry]))" and target: "db_rel toyHash spec_init ''./b.db'' d1"
    using toyExport [OF put] by blast
  have v: "1 = specVersion exportFlags (spec_reopen ?sp)" "sp_committed (spec_reopen ?sp) 1 = Some toyMap"
    by (simp_all add: spec_Put_toy spec_reopen_def specVersion_def exportFlags_simps)
  have key: "parseKey True (EncodeToString toyKey) = Inr toyKey" using parseKey_hex [OF wf_toyKey] .
  have ex: "exported exportFlags toyMap [EncodeToString toyKey] = [(EncodeToString toyKey, toyKey, toyValue)]"
    using key toyKey_not_empty by (simp add: exportFlags_simps toyMap_def)
  have survives: "\<forall>(s, k, b) \<in> set (exported exportFlags toyMap [EncodeToString toyKey]). key_survives id exportFlags s \<and> value_survives id exportFlags b"
    unfolding ex by (simp add: key_survives_def value_survives_def text_survives_def exportFlags_simps toyValue_def MaxValueSize_def)
  have small: "length (encStrings (entryStrings [toyEntry])) \<le> maxImportFileSize"
    by (simp add: length_encStrings toyEntry_def exportEntry_def toyValue_def toyKey_def maxImportFileSize_def)
  have law: "format_law toyCodecs id (exportFormat exportFlags)" using toyCodecs_laws(2) by (simp add: format_law_def exportFlags_simps)
  have t2: "db_rel toyHash spec_init (dbPath ?fl2) d1" "sp_current spec_init \<noteq> MaxVersion"
    "sp_committed (spec_reopen spec_init) (sp_current spec_init) = Some Map.empty"
    using target unfolding spec_reopen_init by (simp_all add: spec_init_def MaxVersion_def)
  have fl2: "importFormat ?fl2 = exportFormat exportFlags" "\<not> validateOnly ?fl2" by (simp_all add: exportFlags_simps)
  have max: "MaxVersion \<noteq> 0" "\<not> MaxVersion < 1" using one_le_MaxVersion by (simp_all add: MaxVersion_def)
  let ?xs = "lastOps (map (\<lambda>(s, k, b). putOp k b) [(EncodeToString toyKey, toyKey, toyValue)])"
  have "hash_ok toyHash (sp_hist (snd (spec_Execute ?xs spec_init)))"
    using toy_hash_ok max toyKey_not_empty
    by (simp add: putOp_def spec_Execute_def spec_begin_def spec_put_def checkPut_def spec_set_def spec_commit_def spec_init_def Let_def
        toyMap_def toyValue_def MaxValueSize_def specOps.simps BatchOpPut_def)
  then have ok2: "hash_ok toyHash (sp_hist (snd (spec_Execute (lastOps (map (\<lambda>(s, k, b). putOp k b)
      (exported exportFlags toyMap [EncodeToString toyKey]))) (spec_reopen spec_init))))" unfolding ex spec_reopen_init .
  obtain content where imported: "gm_get (ds_files d1) (Clean ''e.json'') = Some content"
    "if exported exportFlags toyMap [EncodeToString toyKey] = [] \<or> maxBatchOperations < length (exported exportFlags toyMap [EncodeToString toyKey])
       \<or> maxImportFileSize < length content
     then \<exists>err. runImport toyCodecs toyHash ?fl2 toyEnv [''e.json''] d1 = (Inl err, d1)
     else \<exists>out2 d2 sp3 m3. runImport toyCodecs toyHash ?fl2 toyEnv [''e.json''] d1 = (Inr out2, d2) \<and> db_rel toyHash sp3 (dbPath ?fl2) d2
       \<and> sp_current sp3 = sp_current spec_init + 1 \<and> sp_committed sp3 = (sp_committed (spec_reopen spec_init))(sp_current sp3 \<mapsto> m3)
       \<and> (\<forall>k. m3 k = (if k \<in> fst ` snd ` set (exported exportFlags toyMap [EncodeToString toyKey]) then toyMap k else Map.empty k))"
    using export_import [OF twoDBs_rel(1) [OF put] wf_toyHash toy_hash_ok_put exportFlags_simps(1) v one_le_MaxVersion exportFlags_simps(4)
      twoDBs_paths(5,6) readKeys_toy run law fl2 survives t2 ok2, of toyEnv] by (elim exE conjE) (rule that)
  have "content = encStrings (entryStrings [toyEntry])" using imported(1) e by simp
  then have "\<not> (exported exportFlags toyMap [EncodeToString toyKey] = [] \<or> maxBatchOperations < length (exported exportFlags toyMap [EncodeToString toyKey])
       \<or> maxImportFileSize < length content)" using small unfolding ex by (simp add: maxBatchOperations_def)
  from imported(2) [unfolded if_not_P [OF this]]
  obtain out2 d2 sp3 m3 where i: "runImport toyCodecs toyHash ?fl2 toyEnv [''e.json''] d1 = (Inr out2, d2)" "db_rel toyHash sp3 (dbPath ?fl2) d2"
    "sp_current sp3 = sp_current spec_init + 1" "sp_committed sp3 = (sp_committed (spec_reopen spec_init))(sp_current sp3 \<mapsto> m3)"
    "\<And>k. m3 k = (if k \<in> fst ` snd ` set (exported exportFlags toyMap [EncodeToString toyKey]) then toyMap k else Map.empty k)"
    by (elim exE conjE) (rule that, assumption+, rule spec)
  have "m3 toyKey = Some toyValue" using i(5) [of toyKey] unfolding ex by (simp add: toyMap_def)
  moreover have "sp_committed sp3 = [0 \<mapsto> Map.empty, 1 \<mapsto> m3]" using i(3,4) unfolding spec_reopen_init by (simp add: spec_init_def)
  moreover have "db_rel toyHash sp3 ''./b.db'' d2" using i(2) by simp
  ultimately show ?thesis using put run i(1) by (intro exI conjI)
qed

end
