(* ===== verification/Repl.thy ===== *)
theory Repl
  imports CommandTransfers
begin

text \<open>
  The interactive session: \<^verbatim>\<open>cmd/pb/commands/repl.go\<close>. A session keeps one tree open and a current version, at which
  \<^verbatim>\<open>get\<close>, \<^verbatim>\<open>root\<close>, \<^verbatim>\<open>prove\<close> and \<^verbatim>\<open>export\<close> read. A batch file is a list of commands, which may be batch files
  again, so that the execution of a command takes fuel; running out of fuel is \<open>None\<close>. Shown here: more fuel does not change a
  result; files that are nested without a cycle are executed to the end; a file that includes itself is not; at the
  prompt the current version is always the latest one.
\<close>

declare ToLower.simps [simp del] fieldsFrom.simps [simp del] trimLeft.simps [simp del] trimRight.simps [simp del]

section \<open>The session\<close>

text \<open>The tree and the version of \<^verbatim>\<open>replContext\<close>, the disk, the lines typed for an export, and what was printed.\<close>

record Session =
  rc_tree :: Tree
  rc_version :: version
  rs_disk :: Disk
  rs_stdin :: "string list"
  rs_out :: "Printed list"

text \<open>A command returns, or ends the program.\<close>

datatype Outcome = Returned "unit result" | Exited

definition say :: "string \<Rightarrow> json list \<Rightarrow> Session \<Rightarrow> Session" where
  "say fmt args s = s\<lparr>rs_out := rs_out s @ [Message fmt args]\<rparr>"

definition replPut :: "(bytes \<Rightarrow> hash) \<Rightarrow> Env \<Rightarrow> string \<Rightarrow> string \<Rightarrow> Session \<Rightarrow> unit result \<times> Session" where
  "replPut H env keyStr val s =
     (case Tree_Put H (env_now env) (KeyHash (bytesOf keyStr)) (bytesOf val) (rc_tree s) of
        (Inl err, t1) \<Rightarrow> (Inl err, s\<lparr>rc_tree := t1\<rparr>)
      | (Inr newVer, t1) \<Rightarrow>
          (Inr (), say ''Put at version'' [JString keyStr, JString val, JNumber (uint newVer)] (s\<lparr>rc_tree := t1\<rparr>)))"

definition replGet :: "(bytes \<Rightarrow> hash) \<Rightarrow> string \<Rightarrow> Session \<Rightarrow> unit result \<times> Session" where
  "replGet H keyStr s =
     (case Tree_Get H (rc_tree s) (rc_version s) (KeyHash (bytesOf keyStr)) of
        (Inl err, t1) \<Rightarrow> (Inl err, s\<lparr>rc_tree := t1\<rparr>)
      | (Inr None, t1) \<Rightarrow> (Inr (), say ''Key not found at version'' [JString keyStr, JNumber (uint (rc_version s))] (s\<lparr>rc_tree := t1\<rparr>))
      | (Inr (Some val), t1) \<Rightarrow> (Inr (), say ''Value'' [JString keyStr, JString (stringOf val)] (s\<lparr>rc_tree := t1\<rparr>)))"

definition replDelete :: "(bytes \<Rightarrow> hash) \<Rightarrow> Env \<Rightarrow> string \<Rightarrow> Session \<Rightarrow> unit result \<times> Session" where
  "replDelete H env keyStr s =
     (case Tree_Delete H (env_now env) (KeyHash (bytesOf keyStr)) (rc_tree s) of
        (Inl err, t1) \<Rightarrow> (Inl err, s\<lparr>rc_tree := t1\<rparr>)
      | (Inr newVer, t1) \<Rightarrow> (Inr (), say ''Deleted at version'' [JString keyStr, JNumber (uint newVer)] (s\<lparr>rc_tree := t1\<rparr>)))"

definition replRoot :: "Session \<Rightarrow> unit result \<times> Session" where
  "replRoot s =
     (case GetRootHash (rc_tree s) (rc_version s) of
        Inl err \<Rightarrow> (Inl err, s)
      | Inr rootHash \<Rightarrow> (Inr (), say ''Root hash at version'' [JNumber (uint (rc_version s)), JString (EncodeToString rootHash)] s))"

definition replProve :: "(bytes \<Rightarrow> hash) \<Rightarrow> string \<Rightarrow> Session \<Rightarrow> unit result \<times> Session" where
  "replProve H keyStr s =
     (case proveAt H (rc_version s) (KeyHash (bytesOf keyStr)) (rc_tree s) of
        (Inl err, t1) \<Rightarrow> (Inl err, s\<lparr>rc_tree := t1\<rparr>)
      | (Inr p, t1) \<Rightarrow>
          (Inr (), say ''Proof for key'' ([JString keyStr, JNumber (uint (rc_version s)), JString (proofTypeToString (pf_Type p))]
             @ (if pf_Type p = ProofTypeInclusion then [JString (stringOf (proofValue p))] else [])
             @ [JNumber (int (length (pf_Siblings p))), JString (EncodeToString (pf_RootHash p))]) (s\<lparr>rc_tree := t1\<rparr>)))"

definition replStats :: "Session \<Rightarrow> unit result \<times> Session" where
  "replStats s =
     (let latestVersion = GetLatestVersion (rc_tree s)
      in case GetRootHash (rc_tree s) latestVersion of
           Inl err \<Rightarrow> (Inl err, s)
         | Inr rootHash \<Rightarrow>
             (let (height, nodeCount, _) = GetStats (rc_tree s)
              in (Inr (), say ''Database Statistics'' [JNumber (uint latestVersion), JNumber (uint (rc_version s)),
                   JString (EncodeToString (take 8 rootHash)), JNumber height, JNumber nodeCount] s)))"

definition replVersion :: "string list \<Rightarrow> Session \<Rightarrow> unit result \<times> Session" where
  "replVersion args s =
     (case args of
        [] \<Rightarrow> (Inr (), say ''Current version'' [JNumber (uint (rc_version s))] s)
      | a # _ \<Rightarrow>
          if a = ''latest'' then
            (let s1 = s\<lparr>rc_version := GetLatestVersion (rc_tree s)\<rparr>
             in (Inr (), say ''Switched to latest version'' [JNumber (uint (rc_version s1))] s1))
          else (case Sscanf_d a of
                  Inl _ \<Rightarrow> (Inl (Errorf ''invalid version number''), s)
                | Inr v \<Rightarrow> (Inr (), say ''Switched to version'' [JNumber (uint v)] (s\<lparr>rc_version := v\<rparr>))))"

section \<open>Export and import\<close>

text \<open>The keys typed until an empty line; keys are always text.\<close>

definition typedKeys :: "string list \<Rightarrow> string list \<times> string list" where
  "typedKeys ls =
     (let keys = takeWhile (\<lambda>l. l \<noteq> []) (map TrimSpace ls)
      in (keys, drop (Suc (length keys)) ls))"

fun replExportLoop :: "(bytes \<Rightarrow> hash) \<Rightarrow> version \<Rightarrow> string list \<Rightarrow> Session \<Rightarrow> ExportEntry list \<times> Session" where
  "replExportLoop H version [] s = ([], s)"
| "replExportLoop H version (keyStr # keys) s =
     (let key = KeyHash (bytesOf keyStr); (r, t1) = Tree_Get H (rc_tree s) version key; s1 = s\<lparr>rc_tree := t1\<rparr>
      in case r of
           Inl err \<Rightarrow> replExportLoop H version keys (say ''Warning: key not found'' [JString keyStr] s1)
         | Inr None \<Rightarrow> replExportLoop H version keys s1
         | Inr (Some val) \<Rightarrow> (let (es, s2) = replExportLoop H version keys s1 in (exportEntry False keyStr key val # es, s2)))"

definition replExportKeys :: "Codecs \<Rightarrow> (bytes \<Rightarrow> hash) \<Rightarrow> Env \<Rightarrow> string \<Rightarrow> Session \<Rightarrow> unit result \<times> Session" where
  "replExportKeys C H env filename s =
     (let (keys, rest) = typedKeys (rs_stdin s); s0 = (say ''Enter keys to export'' [] s)\<lparr>rs_stdin := rest\<rparr>
      in if keys = [] then (Inl (Errorf ''no keys provided''), s0)
         else case GetRootHash (rc_tree s0) (rc_version s0) of
           Inl err \<Rightarrow> (Inl (wrapE ''failed to get root hash'' err), s0)
         | Inr rootHash \<Rightarrow>
             (let (es, s1) = replExportLoop H (rc_version s0) keys s0
              in if es = [] then (Inl (Errorf ''no valid keys found to export''), s1)
                 else case os_WriteFile filename (encodeExport C \<lparr>ed_Version = rc_version s0, ed_ExportTime = env_stamp env,
                        ed_RootHash = EncodeToString rootHash, ed_EntryCount = int (length es), ed_Entries = es\<rparr>) (rs_disk s1) of
                   (Inl err, d1) \<Rightarrow> (Inl (wrapE ''failed to create export file'' err), s1\<lparr>rs_disk := d1\<rparr>)
                 | (Inr _, d1) \<Rightarrow> (Inr (), say ''Exported keys to'' [JNumber (int (length es)), JString filename] (s1\<lparr>rs_disk := d1\<rparr>))))"

text \<open>The records of a CSV file: short ones are skipped here.\<close>

fun replCsvEntries :: "string list result list \<Rightarrow> ExportEntry list result" where
  "replCsvEntries [] = Inr []"
| "replCsvEntries (Inl err # rs) = Inl (wrapE ''failed to read CSV record'' err)"
| "replCsvEntries (Inr record # rs) =
     bindE (replCsvEntries rs) (\<lambda>es.
       Inr (if length record \<ge> 2 then \<lparr>ee_Key = record ! 0, ee_KeyHex = [], ee_Value = record ! 1, ee_ValueHex = []\<rparr> # es else es))"

definition replCsvImport :: "string list result list \<Rightarrow> ExportEntry list result" where
  "replCsvImport rs =
     (case rs of
        [] \<Rightarrow> Inl (wrapE ''failed to read CSV header'' (Errorf ''EOF''))
      | Inl err # _ \<Rightarrow> Inl (wrapE ''failed to read CSV header'' err)
      | Inr header # records \<Rightarrow>
          if length header < 2 \<or> header ! 0 \<noteq> ''key'' \<or> header ! 1 \<noteq> ''value'' then Inl (Errorf ''invalid CSV header'')
          else replCsvEntries records)"

text \<open>Every entry is put in a version of its own; the numbers of imported and failed entries.\<close>

fun replImportLoop :: "(bytes \<Rightarrow> hash) \<Rightarrow> Env \<Rightarrow> ExportEntry list \<Rightarrow> nat \<Rightarrow> nat \<Rightarrow> Session \<Rightarrow> nat \<times> nat \<times> Session" where
  "replImportLoop H env [] imported failed s = (imported, failed, s)"
| "replImportLoop H env (e # es) imported failed s =
     (case (if ee_ValueHex e \<noteq> [] then DecodeString (ee_ValueHex e) else Inr (bytesOf (ee_Value e))) of
        Inl err \<Rightarrow> replImportLoop H env es imported (Suc failed) (say ''Warning: failed to decode hex value'' [JString (ee_Key e)] s)
      | Inr val \<Rightarrow>
          (case Tree_Put H (env_now env) (KeyHash (bytesOf (ee_Key e))) val (rc_tree s) of
             (Inl err, t1) \<Rightarrow> replImportLoop H env es imported (Suc failed) (say ''Warning: failed to import key'' [JString (ee_Key e)] (s\<lparr>rc_tree := t1\<rparr>))
           | (Inr _, t1) \<Rightarrow> replImportLoop H env es (Suc imported) failed (s\<lparr>rc_tree := t1\<rparr>)))"

definition replReadImport :: "Codecs \<Rightarrow> string \<Rightarrow> Disk \<Rightarrow> ExportEntry list result" where
  "replReadImport C filename d =
     (case os_Open d filename of Inl err \<Rightarrow> Inl (wrapE ''failed to open import file'' err) | Inr _ \<Rightarrow>
      if suffix ''.csv'' filename then
        replCsvImport (case io_ReadAll d filename of Inl err \<Rightarrow> [Inl err] | Inr txt \<Rightarrow> csvRead C txt)
      else (case bindE (io_ReadAll d filename) (decodeExport C) of
              Inl err \<Rightarrow> Inl (wrapE ''failed to parse JSON'' err)
            | Inr data \<Rightarrow> Inr (ed_Entries data)))"

definition replImport :: "Codecs \<Rightarrow> (bytes \<Rightarrow> hash) \<Rightarrow> Env \<Rightarrow> string \<Rightarrow> Session \<Rightarrow> unit result \<times> Session" where
  "replImport C H env filename s =
     (case replReadImport C filename (rs_disk s) of
        Inl err \<Rightarrow> (Inl err, s)
      | Inr es \<Rightarrow>
          if es = [] then (Inl (Errorf ''no entries found in import file''), s)
          else (let (imported, failed, s1) = replImportLoop H env es 0 0 s;
                    s2 = say ''Import complete'' [JNumber (int imported), JNumber (int failed)] s1
                in (Inr (), if imported > 0 then say ''New version'' [JNumber (uint (GetLatestVersion (rc_tree s2)))] s2 else s2)))"

section \<open>Commands\<close>

definition usage :: "string \<Rightarrow> Outcome" where
  "usage msg = Returned (Inl (Errorf msg))"

definition returned :: "unit result \<times> Session \<Rightarrow> (Outcome \<times> Session) option" where
  "returned r = Some (Returned (fst r), snd r)"

text \<open>Every command but \<^verbatim>\<open>batch\<close>. \<open>help\<close> and \<open>clear\<close> only print.\<close>

definition plainCommand :: "Codecs \<Rightarrow> (bytes \<Rightarrow> hash) \<Rightarrow> Env \<Rightarrow> string \<Rightarrow> string list \<Rightarrow> Session \<Rightarrow> (Outcome \<times> Session) option" where
  "plainCommand C H env cmd args s =
     (if cmd = ''put'' then
        (if length args < 2 then Some (usage ''usage: put <key> <value>'', s) else returned (replPut H env (args ! 0) (joinSpace (tl args)) s))
      else if cmd = ''get'' then (if args = [] then Some (usage ''usage: get <key>'', s) else returned (replGet H (args ! 0) s))
      else if cmd = ''delete'' then (if args = [] then Some (usage ''usage: delete <key>'', s) else returned (replDelete H env (args ! 0) s))
      else if cmd = ''root'' then returned (replRoot s)
      else if cmd = ''prove'' then (if args = [] then Some (usage ''usage: prove <key>'', s) else returned (replProve H (args ! 0) s))
      else if cmd = ''stats'' then returned (replStats s)
      else if cmd = ''version'' then returned (replVersion args s)
      else if cmd = ''export'' then (if args = [] then Some (usage ''usage: export <file>'', s) else returned (replExportKeys C H env (args ! 0) s))
      else if cmd = ''import'' then (if args = [] then Some (usage ''usage: import <file>'', s) else returned (replImport C H env (args ! 0) s))
      else if cmd = ''help'' then Some (Returned (Inr ()), say ''Available commands'' [] s)
      else if cmd = ''clear'' then Some (Returned (Inr ()), say ''clear'' [] s)
      else if cmd = ''exit'' \<or> cmd = ''quit'' then Some (Exited, s)
      else Some (usage ''unknown command'', s))"

text \<open>The loop over the lines of a batch file; the numbers are those of the line and of the commands so far.\<close>

fun batchLoop :: "(string \<Rightarrow> Session \<Rightarrow> (Outcome \<times> Session) option) \<Rightarrow> nat \<Rightarrow> string list \<Rightarrow> nat \<Rightarrow> nat \<Rightarrow> Session
    \<Rightarrow> ((nat \<times> nat) option \<times> Session) option" where
  "batchLoop exe n [] succeeded failed s = Some (Some (succeeded, failed), s)"
| "batchLoop exe n (l # ls) succeeded failed s =
     (let line = TrimSpace l
      in if line = [] \<or> prefix ''#'' line then batchLoop exe (Suc n) ls succeeded failed s
         else case exe line s of
           None \<Rightarrow> None
         | Some (Exited, s1) \<Rightarrow> Some (None, s1)
         | Some (Returned (Inl err), s1) \<Rightarrow> batchLoop exe (Suc n) ls succeeded (Suc failed) (say ''Line failed'' [JNumber (int n)] s1)
         | Some (Returned (Inr _), s1) \<Rightarrow> batchLoop exe (Suc n) ls (Suc succeeded) failed s1)"

definition openBatch :: "string \<Rightarrow> Disk \<Rightarrow> string result result" where
  "openBatch filename d =
     (case validatePath filename of Inl err \<Rightarrow> Inl (wrapE ''invalid batch file path'' err) | Inr _ \<Rightarrow>
      case validateFileSize (os_Stat d filename) maxImportFileSize of Inl err \<Rightarrow> Inl (wrapE ''batch file too large'' err) | Inr _ \<Rightarrow>
      case os_Open d filename of Inl err \<Rightarrow> Inl (wrapE ''failed to open batch file'' err) | Inr _ \<Rightarrow> Inr (io_ReadAll d filename))"

text \<open>The scanner reads the file as it goes; nothing in a session changes a file that is being read but an export into it.\<close>

definition batchLines :: "string result \<Rightarrow> string list \<times> bool" where
  "batchLines content = (case content of Inl _ \<Rightarrow> ([], True) | Inr txt \<Rightarrow> scanLines txt)"

definition replBatch :: "(string \<Rightarrow> Session \<Rightarrow> (Outcome \<times> Session) option) \<Rightarrow> string \<Rightarrow> Session \<Rightarrow> (Outcome \<times> Session) option" where
  "replBatch exe filename s =
     (case openBatch filename (rs_disk s) of
        Inl err \<Rightarrow> Some (Returned (Inl err), s)
      | Inr content \<Rightarrow>
          let (ls, bad) = batchLines content
          in case batchLoop exe 1 ls 0 0 s of
               None \<Rightarrow> None
             | Some (None, s1) \<Rightarrow> Some (Exited, s1)
             | Some (Some (succeeded, failed), s1) \<Rightarrow>
                 if bad then Some (Returned (Inl (wrapE ''error reading batch file'' (Errorf ''bufio.Scanner''))), s1)
                 else Some (Returned (Inr ()), say ''Batch complete'' [JNumber (int succeeded), JNumber (int failed)] s1))"

primrec executeReplCommand :: "Codecs \<Rightarrow> (bytes \<Rightarrow> hash) \<Rightarrow> Env \<Rightarrow> nat \<Rightarrow> string \<Rightarrow> Session \<Rightarrow> (Outcome \<times> Session) option" where
  "executeReplCommand C H env 0 line s = None"
| "executeReplCommand C H env (Suc fuel) line s =
     (case Fields line of
        [] \<Rightarrow> Some (Returned (Inr ()), s)
      | c # args \<Rightarrow>
          let cmd = ToLower c
          in if cmd = ''batch'' then
               (if args = [] then Some (usage ''usage: batch <file>'', s)
                else replBatch (executeReplCommand C H env fuel) (args ! 0) s)
             else plainCommand C H env cmd args s)"

text \<open>
  The loop at the prompt: an interrupted line is dropped, the end of the input ends the loop. The result is the session and
  whether the program was ended by a command.
\<close>

datatype ReadlineResult = Line string | ErrInterrupt

fun replLoop :: "Codecs \<Rightarrow> (bytes \<Rightarrow> hash) \<Rightarrow> Env \<Rightarrow> nat \<Rightarrow> ReadlineResult list \<Rightarrow> Session \<Rightarrow> (bool \<times> Session) option" where
  "replLoop C H env fuel [] s = Some (False, say ''Goodbye!'' [] s)"
| "replLoop C H env fuel (ErrInterrupt # rest) s = replLoop C H env fuel rest s"
| "replLoop C H env fuel (Line l # rest) s =
     (let line = TrimSpace l
      in if line = [] then replLoop C H env fuel rest s
         else case executeReplCommand C H env fuel line s of
           None \<Rightarrow> None
         | Some (Exited, s1) \<Rightarrow> Some (True, s1)
         | Some (Returned r, s1) \<Rightarrow>
             let s2 = (case r of Inl err \<Rightarrow> say ''Error'' [] s1 | Inr _ \<Rightarrow> s1)
             in replLoop C H env fuel rest (s2\<lparr>rc_version := GetLatestVersion (rc_tree s2)\<rparr>))"

definition runREPL :: "Codecs \<Rightarrow> (bytes \<Rightarrow> hash) \<Rightarrow> Flags \<Rightarrow> Env \<Rightarrow> nat \<Rightarrow> ReadlineResult list \<Rightarrow> string list \<Rightarrow> Disk
    \<Rightarrow> (unit result \<times> Printed list \<times> Disk) option" where
  "runREPL C H fl env fuel input stdin d =
     (case openDatabase (dbPath fl) d of Inl err \<Rightarrow> Some (Inl err, [], d) | Inr store \<Rightarrow>
      case openTree (env_now env) store of Inl err \<Rightarrow> Some (Inl err, [], d) | Inr tree \<Rightarrow>
      case replLoop C H env fuel input \<lparr>rc_tree = tree, rc_version = GetLatestVersion tree, rs_disk = d, rs_stdin = stdin,
             rs_out = [Message ''ProofBox Interactive REPL'' [JString (dbPath fl), JNumber (uint (GetLatestVersion tree))]]\<rparr> of
        None \<Rightarrow> None
      | Some (exited, s) \<Rightarrow> Some (Inr (), rs_out s, closeStore (dbPath fl) (rc_tree s) (rs_disk s)))"

section \<open>Nested batch files\<close>

text \<open>More fuel does not change a result.\<close>

definition finishes :: "(string \<Rightarrow> Session \<Rightarrow> (Outcome \<times> Session) option) \<Rightarrow> (string \<Rightarrow> Session \<Rightarrow> (Outcome \<times> Session) option) \<Rightarrow> bool" where
  "finishes exe exe' \<longleftrightarrow> (\<forall>line s r. exe line s = Some r \<longrightarrow> exe' line s = Some r)"

lemma batchLoop_mono: "finishes exe exe' \<Longrightarrow> batchLoop exe n ls k m s = Some r \<Longrightarrow> batchLoop exe' n ls k m s = Some r"
proof (induction exe n ls k m s rule: batchLoop.induct)
  case (2 exe n l ls k m s)
  show ?case
  proof (cases "TrimSpace l = [] \<or> prefix ''#'' (TrimSpace l)")
    case True
    with 2 show ?thesis by (simp add: Let_def)
  next
    case False
    then obtain out s1 where e: "exe (TrimSpace l) s = Some (out, s1)" using 2 by (auto simp: Let_def split: option.splits)
    with 2 have "exe' (TrimSpace l) s = Some (out, s1)" by (simp add: finishes_def)
    with False e 2 show ?thesis by (cases out) (auto simp: Let_def split: sum.splits)
  qed
qed simp

lemma replBatch_mono: "finishes exe exe' \<Longrightarrow> replBatch exe f s = Some r \<Longrightarrow> replBatch exe' f s = Some r"
  by (auto simp: replBatch_def Let_def case_prod_unfold dest: batchLoop_mono split: sum.splits option.splits)

text \<open>The file that a line executes, and what the other lines do.\<close>

definition batchArg :: "string \<Rightarrow> string option" where
  "batchArg line = (case Fields line of c # f # _ \<Rightarrow> if ToLower c = ''batch'' then Some f else None | _ \<Rightarrow> None)"

definition direct :: "Codecs \<Rightarrow> (bytes \<Rightarrow> hash) \<Rightarrow> Env \<Rightarrow> string \<Rightarrow> Session \<Rightarrow> (Outcome \<times> Session) option" where
  "direct C H env line s =
     (case Fields line of
        [] \<Rightarrow> Some (Returned (Inr ()), s)
      | c # args \<Rightarrow> if ToLower c = ''batch'' then Some (usage ''usage: batch <file>'', s) else plainCommand C H env (ToLower c) args s)"

lemma execute_Suc:
  "executeReplCommand C H env (Suc fuel) line s =
     (case batchArg line of None \<Rightarrow> direct C H env line s | Some f \<Rightarrow> replBatch (executeReplCommand C H env fuel) f s)"
proof (cases "Fields line")
  case fields: (Cons c args)
  show ?thesis
  proof (cases args)
    case Nil
    then show ?thesis unfolding executeReplCommand.simps(2) batchArg_def direct_def Let_def fields by (simp only: list.case option.case if_True simp_thms)
  next
    case (Cons f rest)
    then show ?thesis unfolding executeReplCommand.simps(2) batchArg_def direct_def Let_def fields
      by (simp only: list.case option.case list.distinct if_False nth_Cons_0 split: if_split) simp
  qed
qed (simp add: batchArg_def direct_def)

declare executeReplCommand.simps(2) [simp del]

lemma more_fuel: "finishes (executeReplCommand C H env fuel) (executeReplCommand C H env (Suc fuel))"
proof (induction fuel)
  case (Suc fuel)
  show ?case unfolding finishes_def
  proof (intro allI impI)
    fix line s r assume "executeReplCommand C H env (Suc fuel) line s = Some r"
    then show "executeReplCommand C H env (Suc (Suc fuel)) line s = Some r"
      using replBatch_mono [OF Suc] unfolding execute_Suc [of C H env "Suc fuel"] execute_Suc [of C H env fuel]
      by (cases "batchArg line") (simp_all only: option.case)
  qed
qed (simp add: finishes_def)

lemma enough_fuel: "executeReplCommand C H env fuel line s = Some r \<Longrightarrow> fuel \<le> fuel' \<Longrightarrow> executeReplCommand C H env fuel' line s = Some r"
proof (induction fuel')
  case (Suc n)
  with more_fuel [of C H env n] show ?case unfolding finishes_def by (metis le_Suc_eq)
qed simp

text \<open>Only an export writes to the disk.\<close>

definition isExport :: "string \<Rightarrow> bool" where
  "isExport line = (case Fields line of [] \<Rightarrow> False | c # _ \<Rightarrow> ToLower c = ''export'')"

lemma say_disk [simp]: "rs_disk (say fmt args s) = rs_disk s" "rc_tree (say fmt args s) = rc_tree s" "rc_version (say fmt args s) = rc_version s"
  by (simp_all add: say_def)

lemma tree_disk:
  "rs_disk (snd (replPut H env k v s)) = rs_disk s" "rs_disk (snd (replGet H k s)) = rs_disk s"
  "rs_disk (snd (replDelete H env k s)) = rs_disk s" "rs_disk (snd (replRoot s)) = rs_disk s"
  "rs_disk (snd (replProve H k s)) = rs_disk s" "rs_disk (snd (replStats s)) = rs_disk s"
  "rs_disk (snd (replVersion args s)) = rs_disk s"
  by (simp_all add: replPut_def replGet_def replDelete_def replRoot_def replProve_def replStats_def replVersion_def Let_def case_prod_unfold
      split: prod.splits sum.splits option.splits list.splits)

lemma importLoop_disk: "rs_disk (snd (snd (replImportLoop H env es i f s))) = rs_disk s"
  by (induction H env es i f s rule: replImportLoop.induct) (simp_all split: sum.splits prod.splits)

lemma import_disk: "rs_disk (snd (replImport C H env f s)) = rs_disk s"
  using importLoop_disk [of H env _ 0 0 s] by (simp add: replImport_def Let_def case_prod_unfold split: sum.splits)

definition keeps :: "(Outcome \<times> Session) option \<Rightarrow> Session \<Rightarrow> bool" where
  "keeps r s \<longleftrightarrow> (\<exists>out s1. r = Some (out, s1) \<and> rs_disk s1 = rs_disk s)"

lemma keeps_if: "keeps a s \<Longrightarrow> keeps b s \<Longrightarrow> keeps (if c then a else b) s"
  by simp

lemma keeps_some: "rs_disk s1 = rs_disk s \<Longrightarrow> keeps (Some (out, s1)) s"
  by (simp add: keeps_def)

lemma keeps_returned: "rs_disk (snd r) = rs_disk s \<Longrightarrow> keeps (returned r) s"
  by (simp add: keeps_def returned_def)

lemma plain_disk: "cmd \<noteq> ''export'' \<Longrightarrow> keeps (plainCommand C H env cmd args s) s"
  unfolding plainCommand_def
  by (simp only: if_False, intro keeps_if keeps_some keeps_returned tree_disk import_disk say_disk refl)

lemma direct_disk:
  assumes "\<not> isExport line"
  shows "keeps (direct C H env line s) s"
proof (cases "Fields line")
  case (Cons c args)
  with assms have "ToLower c \<noteq> ''export''" unfolding isExport_def by (simp only: list.case not_False_eq_True)
  then show ?thesis unfolding direct_def Cons list.case by (intro keeps_if keeps_some plain_disk refl)
qed (simp add: direct_def keeps_def)

lemma returned_total: "returned r \<noteq> None" by (simp add: returned_def)

lemma if_total: "a \<noteq> None \<Longrightarrow> b \<noteq> None \<Longrightarrow> (if c then a else b) \<noteq> None" by simp

lemma direct_total: "direct C H env line s \<noteq> None"
proof (cases "Fields line")
  case (Cons c args)
  then show ?thesis unfolding direct_def plainCommand_def Cons list.case by (intro if_total returned_total option.distinct(2))
qed (simp add: direct_def)

text \<open>The lines of a batch file that are executed.\<close>

definition commandLines :: "Disk \<Rightarrow> string \<Rightarrow> string list" where
  "commandLines d f =
     (case openBatch f d of
        Inl _ \<Rightarrow> []
      | Inr content \<Rightarrow> filter (\<lambda>l. l \<noteq> [] \<and> \<not> prefix ''#'' l) (map TrimSpace (fst (batchLines content))))"

text \<open>Files that are nested without a cycle: a file only executes files of lower rank, and exports nothing.\<close>

definition nested :: "(string \<Rightarrow> nat) \<Rightarrow> Disk \<Rightarrow> bool" where
  "nested rank d \<longleftrightarrow> (\<forall>f. \<forall>l \<in> set (commandLines d f). \<not> isExport l \<and> (\<forall>g. batchArg l = Some g \<longrightarrow> rank g < rank f))"

definition depth :: "(string \<Rightarrow> nat) \<Rightarrow> string \<Rightarrow> nat" where
  "depth rank line = (case batchArg line of None \<Rightarrow> 1 | Some f \<Rightarrow> rank f + 2)"

lemma batchLoop_finishes:
  assumes "\<And>l s. l \<in> set (filter (\<lambda>l. l \<noteq> [] \<and> \<not> prefix ''#'' l) (map TrimSpace ls)) \<Longrightarrow> rs_disk s = d
      \<Longrightarrow> \<exists>out s1. exe l s = Some (out, s1) \<and> rs_disk s1 = d" and "rs_disk s = d"
  shows "\<exists>out s1. batchLoop exe n ls k m s = Some (out, s1) \<and> rs_disk s1 = d"
  using assms
proof (induction ls arbitrary: n k m s)
  case (Cons l ls)
  show ?case
  proof (cases "TrimSpace l = [] \<or> prefix ''#'' (TrimSpace l)")
    case True
    with Cons show ?thesis by (simp add: Let_def)
  next
    case False
    then obtain out s1 where e: "exe (TrimSpace l) s = Some (out, s1)" "rs_disk s1 = d"
      using Cons.prems(1) [of "TrimSpace l" s] Cons.prems(2) by auto
    have "\<exists>out s2. batchLoop exe n ls k m s' = Some (out, s2) \<and> rs_disk s2 = d" if "rs_disk s' = d" for n k m s'
      using Cons.IH [OF _ that] Cons.prems(1) by simp
    with False e show ?thesis by (cases out) (auto simp: Let_def split: sum.splits)
  qed
qed simp

lemma replBatch_finishes:
  assumes "\<And>l s'. l \<in> set (commandLines (rs_disk s) f) \<Longrightarrow> rs_disk s' = rs_disk s \<Longrightarrow> \<exists>out s1. exe l s' = Some (out, s1) \<and> rs_disk s1 = rs_disk s"
  shows "\<exists>out s1. replBatch exe f s = Some (out, s1) \<and> rs_disk s1 = rs_disk s"
proof (cases "openBatch f (rs_disk s)")
  case (Inr content)
  obtain ls bad where ls: "batchLines content = (ls, bad)" by fastforce
  obtain out s1 where "batchLoop exe 1 ls 0 0 s = Some (out, s1)" "rs_disk s1 = rs_disk s"
    using batchLoop_finishes [of ls "rs_disk s" exe s 1 0 0] assms Inr ls unfolding commandLines_def by fastforce
  then show ?thesis using Inr ls by (auto simp: replBatch_def split: option.split)
qed (simp add: replBatch_def)

lemma nested_finishes:
  assumes "nested rank d" and "\<not> isExport line" and "rs_disk s = d" and "depth rank line \<le> fuel"
  shows "\<exists>out s1. executeReplCommand C H env fuel line s = Some (out, s1) \<and> rs_disk s1 = d"
  using assms(2-)
proof (induction fuel arbitrary: line s)
  case 0
  then show ?case by (simp add: depth_def split: option.splits)
next
  case (Suc fuel)
  show ?case
  proof (cases "batchArg line")
    case None
    show ?thesis using direct_disk [OF Suc.prems(1), of C H env s] Suc.prems(2) None by (auto simp: execute_Suc keeps_def)
  next
    case (Some f)
    have "\<exists>out s1. replBatch (executeReplCommand C H env fuel) f s = Some (out, s1) \<and> rs_disk s1 = rs_disk s"
    proof (rule replBatch_finishes)
      fix l and s' :: Session assume l: "l \<in> set (commandLines (rs_disk s) f)" "rs_disk s' = rs_disk s"
      with assms(1) Suc.prems(2) have n: "\<not> isExport l" "\<And>g. batchArg l = Some g \<Longrightarrow> rank g < rank f" by (auto simp: nested_def)
      with Some Suc.prems(3) have "depth rank l \<le> fuel" by (auto simp: depth_def split: option.splits)
      from Suc.IH [OF n(1) _ this] l(2) Suc.prems(2) show "\<exists>out s1. executeReplCommand C H env fuel l s' = Some (out, s1) \<and> rs_disk s1 = rs_disk s"
        by simp
    qed
    then show ?thesis using Some Suc.prems(2) by (simp add: execute_Suc)
  qed
qed

lemma replLoop_finishes:
  assumes "nested rank d" and "\<And>l. Line l \<in> set input \<Longrightarrow> \<not> isExport (TrimSpace l) \<and> depth rank (TrimSpace l) \<le> n"
    and "rs_disk s = d"
  shows "\<exists>r. \<forall>fuel \<ge> n. replLoop C H env fuel input s = Some r"
  using assms(2,3)
proof (induction input arbitrary: s)
  case (Cons i input)
  have IH: "\<exists>r. \<forall>fuel \<ge> n. replLoop C H env fuel input s' = Some r" if "rs_disk s' = d" for s'
    using Cons.IH [OF _ that] Cons.prems(1) by simp
  show ?case
  proof (cases i)
    case (Line l)
    show ?thesis
    proof (cases "TrimSpace l = []")
      case True
      then show ?thesis using Line IH [OF Cons.prems(2)] by simp
    next
      case False
      have l: "\<not> isExport (TrimSpace l)" "depth rank (TrimSpace l) \<le> n" using Cons.prems(1) Line by simp_all
      obtain out s1 where s1: "executeReplCommand C H env n (TrimSpace l) s = Some (out, s1)" "rs_disk s1 = d"
        using nested_finishes [OF assms(1) l(1) Cons.prems(2) l(2)] by blast
      then have e: "executeReplCommand C H env fuel (TrimSpace l) s = Some (out, s1)" if "n \<le> fuel" for fuel
        using enough_fuel that by blast
      show ?thesis
      proof (cases out)
        case (Returned r)
        let ?s2 = "case r of Inl err \<Rightarrow> say ''Error'' [] s1 | Inr _ \<Rightarrow> s1"
        have "rs_disk (?s2\<lparr>rc_version := GetLatestVersion (rc_tree ?s2)\<rparr>) = d" using s1(2) by (cases r) simp_all
        from IH [OF this] show ?thesis using Line False e Returned by (simp add: Let_def)
      next
        case Exited
        then have "replLoop C H env fuel (i # input) s = Some (True, s1)" if "n \<le> fuel" for fuel
          using Line False e that by (simp add: Let_def)
        then show ?thesis by blast
      qed
    qed
  next
    case ErrInterrupt
    then have "replLoop C H env fuel (i # input) s = replLoop C H env fuel input s" for fuel by simp
    then show ?thesis using IH [OF Cons.prems(2)] by presburger
  qed
qed (simp only: replLoop.simps, blast)

lemma first_command:
  "filter (\<lambda>l. l \<noteq> [] \<and> \<not> prefix ''#'' l) (map TrimSpace ls) = l # rest \<Longrightarrow> exe l s = None \<Longrightarrow> batchLoop exe n ls k m s = None"
proof (induction ls arbitrary: n)
  case (Cons x ls)
  then show ?case by (cases "TrimSpace x \<noteq> [] \<and> \<not> prefix ''#'' (TrimSpace x)") (auto simp: Let_def)
qed simp

lemma Fields_nil: "Fields [] = []"
  by (simp add: Fields_def fieldsFrom.simps)

lemma replVersion_out: "\<exists>r out v. replVersion args s = (r, s\<lparr>rs_out := rs_out s @ out, rc_version := v\<rparr>)"
proof -
  have same: "s = s\<lparr>rs_out := rs_out s @ [], rc_version := rc_version s\<rparr>" by simp
  have one: "s\<lparr>rs_out := rs_out s @ [m]\<rparr> = s\<lparr>rs_out := rs_out s @ [m], rc_version := rc_version s\<rparr>" for m by simp
  show ?thesis
  proof (cases args)
    case Nil
    then show ?thesis using one unfolding replVersion_def say_def by (simp only: list.case) blast
  next
    case (Cons a rest)
    show ?thesis
    proof (cases "a = ''latest''")
      case True
      show ?thesis unfolding Cons replVersion_def say_def list.case Let_def if_P [OF True]
        by (rule exI [where x = "Inr ()"], rule exI [where x = "[Message ''Switched to latest version'' [JNumber (uint (GetLatestVersion (rc_tree s)))]]"],
            rule exI [where x = "GetLatestVersion (rc_tree s)"]) simp
    next
      case False
      show ?thesis
      proof (cases "Sscanf_d a")
        case (Inl err)
        show ?thesis using same unfolding Cons replVersion_def list.case if_not_P [OF False] Inl sum.case by blast
      next
        case (Inr v)
        show ?thesis unfolding Cons replVersion_def say_def list.case if_not_P [OF False] Inr sum.case
          by (rule exI [where x = "Inr ()"], rule exI [where x = "[Message ''Switched to version'' [JNumber (uint v)]]"], rule exI [where x = v]) simp
      qed
    qed
  qed
qed

section \<open>Properties\<close>

text \<open>
  C19: sessions come to an end. If the batch files on the disk are nested without a cycle and export nothing, then any input at
  the prompt without an export is processed to the end, with fuel for the deepest batch file, and more fuel does not change
  the result.
\<close>

theorem repl_session_ends:
  assumes "nested rank (rs_disk s)" and "\<And>l. Line l \<in> set input \<Longrightarrow> \<not> isExport (TrimSpace l) \<and> depth rank (TrimSpace l) \<le> n"
  shows "\<exists>r. \<forall>fuel \<ge> n. replLoop C H env fuel input s = Some r"
  using replLoop_finishes [OF assms(1) assms(2) refl] .

text \<open>Rules that evaluate words and lines of concrete strings.\<close>

lemma fieldsFrom_steps:
  "fieldsFrom cur [] = (if cur = [] then [] else [cur])"
  "leadingSpace (c # s) = 0 \<Longrightarrow> fieldsFrom cur (c # s) = fieldsFrom (cur @ [c]) s"
  "leadingSpace (c # s) = Suc 0 \<Longrightarrow> fieldsFrom cur (c # s) = (if cur = [] then [] else [cur]) @ fieldsFrom [] s"
  by (subst fieldsFrom.simps; simp)+

lemma spaces_chars:
  "spaces =
   [[CHR 0x09], [CHR 0x0A], [CHR 0x0B], [CHR 0x0C], [CHR 0x0D],
    [CHR 0x20], [CHR 0xC2, CHR 0x85], [CHR 0xC2, CHR 0xA0], [CHR 0xE1, CHR 0x9A, CHR 0x80], [CHR 0xE2, CHR 0x80, CHR 0x80],
    [CHR 0xE2, CHR 0x80, CHR 0x81], [CHR 0xE2, CHR 0x80, CHR 0x82], [CHR 0xE2, CHR 0x80, CHR 0x83], [CHR 0xE2, CHR 0x80, CHR 0x84], [CHR 0xE2, CHR 0x80, CHR 0x85],
    [CHR 0xE2, CHR 0x80, CHR 0x86], [CHR 0xE2, CHR 0x80, CHR 0x87], [CHR 0xE2, CHR 0x80, CHR 0x88], [CHR 0xE2, CHR 0x80, CHR 0x89], [CHR 0xE2, CHR 0x80, CHR 0x8A],
    [CHR 0xE2, CHR 0x80, CHR 0xA8], [CHR 0xE2, CHR 0x80, CHR 0xA9], [CHR 0xE2, CHR 0x80, CHR 0xAF], [CHR 0xE2, CHR 0x81, CHR 0x9F], [CHR 0xE3, CHR 0x80, CHR 0x80]]"
  by code_simp

lemma newline_chars: "newline = CHR 0x0A" "char_of (13 :: nat) = CHR 0x0D"
  by code_simp+

lemmas words_eval = Fields_def fieldsFrom_steps leadingSpace_def spaces_chars
lemmas lines_eval = scanLines_def Let_def maxTokenSize_def dropCR_def newline_chars

lemma toy_lines:
  "scanLines (''# two files'' @ [CHR 0x0A] @ ''batch b'') = ([''# two files'', ''batch b''], False)"
  "scanLines ''get x'' = ([''get x''], False)" "scanLines ''batch c'' = ([''batch c''], False)"
  by (simp_all add: lines_eval)

lemma toy_words: "Fields ''batch a'' = [''batch'', ''a'']" "Fields ''batch b'' = [''batch'', ''b'']" "Fields ''batch c'' = [''batch'', ''c'']"
  "Fields ''get x'' = [''get'', ''x'']" "Fields ''version 1'' = [''version'', ''1'']"
  by (simp_all add: words_eval)

lemma toy_lower: "ToLower ''batch'' = ''batch''" "ToLower ''get'' = ''get''" "ToLower ''version'' = ''version''"
  by code_simp+

lemma TrimSpace_id: "leadingSpace s = 0 \<Longrightarrow> find (\<lambda>w. suffix w s) spaces = None \<Longrightarrow> TrimSpace s = s"
  by (simp add: TrimSpace_def trimLeft.simps trimRight.simps)

lemma toy_trim: "TrimSpace ''# two files'' = ''# two files''" "TrimSpace ''batch a'' = ''batch a''" "TrimSpace ''batch b'' = ''batch b''"
  "TrimSpace ''batch c'' = ''batch c''" "TrimSpace ''get x'' = ''get x''" "TrimSpace ''version 1'' = ''version 1''"
  by (rule TrimSpace_id; simp add: leadingSpace_def spaces_chars suffix_def)+

lemma toy_args: "batchArg ''batch a'' = Some ''a''" "batchArg ''batch b'' = Some ''b''" "batchArg ''batch c'' = Some ''c''"
  "batchArg ''get x'' = None" "batchArg ''version 1'' = None" "\<not> isExport ''batch a''" "\<not> isExport ''batch b''" "\<not> isExport ''get x''"
  "\<not> isExport ''version 1''"
  unfolding batchArg_def isExport_def toy_words list.case toy_lower by simp_all

lemma validatePath_c: "validatePath ''c'' = Inr ()"
  by code_simp

lemma toy_names: "Clean ''a'' = ''a''" "Clean ''b'' = ''b''" "Clean ''c'' = ''c''"
  by code_simp+

text \<open>What a file of the disk holds is what is executed, if the path is accepted at all.\<close>

lemma commandLines_file:
  assumes "commandLines d f \<noteq> []" and "ds_dbs d = []"
  obtains body where "gm_get (ds_files d) (Clean f) = Some body" and
    "commandLines d f = filter (\<lambda>l. l \<noteq> [] \<and> \<not> prefix ''#'' l) (map TrimSpace (fst (scanLines body)))"
proof (cases "openBatch f d")
  case (Inr content)
  then obtain body where body: "gm_get (ds_files d) (Clean f) = Some body"
    by (auto simp: openBatch_def os_Open_def os_Stat_def assms(2) bindE_def split: sum.splits option.splits)
  with Inr have "content = Inr body" by (auto simp: openBatch_def io_ReadAll_def split: sum.splits)
  with body Inr that show ?thesis by (simp add: commandLines_def batchLines_def)
qed (use assms in \<open>simp add: commandLines_def\<close>)

text \<open>A disk with a file that executes another one, and a disk with a file that executes itself.\<close>

definition toyNest :: Disk where
  "toyNest = toyDisk\<lparr>ds_files := [(''a'', ''# two files'' @ [CHR 0x0A] @ ''batch b''), (''b'', ''get x'')]\<rparr>"

definition toyCycle :: Disk where
  "toyCycle = toyDisk\<lparr>ds_files := [(''c'', ''batch c'')]\<rparr>"

definition toySession :: "Disk \<Rightarrow> Session" where
  "toySession d = \<lparr>rc_tree = toyTree, rc_version = GetLatestVersion toyTree, rs_disk = d, rs_stdin = [], rs_out = []\<rparr>"

lemma toyNest_lines:
  assumes "commandLines toyNest f \<noteq> []"
  shows "Clean f = ''a'' \<and> commandLines toyNest f = [''batch b''] \<or> Clean f = ''b'' \<and> commandLines toyNest f = [''get x'']"
proof -
  have dbs: "ds_dbs toyNest = []" by (simp add: toyNest_def toyDisk_def)
  obtain body where t: "gm_get (ds_files toyNest) (Clean f) = Some body" and
    ls: "commandLines toyNest f = filter (\<lambda>l. l \<noteq> [] \<and> \<not> prefix ''#'' l) (map TrimSpace (fst (scanLines body)))"
    by (rule commandLines_file [OF assms dbs])
  have files: "ds_files toyNest = [(''a'', ''# two files'' @ [CHR 0x0A] @ ''batch b''), (''b'', ''get x'')]" by (simp add: toyNest_def)
  from t have "Clean f = ''a'' \<and> body = ''# two files'' @ [CHR 0x0A] @ ''batch b'' \<or> Clean f = ''b'' \<and> body = ''get x''"
    unfolding files by (cases "Clean f = ''a''"; cases "Clean f = ''b''") (simp_all only: map_of.simps, simp_all)
  then show ?thesis
  proof (elim disjE conjE)
    assume f: "Clean f = ''a''" and body: "body = ''# two files'' @ [CHR 0x0A] @ ''batch b''"
    have "commandLines toyNest f = [''batch b'']" unfolding ls body toy_lines fst_conv list.map toy_trim by simp
    with f show ?thesis by blast
  next
    assume f: "Clean f = ''b''" and body: "body = ''get x''"
    have "commandLines toyNest f = [''get x'']" unfolding ls body toy_lines fst_conv list.map toy_trim by simp
    with f show ?thesis by blast
  qed
qed

lemma toy_nested: "nested (\<lambda>f. if Clean f = ''a'' then 1 else 0) toyNest"
  unfolding nested_def
proof (intro allI ballI)
  fix f l assume l: "l \<in> set (commandLines toyNest f)"
  then have "commandLines toyNest f \<noteq> []" by auto
  from toyNest_lines [OF this] l have "Clean f = ''a'' \<and> l = ''batch b'' \<or> l = ''get x''" by auto
  then show "\<not> isExport l \<and> (\<forall>g. batchArg l = Some g \<longrightarrow> (if Clean g = ''a'' then 1 else 0) < (if Clean f = ''a'' then 1 else (0 :: nat)))"
  proof (elim disjE conjE)
    assume "Clean f = ''a''" "l = ''batch b''"
    then show ?thesis using toy_args(2,7) toy_names(2) by simp
  next
    assume "l = ''get x''"
    then show ?thesis using toy_args(4,8) by simp
  qed
qed

theorem repl_session_ends_witness:
  "\<exists>r. \<forall>fuel \<ge> 3. replLoop toyCodecs toyHash toyEnv fuel [Line ''batch a'', ErrInterrupt, Line ''version 1''] (toySession toyNest) = Some r"
proof (rule repl_session_ends [where rank = "\<lambda>f. if Clean f = ''a'' then 1 else 0"])
  show "nested (\<lambda>f. if Clean f = ''a'' then 1 else 0) (rs_disk (toySession toyNest))" using toy_nested by (simp add: toySession_def)
  fix l assume "Line l \<in> set [Line ''batch a'', ErrInterrupt, Line ''version 1'']"
  then have "l = ''batch a'' \<or> l = ''version 1''" by simp
  then show "\<not> isExport (TrimSpace l) \<and> depth (\<lambda>f. if Clean f = ''a'' then 1 else 0) (TrimSpace l) \<le> 3"
    by (elim disjE) (simp_all only: toy_trim toy_args depth_def toy_names option.case, simp_all)
qed

text \<open>
  C21: a batch file whose first command executes the file itself is never finished, whatever the fuel: the code opens it again
  and again until it runs out of file descriptors or stack.
\<close>

theorem recursive_batch_diverges:
  assumes "commandLines (rs_disk s) f = l # rest" and "batchArg l = Some f" and "batchArg line = Some f"
  shows "executeReplCommand C H env fuel line s = None"
  using assms(3)
proof (induction fuel arbitrary: line)
  case (Suc fuel)
  obtain content where o: "openBatch f (rs_disk s) = Inr content" using assms(1) by (cases "openBatch f (rs_disk s)") (simp_all add: commandLines_def)
  obtain ls bad where ls: "batchLines content = (ls, bad)" by fastforce
  have "batchLoop (executeReplCommand C H env fuel) 1 ls 0 0 s = None"
    using assms(1) o ls Suc.IH [OF assms(2)] by (intro first_command) (simp_all add: commandLines_def)
  then show ?case using Suc.prems o ls by (simp add: execute_Suc replBatch_def)
qed simp

theorem recursive_batch_diverges_witness:
  "executeReplCommand toyCodecs toyHash toyEnv 1000 ''batch c'' (toySession toyCycle) = None"
proof (rule recursive_batch_diverges)
  have "openBatch ''c'' toyCycle = Inr (Inr ''batch c'')"
    by (simp add: openBatch_def validatePath_c validateFileSize_def maxImportFileSize_def os_Open_def os_Stat_def bindE_def io_ReadAll_def toyCycle_def toyDisk_def toy_names)
  then show "commandLines (rs_disk (toySession toyCycle)) ''c'' = [''batch c'']"
    by (simp add: commandLines_def toySession_def batchLines_def toy_lines toy_trim)
qed (rule toy_args)+

text \<open>
  At the prompt, \<open>version N\<close> has no effect: the line only adds messages, and the rest of the session reads at the latest
  version as before.
\<close>

theorem version_forgotten:
  assumes "Fields (TrimSpace line) = c # args" and "ToLower c = ''version''" and "rc_version s = GetLatestVersion (rc_tree s)" and "0 < fuel"
  shows "\<exists>out. replLoop C H env fuel (Line line # rest) s = replLoop C H env fuel rest (s\<lparr>rs_out := rs_out s @ out\<rparr>)"
proof -
  obtain n where n: "fuel = Suc n" using assms(4) by (cases fuel) simp_all
  have "batchArg (TrimSpace line) = None" using assms(1,2) by (simp add: batchArg_def split: list.split)
  moreover have "direct C H env (TrimSpace line) s = returned (replVersion args s)"
    using assms(1,2) by (simp add: direct_def plainCommand_def)
  ultimately have e: "executeReplCommand C H env fuel (TrimSpace line) s = returned (replVersion args s)" by (simp add: n execute_Suc)
  obtain r out v where v: "replVersion args s = (r, s\<lparr>rs_out := rs_out s @ out, rc_version := v\<rparr>)" using replVersion_out by blast
  have line: "TrimSpace line \<noteq> []" using assms(1) by (auto simp: Fields_nil)
  have s: "s\<lparr>rs_out := x, rc_version := GetLatestVersion (rc_tree s)\<rparr> = s\<lparr>rs_out := x\<rparr>" for x using assms(3) by simp
  show ?thesis
  proof (cases r)
    case (Inl err)
    have "replLoop C H env fuel (Line line # rest) s = replLoop C H env fuel rest (s\<lparr>rs_out := rs_out s @ (out @ [Message ''Error'' []])\<rparr>)"
      using e v line s by (simp add: returned_def say_def Let_def Inl)
    then show ?thesis by blast
  next
    case (Inr u)
    have "replLoop C H env fuel (Line line # rest) s = replLoop C H env fuel rest (s\<lparr>rs_out := rs_out s @ out\<rparr>)"
      using e v line s by (simp add: returned_def Let_def Inr)
    then show ?thesis by blast
  qed
qed

theorem version_forgotten_witness:
  "\<exists>out. replLoop toyCodecs toyHash toyEnv 1 [Line ''version 1'', Line ''get x''] (toySession toyNest)
    = replLoop toyCodecs toyHash toyEnv 1 [Line ''get x''] ((toySession toyNest)\<lparr>rs_out := out\<rparr>)"
  using version_forgotten [of "''version 1''" "''version''" "[''1'']" "toySession toyNest" 1 toyCodecs toyHash toyEnv "[Line ''get x'']"]
  by (simp add: toy_trim toy_words toy_lower toySession_def)

end
