(* ===== verification/ReplSession.thy ===== *)
theory ReplSession
  imports Repl
begin

text \<open>
  What an interactive session does to a database (\<^verbatim>\<open>cmd/pb/commands/repl.go\<close>). The session keeps one tree open while the
  other commands open the database anew. Shown here: the lines typed at the prompt print what the versioned map says, and the
  commands that follow the session find what it has written.
\<close>

section \<open>What the versioned map says\<close>

text \<open>How a line ends: its command succeeds, fails, or ends the program. What it prints, and the current version and the map after it.\<close>

datatype Ending = Done | Failed | Ends

type_synonym Told = "Ending \<times> Printed list \<times> version \<times> spec"

abbreviation toldSpec :: "'a \<times> Printed list \<times> version \<times> spec \<Rightarrow> spec" where
  "toldSpec x \<equiv> snd (snd (snd x))"

text \<open>The words of a line, but for a batch file; reads are at the current version of the session.\<close>

definition specWords :: "(bytes \<Rightarrow> hash) \<Rightarrow> string \<Rightarrow> string list \<Rightarrow> version \<times> spec \<Rightarrow> Told" where
  "specWords H cmd args st =
     (let key = KeyHash (bytesOf (args ! 0)); (ver, sp) = st
      in if cmd = ''put'' then
           (if length args < 2 then (Failed, [], ver, sp)
            else case spec_Put key (bytesOf (joinSpace (tl args))) sp of
                   (Inl err, sp1) \<Rightarrow> (Failed, [], ver, sp1)
                 | (Inr v, sp1) \<Rightarrow> (Done, [Message ''Put at version'' [JString (args ! 0), JString (joinSpace (tl args)), JNumber (uint v)]], ver, sp1))
         else if cmd = ''get'' then
           (if args = [] then (Failed, [], ver, sp)
            else case spec_get ver key sp of
                   Inl err \<Rightarrow> (Failed, [], ver, sp)
                 | Inr None \<Rightarrow> (Done, [Message ''Key not found at version'' [JString (args ! 0), JNumber (uint ver)]], ver, sp)
                 | Inr (Some val) \<Rightarrow> (Done, [Message ''Value'' [JString (args ! 0), JString (stringOf val)]], ver, sp))
         else if cmd = ''delete'' then
           (if args = [] then (Failed, [], ver, sp)
            else case spec_Delete key sp of
                   (Inl err, sp1) \<Rightarrow> (Failed, [], ver, sp1)
                 | (Inr v, sp1) \<Rightarrow> (Done, [Message ''Deleted at version'' [JString (args ! 0), JNumber (uint v)]], ver, sp1))
         else if cmd = ''root'' then
           (case rootAt H sp ver of
              Inl err \<Rightarrow> (Failed, [], ver, sp)
            | Inr h \<Rightarrow> (Done, [Message ''Root hash at version'' [JNumber (uint ver), JString (EncodeToString h)]], ver, sp))
         else if cmd = ''version'' then
           (if args = [] then (Done, [Message ''Current version'' [JNumber (uint ver)]], ver, sp)
            else if args ! 0 = ''latest'' then (Done, [Message ''Switched to latest version'' [JNumber (uint (sp_current sp))]], sp_current sp, sp)
            else case Sscanf_d (args ! 0) of
                   Inl err \<Rightarrow> (Failed, [], ver, sp)
                 | Inr v \<Rightarrow> (Done, [Message ''Switched to version'' [JNumber (uint v)]], v, sp))
         else if cmd = ''help'' then (Done, [Message ''Available commands'' []], ver, sp)
         else if cmd = ''clear'' then (Done, [Message ''clear'' []], ver, sp)
         else if cmd = ''exit'' \<or> cmd = ''quit'' then (Ends, [], ver, sp)
         else (Failed, [], ver, sp))"

text \<open>The lines of a batch file: the version that one line chooses is the one the next lines read.\<close>

fun specBatch :: "(string \<Rightarrow> version \<times> spec \<Rightarrow> Told) \<Rightarrow> nat \<Rightarrow> string list \<Rightarrow> nat \<Rightarrow> nat \<Rightarrow> version \<times> spec
    \<Rightarrow> (nat \<times> nat) option \<times> Printed list \<times> version \<times> spec" where
  "specBatch sx n [] succeeded failed st = (Some (succeeded, failed), [], st)"
| "specBatch sx n (l # ls) succeeded failed st =
     (let line = TrimSpace l
      in if line = [] \<or> prefix ''#'' line then specBatch sx (Suc n) ls succeeded failed st
         else case sx line st of
           (Ends, out, st1) \<Rightarrow> (None, out, st1)
         | (Failed, out, st1) \<Rightarrow>
             (let (r, outs, st2) = specBatch sx (Suc n) ls succeeded (Suc failed) st1 in (r, out @ Message ''Line failed'' [JNumber (int n)] # outs, st2))
         | (Done, out, st1) \<Rightarrow> (let (r, outs, st2) = specBatch sx (Suc n) ls (Suc succeeded) failed st1 in (r, out @ outs, st2)))"

definition specFile :: "(string \<Rightarrow> version \<times> spec \<Rightarrow> Told) \<Rightarrow> Disk \<Rightarrow> string \<Rightarrow> version \<times> spec \<Rightarrow> Told" where
  "specFile sx d filename st =
     (case openBatch filename d of
        Inl err \<Rightarrow> (Failed, [], st)
      | Inr content \<Rightarrow>
          (case specBatch sx 1 (fst (batchLines content)) 0 0 st of
             (None, out, st1) \<Rightarrow> (Ends, out, st1)
           | (Some (succeeded, failed), out, st1) \<Rightarrow>
               if snd (batchLines content) then (Failed, out, st1)
               else (Done, out @ [Message ''Batch complete'' [JNumber (int succeeded), JNumber (int failed)]], st1)))"

text \<open>A line, with batch files nested up to the given depth.\<close>

primrec specLine :: "(bytes \<Rightarrow> hash) \<Rightarrow> Disk \<Rightarrow> nat \<Rightarrow> string \<Rightarrow> version \<times> spec \<Rightarrow> Told" where
  "specLine H d 0 line st = (Failed, [], st)"
| "specLine H d (Suc n) line st =
     (case Fields line of
        [] \<Rightarrow> (Done, [], st)
      | c # args \<Rightarrow>
          if ToLower c = ''batch'' then (if args = [] then (Failed, [], st) else specFile (specLine H d n) d (args ! 0) st)
          else specWords H (ToLower c) args st)"

text \<open>The prompt: every line starts at the latest version, and \<^verbatim>\<open>exit\<close> ends the session without a farewell.\<close>

fun specPrompt :: "(bytes \<Rightarrow> hash) \<Rightarrow> Disk \<Rightarrow> nat \<Rightarrow> ReadlineResult list \<Rightarrow> spec \<Rightarrow> Printed list \<times> spec" where
  "specPrompt H d n [] sp = ([Message ''Goodbye!'' []], sp)"
| "specPrompt H d n (ErrInterrupt # rest) sp = specPrompt H d n rest sp"
| "specPrompt H d n (Line l # rest) sp =
     (if TrimSpace l = [] then specPrompt H d n rest sp
      else let (e, out, ver, sp1) = specLine H d n (TrimSpace l) (sp_current sp, sp)
           in if e = Ends then (out, sp1)
              else let (outs, sp2) = specPrompt H d n rest sp1 in (out @ (if e = Failed then [Message ''Error'' []] else []) @ outs, sp2))"

section \<open>Where the session follows it\<close>

text \<open>
  Every command but \<^verbatim>\<open>prove\<close>, \<^verbatim>\<open>stats\<close>, \<^verbatim>\<open>export\<close> and \<^verbatim>\<open>import\<close>; a key that is deleted, if it is present, shares its
  first 63 nibbles with no other key, and a cycle of batch files is not started.
\<close>

definition words_ok :: "string \<Rightarrow> string list \<Rightarrow> spec \<Rightarrow> bool" where
  "words_ok cmd args sp \<longleftrightarrow> cmd \<notin> {''prove'', ''stats'', ''export'', ''import''}
     \<and> (cmd = ''delete'' \<longrightarrow> args \<noteq> [] \<longrightarrow>
          (case sp_committed sp (sp_current sp) of None \<Rightarrow> True | Some m \<Rightarrow> twinless m (KeyHash (bytesOf (args ! 0)))))"

fun batch_ok :: "(string \<Rightarrow> version \<times> spec \<Rightarrow> bool) \<Rightarrow> (string \<Rightarrow> version \<times> spec \<Rightarrow> Told) \<Rightarrow> string list \<Rightarrow> version \<times> spec \<Rightarrow> bool" where
  "batch_ok good sx [] st = True"
| "batch_ok good sx (l # ls) st =
     (let line = TrimSpace l
      in if line = [] \<or> prefix ''#'' line then batch_ok good sx ls st
         else good line st \<and> (fst (sx line st) \<noteq> Ends \<longrightarrow> batch_ok good sx ls (snd (snd (sx line st)))))"

primrec line_ok :: "(bytes \<Rightarrow> hash) \<Rightarrow> Disk \<Rightarrow> nat \<Rightarrow> string \<Rightarrow> version \<times> spec \<Rightarrow> bool" where
  "line_ok H d 0 line st = False"
| "line_ok H d (Suc n) line st =
     (case Fields line of
        [] \<Rightarrow> True
      | c # args \<Rightarrow>
          if ToLower c = ''batch'' then
            (args = [] \<or> (case openBatch (args ! 0) d of
               Inl err \<Rightarrow> True
             | Inr content \<Rightarrow> batch_ok (line_ok H d n) (specLine H d n) (fst (batchLines content)) st))
          else words_ok (ToLower c) args (snd st))"

fun prompt_ok :: "(bytes \<Rightarrow> hash) \<Rightarrow> Disk \<Rightarrow> nat \<Rightarrow> ReadlineResult list \<Rightarrow> spec \<Rightarrow> bool" where
  "prompt_ok H d n [] sp = True"
| "prompt_ok H d n (ErrInterrupt # rest) sp = prompt_ok H d n rest sp"
| "prompt_ok H d n (Line l # rest) sp =
     (if TrimSpace l = [] then prompt_ok H d n rest sp
      else line_ok H d n (TrimSpace l) (sp_current sp, sp)
        \<and> (let x = specLine H d n (TrimSpace l) (sp_current sp, sp) in fst x \<noteq> Ends \<longrightarrow> prompt_ok H d n rest (toldSpec x)))"

text \<open>The maps seen so far are never forgotten.\<close>

definition remembers :: "(string \<Rightarrow> version \<times> spec \<Rightarrow> Told) \<Rightarrow> bool" where
  "remembers sx \<longleftrightarrow> (\<forall>line st. set (sp_hist (snd st)) \<subseteq> set (sp_hist (toldSpec (sx line st))))"

lemma remembersD: "remembers sx \<Longrightarrow> set (sp_hist (snd st)) \<subseteq> set (sp_hist (toldSpec (sx line st)))"
  unfolding remembers_def by blast

lemma if_remembers: "A \<subseteq> set (sp_hist (toldSpec x)) \<Longrightarrow> A \<subseteq> set (sp_hist (toldSpec y)) \<Longrightarrow> A \<subseteq> set (sp_hist (toldSpec (if c then x else y)))"
  by simp

lemma words_remember: "set (sp_hist (snd st)) \<subseteq> set (sp_hist (toldSpec (specWords H cmd args st)))"
proof -
  obtain ver sp where st: "st = (ver, sp)" by fastforce
  show ?thesis unfolding st specWords_def Let_def prod.case
    by (intro if_remembers)
      (use hist_mono_Put [of sp] hist_mono_Delete [of sp] in \<open>simp_all add: case_prod_unfold split: sum.split option.split\<close>)
qed

lemma batch_remembers: "remembers sx \<Longrightarrow> set (sp_hist (snd st)) \<subseteq> set (sp_hist (toldSpec (specBatch sx n ls k m st)))"
proof (induction ls arbitrary: n k m st)
  case (Cons l ls)
  obtain e out ver sp1 where x: "sx (TrimSpace l) st = (e, out, ver, sp1)" using prod_cases4 by blast
  from remembersD [OF Cons.prems, of st "TrimSpace l"] have one: "set (sp_hist (snd st)) \<subseteq> set (sp_hist sp1)" by (simp add: x)
  have rest: "set (sp_hist (snd st)) \<subseteq> set (sp_hist (toldSpec (specBatch sx n' ls k' m' (ver, sp1))))" for n' k' m'
    by (rule order_trans [OF one]) (use Cons.IH [OF Cons.prems, where st = "(ver, sp1)"] in simp)
  show ?case using one rest Cons.IH [OF Cons.prems, of st] by (cases e) (simp_all add: x Let_def case_prod_unfold)
qed simp

lemma file_remembers: "remembers sx \<Longrightarrow> set (sp_hist (snd st)) \<subseteq> set (sp_hist (toldSpec (specFile sx d f st)))"
  using batch_remembers [of sx st 1]
  by (simp add: specFile_def case_prod_unfold split: sum.split option.split)

lemma line_remembers: "remembers (specLine H d n)"
proof (induction n)
  case (Suc n)
  show ?case unfolding remembers_def
  proof (intro allI)
    fix line st
    show "set (sp_hist (snd st)) \<subseteq> set (sp_hist (toldSpec (specLine H d (Suc n) line st)))"
      using words_remember [of st H] file_remembers [OF Suc, of st d] by (cases "Fields line") (simp_all)
  qed
qed (simp add: remembers_def)

lemma prompt_remembers: "set (sp_hist sp) \<subseteq> set (sp_hist (snd (specPrompt H d n input sp)))"
proof (induction H d n input sp rule: specPrompt.induct)
  case (3 H d n l rest sp)
  obtain e out ver sp1 where x: "specLine H d n (TrimSpace l) (sp_current sp, sp) = (e, out, ver, sp1)" using prod_cases4 by blast
  have "set (sp_hist sp) \<subseteq> set (sp_hist sp1)" using remembersD [OF line_remembers, of "(sp_current sp, sp)" H d n "TrimSpace l"] by (simp add: x)
  from order_trans [OF this] 3 show ?case by (simp add: x Let_def case_prod_unfold)
qed simp_all

section \<open>The session follows it\<close>

definition repl_rel :: "(bytes \<Rightarrow> hash) \<Rightarrow> spec \<Rightarrow> Session \<Rightarrow> bool" where
  "repl_rel H sp s \<longleftrightarrow> tree_rel H sp (rc_tree s) \<and> durable (rc_tree s)"

definition ending :: "Outcome \<Rightarrow> Ending" where
  "ending r = (case r of Exited \<Rightarrow> Ends | Returned (Inl _) \<Rightarrow> Failed | Returned (Inr _) \<Rightarrow> Done)"

definition follows :: "(bytes \<Rightarrow> hash) \<Rightarrow> Told \<Rightarrow> Session \<Rightarrow> Outcome \<times> Session \<Rightarrow> bool" where
  "follows H x s r \<longleftrightarrow>
     (case x of (e, out, ver, sp) \<Rightarrow>
        ending (fst r) = e \<and> rs_out (snd r) = rs_out s @ out \<and> rc_version (snd r) = ver \<and> repl_rel H sp (snd r) \<and> rs_disk (snd r) = rs_disk s)"

abbreviation answer :: "unit result \<times> Session \<Rightarrow> Outcome \<times> Session" where
  "answer r \<equiv> (Returned (fst r), snd r)"

lemmas follows_defs = follows_def ending_def repl_rel_def

lemma say_out [simp]: "rs_out (say fmt args s) = rs_out s @ [Message fmt args]"
  by (simp add: say_def)

lemma follows_usage: "repl_rel H sp s \<Longrightarrow> follows H (Failed, [], rc_version s, sp) s (usage msg, s)"
  by (simp add: follows_defs usage_def)

lemma follows_say: "repl_rel H sp s \<Longrightarrow> follows H (Done, [Message m js], rc_version s, sp) s (Returned (Inr ()), say m js s)"
  by (simp add: follows_defs)

lemma put_follows:
  assumes "repl_rel H sp s" and H: "\<And>x. wf_hash (H x)" and ok: "hash_ok H (sp_hist (snd (spec_Put (KeyHash (bytesOf k)) (bytesOf v) sp)))"
  shows "follows H (case spec_Put (KeyHash (bytesOf k)) (bytesOf v) sp of
      (Inl err, sp1) \<Rightarrow> (Failed, [], rc_version s, sp1)
    | (Inr n, sp1) \<Rightarrow> (Done, [Message ''Put at version'' [JString k, JString v, JNumber (uint n)]], rc_version s, sp1)) s
    (answer (replPut H env k v s))"
proof -
  let ?k = "KeyHash (bytesOf k)" and ?v = "bytesOf v"
  have rel: "tree_rel H sp (rc_tree s)" "durable (rc_tree s)" using assms(1) by (simp_all add: repl_rel_def)
  obtain r t1 where t1: "Tree_Put H (env_now env) ?k ?v (rc_tree s) = (r, t1)" by fastforce
  obtain q sp1 where q: "spec_Put ?k ?v sp = (q, sp1)" by fastforce
  have "r = q" "tree_rel H sp1 t1" "durable t1"
    using Put_refines [OF rel(1) H KeyHash_wf ok, of "env_now env"] persist.keep_Put [OF rel(1) H KeyHash_wf ok rel(2), of "env_now env"] t1 q by simp_all
  then show ?thesis using t1 q by (cases q) (simp_all add: replPut_def follows_defs)
qed

lemma delete_follows:
  assumes "repl_rel H sp s" and H: "\<And>x. wf_hash (H x)" and ok: "hash_ok H (sp_hist (snd (spec_Delete (KeyHash (bytesOf k)) sp)))"
    and twin: "\<And>m. sp_committed sp (sp_current sp) = Some m \<Longrightarrow> no_twin (hashed H m) (KeyHash (bytesOf k))"
  shows "follows H (case spec_Delete (KeyHash (bytesOf k)) sp of
      (Inl err, sp1) \<Rightarrow> (Failed, [], rc_version s, sp1)
    | (Inr n, sp1) \<Rightarrow> (Done, [Message ''Deleted at version'' [JString k, JNumber (uint n)]], rc_version s, sp1)) s (answer (replDelete H env k s))"
proof -
  let ?k = "KeyHash (bytesOf k)"
  have rel: "tree_rel H sp (rc_tree s)" "durable (rc_tree s)" using assms(1) by (simp_all add: repl_rel_def)
  obtain r t1 where t1: "Tree_Delete H (env_now env) ?k (rc_tree s) = (r, t1)" by fastforce
  obtain q sp1 where q: "spec_Delete ?k sp = (q, sp1)" by fastforce
  have "r = q" "tree_rel H sp1 t1" "durable t1"
    using Delete_refines [OF rel(1) H KeyHash_wf twin ok, of "env_now env"]
      persist.keep_Delete [OF rel(1) H KeyHash_wf twin ok rel(2), of "env_now env"] t1 q by simp_all
  then show ?thesis using t1 q by (cases q) (simp_all add: replDelete_def follows_defs)
qed

lemma get_follows:
  assumes "repl_rel H sp s" and H: "\<And>x. wf_hash (H x)" and ok: "hash_ok H (sp_hist sp)"
  shows "follows H (case spec_get (rc_version s) (KeyHash (bytesOf k)) sp of
      Inl err \<Rightarrow> (Failed, [], rc_version s, sp)
    | Inr None \<Rightarrow> (Done, [Message ''Key not found at version'' [JString k, JNumber (uint (rc_version s))]], rc_version s, sp)
    | Inr (Some val) \<Rightarrow> (Done, [Message ''Value'' [JString k, JString (stringOf val)]], rc_version s, sp)) s (answer (replGet H k s))"
proof -
  have rel: "tree_rel H sp (rc_tree s)" "durable (rc_tree s)" using assms(1) by (simp_all add: repl_rel_def)
  have g: "Tree_Get H (rc_tree s) (rc_version s) (KeyHash (bytesOf k)) = (spec_get (rc_version s) (KeyHash (bytesOf k)) sp, rc_tree s)"
    using get_refines [OF rel(1) H ok KeyHash_wf] .
  show ?thesis
  proof (cases "spec_get (rc_version s) (KeyHash (bytesOf k)) sp")
    case (Inl err)
    then show ?thesis using rel by (simp add: replGet_def g follows_defs)
  next
    case (Inr r)
    then show ?thesis using rel by (cases r) (simp_all add: replGet_def g follows_defs)
  qed
qed

lemma root_follows:
  assumes "repl_rel H sp s"
  shows "follows H (case rootAt H sp (rc_version s) of
      Inl err \<Rightarrow> (Failed, [], rc_version s, sp)
    | Inr h \<Rightarrow> (Done, [Message ''Root hash at version'' [JNumber (uint (rc_version s)), JString (EncodeToString h)]], rc_version s, sp)) s
    (answer (replRoot s))"
proof -
  have rel: "tree_rel H sp (rc_tree s)" "durable (rc_tree s)" using assms(1) by (simp_all add: repl_rel_def)
  show ?thesis using rel GetRootHash_rootAt [OF rel(1)] by (simp add: replRoot_def follows_defs split: sum.split)
qed

lemma version_follows:
  assumes "repl_rel H sp s"
  shows "follows H (if args = [] then (Done, [Message ''Current version'' [JNumber (uint (rc_version s))]], rc_version s, sp)
      else if args ! 0 = ''latest'' then (Done, [Message ''Switched to latest version'' [JNumber (uint (sp_current sp))]], sp_current sp, sp)
      else case Sscanf_d (args ! 0) of
             Inl err \<Rightarrow> (Failed, [], rc_version s, sp)
           | Inr v \<Rightarrow> (Done, [Message ''Switched to version'' [JNumber (uint v)]], v, sp)) s (answer (replVersion args s))"
proof -
  have rel: "tree_rel H sp (rc_tree s)" "durable (rc_tree s)" using assms(1) by (simp_all add: repl_rel_def)
  have v: "GetLatestVersion (rc_tree s) = sp_current sp" using tree_relD(4) [OF rel(1)] by (simp add: GetLatestVersion_def)
  show ?thesis
  proof (cases args)
    case Nil
    then show ?thesis using rel by (simp add: replVersion_def follows_defs)
  next
    case (Cons a rest)
    show ?thesis using rel unfolding Cons by (simp add: replVersion_def follows_defs v Let_def split: sum.split)
  qed
qed

lemma words_follow:
  assumes rel: "repl_rel H sp s" and H: "\<And>x. wf_hash (H x)" and ok: "hash_ok H (sp_hist (toldSpec (specWords H cmd args (rc_version s, sp))))"
    and words: "words_ok cmd args sp"
  shows "\<exists>r. plainCommand C H env cmd args s = Some r \<and> follows H (specWords H cmd args (rc_version s, sp)) s r"
proof -
  have ex: ?thesis if "plainCommand C H env cmd args s = Some r" and "follows H (specWords H cmd args (rc_version s, sp)) s r" for r
    using that by blast
  note miss = follows_usage [OF rel] and defs = plainCommand_def specWords_def Let_def returned_def
  have not: "cmd \<noteq> ''prove''" "cmd \<noteq> ''stats''" "cmd \<noteq> ''export''" "cmd \<noteq> ''import''" using words by (simp_all add: words_ok_def)
  consider "cmd = ''put''" | "cmd = ''get''" | "cmd = ''delete''" | "cmd = ''root''" | "cmd = ''version''"
    | "cmd \<notin> {''put'', ''get'', ''delete'', ''root'', ''version''}" by blast
  then show ?thesis
  proof cases
    case 1
    show ?thesis
    proof (cases "length args < 2")
      case True
      show ?thesis by (rule ex) (use 1 True miss in \<open>simp_all add: defs\<close>)
    next
      case False
      have "hash_ok H (sp_hist (snd (spec_Put (KeyHash (bytesOf (args ! 0))) (bytesOf (joinSpace (tl args))) sp)))"
        using ok False 1 by (simp add: specWords_def Let_def case_prod_unfold split: sum.splits)
      note f = put_follows [OF rel H this, of env]
      show ?thesis by (rule ex) (use f 1 False in \<open>simp_all add: defs\<close>)
    qed
  next
    case 2
    have "hash_ok H (sp_hist sp)" using hash_ok_mono [OF ok] words_remember [of "(rc_version s, sp)"] by simp
    note f = get_follows [OF rel H this, of "args ! 0"]
    show ?thesis
    proof (cases "args = []")
      case True
      show ?thesis by (rule ex) (use 2 True miss in \<open>simp_all add: defs\<close>)
    next
      case False
      show ?thesis by (rule ex) (use f 2 False in \<open>simp_all add: defs\<close>)
    qed
  next
    case 3
    show ?thesis
    proof (cases "args = []")
      case True
      show ?thesis by (rule ex) (use 3 True miss in \<open>simp_all add: defs\<close>)
    next
      case False
      have "hash_ok H (sp_hist (snd (spec_Delete (KeyHash (bytesOf (args ! 0))) sp)))"
        using ok False 3 by (simp add: specWords_def Let_def case_prod_unfold split: sum.splits)
      moreover have "no_twin (hashed H m) (KeyHash (bytesOf (args ! 0)))" if "sp_committed sp (sp_current sp) = Some m" for m
        using words False 3 that by (auto simp: words_ok_def)
      ultimately have f: "follows H (case spec_Delete (KeyHash (bytesOf (args ! 0))) sp of
          (Inl err, sp1) \<Rightarrow> (Failed, [], rc_version s, sp1)
        | (Inr n, sp1) \<Rightarrow> (Done, [Message ''Deleted at version'' [JString (args ! 0), JNumber (uint n)]], rc_version s, sp1)) s
          (answer (replDelete H env (args ! 0) s))"
        by (rule delete_follows [OF rel H])
      show ?thesis by (rule ex) (use f 3 False in \<open>simp_all add: defs\<close>)
    qed
  next
    case 4
    show ?thesis by (rule ex) (use root_follows [OF rel] 4 in \<open>simp_all add: defs\<close>)
  next
    case 5
    show ?thesis by (rule ex) (use version_follows [OF rel, of args] 5 in \<open>simp_all add: defs\<close>)
  next
    case 6
    then have names: "cmd \<noteq> ''put''" "cmd \<noteq> ''get''" "cmd \<noteq> ''delete''" "cmd \<noteq> ''root''" "cmd \<noteq> ''version''" by simp_all
    have "follows H (Ends, [], rc_version s, sp) s (Exited, s)" using rel by (simp add: follows_defs)
    then show ?thesis using names not miss follows_say [OF rel] by (simp add: defs)
  qed
qed

text \<open>The lines of a batch file, for any execution of lines that follows the map.\<close>

definition simulates :: "(bytes \<Rightarrow> hash) \<Rightarrow> Disk \<Rightarrow> (string \<Rightarrow> version \<times> spec \<Rightarrow> bool) \<Rightarrow> (string \<Rightarrow> version \<times> spec \<Rightarrow> Told)
    \<Rightarrow> (string \<Rightarrow> Session \<Rightarrow> (Outcome \<times> Session) option) \<Rightarrow> bool" where
  "simulates H d good sx exe \<longleftrightarrow>
     (\<forall>line s sp. repl_rel H sp s \<longrightarrow> rs_disk s = d \<longrightarrow> good line (rc_version s, sp) \<longrightarrow> hash_ok H (sp_hist (toldSpec (sx line (rc_version s, sp)))) \<longrightarrow>
        (\<exists>r. exe line s = Some r \<and> follows H (sx line (rc_version s, sp)) s r))"

lemma simulatesD:
  "simulates H d good sx exe \<Longrightarrow> repl_rel H sp s \<Longrightarrow> rs_disk s = d \<Longrightarrow> good line (rc_version s, sp)
    \<Longrightarrow> hash_ok H (sp_hist (toldSpec (sx line (rc_version s, sp)))) \<Longrightarrow> \<exists>r. exe line s = Some r \<and> follows H (sx line (rc_version s, sp)) s r"
  by (simp add: simulates_def)

lemma batch_follows:
  assumes sim: "simulates H d good sx exe" and mem: "remembers sx"
    and "repl_rel H sp s" and "rs_disk s = d" and "batch_ok good sx ls (rc_version s, sp)"
    and "hash_ok H (sp_hist (toldSpec (specBatch sx n ls k m (rc_version s, sp))))"
  shows "\<exists>s1. batchLoop exe n ls k m s = Some (fst (specBatch sx n ls k m (rc_version s, sp)), s1)
    \<and> rs_out s1 = rs_out s @ fst (snd (specBatch sx n ls k m (rc_version s, sp)))
    \<and> rc_version s1 = fst (snd (snd (specBatch sx n ls k m (rc_version s, sp))))
    \<and> repl_rel H (toldSpec (specBatch sx n ls k m (rc_version s, sp))) s1 \<and> rs_disk s1 = d"
  using assms(3-)
proof (induction ls arbitrary: n k m s sp)
  case (Cons l ls)
  let ?line = "TrimSpace l" and ?st = "(rc_version s, sp)"
  show ?case
  proof (cases "?line = [] \<or> prefix ''#'' ?line")
    case True
    then show ?thesis using Cons.IH [OF Cons.prems(1,2)] Cons.prems(3,4) by (simp only: specBatch.simps batchLoop.simps batch_ok.simps Let_def if_True)
  next
    case False
    obtain e out ver sp1 where x: "sx ?line ?st = (e, out, ver, sp1)" using prod_cases4 by blast
    have good: "good ?line ?st" "e \<noteq> Ends \<Longrightarrow> batch_ok good sx ls (ver, sp1)" using Cons.prems(3) False by (simp_all add: x Let_def)
    have rest: "set (sp_hist sp1) \<subseteq> set (sp_hist (toldSpec (specBatch sx n' ls k' m' (ver, sp1))))" for n' k' m'
      using batch_remembers [OF mem, of "(ver, sp1)"] by simp
    have ok: "hash_ok H (sp_hist sp1)"
      using hash_ok_mono [OF _ rest] Cons.prems(4) False by (cases e) (simp_all add: x Let_def case_prod_unfold)
    from simulatesD [OF sim Cons.prems(1,2) good(1)] obtain r s1 where r: "exe ?line s = Some (r, s1)" "follows H (e, out, ver, sp1) s (r, s1)"
      using ok unfolding x by auto
    have f: "ending r = e" "rs_out s1 = rs_out s @ out" "rc_version s1 = ver" "repl_rel H sp1 s1" "rs_disk s1 = d"
      using r(2) Cons.prems(2) by (simp_all add: follows_def)
    show ?thesis
    proof (cases e)
      case Ends
      then have "r = Exited" using f(1) by (auto simp: ending_def split: Outcome.splits sum.splits)
      then show ?thesis using False Ends r(1) f x by (simp add: Let_def)
    next
      case Failed
      then obtain err where e: "r = Returned (Inl err)" using f(1) by (auto simp: ending_def split: Outcome.splits sum.splits)
      let ?s2 = "say ''Line failed'' [JNumber (int n)] s1"
      have "repl_rel H sp1 ?s2" "rs_disk ?s2 = d" "batch_ok good sx ls (rc_version ?s2, sp1)"
        "hash_ok H (sp_hist (toldSpec (specBatch sx (Suc n) ls k (Suc m) (rc_version ?s2, sp1))))"
        using f good(2) Failed Cons.prems(4) False by (simp_all add: repl_rel_def x Let_def case_prod_unfold)
      from Cons.IH [OF this] show ?thesis using False Failed r(1) e f x by (auto simp: Let_def case_prod_unfold)
    next
      case Done
      then obtain u where e: "r = Returned (Inr u)" using f(1) by (auto simp: ending_def split: Outcome.splits sum.splits)
      have "batch_ok good sx ls (rc_version s1, sp1)" "hash_ok H (sp_hist (toldSpec (specBatch sx (Suc n) ls (Suc k) m (rc_version s1, sp1))))"
        using f good(2) Done Cons.prems(4) False by (simp_all add: x Let_def case_prod_unfold)
      from Cons.IH [OF f(4,5) this] show ?thesis using False Done r(1) e f x by (auto simp: Let_def case_prod_unfold)
    qed
  qed
qed simp

lemma file_follows:
  assumes sim: "simulates H d good sx exe" and mem: "remembers sx" and rel: "repl_rel H sp s" "rs_disk s = d"
    and good: "\<And>content. openBatch f d = Inr content \<Longrightarrow> batch_ok good sx (fst (batchLines content)) (rc_version s, sp)"
    and ok: "hash_ok H (sp_hist (toldSpec (specFile sx d f (rc_version s, sp))))"
  shows "\<exists>r. replBatch exe f s = Some r \<and> follows H (specFile sx d f (rc_version s, sp)) s r"
proof (cases "openBatch f d")
  case (Inl err)
  then show ?thesis using rel by (simp add: replBatch_def specFile_def follows_defs)
next
  case (Inr content)
  let ?ls = "fst (batchLines content)" and ?bad = "snd (batchLines content)"
  obtain b out ver sp1 where x: "specBatch sx 1 ?ls 0 0 (rc_version s, sp) = (b, out, ver, sp1)" using prod_cases4 by blast
  have "hash_ok H (sp_hist (toldSpec (specBatch sx 1 ?ls 0 0 (rc_version s, sp))))"
    using ok Inr x by (simp add: specFile_def split: option.splits if_splits prod.splits)
  from batch_follows [OF sim mem rel good [OF Inr] this, unfolded x fst_conv snd_conv] obtain s1 where s1: "batchLoop exe 1 ?ls 0 0 s = Some (b, s1)" "rs_out s1 = rs_out s @ out"
    "rc_version s1 = ver" "repl_rel H sp1 s1" "rs_disk s1 = d" by blast
  then show ?thesis using Inr x rel(2)
    by (cases b) (auto simp: replBatch_def specFile_def case_prod_unfold Let_def follows_defs)
qed

lemma line_follows:
  assumes H: "\<And>x. wf_hash (H x)"
  shows "simulates H d (line_ok H d n) (specLine H d n) (executeReplCommand C H env n)"
proof (induction n)
  case (Suc n)
  show ?case unfolding simulates_def
  proof (intro allI impI)
    fix line s sp
    assume rel: "repl_rel H sp s" "rs_disk s = d" and good: "line_ok H d (Suc n) line (rc_version s, sp)"
      and ok: "hash_ok H (sp_hist (toldSpec (specLine H d (Suc n) line (rc_version s, sp))))"
    show "\<exists>r. executeReplCommand C H env (Suc n) line s = Some r \<and> follows H (specLine H d (Suc n) line (rc_version s, sp)) s r"
    proof (cases "Fields line")
      case Nil
      then show ?thesis using rel by (simp add: follows_defs executeReplCommand.simps(2))
    next
      case (Cons c args)
      show ?thesis
      proof (cases "ToLower c = ''batch''")
        case True
        show ?thesis
        proof (cases "args = []")
          case True
          then show ?thesis using \<open>ToLower c = ''batch''\<close> Cons follows_usage [OF rel(1)] by (simp add: executeReplCommand.simps(2))
        next
          case False
          have "\<exists>r. replBatch (executeReplCommand C H env n) (args ! 0) s = Some r \<and> follows H (specFile (specLine H d n) d (args ! 0) (rc_version s, sp)) s r"
            using good ok Cons True False by (intro file_follows [OF Suc line_remembers rel]) simp_all
          then show ?thesis using Cons True False by (simp add: executeReplCommand.simps(2))
        qed
      next
        case False
        show ?thesis using words_follow [OF rel(1) H, of "ToLower c" args C env] good ok Cons False by (simp add: executeReplCommand.simps(2))
      qed
    qed
  qed
qed (simp add: simulates_def)

lemma prompt_follows:
  assumes H: "\<And>x. wf_hash (H x)" and "repl_rel H sp s" and "rc_version s = sp_current sp" and "rs_disk s = d" and "prompt_ok H d n input sp"
    and "hash_ok H (sp_hist (snd (specPrompt H d n input sp)))"
  shows "\<exists>b s'. replLoop C H env n input s = Some (b, s') \<and> rs_out s' = rs_out s @ fst (specPrompt H d n input sp)
    \<and> repl_rel H (snd (specPrompt H d n input sp)) s' \<and> rs_disk s' = d"
  using assms(2-)
proof (induction input arbitrary: sp s)
  case (Cons i input)
  show ?case
  proof (cases i)
    case (Line l)
    let ?line = "TrimSpace l"
    show ?thesis
    proof (cases "?line = []")
      case True
      then show ?thesis using Cons.IH [OF Cons.prems(1-3)] Cons.prems(4,5) Line by simp
    next
      case False
      obtain e out ver sp1 where x: "specLine H d n ?line (rc_version s, sp) = (e, out, ver, sp1)" using prod_cases4 by blast
      note x' = x [unfolded Cons.prems(2)]
      have good: "line_ok H d n ?line (rc_version s, sp)" "e \<noteq> Ends \<Longrightarrow> prompt_ok H d n input sp1"
        using Cons.prems(4) Line False by (simp_all add: x' Cons.prems(2) Let_def)
      have ok: "hash_ok H (sp_hist sp1)"
      proof (cases "e = Ends")
        case True
        then show ?thesis using Cons.prems(5) Line False by (simp add: x')
      next
        case False
        then have "hash_ok H (sp_hist (snd (specPrompt H d n input sp1)))"
          using Cons.prems(5) Line \<open>?line \<noteq> []\<close> by (simp add: x' case_prod_unfold Let_def)
        from hash_ok_mono [OF this prompt_remembers] show ?thesis .
      qed
      obtain r s1 where r: "executeReplCommand C H env n ?line s = Some (r, s1)" "follows H (e, out, ver, sp1) s (r, s1)"
        using simulatesD [OF line_follows [OF H, where C = C and env = env] Cons.prems(1,3) good(1)] ok unfolding x by fastforce
      have f: "ending r = e" "rs_out s1 = rs_out s @ out" "repl_rel H sp1 s1" "rs_disk s1 = d" using r(2) Cons.prems(3) by (simp_all add: follows_def)
      show ?thesis
      proof (cases "e = Ends")
        case True
        then have "r = Exited" using f(1) by (auto simp: ending_def split: Outcome.splits sum.splits)
        then have "replLoop C H env n (i # input) s = Some (True, s1)" using Line False r(1) by (simp add: Let_def)
        moreover have "specPrompt H d n (i # input) sp = (out, sp1)" using Line False True by (simp add: x')
        ultimately show ?thesis using f by (intro exI [where x = True] exI [where x = s1]) simp
      next
        case False
        then obtain q where q: "r = Returned q" using f(1) by (cases r) (auto simp: ending_def)
        let ?s2 = "case q of Inl err \<Rightarrow> say ''Error'' [] s1 | Inr _ \<Rightarrow> s1"
        let ?s3 = "?s2\<lparr>rc_version := GetLatestVersion (rc_tree ?s2)\<rparr>"
        have same: "rc_tree ?s3 = rc_tree s1" "rs_disk ?s3 = d" "rs_out ?s3 = rs_out s1 @ (if e = Failed then [Message ''Error'' []] else [])"
          using f(1,4) q by (auto simp: ending_def split: sum.splits)
        have rel: "repl_rel H sp1 ?s3" using f(3) unfolding repl_rel_def same(1) .
        have v: "rc_version ?s3 = sp_current sp1" using rel tree_relD(4) [of H sp1 "rc_tree s1"] same(1) by (simp add: repl_rel_def GetLatestVersion_def split: sum.splits)
        have ok2: "hash_ok H (sp_hist (snd (specPrompt H d n input sp1)))"
          using Cons.prems(5) Line False \<open>?line \<noteq> []\<close> by (simp add: x' case_prod_unfold Let_def)
        have step: "replLoop C H env n (i # input) s = replLoop C H env n input ?s3"
          using Line \<open>?line \<noteq> []\<close> r(1) q by (simp add: Let_def)
        have spec: "specPrompt H d n (i # input) sp =
            (out @ (if e = Failed then [Message ''Error'' []] else []) @ fst (specPrompt H d n input sp1), snd (specPrompt H d n input sp1))"
          using Line False \<open>?line \<noteq> []\<close> by (simp add: x' case_prod_unfold Let_def)
        from Cons.IH [OF rel v same(2) good(2) [OF False] ok2] show ?thesis unfolding step spec by (simp add: same(3) f(2))
      qed
    qed
  next
    case ErrInterrupt
    then show ?thesis using Cons by simp
  qed
qed (auto simp: repl_rel_def)

section \<open>Commands around the session\<close>

lemma runCommand_files: "same_files d (snd (runCommand H c d))"
  by (cases c) (auto simp: runPut_def runGet_def runDelete_def runRootHash_def Let_def same_files_close split: sum.split prod.split)

lemma session_files: "same_files d (snd (session H cs d))"
proof (induction cs arbitrary: d)
  case (Cons c cs)
  from same_files_trans [OF runCommand_files Cons] show ?case by (simp add: Let_def case_prod_unfold)
qed simp

lemma runREPL_rel:
  assumes db: "db_rel H sp0 path d" and path: "dbPath fl = path" and H: "\<And>x. wf_hash (H x)" and sp: "sp = spec_reopen sp0"
    and words: "prompt_ok H d n input sp" and ok: "hash_ok H (sp_hist (snd (specPrompt H d n input sp)))"
  shows "\<exists>d'. runREPL C H fl env n input stdin d =
      Some (Inr (), Message ''ProofBox Interactive REPL'' [JString path, JNumber (uint (sp_current sp))] # fst (specPrompt H d n input sp), d')
    \<and> db_rel H (snd (specPrompt H d n input sp)) path d' \<and> same_files d d'"
proof -
  obtain store t where t: "openDatabase path d = Inr store" "openTree (env_now env) store = Inr t" "tree_rel H sp t" "durable t"
    using open_rel [OF db H, of "env_now env"] unfolding sp by blast
  let ?s = "\<lparr>rc_tree = t, rc_version = GetLatestVersion t, rs_disk = d, rs_stdin = stdin,
    rs_out = [Message ''ProofBox Interactive REPL'' [JString path, JNumber (uint (GetLatestVersion t))]]\<rparr>"
  have v: "GetLatestVersion t = sp_current sp" using tree_relD(4) [OF t(3)] by (simp add: GetLatestVersion_def)
  have rel: "repl_rel H sp ?s" "rc_version ?s = sp_current sp" "rs_disk ?s = d" using t(3,4) v by (simp_all add: repl_rel_def)
  obtain b s' where s': "replLoop C H env n input ?s = Some (b, s')" "rs_out s' = rs_out ?s @ fst (specPrompt H d n input sp)"
    "repl_rel H (snd (specPrompt H d n input sp)) s'" "rs_disk s' = d"
    using prompt_follows [OF H rel words ok] by blast
  have "runREPL C H fl env n input stdin d = Some (Inr (), rs_out s', closeStore path (rc_tree s') d)"
    using s'(1,4) t(1,2) by (simp add: runREPL_def path)
  then show ?thesis using s'(2,3) close_rel [OF db, of "snd (specPrompt H d n input sp)" "rc_tree s'"] same_files_close [of d path "rc_tree s'"]
    by (simp add: v repl_rel_def)
qed

section \<open>Properties\<close>

text \<open>
  C18: an interactive session among other commands. After \<^verbatim>\<open>pb init\<close> and some commands, the lines typed at the prompt
  print exactly what the versioned map says, which starts from what the commands before it have written, and the commands after
  the session print what follows from what the session has written. The lines may hold every command but \<^verbatim>\<open>prove\<close>,
  \<^verbatim>\<open>stats\<close>, \<^verbatim>\<open>export\<close> and \<^verbatim>\<open>import\<close>: also \<^verbatim>\<open>version\<close> (which
  the next line at the prompt has forgotten, while the next line of a batch file has not), batch files nested without a cycle
  (\<open>n\<close> levels of fuel), \<^verbatim>\<open>exit\<close>, unknown commands and wrong arguments. The commands before and after are put, get,
  delete and root. Everywhere a key that is deleted, if it is present, shares its first 63 nibbles with no other key: there
  the deletion fails instead (\<^verbatim>\<open>tree_updater.go:303\<close>).
\<close>

theorem repl_among_commands:
  assumes "backend fl = ''pebble''" and "\<not> is_ok (os_Stat d (dbPath fl))" and "\<not> ds_refuse d (Clean (dbPath fl))"
    and "\<And>x. wf_hash (H x)" and d0: "d0 = snd (runInit fl env (Inr ()) d)" and "session_ok H (dbPath fl) d0 cs1 spec_init"
    and d1: "d1 = snd (session H cs1 d0)"
    and sp1: "sp1 = spec_reopen (snd (specSession H d0 cs1 spec_init))" and "prompt_ok H d1 n input sp1"
    and sp2: "sp2 = snd (specPrompt H d1 n input sp1)" and "session_ok H (dbPath fl) d0 cs2 sp2"
    and "hash_ok H (sp_hist (snd (specSession H d0 cs2 sp2)))"
  shows "\<exists>d2. runREPL C H fl env' n input stdin d1 =
      Some (Inr (), Message ''ProofBox Interactive REPL'' [JString (dbPath fl), JNumber (uint (sp_current sp1))] # fst (specPrompt H d1 n input sp1), d2)
    \<and> fst (session H cs2 d2) = fst (specSession H d0 cs2 sp2)"
proof -
  obtain d' out where i: "runInit fl env (Inr ()) d = (Inr out, d')" "db_rel H spec_init (dbPath fl) d'"
    using init_rel [OF assms(1-3)] by blast
  then have db0: "db_rel H spec_init (dbPath fl) d0" by (simp add: d0)
  have ok2: "hash_ok H (sp_hist (snd (specPrompt H d1 n input sp1)))" using hash_ok_mono [OF assms(12) hist_mono_session] by (simp add: sp2)
  have ok1: "hash_ok H (sp_hist (snd (specSession H d0 cs1 spec_init)))" using hash_ok_mono [OF ok2 prompt_remembers] by (simp add: sp1)
  have db1: "db_rel H (snd (specSession H d0 cs1 spec_init)) (dbPath fl) d1"
    using session_rel [OF db0 assms(4) same_files_refl assms(6) ok1] unfolding d1 by (rule conjunct2)
  obtain d2 where d2: "runREPL C H fl env' n input stdin d1 =
      Some (Inr (), Message ''ProofBox Interactive REPL'' [JString (dbPath fl), JNumber (uint (sp_current sp1))] # fst (specPrompt H d1 n input sp1), d2)"
    "db_rel H sp2 (dbPath fl) d2" "same_files d1 d2"
    using runREPL_rel [OF db1 refl assms(4) sp1 assms(9) ok2] unfolding sp2 by blast
  have "same_files d0 d2" using same_files_trans [OF session_files, of H cs1 d0 d2] d2(3) by (simp add: d1)
  from session_rel [OF d2(2) assms(4) this assms(11,12)] d2(1) show ?thesis by blast
qed

lemma toy_prompt: "Fields (TrimSpace ''root'') = [''root'']" "Fields (TrimSpace ''get'') = [''get'']" "Fields (TrimSpace ''quit'') = [''quit'']"
  "Fields (TrimSpace ''version 7'') = [''version'', ''7'']" "TrimSpace ''root'' \<noteq> []" "TrimSpace ''get'' \<noteq> []" "TrimSpace ''quit'' \<noteq> []"
  "TrimSpace ''version 7'' \<noteq> []" "ToLower ''root'' = ''root''" "ToLower ''quit'' = ''quit''"
proof -
  have t: "TrimSpace ''root'' = ''root''" "TrimSpace ''get'' = ''get''" "TrimSpace ''quit'' = ''quit''" "TrimSpace ''version 7'' = ''version 7''"
    by (rule TrimSpace_id; simp add: leadingSpace_def spaces_chars suffix_def)+
  show "Fields (TrimSpace ''root'') = [''root'']" "Fields (TrimSpace ''get'') = [''get'']" "Fields (TrimSpace ''quit'') = [''quit'']"
    "Fields (TrimSpace ''version 7'') = [''version'', ''7'']" "TrimSpace ''root'' \<noteq> []" "TrimSpace ''get'' \<noteq> []" "TrimSpace ''quit'' \<noteq> []"
    "TrimSpace ''version 7'' \<noteq> []" by (simp_all add: t words_eval)
  show "ToLower ''root'' = ''root''" "ToLower ''quit'' = ''quit''" by code_simp+
qed

lemma told_root: "specWords H ''root'' args (ver, sp) = (case rootAt H sp ver of Inl err \<Rightarrow> (Failed, [], ver, sp)
     | Inr h \<Rightarrow> (Done, [Message ''Root hash at version'' [JNumber (uint ver), JString (EncodeToString h)]], ver, sp))"
  by (simp add: specWords_def cong: sum.case_cong)

lemma told_usage: "specWords H ''get'' [] (ver, sp) = (Failed, [], ver, sp)" "specWords H ''quit'' [] (ver, sp) = (Ends, [], ver, sp)"
  by (simp_all add: specWords_def)

lemma told_seven: "specWords H ''version'' [''7''] (ver, sp) = (Done, [Message ''Switched to version'' [JNumber 7]], 7, sp)"
proof -
  have "Sscanf_d ''7'' = Inr 7" by (simp add: Sscanf_d_def isDigit_def decimalValue_def)
  then show ?thesis unfolding specWords_def Let_def prod.case by simp
qed

lemmas toy_told = told_root told_usage told_seven

lemma plain_told: "Fields line = c # args \<Longrightarrow> ToLower c = cmd \<Longrightarrow> cmd \<noteq> ''batch'' \<Longrightarrow> specLine H d (Suc n) line st = specWords H cmd args st"
  by simp

lemma plain_ok: "Fields line = c # args \<Longrightarrow> ToLower c = cmd \<Longrightarrow> cmd \<noteq> ''batch'' \<Longrightarrow> words_ok cmd args (snd st) \<Longrightarrow> line_ok H d (Suc n) line st"
  by simp

lemma toy_words_ok: "words_ok ''root'' args sp" "words_ok ''get'' args sp" "words_ok ''quit'' args sp" "words_ok ''version'' args sp"
  by (simp_all add: words_ok_def)

lemma not_batch: "''root'' \<noteq> ''batch''" "''get'' \<noteq> ''batch''" "''quit'' \<noteq> ''batch''" "''version'' \<noteq> ''batch''"
  by simp_all

lemmas toy_lines_told =
  plain_told [OF toy_prompt(1,9) not_batch(1)] plain_told [OF toy_prompt(2) toy_lower(2) not_batch(2)]
  plain_told [OF toy_prompt(3,10) not_batch(3)] plain_told [OF toy_prompt(4) toy_lower(3) not_batch(4)]

lemmas toy_lines_ok =
  plain_ok [OF toy_prompt(1,9) not_batch(1) toy_words_ok(1)] plain_ok [OF toy_prompt(2) toy_lower(2) not_batch(2) toy_words_ok(2)]
  plain_ok [OF toy_prompt(3,10) not_batch(3) toy_words_ok(3)] plain_ok [OF toy_prompt(4) toy_lower(3) not_batch(4) toy_words_ok(4)]

theorem repl_among_commands_witness:
  "\<exists>d2. runREPL toyCodecs toyHash toyFlags toyEnv 1 [Line ''version 7'', Line ''root'', ErrInterrupt, Line ''get'', Line ''quit''] []
      (snd (session toyHash [PutCmd toyFlags toyEnv [EncodeToString toyKey, stringOf toyValue]] (snd (runInit toyFlags toyEnv (Inr ()) toyDisk)))) =
      Some (Inr (), [Message ''ProofBox Interactive REPL'' [JString ''./pb.db'', JNumber 1], Message ''Switched to version'' [JNumber 7],
        Message ''Root hash at version'' [JNumber 1, JString (EncodeToString (merkle_root toyHash (hashed toyHash toyMap)))],
        Message ''Error'' []], d2)
    \<and> fst (session toyHash [GetCmd toyFlags toyEnv [EncodeToString toyKey]] d2) = [getOutput toyFlags (EncodeToString toyKey) toyKey 1 (Inr (Some toyValue))]"
proof -
  let ?d = "snd (runInit toyFlags toyEnv (Inr ()) toyDisk)"
  let ?put = "[PutCmd toyFlags toyEnv [EncodeToString toyKey, stringOf toyValue]]" and ?get = "[GetCmd toyFlags toyEnv [EncodeToString toyKey]]"
  let ?d1 = "snd (session toyHash ?put ?d)"
  let ?in = "[Line ''version 7'', Line ''root'', ErrInterrupt, Line ''get'', Line ''quit'']"
  have fl: "dbPath toyFlags = ''./pb.db''" "hexKey toyFlags" "fileValue toyFlags = []" "versionFlag toyFlags = None" "backend toyFlags = ''pebble''"
    by (simp_all add: toyFlags_def defaultFlags_def)
  have pre: "\<not> is_ok (os_Stat toyDisk (dbPath toyFlags))" "\<not> ds_refuse toyDisk (Clean (dbPath toyFlags))"
    by (simp_all add: toyDisk_def os_Stat_def)
  have max: "MaxVersion \<noteq> 0" by (simp add: MaxVersion_def)
  have re: "spec_reopen spec_init = spec_init" by (simp add: spec_reopen_def spec_init_def)
  obtain sp where sp: "spec_Put toyKey toyValue spec_init = (Inr 1, sp)" "sp_committed sp = [0 \<mapsto> Map.empty, 1 \<mapsto> toyMap]" "sp_current sp = 1"
    "sp_hist sp = [toyMap, Map.empty]" using spec_Put_toy by simp
  have sp': "sp_committed (spec_reopen sp) = [1 \<mapsto> toyMap]" "sp_current (spec_reopen sp) = 1" by (auto simp: sp spec_reopen_def)
  have val: "putValue toyFlags [EncodeToString toyKey, stringOf toyValue] ?d = Inr toyValue" by (simp add: putValue_def fl)
  have key: "parseKey True (EncodeToString toyKey) = Inr toyKey" using parseKey_hex [OF wf_toyKey] .
  have s1: "snd (specSession toyHash ?d ?put spec_init) = sp" by (simp add: fl re val key sp case_prod_unfold)
  have s2: "specPrompt toyHash ?d1 1 ?in (spec_reopen sp) =
      ([Message ''Switched to version'' [JNumber 7], Message ''Root hash at version'' [JNumber 1, JString (EncodeToString (merkle_root toyHash (hashed toyHash toyMap)))],
        Message ''Error'' []], spec_reopen sp)"
    unfolding One_nat_def by (simp add: toy_prompt(5-8) toy_lines_told toy_told rootAt_def sp' del: specLine.simps session.simps)
  have s3: "specSession toyHash ?d ?get (spec_reopen sp) = ([getOutput toyFlags (EncodeToString toyKey) toyKey 1 (Inr (Some toyValue))], spec_reopen sp)"
    using one_le_MaxVersion toyKey_not_empty max by (simp add: fl key specVersion_def spec_get_def sp' leD idx_def toyMap_def)
  have "session_ok toyHash (dbPath toyFlags) ?d ?put spec_init" "session_ok toyHash (dbPath toyFlags) ?d ?get (spec_reopen sp)" by (simp_all add: fl)
  moreover have "prompt_ok toyHash ?d1 1 ?in (spec_reopen sp)" unfolding One_nat_def
    by (simp add: toy_prompt(5-8) toy_lines_told toy_lines_ok toy_told rootAt_def sp' del: specLine.simps line_ok.simps session.simps)
  moreover have "hash_ok toyHash (sp_hist (snd (specSession toyHash ?d ?get (spec_reopen sp))))" using toy_hash_ok unfolding s3 by (simp add: sp(4))
  ultimately show ?thesis
    using repl_among_commands [where H = toyHash and env = toyEnv and ?cs1.0 = ?put and input = ?in and ?cs2.0 = ?get and n = 1 and stdin = "[]" and C = toyCodecs
        and env' = toyEnv, OF fl(5) pre wf_toyHash refl _ refl refl _ refl] unfolding s1 s2 s3 snd_conv fst_conv sp'(2) fl(1) by simp
qed

end
