(* ===== verification/FuzzInvariants.thy ===== *)
theory FuzzInvariants
  imports CommandSessions
begin

text \<open>
  The invariants that the repository checks by fuzzing: \<^verbatim>\<open>pkg/fuzz/invariants\<close>, on the operations of
  \<^verbatim>\<open>pkg/fuzz/generators\<close>. Each check runs a sequence of operations on a tree and compares what it sees with its own records.
  Shown here: the checks succeed on every sequence of valid operations, not only on the sampled ones.
\<close>

section \<open>Operations\<close>

datatype OpType = OpPut | OpGet | OpDelete

record FuzzOperation =
  fz_Type :: OpType
  fz_Key :: key
  fz_Value :: bytes
  fz_Version :: version

text \<open>The clock is read at every operation.\<close>

type_synonym timed = "int \<times> FuzzOperation"

text \<open>The error that the checks recognise by its text.\<close>

definition keyNotFound :: error where
  "keyNotFound = Wrapf ''failed to delete'' (Wrapf ''delete failed'' ErrKeyNotFound)"

section \<open>Isolation of versions\<close>

type_synonym VersionTracker = "(bytes, version) gomap"

definition NewVersionTracker :: VersionTracker where
  "NewVersionTracker = []"

definition tracker_RecordPut :: "key \<Rightarrow> version \<Rightarrow> VersionTracker \<Rightarrow> VersionTracker" where
  "tracker_RecordPut key version vt = (if gm_get vt key = None then gm_put key version vt else vt)"

definition FirstVersion :: "VersionTracker \<Rightarrow> key \<Rightarrow> version" where
  "FirstVersion vt key = (case gm_get vt key of Some v \<Rightarrow> v | None \<Rightarrow> 0)"

text \<open>What a read may show.\<close>

definition checkVisible :: "VersionTracker \<Rightarrow> version \<Rightarrow> key \<Rightarrow> bytes option \<Rightarrow> unit result" where
  "checkVisible vt version key val =
     (let firstVersion = FirstVersion vt key
      in if firstVersion > 0 then
           (if version < firstVersion \<and> val \<noteq> None then Inl (Errorf ''version isolation violated: key visible before it was added'') else Inr ())
         else if val \<noteq> None then Inl (Errorf ''version isolation violated: key returned value but was never added'')
         else Inr ())"

text \<open>The read of both checks: skipped for versions that do not exist.\<close>

definition getStep :: "(bytes \<Rightarrow> hash) \<Rightarrow> VersionTracker \<Rightarrow> FuzzOperation \<Rightarrow> Tree \<Rightarrow> unit result \<times> Tree" where
  "getStep H vt x t =
     (if fz_Version x > GetLatestVersion t then (Inr (), t)
      else case GetAtVersion H t (fz_Version x) (fz_Key x) of
        (Inl err, t1) \<Rightarrow>
          (if err = Errorf ''version not found'' \<or> err = Errorf ''version not committed'' then Inr () else Inl (wrapE ''get operation failed'' err), t1)
      | (Inr val, t1) \<Rightarrow> (checkVisible vt (fz_Version x) (fz_Key x) val, t1))"

definition deleteStep :: "(bytes \<Rightarrow> hash) \<Rightarrow> int \<Rightarrow> FuzzOperation \<Rightarrow> Tree \<Rightarrow> unit result \<times> Tree" where
  "deleteStep H now x t =
     (case Tree_Delete H now (fz_Key x) t of
        (Inl err, t1) \<Rightarrow> (if err = keyNotFound then Inr () else Inl (wrapE ''delete operation failed'' err), t1)
      | (Inr _, t1) \<Rightarrow> (Inr (), t1))"

fun isolationLoop :: "(bytes \<Rightarrow> hash) \<Rightarrow> timed list \<Rightarrow> VersionTracker \<Rightarrow> Tree \<Rightarrow> unit result \<times> Tree" where
  "isolationLoop H [] vt t = (Inr (), t)"
| "isolationLoop H ((now, x) # xs) vt t =
     (case fz_Type x of
        OpPut \<Rightarrow>
          (case Tree_Put H now (fz_Key x) (fz_Value x) t of
             (Inl err, t1) \<Rightarrow> (Inl (wrapE ''put operation failed'' err), t1)
           | (Inr newVer, t1) \<Rightarrow> isolationLoop H xs (tracker_RecordPut (fz_Key x) newVer vt) t1)
      | OpGet \<Rightarrow> (case getStep H vt x t of (Inl err, t1) \<Rightarrow> (Inl err, t1) | (Inr _, t1) \<Rightarrow> isolationLoop H xs vt t1)
      | OpDelete \<Rightarrow> (case deleteStep H now x t of (Inl err, t1) \<Rightarrow> (Inl err, t1) | (Inr _, t1) \<Rightarrow> isolationLoop H xs vt t1))"

definition CheckVersionIsolation :: "(bytes \<Rightarrow> hash) \<Rightarrow> timed list \<Rightarrow> Tree \<Rightarrow> unit result \<times> Tree" where
  "CheckVersionIsolation H xs t = isolationLoop H xs NewVersionTracker t"

text \<open>The variant with root hashes records them, but compares none of them.\<close>

fun isolationRootsLoop :: "(bytes \<Rightarrow> hash) \<Rightarrow> timed list \<Rightarrow> VersionTracker \<Rightarrow> (version, hash) gomap \<Rightarrow> Tree \<Rightarrow> unit result \<times> Tree" where
  "isolationRootsLoop H [] vt rootHashes t = (Inr (), t)"
| "isolationRootsLoop H ((now, x) # xs) vt rootHashes t =
     (case fz_Type x of
        OpPut \<Rightarrow>
          (case Tree_Put H now (fz_Key x) (fz_Value x) t of
             (Inl err, t1) \<Rightarrow> (Inl (wrapE ''put operation failed'' err), t1)
           | (Inr newVer, t1) \<Rightarrow>
               (case GetRootHash t1 newVer of
                  Inl err \<Rightarrow> (Inl (wrapE ''failed to get root hash'' err), t1)
                | Inr h \<Rightarrow> isolationRootsLoop H xs (tracker_RecordPut (fz_Key x) newVer vt) (gm_put newVer h rootHashes) t1))
      | OpGet \<Rightarrow> (case getStep H vt x t of (Inl err, t1) \<Rightarrow> (Inl err, t1) | (Inr _, t1) \<Rightarrow> isolationRootsLoop H xs vt rootHashes t1)
      | OpDelete \<Rightarrow> (case deleteStep H now x t of (Inl err, t1) \<Rightarrow> (Inl err, t1) | (Inr _, t1) \<Rightarrow> isolationRootsLoop H xs vt rootHashes t1))"

definition CheckVersionIsolationWithRootHashes :: "(bytes \<Rightarrow> hash) \<Rightarrow> timed list \<Rightarrow> Tree \<Rightarrow> unit result \<times> Tree" where
  "CheckVersionIsolationWithRootHashes H xs t =
     (case GetRootHash t (GetLatestVersion t) of
        Inl err \<Rightarrow> (Inl (wrapE ''failed to get initial root hash'' err), t)
      | Inr initialHash \<Rightarrow> isolationRootsLoop H xs NewVersionTracker [(0, initialHash)] t)"

section \<open>Consistency of proofs\<close>

text \<open>A function of a reader that is closed when the function returns.\<close>

definition withReader :: "Tree \<Rightarrow> version \<Rightarrow> (TreeReader \<Rightarrow> 'a result) \<Rightarrow> 'a result \<times> Tree" where
  "withReader t version f =
     (case Tree_Reader t version of
        (Inl err, t1) \<Rightarrow> (Inl (wrapE ''failed to create reader'' err), t1)
      | (Inr reader, t1) \<Rightarrow> (f reader, snd (Reader_Close reader t1)))"

definition theValue :: "Proof \<Rightarrow> bytes" where
  "theValue p = (case pf_Value p of Some v \<Rightarrow> v | None \<Rightarrow> [])"

definition wrongRoot :: "Proof \<Rightarrow> Proof" where
  "wrongRoot p = p\<lparr>pf_RootHash := (pf_RootHash p)[0 := xor (pf_RootHash p ! 0) 0xFF]\<rparr>"

definition verifyProofAtVersion :: "(bytes \<Rightarrow> hash) \<Rightarrow> Tree \<Rightarrow> version \<Rightarrow> key \<Rightarrow> bytes \<Rightarrow> unit result \<times> Tree" where
  "verifyProofAtVersion H t version key expected =
     withReader t version (\<lambda>reader.
       case Generate (asTreeReaderInterface H reader) key of Inl err \<Rightarrow> Inl (wrapE ''failed to generate proof'' err) | Inr p \<Rightarrow>
       case Verify H p of Inl err \<Rightarrow> Inl (wrapE ''proof verification failed'' err) | Inr _ \<Rightarrow>
       if pf_Type p \<noteq> ProofTypeInclusion then Inl (Errorf ''expected inclusion proof'')
       else if theValue p \<noteq> expected then Inl (Errorf ''proof value mismatch'')
       else case Verify H (wrongRoot p) of
              Inr _ \<Rightarrow> Inl (Errorf ''proof should fail with wrong root hash'')
            | Inl err \<Rightarrow> if is_panic err then Inl err else Inr ())"

definition verifyNonExistenceProof :: "(bytes \<Rightarrow> hash) \<Rightarrow> Tree \<Rightarrow> version \<Rightarrow> key \<Rightarrow> unit result \<times> Tree" where
  "verifyNonExistenceProof H t version key =
     withReader t version (\<lambda>reader.
       case Generate (asTreeReaderInterface H reader) key of Inl err \<Rightarrow> Inl (wrapE ''failed to generate non-existence proof'' err) | Inr p \<Rightarrow>
       case Verify H p of Inl err \<Rightarrow> Inl (wrapE ''non-existence proof verification failed'' err) | Inr _ \<Rightarrow>
       if pf_Type p = ProofTypeInclusion then Inl (Errorf ''expected non-existence proof, got inclusion proof'')
       else if pf_Value p \<noteq> None then Inl (Errorf ''non-existence proof should have nil value'')
       else Inr ())"

text \<open>The keys recorded for every version, as hexadecimal strings.\<close>

type_synonym versionKeys = "(version, (string, bytes) gomap) gomap"

definition keysOf :: "versionKeys \<Rightarrow> version \<Rightarrow> (string, bytes) gomap" where
  "keysOf vk v = (case gm_get vk v of Some m \<Rightarrow> m | None \<Rightarrow> [])"

text \<open>
  The proof of an \<open>OpGet\<close> against the record. The reader is closed when the whole check returns, not at the end of the
  step: it is returned.
\<close>

definition checkProof :: "(bytes \<Rightarrow> hash) \<Rightarrow> (string, bytes) gomap \<Rightarrow> key \<Rightarrow> TreeReader \<Rightarrow> unit result" where
  "checkProof H tracked key reader =
     (case Generate (asTreeReaderInterface H reader) key of Inl err \<Rightarrow> Inl (wrapE ''failed to generate proof'' err) | Inr p \<Rightarrow>
      case Verify H p of Inl err \<Rightarrow> Inl (wrapE ''proof verification failed'' err) | Inr _ \<Rightarrow>
      let trackedValue = gm_get tracked (EncodeToString key)
      in if pf_Type p = ProofTypeInclusion then
           (if theValue p \<noteq> (case trackedValue of Some v \<Rightarrow> v | None \<Rightarrow> []) then Inl (Errorf ''proof value mismatch'') else Inr ())
         else if trackedValue \<noteq> None then Inl (Errorf ''got non-existence proof but key should exist'')
         else Inr ())"

definition checkProofGet :: "(bytes \<Rightarrow> hash) \<Rightarrow> versionKeys \<Rightarrow> FuzzOperation \<Rightarrow> Tree \<Rightarrow> unit result \<times> TreeReader list \<times> Tree" where
  "checkProofGet H vk x t =
     (if fz_Version x > GetLatestVersion t then (Inr (), [], t)
      else if fz_Version x = 0 \<and> keysOf vk 0 = [] then (Inr (), [], t)
      else case gm_get vk (fz_Version x) of
        None \<Rightarrow> (Inr (), [], t)
      | Some tracked \<Rightarrow>
          (case Tree_Reader t (fz_Version x) of
             (Inl err, t1) \<Rightarrow>
               (if err \<in> {ErrVersionNotFound, Errorf ''version not found'', Errorf ''version not committed''} then Inr ()
                else Inl (wrapE ''failed to create reader'' err), [], t1)
           | (Inr reader, t1) \<Rightarrow> (checkProof H tracked (fz_Key x) reader, [reader], t1)))"

text \<open>The loop over the operations: the records and the readers that are still open, the last one first.\<close>

fun proofLoop :: "(bytes \<Rightarrow> hash) \<Rightarrow> timed list \<Rightarrow> versionKeys \<Rightarrow> version \<Rightarrow> TreeReader list \<Rightarrow> Tree
    \<Rightarrow> versionKeys result \<times> TreeReader list \<times> Tree" where
  "proofLoop H [] vk current rds t = (Inr vk, rds, t)"
| "proofLoop H ((now, x) # xs) vk current rds t =
     (case fz_Type x of
        OpPut \<Rightarrow>
          (case Tree_Put H now (fz_Key x) (fz_Value x) t of
             (Inl err, t1) \<Rightarrow> (Inl (wrapE ''put operation failed'' err), rds, t1)
           | (Inr newVer, t1) \<Rightarrow>
               let vk1 = gm_put newVer (gm_put (EncodeToString (fz_Key x)) (fz_Value x) (keysOf vk current)) vk
               in case verifyProofAtVersion H t1 newVer (fz_Key x) (fz_Value x) of
                    (Inl err, t2) \<Rightarrow> (Inl (wrapE ''proof verification failed'' err), rds, t2)
                  | (Inr _, t2) \<Rightarrow> proofLoop H xs vk1 newVer rds t2)
      | OpDelete \<Rightarrow>
          (case Tree_Delete H now (fz_Key x) t of
             (Inl err, t1) \<Rightarrow>
               if err = keyNotFound then proofLoop H xs vk current rds t1
               else (Inl (wrapE ''delete operation failed'' err), rds, t1)
           | (Inr newVer, t1) \<Rightarrow>
               let vk1 = gm_put newVer (gm_del (EncodeToString (fz_Key x)) (keysOf vk current)) vk
               in case verifyNonExistenceProof H t1 newVer (fz_Key x) of
                    (Inl err, t2) \<Rightarrow> (Inl (wrapE ''non-existence proof verification failed'' err), rds, t2)
                  | (Inr _, t2) \<Rightarrow> proofLoop H xs vk1 newVer rds t2)
      | OpGet \<Rightarrow>
          (case checkProofGet H vk x t of
             (Inl err, rs, t1) \<Rightarrow> (Inl err, rs @ rds, t1)
           | (Inr _, rs, t1) \<Rightarrow> proofLoop H xs vk current (rs @ rds) t1))"

text \<open>Keys with the same value in adjacent versions; at most five are checked.\<close>

definition maxChecks :: nat where
  "maxChecks = 5"

fun crossKeys :: "(bytes \<Rightarrow> hash) \<Rightarrow> versionKeys \<Rightarrow> version \<Rightarrow> version \<Rightarrow> (string \<times> bytes) list \<Rightarrow> nat \<Rightarrow> Tree \<Rightarrow> nat result \<times> Tree" where
  "crossKeys H vk prev cur [] n t = (Inr n, t)"
| "crossKeys H vk prev cur ((keyStr, prevValue) # es) n t =
     (if n \<ge> maxChecks then (Inr n, t)
      else if gm_get (keysOf vk cur) keyStr \<noteq> Some prevValue then crossKeys H vk prev cur es n t
      else case bindE (DecodeString keyStr) KeyFromBytes of
        Inl _ \<Rightarrow> crossKeys H vk prev cur es n t
      | Inr key \<Rightarrow>
          (case withReader t prev (\<lambda>reader. Generate (asTreeReaderInterface H reader) key) of
             (Inl err, t1) \<Rightarrow> if is_panic err then (Inl err, t1) else crossKeys H vk prev cur es n t1
           | (Inr p1, t1) \<Rightarrow>
               (case withReader t1 cur (\<lambda>reader. Generate (asTreeReaderInterface H reader) key) of
                  (Inl err, t2) \<Rightarrow> if is_panic err then (Inl err, t2) else crossKeys H vk prev cur es n t2
                | (Inr p2, t2) \<Rightarrow>
                    if pf_Type p1 \<noteq> ProofTypeInclusion \<or> pf_Type p2 \<noteq> ProofTypeInclusion
                    then (Inl (Errorf ''proof type changed for unchanged key''), t2)
                    else if theValue p1 \<noteq> theValue p2 then (Inl (Errorf ''proof value changed for unchanged key''), t2)
                    else crossKeys H vk prev cur es (Suc n) t2)))"

fun crossVersions :: "(bytes \<Rightarrow> hash) \<Rightarrow> versionKeys \<Rightarrow> version list \<Rightarrow> nat \<Rightarrow> Tree \<Rightarrow> unit result \<times> Tree" where
  "crossVersions H vk (prev # cur # vs) n t =
     (if n < maxChecks then
        (case crossKeys H vk prev cur (keysOf vk prev) n t of
           (Inl err, t1) \<Rightarrow> (Inl err, t1)
         | (Inr n1, t1) \<Rightarrow> crossVersions H vk (cur # vs) n1 t1)
      else (Inr (), t))"
| "crossVersions H vk _ n t = (Inr (), t)"

definition checkCrossVersionConsistency :: "(bytes \<Rightarrow> hash) \<Rightarrow> versionKeys \<Rightarrow> Tree \<Rightarrow> unit result \<times> Tree" where
  "checkCrossVersionConsistency H vk t =
     (let vs = map fst (filter (\<lambda>(v, m). v > 0 \<and> m \<noteq> []) vk)
      in if length vs < 2 then (Inr (), t)
         else crossVersions H vk (exchangeSort id (length vs - 1) vs) 0 t)"

definition CheckProofConsistency :: "(bytes \<Rightarrow> hash) \<Rightarrow> timed list \<Rightarrow> Tree \<Rightarrow> unit result \<times> Tree" where
  "CheckProofConsistency H xs t =
     (let (r, rds, t1) = proofLoop H xs [(0, [])] 0 [] t;
          (r2, t2) = (case r of Inl err \<Rightarrow> (Inl err, t1) | Inr vk \<Rightarrow> checkCrossVersionConsistency H vk t1)
      in (r2, foldl (\<lambda>t rd. snd (Reader_Close rd t)) t2 rds))"

section \<open>Valid sequences\<close>

definition fuzzStep :: "FuzzOperation \<Rightarrow> spec \<Rightarrow> spec" where
  "fuzzStep x sp =
     (case fz_Type x of
        OpPut \<Rightarrow> snd (spec_Put (fz_Key x) (fz_Value x) sp)
      | OpGet \<Rightarrow> sp
      | OpDelete \<Rightarrow> snd (spec_Delete (fz_Key x) sp))"

fun fuzzSpec :: "timed list \<Rightarrow> spec \<Rightarrow> spec" where
  "fuzzSpec [] sp = sp"
| "fuzzSpec ((now, x) # xs) sp = fuzzSpec xs (fuzzStep x sp)"

text \<open>
  Keys are not zero, values are neither empty nor too long, as the generator makes them; versions do not run out, and a
  deleted key has no neighbour that shares its first 63 nibbles.
\<close>

definition fuzzValid :: "FuzzOperation \<Rightarrow> spec \<Rightarrow> bool" where
  "fuzzValid x sp \<longleftrightarrow> wf_key (fz_Key x) \<and> fz_Key x \<noteq> emptyKey
     \<and> (case fz_Type x of
          OpPut \<Rightarrow> fz_Value x \<noteq> [] \<and> length (fz_Value x) \<le> MaxValueSize \<and> sp_latest sp \<noteq> MaxVersion
        | OpGet \<Rightarrow> True
        | OpDelete \<Rightarrow> sp_latest sp \<noteq> MaxVersion \<and> twinless (the (sp_committed sp (sp_current sp))) (fz_Key x))"

fun fuzz_ok :: "timed list \<Rightarrow> spec \<Rightarrow> bool" where
  "fuzz_ok [] sp = True"
| "fuzz_ok ((now, x) # xs) sp = (fuzzValid x sp \<and> fuzz_ok xs (fuzzStep x sp))"

lemma hist_mono_fuzz: "set (sp_hist sp) \<subseteq> set (sp_hist (fuzzSpec xs sp))"
proof (induction xs sp rule: fuzzSpec.induct)
  case (2 now x xs sp)
  have "set (sp_hist sp) \<subseteq> set (sp_hist (fuzzStep x sp))"
    using hist_mono_Put hist_mono_Delete by (cases "fz_Type x") (auto simp: fuzzStep_def)
  with 2 show ?case by auto
qed simp

lemma current_map: "tree_rel H sp t \<Longrightarrow> \<exists>m. sp_committed sp (sp_current sp) = Some m"
  using tree_relD(7) [of H sp t] by (simp add: versions_rel_def)

text \<open>What a valid operation does to the specification and to the tree.\<close>

lemma put_step:
  assumes rel: "tree_rel H sp t" and H: "\<And>x. wf_hash (H x)" and x: "fuzzValid x sp" "fz_Type x = OpPut"
    and ok: "hash_ok H (sp_hist (fuzzStep x sp))" and m: "sp_committed sp (sp_current sp) = Some m"
  shows "\<exists>t1. Tree_Put H now (fz_Key x) (fz_Value x) t = (Inr (sp_latest sp + 1), t1) \<and> tree_rel H (fuzzStep x sp) t1"
    and "sp_committed (fuzzStep x sp) = (sp_committed sp)(sp_latest sp + 1 \<mapsto> m(fz_Key x \<mapsto> fz_Value x))"
    and "sp_current (fuzzStep x sp) = sp_latest sp + 1" and "sp_latest (fuzzStep x sp) = sp_latest sp + 1"
proof -
  have sp: "spec_Put (fz_Key x) (fz_Value x) sp = (Inr (sp_latest sp + 1), fuzzStep x sp)"
    using x m by (auto simp: spec_Put_def fuzzValid_def fuzzStep_def Let_def)
  show "\<exists>t1. Tree_Put H now (fz_Key x) (fz_Value x) t = (Inr (sp_latest sp + 1), t1) \<and> tree_rel H (fuzzStep x sp) t1"
    using Put_refines [OF rel H, of "fz_Key x" "fz_Value x" now] ok x(1) unfolding sp
    by (cases "Tree_Put H now (fz_Key x) (fz_Value x) t") (simp add: fuzzValid_def)
  show "sp_committed (fuzzStep x sp) = (sp_committed sp)(sp_latest sp + 1 \<mapsto> m(fz_Key x \<mapsto> fz_Value x))"
    "sp_current (fuzzStep x sp) = sp_latest sp + 1" "sp_latest (fuzzStep x sp) = sp_latest sp + 1"
    using x m by (auto simp: spec_Put_def fuzzValid_def fuzzStep_def Let_def)
qed

lemma delete_step:
  assumes rel: "tree_rel H sp t" and H: "\<And>x. wf_hash (H x)" and x: "fuzzValid x sp" "fz_Type x = OpDelete"
    and ok: "hash_ok H (sp_hist (fuzzStep x sp))" and m: "sp_committed sp (sp_current sp) = Some m"
  shows "\<exists>t1. Tree_Delete H now (fz_Key x) t = (if m (fz_Key x) = None then Inl keyNotFound else Inr (sp_latest sp + 1), t1)
      \<and> tree_rel H (fuzzStep x sp) t1"
    and "sp_committed (fuzzStep x sp) = (if m (fz_Key x) = None then sp_committed sp else (sp_committed sp)(sp_latest sp + 1 \<mapsto> m(fz_Key x := None)))"
    and "sp_current (fuzzStep x sp) = (if m (fz_Key x) = None then sp_current sp else sp_latest sp + 1)"
    and "sp_latest (fuzzStep x sp) = sp_latest sp + 1"
proof -
  have sp: "spec_Delete (fz_Key x) sp = (if m (fz_Key x) = None then Inl keyNotFound else Inr (sp_latest sp + 1), fuzzStep x sp)"
    using x m by (auto simp: spec_Delete_def fuzzValid_def fuzzStep_def Let_def keyNotFound_def)
  have "no_twin (hashed H m') (fz_Key x)" if "sp_committed sp (sp_current sp) = Some m'" for m'
    using x that by (simp add: fuzzValid_def)
  then show "\<exists>t1. Tree_Delete H now (fz_Key x) t = (if m (fz_Key x) = None then Inl keyNotFound else Inr (sp_latest sp + 1), t1)
      \<and> tree_rel H (fuzzStep x sp) t1"
    using Delete_refines [OF rel H, of "fz_Key x" now] ok x(1) unfolding sp
    by (cases "Tree_Delete H now (fz_Key x) t") (simp add: fuzzValid_def)
  show "sp_committed (fuzzStep x sp) = (if m (fz_Key x) = None then sp_committed sp else (sp_committed sp)(sp_latest sp + 1 \<mapsto> m(fz_Key x := None)))"
    "sp_current (fuzzStep x sp) = (if m (fz_Key x) = None then sp_current sp else sp_latest sp + 1)"
    "sp_latest (fuzzStep x sp) = sp_latest sp + 1"
    using x m by (auto simp: spec_Delete_def fuzzValid_def fuzzStep_def Let_def)
qed

section \<open>Versions that the version manager calls committed\<close>

definition known :: "Tree \<Rightarrow> bool" where
  "known t \<longleftrightarrow> (\<forall>v i. gm_get (versions (t_versionManager t)) v = Some i \<longrightarrow> vi_Status i = VersionStatusCommitted
     \<longrightarrow> gm_get (t_rootHashes t) v \<noteq> None)"

lemma known_same: "known t \<Longrightarrow> versions (t_versionManager t') = versions (t_versionManager t) \<Longrightarrow> t_rootHashes t' = t_rootHashes t \<Longrightarrow> known t'"
  by (simp add: known_def)

lemma known_begin: "known t \<Longrightarrow> known (snd (BeginVersion now t))"
  by (erule known_same) (auto simp: BeginVersion_def withVM_def Begin_def Let_def split: option.split)

lemma known_update: "known t \<Longrightarrow> known (snd (updateVersioned msg v f t))"
  by (erule known_same)
    (auto simp: updateVersioned_def Let_def SetPendingUpdater_def IncrementOperations_def case_prod_unfold split: option.split sum.split)

lemma known_put: "known t \<Longrightarrow> known (snd (PutVersioned H v k val t))"
  by (auto simp: PutVersioned_def known_update split: sum.split)

lemma known_delete: "known t \<Longrightarrow> known (snd (DeleteVersioned H v k t))"
  by (auto simp: DeleteVersioned_def known_update split: sum.split)

lemma known_abort: "known t \<Longrightarrow> known (snd (abortWith msg v e t))"
  by (auto simp: known_def abortWith_def AbortVersion_def withVM_def Abort_def split: option.split)

lemma known_new:
  assumes "known t" and "VersionManager_Commit now v h n (t_versionManager t) = (r, vm)"
    and "t_versionManager t' = vm" and "t_rootHashes t' = gm_put v h' (t_rootHashes t)"
  shows "known t'"
proof -
  have "gm_get (versions vm) w = Some i \<Longrightarrow> w = v \<or> gm_get (versions (t_versionManager t)) w = Some i" for w i
    using assms(2) by (auto simp: VersionManager_Commit_def Let_def split: option.splits if_splits)
  then show ?thesis using assms(1,3,4) unfolding known_def by (metis gm_get_put option.distinct(1))
qed

lemma known_commitBatch:
  assumes "known t"
  shows "known (snd (commitBatch now v batch t))"
proof -
  obtain wb db1 where nb: "NewBatch (t_db t) = (wb, db1)" by fastforce
  obtain r1 b1 where w: "writeNodes (NewNodes batch) wb = (r1, b1)" by fastforce
  obtain r2 b2 where p: "Batch_Put b1 (DefaultKeyEncoder_RootKey v) (NewRootHash batch) = (r2, b2)" by fastforce
  obtain r3 b3 db2 where c: "Batch_Commit b2 db1 = (r3, b3, db2)" by (metis prod_cases3)
  obtain r4 vm where k: "VersionManager_Commit now v (NewRootHash batch) (int (length (NewNodes batch))) (t_versionManager t) = (r4, vm)" by fastforce
  show ?thesis
  proof (cases "is_ok r1 \<and> is_ok r2 \<and> is_ok r3")
    case True
    then show ?thesis using known_new [OF assms k] nb w p c k
      by (auto simp: commitBatch_def is_ok_def Let_def split: sum.splits)
  next
    case False
    then show ?thesis using known_same [OF assms] nb w p c by (auto simp: commitBatch_def is_ok_def split: sum.splits)
  qed
qed

lemma known_commit:
  assumes "known t"
  shows "known (snd (CommitVersion H now v t))"
proof (cases "GetPending v (t_versionManager t)")
  case (Some pv)
  show ?thesis
  proof (cases "pv_updater pv")
    case None
    obtain h where h: "CommitVersion H now v t = withVM (VersionManager_Commit now v h 0 (t_versionManager t))
        (t\<lparr>t_rootHashes := gm_put v h (t_rootHashes t), t_latestVer := (if v > t_latestVer t then v else t_latestVer t)\<rparr>)"
      using Some None by (simp add: CommitVersion_def Let_def)
    obtain r vm where "VersionManager_Commit now v h 0 (t_versionManager t) = (r, vm)" by fastforce
    then show ?thesis using known_new [OF assms] by (simp add: h withVM_def)
  qed (use Some assms known_commitBatch in \<open>auto simp: CommitVersion_def Let_def split: sum.split\<close>)
qed (use assms in \<open>simp add: CommitVersion_def\<close>)

lemma known_Put:
  assumes "known t"
  shows "known (snd (Tree_Put H now k val t))"
proof -
  obtain r1 t1 where b: "BeginVersion now t = (r1, t1)" by fastforce
  obtain r2 t2 where p: "PutVersioned H (projr r1) k val t1 = (r2, t2)" by fastforce
  obtain r3 t3 where c: "CommitVersion H now (projr r1) t2 = (r3, t3)" by fastforce
  have k1: "known t1" using known_begin [OF assms, of now] b by simp
  have k2: "known t2" using known_put [OF k1, of H "projr r1" k val] p by simp
  have k3: "known t3" using known_commit [OF k2, of H now "projr r1"] c by simp
  show ?thesis using assms b p c k1 k2 k3 by (auto simp: Tree_Put_def known_abort split: sum.split)
qed

lemma known_Delete:
  assumes "known t"
  shows "known (snd (Tree_Delete H now k t))"
proof -
  obtain r1 t1 where b: "BeginVersion now t = (r1, t1)" by fastforce
  obtain r2 t2 where p: "DeleteVersioned H (projr r1) k t1 = (r2, t2)" by fastforce
  obtain r3 t3 where c: "CommitVersion H now (projr r1) t2 = (r3, t3)" by fastforce
  have k1: "known t1" using known_begin [OF assms, of now] b by simp
  have k2: "known t2" using known_delete [OF k1, of H "projr r1" k] p by simp
  have k3: "known t3" using known_commit [OF k2, of H now "projr r1"] c by simp
  show ?thesis using assms b p c k1 k2 k3 by (auto simp: Tree_Delete_def known_abort split: sum.split)
qed

section \<open>Isolation holds\<close>

text \<open>The record of first versions covers every key at every committed version.\<close>

definition tracked :: "VersionTracker \<Rightarrow> spec \<Rightarrow> bool" where
  "tracked vt sp \<longleftrightarrow> (\<forall>v m k. sp_committed sp v = Some m \<longrightarrow> m k \<noteq> None \<longrightarrow> (\<exists>f. gm_get vt k = Some f \<and> f \<le> v))
     \<and> (\<forall>k f. gm_get vt k = Some f \<longrightarrow> 0 < f \<and> f \<le> sp_latest sp)"

lemma getStep_ok:
  assumes rel: "tree_rel H sp t" and H: "\<And>x. wf_hash (H x)" and ok: "hash_ok H (sp_hist sp)" and kn: "known t" and tr: "tracked vt sp"
    and x: "fuzzValid x sp"
  shows "getStep H vt x t = (Inr (), t)"
proof -
  let ?v = "fz_Version x" and ?k = "fz_Key x"
  have k: "wf_key ?k" "?k \<noteq> emptyKey" using x by (simp_all add: fuzzValid_def)
  have "checkVisible vt ?v ?k r = Inr ()" if r: "Tree_Get H t ?v ?k = (Inr r, t1)" for r t1
  proof -
    have "spec_get ?v ?k sp = Inr r" using get_refines [OF rel H ok k(1)] r by simp
    then obtain m where m: "sp_committed sp ?v = Some m" "r = m ?k" by (auto simp: spec_get_def split: if_splits option.splits)
    show ?thesis
    proof (cases "m ?k")
      case (Some b)
      then obtain f where "gm_get vt ?k = Some f" "f \<le> ?v" "0 < f" using tr m(1) unfolding tracked_def by blast
      then show ?thesis by (simp add: checkVisible_def FirstVersion_def Let_def leD)
    qed (simp add: checkVisible_def m(2) Let_def)
  qed
  moreover have "\<exists>r. Tree_Get H t ?v ?k = (Inr r, t)"
    if i: "gm_get (versions (t_versionManager t)) ?v = Some i" "vi_Status i = VersionStatusCommitted" for i
  proof -
    have "gm_get (t_rootHashes t) ?v \<noteq> None" using kn i unfolding known_def by blast
    then obtain m where m: "sp_committed sp ?v = Some m" using tree_relD(7) [OF rel] by (auto simp: versions_rel_def)
    have "?v \<le> MaxVersion" using committedD(2) [OF rel m] vm_invD(3) [OF tree_relD(1) [OF rel]] tree_relD(2) [OF rel] by (metis order_trans)
    then show ?thesis using get_refines [OF rel H ok k(1), of ?v] k(2) m by (simp add: spec_get_def leD)
  qed
  ultimately have "vi_Status i = VersionStatusCommitted \<Longrightarrow> \<exists>r. Tree_Get H t ?v ?k = (Inr r, t) \<and> checkVisible vt ?v ?k r = Inr ()"
    if "gm_get (versions (t_versionManager t)) ?v = Some i" for i using that by blast
  then show ?thesis by (cases "gm_get (versions (t_versionManager t)) ?v") (auto simp: getStep_def GetAtVersion_def GetVersion_def)
qed

lemma tracked_put:
  assumes rel: "tree_rel H sp t" and tr: "tracked vt sp" and lt: "sp_latest sp \<noteq> MaxVersion" and m: "sp_committed sp (sp_current sp) = Some m"
    and sp': "sp_committed sp' = (sp_committed sp)(sp_latest sp + 1 \<mapsto> m(k \<mapsto> val))" "sp_latest sp' = sp_latest sp + 1"
  shows "tracked (tracker_RecordPut k (sp_latest sp + 1) vt) sp'"
proof -
  let ?v = "sp_latest sp + 1" and ?vt = "tracker_RecordPut k (sp_latest sp + 1) vt"
  have nx: "sp_latest sp < ?v" using next_free(1) [OF rel lt] .
  have pos: "0 < ?v" using nx by (metis word_coorder.not_eq_extremum word_not_simps(1))
  have old: "gm_get ?vt k' = Some f" if "gm_get vt k' = Some f" for k' f using that by (auto simp: tracker_RecordPut_def)
  have bnd: "0 < f \<and> f \<le> ?v" if "gm_get ?vt k' = Some f" for k' f
    using that tr nx pos unfolding tracked_def by (fastforce simp: tracker_RecordPut_def split: if_splits)
  have "\<exists>f. gm_get ?vt k' = Some f \<and> f \<le> v" if v: "sp_committed sp' v = Some m'" "m' k' \<noteq> None" for v m' k'
  proof (cases "v = ?v")
    case True
    have "\<exists>f. gm_get ?vt k' = Some f"
    proof (cases "k' = k")
      case True
      then show ?thesis by (auto simp: tracker_RecordPut_def)
    next
      case False
      then have "m k' \<noteq> None" using v True sp'(1) by auto
      then show ?thesis using tr m old unfolding tracked_def by blast
    qed
    then show ?thesis using bnd True by blast
  next
    case False
    then have "sp_committed sp v = Some m'" using v(1) sp'(1) by simp
    then show ?thesis using tr v(2) old unfolding tracked_def by blast
  qed
  then show ?thesis using bnd sp'(2) unfolding tracked_def by simp
qed

lemma tracked_delete:
  assumes rel: "tree_rel H sp t" and tr: "tracked vt sp" and lt: "sp_latest sp \<noteq> MaxVersion" and m: "sp_committed sp (sp_current sp) = Some m"
    and sp': "sp_committed sp' = (if m k = None then sp_committed sp else (sp_committed sp)(sp_latest sp + 1 \<mapsto> m(k := None)))" "sp_latest sp' = sp_latest sp + 1"
  shows "tracked vt sp'"
proof -
  have nx: "sp_latest sp < sp_latest sp + 1" using next_free(1) [OF rel lt] .
  have "\<exists>f. gm_get vt k' = Some f \<and> f \<le> v" if v: "sp_committed sp' v = Some m'" "m' k' \<noteq> None" for v m' k'
  proof (cases "sp_committed sp v = Some m'")
    case True
    then show ?thesis using tr v(2) unfolding tracked_def by blast
  next
    case False
    then have "v = sp_latest sp + 1" "m k' \<noteq> None" using v sp'(1) by (auto split: if_splits)
    then obtain f where "gm_get vt k' = Some f" "f \<le> sp_latest sp" using tr m unfolding tracked_def by blast
    then show ?thesis using \<open>v = sp_latest sp + 1\<close> nx by force
  qed
  moreover have "0 < f \<and> f \<le> sp_latest sp'" if "gm_get vt k' = Some f" for k' f
    using tr that nx sp'(2) unfolding tracked_def by force
  ultimately show ?thesis unfolding tracked_def by blast
qed

lemma isolation_ok:
  assumes H: "\<And>x. wf_hash (H x)" and "tree_rel H sp t" and "known t" and "tracked vt sp" and "fuzz_ok xs sp"
    and "hash_ok H (sp_hist (fuzzSpec xs sp))"
  shows "fst (isolationLoop H xs vt t) = Inr () \<and> fst (isolationRootsLoop H xs vt rh t) = Inr ()"
  using assms(2-)
proof (induction xs arbitrary: sp t vt rh)
  case (Cons y xs)
  obtain now x where y: "y = (now, x)" by fastforce
  note rel = Cons.prems(1)
  have x: "fuzzValid x sp" "fuzz_ok xs (fuzzStep x sp)" using Cons.prems(4) by (simp_all add: y)
  have hok: "hash_ok H (sp_hist (fuzzSpec xs (fuzzStep x sp)))" using Cons.prems(5) by (simp add: y)
  have ok1: "hash_ok H (sp_hist (fuzzStep x sp))" using hash_ok_mono [OF hok hist_mono_fuzz] .
  obtain m where m: "sp_committed sp (sp_current sp) = Some m" using current_map [OF rel] by blast
  show ?case
  proof (cases "fz_Type x")
    case OpPut
    note p = put_step [OF rel H x(1) OpPut ok1 m]
    obtain t1 where t1: "Tree_Put H now (fz_Key x) (fz_Value x) t = (Inr (sp_latest sp + 1), t1)" "tree_rel H (fuzzStep x sp) t1" using p(1) by blast
    have kn: "known t1" using known_Put [OF Cons.prems(2), of H now "fz_Key x" "fz_Value x"] t1(1) by simp
    have lt: "sp_latest sp \<noteq> MaxVersion" using x(1) OpPut by (simp add: fuzzValid_def)
    note IH = Cons.IH [OF t1(2) kn tracked_put [OF rel Cons.prems(3) lt m p(2,4)] x(2) hok]
    obtain h where "GetRootHash t1 (sp_latest sp + 1) = Inr h"
      using GetRootHash_rootAt [OF t1(2)] p(2) by (simp add: rootAt_def)
    then show ?thesis using OpPut t1(1) IH by (simp add: y)
  next
    case OpGet
    have st: "fuzzStep x sp = sp" using OpGet by (simp add: fuzzStep_def)
    from getStep_ok [OF rel H _ Cons.prems(2,3) x(1)] ok1 Cons.IH [OF rel Cons.prems(2,3)] x(2) hok OpGet
    show ?thesis by (simp add: y st)
  next
    case OpDelete
    note p = delete_step [OF rel H x(1) OpDelete ok1 m]
    obtain t1 where t1: "Tree_Delete H now (fz_Key x) t = (if m (fz_Key x) = None then Inl keyNotFound else Inr (sp_latest sp + 1), t1)"
      "tree_rel H (fuzzStep x sp) t1" using p(1) by blast
    have kn: "known t1" using known_Delete [OF Cons.prems(2), of H now "fz_Key x"] t1(1) by simp
    have lt: "sp_latest sp \<noteq> MaxVersion" using x(1) OpDelete by (simp add: fuzzValid_def)
    note IH = Cons.IH [OF t1(2) kn tracked_delete [OF rel Cons.prems(3) lt m p(2,4)] x(2) hok]
    have "deleteStep H now x t = (Inr (), t1)" using t1(1) by (simp add: deleteStep_def)
    then show ?thesis using OpDelete IH by (simp add: y)
  qed
qed simp

section \<open>Readers and snapshots\<close>

text \<open>A tree keeps its meaning while snapshots are opened and closed, as long as one more may be opened.\<close>

lemma tree_rel_store:
  assumes rel: "tree_rel H sp t" and db: "ms_data db = ms_data (t_db t)" "\<not> ms_closing db" "snapshots_free db"
  shows "tree_rel H sp (t\<lparr>t_db := db\<rparr>)"
proof -
  have "\<not> ms_closing (t_db t)" using tree_relD(5) [OF rel] by (simp add: store_ok_def)
  then have load: "loadNodeFromStorage db = loadNodeFromStorage (t_db t)" using db by (intro loadNode_data)
  show ?thesis
    using rel db load by (simp add: tree_rel_def store_ok_def values_ok_def unwritten_def versions_rel_def pending_rel_def)
qed

text \<open>Updates leave the number of open snapshots alone.\<close>

lemma counts_commit:
  assumes "\<And>x. wf_hash (H x)" and rel: "tree_rel H sp t" and "hash_ok H (sp_hist sp)" and "\<And>m b. sp_pending sp v = Some (m, b) \<Longrightarrow> b"
  shows "(ms_openSnapshots (t_db (snd (CommitVersion H now v t))), ms_maxSnapshots (t_db (snd (CommitVersion H now v t))))
    = (ms_openSnapshots (t_db t), ms_maxSnapshots (t_db t))"
proof (cases "gm_get (pendingWrites (t_versionManager t)) v")
  case None
  then show ?thesis by (simp add: CommitVersion_def GetPending_def)
next
  case (Some pv)
  obtain m where m: "sp_pending sp v = Some (m, True)" using pending_iff [OF rel, of v] Some assms(4) by fastforce
  obtain batch t' where "CommitVersion H now v t = (Inr (), t')" "t_db t' = commit_db v batch (t_db t)"
    using commit_run [OF rel assms(1,3) Some m, of now] by blast
  then show ?thesis by (simp add: commit_db_def)
qed

interpretation counts: commit_invariant "\<lambda>t. (ms_openSnapshots (t_db t), ms_maxSnapshots (t_db t)) = c" for c
proof unfold_locales
  fix H sp t v now
  assume a: "\<And>x. wf_hash (H x)" "tree_rel H sp t" "hash_ok H (sp_hist sp)" "\<And>m b. sp_pending sp v = Some (m, b) \<Longrightarrow> b"
    "(ms_openSnapshots (t_db t), ms_maxSnapshots (t_db t)) = c"
  show "(ms_openSnapshots (t_db (snd (CommitVersion H now v t))), ms_maxSnapshots (t_db (snd (CommitVersion H now v t)))) = c"
    using counts_commit [OF a(1-4)] a(5) by simp
qed simp

definition room :: "nat \<Rightarrow> Tree \<Rightarrow> bool" where
  "room n t \<longleftrightarrow> ms_maxSnapshots (t_db t) \<le> 0 \<or> ms_openSnapshots (t_db t) + int n < ms_maxSnapshots (t_db t)"

lemma room_same: "room n t \<Longrightarrow> (ms_openSnapshots (t_db t'), ms_maxSnapshots (t_db t')) = (ms_openSnapshots (t_db t), ms_maxSnapshots (t_db t)) \<Longrightarrow> room n t'"
  by (simp add: room_def)

text \<open>What the checks see of a proof at a committed version.\<close>

definition sees :: "(bytes \<Rightarrow> hash) \<Rightarrow> vmap \<Rightarrow> key \<Rightarrow> TreeReader \<Rightarrow> bool" where
  "sees H m k rd \<longleftrightarrow> (\<exists>p. Generate (asTreeReaderInterface H rd) k = Inr p \<and> Verify H p = Inr ()
     \<and> pf_Type p = (if m k = None then ProofTypeExclusionEmpty else ProofTypeInclusion) \<and> pf_Value p = m k \<and> wf_hash (pf_RootHash p))"

lemma reader_sees:
  assumes rel: "tree_rel H sp t" and H: "\<And>x. wf_hash (H x)" and ok: "hash_ok H (sp_hist sp)" and m: "sp_committed sp v = Some m"
    and k: "wf_key k" "k \<noteq> emptyKey"
  shows "\<exists>rd t1. Tree_Reader t v = (Inr rd, t1) \<and> sees H m k rd \<and> snd (Reader_Close rd t1) = t
    \<and> (room (Suc n) t \<longrightarrow> tree_rel H sp t1 \<and> room n t1) \<and> t_rootHashes t1 = t_rootHashes t \<and> t_versionManager t1 = t_versionManager t"
proof -
  obtain rd t1 p where rd: "Tree_Reader t v = (Inr rd, t1)" and p: "Generate (asTreeReaderInterface H rd) k = Inr p" "Verify H p = Inr ()"
    "GetRootHash t v = Inr (pf_RootHash p)" "pf_Type p = (if m k = None then ProofTypeExclusionEmpty else ProofTypeInclusion)" "pf_Value p = m k"
    using generated_proof [OF rel H ok m k] by blast
  have "pf_RootHash p = merkle_root H (hashed H m)" using p(3) GetRootHash_rootAt [OF rel, of v] m by (simp add: rootAt_def)
  then have "wf_hash (pf_RootHash p)" using wf_merkle_root [of H, OF H] by simp
  then have "sees H m k rd" using p unfolding sees_def by blast
  moreover have st: "\<not> ms_closing (t_db t)" "snapshots_free (t_db t)" using tree_relD(5) [OF rel] by (simp_all add: store_ok_def)
  then obtain sn db1 where sn: "NewSnapshot (t_db t) = (MemSnapshot sn, db1)" "snd (Snapshot_Close (MemSnapshot sn) db1) = t_db t"
    using snapshot_roundtrip by blast
  have rd': "rd_snapshot rd = MemSnapshot sn" "t1 = t\<lparr>t_db := db1\<rparr>"
    using rd sn(1) by (auto simp: Tree_Reader_def split: option.splits)
  have db1: "ms_data db1 = ms_data (t_db t)" "\<not> ms_closing db1" "ms_openSnapshots db1 = ms_openSnapshots (t_db t) + 1"
    "ms_maxSnapshots db1 = ms_maxSnapshots (t_db t)"
    using sn(1) st by (auto simp: NewSnapshot_def addRef_def snapshots_free_def split: if_splits)
  have "tree_rel H sp t1 \<and> room n t1" if "room (Suc n) t"
    using that tree_rel_store [OF rel db1(1,2)] db1 by (simp add: rd'(2) room_def snapshots_free_def) linarith
  ultimately show ?thesis
    using rd sn(2) by (auto simp: rd' Reader_Close_def case_prod_unfold)
qed

lemma withReader_sees:
  assumes rel: "tree_rel H sp t" and H: "\<And>x. wf_hash (H x)" and ok: "hash_ok H (sp_hist sp)" and m: "sp_committed sp v = Some m"
    and k: "wf_key k" "k \<noteq> emptyKey"
  obtains rd where "\<And>f. withReader t v f = (f rd, t)" and "sees H m k rd"
  using reader_sees [OF assms, of 0] that by (force simp: withReader_def)

text \<open>A proof is not accepted with another root hash.\<close>

lemma xor_FF: "xor b 0xFF \<noteq> (b :: byte)"
proof
  assume "xor b 0xFF = b"
  then have "xor (xor b 0xFF) b = 0" by simp
  then show False by (simp add: xor.commute xor.left_commute)
qed

lemma wrongRoot_rejected:
  assumes "Verify H p = Inr ()" and "wf_hash (pf_RootHash p)" and "pf_Type p = ProofTypeInclusion"
  shows "Verify H (wrongRoot p) = Inl ErrHashMismatch"
proof -
  have "length (pf_RootHash p) > 0" using assms(2) by (simp add: wf_hash_def HashSize_def)
  then have "pf_RootHash (wrongRoot p) ! 0 \<noteq> pf_RootHash p ! 0" using xor_FF by (simp add: wrongRoot_def)
  then have ne: "pf_RootHash (wrongRoot p) \<noteq> pf_RootHash p" by auto
  obtain k ty val nb ss r v where p: "p = \<lparr>pf_Type = ty, pf_Key = k, pf_Value = val, pf_NeighborLeaf = nb, pf_Siblings = ss, pf_RootHash = r, pf_Version = v\<rparr>"
    by (cases p) blast
  have valid: "Proof_IsValid p = Inr ()" and inc: "verifyInclusion H p = Inr (pf_RootHash p)"
    using assms(1,3) by (auto simp: Verify_def bindE_eq_Inr split: if_splits)
  have "Proof_IsValid (wrongRoot p) = Proof_IsValid p" unfolding p wrongRoot_def Proof_IsValid_def by (simp only: Proof.simps)
  moreover have "verifyInclusion H (wrongRoot p) = verifyInclusion H p" unfolding p wrongRoot_def verifyInclusion_def by (simp only: Proof.simps)
  moreover have "pf_Type (wrongRoot p) = pf_Type p" by (simp add: wrongRoot_def)
  ultimately show ?thesis using ne assms(3) unfolding Verify_def by (simp add: valid inc)
qed

lemma verifyProof_ok:
  assumes "tree_rel H sp t" and "\<And>x. wf_hash (H x)" and "hash_ok H (sp_hist sp)" and "sp_committed sp v = Some m"
    and "wf_key k" and "k \<noteq> emptyKey" and "m k = Some val"
  shows "verifyProofAtVersion H t v k val = (Inr (), t)"
proof -
  obtain rd where rd: "\<And>f :: TreeReader \<Rightarrow> unit result. withReader t v f = (f rd, t)" "sees H m k rd"
    using withReader_sees [OF assms(1-6)] by blast
  obtain p where p: "Generate (asTreeReaderInterface H rd) k = Inr p" "Verify H p = Inr ()" "pf_Type p = ProofTypeInclusion"
    "pf_Value p = Some val" "wf_hash (pf_RootHash p)" using rd(2) assms(7) by (auto simp: sees_def)
  then show ?thesis using wrongRoot_rejected [OF p(2,5,3)] by (simp add: verifyProofAtVersion_def rd(1) theValue_def)
qed

lemma verifyNonExistence_ok:
  assumes "tree_rel H sp t" and "\<And>x. wf_hash (H x)" and "hash_ok H (sp_hist sp)" and "sp_committed sp v = Some m"
    and "wf_key k" and "k \<noteq> emptyKey" and "m k = None"
  shows "verifyNonExistenceProof H t v k = (Inr (), t)"
proof -
  obtain rd where rd: "\<And>f :: TreeReader \<Rightarrow> unit result. withReader t v f = (f rd, t)" "sees H m k rd"
    using withReader_sees [OF assms(1-6)] by blast
  obtain p where p: "Generate (asTreeReaderInterface H rd) k = Inr p" "Verify H p = Inr ()" "pf_Type p = ProofTypeExclusionEmpty"
    "pf_Value p = None" using rd(2) assms(7) by (auto simp: sees_def)
  then show ?thesis by (simp add: verifyNonExistenceProof_def rd(1) proofType_defs)
qed

section \<open>The recorded keys\<close>

definition recorded :: "(string, bytes) gomap \<Rightarrow> vmap \<Rightarrow> bool" where
  "recorded ms m \<longleftrightarrow> gm_wf ms \<and> (\<forall>k. wf_key k \<longrightarrow> gm_get ms (EncodeToString k) = m k)
     \<and> (\<forall>s \<in> fst ` set ms. \<exists>k. wf_key k \<and> k \<noteq> emptyKey \<and> s = EncodeToString k)"

definition vk_ok :: "versionKeys \<Rightarrow> version \<Rightarrow> spec \<Rightarrow> bool" where
  "vk_ok vk current sp \<longleftrightarrow> current = sp_current sp \<and> gm_get vk current \<noteq> None
     \<and> (\<forall>v ms. gm_get vk v = Some ms \<longrightarrow> (\<exists>m. sp_committed sp v = Some m \<and> recorded ms m))"

lemma Encode_inject: "EncodeToString a = EncodeToString b \<longleftrightarrow> a = b"
  by (metis DecodeString_EncodeToString sum.inject(2))

lemma recorded_put: "recorded ms m \<Longrightarrow> wf_key k \<Longrightarrow> k \<noteq> emptyKey \<Longrightarrow> recorded (gm_put (EncodeToString k) val ms) (m(k \<mapsto> val))"
  by (auto simp: recorded_def Encode_inject AList.dom_update)

lemma recorded_del:
  assumes "recorded ms m"
  shows "recorded (gm_del (EncodeToString k) ms) (m(k := None))"
proof -
  have "\<forall>s \<in> fst ` set (gm_del (EncodeToString k) ms). \<exists>k. wf_key k \<and> k \<noteq> emptyKey \<and> s = EncodeToString k"
    using assms AList.dom_delete_subset [of "EncodeToString k" ms] unfolding recorded_def by blast
  then show ?thesis using assms unfolding recorded_def by (simp add: Encode_inject)
qed

lemma vk_current: "vk_ok vk current sp \<Longrightarrow> sp_committed sp (sp_current sp) = Some m \<Longrightarrow> recorded (keysOf vk current) m"
  by (fastforce simp: vk_ok_def keysOf_def)

lemma vk_version: "vk_ok vk current sp \<Longrightarrow> gm_get vk v \<noteq> None \<Longrightarrow> \<exists>m. sp_committed sp v = Some m \<and> recorded (keysOf vk v) m"
  by (auto simp: vk_ok_def keysOf_def)

text \<open>A new version.\<close>

lemma vk_new:
  assumes vk: "vk_ok vk current sp" and new: "sp_committed sp v = None"
    and sp': "sp_committed sp' = (sp_committed sp)(v \<mapsto> m)" "sp_current sp' = v" and ms: "recorded ms m"
  shows "vk_ok (gm_put v ms vk) v sp'"
  using assms by (fastforce simp: vk_ok_def)

lemma recorded_mem:
  assumes "recorded ms m" and "(s, val) \<in> set ms"
  obtains k where "wf_key k" and "k \<noteq> emptyKey" and "s = EncodeToString k" and "m k = Some val"
proof -
  have "s \<in> fst ` set ms" using assms(2) by force
  then obtain k where k: "wf_key k" "k \<noteq> emptyKey" "s = EncodeToString k" using assms(1) unfolding recorded_def by blast
  have "gm_get ms s = Some val" using assms by (simp add: recorded_def)
  with k assms(1) that show ?thesis unfolding recorded_def by metis
qed

section \<open>Consistency of proofs holds\<close>

lemma checkProof_ok:
  assumes "sees H m k rd" and "recorded ms m" and "wf_key k"
  shows "checkProof H ms k rd = Inr ()"
proof -
  have "gm_get ms (EncodeToString k) = m k" using assms(2,3) by (simp add: recorded_def)
  with assms(1) show ?thesis
    by (cases "m k") (auto simp: sees_def checkProof_def theValue_def proofType_defs)
qed

lemma checkProofGet_ok:
  assumes rel: "tree_rel H sp t" and H: "\<And>x. wf_hash (H x)" and ok: "hash_ok H (sp_hist sp)" and x: "fuzzValid x sp" and vk: "vk_ok vk current sp"
    and room: "room (Suc n) t"
  shows "\<exists>rds t1. checkProofGet H vk x t = (Inr (), rds, t1) \<and> tree_rel H sp t1 \<and> room n t1"
proof -
  have room': "room n t" using room by (auto simp: room_def)
  have k: "wf_key (fz_Key x)" "fz_Key x \<noteq> emptyKey" using x by (simp_all add: fuzzValid_def)
  show ?thesis
  proof (cases "gm_get vk (fz_Version x)")
    case (Some ms)
    then obtain m where m: "sp_committed sp (fz_Version x) = Some m" "recorded ms m" using vk unfolding vk_ok_def by blast
    obtain rd t1 where rd: "Tree_Reader t (fz_Version x) = (Inr rd, t1)" "sees H m (fz_Key x) rd" "tree_rel H sp t1" "room n t1"
      using reader_sees [OF rel H ok m(1) k, of n] room by blast
    have "checkProof H ms (fz_Key x) rd = Inr ()" using checkProof_ok [OF rd(2) m(2) k(1)] .
    then show ?thesis using rd rel room' Some by (simp add: checkProofGet_def)
  qed (use rel room' in \<open>simp add: checkProofGet_def\<close>)
qed

lemma crossKeys_ok:
  assumes rel: "tree_rel H sp t" and H: "\<And>x. wf_hash (H x)" and ok: "hash_ok H (sp_hist sp)"
    and prev: "sp_committed sp prev = Some m" "recorded ms m" and cur: "sp_committed sp cur = Some m'" "recorded (keysOf vk cur) m'"
    and es: "set es \<subseteq> set ms"
  shows "\<exists>n'. crossKeys H vk prev cur es n t = (Inr n', t)"
  using es
proof (induction es arbitrary: n)
  case (Cons e es)
  obtain s val where e: "e = (s, val)" by fastforce
  have IH: "\<exists>n'. crossKeys H vk prev cur es n t = (Inr n', t)" for n using Cons by simp
  show ?case
  proof (cases "n \<ge> maxChecks \<or> gm_get (keysOf vk cur) s \<noteq> Some val")
    case True
    then show ?thesis using IH by (auto simp: e)
  next
    case False
    obtain k where k: "wf_key k" "k \<noteq> emptyKey" "s = EncodeToString k" "m k = Some val"
      using recorded_mem [OF prev(2), of s val] Cons.prems by (auto simp: e)
    have "m' k = Some val" using False cur(2) k(1,3) unfolding recorded_def by metis
    obtain rd1 where rd1: "\<And>f :: TreeReader \<Rightarrow> Proof result. withReader t prev f = (f rd1, t)" "sees H m k rd1"
      using withReader_sees [OF rel H ok prev(1) k(1,2)] by blast
    obtain rd2 where rd2: "\<And>f :: TreeReader \<Rightarrow> Proof result. withReader t cur f = (f rd2, t)" "sees H m' k rd2"
      using withReader_sees [OF rel H ok cur(1) k(1,2)] by blast
    obtain p1 where p1: "Generate (asTreeReaderInterface H rd1) k = Inr p1" "pf_Type p1 = ProofTypeInclusion" "pf_Value p1 = Some val"
      using rd1(2) k(4) by (auto simp: sees_def)
    obtain p2 where p2: "Generate (asTreeReaderInterface H rd2) k = Inr p2" "pf_Type p2 = ProofTypeInclusion" "pf_Value p2 = Some val"
      using rd2(2) \<open>m' k = Some val\<close> by (auto simp: sees_def)
    have key: "bindE (DecodeString s) KeyFromBytes = Inr k" using k(1,3) by (simp add: KeyFromBytes_def wf_key_def)
    show ?thesis using False key rd1(1) rd2(1) p1 p2 IH [of "Suc n"] by (simp add: e theValue_def)
  qed
qed simp

lemma crossVersions_ok:
  assumes rel: "tree_rel H sp t" and H: "\<And>x. wf_hash (H x)" and ok: "hash_ok H (sp_hist sp)" and vk: "vk_ok vk current sp"
    and vs: "\<forall>v \<in> set vs. gm_get vk v \<noteq> None"
  shows "crossVersions H vk vs n t = (Inr (), t)"
  using vs
proof (induction vs arbitrary: n)
  case (Cons prev vs)
  show ?case
  proof (cases vs)
    case vs: (Cons cur rest)
    obtain m m' where m: "sp_committed sp prev = Some m" "recorded (keysOf vk prev) m" "sp_committed sp cur = Some m'" "recorded (keysOf vk cur) m'"
      using vk_version [OF vk, of prev] vk_version [OF vk, of cur] Cons.prems vs by auto
    obtain n' where "crossKeys H vk prev cur (keysOf vk prev) n t = (Inr n', t)"
      using crossKeys_ok [OF rel H ok m subset_refl] by blast
    then show ?thesis using Cons vs by simp
  qed simp
qed simp

lemma cross_ok:
  assumes "tree_rel H sp t" and "\<And>x. wf_hash (H x)" and "hash_ok H (sp_hist sp)" and "vk_ok vk current sp"
  shows "checkCrossVersionConsistency H vk t = (Inr (), t)"
proof -
  let ?vs = "map fst (filter (\<lambda>(v, m). v > 0 \<and> m \<noteq> []) vk)"
  have "set (exchangeSort id (length ?vs - 1) ?vs) = set ?vs"
    using exchangeSort_spec [of "length ?vs - 1" ?vs id] by (metis diff_le_self mset_eq_setD)
  moreover have "gm_get vk v \<noteq> None" if v: "v \<in> set ?vs" for v
  proof -
    obtain m where "(v, m) \<in> set vk" using v by auto
    then have "v \<in> fst ` set vk" by force
    then show ?thesis by (simp add: map_of_eq_None_iff)
  qed
  ultimately have "crossVersions H vk (exchangeSort id (length ?vs - 1) ?vs) 0 t = (Inr (), t)"
    by (intro crossVersions_ok [OF assms]) blast
  then show ?thesis by (simp add: checkCrossVersionConsistency_def Let_def)
qed

fun gets :: "timed list \<Rightarrow> nat" where
  "gets [] = 0"
| "gets ((now, x) # xs) = (if fz_Type x = OpGet then Suc (gets xs) else gets xs)"

lemma proofLoop_ok:
  assumes H: "\<And>x. wf_hash (H x)" and "tree_rel H sp t" and "vk_ok vk current sp" and "fuzz_ok xs sp"
    and "hash_ok H (sp_hist (fuzzSpec xs sp))" and "room (gets xs) t"
  shows "\<exists>vk' cur' rds' t'. proofLoop H xs vk current rds t = (Inr vk', rds', t') \<and> tree_rel H (fuzzSpec xs sp) t' \<and> vk_ok vk' cur' (fuzzSpec xs sp)"
  using assms(2-)
proof (induction xs arbitrary: sp t vk current rds)
  case (Cons y xs)
  obtain now x where y: "y = (now, x)" by fastforce
  note rel = Cons.prems(1) and vk = Cons.prems(2)
  have x: "fuzzValid x sp" "fuzz_ok xs (fuzzStep x sp)" using Cons.prems(3) by (simp_all add: y)
  have k: "wf_key (fz_Key x)" "fz_Key x \<noteq> emptyKey" using x(1) by (simp_all add: fuzzValid_def)
  have hok: "hash_ok H (sp_hist (fuzzSpec xs (fuzzStep x sp)))" using Cons.prems(4) by (simp add: y)
  have ok1: "hash_ok H (sp_hist (fuzzStep x sp))" using hash_ok_mono [OF hok hist_mono_fuzz] .
  obtain m where m: "sp_committed sp (sp_current sp) = Some m" using current_map [OF rel] by blast
  have fresh: "sp_committed sp (sp_latest sp + 1) = None" if "sp_latest sp \<noteq> MaxVersion"
  proof (rule ccontr)
    assume "sp_committed sp (sp_latest sp + 1) \<noteq> None"
    then obtain m' where "sp_committed sp (sp_latest sp + 1) = Some m'" by blast
    from leD [OF committedD(2) [OF rel this]] next_free(1) [OF rel that] show False by (rule notE)
  qed
  note IH = Cons.IH [OF _ _ x(2) hok]
  have spec: "fuzzSpec (y # xs) sp = fuzzSpec xs (fuzzStep x sp)" by (simp add: y)
  show ?case
  proof (cases "fz_Type x")
    case OpPut
    note p = put_step [OF rel H x(1) OpPut ok1 m]
    obtain t1 where t1: "Tree_Put H now (fz_Key x) (fz_Value x) t = (Inr (sp_latest sp + 1), t1)" "tree_rel H (fuzzStep x sp) t1" using p(1) by blast
    have lt: "sp_latest sp \<noteq> MaxVersion" using x(1) OpPut by (simp add: fuzzValid_def)
    have vk1: "vk_ok (gm_put (sp_latest sp + 1) (gm_put (EncodeToString (fz_Key x)) (fz_Value x) (keysOf vk current)) vk) (sp_latest sp + 1) (fuzzStep x sp)"
      using vk_new [OF vk fresh [OF lt] p(2,3) recorded_put [OF vk_current [OF vk m] k]] .
    have ver: "verifyProofAtVersion H t1 (sp_latest sp + 1) (fz_Key x) (fz_Value x) = (Inr (), t1)"
    proof -
      have new: "sp_committed (fuzzStep x sp) (sp_latest sp + 1) = Some (m(fz_Key x \<mapsto> fz_Value x))" unfolding p(2) by simp
      show ?thesis by (rule verifyProof_ok [OF t1(2) H ok1 new k]) (rule fun_upd_same)
    qed
    have hp: "hash_ok H (sp_hist (snd (spec_Put (fz_Key x) (fz_Value x) sp)))" using ok1 OpPut by (simp add: fuzzStep_def)
    have "room (gets xs) t1"
      by (rule room_same [OF _ counts.keep_Put [OF rel H k(1) hp refl, of now, unfolded t1(1) snd_conv]])
        (use Cons.prems(5) OpPut in \<open>simp add: y\<close>)
    from IH [OF t1(2) vk1 this] show ?thesis unfolding spec using OpPut t1(1) ver by (simp add: y Let_def)
  next
    case OpGet
    have st: "fuzzStep x sp = sp" using OpGet by (simp add: fuzzStep_def)
    obtain rs t1 where g: "checkProofGet H vk x t = (Inr (), rs, t1)" "tree_rel H sp t1" "room (gets xs) t1"
      using checkProofGet_ok [OF rel H _ x(1) vk, of "gets xs"] ok1 Cons.prems(5) OpGet by (auto simp: y st)
    from IH [unfolded st, OF g(2) vk g(3)] show ?thesis unfolding spec st using OpGet g(1) by (simp add: y)
  next
    case OpDelete
    note p = delete_step [OF rel H x(1) OpDelete ok1 m]
    obtain t1 where t1: "Tree_Delete H now (fz_Key x) t = (if m (fz_Key x) = None then Inl keyNotFound else Inr (sp_latest sp + 1), t1)"
      "tree_rel H (fuzzStep x sp) t1" using p(1) by blast
    have lt: "sp_latest sp \<noteq> MaxVersion" using x(1) OpDelete by (simp add: fuzzValid_def)
    have twin: "no_twin (hashed H m') (fz_Key x)" if "sp_committed sp (sp_current sp) = Some m'" for m'
      using x(1) OpDelete that by (simp add: fuzzValid_def)
    have hd: "hash_ok H (sp_hist (snd (spec_Delete (fz_Key x) sp)))" using ok1 OpDelete by (simp add: fuzzStep_def)
    have room: "room (gets xs) t1"
      by (rule room_same [OF _ counts.keep_Delete [OF rel H k(1) twin hd refl, of now, unfolded t1(1) snd_conv]])
        (use Cons.prems(5) OpDelete in \<open>simp add: y\<close>)
    show ?thesis
    proof (cases "m (fz_Key x)")
      case None
      have "vk_ok vk current (fuzzStep x sp)" using vk None p(2,3) by (auto simp: vk_ok_def)
      from IH [OF t1(2) this room] show ?thesis unfolding spec using OpDelete t1(1) None by (simp add: y)
    next
      case (Some val)
      have vk1: "vk_ok (gm_put (sp_latest sp + 1) (gm_del (EncodeToString (fz_Key x)) (keysOf vk current)) vk) (sp_latest sp + 1) (fuzzStep x sp)"
        using vk_new [OF vk fresh [OF lt] _ _ recorded_del [OF vk_current [OF vk m]]] p(2,3) Some by simp
      have ver: "verifyNonExistenceProof H t1 (sp_latest sp + 1) (fz_Key x) = (Inr (), t1)"
      proof -
        have new: "sp_committed (fuzzStep x sp) (sp_latest sp + 1) = Some (m(fz_Key x := None))" unfolding p(2) using Some by simp
        show ?thesis by (rule verifyNonExistence_ok [OF t1(2) H ok1 new k]) (rule fun_upd_same)
      qed
      from IH [OF t1(2) vk1 room] show ?thesis unfolding spec using OpDelete t1(1) ver Some by (simp add: y Let_def)
    qed
  qed
next
  case Nil
  then show ?case unfolding proofLoop.simps fuzzSpec.simps by blast
qed

section \<open>Properties\<close>

text \<open>
  C20: the fuzzed invariants. On a new tree over an empty storage the checks \<open>CheckVersionIsolation\<close>,
  \<open>CheckVersionIsolationWithRootHashes\<close> and \<open>CheckProofConsistency\<close> succeed for every sequence of valid operations, the last
  one as long as the storage has a snapshot for every read: the check closes its readers only at the end.
\<close>

theorem fuzz_invariants_hold:
  assumes "empty_store db" and "0 < cf_CacheSize cfg" and "NewTree now0 db cfg = Inr t" and "\<And>x. wf_hash (H x)"
    and "fuzz_ok xs spec_init" and "hash_ok H (sp_hist (fuzzSpec xs spec_init))" and "room (gets xs) t"
  shows "fst (CheckVersionIsolation H xs t) = Inr () \<and> fst (CheckVersionIsolationWithRootHashes H xs t) = Inr ()
    \<and> fst (CheckProofConsistency H xs t) = Inr ()"
proof -
  have t: "known t" "GetRootHash t (GetLatestVersion t) = Inr EmptyHash"
    using NewTree_empty [OF assms(1,2), of now0] assms(3)
    by (auto simp: known_def GetRootHash_def GetLatestVersion_def NewVersionManager_def NewVersionManagerWithRetention_def InitialVersion_def)
  have rel: "tree_rel H spec_init t" using NewTree_rel [OF assms(1-3)] .
  have "tracked [] spec_init" by (auto simp: tracked_def spec_init_def split: if_splits)
  then have iso: "fst (isolationLoop H xs [] t) = Inr ()" "fst (isolationRootsLoop H xs [] [(0, EmptyHash)] t) = Inr ()"
    using isolation_ok [OF assms(4) rel t(1) _ assms(5,6)] by blast+
  have "vk_ok [(0, [])] 0 spec_init" by (auto simp: vk_ok_def spec_init_def recorded_def split: if_splits)
  then obtain vk' cur' rds' t' where p: "proofLoop H xs [(0, [])] 0 [] t = (Inr vk', rds', t')" "tree_rel H (fuzzSpec xs spec_init) t'"
    "vk_ok vk' cur' (fuzzSpec xs spec_init)" using proofLoop_ok [OF assms(4) rel _ assms(5-7)] by blast
  from cross_ok [OF p(2) assms(4,6) p(3)] p(1) iso t(2) show ?thesis
    by (simp add: CheckVersionIsolation_def CheckVersionIsolationWithRootHashes_def CheckProofConsistency_def NewVersionTracker_def)
qed

definition toyOps :: "timed list" where
  "toyOps = [(7, \<lparr>fz_Type = OpPut, fz_Key = toyKey, fz_Value = toyValue, fz_Version = 0\<rparr>),
     (8, \<lparr>fz_Type = OpGet, fz_Key = toyKey, fz_Value = [], fz_Version = 1\<rparr>),
     (9, \<lparr>fz_Type = OpDelete, fz_Key = toyKey, fz_Value = [], fz_Version = 0\<rparr>),
     (9, \<lparr>fz_Type = OpDelete, fz_Key = toyKey, fz_Value = [], fz_Version = 0\<rparr>),
     (11, \<lparr>fz_Type = OpGet, fz_Key = toyKey, fz_Value = [], fz_Version = 2\<rparr>)]"

theorem fuzz_invariants_hold_witness:
  "fst (CheckVersionIsolation toyHash toyOps toyTree) = Inr () \<and> fst (CheckProofConsistency toyHash toyOps toyTree) = Inr ()"
proof -
  have v: "(1 :: version) \<noteq> MaxVersion" "(2 :: version) \<noteq> MaxVersion" "(0 :: version) \<noteq> MaxVersion" by (simp_all add: MaxVersion_def)
  have twin: "twinless toyMap toyKey" "twinless Map.empty toyKey" by (auto simp: twinless_def alone_def toyMap_def)
  have init: "sp_latest spec_init = 0" "toyValue \<noteq> []" "length toyValue \<le> MaxValueSize" by (simp_all add: spec_init_def toyValue_def MaxValueSize_def)
  obtain sp1 where sp1: "snd (spec_Put toyKey toyValue spec_init) = sp1" "sp_committed sp1 = [0 \<mapsto> Map.empty, 1 \<mapsto> toyMap]" "sp_current sp1 = 1"
    "sp_latest sp1 = 1" "sp_hist sp1 = [toyMap, Map.empty]" using spec_Put_toy by simp
  obtain sp2 where sp2: "snd (spec_Delete toyKey sp1) = sp2" "sp_committed sp2 2 = Some Map.empty" "sp_current sp2 = 2"
    "sp_latest sp2 = 2" "sp_hist sp2 = [Map.empty, toyMap, Map.empty]"
    using v toyKey_not_empty sp1 by (simp add: spec_Delete_def Let_def toyMap_def)
  obtain sp3 where sp3: "snd (spec_Delete toyKey sp2) = sp3" "sp_hist sp3 = [Map.empty, toyMap, Map.empty]"
    using v toyKey_not_empty sp2 by (simp add: spec_Delete_def Let_def)
  have spec: "fuzzSpec toyOps spec_init = sp3" by (simp add: toyOps_def fuzzStep_def sp1 sp2 sp3)
  have "fuzz_ok toyOps spec_init"
    using v twin toyKey_not_empty wf_toyKey
    by (simp add: toyOps_def fuzzStep_def fuzzValid_def sp1 sp2 sp3 init)
  moreover have "hash_ok toyHash (sp_hist (fuzzSpec toyOps spec_init))" using hash_ok_mono [OF toy_hash_ok] by (simp add: spec sp3)
  moreover have "room (gets toyOps) toyTree"
    by (simp add: room_def toyOps_def toyTree_def NewStorage_def NewStorageWithOptions_def DefaultOptions_def Let_def)
  moreover have "0 < cf_CacheSize DefaultTreeConfig" by (simp add: DefaultTreeConfig_def)
  ultimately show ?thesis
    using fuzz_invariants_hold [where H = toyHash and xs = toyOps, OF empty_NewStorage _ NewTree_toyTree wf_toyHash] by blast
qed

end
