(* ===== verification/BatchCodec.thy ===== *)
theory BatchCodec
  imports BatchOptimizer CommandInput
begin

text \<open>
  The encoding of update batches by the batch optimizer, the second half of \<^verbatim>\<open>pkg/tree/batch_optimizer.go\<close>: a
  header with the numbers of nodes and lines of placeholder data, compressed with gzip, which is a parameter. Shown here:
  what comes back from a compressed batch has the right numbers of entries and nothing else, its statistics cannot be
  taken, and a header with a negative number makes the decoder panic.
\<close>

section \<open>Scanning\<close>

text \<open>\<^verbatim>\<open>bytes.Split(data, []byte("\n"))\<close>.\<close>

fun splitLines :: "string \<Rightarrow> string list" where
  "splitLines [] = [[]]"
| "splitLines (c # s) = (if c = newline then [] # splitLines s else (case splitLines s of [] \<Rightarrow> [[c]] | l # ls \<Rightarrow> (c # l) # ls))"

text \<open>
  \<^verbatim>\<open>fmt.Sscanf(s, lit + "%d", &v)\<close> for a \<^verbatim>\<open>v\<close> of type \<^verbatim>\<open>int\<close>: white space before the number, a sign, digits; what
  follows is ignored.
\<close>

definition scanInt :: "string \<Rightarrow> int result" where
  "scanInt s =
     (let s1 = trimLeft s;
          sign = (if s1 \<noteq> [] \<and> hd s1 \<in> {CHR ''+'', CHR ''-''} then [hd s1] else []);
          ds = takeWhile isDigit (drop (length sign) s1);
          v = (if sign = ''-'' then - int (decimalValue ds) else int (decimalValue ds))
      in if s1 = [] then Inl (Errorf ''unexpected EOF'')
         else if ds = [] then Inl (Errorf ''expected integer'')
         else if v < - (2 ^ 63) \<or> v \<ge> 2 ^ 63 then Inl (Errorf ''integer overflow'')
         else Inr v)"

definition Sscanf_lit :: "string \<Rightarrow> string \<Rightarrow> int result" where
  "Sscanf_lit lit s = (if prefix lit s then scanInt (drop (length lit) s) else Inl (Errorf ''input does not match format''))"

section \<open>Encoding\<close>

text \<open>
  A batch whose writes may be the zero value \<^verbatim>\<open>NodeWrite{}\<close>, with no node: here \<open>None\<close>. The batches of the updater have
  none of these.
\<close>

record RawBatch =
  rb_NewRootHash :: hash
  rb_NewNodes :: "(bytes, NodeWrite option) gomap"
  rb_StaleNodes :: "NodeKey list"

definition rawBatch :: "UpdateBatch \<Rightarrow> RawBatch" where
  "rawBatch b = \<lparr>rb_NewRootHash = NewRootHash b, rb_NewNodes = map (apsnd Some) (NewNodes b), rb_StaleNodes = StaleNodes b\<rparr>"

text \<open>The verb \<^verbatim>\<open>%x\<close> formats a hash by its method \<^verbatim>\<open>String\<close>, which gives a hexadecimal string already.\<close>

definition headerLines :: "RawBatch \<Rightarrow> string list" where
  "headerLines b =
     [''BATCH:v1'',
      ''RootHash:'' @ EncodeToString (bytesOf (EncodeToString (rb_NewRootHash b))),
      ''NewNodes:'' @ decimal (length (rb_NewNodes b)),
      ''StaleNodes:'' @ decimal (length (rb_StaleNodes b))]"

definition nodeLine :: "nat \<Rightarrow> string" where
  "nodeLine i = ''Node'' @ decimal i @ '':placeholder_data_for_compression_testing''"

definition encodeBatch :: "RawBatch \<Rightarrow> bytes" where
  "encodeBatch b =
     bytesOf (concat (map (\<lambda>l. l @ [newline]) (headerLines b @ map nodeLine [0..<length (rb_NewNodes b)])))"

text \<open>\<^verbatim>\<open>make([]types.NodeKey, n)\<close>: a node key takes 40 bytes, an allocation at most \<open>2 ^ 48\<close>.\<close>

definition makeNodeKeys :: "int \<Rightarrow> NodeKey list result" where
  "makeNodeKeys n =
     (if n < 0 \<or> 40 * n > 2 ^ 48 then Inl (Panic ''makeslice: len out of range'') else Inr (replicate (nat n) zeroNodeKey))"

definition dummyNodes :: "nat \<Rightarrow> (bytes, NodeWrite option) gomap" where
  "dummyNodes n = foldl (\<lambda>m i. gm_put (bytesOf (''key'' @ decimal i)) None m) [] [0..<n]"

definition decodeBatch :: "bytes \<Rightarrow> RawBatch result" where
  "decodeBatch data =
     (let lines = splitLines (stringOf data)
      in if length lines < 4 then Inl (Errorf ''invalid batch format'')
         else if lines ! 0 \<noteq> ''BATCH:v1'' then Inl (Errorf ''invalid batch header'')
         else case Sscanf_lit ''NewNodes:'' (lines ! 2) of
                Inl err \<Rightarrow> Inl (wrapE ''failed to parse new node count'' err)
              | Inr newNodeCount \<Rightarrow>
                  (case Sscanf_lit ''StaleNodes:'' (lines ! 3) of
                     Inl err \<Rightarrow> Inl (wrapE ''failed to parse stale node count'' err)
                   | Inr staleNodeCount \<Rightarrow>
                       bindE (makeNodeKeys staleNodeCount) (\<lambda>stale.
                         Inr \<lparr>rb_NewRootHash = EmptyHash, rb_NewNodes = dummyNodes (nat newNodeCount), rb_StaleNodes = stale\<rparr>)))"

section \<open>Compression\<close>

text \<open>\<^verbatim>\<open>gzip.NewWriterLevel\<close> accepts the levels from \<open>-2\<close> to \<open>9\<close>; writing to a buffer does not fail.\<close>

definition CompressBatch :: "(int \<Rightarrow> bytes \<Rightarrow> bytes) \<Rightarrow> BatchOptimizer \<Rightarrow> RawBatch \<Rightarrow> bytes result" where
  "CompressBatch gzip bo b =
     (if \<not> enableCompression bo then Inr (encodeBatch b)
      else if compressionLevel bo < -2 \<or> compressionLevel bo > 9
        then Inl (wrapE ''failed to create gzip writer'' (Errorf ''gzip: invalid compression level''))
      else Inr (gzip (compressionLevel bo) (encodeBatch b)))"

definition DecompressBatch :: "(bytes \<Rightarrow> bytes result) \<Rightarrow> BatchOptimizer \<Rightarrow> bytes \<Rightarrow> RawBatch result" where
  "DecompressBatch gunzip bo data =
     (if \<not> enableCompression bo then decodeBatch data
      else case gunzip data of
             Inl err \<Rightarrow> Inl (wrapE ''failed to decompress batch'' err)
           | Inr decompressed \<Rightarrow> decodeBatch decompressed)"

section \<open>Statistics\<close>

text \<open>The ratio of the sizes, a quotient in floating point, is left out.\<close>

record BatchStats =
  bs_TotalNodes :: nat
  bs_LeafNodes :: nat
  bs_InternalNodes :: nat
  bs_StaleNodes :: nat
  bs_UncompressedSize :: nat
  bs_CompressedSize :: nat

text \<open>\<^verbatim>\<open>types.IsLeaf\<close> calls a method of the node.\<close>

fun countNodes :: "NodeWrite option list \<Rightarrow> nat \<Rightarrow> nat \<Rightarrow> (nat \<times> nat) result" where
  "countNodes [] nl ni = Inr (nl, ni)"
| "countNodes (None # ws) nl ni = Inl (Panic ''nil pointer dereference'')"
| "countNodes (Some w # ws) nl ni =
     (if Node_Type (nw_Node w) = NodeTypeLeaf then countNodes ws (Suc nl) ni
      else countNodes ws nl (Suc ni))"

definition GetBatchStats :: "(int \<Rightarrow> bytes \<Rightarrow> bytes) \<Rightarrow> BatchOptimizer \<Rightarrow> RawBatch \<Rightarrow> BatchStats result" where
  "GetBatchStats gzip bo b =
     bindE (countNodes (map snd (rb_NewNodes b)) 0 0) (\<lambda>(nl, ni).
       let stats = \<lparr>bs_TotalNodes = length (rb_NewNodes b), bs_LeafNodes = nl, bs_InternalNodes = ni,
             bs_StaleNodes = length (rb_StaleNodes b), bs_UncompressedSize = 0, bs_CompressedSize = 0\<rparr>
       in if enableCompression bo then
            bindE (CompressBatch gzip bo b) (\<lambda>compressed.
              Inr (stats\<lparr>bs_UncompressedSize := length (encodeBatch b), bs_CompressedSize := length compressed\<rparr>))
          else Inr stats)"

section \<open>Numbers in decimal\<close>

lemma isDigit_digit: "n < 10 \<Longrightarrow> isDigit (digit n) \<and> of_char (digit n) - 48 = n"
  by (simp add: isDigit_def digit_def Let_def take_bit_nat_eq_self)

lemma decimal_digits: "\<forall>c \<in> set (decimal n). isDigit c"
proof (induction n rule: decimal.induct)
  case (1 n)
  then show ?case using isDigit_digit [of n] isDigit_digit [of "n mod 10"] by (simp add: decimal.simps [of n])
qed

lemma decimal_not_Nil: "decimal n \<noteq> []"
  by (simp add: decimal.simps [of n])

lemma decimalValue_simps: "decimalValue [] = 0" "decimalValue (ds @ [d]) = 10 * decimalValue ds + (of_char d - 48)"
  by (simp_all add: decimalValue_def)

lemma decimalValue_decimal [simp]: "decimalValue (decimal n) = n"
proof (induction n rule: decimal.induct)
  case (1 n)
  show ?case
  proof (cases "n < 10")
    case True
    then show ?thesis using isDigit_digit [OF True] decimalValue_simps(2) [of "[]" "digit n"]
      by (simp add: decimal.simps [of n] decimalValue_simps(1))
  next
    case False
    have "decimalValue (decimal n) = 10 * decimalValue (decimal (n div 10)) + (of_char (digit (n mod 10)) - 48)"
      using False by (simp only: decimal.simps [of n] decimalValue_simps(2) if_False)
    also have "of_char (digit (n mod 10)) - 48 = n mod 10" using isDigit_digit [of "n mod 10"] by (rule conjunct2) simp
    also have "decimalValue (decimal (n div 10)) = n div 10" using 1 [OF False] .
    finally show ?thesis by (simp only: mult_div_mod_eq)
  qed
qed

lemma decimal_inject: "decimal m = decimal n \<longleftrightarrow> m = n"
  using decimalValue_decimal by metis

lemma spaces_no_digit: "list_all (\<lambda>w. w \<noteq> [] \<and> \<not> isDigit (hd w) \<and> hd w \<noteq> CHR ''-'') spaces"
  by code_simp

lemma not_digits: "\<not> isDigit newline" "\<not> isDigit CHR ''+''" "\<not> isDigit CHR ''-''"
  by (code_simp, code_simp, code_simp)

lemma digit_no_space:
  assumes "isDigit c \<or> c = CHR ''-''"
  shows "leadingSpace (c # s) = 0"
proof -
  have "\<not> prefix w (c # s)" if "w \<in> set spaces" for w
  proof -
    have "w \<noteq> []" "hd w \<noteq> c" using spaces_no_digit that assms by (auto simp: list_all_iff)
    then show ?thesis by (cases w) auto
  qed
  then have "find (\<lambda>w. prefix w (c # s)) spaces = None" by (simp add: find_None_iff)
  then show ?thesis by (simp add: leadingSpace_def)
qed

lemma scanInt_decimal:
  assumes "int n < 2 ^ 63"
  shows "scanInt (decimal n) = Inr (int n)"
proof -
  obtain c cs where c: "decimal n = c # cs" using decimal_not_Nil [of n] by (cases "decimal n") auto
  have d: "isDigit c" using decimal_digits [of n] by (simp add: c)
  then have "c \<noteq> CHR ''+''" "c \<noteq> CHR ''-''" using not_digits by blast+
  moreover have "trimLeft (decimal n) = decimal n" using digit_no_space [OF disjI1 [OF d], of cs] by (simp add: c)
  moreover have "takeWhile isDigit (decimal n) = decimal n" using decimal_digits by (simp add: takeWhile_eq_all_conv)
  moreover have "\<not> int n < - (2 ^ 63)" by simp
  ultimately show ?thesis using assms decimal_not_Nil [of n] decimalValue_decimal [of n] by (simp add: scanInt_def Let_def c del: decimalValue_decimal)
qed

lemma splitLines_line: "newline \<notin> set l \<Longrightarrow> splitLines (l @ newline # s) = l # splitLines s"
  by (induction l) auto

lemma decimal_no_newline: "newline \<notin> set (decimal n)"
  using decimal_digits [of n] not_digits(1) by blast

lemma hex_no_newline: "newline \<notin> set (EncodeToString bs)"
proof -
  have "newline \<noteq> digit k" if "k < 16" for k
    using that by (auto simp: digit_def newline_def char_of_eq_iff take_bit_nat_eq_self)
  moreover have "unat b div 16 < 16" for b :: byte using byte_less [of b] by simp
  ultimately show ?thesis by (auto simp: EncodeToString_def)
qed

section \<open>What comes back\<close>

lemma bytesOf_inject: "bytesOf s = bytesOf s' \<longleftrightarrow> s = s'"
  using stringOf_bytesOf by metis

lemma dummyNodes_eq: "dummyNodes n = map (\<lambda>i. (bytesOf (''key'' @ decimal i), None)) [0..<n]"
proof (induction n)
  case (Suc n)
  have put: "gm_put k v m = m @ [(k, v)]" if "k \<notin> fst ` set m" for k :: bytes and v :: "NodeWrite option" and m
    using that by (induction m) auto
  have "dummyNodes (Suc n) = gm_put (bytesOf (''key'' @ decimal n)) None (dummyNodes n)" by (simp add: dummyNodes_def)
  also have "\<dots> = dummyNodes n @ [(bytesOf (''key'' @ decimal n), None)]"
    by (rule put) (auto simp: Suc bytesOf_inject decimal_inject)
  finally show ?case by (simp add: Suc)
qed (simp add: dummyNodes_def)

lemma Sscanf_lit_decimal: "int n < 2 ^ 63 \<Longrightarrow> Sscanf_lit lit (lit @ decimal n) = Inr (int n)"
  by (simp add: Sscanf_lit_def scanInt_decimal)

lemma splitLines_lines:
  "list_all (\<lambda>l. newline \<notin> set l) ls \<Longrightarrow> splitLines (concat (map (\<lambda>l. l @ [newline]) ls) @ s) = ls @ splitLines s"
  by (induction ls) (simp_all add: splitLines_line)

lemma lines_header:
  "\<exists>s. splitLines (stringOf (encodeBatch b)) = headerLines b @ splitLines s"
proof -
  have lit: "newline \<notin> set ''BATCH:v1''" "newline \<notin> set ''RootHash:''" "newline \<notin> set ''NewNodes:''" "newline \<notin> set ''StaleNodes:''"
    by (simp_all add: newline_def char_of_eq_iff)
  have "list_all (\<lambda>l. newline \<notin> set l) (headerLines b)"
    using lit decimal_no_newline hex_no_newline by (simp add: headerLines_def)
  then show ?thesis using splitLines_lines [of "headerLines b"] by (auto simp: encodeBatch_def)
qed

lemma decode_encode:
  assumes "int (length (rb_NewNodes b)) < 2 ^ 63" and "40 * int (length (rb_StaleNodes b)) \<le> 2 ^ 48"
  shows "decodeBatch (encodeBatch b) = Inr \<lparr>rb_NewRootHash = EmptyHash, rb_NewNodes = dummyNodes (length (rb_NewNodes b)),
    rb_StaleNodes = replicate (length (rb_StaleNodes b)) zeroNodeKey\<rparr>"
proof -
  obtain s where s: "splitLines (stringOf (encodeBatch b)) = headerLines b @ splitLines s" using lines_header by blast
  have len: "\<not> length (headerLines b @ splitLines s) < 4" by (simp add: headerLines_def)
  have nth: "(headerLines b @ splitLines s) ! 0 = ''BATCH:v1''"
    "(headerLines b @ splitLines s) ! 2 = ''NewNodes:'' @ decimal (length (rb_NewNodes b))"
    "(headerLines b @ splitLines s) ! 3 = ''StaleNodes:'' @ decimal (length (rb_StaleNodes b))"
    by (simp_all add: headerLines_def)
  have "int (length (rb_StaleNodes b)) < 2 ^ 63" using assms(2) by simp
  note nums = Sscanf_lit_decimal [OF assms(1)] Sscanf_lit_decimal [OF this]
  show ?thesis unfolding decodeBatch_def Let_def s if_not_P [OF len] nth nums
    using assms(2) by (simp add: makeNodeKeys_def)
qed

lemma DecompressBatch_Compress:
  assumes "\<And>l x. gunzip (gzip l x) = Inr x" and "-2 \<le> compressionLevel bo" and "compressionLevel bo \<le> 9"
  shows "\<exists>data. CompressBatch gzip bo b = Inr data \<and> DecompressBatch gunzip bo data = decodeBatch (encodeBatch b)"
  using assms by (cases "enableCompression bo") (simp_all add: CompressBatch_def DecompressBatch_def)

lemma countNodes_updater: "countNodes (map (snd \<circ> apsnd Some) ws) nl ni =
    Inr (nl + length (filter (\<lambda>e. Node_Type (nw_Node (snd e)) = NodeTypeLeaf) ws),
         ni + length (filter (\<lambda>e. Node_Type (nw_Node (snd e)) \<noteq> NodeTypeLeaf) ws))"
  by (induction ws arbitrary: nl ni) auto

section \<open>Results\<close>

text \<open>
  A batch of the updater that was compressed comes back as a batch with the same numbers of new and stale nodes, but with the
  empty root hash and without a node. Taking its statistics panics if there was a new node, while the statistics of the batch
  itself are right: every new node is a leaf or an internal node.
\<close>

theorem compressed_batch_counts:
  assumes "\<And>l x. gunzip (gzip l x) = Inr x" and "-2 \<le> compressionLevel bo" and "compressionLevel bo \<le> 9"
    and "int (length (NewNodes b)) < 2 ^ 63" and "40 * int (length (StaleNodes b)) \<le> 2 ^ 48"
  shows "\<exists>data b' stats. CompressBatch gzip bo (rawBatch b) = Inr data \<and> DecompressBatch gunzip bo data = Inr b'
    \<and> length (rb_NewNodes b') = length (NewNodes b) \<and> length (rb_StaleNodes b') = length (StaleNodes b)
    \<and> rb_NewRootHash b' = EmptyHash
    \<and> (NewNodes b = [] \<or> GetBatchStats gzip bo b' = Inl (Panic ''nil pointer dereference''))
    \<and> GetBatchStats gzip bo (rawBatch b) = Inr stats \<and> bs_LeafNodes stats + bs_InternalNodes stats = bs_TotalNodes stats"
proof -
  let ?r = "rawBatch b"
  let ?b = "\<lparr>rb_NewRootHash = EmptyHash, rb_NewNodes = dummyNodes (length (NewNodes b)),
    rb_StaleNodes = replicate (length (StaleNodes b)) zeroNodeKey\<rparr>"
  have len: "length (rb_NewNodes ?r) = length (NewNodes b)" "length (rb_StaleNodes ?r) = length (StaleNodes b)" by (simp_all add: rawBatch_def)
  obtain data where data: "CompressBatch gzip bo ?r = Inr data" "DecompressBatch gunzip bo data = decodeBatch (encodeBatch ?r)"
    using DecompressBatch_Compress [of gunzip gzip bo ?r] assms(1-3) by blast
  have dec: "decodeBatch (encodeBatch ?r) = Inr ?b" using decode_encode [of ?r] assms(4,5) len by simp
  have panic: "GetBatchStats gzip bo ?b = Inl (Panic ''nil pointer dereference'')" if "NewNodes b \<noteq> []"
  proof -
    obtain n where "length (NewNodes b) = Suc n" using \<open>NewNodes b \<noteq> []\<close> by (cases "NewNodes b") auto
    then show ?thesis by (simp add: GetBatchStats_def dummyNodes_eq upt_conv_Cons bindE_def del: upt_Suc)
  qed
  have "\<exists>stats. GetBatchStats gzip bo ?r = Inr stats \<and> bs_LeafNodes stats + bs_InternalNodes stats = bs_TotalNodes stats"
    using data(1) countNodes_updater [of "NewNodes b" 0 0] sum_length_filter_compl [of "\<lambda>e. Node_Type (nw_Node (snd e)) = NodeTypeLeaf" "NewNodes b"]
    by (simp add: GetBatchStats_def rawBatch_def bindE_def Let_def)
  with data dec panic show ?thesis by (auto simp: dummyNodes_eq)
qed

text \<open>The decoder panics on a header with a negative number of stale nodes.\<close>

theorem negative_count_panics:
  "decodeBatch (bytesOf (''BATCH:v1'' @ newline # newline # ''NewNodes:0'' @ newline # ''StaleNodes:-1'')) =
     Inl (Panic ''makeslice: len out of range'')"
proof -
  have "splitLines (''BATCH:v1'' @ newline # newline # ''NewNodes:0'' @ newline # ''StaleNodes:-1'') =
      [''BATCH:v1'', [], ''NewNodes:0'', ''StaleNodes:-1'']"
    by code_simp
  moreover have "decimal 0 = ''0''" by code_simp
  then have "Sscanf_lit ''NewNodes:'' ''NewNodes:0'' = Inr 0" using Sscanf_lit_decimal [of 0 "''NewNodes:''"] by simp
  moreover have "Sscanf_lit ''StaleNodes:'' ''StaleNodes:-1'' = Inr (-1)"
    using digit_no_space [of "CHR ''-''" "''1''"] by (simp add: Sscanf_lit_def scanInt_def Let_def isDigit_def decimalValue_def)
  ultimately show ?thesis by (simp add: decodeBatch_def makeNodeKeys_def bindE_def)
qed

end
