(* ===== verification/Spec2Isabelle.thy ===== *)
theory Spec2Isabelle
  imports Codec StorageKeys TreeRuns ProofGenerate ProofCodec BatchTransactions TreeReopen TreeHealth NodeCache
    StoragePolicies ErrorCodes PebbleResources PebbleRefine ToyTree CommandTransfers Repl ReplSession FuzzInvariants BatchCodec
begin

text \<open>
  A verification development for ProofBox, a versioned, authenticated key-value store: a Merkle tree over 64
  nibbles with copy-on-write versions, after the Jellyfish Merkle tree (\<^verbatim>\<open>src/pkg\<close>).

  \<^bold>\<open>The program and its theories.\<close>
  \<^item> \<open>Prelude\<close>: machine types, errors and results (\<^verbatim>\<open>types/errors.go\<close>, \<^verbatim>\<open>storage/errors.go\<close>), Go slices and maps. A function
    that can fail returns \<open>error + 'a\<close>; a panic is the error \<open>Panic\<close>, which no wrapping changes. A Go map is an
    association list with distinct keys. An operation that mutates returns the new state, also when it fails.
  \<^item> \<open>Keys\<close>, \<open>NodeKeys\<close>, \<open>StorageKeys\<close>: keys, nibble paths, node keys and their bytes (\<^verbatim>\<open>types/key.go\<close>, \<^verbatim>\<open>types/nodekey.go\<close>,
    \<^verbatim>\<open>storage/keys.go\<close>, \<^verbatim>\<open>tree/storage_keys.go\<close>): round trips, agreement of the three encoders (one locale \<open>node_key_codec\<close>,
    three interpretations), separation of the key spaces.
  \<^item> \<open>Crypto\<close>: SHA-256 and the hasher (\<^verbatim>\<open>crypto/\<close>). All later theories take the hash function as the argument \<open>H\<close>.
  \<^item> \<open>Nodes\<close>, \<open>ExchangeSort\<close>, \<open>Codec\<close>: leaves and internal nodes with their hash caches (\<^verbatim>\<open>tree/leaf_node.go\<close>,
    \<^verbatim>\<open>tree/internal_node.go\<close>) and the node and batch codecs (\<^verbatim>\<open>codec/\<close>): round trips, sizes, what a node hash binds.
  \<^item> \<open>MemoryStorage\<close>: the in-memory backend (\<^verbatim>\<open>storage/memory/memory.go\<close>) with batches, iterators, snapshots and reference
    counts, as an instance of the locale \<open>kv_store\<close>.
  \<^item> \<open>Updater\<close>, \<open>BatchOptimizer\<close>, \<open>BatchCodec\<close>, \<open>VersionManager\<close>, \<open>Tree\<close>: copy-on-write insertion and deletion (\<^verbatim>\<open>tree/tree_updater.go\<close>,
    \<^verbatim>\<open>tree/path_cloner.go\<close>), the optimisation of a write batch and its placeholder encoding, the life cycle and retention of versions, and the tree
    itself (\<^verbatim>\<open>tree/tree.go\<close>, \<^verbatim>\<open>reader.go\<close>, \<^verbatim>\<open>put.go\<close>, \<^verbatim>\<open>delete.go\<close>, \<^verbatim>\<open>stats.go\<close>).
  \<^item> \<open>MerkleSpec\<close>, \<open>UpdaterCorrect\<close>, \<open>UpdaterOps\<close>, \<open>TreeCommit\<close>: what the nodes of a version mean. \<open>merkle\<close> is the hash that
    contents (a map from keys to value hashes) determine over the full trie; \<open>rep\<close> says that stored nodes represent
    contents; every updater operation changes the contents as a map update does and writes only nodes of its version.
  \<^item> \<open>TreeSpec\<close>, \<open>TreeRefine\<close>, \<open>TreeRuns\<close>: the abstract specification of the tree, a map from versions to maps, the relation
    \<open>tree_rel\<close>, a simulation square per operation, and runs of operations.
  \<^item> \<open>BatchTransactions\<close>: batches of operations on the tree (\<^verbatim>\<open>tree/batch_transaction.go\<close>).
  \<^item> \<open>Proofs\<close>, \<open>ProofVerify\<close>, \<open>ProofGenerate\<close>, \<open>ProofCodec\<close>: Merkle proofs (\<^verbatim>\<open>proof/\<close>): data, verifier, generator over the
    locale \<open>tree_reader\<close>, binary and compressed encodings.
  \<^item> \<open>TreeReopen\<close>, \<open>TreeHealth\<close>, \<open>NodeCache\<close>: opening a tree on existing data, over a locale \<open>commit_invariant\<close> of what commits
    keep, with its interpretations; the validation and integrity checks (\<^verbatim>\<open>tree/validation.go\<close>, \<^verbatim>\<open>tree/health.go\<close>); the node
    cache (\<^verbatim>\<open>tree/cache.go\<close>) over an LRU package that is an argument with its laws.
  \<^item> \<open>StoragePolicies\<close>, \<open>ErrorCodes\<close>, \<open>StorageMetrics\<close>: pruning policies and configuration (\<^verbatim>\<open>storage/pruning.go\<close>,
    \<^verbatim>\<open>storage/config.go\<close>), classification of errors and the retry back-off (\<^verbatim>\<open>types/error_utils.go\<close>, \<^verbatim>\<open>tree/error_handlers.go\<close>),
    counters and latency histogram (\<^verbatim>\<open>storage/metrics.go\<close>).
  \<^item> \<open>PebbleStorage\<close>, \<open>PebbleLaws\<close>, \<open>PebbleResources\<close>, \<open>PebbleRefine\<close>: the persistent backend (\<^verbatim>\<open>storage/pebble/pebble.go\<close>) over
    the PebbleDB library as an argument: the operations, the laws of the library and that they make the backend a \<open>kv_store\<close>,
    resource accounting and shutdown as a transition system, and the equivalence with the memory backend.
  \<^item> \<open>CommandInput\<close>, \<open>Commands\<close>, \<open>CommandSessions\<close>, \<open>CommandTransfers\<close>, \<open>Repl\<close>, \<open>ReplSession\<close>: the program \<^verbatim>\<open>pb\<close> (\<^verbatim>\<open>cmd/pb/commands\<close>): validation
    of input (\<^verbatim>\<open>security.go\<close>) and the parts of the standard library it rests on; the commands over a disk of files and
    databases; sessions of commands against the versioned map; export and import, proof files; the interactive session with
    its nested batch files (\<^verbatim>\<open>repl.go\<close>), and what it does to the versioned map. A database on the disk is the data of its storage, on which the model of the
    storage is opened: \<open>PebbleRefine\<close> shows that the persistent backend answers in the same way.
  \<^item> \<open>FuzzInvariants\<close>: the checks with which the repository fuzzes the tree (\<^verbatim>\<open>fuzz/invariants\<close>).
  \<^item> \<open>ToyHash\<close>, \<open>ToyTree\<close>: a small hash function and a small tree with which the examples run.
  \<^item> This theory: the properties that span components.

  \<^bold>\<open>What is shown.\<close> Any interleaving of version and key operations returns what the versioned map returns, errors
  included (\<open>tree_refines_versioned_map\<close>), from which follow what one \<open>Put\<close>, \<open>Delete\<close> or batch changes, that committed
  versions are immutable, and that a root hash authenticates the contents up to collisions. Every generated proof is
  accepted; accepted inclusion proofs and contiguous empty-slot exclusion proofs are sound; the verifier accepts forged
  exclusion proofs of two kinds. A reopened tree reads what was committed, the node cache never shows, the integrity
  checks accept what was committed, and every error of the tree has its class. The two storage backends answer alike, except
  to a scan with a prefix that ends in \<^verbatim>\<open>0xFF\<close> or an empty upper bound and to a commit after \<open>Close\<close> (\<open>agreed\<close>), count
  their resources and can always be shut down. A session of \<^verbatim>\<open>put\<close>, \<^verbatim>\<open>get\<close>, \<^verbatim>\<open>delete\<close> and \<^verbatim>\<open>root\<close> commands, each of which opens the
  database anew, prints what the versioned map says, also before and after an interactive session, which prints the same with every
  command but \<^verbatim>\<open>prove\<close>, \<^verbatim>\<open>stats\<close>, \<^verbatim>\<open>export\<close> and \<^verbatim>\<open>import\<close> (\<open>words_ok\<close>), batch files included; what is
  exported as JSON or CSV is imported or refused for its size, what is proved is verified from the file; accepted paths lead nowhere
  they should not; interactive sessions come to an end unless batch files execute each other in a circle. The checks that the repository
  fuzzes succeed on every valid sequence, not only on the sampled ones. Each storage, codec and version component has its invariants and round trips.

  \<^bold>\<open>Hypotheses.\<close> \<open>wf_hash (H x)\<close>: hashes have 32 bytes. \<open>hash_ok\<close>: among the inputs that were hashed there is no collision
  and none hashes to the empty hash, which the code uses for an empty tree. \<open>twinless\<close>, for deletions only: a key that
  is deleted, if it is present, shares its first 63 nibbles with no other key, since the collapse of a leaf in \<open>deleteAt\<close>
  breaks the tree there; \<open>batch_twinless\<close> says so for the deletions of a batch, against the version and the puts of the batch.
  Such keys can be named with \<^verbatim>\<open>--hex-key\<close>. \<open>run_ok\<close> also excludes
  committing a version without an operation, whose effect is the subject of \<open>empty_commit_loses_data\<close>. \<open>lru_laws\<close> and
  \<open>pebble_laws\<close>: documented behaviour of the two packages, the latter without I/O errors; both have a concrete instance. \<open>export_law\<close> and
  \<open>proof_law\<close>: the JSON package reads back what it wrote, up to a replacement of invalid UTF-8 that leaves ASCII alone;
  \<open>csv_law\<close>: the CSV package reads back rows without carriage returns; all three have a concrete instance.

  \<^bold>\<open>Bounds and fuel.\<close> Loops over a path run over the at most 64 nibbles of a key; the recursion of the updater takes the
  depth as its measure. \<open>VerifyIntegrity\<close> takes fuel for the levels below the root, of which 65 are shown to be enough. \<open>executeReplCommand\<close> takes fuel for
  the nesting of batch files: its depth is shown to be enough where there is one, and no fuel is enough for a file that
  executes itself. No other definition can run out of fuel: the results are proved for the definitions as they are, not under the assumption
  that they return.

  \<^bold>\<open>Not modelled.\<close> Locks and goroutines: an operation is atomic, as the mutexes make it; \<open>BuildUpdateBatchParallel\<close> is
  modelled by its result. Metrics of the tree, logging and formatting of messages: errors keep their format string. Time,
  latencies and random jitter are arguments; quotients in floating point are left out. The compression library is an
  argument with the law that it restores what it compressed. Of the command line the argument parser, which is a library, the
  completion and the statistics, which format the counters of the storage, are left out, and so are the Prometheus server,
  the random generators and the corpus of the fuzzer, benchmarks and examples.
\<close>

section \<open>Root hashes and contents\<close>

lemma hashed_inject:
  assumes "hashed H m k = hashed H m' k" and "ran m \<subseteq> S" and "ran m' \<subseteq> S" and "\<not> collides H S"
  shows "m k = m' k"
proof (cases "m k")
  case None
  then show ?thesis using assms(1) by (simp add: hashed_def)
next
  case (Some b)
  then obtain b' where b': "m' k = Some b'" "H b = H b'" using assms(1) by (cases "m' k") (auto simp: hashed_def)
  then have "b \<in> S" "b' \<in> S" using Some assms(2,3) by (auto simp: ran_def)
  with b'(2) assms(4) have "b = b'" unfolding collides_def by blast
  with Some b' show ?thesis by simp
qed

lemma root_inject:
  assumes H: "\<And>x. wf_hash (H x)" and "merkle_root H (hashed H m) = merkle_root H (hashed H m')" and "m \<in> set hist" "m' \<in> set hist'"
    and ok: "hash_ok H hist" "hash_ok H hist'" and nc: "\<not> collides H (inputs H hist \<union> inputs H hist')" and "wf_key k"
  shows "m k = m' k"
proof -
  note sub = inputs_mem [OF assms(3), of H] inputs_mem [OF assms(4), of H]
  have "merkle H (hashed H m) [] MaxTreeDepth \<noteq> Some EmptyHash" "merkle H (hashed H m') [] MaxTreeDepth \<noteq> Some EmptyHash"
    using merkle_input [of H _ "[]" MaxTreeDepth EmptyHash] sub(1,3) ok unfolding hash_ok_def by blast+
  then have "merkle H (hashed H m) [] MaxTreeDepth = merkle H (hashed H m') [] MaxTreeDepth"
    using assms(2) by (auto simp: merkle_root_def split: option.splits)
  then have "collides H (merkle_inputs H (hashed H m) [] MaxTreeDepth \<union> merkle_inputs H (hashed H m') [] MaxTreeDepth)
      \<or> (\<forall>k. wf_key k \<longrightarrow> below [] k \<longrightarrow> hashed H m k = hashed H m' k)"
    by (intro merkle_inject [OF H]) simp_all
  moreover have "\<not> collides H (merkle_inputs H (hashed H m) [] MaxTreeDepth \<union> merkle_inputs H (hashed H m') [] MaxTreeDepth)"
    using nc collides_mono sub(1,3) by (metis Un_mono)
  ultimately show ?thesis using hashed_inject [OF _ _ _ nc, of m k m'] sub(2,4) assms(8) by simp blast
qed

section \<open>Properties of the tree\<close>

text \<open>
  C1: refinement. Starting from a new tree over an empty storage, any sequence of \<open>BeginVersion\<close>,
  \<open>PutVersioned\<close>, \<open>DeleteVersioned\<close>, \<open>CommitVersion\<close>, \<open>AbortVersion\<close>, \<open>Get\<close>, \<open>Put\<close> and \<open>Delete\<close>, interleaved over any number
  of pending versions, returns exactly what the versioned map returns, errors included, and leaves a tree that
  represents the versioned map's state; provided that no key is deleted while a neighbour with the same first 63 nibbles is present with it,
  no version is committed without an operation, and the hash function is good on what was hashed.
\<close>

theorem tree_refines_versioned_map:
  assumes "\<And>x. wf_hash (H x)" and "empty_store db" and "0 < cf_CacheSize cfg" and "NewTree now db cfg = Inr t"
    and "run_ok ops spec_init" and "hash_ok H (sp_hist (snd (specRun ops spec_init)))"
  shows "fst (run H ops t) = fst (specRun ops spec_init) \<and> tree_rel H (snd (specRun ops spec_init)) (snd (run H ops t))"
  using run_refines [OF NewTree_rel [OF assms(2-4)] assms(1,6,5)] .

theorem tree_refines_versioned_map_witness:
  "fst (run toyHash [TreePutOp 7 toyKey toyValue, GetOp 1 toyKey, GetOp 0 toyKey, GetOp 2 toyKey] toyTree) =
     [OutVersion (Inr 1), OutValue (Inr (Some toyValue)), OutValue (Inr None), OutValue (Inl ErrVersionNotFound)]"
proof -
  let ?ops = "[TreePutOp 7 toyKey toyValue, GetOp 1 toyKey, GetOp 0 toyKey, GetOp 2 toyKey]"
  have run: "specRun ?ops spec_init = ([OutVersion (Inr 1), OutValue (Inr (Some toyValue)), OutValue (Inr None),
      OutValue (Inl ErrVersionNotFound)], snd (spec_Put toyKey toyValue spec_init))"
    by (simp add: spec_Put_toy spec_get_def toyMap_def MaxVersion_def)
  have "run_ok ?ops spec_init" by simp
  moreover have "hash_ok toyHash (sp_hist (snd (specRun ?ops spec_init)))" using toy_hash_ok by (simp only: run snd_conv spec_Put_toy) simp
  moreover have "0 < cf_CacheSize DefaultTreeConfig" by (simp add: DefaultTreeConfig_def)
  ultimately show ?thesis
    using tree_refines_versioned_map [OF wf_toyHash empty_NewStorage _ NewTree_toyTree, of ?ops] by (simp only: run fst_conv)
qed

text \<open>
  C2: what a \<open>Put\<close> changes. On a tree in the state of the versioned map \<open>sp\<close>, \<open>Put\<close> of a valid key and value
  commits the next version; at that version \<open>Get\<close> returns the value for the key and what the latest version had
  for every other key, every other version reads as before, and the root hash is the one the new contents
  determine.
\<close>

theorem put_visible:
  assumes v_def: "v = sp_latest sp + 1" and "tree_rel H sp t" and "\<And>x. wf_hash (H x)" and "wf_key k" and "k \<noteq> emptyKey" and "val \<noteq> []" and "length val \<le> MaxValueSize"
    and "sp_latest sp \<noteq> MaxVersion" and "hash_ok H (sp_hist (snd (spec_Put k val sp)))"
  shows "\<exists>t' m. Tree_Put H now k val t = (Inr v, t') \<and> GetLatestVersion t' = v
    \<and> fst (Tree_Get H t' v k) = Inr (Some val)
    \<and> (\<forall>k'. wf_key k' \<longrightarrow> k' \<noteq> k \<longrightarrow> fst (Tree_Get H t' v k') = fst (Tree_Get H t (GetLatestVersion t) k'))
    \<and> (\<forall>w k'. wf_key k' \<longrightarrow> w \<noteq> v \<longrightarrow> fst (Tree_Get H t' w k') = fst (Tree_Get H t w k'))
    \<and> sp_committed sp (GetLatestVersion t) = Some m \<and> GetRootHash t' v = Inr (merkle_root H ((hashed H m)(k \<mapsto> H val)))"
proof -
  obtain m where m: "sp_committed sp (sp_current sp) = Some m" using next_free(5) [OF assms(2,8)] by blast
  let ?sp = "snd (spec_Put k val sp)"
  have sp: "spec_Put k val sp = (Inr v, sp\<lparr>sp_committed := (sp_committed sp)(v \<mapsto> m(k \<mapsto> val)), sp_latest := v,
      sp_current := v, sp_hist := m(k \<mapsto> val) # sp_hist sp\<rparr>)"
    using assms(5-8) m by (simp add: spec_Put_def v_def Let_def)
  obtain t' where put: "Tree_Put H now k val t = (Inr v, t')" and rel: "tree_rel H ?sp t'"
    using Put_refines [OF assms(2-4,9), of now] by (cases "Tree_Put H now k val t") (simp add: sp)
  have hist: "set (sp_hist sp) \<subseteq> set (sp_hist ?sp)" by (auto simp: sp)
  have get: "fst (Tree_Get H t' w k') = spec_get w k' ?sp" "fst (Tree_Get H t w k') = spec_get w k' sp" if "wf_key k'" for w k'
    using get_refines [OF rel assms(3,9) that] get_refines [OF assms(2,3) hash_ok_mono [OF assms(9) hist] that] by simp_all
  have cur: "GetLatestVersion t = sp_current sp" "GetLatestVersion t' = v"
    using tree_relD(4) [OF assms(2)] tree_relD(4) [OF rel] by (simp_all add: GetLatestVersion_def sp)
  have le: "v \<le> MaxVersion" "sp_current sp \<le> MaxVersion"
    using next_free(2,4) [OF assms(2,8)] by (auto simp: v_def)
  have "GetRootHash t' v = Inr (merkle_root H ((hashed H m)(k \<mapsto> H val)))"
    using tree_relD(7) [OF rel] by (simp add: versions_rel_def GetRootHash_def sp)
  then show ?thesis
    using put cur m le assms(4,5) by (intro exI [where x = t'] exI [where x = m])
      (auto simp: get spec_get_def sp leD simp del: fun_upd_apply, auto)
qed

theorem put_visible_witness:
  "\<exists>t'. Tree_Put toyHash 7 toyKey toyValue toyTree = (Inr 1, t') \<and> fst (Tree_Get toyHash t' 1 toyKey) = Inr (Some toyValue)
    \<and> fst (Tree_Get toyHash t' 0 toyKey) = fst (Tree_Get toyHash toyTree 0 toyKey)"
proof -
  have v: "1 = sp_latest spec_init + 1" "sp_latest spec_init \<noteq> MaxVersion" by (simp_all add: spec_init_def MaxVersion_def)
  have val: "toyValue \<noteq> []" "length toyValue \<le> MaxValueSize" by (simp_all add: toyValue_def MaxValueSize_def)
  show ?thesis
    using put_visible [OF v(1) toyTree_rel wf_toyHash wf_toyKey toyKey_not_empty val v(2) toy_hash_ok_put, of 7] wf_toyKey by force
qed

text \<open>
  C3: what a \<open>Delete\<close> changes. Deleting a key that the latest version has, and that shares its first 63 nibbles with no
  other key of that version, commits the next version, at which \<open>Get\<close> finds nothing for the key and the same as before for
  every other key; every other version reads as before and the root hash is the one the remaining contents determine.
  Deleting a key that is not there fails with \<open>ErrKeyNotFound\<close>, and every version reads as before. Nothing is claimed for a
  present key with a neighbour at the last nibble (\<open>twinless\<close>): there the code collapses the tree wrongly, and the commit of
  the deletion can fail.
\<close>

theorem delete_visible:
  assumes v: "v = sp_latest sp + 1" and "tree_rel H sp t" and "\<And>x. wf_hash (H x)" and "wf_key k" and "k \<noteq> emptyKey"
    and "sp_latest sp \<noteq> MaxVersion" and m: "sp_committed sp (sp_current sp) = Some m" and "twinless m k"
    and "hash_ok H (m(k := None) # sp_hist sp)"
  shows "\<exists>r t'. Tree_Delete H now k t = (r, t')
    \<and> (if m k = None then r = Inl (Wrapf ''failed to delete'' (Wrapf ''delete failed'' ErrKeyNotFound))
       else r = Inr v \<and> fst (Tree_Get H t' v k) = Inr None
         \<and> (\<forall>k'. wf_key k' \<longrightarrow> k' \<noteq> k \<longrightarrow> fst (Tree_Get H t' v k') = fst (Tree_Get H t (GetLatestVersion t) k'))
         \<and> GetRootHash t' v = Inr (merkle_root H ((hashed H m)(k := None))))
    \<and> (\<forall>w k'. wf_key k' \<longrightarrow> w \<noteq> v \<longrightarrow> fst (Tree_Get H t' w k') = fst (Tree_Get H t w k'))"
proof -
  let ?sp = "snd (spec_Delete k sp)"
  have sp: "spec_Delete k sp = (if m k = None
      then (Inl (Wrapf ''failed to delete'' (Wrapf ''delete failed'' ErrKeyNotFound)), sp\<lparr>sp_latest := v\<rparr>)
      else (Inr v, sp\<lparr>sp_committed := (sp_committed sp)(v \<mapsto> m(k := None)), sp_latest := v, sp_current := v, sp_hist := m(k := None) # sp_hist sp\<rparr>))"
    using assms(5,6) m by (simp add: spec_Delete_def v Let_def)
  have ok: "hash_ok H (sp_hist ?sp)" by (rule hash_ok_mono [OF assms(9)]) (auto simp: sp)
  obtain r t' where del: "Tree_Delete H now k t = (r, t')" "r = fst (spec_Delete k sp)" and rel: "tree_rel H ?sp t'"
    using Delete_refines [OF assms(2-4) _ ok, of now] m assms(8) by (cases "Tree_Delete H now k t") auto
  have "hash_ok H (sp_hist sp)" by (rule hash_ok_mono [OF assms(9)]) auto
  then have get: "fst (Tree_Get H t' w k') = spec_get w k' ?sp" "fst (Tree_Get H t w k') = spec_get w k' sp" if "wf_key k'" for w k'
    using get_refines [OF rel assms(3) ok that] get_refines [OF assms(2,3) _ that] by simp_all
  have cur: "GetLatestVersion t = sp_current sp" using tree_relD(4) [OF assms(2)] by (simp add: GetLatestVersion_def)
  have le: "v \<le> MaxVersion" "sp_current sp \<le> MaxVersion" using next_free(2,4) [OF assms(2,6)] by (auto simp: v)
  show ?thesis
  proof (cases "m k = None")
    case True
    with del get show ?thesis by (simp add: sp spec_get_def)
  next
    case False
    have "GetRootHash t' v = Inr (merkle_root H ((hashed H m)(k := None)))"
      using tree_relD(7) [OF rel] False by (simp add: versions_rel_def GetRootHash_def sp)
    with False del cur m le assms(4,5) show ?thesis by (auto simp: get spec_get_def sp leD)
  qed
qed

theorem delete_visible_witness:
  "\<exists>t1 t2 t3. Tree_Put toyHash 7 toyKey toyValue toyTree = (Inr 1, t1) \<and> Tree_Delete toyHash 8 toyKey t1 = (Inr 2, t2)
    \<and> fst (Tree_Get toyHash t2 2 toyKey) = Inr None \<and> fst (Tree_Get toyHash t2 1 toyKey) = fst (Tree_Get toyHash t1 1 toyKey)
    \<and> Tree_Delete toyHash 8 toyKey toyTree = (Inl (Wrapf ''failed to delete'' (Wrapf ''delete failed'' ErrKeyNotFound)), t3)"
proof -
  let ?sp = "snd (spec_Put toyKey toyValue spec_init)"
  obtain t1 where t1: "Tree_Put toyHash 7 toyKey toyValue toyTree = (Inr 1, t1)" "tree_rel toyHash ?sp t1"
    using toy_put by blast
  have sp: "2 = sp_latest ?sp + 1" "sp_latest ?sp \<noteq> MaxVersion" "sp_committed ?sp (sp_current ?sp) = Some toyMap" "twinless toyMap toyKey"
    "toyMap toyKey \<noteq> None"
    by (simp_all add: spec_Put_toy MaxVersion_def twinless_def alone_def toyMap_def)
  have "hash_ok toyHash (toyMap(toyKey := None) # sp_hist ?sp)"
    by (rule hash_ok_mono [OF toy_hash_ok]) (auto simp: spec_Put_toy toyMap_def)
  from delete_visible [OF sp(1) t1(2) wf_toyHash wf_toyKey toyKey_not_empty sp(2-4) this, of 8] sp(5)
  obtain t2 where t2: "Tree_Delete toyHash 8 toyKey t1 = (Inr 2, t2)" "fst (Tree_Get toyHash t2 2 toyKey) = Inr None"
    "fst (Tree_Get toyHash t2 1 toyKey) = fst (Tree_Get toyHash t1 1 toyKey)" by force
  have i: "1 = sp_latest spec_init + 1" "sp_latest spec_init \<noteq> MaxVersion" "sp_committed spec_init (sp_current spec_init) = Some Map.empty"
    "twinless Map.empty toyKey"
    by (simp_all add: spec_init_def MaxVersion_def twinless_def)
  have "hash_ok toyHash (Map.empty(toyKey := None) # sp_hist spec_init)"
    by (rule hash_ok_mono [OF toy_hash_ok]) (auto simp: spec_init_def)
  from delete_visible [OF i(1) toyTree_rel wf_toyHash wf_toyKey toyKey_not_empty i(2-4) this, of 8] t1(1) t2 show ?thesis by auto
qed

text \<open>
  C5: committed versions are immutable. Whatever operations follow, reading a key at a version that is already
  committed gives what it gave before, and its root hash stays.
\<close>

theorem committed_versions_immutable:
  assumes "tree_rel H sp t" and "\<And>x. wf_hash (H x)" and "hash_ok H (sp_hist (snd (specRun ops sp)))" and "run_ok ops sp"
    and "HasVersion t v" and "wf_key k"
  shows "fst (Tree_Get H (snd (run H ops t)) v k) = fst (Tree_Get H t v k) \<and> GetRootHash (snd (run H ops t)) v = GetRootHash t v"
proof -
  obtain m where m: "sp_committed sp v = Some m"
    using assms(5) tree_relD(7) [OF assms(1)] by (auto simp: HasVersion_def versions_rel_def)
  note m' = run_committed_stable [OF assms(1-4) m]
  have rel: "tree_rel H (snd (specRun ops sp)) (snd (run H ops t))" using run_refines [OF assms(1-4)] by simp
  have "hash_ok H (sp_hist sp)" using hash_ok_mono [OF assms(3) hist_mono_run] .
  with get_refines [OF rel assms(2,3,6), of v] get_refines [OF assms(1,2) _ assms(6), of v] m m'
  have "fst (Tree_Get H (snd (run H ops t)) v k) = fst (Tree_Get H t v k)" by (simp add: spec_get_def)
  moreover have "GetRootHash (snd (run H ops t)) v = GetRootHash t v"
    using tree_relD(7) [OF rel] tree_relD(7) [OF assms(1)] m m' by (simp add: versions_rel_def GetRootHash_def)
  ultimately show ?thesis ..
qed

theorem committed_versions_immutable_witness:
  "fst (Tree_Get toyHash (snd (run toyHash [TreePutOp 7 toyKey toyValue] toyTree)) 0 toyKey) = fst (Tree_Get toyHash toyTree 0 toyKey)"
proof -
  have ok: "hash_ok toyHash (sp_hist (snd (specRun [TreePutOp 7 toyKey toyValue] spec_init)))"
    using toy_hash_ok by (simp add: spec_Put_toy)
  have "run_ok [TreePutOp 7 toyKey toyValue] spec_init" "HasVersion toyTree 0" by (simp_all add: HasVersion_def toyTree_def)
  from committed_versions_immutable [OF toyTree_rel wf_toyHash ok this wf_toyKey] show ?thesis ..
qed

text \<open>
  C4: the root hash authenticates the contents. If a version of one tree and a version of another (or the same)
  tree have the same root hash, then \<open>Get\<close> returns the same for every key at both, or the hash function collides on
  inputs that the two trees hashed; and two versions with the same contents have the same root hash, whatever
  operations built them.
\<close>

theorem root_hash_authenticates:
  assumes "tree_rel H sp t" and "tree_rel H sp' t'" and "\<And>x. wf_hash (H x)" and "hash_ok H (sp_hist sp)" and "hash_ok H (sp_hist sp')"
    and v: "sp_committed sp v = Some m" "sp_committed sp' v' = Some m'" and "v \<le> MaxVersion" and "v' \<le> MaxVersion"
  shows "(GetRootHash t v = GetRootHash t' v' \<longrightarrow>
      collides H (inputs H (sp_hist sp) \<union> inputs H (sp_hist sp'))
      \<or> (\<forall>k. wf_key k \<longrightarrow> fst (Tree_Get H t v k) = fst (Tree_Get H t' v' k)))
    \<and> (m = m' \<longrightarrow> GetRootHash t v = GetRootHash t' v')"
proof -
  have root: "GetRootHash t v = Inr (merkle_root H (hashed H m))" "GetRootHash t' v' = Inr (merkle_root H (hashed H m'))"
    using tree_relD(7) [OF assms(1)] tree_relD(7) [OF assms(2)] v by (simp_all add: versions_rel_def GetRootHash_def)
  have mh: "m \<in> set (sp_hist sp)" "m' \<in> set (sp_hist sp')"
    using committedD(1) [OF assms(1) v(1)] committedD(1) [OF assms(2) v(2)] by (simp_all add: version_ok_def)
  have "m k = m' k" if "merkle_root H (hashed H m) = merkle_root H (hashed H m')" "wf_key k"
      "\<not> collides H (inputs H (sp_hist sp) \<union> inputs H (sp_hist sp'))" for k
    using root_inject [OF assms(3) that(1) mh assms(4,5) that(3,2)] .
  moreover have "fst (Tree_Get H t v k) = spec_get v k sp" "fst (Tree_Get H t' v' k) = spec_get v' k sp'" if "wf_key k" for k
    using get_refines [OF assms(1,3,4) that] get_refines [OF assms(2,3,5) that] by simp_all
  ultimately show ?thesis using root v assms(8,9) by (auto simp: spec_get_def leD)
qed

theorem root_hash_authenticates_witness:
  "\<exists>t1. Tree_Put toyHash 7 toyKey toyValue toyTree = (Inr 1, t1)
    \<and> (GetRootHash toyTree 0 = GetRootHash t1 1 \<longrightarrow>
        collides toyHash (inputs toyHash [Map.empty] \<union> inputs toyHash [toyMap, Map.empty])
        \<or> fst (Tree_Get toyHash toyTree 0 toyKey) = fst (Tree_Get toyHash t1 1 toyKey))"
proof -
  let ?sp = "snd (spec_Put toyKey toyValue spec_init)"
  obtain t1 where t1: "Tree_Put toyHash 7 toyKey toyValue toyTree = (Inr 1, t1)" "tree_rel toyHash ?sp t1"
    using toy_put by blast
  have sp: "sp_committed ?sp 1 = Some toyMap" "sp_hist ?sp = [toyMap, Map.empty]" by (simp_all add: spec_Put_toy)
  have i: "sp_committed spec_init 0 = Some Map.empty" "sp_hist spec_init = [Map.empty]" by (simp_all add: spec_init_def)
  have le: "(0 :: version) \<le> MaxVersion" "(1 :: version) \<le> MaxVersion" by (simp, code_simp)
  from root_hash_authenticates [OF toyTree_rel t1(2) wf_toyHash toy_hash_ok_init toy_hash_ok_put i(1) sp(1) le] t1(1) wf_toyKey
  show ?thesis unfolding i(2) sp(2) by blast
qed

text \<open>
  C12: garbage collection of versions. It never removes the latest committed version; the versions it removes
  are then unknown to \<open>Get\<close>, and every other version reads as before.
\<close>

theorem gc_keeps_versions:
  assumes "tree_rel H sp t" and "\<And>x. wf_hash (H x)" and "hash_ok H (sp_hist sp)"
    and "CollectVersionGarbage cap now t = (Inr rm, t')" and "wf_key k" and "k \<noteq> emptyKey" and "v \<le> MaxVersion"
  shows "GetLatestVersion t \<notin> set rm \<and> GetLatestVersion t' = GetLatestVersion t
    \<and> fst (Tree_Get H t' v k) = (if v \<in> set rm then Inl ErrVersionNotFound else fst (Tree_Get H t v k))"
proof -
  note g = gc_refines [OF assms(1,4)]
  have "GetLatestVersion t = sp_current sp" "GetLatestVersion t' = sp_current sp"
    using tree_relD(4) [OF assms(1)] tree_relD(4) [OF conjunct1 [OF g]] by (simp_all add: GetLatestVersion_def)
  moreover have "fst (Tree_Get H t' v k) = (if v \<in> set rm then Inl ErrVersionNotFound else fst (Tree_Get H t v k))"
    using get_refines [OF conjunct1 [OF g] assms(2) _ assms(5), of v] get_refines [OF assms(1-3,5), of v] assms(3,6,7)
    by (simp add: spec_get_def leD restrict_map_def)
  ultimately show ?thesis using conjunct2 [OF g] by simp
qed

theorem gc_keeps_versions_witness:
  "\<exists>t'. CollectVersionGarbage id 9 toyTree = (Inr [], t') \<and> fst (Tree_Get toyHash t' 0 toyKey) = fst (Tree_Get toyHash toyTree 0 toyKey)"
proof -
  have gc: "CollectVersionGarbage id 9 toyTree = (Inr [], toyTree)"
    by (simp add: CollectVersionGarbage_def CollectGarbage_def garbage_def committedVersions_def toyTree_def NewVersionManager_def
        NewVersionManagerWithRetention_def Let_def)
  from gc_keeps_versions [OF toyTree_rel wf_toyHash toy_hash_ok_init gc wf_toyKey toyKey_not_empty, of 0] gc show ?thesis by auto
qed

text \<open>
  C24: input errors. \<open>Put\<close> rejects the zero key, the empty value and a value above the maximal size before it touches
  anything; \<open>PutVersioned\<close>, \<open>DeleteVersioned\<close> and \<open>CommitVersion\<close> reject every version up to \<open>MaxVersion\<close> that is not pending, be it
  committed or unknown, and \<open>Get\<close> and \<open>GetRootHash\<close> every such version that is not committed, be it pending or unknown; none
  of these calls changes the tree.
\<close>

theorem invalid_input_rejected:
  assumes "sp_pending sp v = None" and "sp_committed sp w = None" and "tree_rel H sp t" and "v \<le> MaxVersion" and "w \<le> MaxVersion"
    and "k \<noteq> emptyKey" and "val \<noteq> []" and "length val \<le> MaxValueSize" and "length big > MaxValueSize"
  shows "Tree_Put H now emptyKey val t = (Inl (Wrapf ''invalid key'' ErrEmptyKey), t)
    \<and> Tree_Put H now k [] t = (Inl (Wrapf ''invalid value'' ErrEmptyValue), t)
    \<and> Tree_Put H now k big t = (Inl (Wrapf ''invalid value'' ErrValueTooLarge), t)
    \<and> PutVersioned H v k val t = (Inl (Errorf ''version not pending''), t)
    \<and> DeleteVersioned H v k t = (Inl (Errorf ''version not pending''), t)
    \<and> CommitVersion H now v t = (Inl (Errorf ''version not pending''), t)
    \<and> Tree_Get H t w k = (Inl ErrVersionNotFound, t) \<and> GetRootHash t w = Inl ErrVersionNotFound"
proof -
  have "gm_get (pendingWrites (t_versionManager t)) v = None" using assms(1) unfolding pending_iff [OF assms(3)] .
  moreover have "gm_get (t_rootHashes t) w = None" using tree_relD(7) [OF assms(3)] assms(2) by (simp add: versions_rel_def)
  ultimately show ?thesis
    using assms(4-9)
    by (auto simp: Tree_Put_def validateKey_def validateValue_def validateVersion_def wrapE_def PutVersioned_def DeleteVersioned_def
        updateVersioned_def GetPending_def CommitVersion_def Tree_Get_def GetRootHash_def leD)
qed

theorem invalid_input_rejected_witness:
  "\<exists>t1 t2. Tree_Put toyHash 7 toyKey toyValue toyTree = (Inr 1, t1) \<and> BeginVersion 8 t1 = (Inr 2, t2)
    \<and> Tree_Put toyHash 9 toyKey (replicate (MaxValueSize + 1) 0) t2 = (Inl (Wrapf ''invalid value'' ErrValueTooLarge), t2)
    \<and> PutVersioned toyHash 1 toyKey toyValue t2 = (Inl (Errorf ''version not pending''), t2)
    \<and> Tree_Get toyHash t2 2 toyKey = (Inl ErrVersionNotFound, t2)"
proof -
  let ?sp = "snd (spec_Put toyKey toyValue spec_init)" and ?sp2 = "snd (spec_begin (snd (spec_Put toyKey toyValue spec_init)))"
  obtain t1 where t1: "Tree_Put toyHash 7 toyKey toyValue toyTree = (Inr 1, t1)" "tree_rel toyHash ?sp t1"
    using toy_put by blast
  have sp: "fst (spec_begin ?sp) = Inr 2" "sp_pending ?sp2 1 = None" "sp_committed ?sp2 2 = None"
    unfolding spec_Put_toy by (simp_all add: spec_begin_def spec_init_def MaxVersion_def Let_def)
  obtain r t2 where t2: "BeginVersion 8 t1 = (r, t2)" by fastforce
  have rel: "r = Inr 2" "tree_rel toyHash ?sp2 t2" using begin_refines [OF t1(2), of 8] t2 sp(1) by simp_all
  have le: "(1 :: version) \<le> MaxVersion" "(2 :: version) \<le> MaxVersion" by (code_simp, code_simp)
  have i: "toyValue \<noteq> []" "length toyValue \<le> MaxValueSize" "length (replicate (MaxValueSize + 1) (0 :: byte)) > MaxValueSize"
    by (simp_all add: toyValue_def MaxValueSize_def)
  from invalid_input_rejected [OF sp(2,3) rel(2) le toyKey_not_empty i, where now = 9] t1(1) t2 rel(1) show ?thesis by blast
qed

text \<open>The error of an outcome, and when an operation on a versioned map misses its target or gets bad input.\<close>

fun outError :: "outcome \<Rightarrow> error option" where
  "outError (OutVersion (Inl e)) = Some e"
| "outError (OutUnit (Inl e)) = Some e"
| "outError (OutValue (Inl e)) = Some e"
| "outError _ = None"

fun misses :: "op \<Rightarrow> spec \<Rightarrow> bool" where
  "misses (DeleteOp v k) sp \<longleftrightarrow> v \<le> MaxVersion \<and> k \<noteq> emptyKey \<and> (\<exists>m b. sp_pending sp v = Some (m, b) \<and> m k = None)"
| "misses (TreeDeleteOp now k) sp \<longleftrightarrow> sp_latest sp \<noteq> MaxVersion \<and> k \<noteq> emptyKey \<and> the (sp_committed sp (sp_current sp)) k = None"
| "misses (GetOp v k) sp \<longleftrightarrow> v \<le> MaxVersion \<and> k \<noteq> emptyKey \<and> sp_committed sp v = None"
| "misses _ sp \<longleftrightarrow> False"

fun badInput :: "op \<Rightarrow> spec \<Rightarrow> bool" where
  "badInput (PutOp v k val) sp \<longleftrightarrow> v \<le> MaxVersion \<and> (k = emptyKey \<or> length val > MaxValueSize)"
| "badInput (DeleteOp v k) sp \<longleftrightarrow> v \<le> MaxVersion \<and> k = emptyKey"
| "badInput (GetOp v k) sp \<longleftrightarrow> v \<le> MaxVersion \<and> k = emptyKey"
| "badInput (TreePutOp now k val) sp \<longleftrightarrow> k = emptyKey \<or> length val > MaxValueSize"
| "badInput (TreeDeleteOp now k) sp \<longleftrightarrow> sp_latest sp \<noteq> MaxVersion \<and> k = emptyKey"
| "badInput _ sp \<longleftrightarrow> False"

lemma spec_error_codes:
  assumes "outError (fst (specExec x sp)) = Some e"
  shows "GetErrorCode e = (if badInput x sp then CodeInvalidInput else if misses x sp then CodeNotFound else CodeUnknown)"
    and "\<not> IsRetryable e"
  using assms
  by (cases x; auto simp: spec_begin_def spec_put_def spec_delete_def spec_commit_def spec_abort_def spec_get_def spec_Put_def
      spec_Delete_def checkPut_def checkDelete_def Let_def split: if_splits option.splits sum.splits)+

text \<open>
  C25: the class of every error of the tree. However it was wrapped on the way, \<open>GetErrorCode\<close> gives \<open>CodeInvalidInput\<close> for the
  zero key and an oversized value, \<open>CodeNotFound\<close> for a deletion of an absent key and a read of an unknown version, and
  \<open>CodeUnknown\<close> for everything else, the empty value and a version out of range included; no error of the tree is retryable,
  and wrapping it once more changes neither.
\<close>

theorem tree_error_codes:
  assumes "tree_rel H sp t" and "\<And>x. wf_hash (H x)" and "hash_ok H (sp_hist (snd (specExec x sp)))" and "op_ok x sp"
    and "outError (fst (exec H x t)) = Some e"
  shows "\<not> IsRetryable e
    \<and> GetErrorCode e = (if badInput x sp then CodeInvalidInput else if misses x sp then CodeNotFound else CodeUnknown)
    \<and> map_option GetErrorCode (WrapError (Some e) msg) = Some (GetErrorCode e)"
proof -
  have "outError (fst (specExec x sp)) = Some e" using exec_refines [OF assms(1-4)] assms(5) by simp
  from spec_error_codes [OF this] show ?thesis by (simp add: WrapError_def)
qed

theorem tree_error_codes_witness:
  "\<exists>e e'. outError (fst (exec toyHash (TreeDeleteOp 7 toyKey) toyTree)) = Some e \<and> GetErrorCode e = CodeNotFound
    \<and> outError (fst (exec toyHash (TreePutOp 7 toyKey []) toyTree)) = Some e' \<and> GetErrorCode e' = CodeUnknown"
proof -
  have max: "(0 :: version) \<noteq> MaxVersion" by (simp add: MaxVersion_def)
  have del: "specExec (TreeDeleteOp 7 toyKey) spec_init =
      (OutVersion (Inl (Wrapf ''failed to delete'' (Wrapf ''delete failed'' ErrKeyNotFound))), spec_init\<lparr>sp_latest := 1\<rparr>)"
    using max by (simp add: spec_Delete_def spec_init_def Let_def)
  have put: "specExec (TreePutOp 7 toyKey []) spec_init = (OutVersion (Inl (Wrapf ''invalid value'' ErrEmptyValue)), spec_init)"
    by (simp add: spec_Put_def)
  have ok: "hash_ok toyHash (sp_hist (snd (specExec (TreeDeleteOp 7 toyKey) spec_init)))"
    "hash_ok toyHash (sp_hist (snd (specExec (TreePutOp 7 toyKey []) spec_init)))"
    "op_ok (TreeDeleteOp 7 toyKey) spec_init" "op_ok (TreePutOp 7 toyKey []) spec_init"
    using toy_hash_ok_init wf_toyKey by (simp_all only: del put snd_conv) (simp_all add: spec_init_def twinless_def)
  note e = tree_error_codes [OF toyTree_rel wf_toyHash ok(1,3)] tree_error_codes [OF toyTree_rel wf_toyHash ok(2,4)]
  have "outError (fst (exec toyHash (TreeDeleteOp 7 toyKey) toyTree)) = Some (Wrapf ''failed to delete'' (Wrapf ''delete failed'' ErrKeyNotFound))"
    "outError (fst (exec toyHash (TreePutOp 7 toyKey []) toyTree)) = Some (Wrapf ''invalid value'' ErrEmptyValue)"
    using exec_refines [OF toyTree_rel wf_toyHash ok(1,3)] exec_refines [OF toyTree_rel wf_toyHash ok(2,4)] by (simp_all only: del put fst_conv outError.simps)
  with e(1) [OF this(1), of "[]"] e(2) [OF this(2), of "[]"] max show ?thesis by (simp add: spec_init_def)
qed

text \<open>
  C26: a version that is committed without any operation loses the data. Its root hash is the one of its parent, so the
  version claims the parent's contents, but \<open>CommitVersion\<close> writes no root node for it and \<open>Get\<close> finds nothing at
  it for any key.
\<close>

theorem empty_commit_loses_data:
  assumes "tree_rel H sp t" and "sp_latest sp \<noteq> MaxVersion" and "sp_committed sp (sp_current sp) = Some m" and "0 < sp_current sp"
    and v: "v = sp_latest sp + 1" and "wf_key k" and "k \<noteq> emptyKey"
  shows "\<exists>t1 t2. BeginVersion now t = (Inr v, t1) \<and> CommitVersion H now v t1 = (Inr (), t2)
    \<and> GetRootHash t2 v = GetRootHash t (sp_current sp) \<and> fst (Tree_Get H t2 v k) = Inr None"
proof -
  obtain t1 t2 where t2: "BeginVersion now t = (Inr v, t1)" "CommitVersion H now v t1 = (Inr (), t2)" "t_db t2 = t_db t"
    "gm_get (t_rootHashes t2) v = Some (merkle_root H (hashed H m))"
    using empty_commit [OF assms(1-4), of now] unfolding v by blast
  note nf = next_free [OF assms(1,2), folded v]
  have "GetRootHash t (sp_current sp) = Inr (merkle_root H (hashed H m))"
    using tree_relD(7) [OF assms(1)] assms(3) by (simp add: versions_rel_def GetRootHash_def)
  moreover have "fst (Tree_Get H t2 v k) = Inr None"
  proof -
    have st: "\<not> ms_closing (t_db t)" "snapshots_free (t_db t)" using tree_relD(5) [OF assms(1)] by (simp_all add: store_ok_def)
    obtain sn db1 where sn: "NewSnapshot (t_db t) = (MemSnapshot sn, db1)" "sn_data sn = ms_data (t_db t)"
      using snapshot_roundtrip [OF st] by blast
    have "gm_get (ms_data (t_db t)) (skey v []) = None" using unwritten_load(1) [OF assms(1), of "[]" v] nf(1) by simp
    then have "Reader_Get H \<lparr>rd_snapshot = MemSnapshot sn, rd_version = v, rd_rootHash = h\<rparr> k = Inr None" for h
      using sn(2) by (simp add: Reader_Get_def Reader_loadNode_def RootNodeKey_nkey skey_def)
    with sn(1) t2(3,4) nf(2) assms(7) show ?thesis
      by (simp add: Tree_Get_def validateVersion_def validateKey_def leD)
  qed
  ultimately show ?thesis using t2 by (auto simp: GetRootHash_def)
qed

theorem empty_commit_loses_data_witness:
  "\<exists>t1 t2 t3. Tree_Put toyHash 7 toyKey toyValue toyTree = (Inr 1, t1) \<and> BeginVersion 8 t1 = (Inr 2, t2)
    \<and> CommitVersion toyHash 8 2 t2 = (Inr (), t3) \<and> GetRootHash t3 2 = GetRootHash t1 1 \<and> fst (Tree_Get toyHash t3 2 toyKey) = Inr None"
proof -
  let ?sp = "snd (spec_Put toyKey toyValue spec_init)"
  obtain t1 where t1: "Tree_Put toyHash 7 toyKey toyValue toyTree = (Inr 1, t1)" "tree_rel toyHash ?sp t1"
    using toy_put by blast
  have sp: "sp_latest ?sp \<noteq> MaxVersion" "sp_committed ?sp (sp_current ?sp) = Some toyMap" "0 < sp_current ?sp" "2 = sp_latest ?sp + 1"
    "sp_current ?sp = 1"
    by (simp_all add: spec_Put_toy MaxVersion_def)
  from empty_commit_loses_data [OF t1(2) sp(1-4) wf_toyKey toyKey_not_empty, of 8] t1(1) show ?thesis unfolding sp(5) by blast
qed

section \<open>Batches\<close>

text \<open>
  C11: batches are atomic. Executing a transaction that was built with \<open>BatchPut\<close>, \<open>BatchDelete\<close> and \<open>Clear\<close> either
  commits one version whose contents are those of the latest version after all operations of the transaction in
  order, and empties the transaction; or, if it has no operation or the last operation of one of its keys is an empty or
  oversized put or the delete of a key that is not there, fails, keeps the transaction and leaves every version as it reads. No
  other version changes in either case. Excluded are batches that delete a key whose first 63 nibbles another key of the
  latest version or of a put shares (\<open>batch_twinless\<close>), for which the code collapses the tree wrongly.
\<close>

theorem batch_atomic:
  assumes v: "v = sp_latest sp + 1" and rel: "tree_rel H sp t" and H: "\<And>x. wf_hash (H x)" and lt: "sp_latest sp \<noteq> MaxVersion"
    and m: "sp_committed sp (sp_current sp) = Some m" and bt: "built bt" "\<forall>x \<in> set (GetOperations bt). wf_key (op_Key x)"
    and tw: "batch_twinless m (GetOperations bt)"
    and ok: "hash_ok H (sp_hist (snd (spec_Execute (lastOps (GetOperations bt)) sp)))"
  shows "\<exists>r bt' t'. Execute H now bt t = (r, bt', t')
    \<and> (if Size bt \<noteq> 0 \<and> (\<forall>x \<in> set (OptimizeOperations bt). applicable m x)
       then r = Inr v \<and> bt' = NewBatchTransaction \<and> GetLatestVersion t' = v
         \<and> (\<forall>k. wf_key k \<longrightarrow> k \<noteq> emptyKey \<longrightarrow> fst (Tree_Get H t' v k) = Inr (effects (GetOperations bt) m k))
         \<and> GetRootHash t' v = Inr (merkle_root H (hashed H (effects (GetOperations bt) m)))
       else (\<exists>e. r = Inl e) \<and> bt' = bt \<and> GetLatestVersion t' = GetLatestVersion t
         \<and> (\<forall>k. wf_key k \<longrightarrow> fst (Tree_Get H t' v k) = fst (Tree_Get H t v k)))
    \<and> (\<forall>w k. wf_key k \<longrightarrow> w \<noteq> v \<longrightarrow> fst (Tree_Get H t' w k) = fst (Tree_Get H t w k))"
proof (cases "Size bt = 0")
  case True
  then have "Execute H now bt t = (Inl (Errorf ''no operations in batch''), bt, t)"
    by (simp add: Execute_def optimizeOperationsLocked_def Size_def)
  with True show ?thesis by simp
next
  case False
  note size = False
  let ?xs = "lastOps (bt_operations bt)"
  let ?sp = "snd (spec_Execute ?xs sp)"
  note inv = built_inv [OF bt(1)]
  have ne: "bt_operations bt \<noteq> []" and wf: "\<forall>x \<in> set (bt_operations bt). wf_key (op_Key x)"
    and tw': "batch_twinless m (bt_operations bt)" and ok': "hash_ok H (sp_hist ?sp)"
    using False bt(2) tw ok by (simp_all add: Size_def GetOperations_def)
  obtain t' where ex: "Execute H now bt t = (fst (spec_Execute ?xs sp), (if \<forall>x \<in> set ?xs. applicable m x then Clear bt else bt), t')"
    and rel': "tree_rel H ?sp t'"
    using Execute_refines [OF rel H lt m inv ne wf tw' ok', of now] by blast
  have xs: "\<forall>x \<in> set ?xs. proper x" "distinct (map op_Key ?xs)" "?xs \<noteq> []"
    using set_lastOps [of "bt_operations bt"] inv wf ne distinct_lastOps by (auto simp: bt_inv_def proper_def)
  note out = spec_Execute_outcome [OF rel lt m xs]
  have opt: "OptimizeOperations bt = ?xs" using optimize_lastOps [OF inv] by (simp add: OptimizeOperations_def)
  have le: "v \<le> MaxVersion" using next_free(2) [OF rel lt] by (simp add: v)
  have cur: "GetLatestVersion t = sp_current sp" "GetLatestVersion t' = sp_current ?sp"
    using tree_relD(4) [OF rel] tree_relD(4) [OF rel'] by (simp_all add: GetLatestVersion_def)
  have "set (sp_hist sp) \<subseteq> set (sp_hist ?sp)" using out by (cases "\<forall>x \<in> set ?xs. applicable m x") auto
  then have get: "fst (Tree_Get H t' w k) = spec_get w k ?sp" "fst (Tree_Get H t w k) = spec_get w k sp" if "wf_key k" for w k
    using get_refines [OF rel' H ok' that] get_refines [OF rel H hash_ok_mono [OF ok'] that] by simp_all
  show ?thesis
  proof (cases "\<forall>x \<in> set ?xs. applicable m x")
    case True
    from out(1) [OF this] obtain hist where sp: "spec_Execute ?xs sp = (Inr v, sp\<lparr>sp_committed := (sp_committed sp)(v \<mapsto> effects ?xs m),
        sp_latest := v, sp_current := v, sp_hist := hist @ sp_hist sp\<rparr>)" unfolding v by blast
    have "GetRootHash t' v = Inr (merkle_root H (hashed H (effects ?xs m)))"
      using tree_relD(7) [OF rel'] by (simp add: versions_rel_def GetRootHash_def sp)
    with ex le cur True size show ?thesis
      by (auto simp: opt get spec_get_def sp effects_lastOps GetOperations_def Clear_def NewBatchTransaction_def leD)
  next
    case False
    from out(2) [OF this] obtain e hist where sp: "spec_Execute ?xs sp = (Inl e, sp\<lparr>sp_latest := v, sp_hist := hist @ sp_hist sp\<rparr>)"
      unfolding v by blast
    have no: "\<not> (Size bt \<noteq> 0 \<and> (\<forall>x \<in> set ?xs. applicable m x))" using False by blast
    with sp ex cur show ?thesis unfolding opt if_not_P [OF no] if_not_P [OF False] by (simp add: get spec_get_def)
  qed
qed

text \<open>A transaction with one put.\<close>

definition toyBatch :: BatchTransaction where
  "toyBatch = snd (BatchPut toyKey (Some toyValue) NewBatchTransaction)"

lemma toyBatch_built: "built toyBatch"
  unfolding toyBatch_def by (rule built.put [OF built.new]) (rule surjective_pairing)

lemma toyBatch_ops: "GetOperations toyBatch = [\<lparr>op_Type = BatchOpPut, op_Key = toyKey, op_Value = Some toyValue\<rparr>]"
  using toyKey_not_empty by (simp add: toyBatch_def BatchPut_def validateKey_def addOperation_def GetOperations_def NewBatchTransaction_def)

lemma toyBatch_spec: "\<exists>sp'. spec_Execute (lastOps (GetOperations toyBatch)) spec_init = (Inr 1, sp') \<and> sp_hist sp' = [toyMap, Map.empty]"
proof -
  have "(0 :: version) \<noteq> MaxVersion" by (simp add: MaxVersion_def)
  with one_le_MaxVersion show ?thesis
    by (simp add: toyBatch_ops spec_Execute_def specOps_step specStep_def spec_begin_def spec_put_def checkPut_def spec_commit_def spec_set_def spec_init_def
        toyMap_def toyValue_def MaxValueSize_def Let_def leD)
qed

theorem batch_atomic_witness:
  "\<exists>t'. Execute toyHash 7 toyBatch toyTree = (Inr 1, NewBatchTransaction, t') \<and> fst (Tree_Get toyHash t' 1 toyKey) = Inr (Some toyValue)
    \<and> fst (Tree_Get toyHash t' 0 toyKey) = fst (Tree_Get toyHash toyTree 0 toyKey)"
proof -
  have i: "1 = sp_latest spec_init + 1" "sp_latest spec_init \<noteq> MaxVersion" "sp_committed spec_init (sp_current spec_init) = Some Map.empty"
    by (simp_all add: spec_init_def MaxVersion_def)
  have b: "\<forall>x \<in> set (GetOperations toyBatch). wf_key (op_Key x)" "batch_twinless Map.empty (GetOperations toyBatch)"
    using toyBatch_ops by (simp_all add: Size_def GetOperations_def wf_toyKey batch_twinless_def alone_def BatchOpPut_def BatchOpDelete_def)
  have "hash_ok toyHash (sp_hist (snd (spec_Execute (lastOps (GetOperations toyBatch)) spec_init)))"
    using toyBatch_spec toy_hash_ok by auto
  note a = batch_atomic [OF i(1) toyTree_rel wf_toyHash i(2,3) toyBatch_built b this, of 7]
  have "Size toyBatch \<noteq> 0" "\<forall>x \<in> set (OptimizeOperations toyBatch). applicable Map.empty x" "effects (GetOperations toyBatch) Map.empty toyKey = Some toyValue"
    using optimize_lastOps [OF built_inv [OF toyBatch_built]] toyBatch_ops
    by (simp_all add: OptimizeOperations_def GetOperations_def Size_def applicable_def effect_def toyValue_def MaxValueSize_def)
  with a wf_toyKey toyKey_not_empty show ?thesis by force
qed

section \<open>Persistence\<close>

text \<open>
  C13: reopening. After any run of operations, opening a new tree on the storage of the old one succeeds. The
  new tree has the same latest version, and at every version above 0 the same root hash and the same value for every
  key; pending versions are gone. From there, again, every operation returns what the versioned map returns.
\<close>

theorem reopen_keeps_versions:
  assumes "\<And>x. wf_hash (H x)" and "empty_store db" and "0 < cf_CacheSize cfg" and "NewTree now db cfg = Inr t"
    and "run_ok ops spec_init" and "0 < cf_CacheSize cfg'" and sp: "sp = snd (specRun ops spec_init)"
    and "run_ok ops' (spec_reopen sp)" and "hash_ok H (sp_hist (snd (specRun ops' (spec_reopen sp))))"
  shows "\<exists>t'. NewTree now' (t_db (snd (run H ops t))) cfg' = Inr t' \<and> GetLatestVersion t' = GetLatestVersion (snd (run H ops t))
    \<and> (\<forall>v k. 0 < v \<longrightarrow> wf_key k \<longrightarrow> fst (Tree_Get H t' v k) = fst (Tree_Get H (snd (run H ops t)) v k))
    \<and> (\<forall>v. 0 < v \<longrightarrow> GetRootHash t' v = GetRootHash (snd (run H ops t)) v)
    \<and> fst (run H ops' t') = fst (specRun ops' (spec_reopen sp))"
proof -
  let ?t = "snd (run H ops t)"
  have hist: "sp_hist (spec_reopen sp) = sp_hist sp" by (simp add: spec_reopen_def)
  have ok: "hash_ok H (sp_hist sp)" using hash_ok_mono [OF assms(9) hist_mono_run] by (simp add: hist)
  have rel: "tree_rel H sp ?t" using run_refines [OF NewTree_rel [OF assms(2-4)] assms(1) ok [unfolded sp] assms(5)] sp by simp
  have dur: "durable ?t"
    using persist.keep_run [OF NewTree_rel [OF assms(2-4)] assms(1) ok [unfolded sp] assms(5) durable_new [OF assms(2-4)]] .
  obtain t' where t': "NewTree now' (t_db ?t) cfg' = Inr t'" "tree_rel H (spec_reopen sp) t'"
    using reopen_rel [OF rel dur assms(1,6), of now'] by blast
  have same: "sp_committed (spec_reopen sp) v = sp_committed sp v" if "0 < v" for v using that by (auto simp: spec_reopen_def)
  have "fst (Tree_Get H t' v k) = fst (Tree_Get H ?t v k)" if "0 < v" "wf_key k" for v k
    using get_refines [OF t'(2) assms(1) _ that(2)] get_refines [OF rel assms(1) ok that(2)] ok same [OF that(1)]
    by (simp add: hist spec_get_def)
  moreover have "GetRootHash t' v = GetRootHash ?t v" if "0 < v" for v
    using rel_root [OF rel, of v] rel_root [OF t'(2), of v] same [OF that] by (simp add: GetRootHash_def)
  moreover have "GetLatestVersion t' = GetLatestVersion ?t"
    using tree_relD(4) [OF rel] tree_relD(4) [OF t'(2)] by (simp add: GetLatestVersion_def spec_reopen_def)
  ultimately show ?thesis using run_refines [OF t'(2) assms(1,9,8)] t'(1) by blast
qed

theorem reopen_keeps_versions_witness:
  "\<exists>t'. NewTree 9 (t_db (snd (run toyHash [TreePutOp 7 toyKey toyValue, BeginOp 8] toyTree))) DefaultTreeConfig = Inr t'
    \<and> fst (run toyHash [GetOp 1 toyKey, GetOp 0 toyKey, CommitOp 9 2] t') =
        [OutValue (Inr (Some toyValue)), OutValue (Inl ErrVersionNotFound), OutUnit (Inl (Errorf ''version not pending''))]"
proof -
  let ?ops = "[TreePutOp 7 toyKey toyValue, BeginOp 8]" and ?ops' = "[GetOp 1 toyKey, GetOp 0 toyKey, CommitOp 9 2]"
  let ?sp = "snd (specRun ?ops spec_init)"
  have max: "MaxVersion \<noteq> 1" "MaxVersion \<noteq> 0" by (simp_all add: MaxVersion_def)
  then have sp: "sp_hist ?sp = [toyMap, Map.empty]" "sp_current ?sp = 1" "sp_committed ?sp = [0 \<mapsto> Map.empty, 1 \<mapsto> toyMap]"
    by (simp_all add: spec_Put_toy spec_begin_def Let_def)
  have run: "specRun ?ops' (spec_reopen ?sp) = ([OutValue (Inr (Some toyValue)), OutValue (Inl ErrVersionNotFound),
      OutUnit (Inl (Errorf ''version not pending''))], spec_reopen ?sp)"
    using sp(2,3) one_le_MaxVersion toyKey_not_empty by (simp add: spec_get_def spec_commit_def spec_reopen_def toyMap_def leD max)
  have pre: "run_ok ?ops spec_init" "run_ok ?ops' (spec_reopen ?sp)" "0 < cf_CacheSize DefaultTreeConfig"
    by (simp_all add: wf_toyKey DefaultTreeConfig_def spec_get_def spec_reopen_def)
  have "hash_ok toyHash (sp_hist (snd (specRun ?ops' (spec_reopen ?sp))))"
    using toy_hash_ok unfolding run snd_conv by (simp add: spec_reopen_def sp(1) del: specRun.simps)
  from reopen_keeps_versions [OF wf_toyHash empty_NewStorage pre(3) NewTree_toyTree pre(1,3) refl pre(2) this, of 9] run
  show ?thesis by (simp only: fst_conv) blast
qed

section \<open>Integrity checks\<close>

text \<open>
  C23: the integrity checks on a committed version. \<open>ValidateTreeStructure\<close> and \<open>CheckVersion\<close> accept it and leave
  the tree as it is. \<open>VerifyIntegrity\<close>, with a context that is not cancelled, comes to an end within 65 levels, and
  accepts the version if and only if it has a key: it reports the missing root node of an empty version as an error.
\<close>

theorem integrity_checks:
  assumes rel: "tree_rel H sp t" and m: "sp_committed sp v = Some m" and ok: "hash_ok H (sp_hist sp)"
    and "\<forall>i. ctx i = None" and "MaxTreeDepth < fuel"
  shows "ValidateTreeStructure t v = (Inr (), t) \<and> CheckVersion t v = Inr ()
    \<and> (\<exists>r. VerifyIntegrity H fuel ctx t v = (Some r, t) \<and> (is_ok r \<longleftrightarrow> (\<exists>k. wf_key k \<and> m k \<noteq> None)))"
proof -
  have "merkle H (hashed H m) [] MaxTreeDepth \<noteq> None \<longleftrightarrow> (\<exists>k. wf_key k \<and> m k \<noteq> None)"
    using merkle_None_iff [of "[]" MaxTreeDepth H "hashed H m"] by (auto simp: hashed_def)
  with verify_committed [OF assms] validate_committed [OF rel m] check_committed [OF rel m] show ?thesis by auto
qed

theorem integrity_checks_witness:
  "\<exists>t1 r0 r1. Tree_Put toyHash 7 toyKey toyValue toyTree = (Inr 1, t1) \<and> ValidateTreeStructure t1 1 = (Inr (), t1)
    \<and> VerifyIntegrity toyHash 65 (\<lambda>_. None) t1 1 = (Some r1, t1) \<and> is_ok r1
    \<and> VerifyIntegrity toyHash 65 (\<lambda>_. None) t1 0 = (Some r0, t1) \<and> \<not> is_ok r0"
proof -
  let ?sp = "snd (spec_Put toyKey toyValue spec_init)"
  obtain t1 where t1: "Tree_Put toyHash 7 toyKey toyValue toyTree = (Inr 1, t1)" "tree_rel toyHash ?sp t1" using toy_put by blast
  have sp: "sp_committed ?sp 1 = Some toyMap" "sp_committed ?sp 0 = Some Map.empty" by (simp_all add: spec_Put_toy)
  have "MaxTreeDepth < 65" "\<exists>k. wf_key k \<and> toyMap k \<noteq> None" using wf_toyKey by (auto simp: MaxTreeDepth_def toyMap_def)
  then show ?thesis
    using integrity_checks [OF t1(2) sp(1) toy_hash_ok_put, of "\<lambda>_. None" 65] integrity_checks [OF t1(2) sp(2) toy_hash_ok_put, of "\<lambda>_. None" 65] t1(1)
    by auto
qed

section \<open>The node cache\<close>

text \<open>
  C14: the node cache is transparent. With any LRU cache that returns only what was added last under a key, whatever it
  evicts, every load of a node in any sequence of tree operations, loads, removals and purges returns what it returns
  without a cache, and hits and misses add up to the number of loads.
\<close>

theorem node_cache_transparent:
  assumes "lru_laws L view" and "\<And>x. wf_hash (H x)" and "empty_store db" and "0 < cf_CacheSize cfg" and "NewTree now db cfg = Inr t"
    and "run_ok (treeOps es) spec_init" and "hash_ok H (sp_hist (snd (specRun (treeOps es) spec_init)))" and "loads_ok es"
  shows "\<exists>c hits misses size. NewNodeCache L (cf_CacheSize cfg) = Inr c \<and> fst (cachedRun L H es t c) = plainRun H es t
    \<and> Cache_Stats L (snd (cachedRun L H es t c)) = (hits, misses, size) \<and> hits + misses = of_nat (length (plainRun H es t))"
proof -
  obtain c where c: "NewNodeCache L (cf_CacheSize cfg) = Inr c" "coherent view (t_db t) c" using coherent_new [OF assms(1,4)] by blast
  then have "nc_hits c + nc_misses c = 0" using assms(4) by (auto simp: NewNodeCache_def split: sum.splits)
  with cachedRun_ok [OF assms(1,2) NewTree_rel [OF assms(3-5)] assms(6-8) c(2)] c(1) show ?thesis by (simp add: Cache_Stats_def)
qed

theorem node_cache_transparent_witness:
  "\<exists>c. NewNodeCache listLRU 10000 = Inr c
    \<and> fst (cachedRun listLRU toyHash [LoadEvent 1 [], TreeEvent (TreePutOp 7 toyKey toyValue), LoadEvent 1 [], LoadEvent 1 []] toyTree c)
      = plainRun toyHash [LoadEvent 1 [], TreeEvent (TreePutOp 7 toyKey toyValue), LoadEvent 1 [], LoadEvent 1 []] toyTree"
proof -
  let ?es = "[LoadEvent 1 [], TreeEvent (TreePutOp 7 toyKey toyValue), LoadEvent 1 [], LoadEvent 1 []]"
  have cfg: "cf_CacheSize DefaultTreeConfig = 10000" by (simp add: DefaultTreeConfig_def)
  have "hash_ok toyHash (sp_hist (snd (specRun (treeOps ?es) spec_init)))" using toy_hash_ok_put by (simp add: case_prod_unfold Let_def)
  moreover have "run_ok (treeOps ?es) spec_init" "loads_ok ?es" by (simp_all add: wf_toyKey)
  ultimately show ?thesis
    using node_cache_transparent [where H = toyHash and es = ?es, OF listLRU_laws wf_toyHash empty_NewStorage _ NewTree_toyTree] unfolding cfg
    by (simp only: zero_less_numeral simp_thms) blast
qed

section \<open>Merkle proofs of the tree\<close>

text \<open>
  C6: completeness of proofs. For every committed version of the tree and every valid key the generator returns a
  proof against the root hash of that version, and the verifier accepts it: an inclusion proof of the value if the
  key is present, an exclusion proof by an empty slot if it is not.
\<close>

theorem proofs_complete:
  assumes "tree_rel H sp t" and "\<And>x. wf_hash (H x)" and "hash_ok H (sp_hist sp)" and "sp_committed sp v = Some m"
    and "wf_key k" and "k \<noteq> emptyKey"
  shows "\<exists>rd t' p. Tree_Reader t v = (Inr rd, t') \<and> Generate (asTreeReaderInterface H rd) k = Inr p \<and> Verify H p = Inr ()
    \<and> pf_Key p = k \<and> pf_Version p = v \<and> GetRootHash t v = Inr (pf_RootHash p)
    \<and> (case m k of None \<Rightarrow> pf_Type p = ProofTypeExclusionEmpty
       | Some val \<Rightarrow> pf_Type p = ProofTypeInclusion \<and> pf_Value p = Some val)"
  using generated_proof [OF assms] by (cases "m k") auto

lemma toy_committed:
  obtains t1 where "Tree_Put toyHash 7 toyKey toyValue toyTree = (Inr 1, t1)"
    "tree_rel toyHash (snd (spec_Put toyKey toyValue spec_init)) t1"
    "sp_committed (snd (spec_Put toyKey toyValue spec_init)) 1 = Some toyMap"
    "hash_ok toyHash (sp_hist (snd (spec_Put toyKey toyValue spec_init)))"
  using toy_put [of 7] toy_hash_ok_put by (auto simp: spec_Put_toy)

theorem proofs_complete_witness:
  "\<exists>t1 rd t' p. Tree_Put toyHash 7 toyKey toyValue toyTree = (Inr 1, t1) \<and> Tree_Reader t1 1 = (Inr rd, t')
    \<and> Generate (asTreeReaderInterface toyHash rd) toyKey = Inr p \<and> Verify toyHash p = Inr () \<and> pf_Value p = Some toyValue"
proof -
  obtain t1 where t1: "Tree_Put toyHash 7 toyKey toyValue toyTree = (Inr 1, t1)"
    "tree_rel toyHash (snd (spec_Put toyKey toyValue spec_init)) t1"
    "sp_committed (snd (spec_Put toyKey toyValue spec_init)) 1 = Some toyMap"
    "hash_ok toyHash (sp_hist (snd (spec_Put toyKey toyValue spec_init)))"
    by (rule toy_committed)
  from proofs_complete [OF t1(2) wf_toyHash t1(4,3) wf_toyKey toyKey_not_empty] t1(1) show ?thesis
    by (auto simp: toyMap_def)
qed

lemma hash_ok_good: "hash_ok H hist \<longleftrightarrow> hash_good H (inputs H hist)"
  by (simp add: hash_ok_def hash_good_def)

lemma accepted_key:
  assumes "wf_proof p" and "Verify H p = Inr ()"
  shows "wf_key (pf_Key p)" and "pf_Key p \<noteq> emptyKey"
  using assms by (auto simp: wf_proof_def Verify_def Proof_IsValid_def bindE_eq_Inr ValidateKey_def Key_IsEmpty_def split: if_splits)

lemma version_root:
  assumes "tree_rel H sp t" and "GetRootHash t v = Inr h"
  shows "\<exists>m. sp_committed sp v = Some m \<and> m \<in> set (sp_hist sp) \<and> h = merkle_root H (hashed H m)"
proof -
  obtain m where m: "sp_committed sp v = Some m" "h = merkle_root H (hashed H m)"
    using tree_relD(7) [OF assms(1)] assms(2) by (auto simp: versions_rel_def GetRootHash_def split: option.splits)
  then have "m \<in> set (sp_hist sp)" using committedD(1) [OF assms(1)] by (simp add: version_ok_def)
  with m show ?thesis by blast
qed

lemma toy_proof:
  assumes "wf_key k" and "k \<noteq> emptyKey"
  shows "\<exists>t1 rd t' p. Tree_Put toyHash 7 toyKey toyValue toyTree = (Inr 1, t1)
    \<and> tree_rel toyHash (snd (spec_Put toyKey toyValue spec_init)) t1 \<and> Tree_Reader t1 1 = (Inr rd, t')
    \<and> Generate (asTreeReaderInterface toyHash rd) k = Inr p \<and> Verify toyHash p = Inr () \<and> wf_proof p \<and> GetRootHash t1 1 = Inr (pf_RootHash p)
    \<and> pf_Type p = (if toyMap k = None then ProofTypeExclusionEmpty else ProofTypeInclusion) \<and> contiguous (pf_Siblings p) \<and> pf_Key p = k
    \<and> hash_good toyHash (inputs toyHash (sp_hist (snd (spec_Put toyKey toyValue spec_init))) \<union> proof_inputs toyHash p)"
proof -
  obtain t1 where t1: "Tree_Put toyHash 7 toyKey toyValue toyTree = (Inr 1, t1)"
    "tree_rel toyHash (snd (spec_Put toyKey toyValue spec_init)) t1"
    "sp_committed (snd (spec_Put toyKey toyValue spec_init)) 1 = Some toyMap"
    "hash_ok toyHash (sp_hist (snd (spec_Put toyKey toyValue spec_init)))"
    by (rule toy_committed)
  from generated_proof [OF t1(2) wf_toyHash t1(4,3) assms] t1(1,2,4) show ?thesis
    unfolding hash_ok_good by (metis sup.absorb1)
qed

text \<open>
  C7: soundness of inclusion proofs. An inclusion proof that the verifier accepts against the root hash of a version
  shows the truth, whoever made the proof: \<open>Get\<close> at that version returns the value of the proof for its key (the
  siblings' depths do not even have to be right). The hash function must not collide on the inputs of the tree and the proof.
\<close>

theorem inclusion_proofs_sound:
  assumes "tree_rel H sp t" and "\<And>x. wf_hash (H x)" and "v \<le> MaxVersion"
    and "hash_good H (inputs H (sp_hist sp) \<union> proof_inputs H p)"
    and "wf_proof p" and "Verify H p = Inr ()" and "pf_Type p = ProofTypeInclusion" and "GetRootHash t v = Inr (pf_RootHash p)"
  shows "fst (Tree_Get H t v (pf_Key p)) = Inr (pf_Value p) \<and> pf_Value p \<noteq> None"
proof -
  obtain m where m: "sp_committed sp v = Some m" "m \<in> set (sp_hist sp)" "pf_RootHash p = merkle_root H (hashed H m)"
    using version_root [OF assms(1,8)] by blast
  note sub = inputs_mem [OF m(2), of H]
  have good: "hash_good H (merkle_inputs H (hashed H m) [] MaxTreeDepth \<union> proof_inputs H p)"
    using hash_good_mono [OF assms(4)] sub(1) by blast
  obtain val where val: "pf_Value p = Some val" "hashed H m (pf_Key p) = Some (H val)"
    using inclusion_contents [OF assms(2,5,6,7) m(3) good] by blast
  then obtain b where b: "m (pf_Key p) = Some b" "H b = H val" by (auto simp: hashed_def)
  moreover have "b \<in> inputs H (sp_hist sp)" using sub(2) b(1) by (auto simp: ran_def)
  moreover have "val \<in> proof_inputs H p" using assms(7) val(1) by (simp add: proof_inputs_def)
  ultimately have "b = val" using hash_good_eq [OF assms(4)] by blast
  moreover have k: "wf_key (pf_Key p)" "pf_Key p \<noteq> emptyKey"
    using accepted_key [OF assms(5,6)] .
  moreover have "hash_ok H (sp_hist sp)" unfolding hash_ok_good using hash_good_mono [OF assms(4)] by blast
  ultimately show ?thesis
    using get_refines [OF assms(1,2) _ k(1)] b(1) val(1) m(1) assms(3) by (simp add: spec_get_def leD)
qed

theorem inclusion_proofs_sound_witness:
  "\<exists>t1 rd t' p. Tree_Put toyHash 7 toyKey toyValue toyTree = (Inr 1, t1) \<and> Tree_Reader t1 1 = (Inr rd, t')
    \<and> Generate (asTreeReaderInterface toyHash rd) toyKey = Inr p \<and> fst (Tree_Get toyHash t1 1 (pf_Key p)) = Inr (pf_Value p)"
proof -
  obtain t1 rd t' p where t1: "Tree_Put toyHash 7 toyKey toyValue toyTree = (Inr 1, t1)"
    "tree_rel toyHash (snd (spec_Put toyKey toyValue spec_init)) t1" "Tree_Reader t1 1 = (Inr rd, t')"
    "Generate (asTreeReaderInterface toyHash rd) toyKey = Inr p" "Verify toyHash p = Inr ()" "wf_proof p"
    "GetRootHash t1 1 = Inr (pf_RootHash p)" "pf_Type p = (if toyMap toyKey = None then ProofTypeExclusionEmpty else ProofTypeInclusion)"
    "hash_good toyHash (inputs toyHash (sp_hist (snd (spec_Put toyKey toyValue spec_init))) \<union> proof_inputs toyHash p)"
    using toy_proof [OF wf_toyKey toyKey_not_empty] by blast
  have "pf_Type p = ProofTypeInclusion" "(1 :: version) \<le> MaxVersion" using t1(8) by (simp_all add: toyMap_def one_le_MaxVersion)
  from inclusion_proofs_sound [OF t1(2) wf_toyHash this(2) t1(9,6,5) this(1) t1(7)] t1 show ?thesis by blast
qed

text \<open>
  C8: soundness of exclusion proofs by an empty slot. If the siblings are the nodes from the root on, one per depth, an
  accepted proof shows that the key is absent. The generator makes such proofs; the verifier does not check the depths.
\<close>

theorem empty_exclusion_sound:
  assumes "tree_rel H sp t" and "\<And>x. wf_hash (H x)" and "v \<le> MaxVersion"
    and "hash_good H (inputs H (sp_hist sp) \<union> proof_inputs H p)"
    and "wf_proof p" and "Verify H p = Inr ()" and "pf_Type p = ProofTypeExclusionEmpty" and "contiguous (pf_Siblings p)"
    and "GetRootHash t v = Inr (pf_RootHash p)"
  shows "fst (Tree_Get H t v (pf_Key p)) = Inr None"
proof -
  obtain m where m: "sp_committed sp v = Some m" "m \<in> set (sp_hist sp)" "pf_RootHash p = merkle_root H (hashed H m)"
    using version_root [OF assms(1,9)] by blast
  have good: "hash_good H (merkle_inputs H (hashed H m) [] MaxTreeDepth \<union> proof_inputs H p)"
    using hash_good_mono [OF assms(4)] inputs_mem(1) [OF m(2), of H] by blast
  have "m (pf_Key p) = None"
    using exclusion_contents [OF assms(2,5,6,7,8) m(3) good] by (simp add: hashed_def)
  moreover have k: "wf_key (pf_Key p)" "pf_Key p \<noteq> emptyKey"
    using accepted_key [OF assms(5,6)] .
  moreover have "hash_ok H (sp_hist sp)" unfolding hash_ok_good using hash_good_mono [OF assms(4)] by blast
  ultimately show ?thesis
    using get_refines [OF assms(1,2) _ k(1)] m(1) assms(3) by (simp add: spec_get_def leD)
qed

definition otherKey :: key where
  "otherKey = replicate 32 0x12"

lemma otherKey_ok [simp]: "wf_key otherKey" "otherKey \<noteq> emptyKey" "otherKey \<noteq> toyKey"
  by (simp add: otherKey_def wf_key_def KeySize_def) code_simp+

theorem empty_exclusion_sound_witness:
  "\<exists>t1 rd t' p. Tree_Put toyHash 7 toyKey toyValue toyTree = (Inr 1, t1) \<and> Tree_Reader t1 1 = (Inr rd, t')
    \<and> Generate (asTreeReaderInterface toyHash rd) otherKey = Inr p \<and> fst (Tree_Get toyHash t1 1 (pf_Key p)) = Inr None"
proof -
  obtain t1 rd t' p where t1: "Tree_Put toyHash 7 toyKey toyValue toyTree = (Inr 1, t1)"
    "tree_rel toyHash (snd (spec_Put toyKey toyValue spec_init)) t1" "Tree_Reader t1 1 = (Inr rd, t')"
    "Generate (asTreeReaderInterface toyHash rd) otherKey = Inr p" "Verify toyHash p = Inr ()" "wf_proof p"
    "GetRootHash t1 1 = Inr (pf_RootHash p)" "pf_Type p = (if toyMap otherKey = None then ProofTypeExclusionEmpty else ProofTypeInclusion)"
    "hash_good toyHash (inputs toyHash (sp_hist (snd (spec_Put toyKey toyValue spec_init))) \<union> proof_inputs toyHash p)"
    "contiguous (pf_Siblings p)"
    using toy_proof [OF otherKey_ok(1,2)] by blast
  have "pf_Type p = ProofTypeExclusionEmpty" "(1 :: version) \<le> MaxVersion" using t1(8) by (simp_all add: toyMap_def one_le_MaxVersion)
  from empty_exclusion_sound [OF t1(2) wf_toyHash this(2) t1(9,6,5) this(1) t1(10,7)] t1 show ?thesis by blast
qed

text \<open>
  C9: exclusion proofs by a neighbour prove nothing. Once a tree holds one key, the verifier accepts against its root
  hash a well-formed exclusion proof for every other valid key, also for the keys that are in the tree: it checks that
  the two keys diverge, but not that the neighbour's leaf is where the path of the key ends.
\<close>

theorem neighbor_exclusion_forgeable:
  assumes "tree_rel H sp t" and "\<And>x. wf_hash (H x)" and "hash_ok H (sp_hist sp)" and "sp_committed sp v = Some m"
    and "wf_key k'" and "k' \<noteq> emptyKey" and "m k' \<noteq> None" and "wf_key k" and "k \<noteq> emptyKey" and "k \<noteq> k'"
  shows "\<exists>p. Verify H p = Inr () \<and> wf_proof p \<and> pf_Type p = ProofTypeExclusionNeighbor \<and> pf_Key p = k
    \<and> GetRootHash t v = Inr (pf_RootHash p)"
proof -
  obtain p where p: "Verify H p = Inr ()" "wf_proof p" "pf_Key p = k'" "GetRootHash t v = Inr (pf_RootHash p)" "pf_Type p = ProofTypeInclusion"
    using generated_proof [OF assms(1-6)] assms(7) by (auto split: if_splits)
  obtain d where d: "d < MaxTreeDepth" "nibble_at k d \<noteq> nibble_at (pf_Key p) d" "take d (nibbles_of k) = take d (nibbles_of (pf_Key p))"
    using first_difference [OF assms(8,5,10)] p(3) by blast
  let ?f = "forgeNeighbor H k d p"
  have "Verify H ?f = Inr ()" using forgeNeighbor_accepted [OF p(2,1,5) assms(8,9) d] .
  moreover have "wf_proof ?f" using p(2) assms(2,8) by (simp add: wf_proof_def forgeNeighbor_def wf_neighbor_def)
  ultimately show ?thesis using p(4) by (intro exI [where x = ?f]) (simp add: forgeNeighbor_def)
qed

theorem neighbor_exclusion_forgeable_witness:
  "\<exists>t1 p. Tree_Put toyHash 7 toyKey toyValue toyTree = (Inr 1, t1) \<and> Verify toyHash p = Inr ()
    \<and> pf_Type p = ProofTypeExclusionNeighbor \<and> pf_Key p = otherKey \<and> GetRootHash t1 1 = Inr (pf_RootHash p)"
proof -
  obtain t1 where t1: "Tree_Put toyHash 7 toyKey toyValue toyTree = (Inr 1, t1)"
    "tree_rel toyHash (snd (spec_Put toyKey toyValue spec_init)) t1"
    "sp_committed (snd (spec_Put toyKey toyValue spec_init)) 1 = Some toyMap"
    "hash_ok toyHash (sp_hist (snd (spec_Put toyKey toyValue spec_init)))"
    by (rule toy_committed)
  have "toyMap toyKey \<noteq> None" by (simp add: toyMap_def)
  from neighbor_exclusion_forgeable [OF t1(2) wf_toyHash t1(4,3) wf_toyKey toyKey_not_empty this otherKey_ok] t1(1) show ?thesis by blast
qed

text \<open>
  C10: exclusion proofs by an empty slot may skip levels. If some nibble of a key, at whatever depth \<open>d\<close>, is the first
  nibble of no key of the tree, then the verifier accepts an exclusion proof for the key against the tree's root hash,
  also when the key is in the tree: the root node is presented as if it stood at depth \<open>d\<close>.
\<close>

theorem empty_exclusion_forgeable:
  assumes "tree_rel H sp t" and "\<And>x. wf_hash (H x)" and "sp_committed sp v = Some m" and "wf_key k'" and "m k' \<noteq> None"
    and "wf_key k" and "k \<noteq> emptyKey" and "d < MaxTreeDepth"
    and "\<forall>k''. wf_key k'' \<longrightarrow> m k'' \<noteq> None \<longrightarrow> nibble_at k'' 0 \<noteq> nibble_at k d"
  shows "\<exists>p. Verify H p = Inr () \<and> wf_proof p \<and> pf_Type p = ProofTypeExclusionEmpty \<and> pf_Key p = k
    \<and> GetRootHash t v = Inr (pf_RootHash p)"
proof -
  let ?c = "hashed H m"
  have root: "GetRootHash t v = Inr (merkle_root H ?c)"
    using tree_relD(7) [OF assms(1)] assms(3) by (simp add: versions_rel_def GetRootHash_def)
  have ne: "merkle H ?c [] MaxTreeDepth \<noteq> None"
    using merkle_None_iff [of "[]" MaxTreeDepth H ?c] assms(4,5) by (auto simp: hashed_def)
  have below: "below [n] k'' \<longleftrightarrow> nibble_at k'' 0 = n" for n k''
    using below_snoc [of "[]" n k''] by (simp add: MaxTreeDepth_def)
  have "wf_nibbles [nibble_at k d]" "length [nibble_at k d] + 63 = MaxTreeDepth" by (simp_all add: wf_nibbles_def MaxTreeDepth_def)
  then have slot: "merkle H ?c [nibble_at k d] 63 = None"
    using merkle_None_iff [of "[nibble_at k d]" 63 H ?c] assms(9) below by (auto simp: hashed_def)
  let ?p = "forgeEmpty H ?c v k d"
  have "Verify H ?p = Inr ()" using forgeEmpty_accepted [OF assms(6-8) slot ne] .
  moreover have "wf_proof ?p" using wf_forgeEmpty [OF assms(2,6)] .
  ultimately show ?thesis using root by (intro exI [where x = ?p]) (simp add: forgeEmpty_def)
qed

theorem empty_exclusion_forgeable_witness:
  "\<exists>t1 p. Tree_Put toyHash 7 toyKey toyValue toyTree = (Inr 1, t1) \<and> Verify toyHash p = Inr ()
    \<and> pf_Type p = ProofTypeExclusionEmpty \<and> pf_Key p = otherKey \<and> GetRootHash t1 1 = Inr (pf_RootHash p)"
proof -
  obtain t1 where t1: "Tree_Put toyHash 7 toyKey toyValue toyTree = (Inr 1, t1)"
    "tree_rel toyHash (snd (spec_Put toyKey toyValue spec_init)) t1"
    "sp_committed (snd (spec_Put toyKey toyValue spec_init)) 1 = Some toyMap"
    by (rule toy_committed)
  have "nibble_at toyKey 0 \<noteq> nibble_at otherKey 1" by code_simp
  then have "\<forall>k. wf_key k \<longrightarrow> toyMap k \<noteq> None \<longrightarrow> nibble_at k 0 \<noteq> nibble_at otherKey 1" by (simp add: toyMap_def)
  moreover have "toyMap toyKey \<noteq> None" "1 < MaxTreeDepth" by (simp_all add: toyMap_def MaxTreeDepth_def)
  ultimately show ?thesis
    using empty_exclusion_forgeable [OF t1(2) wf_toyHash t1(3) wf_toyKey _ otherKey_ok(1,2)] t1(1) by blast
qed

end
